(* ===== verification/RT_Prelude.thy ===== *)
theory RT_Prelude
  imports Main "HOL-Library.Word" "HOL-Library.Monad_Syntax"
begin

unbundle bit_operations_syntax

text \<open>
  Shared vocabulary of the development: the C integer types of \<open>rtdef.h\<close>, the error codes,
  \<open>RT_ASSERT\<close> as an option-valued guard, alignment, and the generic facts on words,
  options and lists that the component theories use.

  A kernel routine that may stop (a failing \<open>RT_ASSERT\<close> ends in the endless loop of
  \<open>rt_assert_handler\<close>, a stack overflow in the endless loop of the scheduler) is an
  option-valued function: \<open>None\<close> says that the routine does not return.
\<close>

section \<open>Types and constants of rtdef.h\<close>

type_synonym u8 = "8 word"
type_synonym u16 = "16 word"
type_synonym u32 = "32 word"
type_synonym rt_err_t = int

abbreviation (input) RT_EOK :: rt_err_t where "RT_EOK \<equiv> 0"
abbreviation (input) RT_ERROR :: rt_err_t where "RT_ERROR \<equiv> 1"
abbreviation (input) RT_ETIMEOUT :: rt_err_t where "RT_ETIMEOUT \<equiv> 2"
abbreviation (input) RT_EFULL :: rt_err_t where "RT_EFULL \<equiv> 3"
abbreviation (input) RT_EINVAL :: rt_err_t where "RT_EINVAL \<equiv> 10"

text \<open>\<open>RT_TICK_MAX / 2\<close>, the half range that separates future from past ticks.\<close>

abbreviation (input) RT_TICK_HALF :: u32 where "RT_TICK_HALF \<equiv> 0x7FFFFFFF"

text \<open>\<open>RT_ASSERT(b)\<close>.\<close>

definition RT_ASSERT :: "bool \<Rightarrow> unit option" where
  "RT_ASSERT b = (if b then Some () else None)"

named_theorems rt_simps \<open>unfolding facts of the kernel operations\<close>
named_theorems rt_frame \<open>what an operation leaves alone\<close>

lemma RT_ASSERT_simps [simp]:
  "RT_ASSERT True = Some ()" "RT_ASSERT False = None"
  by (simp_all add: RT_ASSERT_def)

lemma RT_ASSERT_eq_Some [simp]: "RT_ASSERT b = Some u \<longleftrightarrow> b"
  by (simp add: RT_ASSERT_def)

lemma bind_RT_ASSERT [simp]:
  "Option.bind (RT_ASSERT b) f = (if b then f () else None)"
  by (simp add: RT_ASSERT_def)

section \<open>Alignment macros\<close>

text \<open>\<open>RT_ALIGN(size, 4)\<close> and \<open>RT_ALIGN_DOWN(size, 4)\<close> on 32-bit values.\<close>

definition RT_ALIGN :: "u32 \<Rightarrow> u32 \<Rightarrow> u32" where
  "RT_ALIGN sz align = (sz + align - 1) AND NOT (align - 1)"

definition RT_ALIGN_DOWN :: "u32 \<Rightarrow> u32 \<Rightarrow> u32" where
  "RT_ALIGN_DOWN sz align = sz AND NOT (align - 1)"

section \<open>Bits of words\<close>

lemma word_and_not_and [simp]: "(s AND NOT m) AND m = (0 :: 'a::len word)"
  by (simp add: bit_eq_iff bit_and_iff bit_not_iff)

lemma word_set_field [simp]:
  fixes s c m :: "'a::len word"
  assumes "c AND m = c"
  shows "(c OR (s AND NOT m)) AND m = c"
  using assms by (simp add: bit.conj_disj_distrib2)

lemma and_not_mask_eq_take_bit:
  fixes x :: "'a::len word"
  shows "x AND NOT (mask n) = push_bit n (drop_bit n x)"
  by (rule bit_word_eqI) (auto simp: bit_simps)

lemma unat_less_32: "unat (x :: u32) < 4294967296"
  using unsigned_less [of x, where ?'a = nat] by simp

lemma unat_less_16: "unat (x :: u16) < 65536"
  using unsigned_less [of x, where ?'a = nat] by simp

lemma unat_less_8: "unat (x :: u8) < 256"
  using unsigned_less [of x, where ?'a = nat] by simp

lemma unat_and_not_3:
  fixes x :: u32
  shows "unat (x AND NOT 3) = unat x - unat x mod 4"
proof -
  have "x AND NOT 3 = push_bit 2 (drop_bit 2 x)"
    using and_not_mask_eq_take_bit [of x 2] by (simp add: mask_eq_exp_minus_1)
  moreover have "unat (push_bit 2 (drop_bit 2 x)) = unat x div 4 * 4"
  proof -
    have "unat x div 4 * 4 < 4294967296"
      using unat_less_32 [of x] by (meson div_times_less_eq_dividend le_less_trans)
    then show ?thesis
      by (simp add: push_bit_eq_mult drop_bit_eq_div unat_word_ariths unat_div)
  qed
  ultimately show ?thesis
    by (simp add: minus_mod_eq_div_mult)
qed

lemma unat_and_minus_4:
  fixes x :: u32
  shows "unat (x AND - 4) = unat x - unat x mod 4"
  using unat_and_not_3 [of x] by simp

lemma unat_RT_ALIGN_DOWN [simp]:
  "unat (RT_ALIGN_DOWN x 4) = unat x - unat x mod 4"
  by (simp add: RT_ALIGN_DOWN_def unat_and_minus_4)

lemma unat_RT_ALIGN:
  assumes "unat x + 3 < 2 ^ 32"
  shows "unat (RT_ALIGN x 4) = (unat x + 3) div 4 * 4"
proof -
  have "unat (x + 3) = unat x + 3"
    using assms by (simp add: unat_word_ariths)
  then show ?thesis
    by (simp add: RT_ALIGN_def unat_and_minus_4 minus_mod_eq_div_mult add.commute)
qed

section \<open>Lists\<close>

lemma remove1_append_notin: "x \<notin> set xs \<Longrightarrow> remove1 x (xs @ ys) = xs @ remove1 x ys"
  by (simp add: remove1_append)

end
