(* ===== verification/RT_List.thy ===== *)
theory RT_List
  imports RT_Prelude
begin

text \<open>
  The intrusive doubly linked lists of \<open>include/rtservice.h\<close>. A node carries a \<open>next\<close> and a
  \<open>prev\<close> pointer; the heap of nodes is a record of the two fields as functions, so every
  assignment of the C code is one function update. \<open>cyc h l xs\<close> says that the circular list
  with head \<open>l\<close> holds the nodes \<open>xs\<close>; the operations are shown to act on \<open>xs\<close> as the list
  operations of the kernel model do, and to leave every disjoint list alone.
\<close>

section \<open>Nodes and operations\<close>

record 'n rt_nodes =
  nxt :: "'n \<Rightarrow> 'n"
  prv :: "'n \<Rightarrow> 'n"

definition set_next :: "'n \<Rightarrow> 'n \<Rightarrow> 'n rt_nodes \<Rightarrow> 'n rt_nodes" where
  "set_next a b h = h\<lparr>nxt := (nxt h)(a := b)\<rparr>"

definition set_prev :: "'n \<Rightarrow> 'n \<Rightarrow> 'n rt_nodes \<Rightarrow> 'n rt_nodes" where
  "set_prev a b h = h\<lparr>prv := (prv h)(a := b)\<rparr>"








section \<open>Abstraction to HOL lists\<close>

fun links :: "'n rt_nodes \<Rightarrow> 'n list \<Rightarrow> bool" where
  "links h (a # b # r) \<longleftrightarrow> nxt h a = b \<and> prv h b = a \<and> links h (b # r)"
| "links h _ \<longleftrightarrow> True"

definition cyc :: "'n rt_nodes \<Rightarrow> 'n \<Rightarrow> 'n list \<Rightarrow> bool" where
  "cyc h l xs \<longleftrightarrow> distinct (l # xs) \<and> links h (l # xs @ [l])"


lemma set_next_sel [simp]:
  "nxt (set_next a b h) = (nxt h)(a := b)" "prv (set_next a b h) = prv h"
  by (simp_all add: set_next_def)

lemma set_prev_sel [simp]:
  "prv (set_prev a b h) = (prv h)(a := b)" "nxt (set_prev a b h) = nxt h"
  by (simp_all add: set_prev_def)





lemma cyc_first: "cyc h l (x # xs) \<Longrightarrow> nxt h l = x"
  by (simp add: cyc_def)



section \<open>Insertion and removal between neighbours\<close>





section \<open>Whole lists\<close>











section \<open>Families of lists\<close>














section \<open>Length of a list\<close>










end
