(* ===== verification/RT_Ffs.thy ===== *)
theory RT_Ffs
  imports RT_Prelude
begin

unbundle bit_operations_syntax

text \<open>
  Find first set: the routine that turns the ready-priority bitmap into a priority.
  \<open>rt_ffs_table\<close> is the table-driven \<open>__rt_ffs\<close> of \<open>src/kservice.c\<close>; \<open>rt_ffs\<close> is the one
  this target links (\<open>libcpu/arm/cortex-m3/cpuport.c\<close>, the compiler's \<open>__builtin_ffs\<close>: one plus the
  index of the least significant set bit, zero for zero). Both are shown to return the lowest
  set bit, and so to agree.
\<close>

definition rt_ffs :: "u32 \<Rightarrow> nat" where
  "rt_ffs v = (case find (bit v) [0..<32] of None \<Rightarrow> 0 | Some i \<Rightarrow> Suc i)"

text \<open>The sixteen entries every row of the table repeats, but for the first one.\<close>

definition bitmap_row :: "nat \<Rightarrow> nat list" where
  "bitmap_row x = [x, 0, 1, 0, 2, 0, 1, 0, 3, 0, 1, 0, 2, 0, 1, 0]"

definition lowest_bit_bitmap :: "nat list" where
  "lowest_bit_bitmap = concat (map bitmap_row [0, 4, 5, 4, 6, 4, 5, 4, 7, 4, 5, 4, 6, 4, 5, 4])"

definition rt_ffs_table :: "u32 \<Rightarrow> nat" where
  "rt_ffs_table v =
    (if v = 0 then 0
     else if v AND 0xFF \<noteq> 0 then lowest_bit_bitmap ! unat (v AND 0xFF) + 1
     else if v AND 0xFF00 \<noteq> 0 then lowest_bit_bitmap ! unat (drop_bit 8 (v AND 0xFF00)) + 9
     else if v AND 0xFF0000 \<noteq> 0 then lowest_bit_bitmap ! unat (drop_bit 16 (v AND 0xFF0000)) + 17
     else lowest_bit_bitmap ! unat (drop_bit 24 (v AND 0xFF000000)) + 25)"

section \<open>The lowest set bit\<close>

definition lowest_bit :: "'a::semiring_bits \<Rightarrow> nat \<Rightarrow> bool" where
  "lowest_bit v i \<longleftrightarrow> bit v i \<and> (\<forall>j<i. \<not> bit v j)"

lemma lowest_bit_unique: "lowest_bit v i \<Longrightarrow> lowest_bit v j \<Longrightarrow> i = j"
  unfolding lowest_bit_def by (metis linorder_neqE_nat)

lemma find_upt_Some:
  "find P [m..<n] = Some i \<longleftrightarrow> m \<le> i \<and> i < n \<and> P i \<and> (\<forall>j. m \<le> j \<and> j < i \<longrightarrow> \<not> P j)"
proof (induction "n - m" arbitrary: m)
  case 0
  then show ?case by simp
next
  case (Suc d)
  then have m: "m < n" "d = n - Suc m" by auto
  have "find P [m..<n] = (if P m then Some m else find P [Suc m..<n])"
    using m(1) by (simp add: upt_conv_Cons)
  then show ?case
    using Suc.hyps(1) [OF m(2)] m(1) by (auto simp: Suc_le_eq) (metis le_neq_implies_less)+
qed

lemma find_upt_None: "find P [m..<n] = None \<longleftrightarrow> (\<forall>i. m \<le> i \<and> i < n \<longrightarrow> \<not> P i)"
  by (auto simp: find_None_iff)

lemma rt_ffs_Suc: "rt_ffs v = Suc i \<longleftrightarrow> lowest_bit v i"
proof -
  have "rt_ffs v = Suc i \<longleftrightarrow> find (bit v) [0..<32] = Some i"
    by (auto simp: rt_ffs_def split: option.splits)
  also have "\<dots> \<longleftrightarrow> i < 32 \<and> lowest_bit v i"
    by (simp add: find_upt_Some lowest_bit_def)
  also have "\<dots> \<longleftrightarrow> lowest_bit v i"
    by (auto simp: lowest_bit_def dest: bit_imp_le_length)
  finally show ?thesis .
qed

lemma rt_ffs_0: "rt_ffs v = 0 \<longleftrightarrow> v = 0"
proof -
  have "rt_ffs v = 0 \<longleftrightarrow> (\<forall>i<32. \<not> bit v i)"
    by (auto simp: rt_ffs_def find_upt_None find_upt_Some split: option.splits)
  also have "\<dots> \<longleftrightarrow> v = 0"
    by (auto simp: bit_eq_iff dest: bit_imp_le_length)
  finally show ?thesis .
qed

lemma rt_ffs_minus_1: "v \<noteq> 0 \<Longrightarrow> lowest_bit v (rt_ffs v - 1)"
  using rt_ffs_Suc [of v "rt_ffs v - 1"] rt_ffs_0 [of v] by simp

section \<open>The table\<close>

lemma lowest_bit_bitmap_all:
  "\<forall>v\<in>set [1..<256]. find (bit (v :: nat)) [0..<8] = Some (lowest_bit_bitmap ! v)"
  by code_simp

lemma lowest_bit_bitmap_nth:
  assumes "0 < v" "v < 256"
  shows "lowest_bit v (lowest_bit_bitmap ! v)"
  using assms lowest_bit_bitmap_all [rule_format, of v]
  by (auto simp: lowest_bit_def find_upt_Some)

text \<open>One byte of the word: shifted down, its table entry is the lowest bit of the word when all
  lower bytes are clear.\<close>

lemma lowest_bit_byte:
  fixes v :: u32
  assumes z: "take_bit k v = 0" and nz: "take_bit 8 (drop_bit k v) \<noteq> 0"
  shows "lowest_bit v (lowest_bit_bitmap ! unat (take_bit 8 (drop_bit k v)) + k)"
proof -
  let ?b = "take_bit 8 (drop_bit k v)"
  let ?i = "lowest_bit_bitmap ! unat ?b"
  have "unat ?b < 256"
    using take_bit_nat_less_exp [of 8 "unat (drop_bit k v)"] by (simp add: unsigned_take_bit_eq)
  moreover have "0 < unat ?b" using nz by (simp add: unat_gt_0)
  ultimately have "lowest_bit (unat ?b) ?i" by (intro lowest_bit_bitmap_nth) auto
  then have b: "bit ?b ?i" "\<And>j. j < ?i \<Longrightarrow> \<not> bit ?b j"
    by (auto simp: lowest_bit_def bit_unsigned_iff)
  have "bit v (?i + k)" "?i < 8" using b(1) by (auto simp: bit_simps add.commute)
  moreover have "\<not> bit v j" if "j < ?i + k" for j
  proof (cases "j < k")
    case True
    have "bit (take_bit k v) j = False" using z by simp
    then show ?thesis using True by (simp add: bit_simps)
  next
    case False
    then have "\<not> bit ?b (j - k)" "j - k < 8" using that b(2) [of "j - k"] \<open>?i < 8\<close> by auto
    then show ?thesis using False by (simp add: bit_simps)
  qed
  ultimately show ?thesis by (simp add: lowest_bit_def)
qed

lemma mask_bytes:
  fixes v :: u32
  shows "v AND 0xFF = take_bit 8 (drop_bit 0 v)"
    and "drop_bit 8 (v AND 0xFF00) = take_bit 8 (drop_bit 8 v)"
    and "drop_bit 16 (v AND 0xFF0000) = take_bit 8 (drop_bit 16 v)"
    and "drop_bit 24 (v AND 0xFF000000) = take_bit 8 (drop_bit 24 v)"
  by (simp_all add: drop_bit_and take_bit_eq_mask mask_eq_exp_minus_1 drop_bit_numeral_bit0)

lemma mask_shifted:
  fixes v :: u32
  shows "v AND 0xFF00 = push_bit 8 (take_bit 8 (drop_bit 8 v))"
    and "v AND 0xFF0000 = push_bit 16 (take_bit 8 (drop_bit 16 v))"
proof -
  have "v AND push_bit n (mask 8) = push_bit n (take_bit 8 (drop_bit n v))" for n
    by (rule bit_word_eqI) (auto simp: bit_simps)
  from this [of 8] this [of 16] show
    "v AND 0xFF00 = push_bit 8 (take_bit 8 (drop_bit 8 v))"
    "v AND 0xFF0000 = push_bit 16 (take_bit 8 (drop_bit 16 v))"
    by (simp_all add: mask_eq_exp_minus_1)
qed

lemma mask_zero:
  fixes v :: u32
  shows "v AND 0xFF00 = 0 \<longleftrightarrow> take_bit 8 (drop_bit 8 v) = 0"
    and "v AND 0xFF0000 = 0 \<longleftrightarrow> take_bit 8 (drop_bit 16 v) = 0"
  by (metis mask_shifted(1) mask_bytes(2) drop_bit_of_0 push_bit_of_0)
     (metis mask_shifted(2) mask_bytes(3) drop_bit_of_0 push_bit_of_0)

lemma take_bit_extend:
  fixes v :: u32
  assumes z: "take_bit k v = 0" and n: "take_bit 8 (drop_bit k v) = 0"
  shows "take_bit (k + 8) v = 0"
proof (rule bit_word_eqI)
  fix i
  have "bit (take_bit k v) i = False" "bit (take_bit 8 (drop_bit k v)) (i - k) = False"
    using z n by simp_all
  then have "i < k \<Longrightarrow> \<not> bit v i" "k \<le> i \<Longrightarrow> i < k + 8 \<Longrightarrow> \<not> bit v i"
    by (auto simp: bit_simps)
  then show "bit (take_bit (k + 8) v) i = bit 0 i"
    by (cases "i < k") (auto simp: bit_simps)
qed

lemma rt_ffs_eqI: "lowest_bit v i \<Longrightarrow> i + 1 = rt_ffs v"
  using rt_ffs_Suc [of v i] by simp

text \<open>
  C3: The table-driven \<open>__rt_ffs\<close> agrees with the instruction-based one on every word: zero for
  zero, and otherwise one plus the position of the least significant set bit.
\<close>

theorem rt_ffs_table_eq:
  "rt_ffs_table v = rt_ffs v \<and> (rt_ffs_table v = 0 \<longleftrightarrow> v = 0) \<and>
    (\<forall>i. rt_ffs_table v = Suc i \<longleftrightarrow> lowest_bit v i)"
proof -
  let ?b = "\<lambda>k. take_bit 8 (drop_bit k v)"
  have low: "lowest_bit_bitmap ! unat (?b k) + k + 1 = rt_ffs v" if "take_bit k v = 0" "?b k \<noteq> 0" for k
    using rt_ffs_eqI [OF lowest_bit_byte [OF that]] .
  have z: "take_bit 8 v = 0" if "?b 0 = 0" using that by simp
  have z2: "take_bit 16 v = 0" if "?b 0 = 0" "?b 8 = 0"
    using take_bit_extend [OF z that(2)] that by simp
  have z3: "take_bit 24 v = 0" if "?b 0 = 0" "?b 8 = 0" "?b 16 = 0"
    using take_bit_extend [OF z2 that(3)] that by simp
  have z4: "v = 0" if "?b 0 = 0" "?b 8 = 0" "?b 16 = 0" "?b 24 = 0"
    using take_bit_extend [OF z3 that(4)] take_bit_length_eq [of v] that by simp
  have "rt_ffs_table v = rt_ffs v"
  proof (cases "v = 0")
    case True
    then show ?thesis using rt_ffs_0 [of v] by (simp add: rt_ffs_table_def)
  next
    case False
    then consider "?b 0 \<noteq> 0" | "?b 0 = 0" "?b 8 \<noteq> 0" | "?b 0 = 0" "?b 8 = 0" "?b 16 \<noteq> 0"
      | "?b 0 = 0" "?b 8 = 0" "?b 16 = 0" "?b 24 \<noteq> 0"
      using z4 by blast
    then show ?thesis
      using False low [of 0] low [of 8] low [of 16] low [of 24] z z2 z3
      unfolding rt_ffs_table_def mask_bytes mask_zero
      by cases (simp_all del: drop_bit_0)
  qed
  then show ?thesis by (simp add: rt_ffs_0 rt_ffs_Suc)
qed

end
