(* ===== verification/RT_State.thy ===== *)
theory RT_State
  imports RT_Prelude
begin

unbundle bit_operations_syntax

text \<open>
  The state of the RT-Thread kernel: the structures of \<open>include/rtdef.h\<close> and the global variables
  of \<open>scheduler.c\<close>, \<open>timer.c\<close>, \<open>clock.c\<close>, \<open>irq.c\<close> and \<open>object.c\<close>, for the configuration of
  \<open>rtconfig.h\<close> (one CPU, 32 priorities, soft timers, no signals, no modules, a skip list of one level).

  Objects are named by identifiers instead of addresses; the structures are total functions of the
  identifiers (memory is always there) and the type byte of the object header says whether an
  identifier names a live object, as \<open>rt_object_get_type\<close> checks at run time. A thread list is the
  HOL list that theory \<open>RT_List\<close> shows the pointer structure to implement. No application hook
  is installed (\<open>RT_OBJECT_HOOK_CALL\<close> does nothing), and \<open>RT_DEBUG_LOG\<close> only prints.
\<close>

section \<open>Identifiers\<close>

type_synonym tid = nat

datatype tmid = ThreadTimer tid | UserTimer nat

datatype oref = OThread tid | OTimer tmid | OIpc nat

text \<open>The heads of thread lists: the ready queue of a priority, the waiters of an IPC object, the
  suspended senders of a mailbox or message queue, and \<open>rt_thread_defunct\<close>.\<close>

datatype lid = Ready nat | Suspend nat | Sender nat | Defunct

text \<open>The timer lists; \<open>HardTemp\<close> and \<open>SoftTemp\<close> are the local lists of \<open>rt_timer_check\<close> and
  \<open>rt_soft_timer_check\<close>, each holding the timer whose callback runs.\<close>

datatype tmlid = HardList | SoftList | HardTemp | SoftTemp

section \<open>Structures\<close>

record rt_object =
  o_name :: string
  o_type :: u8
  o_flag :: u8

record rt_thread =
  sp :: u32
  stack_addr :: u32
  stack_size :: u32
  stack_mem :: "u32 \<Rightarrow> u8" \<comment> \<open>the memory of the thread's stack, by address\<close>
  entry :: u32
  t_parameter :: u32
  t_error :: rt_err_t
  t_stat :: u8
  current_priority :: u8
  init_priority :: u8
  number_mask :: u32
  event_set :: u32
  event_info :: u8
  t_init_tick :: u32
  remaining_tick :: u32
  cleanup :: "nat option"

text \<open>A timeout callback: the kernel's own \<open>rt_thread_timeout\<close>, or a function of the application.\<close>

datatype timeout_fn = Rt_Thread_Timeout tid | User_Timeout nat u32

record rt_timer =
  timeout_func :: timeout_fn
  init_tick :: u32
  timeout_tick :: u32

record rt_semaphore =
  sem_value :: u16

record rt_mutex =
  mutex_value :: u16
  original_priority :: u8
  hold :: u8
  owner :: "tid option"

record rt_event =
  ev_set :: u32

record rt_mailbox =
  msg_pool :: "u32 list"
  mb_size :: u16
  mb_entry :: u16
  in_offset :: u16
  out_offset :: u16

text \<open>A message queue: the pool is \<open>max_msgs\<close> slots, each a \<open>next\<close> pointer followed by
  \<open>msg_size\<close> bytes; a slot is named by its index, and \<open>RT_NULL\<close> is \<open>None\<close>.\<close>

record rt_messagequeue =
  msg_size :: u16
  max_msgs :: u16
  mq_entry :: u16
  mq_next :: "nat \<Rightarrow> nat option"
  mq_data :: "nat \<Rightarrow> u8 list"
  msg_queue_head :: "nat option"
  msg_queue_tail :: "nat option"
  msg_queue_free :: "nat option"

text \<open>What the context-switch routines of \<open>context_gcc.S\<close> are asked to do.\<close>

datatype hw_switch = Switch_To tid | Switch tid tid | Switch_Interrupt tid tid

record kernel =
  hdr :: "oref \<Rightarrow> rt_object"
  containers :: "u8 \<Rightarrow> oref list"
  threads :: "tid \<Rightarrow> rt_thread"
  tlists :: "lid \<Rightarrow> tid list"
  ready_group :: u32 \<comment> \<open>\<open>rt_thread_ready_priority_group\<close>\<close>
  cur :: "tid option" \<comment> \<open>\<open>rt_current_thread\<close>\<close>
  rt_current_priority :: u8
  lock_nest :: u16 \<comment> \<open>\<open>rt_scheduler_lock_nest\<close>, a signed 16-bit counter\<close>
  interrupt_nest :: u8
  rt_tick :: u32
  timers :: "tmid \<Rightarrow> rt_timer"
  tmlists :: "tmlid \<Rightarrow> tmid list"
  soft_timer_status :: u8
  timer_thread :: tid
  sems :: "nat \<Rightarrow> rt_semaphore"
  mutexes :: "nat \<Rightarrow> rt_mutex"
  events :: "nat \<Rightarrow> rt_event"
  mailboxes :: "nat \<Rightarrow> rt_mailbox"
  mqs :: "nat \<Rightarrow> rt_messagequeue"
  hw_log :: "hw_switch list"

section \<open>Constants\<close>

abbreviation (input) RT_THREAD_INIT :: u8 where "RT_THREAD_INIT \<equiv> 0"
abbreviation (input) RT_THREAD_READY :: u8 where "RT_THREAD_READY \<equiv> 1"
abbreviation (input) RT_THREAD_SUSPEND :: u8 where "RT_THREAD_SUSPEND \<equiv> 2"
abbreviation (input) RT_THREAD_RUNNING :: u8 where "RT_THREAD_RUNNING \<equiv> 3"
abbreviation (input) RT_THREAD_CLOSE :: u8 where "RT_THREAD_CLOSE \<equiv> 4"
abbreviation (input) RT_THREAD_STAT_MASK :: u8 where "RT_THREAD_STAT_MASK \<equiv> 7"
abbreviation (input) RT_THREAD_STAT_YIELD :: u8 where "RT_THREAD_STAT_YIELD \<equiv> 8"

abbreviation (input) Class_Thread :: u8 where "Class_Thread \<equiv> 1"
abbreviation (input) Class_Semaphore :: u8 where "Class_Semaphore \<equiv> 2"
abbreviation (input) Class_Mutex :: u8 where "Class_Mutex \<equiv> 3"
abbreviation (input) Class_Event :: u8 where "Class_Event \<equiv> 4"
abbreviation (input) Class_MailBox :: u8 where "Class_MailBox \<equiv> 5"
abbreviation (input) Class_MessageQueue :: u8 where "Class_MessageQueue \<equiv> 6"
abbreviation (input) Class_MemPool :: u8 where "Class_MemPool \<equiv> 8"
abbreviation (input) Class_Device :: u8 where "Class_Device \<equiv> 9"
abbreviation (input) Class_Timer :: u8 where "Class_Timer \<equiv> 10"
abbreviation (input) Class_Static :: u8 where "Class_Static \<equiv> 0x80"

abbreviation (input) RT_TIMER_FLAG_ACTIVATED :: u8 where "RT_TIMER_FLAG_ACTIVATED \<equiv> 1"
abbreviation (input) RT_TIMER_FLAG_PERIODIC :: u8 where "RT_TIMER_FLAG_PERIODIC \<equiv> 2"
abbreviation (input) RT_TIMER_FLAG_SOFT_TIMER :: u8 where "RT_TIMER_FLAG_SOFT_TIMER \<equiv> 4"

abbreviation (input) RT_IPC_FLAG_FIFO :: u8 where "RT_IPC_FLAG_FIFO \<equiv> 0"
abbreviation (input) RT_IPC_FLAG_PRIO :: u8 where "RT_IPC_FLAG_PRIO \<equiv> 1"

section \<open>Access\<close>

text \<open>The state bits of a thread, \<open>stat & RT_THREAD_STAT_MASK\<close>.\<close>

definition stat_of :: "rt_thread \<Rightarrow> u8" where
  "stat_of th = t_stat th AND RT_THREAD_STAT_MASK"

text \<open>\<open>x = c | (x & ~RT_THREAD_STAT_MASK)\<close>: the state changes, the flag bits stay.\<close>

definition set_stat :: "u8 \<Rightarrow> rt_thread \<Rightarrow> rt_thread" where
  "set_stat c th = th\<lparr>t_stat := c OR (t_stat th AND NOT RT_THREAD_STAT_MASK)\<rparr>"

definition upd_thread :: "tid \<Rightarrow> (rt_thread \<Rightarrow> rt_thread) \<Rightarrow> kernel \<Rightarrow> kernel" where
  "upd_thread t f k = k\<lparr>threads := (threads k)(t := f (threads k t))\<rparr>"

definition upd_timer :: "tmid \<Rightarrow> (rt_timer \<Rightarrow> rt_timer) \<Rightarrow> kernel \<Rightarrow> kernel" where
  "upd_timer t f k = k\<lparr>timers := (timers k)(t := f (timers k t))\<rparr>"

definition upd_hdr :: "oref \<Rightarrow> (rt_object \<Rightarrow> rt_object) \<Rightarrow> kernel \<Rightarrow> kernel" where
  "upd_hdr r f k = k\<lparr>hdr := (hdr k)(r := f (hdr k r))\<rparr>"

definition rt_object_get_type :: "oref \<Rightarrow> kernel \<Rightarrow> u8" where
  "rt_object_get_type r k = o_type (hdr k r) AND NOT Class_Static"

definition rt_object_is_systemobject :: "oref \<Rightarrow> kernel \<Rightarrow> bool" where
  "rt_object_is_systemobject r k \<longleftrightarrow> o_type (hdr k r) AND Class_Static \<noteq> 0"

definition rt_thread_self :: "kernel \<Rightarrow> tid option" where
  "rt_thread_self k = cur k"

text \<open>\<open>RT_DEBUG_NOT_IN_INTERRUPT\<close> and \<open>RT_DEBUG_IN_THREAD_CONTEXT\<close>.\<close>

definition not_in_interrupt :: "kernel \<Rightarrow> bool" where
  "not_in_interrupt k \<longleftrightarrow> interrupt_nest k = 0"

definition in_thread_context :: "kernel \<Rightarrow> bool" where
  "in_thread_context k \<longleftrightarrow> cur k \<noteq> None \<and> interrupt_nest k = 0"

text \<open>The list operations on the nodes \<open>tlist\<close> and \<open>row[0]\<close>.\<close>

definition tl_append :: "lid \<Rightarrow> tid \<Rightarrow> kernel \<Rightarrow> kernel" where
  "tl_append l t k = k\<lparr>tlists := (tlists k)(l := tlists k l @ [t])\<rparr>"

definition tl_push :: "lid \<Rightarrow> tid \<Rightarrow> kernel \<Rightarrow> kernel" where
  "tl_push l t k = k\<lparr>tlists := (tlists k)(l := t # tlists k l)\<rparr>"

definition tl_remove :: "tid \<Rightarrow> kernel \<Rightarrow> kernel" where
  "tl_remove t k = k\<lparr>tlists := (\<lambda>l. remove1 t (tlists k l))\<rparr>"

definition tm_remove :: "tmid \<Rightarrow> kernel \<Rightarrow> kernel" where
  "tm_remove t k = k\<lparr>tmlists := (\<lambda>l. remove1 t (tmlists k l))\<rparr>"

lemmas upd_defs = upd_thread_def upd_timer_def upd_hdr_def tl_append_def tl_push_def tl_remove_def
  tm_remove_def

lemma stat_of_set_stat [simp]:
  "c AND 7 = c \<Longrightarrow> stat_of (set_stat c th) = c"
  using word_set_field [of c 7 "t_stat th"] by (simp add: stat_of_def set_stat_def)

lemma set_stat_sel [simp]:
  "current_priority (set_stat c th) = current_priority th"
  "number_mask (set_stat c th) = number_mask th"
  "init_priority (set_stat c th) = init_priority th"
  "t_error (set_stat c th) = t_error th"
  "remaining_tick (set_stat c th) = remaining_tick th"
  "t_init_tick (set_stat c th) = t_init_tick th"
  "event_set (set_stat c th) = event_set th"
  "event_info (set_stat c th) = event_info th"
  "sp (set_stat c th) = sp th" "stack_addr (set_stat c th) = stack_addr th"
  "stack_size (set_stat c th) = stack_size th" "stack_mem (set_stat c th) = stack_mem th"
  by (simp_all add: set_stat_def)

section \<open>The state before start-up\<close>

text \<open>Every structure and global variable is zero, except \<open>soft_timer_status\<close>, which starts as
  \<open>RT_SOFT_TIMER_IDLE\<close>.\<close>

definition zero_thread :: rt_thread where
  "zero_thread = \<lparr>sp = 0, stack_addr = 0, stack_size = 0, stack_mem = (\<lambda>_. 0), entry = 0,
    t_parameter = 0, t_error = 0, t_stat = 0, current_priority = 0, init_priority = 0,
    number_mask = 0, event_set = 0, event_info = 0, t_init_tick = 0, remaining_tick = 0,
    cleanup = None\<rparr>"

definition zero_mq :: rt_messagequeue where
  "zero_mq = \<lparr>msg_size = 0, max_msgs = 0, mq_entry = 0, mq_next = (\<lambda>_. None), mq_data = (\<lambda>_. []),
    msg_queue_head = None, msg_queue_tail = None, msg_queue_free = None\<rparr>"

definition zero_timer :: rt_timer where
  "zero_timer = \<lparr>timeout_func = User_Timeout 0 0, init_tick = 0, timeout_tick = 0\<rparr>"

definition zero_object :: rt_object where
  "zero_object = \<lparr>o_name = replicate 8 (CHR 0x00), o_type = 0, o_flag = 0\<rparr>"

definition zero_sem :: rt_semaphore where "zero_sem = \<lparr>sem_value = 0\<rparr>"

definition zero_mutex :: rt_mutex where
  "zero_mutex = \<lparr>mutex_value = 0, original_priority = 0, hold = 0, owner = None\<rparr>"

definition zero_event :: rt_event where "zero_event = \<lparr>ev_set = 0\<rparr>"

definition zero_mailbox :: rt_mailbox where
  "zero_mailbox = \<lparr>msg_pool = [], mb_size = 0, mb_entry = 0, in_offset = 0, out_offset = 0\<rparr>"

definition zero_kernel :: kernel where
  "zero_kernel = \<lparr>hdr = (\<lambda>_. zero_object), containers = (\<lambda>_. []), threads = (\<lambda>_. zero_thread),
    tlists = (\<lambda>_. []), ready_group = 0, cur = None, rt_current_priority = 0, lock_nest = 0,
    interrupt_nest = 0, rt_tick = 0, timers = (\<lambda>_. zero_timer), tmlists = (\<lambda>_. []),
    soft_timer_status = 1, timer_thread = 0, sems = (\<lambda>_. zero_sem), mutexes = (\<lambda>_. zero_mutex),
    events = (\<lambda>_. zero_event), mailboxes = (\<lambda>_. zero_mailbox), mqs = (\<lambda>_. zero_mq), hw_log = []\<rparr>"

text \<open>A thread of priority \<open>p\<close> with a sound stack, in state \<open>s\<close>.\<close>

definition demo_thread :: "u8 \<Rightarrow> u8 \<Rightarrow> rt_thread" where
  "demo_thread p s = zero_thread\<lparr>sp := 0x20000180, stack_addr := 0x20000100, stack_size := 0x100,
    stack_mem := (\<lambda>_. 35), t_stat := s, current_priority := p, init_priority := p,
    number_mask := 2 ^ unat p, t_init_tick := 5, remaining_tick := 5\<rparr>"

lemma demo_thread_sel [simp]:
  "stat_of (demo_thread p s) = s AND 7" "current_priority (demo_thread p s) = p"
  "init_priority (demo_thread p s) = p" "number_mask (demo_thread p s) = 2 ^ unat p"
  "t_stat (demo_thread p s) = s" "remaining_tick (demo_thread p s) = 5" "t_init_tick (demo_thread p s) = 5"
  "t_error (demo_thread p s) = 0"
  by (simp_all add: demo_thread_def stat_of_def zero_thread_def)

lemma zero_thread_sel [simp]: "stat_of zero_thread = 0" "t_stat zero_thread = 0"
  by (simp_all add: zero_thread_def stat_of_def)

end
