(* ===== verification/RT_Sched.thy ===== *)
theory RT_Sched
  imports RT_State RT_Ffs
begin

unbundle bit_operations_syntax

text \<open>
  The scheduler, \<open>src/scheduler.c\<close> (the variant without \<open>RT_USING_SMP\<close>): ready queues, the
  ready bitmap, the choice of the highest-priority thread, the context switch, the scheduler lock.
  Interrupts are disabled in every routine, so each is one atomic step; a routine that ends in
  \<open>rt_schedule\<close> yields the state at the moment of the context switch.
\<close>

section \<open>Operations\<close>

text \<open>\<open>_rt_scheduler_stack_check\<close>: false when the routine stops in its endless loop (it runs
  with interrupts disabled). \<open>35\<close> is the fill character \<open>'#'\<close>. The second comparison
  of the source only prints a warning.\<close>

definition stack_check :: "rt_thread \<Rightarrow> bool" where
  "stack_check th \<longleftrightarrow>
    \<not> (stack_mem th (stack_addr th) \<noteq> 35 \<or> sp th \<le> stack_addr th \<or> stack_addr th + stack_size th < sp th)"

text \<open>\<open>_get_highest_priority_thread\<close>: the thread, and through the out parameter its priority. An
  empty ready queue would make \<open>rt_list_entry\<close> read the list head as a thread: \<open>None\<close>.\<close>

definition get_highest_priority_thread :: "kernel \<Rightarrow> (tid \<times> nat) option" where
  "get_highest_priority_thread k =
    (let highest_ready_priority = rt_ffs (ready_group k) - 1
     in case tlists k (Ready highest_ready_priority) of
          [] \<Rightarrow> None
        | t # _ \<Rightarrow> Some (t, highest_ready_priority))"

definition rt_system_scheduler_init :: "kernel \<Rightarrow> kernel" where
  "rt_system_scheduler_init k =
    k\<lparr>lock_nest := 0,
      tlists := (\<lambda>l. case l of Ready p \<Rightarrow> if p < 32 then [] else tlists k l
                             | Defunct \<Rightarrow> [] | _ \<Rightarrow> tlists k l),
      ready_group := 0\<rparr>"

text \<open>A priority of 32 or more indexes \<open>rt_thread_priority_table\<close> out of bounds: \<open>None\<close>.\<close>

definition rt_schedule_insert_thread :: "tid \<Rightarrow> kernel \<Rightarrow> kernel option" where
  "rt_schedule_insert_thread t k =
    (if Some t = cur k then Some (upd_thread t (set_stat RT_THREAD_RUNNING) k)
     else if unat (current_priority (threads k t)) < 32 then
       let k = upd_thread t (set_stat RT_THREAD_READY) k;
           k = tl_append (Ready (unat (current_priority (threads k t)))) t k
       in Some (k\<lparr>ready_group := ready_group k OR number_mask (threads k t)\<rparr>)
     else None)"

definition rt_schedule_remove_thread :: "tid \<Rightarrow> kernel \<Rightarrow> kernel option" where
  "rt_schedule_remove_thread t k =
    (let k = tl_remove t k
     in if unat (current_priority (threads k t)) < 32 then
          if tlists k (Ready (unat (current_priority (threads k t)))) = [] then
            Some (k\<lparr>ready_group := ready_group k AND NOT (number_mask (threads k t))\<rparr>)
          else Some k
        else None)"

text \<open>Clearing \<open>RT_THREAD_STAT_YIELD_MASK\<close>.\<close>

definition clear_yield :: "rt_thread \<Rightarrow> rt_thread" where
  "clear_yield th = th\<lparr>t_stat := t_stat th AND NOT RT_THREAD_STAT_YIELD\<rparr>"

definition log_switch :: "tid \<Rightarrow> tid \<Rightarrow> kernel \<Rightarrow> kernel" where
  "log_switch from_thread to_thread k =
    k\<lparr>hw_log := hw_log k @
        [if interrupt_nest k = 0 then Switch from_thread to_thread
         else Switch_Interrupt from_thread to_thread]\<rparr>"

text \<open>The part of \<open>rt_schedule\<close> that leaves the current thread.\<close>

definition schedule_switch :: "tid \<Rightarrow> tid \<Rightarrow> nat \<Rightarrow> bool \<Rightarrow> kernel \<Rightarrow> kernel option" where
  "schedule_switch from_thread to_thread highest_ready_priority need_insert_from_thread k =
    do {
      let k = k\<lparr>rt_current_priority := of_nat highest_ready_priority, cur := Some to_thread\<rparr>;
      k \<leftarrow> (if need_insert_from_thread then rt_schedule_insert_thread from_thread k else Some k);
      k \<leftarrow> rt_schedule_remove_thread to_thread k;
      let k = upd_thread to_thread (set_stat RT_THREAD_RUNNING) k;
      if stack_check (threads k to_thread) then Some (log_switch from_thread to_thread k) else None
    }"

definition rt_schedule :: "kernel \<Rightarrow> kernel option" where
  "rt_schedule k =
    (if lock_nest k = 0 \<and> ready_group k \<noteq> 0 then
       do {
         (highest, highest_ready_priority) \<leftarrow> get_highest_priority_thread k;
         c \<leftarrow> cur k;
         let th = threads k c;
         let running = (stat_of th = RT_THREAD_RUNNING);
         let stays = (running \<and>
               (unat (current_priority th) < highest_ready_priority \<or>
                unat (current_priority th) = highest_ready_priority \<and> t_stat th AND RT_THREAD_STAT_YIELD = 0));
         let k = (if running then upd_thread c clear_yield k else k);
         let to_thread = (if stays then c else highest);
         if to_thread \<noteq> c then
           schedule_switch c to_thread highest_ready_priority (running \<and> \<not> stays) k
         else do {
           k \<leftarrow> rt_schedule_remove_thread c k;
           Some (upd_thread c (set_stat RT_THREAD_RUNNING) k)
         }
       }
     else Some k)"

definition rt_system_scheduler_start :: "kernel \<Rightarrow> kernel option" where
  "rt_system_scheduler_start k =
    do {
      (to_thread, p) \<leftarrow> get_highest_priority_thread k;
      let k = k\<lparr>cur := Some to_thread\<rparr>;
      k \<leftarrow> rt_schedule_remove_thread to_thread k;
      let k = upd_thread to_thread (\<lambda>th. th\<lparr>t_stat := RT_THREAD_RUNNING\<rparr>) k;
      Some (k\<lparr>hw_log := hw_log k @ [Switch_To to_thread]\<rparr>)
    }"

definition rt_enter_critical :: "kernel \<Rightarrow> kernel" where
  "rt_enter_critical k = k\<lparr>lock_nest := lock_nest k + 1\<rparr>"

definition rt_exit_critical :: "kernel \<Rightarrow> kernel option" where
  "rt_exit_critical k =
    (let k = k\<lparr>lock_nest := lock_nest k - 1\<rparr>
     in if sint (lock_nest k) \<le> 0 then
          let k = k\<lparr>lock_nest := 0\<rparr>
          in if cur k \<noteq> None then rt_schedule k else Some k
        else Some k)"

definition rt_critical_level :: "kernel \<Rightarrow> u16" where
  "rt_critical_level k = lock_nest k"

section \<open>The invariant of the thread queues\<close>

definition started :: "rt_thread \<Rightarrow> bool" where
  "started th \<longleftrightarrow> stat_of th \<in> {RT_THREAD_READY, RT_THREAD_SUSPEND, RT_THREAD_RUNNING}"

definition prio_ok :: "rt_thread \<Rightarrow> bool" where
  "prio_ok th \<longleftrightarrow> unat (current_priority th) < 32 \<and>
    number_mask th = 2 ^ unat (current_priority th)"

text \<open>What a thread's state must be while it is in a list.\<close>

fun lid_ok :: "lid \<Rightarrow> rt_thread \<Rightarrow> bool" where
  "lid_ok (Ready p) th \<longleftrightarrow> stat_of th = RT_THREAD_READY \<and> unat (current_priority th) = p"
| "lid_ok (Suspend i) th \<longleftrightarrow> stat_of th = RT_THREAD_SUSPEND"
| "lid_ok (Sender i) th \<longleftrightarrow> stat_of th = RT_THREAD_SUSPEND"
| "lid_ok Defunct th \<longleftrightarrow> stat_of th = RT_THREAD_CLOSE"

text \<open>
  \<open>qinv X k\<close>: a priority bit is set exactly when its ready queue is not empty; a thread is in at most
  one list, once, and its state fits the list; every ready thread is in the queue of its
  priority. The threads of \<open>X\<close> are in transit between lists: they are in no list.
\<close>

definition qinv :: "tid set \<Rightarrow> kernel \<Rightarrow> bool" where
  "qinv X k \<longleftrightarrow>
    (\<forall>p<32. bit (ready_group k) p \<longleftrightarrow> tlists k (Ready p) \<noteq> []) \<and>
    (\<forall>l. \<forall>t\<in>set (tlists k l). lid_ok l (threads k t) \<and> t \<notin> X) \<and>
    (\<forall>t. stat_of (threads k t) = RT_THREAD_READY \<and> t \<notin> X \<longrightarrow>
       t \<in> set (tlists k (Ready (unat (current_priority (threads k t)))))) \<and>
    (\<forall>t. started (threads k t) \<longrightarrow> prio_ok (threads k t)) \<and>
    (\<forall>l. distinct (tlists k l)) \<and>
    (\<forall>l m t. t \<in> set (tlists k l) \<and> t \<in> set (tlists k m) \<longrightarrow> l = m)"

definition sched_inv :: "kernel \<Rightarrow> bool" where
  "sched_inv k \<longleftrightarrow>
    qinv {} k \<and>
    (\<forall>t. stat_of (threads k t) = RT_THREAD_RUNNING \<longrightarrow> cur k = Some t) \<and>
    (\<forall>c. cur k = Some c \<longrightarrow> stat_of (threads k c) \<noteq> RT_THREAD_READY)"

lemma qinvD:
  assumes "qinv X k"
  shows "p < 32 \<Longrightarrow> bit (ready_group k) p \<longleftrightarrow> tlists k (Ready p) \<noteq> []"
    and "t \<in> set (tlists k l) \<Longrightarrow> lid_ok l (threads k t)"
    and "t \<in> set (tlists k l) \<Longrightarrow> t \<notin> X"
    and "stat_of (threads k t) = RT_THREAD_READY \<Longrightarrow> t \<notin> X \<Longrightarrow>
       t \<in> set (tlists k (Ready (unat (current_priority (threads k t)))))"
    and "started (threads k t) \<Longrightarrow> prio_ok (threads k t)"
    and "distinct (tlists k l)"
    and "t \<in> set (tlists k l) \<Longrightarrow> t \<in> set (tlists k m) \<Longrightarrow> l = m"
  using assms unfolding qinv_def by blast+

lemma qinvI:
  assumes "\<And>p. p < 32 \<Longrightarrow> bit (ready_group k) p \<longleftrightarrow> tlists k (Ready p) \<noteq> []"
    and "\<And>l t. t \<in> set (tlists k l) \<Longrightarrow> lid_ok l (threads k t)"
    and "\<And>l t. t \<in> set (tlists k l) \<Longrightarrow> t \<notin> X"
    and "\<And>t. stat_of (threads k t) = RT_THREAD_READY \<Longrightarrow> t \<notin> X \<Longrightarrow>
       t \<in> set (tlists k (Ready (unat (current_priority (threads k t)))))"
    and "\<And>t. started (threads k t) \<Longrightarrow> prio_ok (threads k t)"
    and "\<And>l. distinct (tlists k l)"
    and "\<And>l m t. t \<in> set (tlists k l) \<Longrightarrow> t \<in> set (tlists k m) \<Longrightarrow> l = m"
  shows "qinv X k"
  using assms unfolding qinv_def by blast

lemma bit_one_hot: "p < 32 \<Longrightarrow> bit (2 ^ p :: u32) q \<longleftrightarrow> q = p"
  by (auto simp: bit_exp_iff)

lemma upd_thread_sel [simp]:
  "threads (upd_thread t f k) = (threads k)(t := f (threads k t))"
  "tlists (upd_thread t f k) = tlists k" "ready_group (upd_thread t f k) = ready_group k"
  "cur (upd_thread t f k) = cur k" "lock_nest (upd_thread t f k) = lock_nest k"
  "interrupt_nest (upd_thread t f k) = interrupt_nest k" "hdr (upd_thread t f k) = hdr k"
  "timers (upd_thread t f k) = timers k" "tmlists (upd_thread t f k) = tmlists k"
  "rt_tick (upd_thread t f k) = rt_tick k" "hw_log (upd_thread t f k) = hw_log k"
  "sems (upd_thread t f k) = sems k" "mutexes (upd_thread t f k) = mutexes k"
  "events (upd_thread t f k) = events k" "mailboxes (upd_thread t f k) = mailboxes k"
  "mqs (upd_thread t f k) = mqs k" "containers (upd_thread t f k) = containers k"
  "timer_thread (upd_thread t f k) = timer_thread k"
  "soft_timer_status (upd_thread t f k) = soft_timer_status k"
  by (simp_all add: upd_thread_def)

text \<open>A thread in transit may change freely as long as its priority stays consistent.\<close>

lemma qinv_upd_transit:
  assumes "qinv X k" "t \<in> X" "started (f (threads k t)) \<longrightarrow> prio_ok (f (threads k t))"
  shows "qinv X (upd_thread t f k)"
  using assms unfolding qinv_def by auto

lemma qinv_arrive:
  assumes "qinv (insert t X) k" "stat_of (threads k t) \<noteq> RT_THREAD_READY"
  shows "qinv (X - {t}) k"
  using assms unfolding qinv_def by auto

lemma qinv_cong:
  assumes "threads k' = threads k" "tlists k' = tlists k" "ready_group k' = ready_group k"
  shows "qinv X k' = qinv X k"
  using assms unfolding qinv_def by simp

lemma qinv_frame [simp]:
  "qinv X (k\<lparr>hw_log := a\<rparr>) = qinv X k" "qinv X (k\<lparr>cur := b\<rparr>) = qinv X k"
  "qinv X (k\<lparr>rt_current_priority := c\<rparr>) = qinv X k" "qinv X (k\<lparr>lock_nest := d\<rparr>) = qinv X k"
  "qinv X (k\<lparr>interrupt_nest := e\<rparr>) = qinv X k" "qinv X (k\<lparr>rt_tick := f\<rparr>) = qinv X k"
  "qinv X (k\<lparr>timers := g\<rparr>) = qinv X k" "qinv X (k\<lparr>tmlists := h\<rparr>) = qinv X k"
  "qinv X (k\<lparr>hdr := i\<rparr>) = qinv X k" "qinv X (k\<lparr>containers := j\<rparr>) = qinv X k"
  "qinv X (k\<lparr>soft_timer_status := l\<rparr>) = qinv X k" "qinv X (k\<lparr>sems := m\<rparr>) = qinv X k"
  "qinv X (k\<lparr>mutexes := n\<rparr>) = qinv X k" "qinv X (k\<lparr>events := q\<rparr>) = qinv X k"
  "qinv X (k\<lparr>mailboxes := r\<rparr>) = qinv X k" "qinv X (k\<lparr>mqs := s\<rparr>) = qinv X k"
  by (simp_all add: qinv_def)

lemma stat_of_upd [simp]:
  "stat_of (th\<lparr>t_error := e\<rparr>) = stat_of th" "stat_of (th\<lparr>remaining_tick := n\<rparr>) = stat_of th"
  "stat_of (th\<lparr>event_set := s\<rparr>) = stat_of th" "stat_of (th\<lparr>event_info := i\<rparr>) = stat_of th"
  "stat_of (th\<lparr>current_priority := p\<rparr>) = stat_of th" "stat_of (th\<lparr>number_mask := m\<rparr>) = stat_of th"
  by (simp_all add: stat_of_def)

lemma stat_of_clear_yield [simp]: "stat_of (clear_yield th) = stat_of th"
  by (simp add: stat_of_def clear_yield_def and.assoc and.left_commute [of _ "- 9"])


lemma prio_ok_set_stat [simp]: "prio_ok (set_stat c th) = prio_ok th"
  by (simp add: prio_ok_def)

lemma prio_ok_clear_yield [simp]: "prio_ok (clear_yield th) = prio_ok th"
  by (simp add: prio_ok_def clear_yield_def)

lemma insert_thread_eq:
  assumes "cur k \<noteq> Some t" "prio_ok (threads k t)"
  shows "rt_schedule_insert_thread t k =
    Some (k\<lparr>threads := (threads k)(t := set_stat RT_THREAD_READY (threads k t)),
            tlists := (tlists k)(Ready (unat (current_priority (threads k t))) :=
               tlists k (Ready (unat (current_priority (threads k t)))) @ [t]),
            ready_group := ready_group k OR number_mask (threads k t)\<rparr>)"
  using assms by (simp add: rt_schedule_insert_thread_def prio_ok_def upd_defs Let_def)

lemma insert_thread_qinv:
  assumes q: "qinv (insert t X) k" and X: "t \<notin> X" and c: "cur k \<noteq> Some t" and p: "prio_ok (threads k t)"
  shows "\<exists>k'. rt_schedule_insert_thread t k = Some k' \<and> qinv X k'"
proof -
  have t: "t \<notin> set (tlists k l)" for l using qinvD(3) [OF q] by blast
  have "qinv X (k\<lparr>threads := (threads k)(t := set_stat RT_THREAD_READY (threads k t)),
            tlists := (tlists k)(Ready (unat (current_priority (threads k t))) :=
               tlists k (Ready (unat (current_priority (threads k t)))) @ [t]),
            ready_group := ready_group k OR number_mask (threads k t)\<rparr>)" (is "qinv X ?k")
  proof (rule qinvI)
    show "bit (ready_group ?k) q \<longleftrightarrow> tlists ?k (Ready q) \<noteq> []" if "q < 32" for q
      using that p qinvD(1) [OF q] by (auto simp: bit_or_iff prio_ok_def bit_one_hot)
    show "lid_ok l (threads ?k u)" if "u \<in> set (tlists ?k l)" for l u
      using that t qinvD(2) [OF q, of u l] by (auto split: if_splits)
    show "u \<notin> X" if "u \<in> set (tlists ?k l)" for l u
      using that X qinvD(3) [OF q] by (auto split: if_splits)
    show "u \<in> set (tlists ?k (Ready (unat (current_priority (threads ?k u)))))"
      if "stat_of (threads ?k u) = RT_THREAD_READY" "u \<notin> X" for u
      using that qinvD(4) [OF q, of u] by (auto split: if_splits)
    show "prio_ok (threads ?k u)" if "started (threads ?k u)" for u
      using that p qinvD(5) [OF q, of u] by (auto split: if_splits)
    show "distinct (tlists ?k l)" for l
      using t qinvD(6) [OF q] by auto
    show "l = m" if "u \<in> set (tlists ?k l)" "u \<in> set (tlists ?k m)" for l m u
      using that t qinvD(7) [OF q, of u l m] by (auto split: if_splits)
  qed
  then show ?thesis using insert_thread_eq [OF c p] by simp
qed

lemma remove_thread_eq:
  assumes "prio_ok (threads k t)"
  shows "rt_schedule_remove_thread t k =
    Some (k\<lparr>tlists := (\<lambda>l. remove1 t (tlists k l)),
            ready_group := (if remove1 t (tlists k (Ready (unat (current_priority (threads k t))))) = []
               then ready_group k AND NOT (number_mask (threads k t)) else ready_group k)\<rparr>)"
  using assms by (simp add: rt_schedule_remove_thread_def prio_ok_def upd_defs Let_def)

lemma remove_thread_qinv:
  assumes q: "qinv X k" and p: "prio_ok (threads k t)"
  shows "\<exists>k'. rt_schedule_remove_thread t k = Some k' \<and> qinv (insert t X) k'"
proof -
  let ?p = "unat (current_priority (threads k t))"
  have r: "set (remove1 t (tlists k l)) = set (tlists k l) - {t}" for l
    using qinvD(6) [OF q] by simp
  have ready: "remove1 t (tlists k (Ready q)) = tlists k (Ready q)" if "q \<noteq> ?p" for q
    using that qinvD(2) [OF q, of t "Ready q"] by (intro remove1_idem) auto
  have "qinv (insert t X) (k\<lparr>tlists := (\<lambda>l. remove1 t (tlists k l)),
            ready_group := (if remove1 t (tlists k (Ready ?p)) = []
               then ready_group k AND NOT (number_mask (threads k t)) else ready_group k)\<rparr>)"
    (is "qinv _ ?k")
  proof (rule qinvI)
    show "bit (ready_group ?k) q \<longleftrightarrow> tlists ?k (Ready q) \<noteq> []" if "q < 32" for q
      using that p qinvD(1) [OF q, of q] ready [of q]
      by (cases "q = ?p") (auto simp: bit_and_iff bit_not_iff prio_ok_def bit_one_hot)
    show "lid_ok l (threads ?k u)" if "u \<in> set (tlists ?k l)" for l u
      using that qinvD(2) [OF q] by (auto simp: r)
    show "u \<notin> insert t X" if "u \<in> set (tlists ?k l)" for l u
      using that qinvD(3) [OF q] by (auto simp: r)
    show "u \<in> set (tlists ?k (Ready (unat (current_priority (threads ?k u)))))"
      if "stat_of (threads ?k u) = RT_THREAD_READY" "u \<notin> insert t X" for u
      using that qinvD(4) [OF q, of u] by (auto simp: r)
    show "prio_ok (threads ?k u)" if "started (threads ?k u)" for u
      using that qinvD(5) [OF q, of u] by auto
    show "distinct (tlists ?k l)" for l
      using qinvD(6) [OF q] by simp
    show "l = m" if "u \<in> set (tlists ?k l)" "u \<in> set (tlists ?k m)" for l m u
      using that qinvD(7) [OF q, of u l m] by (auto simp: r)
  qed
  then show ?thesis using remove_thread_eq [OF p] by simp
qed

section \<open>Choosing the next thread\<close>

lemma qinv_depart:
  assumes "qinv X k" "\<And>l. t \<notin> set (tlists k l)"
  shows "qinv (insert t X) k"
  using assms unfolding qinv_def by blast

lemma qinv_upd_same:
  assumes "qinv X k" "stat_of (f (threads k t)) = stat_of (threads k t)"
    "current_priority (f (threads k t)) = current_priority (threads k t)"
    "number_mask (f (threads k t)) = number_mask (threads k t)"
  shows "qinv X (upd_thread t f k)"
proof -
  have "lid_ok l (f (threads k t)) = lid_ok l (threads k t)" for l
    using assms by (cases l) auto
  then show ?thesis
    using assms unfolding qinv_def started_def prio_ok_def by auto
qed

lemma not_listed:
  assumes "qinv X k" "stat_of (threads k t) = RT_THREAD_RUNNING \<or> stat_of (threads k t) = RT_THREAD_INIT"
  shows "t \<notin> set (tlists k l)"
  using assms qinvD(2) [OF assms(1), of t l] by (cases l) auto

lemma get_highest_ok:
  assumes q: "qinv X k" and g: "ready_group k \<noteq> 0"
  obtains t ts p where "get_highest_priority_thread k = Some (t, p)" "tlists k (Ready p) = t # ts" "p < 32"
    "\<And>u. stat_of (threads k u) = RT_THREAD_READY \<Longrightarrow> u \<notin> X \<Longrightarrow> p \<le> unat (current_priority (threads k u))"
proof -
  let ?p = "rt_ffs (ready_group k) - 1"
  have low: "lowest_bit (ready_group k) ?p" by (rule rt_ffs_minus_1 [OF g])
  then have b: "bit (ready_group k) ?p" by (simp add: lowest_bit_def)
  then have p: "?p < 32" using bit_imp_le_length [OF b] by simp
  then obtain t ts where t: "tlists k (Ready ?p) = t # ts"
    using b qinvD(1) [OF q] by (cases "tlists k (Ready ?p)") auto
  have "?p \<le> unat (current_priority (threads k u))"
    if u: "stat_of (threads k u) = RT_THREAD_READY" "u \<notin> X" for u
  proof -
    have "prio_ok (threads k u)" using qinvD(5) [OF q] u by (simp add: started_def)
    moreover have "tlists k (Ready (unat (current_priority (threads k u)))) \<noteq> []"
      using qinvD(4) [OF q u] by auto
    ultimately have "bit (ready_group k) (unat (current_priority (threads k u)))"
      using qinvD(1) [OF q] by (simp add: prio_ok_def)
    then show ?thesis using low by (auto simp: lowest_bit_def not_less [symmetric])
  qed
  with t p show ?thesis
    by (intro that [of t ?p ts]) (auto simp: get_highest_priority_thread_def)
qed

lemma stack_check_simps [simp]:
  "stack_check (set_stat c th) = stack_check th" "stack_check (clear_yield th) = stack_check th"
  by (simp_all add: stack_check_def clear_yield_def)

lemma clear_yield_sel [simp]:
  "current_priority (clear_yield th) = current_priority th" "number_mask (clear_yield th) = number_mask th"
  by (simp_all add: clear_yield_def)

text \<open>Handing the processor to a ready thread \<open>t\<close>: \<open>c\<close> goes to the tail of its queue if it
  is still running.\<close>

lemma schedule_switch_ok:
  assumes q: "qinv {} k" and t: "stat_of (threads k t) = RT_THREAD_READY" "stack_check (threads k t)"
    and ct: "c \<noteq> t" and ins: "ins = (stat_of (threads k c) = RT_THREAD_RUNNING)"
  shows "\<exists>k'. schedule_switch c t p ins k = Some k' \<and> qinv {} k' \<and> cur k' = Some t \<and>
    threads k' = (\<lambda>u. if u = t then set_stat RT_THREAD_RUNNING (threads k t)
       else if u = c \<and> ins then set_stat RT_THREAD_READY (threads k c) else threads k u)"
proof -
  let ?k = "k\<lparr>rt_current_priority := of_nat p, cur := Some t\<rparr>"
  have q1: "qinv {} ?k" using q by simp
  have "\<exists>k2. (if ins then rt_schedule_insert_thread c ?k else Some ?k) = Some k2 \<and> qinv {} k2 \<and>
      cur k2 = Some t \<and>
      threads k2 = (if ins then (threads k)(c := set_stat RT_THREAD_READY (threads k c)) else threads k)"
  proof (cases ins)
    case True
    then have run: "stat_of (threads k c) = RT_THREAD_RUNNING" using ins by simp
    have p: "prio_ok (threads ?k c)" using qinvD(5) [OF q1, of c] run by (simp add: started_def)
    have "qinv (insert c {}) ?k"
      using q1 not_listed [OF q1, of c] run by (intro qinv_depart) auto
    then have "\<exists>k2. rt_schedule_insert_thread c ?k = Some k2 \<and> qinv {} k2"
      using ct p by (intro insert_thread_qinv) auto
    then show ?thesis using insert_thread_eq [of ?k c, OF _ p] ct True by auto
  qed (use q1 in auto)
  then obtain k2 where k2: "(if ins then rt_schedule_insert_thread c ?k else Some ?k) = Some k2"
    "qinv {} k2" "cur k2 = Some t"
    "threads k2 = (if ins then (threads k)(c := set_stat RT_THREAD_READY (threads k c)) else threads k)"
    by blast
  have p2: "prio_ok (threads k2 t)"
    using qinvD(5) [OF k2(2), of t] t ct k2(4) by (auto simp: started_def)
  obtain k3 where k3: "rt_schedule_remove_thread t k2 = Some k3" "qinv {t} k3"
    using remove_thread_qinv [OF k2(2) p2] by auto
  have th3: "threads k3 = threads k2" "cur k3 = cur k2" using k3(1) remove_thread_eq [OF p2] by auto
  let ?k4 = "upd_thread t (set_stat RT_THREAD_RUNNING) k3"
  have "qinv {t} ?k4" using k3(2) p2 th3 by (intro qinv_upd_transit) auto
  then have "qinv ({} - {t}) ?k4" by (intro qinv_arrive) auto
  then have "qinv {} (log_switch c t ?k4)" by (simp add: log_switch_def)
  moreover have "stack_check (threads ?k4 t)" using t ct th3 k2(4) by auto
  ultimately show ?thesis
    using k2 k3 th3 ct
    by (auto simp: schedule_switch_def log_switch_def fun_eq_iff)
qed

section \<open>Correctness of rt_schedule\<close>

text \<open>What \<open>rt_schedule\<close> guarantees of the thread that runs afterwards.\<close>

definition runs_highest :: "kernel \<Rightarrow> bool" where
  "runs_highest k \<longleftrightarrow> (\<exists>c. cur k = Some c \<and> stat_of (threads k c) = RT_THREAD_RUNNING \<and>
    (\<forall>t. stat_of (threads k t) = RT_THREAD_READY \<longrightarrow>
       unat (current_priority (threads k c)) \<le> unat (current_priority (threads k t))))"

definition stacks_ok :: "kernel \<Rightarrow> bool" where
  "stacks_ok k \<longleftrightarrow> (\<forall>t. started (threads k t) \<longrightarrow> stack_check (threads k t))"

lemma sched_invD:
  assumes "sched_inv k"
  shows "qinv {} k" and "stat_of (threads k t) = RT_THREAD_RUNNING \<Longrightarrow> cur k = Some t"
    and "cur k = Some c \<Longrightarrow> stat_of (threads k c) \<noteq> RT_THREAD_READY"
  using assms unfolding sched_inv_def by blast+

lemma sched_invI:
  assumes "qinv {} k" "\<And>t. stat_of (threads k t) = RT_THREAD_RUNNING \<Longrightarrow> cur k = Some t"
    "\<And>c. cur k = Some c \<Longrightarrow> stat_of (threads k c) \<noteq> RT_THREAD_READY"
  shows "sched_inv k"
  using assms unfolding sched_inv_def by blast

lemma sched_inv_stay:
  assumes inv: "sched_inv k" and c: "cur k = Some c" "stat_of (threads k c) = RT_THREAD_RUNNING"
  obtains k1 where "rt_schedule_remove_thread c (upd_thread c clear_yield k) = Some k1"
    "sched_inv (upd_thread c (set_stat RT_THREAD_RUNNING) k1)" "cur k1 = cur k"
    "threads k1 = (threads k)(c := clear_yield (threads k c))"
proof -
  let ?k = "upd_thread c clear_yield k"
  have q: "qinv {} ?k" by (rule qinv_upd_same) (simp_all add: sched_invD [OF inv])
  have p: "prio_ok (threads ?k c)" using qinvD(5) [OF q, of c] c by (simp add: started_def)
  obtain k1 where k1: "rt_schedule_remove_thread c ?k = Some k1" "qinv (insert c {}) k1"
    using remove_thread_qinv [OF q p] by auto
  have sel: "threads k1 = threads ?k" "cur k1 = cur ?k" using k1(1) remove_thread_eq [OF p] by auto
  let ?k2 = "upd_thread c (set_stat RT_THREAD_RUNNING) k1"
  have "qinv (insert c {}) ?k2" using k1(2) p sel by (intro qinv_upd_transit) auto
  then have q2: "qinv {} ?k2" using qinv_arrive [of c "{}" ?k2] by simp
  have "sched_inv ?k2"
  proof (rule sched_invI [OF q2])
    fix t assume "stat_of (threads ?k2 t) = RT_THREAD_RUNNING"
    then show "cur ?k2 = Some t"
      using sel c(1) sched_invD(2) [OF inv, of t] by (cases "t = c") simp_all
  next
    fix d assume "cur ?k2 = Some d"
    then have "d = c" using sel c(1) by simp
    then show "stat_of (threads ?k2 d) \<noteq> RT_THREAD_READY" by simp
  qed
  then show ?thesis using that [OF k1(1)] sel by simp
qed

lemma sched_inv_switch:
  assumes inv: "sched_inv k" and c: "cur k = Some c" and t: "stat_of (threads k t) = RT_THREAD_READY"
    "stack_check (threads k t)" and run: "run = (stat_of (threads k c) = RT_THREAD_RUNNING)"
    and k1: "k1 = (if run then upd_thread c clear_yield k else k)"
  obtains k' where "schedule_switch c t p run k1 = Some k'" "sched_inv k'" "cur k' = Some t"
    "threads k' = (\<lambda>u. if u = t then set_stat RT_THREAD_RUNNING (threads k t)
       else if u = c \<and> run then set_stat RT_THREAD_READY (clear_yield (threads k c)) else threads k u)"
proof -
  have ct: "c \<noteq> t" using sched_invD(3) [OF inv c] t by auto
  have q: "qinv {} k1"
    unfolding k1 using sched_invD(1) [OF inv] qinv_upd_same [of "{}" k clear_yield c] by simp
  have th1: "threads k1 t = threads k t" "stat_of (threads k1 c) = stat_of (threads k c)"
    using ct unfolding k1 by simp_all
  obtain k' where k': "schedule_switch c t p run k1 = Some k'" "qinv {} k'" "cur k' = Some t"
    and th: "threads k' = (\<lambda>u. if u = t then set_stat RT_THREAD_RUNNING (threads k1 t)
       else if u = c \<and> run then set_stat RT_THREAD_READY (threads k1 c) else threads k1 u)"
    using schedule_switch_ok [OF q, of t c run p] t ct th1 run by auto
  have th': "threads k' = (\<lambda>u. if u = t then set_stat RT_THREAD_RUNNING (threads k t)
       else if u = c \<and> run then set_stat RT_THREAD_READY (clear_yield (threads k c)) else threads k u)"
    unfolding th k1 using ct by (intro ext) simp
  have "sched_inv k'"
  proof (rule sched_invI [OF k'(2)])
    fix u assume u: "stat_of (threads k' u) = RT_THREAD_RUNNING"
    show "cur k' = Some u"
    proof (rule ccontr)
      assume "cur k' \<noteq> Some u"
      then have "u \<noteq> t" using k'(3) by simp
      then have "stat_of (threads k u) = RT_THREAD_RUNNING" "\<not> (u = c \<and> run)"
        using u unfolding th' by (auto split: if_splits)
      then show False using sched_invD(2) [OF inv, of u] c run by simp
    qed
  qed (use k'(3) th' in simp)
  then show ?thesis using that [OF k'(1)] k'(3) th' by simp
qed

text \<open>The components of the state that only the scheduler writes may change, nothing else.\<close>

definition sched_only :: "kernel \<Rightarrow> kernel \<Rightarrow> bool" where
  "sched_only k k' \<longleftrightarrow> hdr k' = hdr k \<and> containers k' = containers k \<and> lock_nest k' = lock_nest k \<and>
    interrupt_nest k' = interrupt_nest k \<and> rt_tick k' = rt_tick k \<and> timers k' = timers k \<and>
    tmlists k' = tmlists k \<and> soft_timer_status k' = soft_timer_status k \<and>
    timer_thread k' = timer_thread k \<and> sems k' = sems k \<and> mutexes k' = mutexes k \<and>
    events k' = events k \<and> mailboxes k' = mailboxes k \<and> mqs k' = mqs k"

text \<open>The lists a thread waits in.\<close>

definition waits :: "kernel \<Rightarrow> (nat \<Rightarrow> tid list) \<times> (nat \<Rightarrow> tid list) \<times> tid list" where
  "waits k = (\<lambda>i. tlists k (Suspend i), \<lambda>i. tlists k (Sender i), tlists k Defunct)"

text \<open>The structures of the threads keep all but the state byte, and no thread starts or stops
  waiting.\<close>

definition same_threads :: "kernel \<Rightarrow> kernel \<Rightarrow> bool" where
  "same_threads k k' \<longleftrightarrow> (\<forall>t. \<exists>s. threads k' t = (threads k t)\<lparr>t_stat := s\<rparr> \<and>
     (stat_of (threads k' t) = stat_of (threads k t) \<or>
      stat_of (threads k' t) \<in> {RT_THREAD_READY, RT_THREAD_RUNNING} \<and>
      stat_of (threads k t) \<in> {RT_THREAD_READY, RT_THREAD_RUNNING}))"

lemma sched_only_refl [simp]: "sched_only k k"
  by (simp add: sched_only_def)

lemma sched_only_trans: "sched_only k k' \<Longrightarrow> sched_only k' k'' \<Longrightarrow> sched_only k k''"
  by (simp add: sched_only_def)

lemma sched_onlyD:
  assumes "sched_only k k'"
  shows "hdr k' = hdr k" "containers k' = containers k" "lock_nest k' = lock_nest k"
    "interrupt_nest k' = interrupt_nest k" "rt_tick k' = rt_tick k" "timers k' = timers k"
    "tmlists k' = tmlists k" "soft_timer_status k' = soft_timer_status k"
    "timer_thread k' = timer_thread k" "sems k' = sems k" "mutexes k' = mutexes k"
    "events k' = events k" "mailboxes k' = mailboxes k" "mqs k' = mqs k"
  using assms by (simp_all add: sched_only_def)

lemma sched_only_upd [simp]: "sched_only k (upd_thread t f k)"
  by (simp add: sched_only_def)

lemma sched_only_upd_side [simp]:
  "sched_only k (upd_thread t f k') = sched_only k k'"
  "sched_only (upd_thread t f k) k' = sched_only k k'"
  by (simp_all add: sched_only_def)

lemma insert_thread_only: "rt_schedule_insert_thread t k = Some k' \<Longrightarrow> sched_only k k'"
  by (auto simp: rt_schedule_insert_thread_def sched_only_def Let_def upd_defs split: if_splits)

lemma remove_thread_only: "rt_schedule_remove_thread t k = Some k' \<Longrightarrow> sched_only k k'"
  by (auto simp: rt_schedule_remove_thread_def sched_only_def Let_def upd_defs split: if_splits)

lemma schedule_switchE:
  assumes "schedule_switch c t p ins k = Some k'"
  obtains k2 k3 where "(if ins then rt_schedule_insert_thread c (k\<lparr>rt_current_priority := of_nat p, cur := Some t\<rparr>)
      else Some (k\<lparr>rt_current_priority := of_nat p, cur := Some t\<rparr>)) = Some k2"
    "rt_schedule_remove_thread t k2 = Some k3"
    "k' = log_switch c t (upd_thread t (set_stat RT_THREAD_RUNNING) k3)"
  using assms unfolding schedule_switch_def Let_def bind_eq_Some_conv by (metis option.distinct(1) option.inject)

lemma schedule_switch_only:
  assumes "schedule_switch c t p ins k = Some k'"
  shows "sched_only k k'"
proof -
  let ?k = "k\<lparr>rt_current_priority := of_nat p, cur := Some t\<rparr>"
  obtain k2 k3 where k: "(if ins then rt_schedule_insert_thread c ?k else Some ?k) = Some k2"
      "rt_schedule_remove_thread t k2 = Some k3"
    and k': "k' = log_switch c t (upd_thread t (set_stat RT_THREAD_RUNNING) k3)"
    using assms by (rule schedule_switchE)
  have "sched_only ?k k2" using k(1) by (auto split: if_splits dest: insert_thread_only)
  then have "sched_only ?k k3" using remove_thread_only [OF k(2)] sched_only_trans by blast
  then show ?thesis unfolding k' by (simp add: sched_only_def log_switch_def)
qed

lemma rt_schedule_only: "rt_schedule k = Some k' \<Longrightarrow> sched_only k k'"
  unfolding rt_schedule_def Let_def
  by (auto simp: bind_eq_Some_conv split: if_splits
      dest!: schedule_switch_only remove_thread_only)

lemma insert_thread_waits: "rt_schedule_insert_thread t k = Some k' \<Longrightarrow> waits k' = waits k"
  by (auto simp: rt_schedule_insert_thread_def waits_def Let_def upd_defs split: if_splits)

lemma remove_thread_waits:
  assumes q: "qinv X k" and t: "stat_of (threads k t) \<noteq> RT_THREAD_SUSPEND" "stat_of (threads k t) \<noteq> RT_THREAD_CLOSE"
    and k': "rt_schedule_remove_thread t k = Some k'"
  shows "waits k' = waits k"
proof -
  have "remove1 t (tlists k l) = tlists k l" if "\<And>p. l \<noteq> Ready p" for l
    using that t qinvD(2) [OF q, of t l] by (cases l) (auto intro!: remove1_idem)
  then have "waits (tl_remove t k) = waits k" by (simp add: waits_def tl_remove_def)
  moreover have "waits k' = waits (tl_remove t k)"
    using k' by (auto simp: rt_schedule_remove_thread_def waits_def Let_def split: if_splits)
  ultimately show ?thesis by simp
qed

lemma waits_upd [simp]: "waits (upd_thread t f k) = waits k" "waits (log_switch c t k) = waits k"
  "waits (k\<lparr>rt_current_priority := p, cur := x\<rparr>) = waits k"
  by (simp_all add: waits_def log_switch_def)

lemma schedule_switch_waits:
  assumes q: "qinv {} k" and t: "stat_of (threads k t) = RT_THREAD_READY" and ct: "c \<noteq> t"
    and ins: "ins \<longrightarrow> stat_of (threads k c) = RT_THREAD_RUNNING"
    and k': "schedule_switch c t p ins k = Some k'"
  shows "waits k' = waits k"
proof -
  let ?k = "k\<lparr>rt_current_priority := of_nat p, cur := Some t\<rparr>"
  obtain k2 k3 where k: "(if ins then rt_schedule_insert_thread c ?k else Some ?k) = Some k2"
      "rt_schedule_remove_thread t k2 = Some k3"
    and k': "k' = log_switch c t (upd_thread t (set_stat RT_THREAD_RUNNING) k3)"
    using k' by (rule schedule_switchE)
  have q1: "qinv {} ?k" using q by simp
  have "waits k2 = waits ?k \<and> qinv {} k2 \<and> threads k2 t = threads k t"
  proof (cases ins)
    case True
    then have run: "stat_of (threads ?k c) = RT_THREAD_RUNNING" using ins by simp
    have p: "prio_ok (threads ?k c)" using qinvD(5) [OF q1, of c] run by (simp add: started_def)
    have "qinv (insert c {}) ?k"
      using q1 not_listed [OF q1, of c] run by (intro qinv_depart) auto
    then have "\<exists>k2. rt_schedule_insert_thread c ?k = Some k2 \<and> qinv {} k2"
      using ct p by (intro insert_thread_qinv) auto
    then show ?thesis
      using True k(1) ct insert_thread_waits [of c ?k k2] insert_thread_eq [of ?k c, OF _ p] by auto
  qed (use k(1) q1 in auto)
  then have "waits k3 = waits ?k" using remove_thread_waits [of "{}" k2 t k3] k(2) t by simp
  then show ?thesis unfolding k' by simp
qed

lemma same_threads_refl [simp]: "same_threads k k"
  unfolding same_threads_def
proof
  fix t
  have "threads k t = (threads k t)\<lparr>t_stat := t_stat (threads k t)\<rparr>" by simp
  then show "\<exists>s. threads k t = (threads k t)\<lparr>t_stat := s\<rparr> \<and>
     (stat_of (threads k t) = stat_of (threads k t) \<or>
      stat_of (threads k t) \<in> {RT_THREAD_READY, RT_THREAD_RUNNING} \<and>
      stat_of (threads k t) \<in> {RT_THREAD_READY, RT_THREAD_RUNNING})" by blast
qed

lemma same_threads_eq: "threads k' = threads k \<Longrightarrow> same_threads k k'"
  using same_threads_refl [of k] unfolding same_threads_def by metis

lemma same_threads_stacks:
  assumes "same_threads k k'" "stacks_ok k"
  shows "stacks_ok k'"
proof (unfold stacks_ok_def, intro allI impI)
  fix t assume "started (threads k' t)"
  moreover obtain s where s: "threads k' t = (threads k t)\<lparr>t_stat := s\<rparr>"
    and "stat_of (threads k' t) = stat_of (threads k t) \<or>
      stat_of (threads k t) \<in> {RT_THREAD_READY, RT_THREAD_RUNNING}"
    using assms(1) unfolding same_threads_def by blast
  ultimately have "started (threads k t)" by (auto simp: started_def)
  then show "stack_check (threads k' t)" using assms(2) s by (simp add: stacks_ok_def stack_check_def)
qed

lemma set_stat_clear_yield_ex:
  "\<exists>s. set_stat c th = th\<lparr>t_stat := s\<rparr>" "\<exists>s. clear_yield th = th\<lparr>t_stat := s\<rparr>"
  "\<exists>s. set_stat c (clear_yield th) = th\<lparr>t_stat := s\<rparr>" "\<exists>s. th = th\<lparr>t_stat := s\<rparr>"
  by (auto simp: set_stat_def clear_yield_def intro: exI [of _ "t_stat th"])

text \<open>The main lemma on \<open>rt_schedule\<close>.\<close>

lemma rt_schedule_ok:
  assumes inv: "sched_inv k" and c: "cur k = Some c" and st: "stacks_ok k"
  shows "\<exists>k'. rt_schedule k = Some k' \<and> sched_inv k' \<and> same_threads k k' \<and> waits k' = waits k \<and> cur k' \<noteq> None \<and>
    (if lock_nest k = 0 \<and> ready_group k \<noteq> 0 then runs_highest k' else k' = k)"
proof (cases "lock_nest k = 0 \<and> ready_group k \<noteq> 0")
  case False
  then show ?thesis using inv c by (auto simp: rt_schedule_def)
next
  case act: True
  have q: "qinv {} k" using inv by (simp add: sched_inv_def)
  obtain t ts p where h: "get_highest_priority_thread k = Some (t, p)" "tlists k (Ready p) = t # ts"
    and min: "\<And>u. stat_of (threads k u) = RT_THREAD_READY \<Longrightarrow> p \<le> unat (current_priority (threads k u))"
    using get_highest_ok [OF q] act by (metis empty_iff)
  have t: "stat_of (threads k t) = RT_THREAD_READY" "unat (current_priority (threads k t)) = p"
    using qinvD(2) [OF q, of t "Ready p"] h(2) by auto
  have ct: "c \<noteq> t" using inv c t by (auto simp: sched_inv_def)
  let ?run = "stat_of (threads k c) = RT_THREAD_RUNNING"
  let ?stays = "?run \<and> (unat (current_priority (threads k c)) < p \<or>
    unat (current_priority (threads k c)) = p \<and> t_stat (threads k c) AND RT_THREAD_STAT_YIELD = 0)"
  show ?thesis
  proof (cases ?stays)
    case True
    then obtain k1 where k1: "rt_schedule_remove_thread c (upd_thread c clear_yield k) = Some k1"
      "sched_inv (upd_thread c (set_stat RT_THREAD_RUNNING) k1)" "cur k1 = cur k"
      "threads k1 = (threads k)(c := clear_yield (threads k c))"
      using sched_inv_stay [OF inv c] by blast
    let ?k2 = "upd_thread c (set_stat RT_THREAD_RUNNING) k1"
    have pc: "unat (current_priority (threads k c)) \<le> p" using True by auto
    have "unat (current_priority (threads ?k2 c)) \<le> unat (current_priority (threads ?k2 u))"
      if "stat_of (threads ?k2 u) = RT_THREAD_READY" for u
      using that k1(4) pc min [of u] by (cases "u = c") simp_all
    then have "runs_highest ?k2"
      unfolding runs_highest_def using k1(3) c by (intro exI [of _ c] conjI) simp_all
    moreover have "rt_schedule k = Some ?k2"
      using k1(1) act h(1) c True unfolding rt_schedule_def by (simp add: Let_def)
    moreover have "same_threads k ?k2"
      unfolding same_threads_def using k1(4) c True set_stat_clear_yield_ex by auto
    moreover have "waits ?k2 = waits k"
    proof -
      have "qinv {} (upd_thread c clear_yield k)" by (rule qinv_upd_same [OF q]) simp_all
      then show ?thesis using remove_thread_waits [OF _ _ _ k1(1)] True by simp
    qed
    ultimately show ?thesis using k1(2,3) act c by (intro exI [of _ ?k2]) simp
  next
    case False
    let ?k1 = "if ?run then upd_thread c clear_yield k else k"
    obtain k' where k': "schedule_switch c t p ?run ?k1 = Some k'" "sched_inv k'" "cur k' = Some t"
      "threads k' = (\<lambda>u. if u = t then set_stat RT_THREAD_RUNNING (threads k t)
         else if u = c \<and> ?run then set_stat RT_THREAD_READY (clear_yield (threads k c)) else threads k u)"
      using sched_inv_switch [OF inv c t(1) _ refl refl, of p] st t(1) by (auto simp: stacks_ok_def started_def)
    have pc: "p \<le> unat (current_priority (threads k c))" if ?run using that False by auto
    have "unat (current_priority (threads k' t)) \<le> unat (current_priority (threads k' u))"
      if u: "stat_of (threads k' u) = RT_THREAD_READY" for u
    proof -
      have "p \<le> unat (current_priority (threads k' u))"
        using u t(2) min [of u] pc unfolding k'(4) by (auto split: if_splits)
      then show ?thesis using k'(4) t(2) by simp
    qed
    then have "runs_highest k'"
      unfolding runs_highest_def using k'(3,4) by (intro exI [of _ t] conjI) simp_all
    moreover have "rt_schedule k = Some k'"
      using False k'(1) act h(1) c ct unfolding rt_schedule_def by (cases ?run) (auto simp: Let_def)
    moreover have "same_threads k k'"
      unfolding same_threads_def using k'(4) t set_stat_clear_yield_ex by auto
    moreover have "waits k' = waits k"
    proof -
      have "qinv {} ?k1" using q qinv_upd_same [OF q, of clear_yield c] by simp
      then have "waits k' = waits ?k1"
        using schedule_switch_waits [OF _ _ ct _ k'(1)] t(1) ct by (cases ?run) auto
      then show ?thesis by (simp split: if_splits)
    qed
    ultimately show ?thesis using k'(2,3) act by (intro exI [of _ k']) simp
  qed
qed

text \<open>
  C4: \<open>rt_schedule\<close> never stops when the started threads have sound stacks, keeps the scheduler
  invariant, does nothing while the scheduler is locked or no thread is ready, and otherwise
  leaves a running current thread whose priority no ready thread beats. It changes no thread
  structure apart from the state byte, no waiting list and no other component of the kernel.
\<close>

theorem rt_schedule_correct:
  assumes "sched_inv k" "cur k = Some c" "stacks_ok k"
  shows "\<exists>k'. rt_schedule k = Some k' \<and> sched_inv k' \<and> stacks_ok k' \<and> same_threads k k' \<and>
    sched_only k k' \<and> waits k' = waits k \<and>
    (if lock_nest k = 0 \<and> ready_group k \<noteq> 0 then runs_highest k' else k' = k)"
  using rt_schedule_ok [OF assms] same_threads_stacks rt_schedule_only assms(3) by blast

text \<open>Thread 0 runs with priority 5; threads 1 and 2 of priority 3 are ready, 1 first; thread 3
  is suspended on the IPC object 0.\<close>

definition demo_kernel :: kernel where
  "demo_kernel = zero_kernel\<lparr>cur := Some 0, ready_group := 8,
    threads := (\<lambda>_. zero_thread)(0 := demo_thread 5 RT_THREAD_RUNNING, 1 := demo_thread 3 RT_THREAD_READY,
      2 := demo_thread 3 RT_THREAD_READY, 3 := demo_thread 4 RT_THREAD_SUSPEND),
    tlists := (\<lambda>_. [])(Ready 3 := [1, 2], Suspend 0 := [3])\<rparr>"

lemma demo_kernel_sel [simp]:
  "cur demo_kernel = Some 0" "ready_group demo_kernel = 8" "lock_nest demo_kernel = 0"
  "threads demo_kernel = (\<lambda>_. zero_thread)(0 := demo_thread 5 RT_THREAD_RUNNING, 1 := demo_thread 3 RT_THREAD_READY,
      2 := demo_thread 3 RT_THREAD_READY, 3 := demo_thread 4 RT_THREAD_SUSPEND)"
  "tlists demo_kernel = (\<lambda>_. [])(Ready 3 := [1, 2], Suspend 0 := [3])"
  "interrupt_nest demo_kernel = 0"
  by (simp_all add: demo_kernel_def zero_kernel_def)

lemma demo_kernel_inv: "sched_inv demo_kernel"
proof (rule sched_invI)
  have b: "bit (8 :: u32) p \<longleftrightarrow> p = 3" for p using bit_one_hot [of 3 p] by simp
  show "qinv {} demo_kernel"
  proof (rule qinvI)
    show "bit (ready_group demo_kernel) p \<longleftrightarrow> tlists demo_kernel (Ready p) \<noteq> []" if "p < 32" for p
      using b [of p] by auto
  qed (auto simp: prio_ok_def started_def split: if_splits)
qed (auto split: if_splits)

lemma demo_kernel_stacks: "stacks_ok demo_kernel"
  unfolding stacks_ok_def by (auto simp: stack_check_def demo_thread_def started_def split: if_splits)

text \<open>In the demonstration state thread 0 is preempted.\<close>

theorem rt_schedule_correct_witness:
  "sched_inv demo_kernel \<and> stacks_ok demo_kernel \<and> (\<exists>k'. rt_schedule demo_kernel = Some k' \<and>
     sched_inv k' \<and> waits k' = waits demo_kernel \<and> runs_highest k')"
  using rt_schedule_correct [OF demo_kernel_inv _ demo_kernel_stacks, of 0] demo_kernel_inv
    demo_kernel_stacks by auto

end
