(* ===== verification/RT_Object.thy ===== *)
theory RT_Object
  imports RT_Sched
begin

unbundle bit_operations_syntax

text \<open>
  The object system, \<open>src/object.c\<close>: the containers of the object classes, static and
  dynamic objects, and the look-up by name, with the two string routines of \<open>kservice.c\<close> it uses.
  A name is the array of \<open>RT_NAME_MAX = 8\<close> characters of the object header; a C string argument is
  the list of its characters without the terminator.
\<close>

section \<open>Operations\<close>

text \<open>\<open>rt_strncpy\<close>: the \<open>n\<close> characters written to the destination.\<close>

fun rt_strncpy :: "string \<Rightarrow> nat \<Rightarrow> string" where
  "rt_strncpy s 0 = []"
| "rt_strncpy [] (Suc n) = replicate (Suc n) (CHR 0x00)"
| "rt_strncpy (c # s) (Suc n) =
    (if c = CHR 0x00 then replicate (Suc n) (CHR 0x00) else c # rt_strncpy s n)"

text \<open>The character a pointer into a string reads: the terminator at the end.\<close>

fun char_at :: "string \<Rightarrow> char" where
  "char_at [] = CHR 0x00"
| "char_at (c # s) = c"

fun rt_strncmp :: "string \<Rightarrow> string \<Rightarrow> nat \<Rightarrow> u8" where
  "rt_strncmp cs ct 0 = 0"
| "rt_strncmp cs ct (Suc count) =
    (let res = of_char (char_at cs) - of_char (char_at ct)
     in if res \<noteq> 0 \<or> char_at cs = CHR 0x00 then res
        else rt_strncmp (tl cs) (tl ct) count)"

text \<open>The classes of \<open>rt_object_container\<close> in this configuration; a class without a container
  is \<open>RT_NULL\<close>.\<close>

definition rt_object_get_information :: "u8 \<Rightarrow> u8 option" where
  "rt_object_get_information ty =
    find (\<lambda>c. c = ty) [Class_Thread, Class_Semaphore, Class_Mutex, Class_Event, Class_MailBox,
      Class_MessageQueue, Class_MemPool, Class_Device, Class_Timer]"

definition rt_object_get_length :: "u8 \<Rightarrow> kernel \<Rightarrow> nat" where
  "rt_object_get_length ty k =
    (case rt_object_get_information ty of None \<Rightarrow> 0 | Some c \<Rightarrow> length (containers k c))"

text \<open>\<open>rt_object_get_pointers\<close>: the pointers written to the caller's array; the result is their
  number.\<close>

definition rt_object_get_pointers :: "u8 \<Rightarrow> int \<Rightarrow> kernel \<Rightarrow> oref list" where
  "rt_object_get_pointers ty maxlen k =
    (if maxlen \<le> 0 then []
     else case rt_object_get_information ty of
            None \<Rightarrow> []
          | Some c \<Rightarrow> take (nat maxlen) (containers k c))"

definition container_push :: "u8 \<Rightarrow> oref \<Rightarrow> kernel \<Rightarrow> kernel" where
  "container_push c r k = k\<lparr>containers := (containers k)(c := r # containers k c)\<rparr>"

definition container_remove :: "oref \<Rightarrow> kernel \<Rightarrow> kernel" where
  "container_remove r k = k\<lparr>containers := (\<lambda>c. remove1 r (containers k c))\<rparr>"

definition rt_object_init :: "oref \<Rightarrow> u8 \<Rightarrow> string \<Rightarrow> kernel \<Rightarrow> kernel option" where
  "rt_object_init r ty nam k =
    do {
      c \<leftarrow> rt_object_get_information ty;
      let k = rt_enter_critical k;
      RT_ASSERT (r \<notin> set (containers k c));
      k \<leftarrow> rt_exit_critical k;
      let k = upd_hdr r (\<lambda>h. h\<lparr>o_type := ty OR Class_Static, o_name := rt_strncpy nam 8\<rparr>) k;
      Some (container_push c r k)
    }"

definition rt_object_detach :: "oref \<Rightarrow> kernel \<Rightarrow> kernel" where
  "rt_object_detach r k = container_remove r (upd_hdr r (\<lambda>h. h\<lparr>o_type := 0\<rparr>) k)"

text \<open>\<open>rt_memset(object, 0, size)\<close> of a new object.\<close>

fun zero_struct :: "oref \<Rightarrow> kernel \<Rightarrow> kernel" where
  "zero_struct (OThread t) k =
    k\<lparr>threads := (threads k)(t := zero_thread), timers := (timers k)(ThreadTimer t := zero_timer),
      hdr := (hdr k)(OThread t := zero_object, OTimer (ThreadTimer t) := zero_object)\<rparr>"
| "zero_struct (OTimer m) k =
    k\<lparr>timers := (timers k)(m := zero_timer), hdr := (hdr k)(OTimer m := zero_object)\<rparr>"
| "zero_struct (OIpc i) k =
    k\<lparr>sems := (sems k)(i := zero_sem), mutexes := (mutexes k)(i := zero_mutex),
      events := (events k)(i := zero_event), mailboxes := (mailboxes k)(i := zero_mailbox),
      mqs := (mqs k)(i := zero_mq), hdr := (hdr k)(OIpc i := zero_object)\<rparr>"

text \<open>\<open>mem\<close> is what \<open>RT_KERNEL_MALLOC\<close> returns: an object that is not in use, or \<open>RT_NULL\<close>.\<close>

definition rt_object_allocate :: "oref option \<Rightarrow> u8 \<Rightarrow> string \<Rightarrow> kernel \<Rightarrow> (oref option \<times> kernel) option" where
  "rt_object_allocate mem ty nam k =
    do {
      RT_ASSERT (not_in_interrupt k);
      c \<leftarrow> rt_object_get_information ty;
      case mem of
        None \<Rightarrow> Some (None, k)
      | Some r \<Rightarrow>
          let k = zero_struct r k;
              k = upd_hdr r (\<lambda>h. h\<lparr>o_type := ty, o_flag := 0, o_name := rt_strncpy nam 8\<rparr>) k
          in Some (Some r, container_push c r k)
    }"

text \<open>The memory goes back to the heap, which is not part of this state.\<close>

definition rt_object_delete :: "oref \<Rightarrow> kernel \<Rightarrow> kernel option" where
  "rt_object_delete r k =
    do {
      RT_ASSERT (o_type (hdr k r) AND Class_Static = 0);
      Some (container_remove r (upd_hdr r (\<lambda>h. h\<lparr>o_type := 0\<rparr>) k))
    }"

definition rt_object_find :: "string \<Rightarrow> u8 \<Rightarrow> kernel \<Rightarrow> (oref option \<times> kernel) option" where
  "rt_object_find nam ty k =
    (case rt_object_get_information ty of
       None \<Rightarrow> Some (None, k)
     | Some c \<Rightarrow>
         do {
           RT_ASSERT (not_in_interrupt k);
           let k = rt_enter_critical k;
           let res = find (\<lambda>r. rt_strncmp (o_name (hdr k r)) nam 8 = 0) (containers k c);
           k \<leftarrow> rt_exit_critical k;
           Some (res, k)
         })"

section \<open>Facts\<close>

lemma of_char_word_inject: "(of_char c :: u8) = of_char d \<longleftrightarrow> c = d"
proof
  assume "(of_char c :: u8) = of_char d"
  then have "(word_of_nat (of_char c) :: u8) = word_of_nat (of_char d)" by (simp only: of_nat_of_char)
  then have "(of_char c :: nat) mod 256 = of_char d mod 256"
    by (simp add: word_of_nat_eq_iff take_bit_eq_mod)
  then have "(of_char c :: nat) = of_char d"
    using nat_of_char_less_256 [of c] nat_of_char_less_256 [of d] by simp
  then show "c = d" by simp
qed simp

text \<open>Names are compared on their first eight characters.\<close>

lemma rt_strncmp_copy:
  assumes "CHR 0x00 \<notin> set nam" "CHR 0x00 \<notin> set nam'"
  shows "rt_strncmp (rt_strncpy nam n) nam' n = 0 \<longleftrightarrow> take n nam' = take n nam"
  using assms
proof (induction n arbitrary: nam nam')
  case (Suc n)
  have "(of_char c :: u8) = 0 \<longleftrightarrow> c = CHR 0x00" for c using of_char_word_inject [of c "CHR 0x00"] by simp
  then show ?case
    using Suc by (cases nam; cases nam') (auto simp: of_char_word_inject Let_def)
qed simp

text \<open>What \<open>rt_object_find\<close> finds, apart from the rescheduling at its end.\<close>

definition lookup_name :: "string \<Rightarrow> u8 \<Rightarrow> kernel \<Rightarrow> oref option" where
  "lookup_name nam ty k = find (\<lambda>r. rt_strncmp (o_name (hdr k r)) nam 8 = 0) (containers k ty)"

lemma information_type: "rt_object_get_information ty = Some c \<Longrightarrow> c = ty"
  by (auto simp: rt_object_get_information_def split: if_splits)

lemma length_rt_strncpy [simp]: "length (rt_strncpy s n) = n"
  by (induction s n rule: rt_strncpy.induct) auto

lemma sched_inv_lock [simp]: "sched_inv (k\<lparr>lock_nest := n\<rparr>) = sched_inv k"
  by (simp add: sched_inv_def)

lemma stacks_ok_lock [simp]: "stacks_ok (k\<lparr>lock_nest := n\<rparr>) = stacks_ok k"
  by (simp add: stacks_ok_def)

lemma exit_critical_only:
  "rt_exit_critical k = Some k' \<Longrightarrow> sched_only (k\<lparr>lock_nest := lock_nest k'\<rparr>) k'"
  by (auto simp: rt_exit_critical_def Let_def sched_only_def split: if_splits dest!: rt_schedule_only)

lemma exit_critical_ok:
  assumes "sched_inv k" "stacks_ok k"
  shows "\<exists>k'. rt_exit_critical k = Some k' \<and> sched_inv k' \<and> stacks_ok k' \<and> waits k' = waits k \<and>
    same_threads k k' \<and> (cur k' = None \<longleftrightarrow> cur k = None)"
proof (cases "sint (lock_nest k - 1) \<le> 0 \<and> cur k \<noteq> None")
  case True
  let ?k = "k\<lparr>lock_nest := 0\<rparr>"
  obtain c where c: "cur ?k = Some c" using True by auto
  obtain k' where k': "rt_schedule ?k = Some k'" "sched_inv k'" "same_threads ?k k'" "waits k' = waits ?k" "cur k' \<noteq> None"
    using rt_schedule_ok [OF _ c] assms by auto
  moreover have "stacks_ok k'" using same_threads_stacks [OF k'(3)] assms(2) by simp
  moreover have "same_threads k k'" using k'(3) by (simp add: same_threads_def)
  ultimately show ?thesis using True by (auto simp: rt_exit_critical_def waits_def)
next
  case False
  have "same_threads k (k\<lparr>lock_nest := n\<rparr>)" for n
    by (rule same_threads_eq) simp
  then show ?thesis using assms False by (auto simp: rt_exit_critical_def waits_def Let_def)
qed

text \<open>A supported class is its own container and does not use the static flag.\<close>

lemma class_static:
  assumes "rt_object_get_information ty = Some c"
  shows "c = ty" "(ty OR Class_Static) AND NOT Class_Static = ty" "(ty OR Class_Static) AND Class_Static \<noteq> 0"
    "ty AND NOT Class_Static = ty" "ty AND Class_Static = 0"
  using assms by (auto simp: rt_object_get_information_def split: if_splits)

definition object_registered :: "oref \<Rightarrow> u8 \<Rightarrow> string \<Rightarrow> kernel \<Rightarrow> bool" where
  "object_registered r ty nam k \<longleftrightarrow> rt_object_get_type r k = ty \<and> o_name (hdr k r) = rt_strncpy nam 8 \<and>
    (\<exists>rs. containers k ty = r # rs)"

lemma sched_inv_frame [simp]:
  "sched_inv (k\<lparr>hdr := h\<rparr>) = sched_inv k" "sched_inv (k\<lparr>containers := cs\<rparr>) = sched_inv k"
  "sched_inv (k\<lparr>timers := m\<rparr>) = sched_inv k" "sched_inv (k\<lparr>tmlists := ml\<rparr>) = sched_inv k"
  "sched_inv (k\<lparr>rt_tick := n\<rparr>) = sched_inv k" "sched_inv (k\<lparr>sems := s\<rparr>) = sched_inv k"
  "sched_inv (k\<lparr>mutexes := mu\<rparr>) = sched_inv k" "sched_inv (k\<lparr>events := e\<rparr>) = sched_inv k"
  "sched_inv (k\<lparr>mailboxes := mb\<rparr>) = sched_inv k" "sched_inv (k\<lparr>mqs := q\<rparr>) = sched_inv k"
  "sched_inv (k\<lparr>interrupt_nest := i\<rparr>) = sched_inv k"
  "sched_inv (k\<lparr>soft_timer_status := st\<rparr>) = sched_inv k"
  by (simp_all add: sched_inv_def)

lemma stacks_ok_frame [simp]:
  "stacks_ok (k\<lparr>hdr := h\<rparr>) = stacks_ok k" "stacks_ok (k\<lparr>containers := cs\<rparr>) = stacks_ok k"
  "stacks_ok (k\<lparr>timers := m\<rparr>) = stacks_ok k" "stacks_ok (k\<lparr>tmlists := ml\<rparr>) = stacks_ok k"
  "stacks_ok (k\<lparr>rt_tick := n\<rparr>) = stacks_ok k" "stacks_ok (k\<lparr>sems := s\<rparr>) = stacks_ok k"
  "stacks_ok (k\<lparr>mutexes := mu\<rparr>) = stacks_ok k" "stacks_ok (k\<lparr>events := e\<rparr>) = stacks_ok k"
  "stacks_ok (k\<lparr>mailboxes := mb\<rparr>) = stacks_ok k" "stacks_ok (k\<lparr>mqs := q\<rparr>) = stacks_ok k"
  "stacks_ok (k\<lparr>interrupt_nest := i\<rparr>) = stacks_ok k"
  "stacks_ok (k\<lparr>soft_timer_status := st\<rparr>) = stacks_ok k"
  by (simp_all add: stacks_ok_def)

lemma object_init_ok:
  assumes inv: "sched_inv k" "stacks_ok k" and c: "rt_object_get_information ty = Some c"
    and r: "r \<notin> set (containers k ty)"
  shows "\<exists>k'. rt_object_init r ty nam k = Some k' \<and> sched_inv k' \<and> stacks_ok k' \<and>
    waits k' = waits k \<and> same_threads k k' \<and> (cur k' = None \<longleftrightarrow> cur k = None) \<and>
    interrupt_nest k' = interrupt_nest k \<and> rt_tick k' = rt_tick k \<and>
    hdr k' = (hdr k)(r := (hdr k r)\<lparr>o_type := ty OR Class_Static, o_name := rt_strncpy nam 8\<rparr>) \<and>
    containers k' = (containers k)(ty := r # containers k ty) \<and>
    timers k' = timers k \<and> tmlists k' = tmlists k"
proof -
  let ?k = "rt_enter_critical k"
  obtain k1 where k1: "rt_exit_critical ?k = Some k1" "sched_inv k1" "stacks_ok k1" "waits k1 = waits k"
      "same_threads k k1" "cur k1 = None \<longleftrightarrow> cur k = None"
    using exit_critical_ok [of ?k] inv by (auto simp: rt_enter_critical_def waits_def same_threads_def)
  have f: "hdr k1 = hdr k" "containers k1 = containers k" "interrupt_nest k1 = interrupt_nest k"
    "timers k1 = timers k" "tmlists k1 = tmlists k" "rt_tick k1 = rt_tick k"
    using exit_critical_only [OF k1(1)] by (simp_all add: sched_only_def rt_enter_critical_def)
  have cs: "containers ?k = containers k" by (simp add: rt_enter_critical_def)
  let ?k2 = "container_push c r (upd_hdr r (\<lambda>h. h\<lparr>o_type := ty OR Class_Static, o_name := rt_strncpy nam 8\<rparr>) k1)"
  have "rt_object_init r ty nam k = Some ?k2"
    using c r cs k1(1) class_static(1) [OF c] unfolding rt_object_init_def by simp
  then show ?thesis
    using k1 f class_static(1) [OF c]
    by (intro exI [of _ ?k2]) (simp add: container_push_def upd_hdr_def waits_def same_threads_def)
qed

lemma object_find_ok:
  assumes "sched_inv k" "stacks_ok k" "not_in_interrupt k" "rt_object_get_information ty = Some c"
  shows "\<exists>k'. rt_object_find nam ty k = Some (lookup_name nam ty k, k') \<and> sched_inv k' \<and> stacks_ok k'"
proof -
  let ?k = "rt_enter_critical k"
  have e: "containers ?k = containers k" "hdr ?k = hdr k" "sched_inv ?k" "stacks_ok ?k"
    using assms(1,2) by (simp_all add: rt_enter_critical_def)
  obtain k' where "rt_exit_critical ?k = Some k'" "sched_inv k'" "stacks_ok k'"
    using exit_critical_ok [OF e(3,4)] by blast
  then show ?thesis
    using e assms(3,4) class_static(1) [OF assms(4)] by (simp add: rt_object_find_def lookup_name_def)
qed

text \<open>
  C5: An object that \<open>rt_object_init\<close> registers is found by its name, although only eight characters are stored: the look-up
  of any name returns this object if the first eight characters agree, and otherwise what it returned
  before the registration. The type of the object is the given class, and it counts as a system (static) object.
\<close>

theorem rt_object_init_find:
  assumes "sched_inv k" "stacks_ok k" "not_in_interrupt k" "rt_object_get_information ty \<noteq> None"
    and "r \<notin> set (containers k ty)" "CHR 0x00 \<notin> set nam" "CHR 0x00 \<notin> set nam'"
  shows "\<exists>k1 k2 k3 old. rt_object_find nam' ty k = Some (old, k3) \<and> rt_object_init r ty nam k = Some k1 \<and>
    rt_object_find nam' ty k1 = Some (if take 8 nam' = take 8 nam then Some r else old, k2) \<and>
    sched_inv k1 \<and> sched_inv k2 \<and> object_registered r ty nam k1 \<and> rt_object_is_systemobject r k1"
proof -
  obtain c where c: "rt_object_get_information ty = Some c" using assms(4) by auto
  note ty = class_static [OF c]
  obtain k3 where k3: "rt_object_find nam' ty k = Some (lookup_name nam' ty k, k3)"
    using object_find_ok [OF assms(1-3) c] by blast
  obtain k1 where k1: "rt_object_init r ty nam k = Some k1" "sched_inv k1" "stacks_ok k1"
    and f: "interrupt_nest k1 = interrupt_nest k"
      "hdr k1 = (hdr k)(r := (hdr k r)\<lparr>o_type := ty OR Class_Static, o_name := rt_strncpy nam 8\<rparr>)"
      "containers k1 = (containers k)(ty := r # containers k ty)"
    using object_init_ok [OF assms(1,2) c assms(5)] by blast
  have i: "not_in_interrupt k1" using assms(3) f(1) by (simp add: not_in_interrupt_def)
  obtain k2 where k2: "rt_object_find nam' ty k1 = Some (lookup_name nam' ty k1, k2)" "sched_inv k2"
    using object_find_ok [OF k1(2,3) i c] by blast
  have "find (\<lambda>q. rt_strncmp (o_name (hdr k1 q)) nam' 8 = 0) (containers k ty) = lookup_name nam' ty k"
    unfolding lookup_name_def using assms(5) f(2) by (intro find_cong) auto
  then have "lookup_name nam' ty k1 = (if take 8 nam' = take 8 nam then Some r else lookup_name nam' ty k)"
    using f rt_strncmp_copy [OF assms(6,7)] by (simp add: lookup_name_def)
  moreover have "object_registered r ty nam k1" "rt_object_is_systemobject r k1"
    using f ty unfolding object_registered_def rt_object_get_type_def rt_object_is_systemobject_def by simp_all
  ultimately show ?thesis using k1 k2 k3 by auto
qed

theorem rt_object_init_find_witness:
  "\<exists>k1 k2. rt_object_init (OIpc 7) Class_Semaphore ''bt_rx_semaphore'' demo_kernel = Some k1 \<and>
    rt_object_find ''bt_rx_semaphore'' Class_Semaphore k1 = Some (Some (OIpc 7), k2) \<and>
    rt_object_is_systemobject (OIpc 7) k1"
  using rt_object_init_find [OF demo_kernel_inv demo_kernel_stacks, of Class_Semaphore "OIpc 7" "''bt_rx_semaphore''" "''bt_rx_semaphore''"]
  by (auto simp: not_in_interrupt_def rt_object_get_information_def demo_kernel_def zero_kernel_def)

end
