(* ===== verification/RT_Timer.thy ===== *)
theory RT_Timer
  imports RT_Object
begin

unbundle bit_operations_syntax

text \<open>
  Timers, \<open>src/timer.c\<close>: the timer structures and the two sorted timer lists (hard timers,
  handled in the tick interrupt, and soft timers, handled by the timer thread). With
  \<open>RT_TIMER_SKIP_LIST_LEVEL = 1\<close> the skip list is a plain list. Starting a timer and the
  expiry loops, which call into the threads, are in theory \<open>RT_Timer_Run\<close>.
\<close>

section \<open>Operations\<close>

definition timer_activated :: "tmid \<Rightarrow> kernel \<Rightarrow> bool" where
  "timer_activated t k \<longleftrightarrow> o_flag (hdr k (OTimer t)) AND RT_TIMER_FLAG_ACTIVATED \<noteq> 0"

definition timer_periodic :: "tmid \<Rightarrow> kernel \<Rightarrow> bool" where
  "timer_periodic t k \<longleftrightarrow> o_flag (hdr k (OTimer t)) AND RT_TIMER_FLAG_PERIODIC \<noteq> 0"

definition timer_soft :: "tmid \<Rightarrow> kernel \<Rightarrow> bool" where
  "timer_soft t k \<longleftrightarrow> o_flag (hdr k (OTimer t)) AND RT_TIMER_FLAG_SOFT_TIMER \<noteq> 0"

definition clear_flag :: "tmid \<Rightarrow> u8 \<Rightarrow> kernel \<Rightarrow> kernel" where
  "clear_flag t b = upd_hdr (OTimer t) (\<lambda>h. h\<lparr>o_flag := o_flag h AND NOT b\<rparr>)"

definition set_flag :: "tmid \<Rightarrow> u8 \<Rightarrow> kernel \<Rightarrow> kernel" where
  "set_flag t b = upd_hdr (OTimer t) (\<lambda>h. h\<lparr>o_flag := o_flag h OR b\<rparr>)"

definition timer_linked :: "tmid \<Rightarrow> kernel \<Rightarrow> bool" where
  "timer_linked t k \<longleftrightarrow> t \<in> set (tmlists k HardList) \<or> t \<in> set (tmlists k SoftList) \<or>
    t \<in> set (tmlists k HardTemp) \<or> t \<in> set (tmlists k SoftTemp)"

text \<open>\<open>_rt_timer_init\<close>. Initialising the node of a timer that is still linked would
  break the list it is in: \<open>None\<close>.\<close>

definition rt_timer_init_fields :: "tmid \<Rightarrow> timeout_fn \<Rightarrow> u32 \<Rightarrow> u8 \<Rightarrow> kernel \<Rightarrow> kernel option" where
  "rt_timer_init_fields t timeout time flag k =
    do {
      let k = upd_hdr (OTimer t) (\<lambda>h. h\<lparr>o_flag := flag\<rparr>) k;
      let k = clear_flag t RT_TIMER_FLAG_ACTIVATED k;
      let k = upd_timer t (\<lambda>_. \<lparr>timeout_func = timeout, init_tick = time, timeout_tick = 0\<rparr>) k;
      if timer_linked t k then None else Some k
    }"

definition rt_timer_list_next_timeout :: "tmlid \<Rightarrow> kernel \<Rightarrow> u32" where
  "rt_timer_list_next_timeout l k =
    (case tmlists k l of [] \<Rightarrow> 0xFFFFFFFF | t # _ \<Rightarrow> timeout_tick (timers k t))"

definition rt_timer_init :: "tmid \<Rightarrow> string \<Rightarrow> timeout_fn \<Rightarrow> u32 \<Rightarrow> u8 \<Rightarrow> kernel \<Rightarrow> kernel option" where
  "rt_timer_init t nam timeout time flag k =
    do {
      k \<leftarrow> rt_object_init (OTimer t) Class_Timer nam k;
      rt_timer_init_fields t timeout time flag k
    }"

definition rt_timer_detach :: "tmid \<Rightarrow> kernel \<Rightarrow> (rt_err_t \<times> kernel) option" where
  "rt_timer_detach t k =
    do {
      RT_ASSERT (rt_object_get_type (OTimer t) k = Class_Timer);
      RT_ASSERT (rt_object_is_systemobject (OTimer t) k);
      let k = tm_remove t k;
      let k = clear_flag t RT_TIMER_FLAG_ACTIVATED k;
      Some (RT_EOK, rt_object_detach (OTimer t) k)
    }"

definition rt_timer_create ::
  "tmid option \<Rightarrow> string \<Rightarrow> timeout_fn \<Rightarrow> u32 \<Rightarrow> u8 \<Rightarrow> kernel \<Rightarrow> (oref option \<times> kernel) option" where
  "rt_timer_create mem nam timeout time flag k =
    do {
      (obj, k) \<leftarrow> rt_object_allocate (map_option OTimer mem) Class_Timer nam k;
      case mem of
        None \<Rightarrow> Some (None, k)
      | Some t \<Rightarrow> do { k \<leftarrow> rt_timer_init_fields t timeout time flag k; Some (obj, k) }
    }"

definition rt_timer_delete :: "tmid \<Rightarrow> kernel \<Rightarrow> (rt_err_t \<times> kernel) option" where
  "rt_timer_delete t k =
    do {
      RT_ASSERT (rt_object_get_type (OTimer t) k = Class_Timer);
      RT_ASSERT (\<not> rt_object_is_systemobject (OTimer t) k);
      let k = tm_remove t k;
      let k = clear_flag t RT_TIMER_FLAG_ACTIVATED k;
      k \<leftarrow> rt_object_delete (OTimer t) k;
      Some (RT_EOK, k)
    }"

text \<open>The search of \<open>rt_timer_start\<close> for the insertion point, and the insertion.\<close>

fun timer_insert :: "(tmid \<Rightarrow> u32) \<Rightarrow> tmid \<Rightarrow> tmid list \<Rightarrow> tmid list" where
  "timer_insert tt timer [] = [timer]"
| "timer_insert tt timer (t # ts) =
    (if tt t - tt timer = 0 then t # timer_insert tt timer ts
     else if tt t - tt timer < RT_TICK_HALF then timer # t # ts
     else t # timer_insert tt timer ts)"

definition rt_timer_stop :: "tmid \<Rightarrow> kernel \<Rightarrow> (rt_err_t \<times> kernel) option" where
  "rt_timer_stop t k =
    do {
      RT_ASSERT (rt_object_get_type (OTimer t) k = Class_Timer);
      if \<not> timer_activated t k then Some (- RT_ERROR, k)
      else
        let k = tm_remove t k;
            k = clear_flag t RT_TIMER_FLAG_ACTIVATED k
        in Some (RT_EOK, k)
    }"

text \<open>\<open>rt_timer_control\<close>: \<open>arg\<close> is the value behind the pointer, and the first component of the
  result its value afterwards.\<close>

definition rt_timer_control :: "tmid \<Rightarrow> int \<Rightarrow> u32 \<Rightarrow> kernel \<Rightarrow> (u32 \<times> kernel) option" where
  "rt_timer_control t cmd arg k =
    do {
      RT_ASSERT (rt_object_get_type (OTimer t) k = Class_Timer);
      Some (if cmd = 1 then (init_tick (timers k t), k)
        else if cmd = 0 then (arg, upd_timer t (\<lambda>m. m\<lparr>init_tick := arg\<rparr>) k)
        else if cmd = 2 then (arg, clear_flag t RT_TIMER_FLAG_PERIODIC k)
        else if cmd = 3 then (arg, set_flag t RT_TIMER_FLAG_PERIODIC k)
        else if cmd = 4 then (if timer_activated t k then (1, k) else (0, k))
        else (arg, k))
    }"

definition rt_timer_next_timeout_tick :: "kernel \<Rightarrow> u32" where
  "rt_timer_next_timeout_tick k = rt_timer_list_next_timeout HardList k"

definition rt_system_timer_init :: "kernel \<Rightarrow> kernel" where
  "rt_system_timer_init k = k\<lparr>tmlists := (tmlists k)(HardList := [])\<rparr>"

section \<open>Flags\<close>

lemma and_flag_bit:
  fixes x :: u8
  shows "x AND 1 = 0 \<longleftrightarrow> \<not> bit x 0" "x AND 2 = 0 \<longleftrightarrow> \<not> bit x 1" "x AND 4 = 0 \<longleftrightarrow> \<not> bit x 2"
  using and_exp_eq_0_iff_not_bit [of x 0] and_exp_eq_0_iff_not_bit [of x 1]
    and_exp_eq_0_iff_not_bit [of x 2] by simp_all

lemma bit_clear_bit: "bit (x AND NOT (2 ^ m) :: u8) n \<longleftrightarrow> bit x n \<and> n \<noteq> m"
  by (auto simp: bit_and_iff bit_not_iff bit_exp_iff dest: bit_imp_le_length)

lemma bit_clear_flag:
  fixes x :: u8
  shows "bit (x AND - 2) n \<longleftrightarrow> bit x n \<and> n \<noteq> 0" "bit (x AND - 3) n \<longleftrightarrow> bit x n \<and> n \<noteq> 1"
  using bit_clear_bit [of x 0 n] bit_clear_bit [of x 1 n] by simp_all

lemma bit_set_bit: "m < 8 \<Longrightarrow> bit (x OR 2 ^ m :: u8) n \<longleftrightarrow> bit x n \<or> n = m"
  by (auto simp: bit_or_iff bit_exp_iff)

lemma bit_set_flag:
  fixes x :: u8
  shows "bit (x OR 1) n \<longleftrightarrow> bit x n \<or> n = 0" "bit (x OR 2) n \<longleftrightarrow> bit x n \<or> n = 1"
  using bit_set_bit [of 0 x n] bit_set_bit [of 1 x n] by simp_all

lemmas timer_flag_defs = timer_activated_def timer_periodic_def timer_soft_def

lemma timer_flag_bits:
  "timer_activated t k \<longleftrightarrow> bit (o_flag (hdr k (OTimer t))) 0"
  "timer_periodic t k \<longleftrightarrow> bit (o_flag (hdr k (OTimer t))) 1"
  "timer_soft t k \<longleftrightarrow> bit (o_flag (hdr k (OTimer t))) 2"
  by (simp_all add: timer_activated_def timer_periodic_def timer_soft_def and_flag_bit)

lemma upd_hdr_sel [simp]:
  "hdr (upd_hdr r f k) = (hdr k)(r := f (hdr k r))" "threads (upd_hdr r f k) = threads k"
  "tlists (upd_hdr r f k) = tlists k" "ready_group (upd_hdr r f k) = ready_group k"
  "cur (upd_hdr r f k) = cur k" "timers (upd_hdr r f k) = timers k" "tmlists (upd_hdr r f k) = tmlists k"
  "rt_tick (upd_hdr r f k) = rt_tick k" "lock_nest (upd_hdr r f k) = lock_nest k"
  "interrupt_nest (upd_hdr r f k) = interrupt_nest k" "sems (upd_hdr r f k) = sems k"
  "mutexes (upd_hdr r f k) = mutexes k" "events (upd_hdr r f k) = events k"
  "mailboxes (upd_hdr r f k) = mailboxes k" "mqs (upd_hdr r f k) = mqs k"
  "containers (upd_hdr r f k) = containers k" "soft_timer_status (upd_hdr r f k) = soft_timer_status k"
  "timer_thread (upd_hdr r f k) = timer_thread k"
  by (simp_all add: upd_hdr_def)

lemma upd_timer_sel [simp]:
  "timers (upd_timer t f k) = (timers k)(t := f (timers k t))" "threads (upd_timer t f k) = threads k"
  "tlists (upd_timer t f k) = tlists k" "ready_group (upd_timer t f k) = ready_group k"
  "cur (upd_timer t f k) = cur k" "hdr (upd_timer t f k) = hdr k" "tmlists (upd_timer t f k) = tmlists k"
  "rt_tick (upd_timer t f k) = rt_tick k" "lock_nest (upd_timer t f k) = lock_nest k"
  "interrupt_nest (upd_timer t f k) = interrupt_nest k" "sems (upd_timer t f k) = sems k"
  "mutexes (upd_timer t f k) = mutexes k" "events (upd_timer t f k) = events k"
  "mailboxes (upd_timer t f k) = mailboxes k" "mqs (upd_timer t f k) = mqs k"
  "containers (upd_timer t f k) = containers k" "soft_timer_status (upd_timer t f k) = soft_timer_status k"
  "timer_thread (upd_timer t f k) = timer_thread k"
  by (simp_all add: upd_timer_def)

lemma tm_remove_sel [simp]:
  "tmlists (tm_remove t k) l = remove1 t (tmlists k l)" "threads (tm_remove t k) = threads k"
  "tlists (tm_remove t k) = tlists k" "ready_group (tm_remove t k) = ready_group k"
  "cur (tm_remove t k) = cur k" "hdr (tm_remove t k) = hdr k" "timers (tm_remove t k) = timers k"
  "rt_tick (tm_remove t k) = rt_tick k" "lock_nest (tm_remove t k) = lock_nest k"
  "interrupt_nest (tm_remove t k) = interrupt_nest k" "sems (tm_remove t k) = sems k"
  "mutexes (tm_remove t k) = mutexes k" "events (tm_remove t k) = events k"
  "mailboxes (tm_remove t k) = mailboxes k" "mqs (tm_remove t k) = mqs k"
  "containers (tm_remove t k) = containers k" "soft_timer_status (tm_remove t k) = soft_timer_status k"
  "timer_thread (tm_remove t k) = timer_thread k"
  by (simp_all add: tm_remove_def)

lemma sched_frame_timer [simp]:
  "sched_inv (upd_hdr r f k) = sched_inv k" "sched_inv (upd_timer t g k) = sched_inv k"
  "sched_inv (tm_remove t k) = sched_inv k" "stacks_ok (upd_hdr r f k) = stacks_ok k"
  "stacks_ok (upd_timer t g k) = stacks_ok k" "stacks_ok (tm_remove t k) = stacks_ok k"
  "qinv X (upd_hdr r f k) = qinv X k" "qinv X (upd_timer t g k) = qinv X k"
  "qinv X (tm_remove t k) = qinv X k" "waits (upd_hdr r f k) = waits k"
  "waits (upd_timer t g k) = waits k" "waits (tm_remove t k) = waits k"
  by (simp_all add: sched_inv_def stacks_ok_def qinv_def waits_def)

lemma timer_flags_clear [simp]:
  "timer_activated m (clear_flag t 1 k) \<longleftrightarrow> timer_activated m k \<and> m \<noteq> t"
  "timer_periodic m (clear_flag t 1 k) \<longleftrightarrow> timer_periodic m k"
  "timer_soft m (clear_flag t 1 k) \<longleftrightarrow> timer_soft m k"
  "timer_activated m (clear_flag t 2 k) \<longleftrightarrow> timer_activated m k"
  "timer_periodic m (clear_flag t 2 k) \<longleftrightarrow> timer_periodic m k \<and> m \<noteq> t"
  "timer_soft m (clear_flag t 2 k) \<longleftrightarrow> timer_soft m k"
  unfolding timer_flag_bits clear_flag_def by (auto simp: bit_clear_flag)

lemma timer_flags_set [simp]:
  "timer_activated m (set_flag t 1 k) \<longleftrightarrow> timer_activated m k \<or> m = t"
  "timer_periodic m (set_flag t 1 k) \<longleftrightarrow> timer_periodic m k"
  "timer_soft m (set_flag t 1 k) \<longleftrightarrow> timer_soft m k"
  "timer_activated m (set_flag t 2 k) \<longleftrightarrow> timer_activated m k"
  "timer_periodic m (set_flag t 2 k) \<longleftrightarrow> timer_periodic m k \<or> m = t"
  "timer_soft m (set_flag t 2 k) \<longleftrightarrow> timer_soft m k"
  unfolding timer_flag_bits set_flag_def by (auto simp: bit_set_flag)

section \<open>Order of the timer lists\<close>

text \<open>Ticks wrap around, so deadlines are ordered by their distance from a base tick \<open>b\<close>
  that lies before all of them; all distances stay below half of the tick range.\<close>

definition tm_dist :: "u32 \<Rightarrow> (tmid \<Rightarrow> u32) \<Rightarrow> tmid \<Rightarrow> nat" where
  "tm_dist b tt t = unat (tt t - b)"

definition tm_sorted :: "u32 \<Rightarrow> (tmid \<Rightarrow> u32) \<Rightarrow> tmid list \<Rightarrow> bool" where
  "tm_sorted b tt ts \<longleftrightarrow> sorted (map (tm_dist b tt) ts) \<and> (\<forall>t\<in>set ts. tm_dist b tt t < 0x7FFFFFFF)"

lemma word_half_compare:
  fixes x n :: u32
  assumes "unat x < 0x7FFFFFFF" "unat n < 0x7FFFFFFF"
  shows "x - n < 0x7FFFFFFF \<longleftrightarrow> unat n \<le> unat x" "x - n = 0 \<longleftrightarrow> unat x = unat n"
proof -
  have "x - n < 0x7FFFFFFF \<longleftrightarrow> unat (x - n) < 2147483647" by (simp add: word_less_nat_alt)
  moreover have "unat (x - n) = unat x - unat n" if "unat n \<le> unat x"
    using that by (simp add: unat_sub_if')
  moreover have "unat (x - n) = 4294967296 - (unat n - unat x)" if "\<not> unat n \<le> unat x"
    using that assms by (simp add: unat_sub_if')
  ultimately show "x - n < 0x7FFFFFFF \<longleftrightarrow> unat n \<le> unat x"
    using assms by (cases "unat n \<le> unat x") linarith+
  show "x - n = 0 \<longleftrightarrow> unat x = unat n" using unsigned_word_eqI [of x n] by auto
qed

lemma tm_dist_compare:
  assumes "tm_dist b tt t < 0x7FFFFFFF" "tm_dist b tt u < 0x7FFFFFFF"
  shows "tt t - tt u < RT_TICK_HALF \<longleftrightarrow> tm_dist b tt u \<le> tm_dist b tt t"
    "tt t - tt u = 0 \<longleftrightarrow> tm_dist b tt t = tm_dist b tt u"
proof -
  have "tt t - tt u = (tt t - b) - (tt u - b)" by simp
  then show "tt t - tt u < RT_TICK_HALF \<longleftrightarrow> tm_dist b tt u \<le> tm_dist b tt t"
    "tt t - tt u = 0 \<longleftrightarrow> tm_dist b tt t = tm_dist b tt u"
    using word_half_compare [of "tt t - b" "tt u - b"] assms unfolding tm_dist_def by simp_all
qed

lemma timer_insert_split:
  assumes "\<forall>t\<in>set ts. tm_dist b tt t < 0x7FFFFFFF" "tm_dist b tt timer < 0x7FFFFFFF"
  shows "timer_insert tt timer ts = takeWhile (\<lambda>t. tm_dist b tt t \<le> tm_dist b tt timer) ts @
    timer # dropWhile (\<lambda>t. tm_dist b tt t \<le> tm_dist b tt timer) ts"
  using assms
proof (induction ts)
  case (Cons t ts)
  then show ?case using tm_dist_compare [of b tt t timer] by auto
qed simp

lemma sorted_insert_after:
  fixes f :: "'a \<Rightarrow> nat"
  assumes "sorted (map f xs)"
  shows "sorted (map f (takeWhile (\<lambda>x. f x \<le> f y) xs @ y # dropWhile (\<lambda>x. f x \<le> f y) xs))"
proof -
  have "\<forall>x\<in>set (dropWhile (\<lambda>x. f x \<le> f y) xs). f y \<le> f x"
    using assms
  proof (induction xs)
    case (Cons x xs)
    then show ?case by (cases "f x \<le> f y") auto
  qed simp
  moreover have "\<forall>x\<in>set (takeWhile (\<lambda>x. f x \<le> f y) xs). f x \<le> f y"
    by (auto dest: set_takeWhileD)
  moreover have "sorted (map f (takeWhile (\<lambda>x. f x \<le> f y) xs))" "sorted (map f (dropWhile (\<lambda>x. f x \<le> f y) xs))"
    using assms by (metis sorted_append takeWhile_dropWhile_id map_append)+
  ultimately show ?thesis by (auto simp: sorted_append intro: order_trans)
qed

lemma timer_insert_sorted:
  assumes "tm_sorted b tt ts" "tm_dist b tt timer < 0x7FFFFFFF"
  shows "tm_sorted b tt (timer_insert tt timer ts)"
proof -
  have b: "\<forall>t\<in>set ts. tm_dist b tt t < 0x7FFFFFFF" using assms(1) by (simp add: tm_sorted_def)
  show ?thesis
    unfolding tm_sorted_def timer_insert_split [OF b assms(2)]
    using sorted_insert_after [of "tm_dist b tt" ts timer] assms b
    by (auto simp: tm_sorted_def dest: set_takeWhileD set_dropWhileD)
qed

lemma set_timer_insert [simp]: "set (timer_insert tt timer ts) = insert timer (set ts)"
  by (induction ts) auto

lemma distinct_timer_insert [simp]:
  "distinct (timer_insert tt timer ts) \<longleftrightarrow> timer \<notin> set ts \<and> distinct ts"
  by (induction ts) auto

lemma timer_insert_cong:
  assumes "tt timer = tt' timer" "\<forall>t\<in>set ts. tt t = tt' t"
  shows "timer_insert tt timer ts = timer_insert tt' timer ts"
  using assms by (induction ts) auto

section \<open>The invariant of the timer lists\<close>

definition tm_inv :: "kernel \<Rightarrow> bool" where
  "tm_inv k \<longleftrightarrow>
    (\<forall>l. distinct (tmlists k l)) \<and>
    (\<forall>l m t. t \<in> set (tmlists k l) \<and> t \<in> set (tmlists k m) \<longrightarrow> l = m) \<and>
    (\<forall>t\<in>set (tmlists k HardList). timer_activated t k \<and> \<not> timer_soft t k) \<and>
    (\<forall>t\<in>set (tmlists k SoftList). timer_activated t k \<and> timer_soft t k) \<and>
    (\<forall>t. timer_activated t k \<longrightarrow> (\<exists>l. t \<in> set (tmlists k l))) \<and>
    (\<forall>l. \<forall>t\<in>set (tmlists k l). rt_object_get_type (OTimer t) k = Class_Timer)"

lemma tm_invD:
  assumes "tm_inv k"
  shows "distinct (tmlists k l)" "t \<in> set (tmlists k l) \<Longrightarrow> t \<in> set (tmlists k m) \<Longrightarrow> l = m"
    "t \<in> set (tmlists k HardList) \<Longrightarrow> timer_activated t k" "t \<in> set (tmlists k HardList) \<Longrightarrow> \<not> timer_soft t k"
    "t \<in> set (tmlists k SoftList) \<Longrightarrow> timer_activated t k" "t \<in> set (tmlists k SoftList) \<Longrightarrow> timer_soft t k"
    "timer_activated t k \<Longrightarrow> \<exists>l. t \<in> set (tmlists k l)"
    "t \<in> set (tmlists k l) \<Longrightarrow> rt_object_get_type (OTimer t) k = Class_Timer"
  using assms unfolding tm_inv_def by blast+

lemma tm_inv_cong:
  assumes "hdr k' = hdr k" "tmlists k' = tmlists k"
  shows "tm_inv k' = tm_inv k"
  using assms unfolding tm_inv_def timer_flag_defs rt_object_get_type_def by simp

lemma get_type_flag [simp]:
  "rt_object_get_type r (clear_flag t b k) = rt_object_get_type r k"
  "rt_object_get_type r (set_flag t b k) = rt_object_get_type r k"
  "rt_object_get_type r (tm_remove t k) = rt_object_get_type r k"
  "rt_object_get_type r (upd_timer t f k) = rt_object_get_type r k"
  "rt_object_is_systemobject r (clear_flag t b k) = rt_object_is_systemobject r k"
  "rt_object_is_systemobject r (tm_remove t k) = rt_object_is_systemobject r k"
  by (simp_all add: rt_object_get_type_def rt_object_is_systemobject_def clear_flag_def set_flag_def)

lemma flag_remove [simp]:
  "timer_activated m (tm_remove t k) = timer_activated m k"
  "timer_periodic m (tm_remove t k) = timer_periodic m k"
  "timer_soft m (tm_remove t k) = timer_soft m k"
  "timer_activated m (upd_timer t f k) = timer_activated m k"
  "timer_periodic m (upd_timer t f k) = timer_periodic m k"
  "timer_soft m (upd_timer t f k) = timer_soft m k"
  by (simp_all add: timer_flag_defs)

lemma flag_tmlists [simp]:
  "timer_activated m (k\<lparr>tmlists := x\<rparr>) = timer_activated m k"
  "timer_periodic m (k\<lparr>tmlists := x\<rparr>) = timer_periodic m k"
  "timer_soft m (k\<lparr>tmlists := x\<rparr>) = timer_soft m k"
  "rt_object_get_type r (k\<lparr>tmlists := x\<rparr>) = rt_object_get_type r k"
  by (simp_all add: timer_flag_defs rt_object_get_type_def)

lemma clear_flag_sel [simp]:
  "tmlists (clear_flag t b k) = tmlists k" "timers (clear_flag t b k) = timers k"
  "threads (clear_flag t b k) = threads k" "tlists (clear_flag t b k) = tlists k" "cur (clear_flag t b k) = cur k"
  "rt_tick (clear_flag t b k) = rt_tick k" "ready_group (clear_flag t b k) = ready_group k"
  "tmlists (set_flag t b k) = tmlists k" "timers (set_flag t b k) = timers k"
  "threads (set_flag t b k) = threads k" "tlists (set_flag t b k) = tlists k" "cur (set_flag t b k) = cur k"
  "rt_tick (set_flag t b k) = rt_tick k" "ready_group (set_flag t b k) = ready_group k"
  by (simp_all add: clear_flag_def set_flag_def)

lemma clear_flag_frame [simp]:
  "hdr (clear_flag t b k) (OThread u) = hdr k (OThread u)" "hdr (clear_flag t b k) (OIpc i) = hdr k (OIpc i)"
  "containers (clear_flag t b k) = containers k" "lock_nest (clear_flag t b k) = lock_nest k"
  "interrupt_nest (clear_flag t b k) = interrupt_nest k" "sems (clear_flag t b k) = sems k"
  "soft_timer_status (clear_flag t b k) = soft_timer_status k" "mutexes (clear_flag t b k) = mutexes k"
  "timer_thread (clear_flag t b k) = timer_thread k" "events (clear_flag t b k) = events k"
  "mailboxes (clear_flag t b k) = mailboxes k" "mqs (clear_flag t b k) = mqs k"
  "sched_inv (clear_flag t b k) = sched_inv k" "stacks_ok (clear_flag t b k) = stacks_ok k"
  "qinv X (clear_flag t b k) = qinv X k" "waits (clear_flag t b k) = waits k"
  by (simp_all add: clear_flag_def)

lemma set_flag_frame [simp]:
  "hdr (set_flag t b k) (OThread u) = hdr k (OThread u)" "hdr (set_flag t b k) (OIpc i) = hdr k (OIpc i)"
  "containers (set_flag t b k) = containers k" "lock_nest (set_flag t b k) = lock_nest k"
  "interrupt_nest (set_flag t b k) = interrupt_nest k" "sems (set_flag t b k) = sems k"
  "soft_timer_status (set_flag t b k) = soft_timer_status k" "mutexes (set_flag t b k) = mutexes k"
  "timer_thread (set_flag t b k) = timer_thread k" "events (set_flag t b k) = events k"
  "mailboxes (set_flag t b k) = mailboxes k" "mqs (set_flag t b k) = mqs k"
  "sched_inv (set_flag t b k) = sched_inv k" "stacks_ok (set_flag t b k) = stacks_ok k"
  "qinv X (set_flag t b k) = qinv X k" "waits (set_flag t b k) = waits k"
  "rt_object_is_systemobject r (set_flag t b k) = rt_object_is_systemobject r k"
  by (simp_all add: set_flag_def rt_object_is_systemobject_def)

lemma tm_remove_set:
  assumes "tm_inv k"
  shows "set (remove1 t (tmlists k l)) = set (tmlists k l) - {t}"
  using tm_invD(1) [OF assms] by simp

lemma tm_invI:
  assumes "\<And>l. distinct (tmlists k l)"
    and "\<And>l m t. t \<in> set (tmlists k l) \<Longrightarrow> t \<in> set (tmlists k m) \<Longrightarrow> l = m"
    and "\<And>t. t \<in> set (tmlists k HardList) \<Longrightarrow> timer_activated t k \<and> \<not> timer_soft t k"
    and "\<And>t. t \<in> set (tmlists k SoftList) \<Longrightarrow> timer_activated t k \<and> timer_soft t k"
    and "\<And>t. timer_activated t k \<Longrightarrow> \<exists>l. t \<in> set (tmlists k l)"
    and "\<And>l t. t \<in> set (tmlists k l) \<Longrightarrow> rt_object_get_type (OTimer t) k = Class_Timer"
  shows "tm_inv k"
  using assms unfolding tm_inv_def by blast

lemma tm_inv_unlink:
  assumes inv: "tm_inv k"
  shows "tm_inv (clear_flag t 1 (tm_remove t k))" (is "tm_inv ?k")
proof (rule tm_invI)
  have s: "set (tmlists ?k l) = set (tmlists k l) - {t}" for l using tm_remove_set [OF inv] by simp
  show "distinct (tmlists ?k l)" for l using tm_invD(1) [OF inv] by simp
  show "l = m" if "u \<in> set (tmlists ?k l)" "u \<in> set (tmlists ?k m)" for l m u
    using that tm_invD(2) [OF inv] unfolding s by blast
  show "timer_activated u ?k \<and> \<not> timer_soft u ?k" if "u \<in> set (tmlists ?k HardList)" for u
    using that tm_invD(3,4) [OF inv, of u] unfolding s by simp
  show "timer_activated u ?k \<and> timer_soft u ?k" if "u \<in> set (tmlists ?k SoftList)" for u
    using that tm_invD(5,6) [OF inv, of u] unfolding s by simp
  show "\<exists>l. u \<in> set (tmlists ?k l)" if "timer_activated u ?k" for u
    using that tm_invD(7) [OF inv, of u] unfolding s by auto
  show "rt_object_get_type (OTimer u) ?k = Class_Timer" if "u \<in> set (tmlists ?k l)" for l u
    using that tm_invD(8) [OF inv, of u] unfolding s by auto
qed

text \<open>Putting an idle timer into the list of its kind.\<close>

lemma tm_inv_link:
  assumes inv: "tm_inv k" and t: "\<And>l. t \<notin> set (tmlists k l)" "rt_object_get_type (OTimer t) k = Class_Timer"
    and l: "n = (if timer_soft t k then SoftList else HardList)"
    and ts: "set ts = insert t (set (tmlists k n))" "distinct ts"
  shows "tm_inv (set_flag t 1 (k\<lparr>tmlists := (tmlists k)(n := ts)\<rparr>))" (is "tm_inv ?k")
proof (rule tm_invI)
  have s: "set (tmlists ?k l) = (if l = n then insert t (set (tmlists k l)) else set (tmlists k l))" for l
    using ts by simp
  show "distinct (tmlists ?k l)" for l using tm_invD(1) [OF inv] ts by simp
  show "l = m" if "u \<in> set (tmlists ?k l)" "u \<in> set (tmlists ?k m)" for l m u
    using that tm_invD(2) [OF inv, of u l m] t(1) unfolding s by (auto split: if_splits)
  show "timer_activated u ?k \<and> \<not> timer_soft u ?k" if "u \<in> set (tmlists ?k HardList)" for u
    using that tm_invD(3,4) [OF inv, of u] l unfolding s by (auto split: if_splits)
  show "timer_activated u ?k \<and> timer_soft u ?k" if "u \<in> set (tmlists ?k SoftList)" for u
    using that tm_invD(5,6) [OF inv, of u] l unfolding s by (auto split: if_splits)
  show "\<exists>l. u \<in> set (tmlists ?k l)" if "timer_activated u ?k" for u
  proof (cases "u = t")
    case True
    then show ?thesis unfolding s by (intro exI [of _ n]) simp
  next
    case False
    then obtain l where "u \<in> set (tmlists k l)" using \<open>timer_activated u ?k\<close> tm_invD(7) [OF inv, of u] by auto
    then show ?thesis unfolding s by (intro exI [of _ l]) auto
  qed
  show "rt_object_get_type (OTimer u) ?k = Class_Timer" if "u \<in> set (tmlists ?k l)" for l u
    using that tm_invD(8) [OF inv, of u] t(2) unfolding s by (auto split: if_splits)
qed

end
