(* ===== verification/RT_Wake.thy ===== *)
theory RT_Wake
  imports RT_Timer
begin

unbundle bit_operations_syntax

text \<open>
  Suspending, resuming and timing out a thread (\<open>src/thread.c\<close>), and the invariant that
  ties the scheduler, the timers and the thread structures together. \<open>timer.c\<close> and \<open>thread.c\<close>
  call each other; this theory holds the part of \<open>thread.c\<close> that \<open>timer.c\<close> needs.
\<close>

section \<open>Operations\<close>

definition rt_thread_suspend :: "tid \<Rightarrow> kernel \<Rightarrow> (rt_err_t \<times> kernel) option" where
  "rt_thread_suspend t k =
    do {
      RT_ASSERT (rt_object_get_type (OThread t) k = Class_Thread);
      let stat = stat_of (threads k t);
      if stat \<noteq> RT_THREAD_READY \<and> stat \<noteq> RT_THREAD_RUNNING then Some (- RT_ERROR, k)
      else do {
        RT_ASSERT (stat = RT_THREAD_RUNNING \<longrightarrow> rt_thread_self k = Some t);
        k \<leftarrow> rt_schedule_remove_thread t k;
        let k = upd_thread t (set_stat RT_THREAD_SUSPEND) k;
        (_, k) \<leftarrow> rt_timer_stop (ThreadTimer t) k;
        Some (RT_EOK, k)
      }
    }"

definition rt_thread_resume :: "tid \<Rightarrow> kernel \<Rightarrow> (rt_err_t \<times> kernel) option" where
  "rt_thread_resume t k =
    do {
      RT_ASSERT (rt_object_get_type (OThread t) k = Class_Thread);
      if stat_of (threads k t) \<noteq> RT_THREAD_SUSPEND then Some (- RT_ERROR, k)
      else do {
        let k = tl_remove t k;
        (_, k) \<leftarrow> rt_timer_stop (ThreadTimer t) k;
        k \<leftarrow> rt_schedule_insert_thread t k;
        Some (RT_EOK, k)
      }
    }"

definition rt_thread_timeout :: "tid \<Rightarrow> kernel \<Rightarrow> kernel option" where
  "rt_thread_timeout t k =
    do {
      RT_ASSERT (stat_of (threads k t) = RT_THREAD_SUSPEND);
      RT_ASSERT (rt_object_get_type (OThread t) k = Class_Thread);
      let k = upd_thread t (\<lambda>th. th\<lparr>t_error := - RT_ETIMEOUT\<rparr>) k;
      let k = tl_remove t k;
      k \<leftarrow> rt_schedule_insert_thread t k;
      rt_schedule k
    }"

section \<open>The kernel invariant\<close>

text \<open>A started thread is a live thread object whose timer is a live hard one-shot timer that calls
  \<open>rt_thread_timeout\<close> for it; a pending thread timer belongs to a suspended thread.\<close>

definition tcb_ok :: "tid \<Rightarrow> kernel \<Rightarrow> bool" where
  "tcb_ok t k \<longleftrightarrow> rt_object_get_type (OThread t) k = Class_Thread \<and>
    rt_object_get_type (OTimer (ThreadTimer t)) k = Class_Timer \<and>
    rt_object_is_systemobject (OTimer (ThreadTimer t)) k \<and>
    timeout_func (timers k (ThreadTimer t)) = Rt_Thread_Timeout t \<and>
    \<not> timer_periodic (ThreadTimer t) k \<and> \<not> timer_soft (ThreadTimer t) k"

definition tt_inv :: "kernel \<Rightarrow> bool" where
  "tt_inv k \<longleftrightarrow> (\<forall>t. started (threads k t) \<longrightarrow> tcb_ok t k) \<and>
    (\<forall>t. ThreadTimer t \<in> set (tmlists k HardList) \<union> set (tmlists k SoftList) \<longrightarrow>
       stat_of (threads k t) = RT_THREAD_SUSPEND) \<and>
    (\<forall>n. \<exists>f p. timeout_func (timers k (UserTimer n)) = User_Timeout f p)"

definition kinv :: "kernel \<Rightarrow> bool" where
  "kinv k \<longleftrightarrow> sched_inv k \<and> stacks_ok k \<and> tm_inv k \<and> tt_inv k"

lemma tt_invD:
  assumes "tt_inv k"
  shows "started (threads k t) \<Longrightarrow> tcb_ok t k"
    "ThreadTimer t \<in> set (tmlists k HardList) \<Longrightarrow> stat_of (threads k t) = RT_THREAD_SUSPEND"
    "ThreadTimer t \<in> set (tmlists k SoftList) \<Longrightarrow> stat_of (threads k t) = RT_THREAD_SUSPEND"
    "\<exists>f p. timeout_func (timers k (UserTimer n)) = User_Timeout f p"
  using assms unfolding tt_inv_def by blast+

lemma kinvD:
  assumes "kinv k"
  shows "sched_inv k" "stacks_ok k" "tm_inv k" "tt_inv k" "qinv {} k"
  using assms by (simp_all add: kinv_def sched_inv_def)

lemma tcb_ok_cong:
  assumes "hdr k' = hdr k" "timers k' = timers k"
  shows "tcb_ok t k' = tcb_ok t k"
  using assms unfolding tcb_ok_def timer_flag_defs rt_object_get_type_def rt_object_is_systemobject_def by simp

lemma same_threadsD:
  assumes "same_threads k k'"
  shows "started (threads k' t) = started (threads k t)"
    "stat_of (threads k' t) = RT_THREAD_SUSPEND \<longleftrightarrow> stat_of (threads k t) = RT_THREAD_SUSPEND"
    "\<exists>s. threads k' t = (threads k t)\<lparr>t_stat := s\<rparr>"
    "stat_of (threads k t) \<in> {RT_THREAD_READY, RT_THREAD_RUNNING} \<Longrightarrow>
      stat_of (threads k' t) \<in> {RT_THREAD_READY, RT_THREAD_RUNNING}"
proof -
  have *: "\<exists>s. threads k' t = (threads k t)\<lparr>t_stat := s\<rparr> \<and>
     (stat_of (threads k' t) = stat_of (threads k t) \<or>
      stat_of (threads k' t) \<in> {RT_THREAD_READY, RT_THREAD_RUNNING} \<and>
      stat_of (threads k t) \<in> {RT_THREAD_READY, RT_THREAD_RUNNING})"
    using assms unfolding same_threads_def by blast
  then show "started (threads k' t) = started (threads k t)"
    "stat_of (threads k' t) = RT_THREAD_SUSPEND \<longleftrightarrow> stat_of (threads k t) = RT_THREAD_SUSPEND"
    "\<exists>s. threads k' t = (threads k t)\<lparr>t_stat := s\<rparr>"
    "stat_of (threads k t) \<in> {RT_THREAD_READY, RT_THREAD_RUNNING} \<Longrightarrow>
      stat_of (threads k' t) \<in> {RT_THREAD_READY, RT_THREAD_RUNNING}"
    by (auto simp: started_def)
qed

lemma tt_inv_transfer:
  assumes "tt_inv k" "hdr k' = hdr k" "timers k' = timers k" "tmlists k' = tmlists k" "same_threads k k'"
  shows "tt_inv k'"
  using assms same_threadsD [OF assms(5)] tcb_ok_cong [OF assms(2,3)] unfolding tt_inv_def by simp

lemma rt_schedule_kinv:
  assumes inv: "kinv k" and c: "cur k \<noteq> None"
  shows "\<exists>k'. rt_schedule k = Some k' \<and> kinv k' \<and> same_threads k k' \<and> sched_only k k' \<and>
    waits k' = waits k \<and> cur k' \<noteq> None \<and>
    (if lock_nest k = 0 \<and> ready_group k \<noteq> 0 then runs_highest k' else k' = k)"
proof -
  obtain c where c: "cur k = Some c" using c by auto
  obtain k' where k': "rt_schedule k = Some k'" "sched_inv k'" "same_threads k k'" "waits k' = waits k"
      "cur k' \<noteq> None" "if lock_nest k = 0 \<and> ready_group k \<noteq> 0 then runs_highest k' else k' = k"
    using rt_schedule_ok [OF kinvD(1) [OF inv] c kinvD(2) [OF inv]] by blast
  have only: "sched_only k k'" by (rule rt_schedule_only [OF k'(1)])
  note f = sched_onlyD [OF only]
  have "kinv k'"
    using k' kinvD [OF inv] same_threads_stacks [OF k'(3)] tt_inv_transfer [OF _ f(1,6,7) k'(3)]
      tm_inv_cong [OF f(1,7)] unfolding kinv_def by simp
  then show ?thesis using k' only by blast
qed

section \<open>Frames\<close>

text \<open>What suspending, resuming, timers and scheduling leave alone.\<close>

definition data_frame :: "kernel \<Rightarrow> kernel \<Rightarrow> bool" where
  "data_frame k k' \<longleftrightarrow> containers k' = containers k \<and> lock_nest k' = lock_nest k \<and>
    interrupt_nest k' = interrupt_nest k \<and> rt_tick k' = rt_tick k \<and>
    soft_timer_status k' = soft_timer_status k \<and> timer_thread k' = timer_thread k \<and>
    sems k' = sems k \<and> mutexes k' = mutexes k \<and> events k' = events k \<and>
    mailboxes k' = mailboxes k \<and> mqs k' = mqs k \<and>
    (\<forall>r. rt_object_get_type r k' = rt_object_get_type r k \<and>
         rt_object_is_systemobject r k' = rt_object_is_systemobject r k) \<and>
    (\<forall>i. hdr k' (OIpc i) = hdr k (OIpc i))"

lemma data_frame_refl [simp]: "data_frame k k"
  by (simp add: data_frame_def)

lemma data_frame_trans [trans]: "data_frame k k' \<Longrightarrow> data_frame k' k'' \<Longrightarrow> data_frame k k''"
  by (simp add: data_frame_def)

lemma sched_only_data: "sched_only k k' \<Longrightarrow> data_frame k k'"
  by (simp add: data_frame_def sched_only_def rt_object_get_type_def rt_object_is_systemobject_def)

lemma data_frameD:
  assumes "data_frame k k'"
  shows "containers k' = containers k" "lock_nest k' = lock_nest k" "interrupt_nest k' = interrupt_nest k"
    "rt_tick k' = rt_tick k" "sems k' = sems k" "mutexes k' = mutexes k" "events k' = events k"
    "mailboxes k' = mailboxes k" "mqs k' = mqs k" "rt_object_get_type r k' = rt_object_get_type r k"
    "rt_object_is_systemobject r k' = rt_object_is_systemobject r k" "hdr k' (OIpc i) = hdr k (OIpc i)"
    "soft_timer_status k' = soft_timer_status k" "timer_thread k' = timer_thread k"
  using assms by (simp_all add: data_frame_def)

section \<open>Stopping a timer\<close>

definition timer_off :: "tmid \<Rightarrow> kernel \<Rightarrow> kernel" where
  "timer_off m k = (if timer_activated m k then clear_flag m RT_TIMER_FLAG_ACTIVATED (tm_remove m k) else k)"

lemma timer_off_sel [simp]:
  "threads (timer_off m k) = threads k" "tlists (timer_off m k) = tlists k" "cur (timer_off m k) = cur k"
  "timers (timer_off m k) = timers k" "ready_group (timer_off m k) = ready_group k"
  "rt_tick (timer_off m k) = rt_tick k" "rt_object_get_type r (timer_off m k) = rt_object_get_type r k"
  "rt_object_is_systemobject r (timer_off m k) = rt_object_is_systemobject r k"
  "timer_periodic n (timer_off m k) = timer_periodic n k" "timer_soft n (timer_off m k) = timer_soft n k"
  "timer_activated n (timer_off m k) \<longleftrightarrow> timer_activated n k \<and> n \<noteq> m"
  "hdr (timer_off m k) (OThread t) = hdr k (OThread t)"
  by (auto simp: timer_off_def)

lemma timer_off_frame [simp]:
  "data_frame k (timer_off m k)" "qinv X (timer_off m k) = qinv X k"
  "sched_inv (timer_off m k) = sched_inv k" "stacks_ok (timer_off m k) = stacks_ok k"
  "waits (timer_off m k) = waits k" "tcb_ok t (timer_off m k) = tcb_ok t k"
  by (auto simp: data_frame_def timer_off_def tcb_ok_def)

lemma timer_stop_eq:
  assumes "rt_object_get_type (OTimer m) k = Class_Timer"
  shows "\<exists>e. rt_timer_stop m k = Some (e, timer_off m k)"
  using assms by (simp add: rt_timer_stop_def timer_off_def Let_def)

lemma tm_inv_timer_off [simp]: "tm_inv k \<Longrightarrow> tm_inv (timer_off m k)"
  by (simp add: timer_off_def tm_inv_unlink)

lemma timer_off_lists:
  assumes "tm_inv k" "l = HardList \<or> l = SoftList"
  shows "set (tmlists (timer_off m k) l) = set (tmlists k l) - {m}"
  using assms tm_invD(3,5) [OF assms(1), of m] tm_remove_set [OF assms(1), of m l]
  by (cases l) (auto simp: timer_off_def)

lemma tt_inv_timer_off:
  assumes "tm_inv k" "tt_inv k"
  shows "tt_inv (timer_off m k)"
  using assms(2) timer_off_lists [OF assms(1)] unfolding tt_inv_def by simp

section \<open>Suspending and resuming keep the invariant\<close>

lemma tcb_ok_upd_thread [simp]: "tcb_ok u (upd_thread t f k) = tcb_ok u k"
  by (rule tcb_ok_cong) simp_all

lemma tt_inv_upd_thread:
  assumes "tt_inv k" "tcb_ok t k" "ThreadTimer t \<in> set (tmlists k HardList) \<union> set (tmlists k SoftList) \<longrightarrow>
    stat_of (f (threads k t)) = RT_THREAD_SUSPEND"
  shows "tt_inv (upd_thread t f k)"
  using assms unfolding tt_inv_def by auto

lemma tm_inv_upd_thread [simp]: "tm_inv (upd_thread t f k) = tm_inv k"
  by (rule tm_inv_cong) simp_all

lemma stacks_ok_upd_thread:
  assumes "stacks_ok k" "started (f (threads k t)) \<longrightarrow> stack_check (f (threads k t))"
  shows "stacks_ok (upd_thread t f k)"
  using assms by (simp add: stacks_ok_def)

lemma sched_inv_upd_thread:
  assumes inv: "sched_inv k" and q: "qinv {} (upd_thread t f k)"
    and r: "stat_of (f (threads k t)) = RT_THREAD_RUNNING \<longrightarrow> cur k = Some t"
    and c: "cur k = Some t \<longrightarrow> stat_of (f (threads k t)) \<noteq> RT_THREAD_READY"
  shows "sched_inv (upd_thread t f k)"
proof (rule sched_invI [OF q])
  fix u assume "stat_of (threads (upd_thread t f k) u) = RT_THREAD_RUNNING"
  then show "cur (upd_thread t f k) = Some u"
    using r sched_invD(2) [OF inv, of u] by (cases "u = t") simp_all
next
  fix c' assume "cur (upd_thread t f k) = Some c'"
  then show "stat_of (threads (upd_thread t f k) c') \<noteq> RT_THREAD_READY"
    using c sched_invD(3) [OF inv, of c'] by (cases "c' = t") simp_all
qed

lemma qinv_tl_remove:
  assumes q: "qinv X k" and t: "stat_of (threads k t) \<noteq> RT_THREAD_READY"
  shows "qinv (insert t X) (tl_remove t k)"
proof -
  have r: "set (remove1 t (tlists k l)) = set (tlists k l) - {t}" for l
    using qinvD(6) [OF q] by simp
  have ready: "remove1 t (tlists k (Ready p)) = tlists k (Ready p)" for p
    using t qinvD(2) [OF q, of t "Ready p"] by (intro remove1_idem) auto
  show ?thesis
  proof (rule qinvI)
    show "bit (ready_group (tl_remove t k)) p \<longleftrightarrow> tlists (tl_remove t k) (Ready p) \<noteq> []" if "p < 32" for p
      using qinvD(1) [OF q that] by (simp add: tl_remove_def ready)
  qed (use qinvD(2,3,4,5) [OF q] qinvD(6) [OF q] qinvD(7) [OF q] in \<open>auto simp: tl_remove_def r\<close>)
qed

lemma qinv_upd_transit_arrive:
  assumes "qinv {t} k" "prio_ok (f (threads k t))" "stat_of (f (threads k t)) \<noteq> RT_THREAD_READY"
  shows "qinv {} (upd_thread t f k)"
proof -
  have "qinv (insert t {}) (upd_thread t f k)" using assms by (intro qinv_upd_transit) auto
  then show ?thesis using qinv_arrive [of t "{}"] assms(3) by simp
qed

lemma thread_suspend_ok:
  assumes inv: "kinv k" and st: "stat_of (threads k t) = RT_THREAD_READY \<or> stat_of (threads k t) = RT_THREAD_RUNNING"
  obtains k' where "rt_thread_suspend t k = Some (RT_EOK, k')" "kinv k'"
    "threads k' = (threads k)(t := set_stat RT_THREAD_SUSPEND (threads k t))" "cur k' = cur k"
    "waits k' = waits k" "data_frame k k'" "timers k' = timers k" "\<And>l. t \<notin> set (tlists k' l)"
    "\<not> timer_activated (ThreadTimer t) k'" "tmlists k' = tmlists (timer_off (ThreadTimer t) k)"
proof -
  note q = kinvD(5) [OF inv]
  have st': "started (threads k t)" using st by (auto simp: started_def)
  have p: "prio_ok (threads k t)" by (rule qinvD(5) [OF q st'])
  have tcb: "tcb_ok t k" by (rule tt_invD(1) [OF kinvD(4) [OF inv] st'])
  obtain k1 where k1: "rt_schedule_remove_thread t k = Some k1" "qinv {t} k1"
    using remove_thread_qinv [OF q p] by auto
  note only = remove_thread_only [OF k1(1)]
  note f = sched_onlyD [OF only]
  have th: "threads k1 = threads k" "cur k1 = cur k" using k1(1) remove_thread_eq [OF p] by auto
  have inv1: "tt_inv k1" "tm_inv k1" "stacks_ok k1"
    using tt_inv_transfer [OF kinvD(4) [OF inv] f(1,6,7) same_threads_eq [OF th(1)]]
      tm_inv_cong [OF f(1,7)] kinvD(2,3) [OF inv] th by (simp_all add: stacks_ok_def)
  let ?k2 = "upd_thread t (set_stat RT_THREAD_SUSPEND) k1"
  have q2: "qinv {} ?k2" using k1(2) p th by (intro qinv_upd_transit_arrive) simp_all
  have w: "waits ?k2 = waits k" using remove_thread_waits [OF q _ _ k1(1)] st by auto
  have "sched_inv ?k2"
  proof (rule sched_invI [OF q2])
    show "cur ?k2 = Some u" if "stat_of (threads ?k2 u) = RT_THREAD_RUNNING" for u
      using that th sched_invD(2) [OF kinvD(1) [OF inv], of u] by (simp split: if_splits)
    show "stat_of (threads ?k2 c) \<noteq> RT_THREAD_READY" if "cur ?k2 = Some c" for c
      using that th sched_invD(3) [OF kinvD(1) [OF inv], of c] by simp
  qed
  moreover have "tt_inv ?k2"
    using inv1(1) tcb tcb_ok_cong [OF f(1,6)] by (intro tt_inv_upd_thread) simp_all
  moreover have "stacks_ok ?k2"
    using inv1(3) th kinvD(2) [OF inv] st' by (intro stacks_ok_upd_thread) (auto simp: stacks_ok_def)
  ultimately have "kinv (timer_off (ThreadTimer t) ?k2)"
    using inv1(2) by (simp add: kinv_def tt_inv_timer_off)
  moreover have "data_frame k (timer_off (ThreadTimer t) ?k2)"
    using sched_only_data [OF only] sched_only_data [OF sched_only_upd [of k1 t]] timer_off_frame(1)
    by (blast intro: data_frame_trans)
  moreover obtain e where "rt_timer_stop (ThreadTimer t) ?k2 = Some (e, timer_off (ThreadTimer t) ?k2)"
    using timer_stop_eq [of "ThreadTimer t" ?k2] tcb f(1) by (auto simp: tcb_ok_def rt_object_get_type_def)
  then have "rt_thread_suspend t k = Some (RT_EOK, timer_off (ThreadTimer t) ?k2)"
    using st tcb k1(1) sched_invD(2) [OF kinvD(1) [OF inv], of t]
    unfolding rt_thread_suspend_def by (auto simp: tcb_ok_def rt_thread_self_def Let_def)
  moreover have "tmlists (timer_off (ThreadTimer t) ?k2) = tmlists (timer_off (ThreadTimer t) k)"
    using f(1,7) by (simp add: timer_off_def timer_activated_def tm_remove_def)
  ultimately show ?thesis
    using that [of "timer_off (ThreadTimer t) ?k2"] th w f(6) qinvD(3) [OF k1(2)] by auto
qed

text \<open>The state a woken thread gets: the current thread goes on running.\<close>

definition wake_stat :: "tid \<Rightarrow> kernel \<Rightarrow> u8" where
  "wake_stat t k = (if cur k = Some t then RT_THREAD_RUNNING else RT_THREAD_READY)"

lemma sched_only_tl_remove [simp]: "sched_only k (tl_remove t k)"
  by (simp add: sched_only_def tl_remove_def)

lemma tl_remove_sel [simp]:
  "threads (tl_remove t k) = threads k" "cur (tl_remove t k) = cur k" "hdr (tl_remove t k) = hdr k"
  "timers (tl_remove t k) = timers k" "tmlists (tl_remove t k) = tmlists k"
  "rt_object_get_type r (tl_remove t k) = rt_object_get_type r k"
  "tlists (tl_remove t k) l = remove1 t (tlists k l)"
  by (simp_all add: tl_remove_def rt_object_get_type_def)

lemma insert_thread_wake:
  assumes q: "qinv {t} k" and p: "prio_ok (threads k t)"
  shows "\<exists>k'. rt_schedule_insert_thread t k = Some k' \<and> qinv {} k' \<and> cur k' = cur k \<and>
    threads k' = (threads k)(t := set_stat (wake_stat t k) (threads k t))"
proof (cases "cur k = Some t")
  case True
  have "qinv {} (upd_thread t (set_stat RT_THREAD_RUNNING) k)"
    using q p by (intro qinv_upd_transit_arrive) simp_all
  then show ?thesis using True by (simp add: rt_schedule_insert_thread_def wake_stat_def)
next
  case False
  then show ?thesis
    using insert_thread_qinv [of t "{}" k] q p insert_thread_eq [OF False p] by (simp add: wake_stat_def)
qed

lemma wake_insert_ok:
  assumes inv: "kinv k" and st: "stat_of (threads k t) = RT_THREAD_SUSPEND"
    and tm: "ThreadTimer t \<notin> set (tmlists k HardList) \<union> set (tmlists k SoftList)"
  obtains k' where "rt_schedule_insert_thread t (tl_remove t k) = Some k'" "kinv k'" "cur k' = cur k"
    "threads k' = (threads k)(t := set_stat (wake_stat t k) (threads k t))"
    "waits k' = waits (tl_remove t k)" "sched_only k k'"
proof -
  have st': "started (threads k t)" using st by (auto simp: started_def)
  have p: "prio_ok (threads (tl_remove t k) t)" using qinvD(5) [OF kinvD(5) [OF inv] st'] by simp
  have "qinv {t} (tl_remove t k)" using qinv_tl_remove [OF kinvD(5) [OF inv]] st by simp
  then obtain k' where k': "rt_schedule_insert_thread t (tl_remove t k) = Some k'" "qinv {} k'" "cur k' = cur k"
      "threads k' = (threads k)(t := set_stat (wake_stat t k) (threads k t))"
    using insert_thread_wake [OF _ p] by (auto simp: wake_stat_def)
  have only: "sched_only k k'"
    using sched_only_trans [OF sched_only_tl_remove insert_thread_only [OF k'(1)]] .
  note f = sched_onlyD [OF only]
  have wst: "stat_of (threads k' t) = wake_stat t k" "started (threads k' t)"
    using k'(4) by (simp_all add: wake_stat_def started_def)
  have "sched_inv k'"
  proof (rule sched_invI [OF k'(2)])
    show "cur k' = Some u" if "stat_of (threads k' u) = RT_THREAD_RUNNING" for u
      using that k'(3,4) wst(1) sched_invD(2) [OF kinvD(1) [OF inv], of u]
      by (cases "u = t") (simp_all add: wake_stat_def split: if_splits)
    show "stat_of (threads k' c) \<noteq> RT_THREAD_READY" if "cur k' = Some c" for c
      using that k'(3,4) wst(1) sched_invD(3) [OF kinvD(1) [OF inv], of c]
      by (cases "c = t") (simp_all add: wake_stat_def)
  qed
  moreover have "stacks_ok k'"
    unfolding stacks_ok_def
  proof (intro allI impI)
    fix u assume "started (threads k' u)"
    then have "stack_check (threads k u)"
      using kinvD(2) [OF inv] st' k'(4) by (cases "u = t") (auto simp: stacks_ok_def)
    then show "stack_check (threads k' u)" using k'(4) by (cases "u = t") simp_all
  qed
  moreover have "tm_inv k'" using tm_inv_cong [OF f(1,7)] kinvD(3) [OF inv] by simp
  moreover have "tt_inv k'"
  proof -
    have "tt_inv (upd_thread t (set_stat (wake_stat t k)) k)"
      using tt_inv_upd_thread [OF kinvD(4) [OF inv] tt_invD(1) [OF kinvD(4) [OF inv] st']] tm by blast
    then show ?thesis
      by (rule tt_inv_transfer) (simp_all add: f k'(4) same_threads_eq)
  qed
  ultimately have "kinv k'" by (simp add: kinv_def)
  then show ?thesis using that [OF k'(1)] k'(3,4) only insert_thread_waits [OF k'(1)] by blast
qed

lemma timer_off_tl_remove: "timer_off m (tl_remove t k) = tl_remove t (timer_off m k)"
  by (simp add: timer_off_def timer_activated_def clear_flag_def upd_hdr_def tl_remove_def tm_remove_def)

lemma kinv_timer_off:
  assumes "kinv k" shows "kinv (timer_off m k)"
  using assms unfolding kinv_def by (simp add: tt_inv_timer_off)

lemma thread_resume_ok:
  assumes inv: "kinv k" and st: "stat_of (threads k t) = RT_THREAD_SUSPEND"
  obtains k' where "rt_thread_resume t k = Some (RT_EOK, k')" "kinv k'" "cur k' = cur k"
    "threads k' = (threads k)(t := set_stat (wake_stat t k) (threads k t))"
    "waits k' = waits (tl_remove t k)" "data_frame k k'" "timers k' = timers k"
    "tmlists k' = tmlists (timer_off (ThreadTimer t) k)"
proof -
  let ?k = "timer_off (ThreadTimer t) k"
  have tcb: "tcb_ok t k" using tt_invD(1) [OF kinvD(4) [OF inv]] st by (simp add: started_def)
  have tm: "ThreadTimer t \<notin> set (tmlists ?k HardList) \<union> set (tmlists ?k SoftList)"
    using timer_off_lists [OF kinvD(3) [OF inv]] by simp
  obtain k' where k': "rt_schedule_insert_thread t (tl_remove t ?k) = Some k'" "kinv k'" "cur k' = cur ?k"
    "threads k' = (threads ?k)(t := set_stat (wake_stat t ?k) (threads ?k t))"
    "waits k' = waits (tl_remove t ?k)" "sched_only ?k k'"
    using wake_insert_ok [OF kinv_timer_off [OF inv] _ tm] st by auto
  obtain e where "rt_timer_stop (ThreadTimer t) (tl_remove t k) = Some (e, tl_remove t ?k)"
    using timer_stop_eq [of "ThreadTimer t" "tl_remove t k"] tcb
    by (auto simp: tcb_ok_def timer_off_tl_remove)
  then have "rt_thread_resume t k = Some (RT_EOK, k')"
    using st tcb k'(1) unfolding rt_thread_resume_def by (simp add: tcb_ok_def Let_def)
  moreover have "data_frame k k'"
    using data_frame_trans [OF timer_off_frame(1) sched_only_data [OF k'(6)]] .
  ultimately show ?thesis
    using that k'(2-5) sched_onlyD [OF k'(6)] by (simp add: wake_stat_def waits_def)
qed

text \<open>What \<open>rt_thread_timeout\<close> does to a suspended thread whose timer has fired.\<close>

lemma thread_timeout_ok:
  assumes inv: "kinv k" and st: "stat_of (threads k t) = RT_THREAD_SUSPEND"
    and tm: "ThreadTimer t \<notin> set (tmlists k HardList) \<union> set (tmlists k SoftList)" and c: "cur k \<noteq> None"
  obtains k' where "rt_thread_timeout t k = Some k'" "kinv k'" "sched_only k k'" "cur k' \<noteq> None"
    "waits k' = waits (tl_remove t k)" "t_error (threads k' t) = - RT_ETIMEOUT"
    "stat_of (threads k' t) \<in> {RT_THREAD_READY, RT_THREAD_RUNNING}"
    "\<And>u. u \<noteq> t \<Longrightarrow> \<exists>s. threads k' u = (threads k u)\<lparr>t_stat := s\<rparr>"
    "\<And>u. u \<noteq> t \<Longrightarrow> stat_of (threads k' u) = RT_THREAD_SUSPEND \<longleftrightarrow> stat_of (threads k u) = RT_THREAD_SUSPEND"
proof -
  let ?k = "upd_thread t (\<lambda>th. th\<lparr>t_error := - RT_ETIMEOUT\<rparr>) k"
  have st': "started (threads k t)" using st by (simp add: started_def)
  have tcb: "tcb_ok t k" by (rule tt_invD(1) [OF kinvD(4) [OF inv] st'])
  have q: "qinv {} ?k" using kinvD(5) [OF inv] by (intro qinv_upd_same) simp_all
  have "kinv ?k"
    using sched_inv_upd_thread [OF kinvD(1) [OF inv] q] st kinvD [OF inv] st' tt_inv_upd_thread [OF _ tcb]
    by (simp add: kinv_def stacks_ok_def stack_check_def)
  then obtain k1 where k1: "rt_schedule_insert_thread t (tl_remove t ?k) = Some k1" "kinv k1" "cur k1 = cur ?k"
    "threads k1 = (threads ?k)(t := set_stat (wake_stat t ?k) (threads ?k t))"
    "waits k1 = waits (tl_remove t ?k)" "sched_only ?k k1"
    using wake_insert_ok [of ?k t] st tm by auto
  obtain k' where k': "rt_schedule k1 = Some k'" "kinv k'" "same_threads k1 k'" "sched_only k1 k'"
      "waits k' = waits k1" "cur k' \<noteq> None"
    using rt_schedule_kinv [OF k1(2)] k1(3) c by auto
  have timeout: "rt_thread_timeout t k = Some k'"
    using st tcb k1(1) k'(1) unfolding rt_thread_timeout_def by (simp add: tcb_ok_def Let_def)
  have fr: "sched_only k k'" "waits k' = waits (tl_remove t k)"
    using k1(5,6) k'(4,5) sched_only_trans by (auto simp: waits_def)
  have s: "\<exists>s. threads k' u = (threads k1 u)\<lparr>t_stat := s\<rparr>" for u
    by (rule same_threadsD(3) [OF k'(3)])
  have "t_error (threads k' t) = - RT_ETIMEOUT" using s [of t] k1(4) by auto
  moreover have "stat_of (threads k' t) \<in> {RT_THREAD_READY, RT_THREAD_RUNNING}"
    using same_threadsD(4) [OF k'(3), of t] k1(4) by (simp add: wake_stat_def)
  moreover have "stat_of (threads k' u) = RT_THREAD_SUSPEND \<longleftrightarrow> stat_of (threads k u) = RT_THREAD_SUSPEND" if "u \<noteq> t" for u
    using same_threadsD(2) [OF k'(3), of u] k1(4) that by simp
  moreover have "\<exists>s. threads k' u = (threads k u)\<lparr>t_stat := s\<rparr>" if "u \<noteq> t" for u
    using s [of u] k1(4) that by simp
  ultimately show ?thesis using that [OF timeout k'(2) fr(1) k'(6) fr(2)] by blast
qed

section \<open>Entering a waiting list\<close>

lemma qinv_enlist:
  assumes q: "qinv (insert t X) k" and X: "t \<notin> X" and l: "lid_ok l (threads k t)" "\<And>p. l \<noteq> Ready p"
    and ts: "set ts = insert t (set (tlists k l))" "distinct ts"
  shows "qinv X (k\<lparr>tlists := (tlists k)(l := ts)\<rparr>)" (is "qinv X ?k")
proof (rule qinvI)
  have t: "t \<notin> set (tlists k m)" for m using qinvD(3) [OF q] by blast
  have nr: "stat_of (threads k t) \<noteq> RT_THREAD_READY" using l by (cases l) auto
  have s: "set (tlists ?k m) = (if m = l then insert t (set (tlists k m)) else set (tlists k m))" for m
    using ts by simp
  have rd: "tlists ?k (Ready p) = tlists k (Ready p)" for p using l(2) [of p] by auto
  show "bit (ready_group ?k) p \<longleftrightarrow> tlists ?k (Ready p) \<noteq> []" if "p < 32" for p
    using qinvD(1) [OF q that] unfolding rd by simp
  show "lid_ok m (threads ?k u)" if "u \<in> set (tlists ?k m)" for m u
    using that qinvD(2) [OF q, of u m] l(1) unfolding s by (auto split: if_splits)
  show "u \<notin> X" if "u \<in> set (tlists ?k m)" for m u
    using that qinvD(3) [OF q, of u m] X unfolding s by (auto split: if_splits)
  show "u \<in> set (tlists ?k (Ready (unat (current_priority (threads ?k u)))))"
    if "stat_of (threads ?k u) = RT_THREAD_READY" "u \<notin> X" for u
    using that qinvD(4) [OF q, of u] nr unfolding rd by auto
  show "prio_ok (threads ?k u)" if "started (threads ?k u)" for u
    using that qinvD(5) [OF q, of u] by simp
  show "distinct (tlists ?k m)" for m using qinvD(6) [OF q] ts(2) by simp
  show "m = n" if "u \<in> set (tlists ?k m)" "u \<in> set (tlists ?k n)" for m n u
    using that qinvD(7) [OF q, of u m n] t unfolding s by (auto split: if_splits)
qed

lemma kinv_enlist:
  assumes inv: "kinv k" and t: "stat_of (threads k t) = RT_THREAD_SUSPEND" "\<And>l. t \<notin> set (tlists k l)"
    and l: "l = Suspend i \<or> l = Sender i"
    and ts: "set ts = insert t (set (tlists k l))" "distinct ts"
  shows "kinv (k\<lparr>tlists := (tlists k)(l := ts)\<rparr>)" (is "kinv ?k")
proof -
  have "qinv (insert t {}) k" using qinv_depart [OF kinvD(5) [OF inv] t(2)] .
  then have q: "qinv {} ?k" using t(1) l ts by (intro qinv_enlist) auto
  have "sched_inv ?k"
    using sched_invI [OF q] sched_invD(2,3) [OF kinvD(1) [OF inv]] by simp
  moreover have "tm_inv ?k" using tm_inv_cong [of ?k k] kinvD(3) [OF inv] by simp
  moreover have "tt_inv ?k" using tt_inv_transfer [OF kinvD(4) [OF inv], of ?k] same_threads_eq [of ?k k] by simp
  ultimately show ?thesis using kinvD(2) [OF inv] by (simp add: kinv_def stacks_ok_def)
qed

section \<open>Registering objects\<close>

text \<open>The object does not carry a part of the invariant yet.\<close>

fun fresh_obj :: "oref \<Rightarrow> kernel \<Rightarrow> bool" where
  "fresh_obj (OThread t) k \<longleftrightarrow> \<not> started (threads k t)"
| "fresh_obj (OTimer m) k \<longleftrightarrow> \<not> timer_linked m k \<and> (\<forall>u. m = ThreadTimer u \<longrightarrow> \<not> started (threads k u))"
| "fresh_obj (OIpc i) k \<longleftrightarrow> True"

lemma timer_linked_iff: "timer_linked m k \<longleftrightarrow> (\<exists>l. m \<in> set (tmlists k l))"
  unfolding timer_linked_def by (metis tmlid.exhaust)

lemma tm_inv_hdr:
  assumes inv: "tm_inv k" and h: "\<And>m. m \<noteq> m0 \<Longrightarrow> hdr k' (OTimer m) = hdr k (OTimer m)"
    and tl: "tmlists k' = tmlists k" and m0: "\<not> timer_linked m0 k" "\<not> timer_activated m0 k'"
  shows "tm_inv k'"
proof -
  have f: "timer_activated m k' = timer_activated m k" "timer_soft m k' = timer_soft m k"
    "rt_object_get_type (OTimer m) k' = rt_object_get_type (OTimer m) k" if "m \<noteq> m0" for m
    using h [OF that] by (simp_all add: timer_flag_defs rt_object_get_type_def)
  have n: "m \<noteq> m0" if "m \<in> set (tmlists k l)" for m l using that m0(1) timer_linked_iff by blast
  show ?thesis
  proof (rule tm_invI, unfold tl)
    show "timer_activated m k' \<and> \<not> timer_soft m k'" if "m \<in> set (tmlists k HardList)" for m
      using that n [OF that] f tm_invD(3,4) [OF inv] by simp
    show "timer_activated m k' \<and> timer_soft m k'" if "m \<in> set (tmlists k SoftList)" for m
      using that n [OF that] f tm_invD(5,6) [OF inv] by simp
    show "\<exists>l. m \<in> set (tmlists k l)" if "timer_activated m k'" for m
      using that m0(2) f tm_invD(7) [OF inv, of m] by (cases "m = m0") auto
    show "rt_object_get_type (OTimer m) k' = Class_Timer" if "m \<in> set (tmlists k l)" for m l
      using that n [OF that] f tm_invD(8) [OF inv] by simp
  qed (use tm_invD(1,2) [OF inv] in blast)+
qed

lemma tt_inv_hdr:
  assumes inv: "tt_inv k" and h: "\<And>r'. r' \<noteq> r \<Longrightarrow> hdr k' r' = hdr k r'" and r: "fresh_obj r k"
    and f: "timers k' = timers k" "tmlists k' = tmlists k" "same_threads k k'"
  shows "tt_inv k'"
proof -
  have "tcb_ok t k'" if st: "started (threads k' t)" for t
  proof -
    have st': "started (threads k t)" using st same_threadsD(1) [OF f(3)] by simp
    then have "OThread t \<noteq> r" "OTimer (ThreadTimer t) \<noteq> r" using r by (cases r; auto)+
    then have "hdr k' (OThread t) = hdr k (OThread t)" "hdr k' (OTimer (ThreadTimer t)) = hdr k (OTimer (ThreadTimer t))"
      using h by auto
    then show ?thesis
      using tt_invD(1) [OF inv st'] f(1)
      by (simp add: tcb_ok_def timer_flag_defs rt_object_get_type_def rt_object_is_systemobject_def)
  qed
  then show ?thesis
    using tt_invD(2,3,4) [OF inv] unfolding tt_inv_def f(1,2) same_threadsD(2) [OF f(3)] by blast
qed

lemma object_init_kinv:
  assumes inv: "kinv k" and c: "rt_object_get_information ty = Some c" and r: "r \<notin> set (containers k ty)" "fresh_obj r k"
  shows "\<exists>k'. rt_object_init r ty nam k = Some k' \<and> kinv k' \<and> waits k' = waits k \<and> same_threads k k' \<and>
    (cur k' = None \<longleftrightarrow> cur k = None) \<and> interrupt_nest k' = interrupt_nest k \<and> rt_tick k' = rt_tick k \<and>
    hdr k' = (hdr k)(r := (hdr k r)\<lparr>o_type := ty OR Class_Static, o_name := rt_strncpy nam 8\<rparr>) \<and>
    containers k' = (containers k)(ty := r # containers k ty) \<and>
    timers k' = timers k \<and> tmlists k' = tmlists k"
proof -
  obtain k' where k': "rt_object_init r ty nam k = Some k'" "sched_inv k'" "stacks_ok k'" "waits k' = waits k"
      "same_threads k k'" "cur k' = None \<longleftrightarrow> cur k = None" "interrupt_nest k' = interrupt_nest k" "rt_tick k' = rt_tick k"
      and h: "hdr k' = (hdr k)(r := (hdr k r)\<lparr>o_type := ty OR Class_Static, o_name := rt_strncpy nam 8\<rparr>)"
      and f: "containers k' = (containers k)(ty := r # containers k ty)" "timers k' = timers k" "tmlists k' = tmlists k"
    using object_init_ok [OF kinvD(1,2) [OF inv] c r(1), of nam] by (elim exE conjE) (rule that, assumption+)
  have "tm_inv k'"
  proof (cases "\<exists>m. r = OTimer m")
    case True
    then obtain m where m: "r = OTimer m" by blast
    then have l: "\<not> timer_linked m k" using r(2) by simp
    then have "\<not> timer_activated m k" using tm_invD(7) [OF kinvD(3) [OF inv]] timer_linked_iff by blast
    then have "\<not> timer_activated m k'" using h m by (simp add: timer_activated_def)
    then show ?thesis using tm_inv_hdr [OF kinvD(3) [OF inv] _ f(3) l] h m by simp
  next
    case False
    then have "hdr k' (OTimer m) = hdr k (OTimer m)" for m using h by auto
    then show ?thesis
      using kinvD(3) [OF inv] f(3) unfolding tm_inv_def timer_flag_defs rt_object_get_type_def by simp
  qed
  moreover have "tt_inv k'" using tt_inv_hdr [OF kinvD(4) [OF inv] _ r(2) f(2,3) k'(5)] h by simp
  ultimately show ?thesis using k' h f by (auto simp: kinv_def)
qed

section \<open>A demonstration state\<close>

text \<open>The threads of \<open>demo_kernel\<close> as live objects; the wait of thread 3 and the periodic user
  timer 0 are due at tick 100, which is now.\<close>

definition demo_timed :: kernel where
  "demo_timed = demo_kernel\<lparr>
    hdr := (\<lambda>r. case r of OThread t \<Rightarrow> zero_object\<lparr>o_type := 0x81\<rparr>
      | OTimer (ThreadTimer t) \<Rightarrow> zero_object\<lparr>o_type := 0x8A, o_flag := if t = 3 then 1 else 0\<rparr>
      | OTimer (UserTimer n) \<Rightarrow> zero_object\<lparr>o_type := 0x8A, o_flag := if n = 0 then 3 else 0\<rparr>
      | OIpc i \<Rightarrow> zero_object),
    timers := (\<lambda>m. case m of
        ThreadTimer t \<Rightarrow> \<lparr>timeout_func = Rt_Thread_Timeout t, init_tick = 20, timeout_tick = 100\<rparr>
      | UserTimer n \<Rightarrow> \<lparr>timeout_func = User_Timeout n 0, init_tick = 10, timeout_tick = 100\<rparr>),
    tmlists := (\<lambda>_. [])(HardList := [ThreadTimer 3, UserTimer 0]),
    rt_tick := 100\<rparr>"

lemma demo_timed_sel [simp]:
  "threads demo_timed = threads demo_kernel" "tlists demo_timed = tlists demo_kernel"
  "ready_group demo_timed = 8" "cur demo_timed = Some 0" "rt_tick demo_timed = 100"
  "tmlists demo_timed = (\<lambda>_. [])(HardList := [ThreadTimer 3, UserTimer 0])"
  "timers demo_timed (ThreadTimer t) = \<lparr>timeout_func = Rt_Thread_Timeout t, init_tick = 20, timeout_tick = 100\<rparr>"
  "timers demo_timed (UserTimer n) = \<lparr>timeout_func = User_Timeout n 0, init_tick = 10, timeout_tick = 100\<rparr>"
  "hdr demo_timed (OThread t) = zero_object\<lparr>o_type := 0x81\<rparr>"
  "hdr demo_timed (OTimer (ThreadTimer t)) = zero_object\<lparr>o_type := 0x8A, o_flag := if t = 3 then 1 else 0\<rparr>"
  "hdr demo_timed (OTimer (UserTimer n)) = zero_object\<lparr>o_type := 0x8A, o_flag := if n = 0 then 3 else 0\<rparr>"
  "hdr demo_timed (OIpc i) = zero_object"
  "interrupt_nest demo_timed = 0" "lock_nest demo_timed = 0" "soft_timer_status demo_timed = 1"
  by (simp_all add: demo_timed_def demo_kernel_def zero_kernel_def)

lemma demo_timed_flags [simp]:
  "timer_activated (ThreadTimer t) demo_timed \<longleftrightarrow> t = 3" "timer_activated (UserTimer n) demo_timed \<longleftrightarrow> n = 0"
  "\<not> timer_periodic (ThreadTimer t) demo_timed" "timer_periodic (UserTimer n) demo_timed \<longleftrightarrow> n = 0"
  "\<not> timer_soft (ThreadTimer t) demo_timed" "\<not> timer_soft (UserTimer n) demo_timed"
  "rt_object_get_type (OThread t) demo_timed = Class_Thread"
  "rt_object_get_type (OTimer m) demo_timed = Class_Timer"
  "rt_object_is_systemobject (OTimer m) demo_timed"
  by (cases m; simp add: timer_flag_defs zero_object_def rt_object_get_type_def rt_object_is_systemobject_def)+

lemma demo_timed_kinv: "kinv demo_timed"
proof -
  have "sched_inv demo_timed" "stacks_ok demo_timed"
    using demo_kernel_inv demo_kernel_stacks by (simp_all add: demo_timed_def)
  moreover have "tm_inv demo_timed"
  proof (rule tm_invI)
    show "\<exists>l. t \<in> set (tmlists demo_timed l)" if "timer_activated t demo_timed" for t
      using that by (cases t) (auto intro: exI [of _ HardList])
  qed (auto split: if_splits)
  moreover have "tt_inv demo_timed"
    unfolding tt_inv_def tcb_ok_def by (auto split: if_splits)
  ultimately show ?thesis by (simp add: kinv_def)
qed

section \<open>Properties\<close>

text \<open>
  Suspending a ready or running thread succeeds, takes it out of the ready queues, stops its
  timer and keeps the kernel invariant; resuming it then succeeds as well and makes it ready (or
  lets it run on when it is the current thread), with the invariant again. Suspending a thread that
  is not ready or running, and resuming one that is not suspended, return an error and change nothing.
\<close>

theorem thread_suspend_resume:
  assumes "kinv k" "started (threads k t)"
  shows "if stat_of (threads k t) = RT_THREAD_SUSPEND then rt_thread_suspend t k = Some (- RT_ERROR, k)
    else rt_thread_resume t k = Some (- RT_ERROR, k) \<and>
      (\<exists>k1 k2. rt_thread_suspend t k = Some (RT_EOK, k1) \<and> kinv k1 \<and>
        stat_of (threads k1 t) = RT_THREAD_SUSPEND \<and> (\<forall>l. t \<notin> set (tlists k1 l)) \<and>
        \<not> timer_activated (ThreadTimer t) k1 \<and>
        rt_thread_resume t k1 = Some (RT_EOK, k2) \<and> kinv k2 \<and>
        stat_of (threads k2 t) = wake_stat t k \<and> waits k2 = waits k)"
proof -
  have tcb: "tcb_ok t k" by (rule tt_invD(1) [OF kinvD(4) [OF assms(1)] assms(2)])
  show ?thesis
  proof (cases "stat_of (threads k t) = RT_THREAD_SUSPEND")
    case True
    then show ?thesis using tcb by (simp add: rt_thread_suspend_def tcb_ok_def Let_def)
  next
    case False
    then have r: "stat_of (threads k t) = RT_THREAD_READY \<or> stat_of (threads k t) = RT_THREAD_RUNNING"
      using assms(2) by (auto simp: started_def)
    obtain k1 where k1: "rt_thread_suspend t k = Some (RT_EOK, k1)" "kinv k1"
      "threads k1 = (threads k)(t := set_stat RT_THREAD_SUSPEND (threads k t))" "cur k1 = cur k"
      "waits k1 = waits k" "\<And>l. t \<notin> set (tlists k1 l)" "\<not> timer_activated (ThreadTimer t) k1"
      using thread_suspend_ok [OF assms(1) r] by metis
    have s1: "stat_of (threads k1 t) = RT_THREAD_SUSPEND" using k1(3) by simp
    obtain k2 where k2: "rt_thread_resume t k1 = Some (RT_EOK, k2)" "kinv k2"
      "threads k2 = (threads k1)(t := set_stat (wake_stat t k1) (threads k1 t))"
      "waits k2 = waits (tl_remove t k1)"
      using thread_resume_ok [OF k1(2) s1] by metis
    have "waits (tl_remove t k1) = waits k1" using k1(6) by (simp add: waits_def remove1_idem)
    moreover have "stat_of (threads k2 t) = wake_stat t k"
      using k2(3) k1(4) by (simp add: wake_stat_def)
    moreover have "rt_thread_resume t k = Some (- RT_ERROR, k)"
      using False tcb by (simp add: rt_thread_resume_def tcb_ok_def)
    ultimately show ?thesis using False k1 k2 s1 by auto
  qed
qed

theorem thread_suspend_resume_witness:
  "kinv demo_timed \<and> rt_thread_suspend 3 demo_timed = Some (- RT_ERROR, demo_timed) \<and>
   rt_thread_resume 1 demo_timed = Some (- RT_ERROR, demo_timed) \<and>
   (\<exists>k1. rt_thread_suspend 1 demo_timed = Some (RT_EOK, k1) \<and> kinv k1)"
  using thread_suspend_resume [OF demo_timed_kinv, of 3] thread_suspend_resume [OF demo_timed_kinv, of 1]
    demo_timed_kinv by (auto simp: started_def)

end
