(* ===== verification/RT_Timer_Run.thy ===== *)
theory RT_Timer_Run
  imports RT_Wake
begin

unbundle bit_operations_syntax

text \<open>
  Starting timers and the expiry loops of \<open>src/timer.c\<close>. The functions an application installs
  as timeout callbacks are a parameter \<open>cb\<close> of the model; \<open>callbacks_ok\<close> states what the
  theorems assume of them. Whether \<open>rt_timer_check\<close> returns depends on the timers (a periodic timer
  of period 0 never lets it return), so the loops are partial functions.
\<close>

section \<open>Operations\<close>

type_synonym callbacks = "nat \<Rightarrow> u32 \<Rightarrow> kernel \<Rightarrow> kernel option"

abbreviation (input) RT_SOFT_TIMER_IDLE :: u8 where "RT_SOFT_TIMER_IDLE \<equiv> 1"
abbreviation (input) RT_SOFT_TIMER_BUSY :: u8 where "RT_SOFT_TIMER_BUSY \<equiv> 0"

definition timer_list_of :: "tmid \<Rightarrow> kernel \<Rightarrow> tmlid" where
  "timer_list_of t k = (if timer_soft t k then SoftList else HardList)"

text \<open>The part of \<open>rt_timer_start\<close> that links the timer into its list.\<close>

definition timer_link :: "tmid \<Rightarrow> kernel \<Rightarrow> kernel option" where
  "timer_link t k =
    do {
      let k = tm_remove t k;
      let k = clear_flag t RT_TIMER_FLAG_ACTIVATED k;
      RT_ASSERT (init_tick (timers k t) < RT_TICK_HALF);
      let k = upd_timer t (\<lambda>m. m\<lparr>timeout_tick := rt_tick k + init_tick m\<rparr>) k;
      let l = timer_list_of t k;
      let k = k\<lparr>tmlists := (tmlists k)(l := timer_insert (\<lambda>m. timeout_tick (timers k m)) t (tmlists k l))\<rparr>;
      Some (set_flag t RT_TIMER_FLAG_ACTIVATED k)
    }"

definition rt_timer_start :: "tmid \<Rightarrow> kernel \<Rightarrow> (rt_err_t \<times> kernel) option" where
  "rt_timer_start t k =
    do {
      RT_ASSERT (rt_object_get_type (OTimer t) k = Class_Timer);
      k \<leftarrow> timer_link t k;
      if timer_soft t k \<and> soft_timer_status k = RT_SOFT_TIMER_IDLE \<and>
         stat_of (threads k (timer_thread k)) = RT_THREAD_SUSPEND
      then do {
        (_, k) \<leftarrow> rt_thread_resume (timer_thread k) k;
        k \<leftarrow> rt_schedule k;
        Some (RT_EOK, k)
      }
      else Some (RT_EOK, k)
    }"

text \<open>\<open>t->timeout_func(t->parameter)\<close>.\<close>

fun timeout_call :: "callbacks \<Rightarrow> timeout_fn \<Rightarrow> kernel \<Rightarrow> kernel option" where
  "timeout_call cb (Rt_Thread_Timeout t) k = rt_thread_timeout t k"
| "timeout_call cb (User_Timeout f p) k = cb f p k"

definition timer_expired :: "u32 \<Rightarrow> tmid \<Rightarrow> kernel \<Rightarrow> bool" where
  "timer_expired current_tick t k \<longleftrightarrow> current_tick - timeout_tick (timers k t) < RT_TICK_HALF"

text \<open>Taking the first expired timer out of its list.\<close>

definition timer_take :: "tmlid \<Rightarrow> tmid \<Rightarrow> kernel \<Rightarrow> kernel" where
  "timer_take temp t k =
    (let k = tm_remove t k;
         k = (if timer_periodic t k then k else clear_flag t RT_TIMER_FLAG_ACTIVATED k)
     in k\<lparr>tmlists := (tmlists k)(temp := t # tmlists k temp)\<rparr>)"

text \<open>After the callback: a periodic timer that is still running is started again.\<close>

definition timer_again :: "tmlid \<Rightarrow> tmid \<Rightarrow> kernel \<Rightarrow> kernel option" where
  "timer_again temp t k =
    (if tmlists k temp = [] then Some k
     else
       let k = tm_remove t k
       in if timer_periodic t k \<and> timer_activated t k then
            do { (_, k) \<leftarrow> rt_timer_start t (clear_flag t RT_TIMER_FLAG_ACTIVATED k); Some k }
          else Some k)"

definition timer_fire :: "callbacks \<Rightarrow> tmid \<Rightarrow> kernel \<Rightarrow> kernel option" where
  "timer_fire cb t k =
    do {
      let k = timer_take HardTemp t k;
      k \<leftarrow> timeout_call cb (timeout_func (timers k t)) k;
      timer_again HardTemp t k
    }"

partial_function (option) timer_check_loop :: "callbacks \<Rightarrow> u32 \<Rightarrow> kernel \<Rightarrow> kernel option" where
  "timer_check_loop cb current_tick k =
    (case tmlists k HardList of
       [] \<Rightarrow> Some k
     | t # _ \<Rightarrow>
         if timer_expired current_tick t k then
           do { k \<leftarrow> timer_fire cb t k; timer_check_loop cb (rt_tick k) k }
         else Some k)"

definition rt_timer_check :: "callbacks \<Rightarrow> kernel \<Rightarrow> kernel option" where
  "rt_timer_check cb k =
    timer_check_loop cb (rt_tick k) (k\<lparr>tmlists := (tmlists k)(HardTemp := [])\<rparr>)"

text \<open>In \<open>rt_soft_timer_check\<close> interrupts are enabled around the callback: \<open>cb\<close> stands for all that
  happens until it returns.\<close>

definition soft_timer_fire :: "callbacks \<Rightarrow> tmid \<Rightarrow> kernel \<Rightarrow> kernel option" where
  "soft_timer_fire cb t k =
    do {
      let k = timer_take SoftTemp t k;
      let k = k\<lparr>soft_timer_status := RT_SOFT_TIMER_BUSY\<rparr>;
      k \<leftarrow> timeout_call cb (timeout_func (timers k t)) k;
      let k = k\<lparr>soft_timer_status := RT_SOFT_TIMER_IDLE\<rparr>;
      timer_again SoftTemp t k
    }"

partial_function (option) soft_timer_check_loop :: "callbacks \<Rightarrow> kernel \<Rightarrow> kernel option" where
  "soft_timer_check_loop cb k =
    (case tmlists k SoftList of
       [] \<Rightarrow> Some k
     | t # _ \<Rightarrow>
         if timer_expired (rt_tick k) t k then
           do { k \<leftarrow> soft_timer_fire cb t k; soft_timer_check_loop cb k }
         else Some k)"

definition rt_soft_timer_check :: "callbacks \<Rightarrow> kernel \<Rightarrow> kernel option" where
  "rt_soft_timer_check cb k =
    soft_timer_check_loop cb (k\<lparr>tmlists := (tmlists k)(SoftTemp := [])\<rparr>)"

section \<open>Starting a timer\<close>

lemma timer_link_eq:
  assumes "init_tick (timers k t) < RT_TICK_HALF"
  shows "timer_link t k =
    (let k1 = upd_timer t (\<lambda>m. m\<lparr>timeout_tick := rt_tick k + init_tick m\<rparr>)
           (clear_flag t RT_TIMER_FLAG_ACTIVATED (tm_remove t k))
     in Some (set_flag t RT_TIMER_FLAG_ACTIVATED (k1\<lparr>tmlists := (tmlists k1)(timer_list_of t k :=
          timer_insert (\<lambda>m. timeout_tick (timers k1 m)) t (tmlists k1 (timer_list_of t k)))\<rparr>)))"
  using assms by (simp add: timer_link_def timer_list_of_def Let_def cong: if_cong)

lemma tm_inv_upd_timer [simp]: "tm_inv (upd_timer t f k) = tm_inv k"
  by (rule tm_inv_cong) simp_all

lemma systemobject_frame [simp]:
  "rt_object_is_systemobject r (k\<lparr>tmlists := x\<rparr>) = rt_object_is_systemobject r k"
  "rt_object_is_systemobject r (upd_timer t f k) = rt_object_is_systemobject r k"
  by (simp_all add: rt_object_is_systemobject_def)

lemma timer_link_ok:
  assumes inv: "kinv k" and ty: "rt_object_get_type (OTimer t) k = Class_Timer"
    and i: "init_tick (timers k t) < RT_TICK_HALF"
    and th: "\<forall>u. t = ThreadTimer u \<longrightarrow> stat_of (threads k u) = RT_THREAD_SUSPEND"
  shows "\<exists>k'. timer_link t k = Some k' \<and> kinv k' \<and> data_frame k k' \<and> threads k' = threads k \<and>
    cur k' = cur k \<and> tlists k' = tlists k \<and> ready_group k' = ready_group k \<and>
    timers k' = (timers k)(t := (timers k t)\<lparr>timeout_tick := rt_tick k + init_tick (timers k t)\<rparr>) \<and>
    (\<forall>l. tmlists k' l = (if l = timer_list_of t k then
        timer_insert (\<lambda>m. timeout_tick (timers k' m)) t (remove1 t (tmlists k l)) else remove1 t (tmlists k l))) \<and>
    (\<forall>m. timer_periodic m k' = timer_periodic m k \<and> timer_soft m k' = timer_soft m k \<and>
      timer_activated m k' = (timer_activated m k \<or> m = t))"
proof -
  define k0 where "k0 = clear_flag t RT_TIMER_FLAG_ACTIVATED (tm_remove t k)"
  define k1 where "k1 = upd_timer t (\<lambda>m. m\<lparr>timeout_tick := rt_tick k + init_tick m\<rparr>) k0"
  define l where "l = timer_list_of t k"
  define k' where "k' = set_flag t RT_TIMER_FLAG_ACTIVATED
    (k1\<lparr>tmlists := (tmlists k1)(l := timer_insert (\<lambda>m. timeout_tick (timers k1 m)) t (tmlists k1 l))\<rparr>)"
  have "timer_link t k = Some k'"
    unfolding timer_link_eq [OF i] k'_def k1_def k0_def l_def by (simp add: Let_def)
  moreover have f: "threads k' = threads k" "cur k' = cur k" "tlists k' = tlists k" "ready_group k' = ready_group k"
      "timers k' = (timers k)(t := (timers k t)\<lparr>timeout_tick := rt_tick k + init_tick (timers k t)\<rparr>)"
      "data_frame k k'" "timer_periodic m k' = timer_periodic m k" "timer_soft m k' = timer_soft m k"
      "timer_activated m k' \<longleftrightarrow> timer_activated m k \<or> m = t" "tcb_ok u k' = tcb_ok u k" for m u
    unfolding k'_def k1_def k0_def
    by (simp_all add: data_frame_def tcb_ok_def) auto
  moreover have ls: "tmlists k' m = (if m = l then
        timer_insert (\<lambda>m. timeout_tick (timers k' m)) t (remove1 t (tmlists k m)) else remove1 t (tmlists k m))" for m
    unfolding k'_def k1_def k0_def by simp
  moreover have "tm_inv k'"
    unfolding k'_def
  proof (rule tm_inv_link)
    show "tm_inv k1" using tm_inv_unlink [OF kinvD(3) [OF inv]] by (simp add: k1_def k0_def)
    show n: "t \<notin> set (tmlists k1 l)" for l
      using tm_remove_set [OF kinvD(3) [OF inv]] by (simp add: k1_def k0_def)
    show "rt_object_get_type (OTimer t) k1 = Class_Timer" using ty by (simp add: k1_def k0_def)
    show "l = (if timer_soft t k1 then SoftList else HardList)"
      by (simp add: l_def timer_list_of_def k1_def k0_def)
    show "distinct (timer_insert (\<lambda>m. timeout_tick (timers k1 m)) t (tmlists k1 l))"
      using n tm_invD(1) [OF kinvD(3) [OF inv]] by (simp add: k1_def k0_def)
  qed simp
  moreover have "tt_inv k'"
  proof -
    have s: "set (tmlists k' m) \<subseteq> insert t (set (tmlists k m))" for m
      using ls [of m] set_remove1_subset [of t "tmlists k m"] by auto
    have "stat_of (threads k u) = RT_THREAD_SUSPEND"
      if "ThreadTimer u \<in> set (tmlists k' HardList) \<union> set (tmlists k' SoftList)" for u
      using that s [of HardList] s [of SoftList] th tt_invD(2,3) [OF kinvD(4) [OF inv], of u] by blast
    then show ?thesis using kinvD(4) [OF inv] f unfolding tt_inv_def by auto
  qed
  moreover have "sched_inv k'" "stacks_ok k'"
    using kinvD(1,2) [OF inv] unfolding k'_def k1_def k0_def by simp_all
  ultimately show ?thesis unfolding kinv_def l_def by blast
qed

abbreviation tticks :: "kernel \<Rightarrow> tmid \<Rightarrow> u32" where
  "tticks k m \<equiv> timeout_tick (timers k m)"

lemma timer_start_hard:
  assumes "rt_object_get_type (OTimer t) k = Class_Timer" "timer_link t k = Some k'" "\<not> timer_soft t k'"
  shows "rt_timer_start t k = Some (RT_EOK, k')"
  using assms by (simp add: rt_timer_start_def)

lemma timer_start_ok:
  assumes inv: "kinv k" and ty: "rt_object_get_type (OTimer t) k = Class_Timer"
    and i: "init_tick (timers k t) < RT_TICK_HALF" and c: "cur k \<noteq> None"
    and th: "\<forall>u. t = ThreadTimer u \<longrightarrow> stat_of (threads k u) = RT_THREAD_SUSPEND"
  obtains k' where "rt_timer_start t k = Some (RT_EOK, k')" "kinv k'" "data_frame k k'" "cur k' \<noteq> None"
proof -
  obtain k1 where k1: "timer_link t k = Some k1" "kinv k1" "data_frame k k1" "cur k1 = cur k"
    using timer_link_ok [OF inv ty i th] by blast
  show ?thesis
  proof (cases "timer_soft t k1 \<and> soft_timer_status k1 = RT_SOFT_TIMER_IDLE \<and>
         stat_of (threads k1 (timer_thread k1)) = RT_THREAD_SUSPEND")
    case False
    then show ?thesis using that [of k1] k1 ty c by (auto simp: rt_timer_start_def)
  next
    case True
    obtain k2 where k2: "rt_thread_resume (timer_thread k1) k1 = Some (RT_EOK, k2)" "kinv k2"
        "cur k2 = cur k1" "data_frame k1 k2"
      using thread_resume_ok [OF k1(2)] True by blast
    obtain k3 where k3: "rt_schedule k2 = Some k3" "kinv k3" "sched_only k2 k3" "cur k3 \<noteq> None"
      using rt_schedule_kinv [OF k2(2)] k2(3) k1(4) c by auto
    have "data_frame k k3"
      using k1(3) k2(4) sched_only_data [OF k3(3)] by (blast intro: data_frame_trans)
    then show ?thesis using that [of k3] k1 k2 k3 ty True by (simp add: rt_timer_start_def)
  qed
qed

lemma tm_sorted_remove1:
  assumes "tm_sorted b tt ts"
  shows "tm_sorted b tt (remove1 t ts)"
  using assms set_remove1_subset [of t ts] unfolding tm_sorted_def
  by (auto intro: sorted_map_remove1)

lemma tm_sorted_cong:
  assumes "\<And>t. t \<in> set ts \<Longrightarrow> tt t = tt' t"
  shows "tm_sorted b tt ts = tm_sorted b tt' ts"
  using assms unfolding tm_sorted_def tm_dist_def by (simp cong: map_cong)

lemma dist_new_deadline:
  fixes tick b i :: u32
  assumes "unat (tick - b) + unat i < 0x7FFFFFFF"
  shows "unat (tick + i - b) = unat (tick - b) + unat i"
proof -
  have "unat ((tick - b) + i) = unat (tick - b) + unat i"
    using assms by (intro unat_add_lem [THEN iffD1]) simp
  then show ?thesis by (simp add: algebra_simps)
qed

lemma sorted_dropWhile_greater:
  fixes f :: "'a \<Rightarrow> nat"
  assumes "sorted (map f xs)"
  shows "\<forall>y\<in>set (dropWhile (\<lambda>x. f x \<le> n) xs). n < f y"
  using assms by (induction xs) (auto simp: not_le intro: less_le_trans)

text \<open>A hard timer that is started goes into the sorted list.\<close>

lemma timer_link_sorted:
  assumes inv: "kinv k" and ty: "rt_object_get_type (OTimer t) k = Class_Timer" and soft: "\<not> timer_soft t k"
    and th: "\<forall>u. t = ThreadTimer u \<longrightarrow> stat_of (threads k u) = RT_THREAD_SUSPEND"
    and srt: "tm_sorted b (tticks k) (tmlists k HardList)"
    and i: "unat (rt_tick k - b) + unat (init_tick (timers k t)) < 0x7FFFFFFF"
    and k': "timer_link t k = Some k'"
  shows "tm_sorted b (tticks k') (tmlists k' HardList)"
    "\<exists>xs ys. tmlists k' HardList = xs @ t # ys \<and> remove1 t (tmlists k HardList) = xs @ ys \<and>
      (\<forall>x\<in>set xs. tm_dist b (tticks k') x \<le> tm_dist b (tticks k') t) \<and>
      (\<forall>y\<in>set ys. tm_dist b (tticks k') t < tm_dist b (tticks k') y)"
proof -
  have i': "init_tick (timers k t) < RT_TICK_HALF" using i by (simp add: word_less_nat_alt)
  obtain k1 where k1: "timer_link t k = Some k1"
      "timers k1 = (timers k)(t := (timers k t)\<lparr>timeout_tick := rt_tick k + init_tick (timers k t)\<rparr>)"
      "\<forall>l. tmlists k1 l = (if l = timer_list_of t k then
        timer_insert (tticks k1) t (remove1 t (tmlists k l)) else remove1 t (tmlists k l))"
    using timer_link_ok [OF inv ty i' th] by blast
  then have kk: "k1 = k'" using k' by simp
  let ?ts = "remove1 t (tmlists k HardList)"
  have l: "tmlists k' HardList = timer_insert (tticks k') t ?ts"
    using k1(3) soft unfolding kk by (simp add: timer_list_of_def)
  have t: "t \<notin> set ?ts" using tm_remove_set [OF kinvD(3) [OF inv]] by blast
  have s: "tm_sorted b (tticks k') ?ts"
  proof -
    have "tticks k x = tticks k' x" if "x \<in> set ?ts" for x
      using that t k1(2) unfolding kk by (cases "x = t") simp_all
    then show ?thesis using tm_sorted_cong [of ?ts "tticks k" "tticks k'" b] tm_sorted_remove1 [OF srt, of t] by blast
  qed
  have d: "tm_dist b (tticks k') t < 0x7FFFFFFF"
    using dist_new_deadline [OF i] i k1(2) unfolding kk by (simp add: tm_dist_def)
  show "tm_sorted b (tticks k') (tmlists k' HardList)" unfolding l by (rule timer_insert_sorted [OF s d])
  have b: "\<forall>x\<in>set ?ts. tm_dist b (tticks k') x < 0x7FFFFFFF" using s by (simp add: tm_sorted_def)
  let ?P = "\<lambda>x. tm_dist b (tticks k') x \<le> tm_dist b (tticks k') t"
  have "\<forall>y\<in>set (dropWhile ?P ?ts). tm_dist b (tticks k') t < tm_dist b (tticks k') y"
    using sorted_dropWhile_greater [of "tm_dist b (tticks k')" ?ts "tm_dist b (tticks k') t"] s
    by (simp add: tm_sorted_def)
  then show "\<exists>xs ys. tmlists k' HardList = xs @ t # ys \<and> remove1 t (tmlists k HardList) = xs @ ys \<and>
      (\<forall>x\<in>set xs. tm_dist b (tticks k') x \<le> tm_dist b (tticks k') t) \<and>
      (\<forall>y\<in>set ys. tm_dist b (tticks k') t < tm_dist b (tticks k') y)"
    unfolding l timer_insert_split [OF b d]
    by (intro exI [of _ "takeWhile ?P ?ts"] exI [of _ "dropWhile ?P ?ts"]) (auto dest: set_takeWhileD)
qed

section \<open>Expiry\<close>

text \<open>What the expiry loop needs of the code that runs in a callback: it keeps the kernel
  invariant, it may stop timers and wake threads, and it neither starts timers, nor suspends
  threads, nor moves the clock.\<close>

definition callback_frame :: "kernel \<Rightarrow> kernel \<Rightarrow> bool" where
  "callback_frame k k' \<longleftrightarrow> kinv k' \<and> cur k' \<noteq> None \<and> timers k' = timers k \<and> rt_tick k' = rt_tick k \<and>
    (\<exists>P. \<forall>l. tmlists k' l = filter P (tmlists k l)) \<and>
    (\<forall>m. timer_periodic m k' = timer_periodic m k \<and> timer_soft m k' = timer_soft m k \<and>
       (timer_activated m k' \<longrightarrow> timer_activated m k) \<and>
       rt_object_get_type (OTimer m) k' = rt_object_get_type (OTimer m) k) \<and>
    (\<forall>u. stat_of (threads k' u) = RT_THREAD_SUSPEND \<longrightarrow> stat_of (threads k u) = RT_THREAD_SUSPEND \<and>
       (ThreadTimer u \<in> set (tmlists k HardList) \<longrightarrow> ThreadTimer u \<in> set (tmlists k' HardList)))"

definition callbacks_ok :: "callbacks \<Rightarrow> bool" where
  "callbacks_ok cb \<longleftrightarrow> (\<forall>f p k. kinv k \<and> cur k \<noteq> None \<longrightarrow> (\<exists>k'. cb f p k = Some k' \<and> callback_frame k k'))"

text \<open>The timers of the hard list: sorted by deadline, no period so long that a deadline would
  wrap past the base, no periodic timer of period 0.\<close>

definition check_pre :: "u32 \<Rightarrow> kernel \<Rightarrow> bool" where
  "check_pre b k \<longleftrightarrow> kinv k \<and> cur k \<noteq> None \<and> tmlists k HardTemp = [] \<and>
    tm_sorted b (tticks k) (tmlists k HardList) \<and>
    (\<forall>t\<in>set (tmlists k HardList). unat (rt_tick k - b) + unat (init_tick (timers k t)) < 0x7FFFFFFF \<and>
       (timer_periodic t k \<longrightarrow> 0 < init_tick (timers k t)))"

definition expired_set :: "kernel \<Rightarrow> tmid set" where
  "expired_set k = {t \<in> set (tmlists k HardList). timer_expired (rt_tick k) t k}"

lemma check_preD:
  assumes "check_pre b k"
  shows "kinv k" "cur k \<noteq> None" "tmlists k HardTemp = []" "tm_sorted b (tticks k) (tmlists k HardList)"
    "t \<in> set (tmlists k HardList) \<Longrightarrow> unat (rt_tick k - b) + unat (init_tick (timers k t)) < 0x7FFFFFFF"
    "t \<in> set (tmlists k HardList) \<Longrightarrow> timer_periodic t k \<Longrightarrow> 0 < init_tick (timers k t)"
  using assms unfolding check_pre_def by blast+

lemma finite_expired_set [simp]: "finite (expired_set k)"
  by (simp add: expired_set_def)

lemma tm_inv_take:
  assumes inv: "tm_inv k" and t: "t \<in> set (tmlists k l)" and temp: "temp = HardTemp \<or> temp = SoftTemp"
    "tmlists k temp = []"
  shows "tm_inv (timer_take temp t k)" (is "tm_inv ?k")
proof (rule tm_invI)
  have s: "set (tmlists ?k m) = (if m = temp then {t} else set (tmlists k m) - {t})" for m
    using temp(2) tm_remove_set [OF inv] by (auto simp: timer_take_def Let_def)
  have f: "timer_soft u ?k = timer_soft u k" "timer_activated u ?k \<Longrightarrow> timer_activated u k"
      "u \<noteq> t \<Longrightarrow> timer_activated u ?k = timer_activated u k"
      "rt_object_get_type r ?k = rt_object_get_type r k" for u r
    by (auto simp: timer_take_def Let_def split: if_splits)
  show "distinct (tmlists ?k m)" for m
    using tm_invD(1) [OF inv] temp(2) by (simp add: timer_take_def Let_def)
  show "m = n" if "u \<in> set (tmlists ?k m)" "u \<in> set (tmlists ?k n)" for m n u
    using that tm_invD(2) [OF inv, of u m n] temp(2) unfolding s by (auto split: if_splits)
  show "timer_activated u ?k \<and> \<not> timer_soft u ?k" if "u \<in> set (tmlists ?k HardList)" for u
    using that temp(1) tm_invD(3,4) [OF inv, of u] f(1,3) [of u] unfolding s by auto
  show "timer_activated u ?k \<and> timer_soft u ?k" if "u \<in> set (tmlists ?k SoftList)" for u
    using that temp(1) tm_invD(5,6) [OF inv, of u] f(1,3) [of u] unfolding s by auto
  show "\<exists>m. u \<in> set (tmlists ?k m)" if a: "timer_activated u ?k" for u
  proof (cases "u = t")
    case True
    then show ?thesis unfolding s by (intro exI [of _ temp]) simp
  next
    case False
    obtain m where m: "u \<in> set (tmlists k m)" using tm_invD(7) [OF inv f(2) [OF a]] by blast
    then have "m \<noteq> temp" using temp(2) by auto
    then show ?thesis using m False unfolding s by (intro exI [of _ m]) simp
  qed
  show "rt_object_get_type (OTimer u) ?k = Class_Timer" if "u \<in> set (tmlists ?k m)" for m u
    using that tm_invD(8) [OF inv, of u m] tm_invD(8) [OF inv t] unfolding s f(4) by (auto split: if_splits)
qed

lemma timer_take_sel:
  "threads (timer_take temp t k) = threads k" "cur (timer_take temp t k) = cur k"
  "timers (timer_take temp t k) = timers k" "rt_tick (timer_take temp t k) = rt_tick k"
  "l \<noteq> temp \<Longrightarrow> tmlists (timer_take temp t k) l = remove1 t (tmlists k l)"
  "tmlists (timer_take temp t k) temp = t # remove1 t (tmlists k temp)"
  "timer_periodic m (timer_take temp t k) = timer_periodic m k"
  "timer_soft m (timer_take temp t k) = timer_soft m k"
  "timer_activated m (timer_take temp t k) \<longleftrightarrow> timer_activated m k \<and> (m \<noteq> t \<or> timer_periodic t k)"
  "rt_object_get_type r (timer_take temp t k) = rt_object_get_type r k"
  "rt_object_is_systemobject r (timer_take temp t k) = rt_object_is_systemobject r k"
  "sched_inv (timer_take temp t k) = sched_inv k" "stacks_ok (timer_take temp t k) = stacks_ok k"
  by (auto simp: timer_take_def Let_def)

lemma kinv_take:
  assumes inv: "kinv k" and t: "t \<in> set (tmlists k l)" and temp: "temp = HardTemp \<or> temp = SoftTemp"
    "tmlists k temp = []"
  shows "kinv (timer_take temp t k)"
proof -
  have "set (tmlists (timer_take temp t k) m) \<subseteq> set (tmlists k m)" if "m = HardList \<or> m = SoftList" for m
    using that temp timer_take_sel(5) [of m temp t k] set_remove1_subset by fastforce
  then have "tt_inv (timer_take temp t k)"
    using kinvD(4) [OF inv] unfolding tt_inv_def tcb_ok_def timer_take_sel by blast
  then show ?thesis
    using kinvD [OF inv] tm_inv_take [OF kinvD(3) [OF inv] t temp] unfolding kinv_def timer_take_sel by blast
qed

lemma callback_frameD:
  assumes "callback_frame k k'"
  shows "kinv k'" "cur k' \<noteq> None" "timers k' = timers k" "rt_tick k' = rt_tick k"
    "\<exists>P. \<forall>l. tmlists k' l = filter P (tmlists k l)"
    "timer_periodic m k' = timer_periodic m k" "timer_soft m k' = timer_soft m k"
    "timer_activated m k' \<Longrightarrow> timer_activated m k"
    "rt_object_get_type (OTimer m) k' = rt_object_get_type (OTimer m) k"
    "stat_of (threads k' u) = RT_THREAD_SUSPEND \<Longrightarrow> stat_of (threads k u) = RT_THREAD_SUSPEND"
    "stat_of (threads k' u) = RT_THREAD_SUSPEND \<Longrightarrow> ThreadTimer u \<in> set (tmlists k HardList) \<Longrightarrow>
       ThreadTimer u \<in> set (tmlists k' HardList)"
  using assms unfolding callback_frame_def by blast+

text \<open>Running the callback of the timer that was taken out of its list.\<close>

lemma timeout_call_ok:
  assumes cb: "callbacks_ok cb" and inv: "kinv k" and c: "cur k \<noteq> None"
    and t: "\<forall>u. t = ThreadTimer u \<longrightarrow> stat_of (threads k u) = RT_THREAD_SUSPEND"
      "t \<notin> set (tmlists k HardList) \<union> set (tmlists k SoftList)"
  obtains k' where "timeout_call cb (timeout_func (timers k t)) k = Some k'" "callback_frame k k'"
    "\<forall>u. t = ThreadTimer u \<longrightarrow> stat_of (threads k' u) \<noteq> RT_THREAD_SUSPEND \<and> tmlists k' = tmlists k"
proof (cases t)
  case (ThreadTimer u)
  then have u: "stat_of (threads k u) = RT_THREAD_SUSPEND" using t(1) by simp
  have f: "timeout_func (timers k t) = Rt_Thread_Timeout u"
    using tt_invD(1) [OF kinvD(4) [OF inv], of u] u ThreadTimer by (simp add: started_def tcb_ok_def)
  have "ThreadTimer u \<notin> set (tmlists k HardList) \<union> set (tmlists k SoftList)" using t(2) ThreadTimer by simp
  then obtain k' where k': "rt_thread_timeout u k = Some k'" "kinv k'" "sched_only k k'" "cur k' \<noteq> None"
      "stat_of (threads k' u) \<in> {RT_THREAD_READY, RT_THREAD_RUNNING}"
      "\<And>v. v \<noteq> u \<Longrightarrow> stat_of (threads k' v) = RT_THREAD_SUSPEND \<longleftrightarrow> stat_of (threads k v) = RT_THREAD_SUSPEND"
    using thread_timeout_ok [OF inv u _ c] by metis
  note o = sched_onlyD [OF k'(3)]
  have "callback_frame k k'"
    unfolding callback_frame_def
  proof (intro conjI allI impI)
    show "\<exists>P. \<forall>l. tmlists k' l = filter P (tmlists k l)" using o(7) by (intro exI [of _ "\<lambda>_. True"]) simp
    show "stat_of (threads k v) = RT_THREAD_SUSPEND" if "stat_of (threads k' v) = RT_THREAD_SUSPEND" for v
      using that k'(5,6) u by (cases "v = u") auto
  qed (use k' o in \<open>auto simp: timer_flag_defs rt_object_get_type_def\<close>)
  then show ?thesis using that [of k'] k'(1,5) f ThreadTimer o(7) by auto
next
  case (UserTimer n)
  obtain f p where f: "timeout_func (timers k t) = User_Timeout f p"
    using tt_invD(4) [OF kinvD(4) [OF inv]] UserTimer by blast
  obtain k' where "cb f p k = Some k'" "callback_frame k k'"
    using cb inv c unfolding callbacks_ok_def by blast
  then show ?thesis using that [of k'] f UserTimer by simp
qed

lemma tm_inv_drop:
  assumes inv: "tm_inv k" and t: "\<not> timer_activated t k"
  shows "tm_inv (tm_remove t k)"
proof -
  have s: "set (tmlists (tm_remove t k) l) = set (tmlists k l) - {t}" for l
    using tm_remove_set [OF inv] by simp
  show ?thesis
  proof (rule tm_invI)
    show "distinct (tmlists (tm_remove t k) l)" for l using tm_invD(1) [OF inv] by simp
    show "l = m" if "u \<in> set (tmlists (tm_remove t k) l)" "u \<in> set (tmlists (tm_remove t k) m)" for l m u
      using that tm_invD(2) [OF inv] unfolding s by blast
    show "\<exists>l. u \<in> set (tmlists (tm_remove t k) l)" if "timer_activated u (tm_remove t k)" for u
      using that t tm_invD(7) [OF inv, of u] unfolding s by auto
  qed (use tm_invD(3-6) [OF inv] tm_invD(8) [OF inv] s in auto)
qed

lemma kinv_drop:
  assumes inv: "kinv k" and t: "\<not> timer_activated t k"
  shows "kinv (tm_remove t k)"
proof -
  have "tt_inv (tm_remove t k)"
    using kinvD(4) [OF inv] set_remove1_subset [of t] unfolding tt_inv_def tcb_ok_def by fastforce
  then show ?thesis using kinvD [OF inv] tm_inv_drop [OF _ t] by (simp add: kinv_def)
qed

lemma kinv_unlink:
  assumes inv: "kinv k"
  shows "kinv (clear_flag t RT_TIMER_FLAG_ACTIVATED (tm_remove t k))"
proof -
  have "tt_inv (clear_flag t RT_TIMER_FLAG_ACTIVATED (tm_remove t k))"
    using kinvD(4) [OF inv] set_remove1_subset [of t] unfolding tt_inv_def tcb_ok_def by fastforce
  then show ?thesis using kinvD [OF inv] tm_inv_unlink by (simp add: kinv_def)
qed

lemma not_expired_again:
  fixes tick i :: u32
  assumes "0 < i" "unat i < 0x7FFFFFFF"
  shows "\<not> tick - (tick + i) < 0x7FFFFFFF"
proof -
  have "tick - (tick + i) = - i" by simp
  moreover have "unat (- i) = 4294967296 - unat i"
    using assms(1) unat_sub_if' [of 0 i] by (simp add: unat_gt_0 word_gt_0)
  ultimately show ?thesis using assms(2) by (simp add: word_less_nat_alt)
qed

lemma timer_again_ok:
  assumes inv: "kinv k" and c: "cur k \<noteq> None" and temp: "tmlists k HardTemp = [] \<or> tmlists k HardTemp = [t]"
    and t: "t \<notin> set (tmlists k HardList)" "\<not> timer_soft t k" "rt_object_get_type (OTimer t) k = Class_Timer"
      "timer_activated t k \<longrightarrow> timer_periodic t k"
      "\<forall>u. t = ThreadTimer u \<longrightarrow> \<not> timer_periodic t k"
    and srt: "tm_sorted b (tticks k) (tmlists k HardList)"
    and bnd: "\<forall>m\<in>insert t (set (tmlists k HardList)).
      unat (rt_tick k - b) + unat (init_tick (timers k m)) < 0x7FFFFFFF \<and>
       (timer_periodic m k \<longrightarrow> 0 < init_tick (timers k m))"
  shows "\<exists>k'. timer_again HardTemp t k = Some k' \<and> check_pre b k' \<and> rt_tick k' = rt_tick k \<and>
    threads k' = threads k \<and> (\<forall>m. m \<noteq> t \<longrightarrow> timers k' m = timers k m) \<and>
    set (tmlists k' HardList) - {t} = set (tmlists k HardList) \<and>
    (t \<in> set (tmlists k' HardList) \<longrightarrow> \<not> timer_expired (rt_tick k') t k')"
proof -
  have rm: "remove1 t (tmlists k HardList) = tmlists k HardList" using t(1) by (rule remove1_idem)
  consider "tmlists k HardTemp = []" | "tmlists k HardTemp = [t]" "timer_periodic t k \<and> timer_activated t k"
    | "tmlists k HardTemp = [t]" "\<not> timer_activated t k" using temp t(4) by blast
  then show ?thesis
  proof cases
    case 1
    then show ?thesis using inv c srt bnd t(1) by (intro exI [of _ k]) (auto simp: timer_again_def check_pre_def)
  next
    case 3
    let ?k = "tm_remove t k"
    have "timer_again HardTemp t k = Some ?k" using 3 by (simp add: timer_again_def)
    moreover have "check_pre b ?k"
      using kinv_drop [OF inv 3(2)] c srt bnd 3(1) unfolding check_pre_def by (simp add: rm)
    ultimately show ?thesis using t(1) by (intro exI [of _ ?k]) (simp add: rm)
  next
    case 2
    let ?k = "clear_flag t RT_TIMER_FLAG_ACTIVATED (tm_remove t k)"
    have th: "\<forall>u. t = ThreadTimer u \<longrightarrow> stat_of (threads ?k u) = RT_THREAD_SUSPEND" using t(5) 2(2) by blast
    have ty: "rt_object_get_type (OTimer t) ?k = Class_Timer" using t(3) by simp
    have i: "init_tick (timers ?k t) < RT_TICK_HALF" using bnd by (simp add: word_less_nat_alt)
    obtain k' where k': "timer_link t ?k = Some k'" "kinv k'" "data_frame ?k k'" "threads k' = threads ?k"
        "cur k' = cur ?k"
        "timers k' = (timers ?k)(t := (timers ?k t)\<lparr>timeout_tick := rt_tick ?k + init_tick (timers ?k t)\<rparr>)"
        "\<forall>l. tmlists k' l = (if l = timer_list_of t ?k then
          timer_insert (tticks k') t (remove1 t (tmlists ?k l)) else remove1 t (tmlists ?k l))"
        "\<forall>m. timer_periodic m k' = timer_periodic m ?k \<and> timer_soft m k' = timer_soft m ?k"
      using timer_link_ok [OF kinv_unlink [OF inv] ty i th] by blast
    have l: "tmlists k' HardList = timer_insert (tticks k') t (tmlists k HardList)"
      using k'(7) t(1,2) by (simp add: timer_list_of_def rm)
    have "tm_sorted b (tticks k') (tmlists k' HardList)"
      using timer_link_sorted(1) [OF kinv_unlink [OF inv] ty _ th _ _ k'(1), of b] t(2) srt bnd
      by (simp add: rm)
    moreover have tick: "rt_tick k' = rt_tick k" using data_frameD(4) [OF k'(3)] by simp
    moreover have "tmlists k' HardTemp = []" using k'(7) 2(1) t(2) by (simp add: timer_list_of_def)
    moreover have "init_tick (timers k' m) = init_tick (timers k m)" for m using k'(6) by simp
    ultimately have "check_pre b k'"
      using k'(2,5,8) c bnd l unfolding check_pre_def by auto
    moreover have "timer_again HardTemp t k = Some k'"
      using 2 timer_start_hard [OF ty k'(1)] k'(8) t(2) by (simp add: timer_again_def Let_def)
    moreover have "\<not> timer_expired (rt_tick k') t k'"
      using not_expired_again [of "init_tick (timers k t)" "rt_tick k"] bnd 2(2) k'(6) tick
      by (simp add: timer_expired_def)
    ultimately show ?thesis using k'(4,6) tick l t(1) by (intro exI [of _ k']) auto
  qed
qed

text \<open>The waiting threads that remain after a step of the loop kept their deadlines.\<close>

definition still_waiting :: "kernel \<Rightarrow> kernel \<Rightarrow> bool" where
  "still_waiting k k' \<longleftrightarrow> (\<forall>u. stat_of (threads k' u) = RT_THREAD_SUSPEND \<longrightarrow>
     stat_of (threads k u) = RT_THREAD_SUSPEND \<and>
     (ThreadTimer u \<in> set (tmlists k HardList) \<longrightarrow> ThreadTimer u \<in> set (tmlists k' HardList) \<and>
        tticks k' (ThreadTimer u) = tticks k (ThreadTimer u)))"

lemma still_waiting_trans: "still_waiting k k' \<Longrightarrow> still_waiting k' k'' \<Longrightarrow> still_waiting k k''"
  unfolding still_waiting_def by metis

text \<open>The run of the loop as the list of the callbacks it called: an entry \<open>(t, k1, k2)\<close> says that
  the callback of \<open>t\<close> was called in \<open>k1\<close> and returned in \<open>k2\<close>. A user timer calls the function it was
  created with, on its parameter; the timer of a thread calls \<open>rt_thread_timeout\<close> on the thread.\<close>

type_synonym firing = "tmid \<times> kernel \<times> kernel"

abbreviation fired :: "firing list \<Rightarrow> tmid list" where
  "fired \<equiv> List.map fst"

fun callback_ran :: "callbacks \<Rightarrow> timeout_fn \<Rightarrow> kernel \<Rightarrow> kernel \<Rightarrow> bool" where
  "callback_ran cb (User_Timeout f p) k1 k2 \<longleftrightarrow> cb f p k1 = Some k2"
| "callback_ran cb (Rt_Thread_Timeout u) k1 k2 \<longleftrightarrow> rt_thread_timeout u k1 = Some k2"

inductive expiry_run :: "callbacks \<Rightarrow> kernel \<Rightarrow> firing list \<Rightarrow> kernel \<Rightarrow> bool" for cb where
  run_end: "expiry_run cb k [] k"
| run_fire: "tmlists k HardList = t # ts \<Longrightarrow> callback_ran cb (timeout_func (timers k t)) (timer_take HardTemp t k) k2 \<Longrightarrow>
    timer_again HardTemp t k2 = Some k3 \<Longrightarrow> expiry_run cb k3 cs k' \<Longrightarrow>
    expiry_run cb k ((t, timer_take HardTemp t k, k2) # cs) k'"

text \<open>A timer that was expired and was not fired was stopped by the callback of a user timer.\<close>

definition stopped_by :: "firing list \<Rightarrow> tmid \<Rightarrow> bool" where
  "stopped_by cs t \<longleftrightarrow> (\<exists>n k1 k2. (UserTimer n, k1, k2) \<in> set cs \<and>
     t \<in> set (tmlists k1 HardList) \<and> t \<notin> set (tmlists k2 HardList))"

definition fires_expired :: "callbacks \<Rightarrow> u32 \<Rightarrow> kernel \<Rightarrow> firing list \<Rightarrow> bool" where
  "fires_expired cb b k cs \<longleftrightarrow> distinct (fired cs) \<and> set (fired cs) \<subseteq> expired_set k \<and>
    sorted_wrt (\<lambda>s t. tm_dist b (tticks k) s \<le> tm_dist b (tticks k) t) (fired cs) \<and>
    (\<forall>(t, k1, k2)\<in>set cs. callback_ran cb (timeout_func (timers k t)) k1 k2) \<and>
    (\<forall>t\<in>expired_set k. t \<in> set (fired cs) \<or> stopped_by cs t)"

lemma callback_ran_call: "timeout_call cb fn k1 = Some k2 \<Longrightarrow> callback_ran cb fn k1 k2"
  by (cases fn) simp_all

lemma fires_expired_Nil: "expired_set k = {} \<Longrightarrow> fires_expired cb b k []"
  by (simp add: fires_expired_def)

text \<open>One more firing in front: the head of the list is due first, and a timer that drops out of the
  expired ones without being fired was unlinked by this callback.\<close>

lemma fires_expired_Cons:
  assumes cs: "fires_expired cb b k3 cs" and h: "tmlists k HardList = t # ts"
    and srt: "tm_sorted b (tticks k) (tmlists k HardList)" and e: "t \<in> expired_set k"
    and ran: "callback_ran cb (timeout_func (timers k t)) k1 k2"
    and e3: "expired_set k3 \<subseteq> expired_set k - {t}" and tm: "\<forall>m. m \<noteq> t \<longrightarrow> timers k3 m = timers k m"
    and k1: "set (tmlists k1 HardList) = set (tmlists k HardList) - {t}"
    and k2: "expired_set k - {t} - expired_set k3 \<subseteq> - set (tmlists k2 HardList)"
      "\<forall>u. t = ThreadTimer u \<longrightarrow> tmlists k2 = tmlists k1"
  shows "fires_expired cb b k ((t, k1, k2) # cs)"
proof -
  have sub: "set (fired cs) \<subseteq> expired_set k - {t}" using cs e3 unfolding fires_expired_def by blast
  have same: "timers k3 m = timers k m" if "m \<in> set (fired cs)" for m using that sub tm by blast
  have "sorted_wrt (\<lambda>s t. tm_dist b (tticks k) s \<le> tm_dist b (tticks k) t) (fired cs)"
    by (rule sorted_wrt_mono_rel [of _ "\<lambda>s t. tm_dist b (tticks k3) s \<le> tm_dist b (tticks k3) t"])
      (use cs same in \<open>auto simp: fires_expired_def tm_dist_def\<close>)
  moreover have "tm_dist b (tticks k) t \<le> tm_dist b (tticks k) m" if "m \<in> set (fired cs)" for m
    using that sub srt unfolding tm_sorted_def h expired_set_def by auto
  moreover have "callback_ran cb (timeout_func (timers k m)) k1' k2'" if "(m, k1', k2') \<in> set cs" for m k1' k2'
    using that cs same [of m] unfolding fires_expired_def by force
  moreover have "m \<in> insert t (set (fired cs)) \<or> stopped_by ((t, k1, k2) # cs) m" if m: "m \<in> expired_set k" for m
  proof (cases "m \<in> expired_set k3 \<or> m = t")
    case True
    then show ?thesis using cs unfolding fires_expired_def stopped_by_def by fastforce
  next
    case False
    then have m2: "m \<notin> set (tmlists k2 HardList)" "m \<in> set (tmlists k1 HardList)"
      using m k1 k2(1) by (auto simp: expired_set_def)
    then obtain n where "t = UserTimer n" using k2(2) by (cases t) auto
    then show ?thesis using m2 by (auto simp: stopped_by_def)
  qed
  ultimately show ?thesis using cs sub e ran unfolding fires_expired_def by auto
qed

lemma timer_fire_ok:
  assumes cb: "callbacks_ok cb" and pre: "check_pre b k" and h: "tmlists k HardList = t # ts"
  shows "\<exists>k2 k'. timer_fire cb t k = Some k' \<and> check_pre b k' \<and> rt_tick k' = rt_tick k \<and>
    expired_set k' \<subseteq> expired_set k - {t} \<and> still_waiting k k' \<and>
    callback_ran cb (timeout_func (timers k t)) (timer_take HardTemp t k) k2 \<and> timer_again HardTemp t k2 = Some k' \<and>
    (\<forall>m. m \<noteq> t \<longrightarrow> timers k' m = timers k m) \<and>
    set (tmlists (timer_take HardTemp t k) HardList) = set (tmlists k HardList) - {t} \<and>
    expired_set k - {t} - expired_set k' \<subseteq> - set (tmlists k2 HardList) \<and>
    (\<forall>u. t = ThreadTimer u \<longrightarrow> tmlists k2 = tmlists (timer_take HardTemp t k))"
proof -
  note inv = check_preD(1) [OF pre]
  have tH: "t \<in> set (tmlists k HardList)" using h by simp
  let ?k = "timer_take HardTemp t k"
  have inv1: "kinv ?k" using kinv_take [OF inv tH _ check_preD(3) [OF pre]] by simp
  have H1: "tmlists ?k HardList = ts" "tmlists ?k HardTemp = [t]"
    using h check_preD(3) [OF pre] by (simp_all add: timer_take_sel)
  have t1: "\<forall>u. t = ThreadTimer u \<longrightarrow> stat_of (threads ?k u) = RT_THREAD_SUSPEND"
    using tH tt_invD(2) [OF kinvD(4) [OF inv]] by (auto simp: timer_take_sel)
  have tn: "t \<notin> set (tmlists ?k l)" if "l \<noteq> HardTemp" for l
    using that tm_remove_set [OF kinvD(3) [OF inv]] by (simp add: timer_take_sel)
  have c1: "cur ?k \<noteq> None" using check_preD(2) [OF pre] by (simp add: timer_take_sel)
  obtain k2 where k2: "timeout_call cb (timeout_func (timers ?k t)) ?k = Some k2" "callback_frame ?k k2"
      and woken: "\<forall>u. t = ThreadTimer u \<longrightarrow> stat_of (threads k2 u) \<noteq> RT_THREAD_SUSPEND \<and> tmlists k2 = tmlists ?k"
    using timeout_call_ok [OF cb inv1 c1 t1] tn by blast
  note f = callback_frameD [OF k2(2), unfolded timer_take_sel]
  obtain P where P: "\<forall>l. tmlists k2 l = filter P (tmlists ?k l)" using f(5) by blast
  have H2: "tmlists k2 HardList = filter P ts" using P H1 by simp
  have sub: "set (tmlists k2 HardList) \<subseteq> set (tmlists k HardList) - {t}"
    using H2 h tn [of HardList] H1(1) by auto
  have thr: "\<forall>u. t = ThreadTimer u \<longrightarrow> \<not> timer_periodic t k2"
    using t1 tt_invD(1) [OF kinvD(4) [OF inv]] f(6)
    by (auto simp: timer_take_sel started_def tcb_ok_def)
  have "tm_sorted b (tticks k2) (tmlists k2 HardList)"
    using check_preD(4) [OF pre] f(3) unfolding H2 h tm_sorted_def by (auto intro: sorted_filter)
  moreover have "\<forall>m\<in>insert t (set (tmlists k2 HardList)).
      unat (rt_tick k2 - b) + unat (init_tick (timers k2 m)) < 0x7FFFFFFF \<and>
       (timer_periodic m k2 \<longrightarrow> 0 < init_tick (timers k2 m))"
    using check_preD(5,6) [OF pre] sub tH f(3,4,6) by auto
  moreover have "tmlists k2 HardTemp = [] \<or> tmlists k2 HardTemp = [t]" using P H1(2) by simp
  moreover have "timer_activated t k2 \<longrightarrow> timer_periodic t k2" using f(8) [of t] f(6) by auto
  moreover have "\<not> timer_soft t k2" "rt_object_get_type (OTimer t) k2 = Class_Timer"
    using f(7,9) tm_invD(4,8) [OF kinvD(3) [OF inv]] tH by (auto simp: timer_take_sel)
  ultimately obtain k3 where k3: "timer_again HardTemp t k2 = Some k3" "check_pre b k3" "rt_tick k3 = rt_tick k2"
      "threads k3 = threads k2" "\<forall>m. m \<noteq> t \<longrightarrow> timers k3 m = timers k2 m"
      "set (tmlists k3 HardList) - {t} = set (tmlists k2 HardList)"
      "t \<in> set (tmlists k3 HardList) \<longrightarrow> \<not> timer_expired (rt_tick k3) t k3"
    using timer_again_ok [OF f(1,2), of t b] sub thr by blast
  have "timer_fire cb t k = Some k3" using k2(1) k3(1) by (simp add: timer_fire_def timer_take_sel)
  moreover have "expired_set k3 \<subseteq> expired_set k - {t}"
  proof
    fix m assume m: "m \<in> expired_set k3"
    then have mt: "m \<noteq> t" using k3(7) by (auto simp: expired_set_def)
    then have "m \<in> set (tmlists k2 HardList)" using m k3(6) by (auto simp: expired_set_def)
    then show "m \<in> expired_set k - {t}"
      using m mt sub k3(3,5) f(3,4) by (auto simp: expired_set_def timer_expired_def)
  qed
  moreover have "still_waiting k k3"
    unfolding still_waiting_def
  proof (intro allI impI conjI)
    fix u assume u: "stat_of (threads k3 u) = RT_THREAD_SUSPEND"
    then have u2: "stat_of (threads k2 u) = RT_THREAD_SUSPEND" using k3(4) by simp
    then show "stat_of (threads k u) = RT_THREAD_SUSPEND" using f(10) by (simp add: timer_take_sel)
    assume m: "ThreadTimer u \<in> set (tmlists k HardList)"
    have ne: "ThreadTimer u \<noteq> t" using woken u2 by blast
    then have "ThreadTimer u \<in> set (tmlists ?k HardList)" using m h H1 by simp
    then have "ThreadTimer u \<in> set (tmlists k2 HardList)" using f(11) [OF u2] H1(1) by simp
    then show "ThreadTimer u \<in> set (tmlists k3 HardList)" using k3(6) by blast
    show "tticks k3 (ThreadTimer u) = tticks k (ThreadTimer u)" using k3(5) ne f(3) by simp
  qed
  moreover have "expired_set k - {t} - expired_set k3 \<subseteq> - set (tmlists k2 HardList)"
    using k3(3,5,6) f(3,4) by (auto simp: expired_set_def timer_expired_def)
  moreover have "set (tmlists ?k HardList) = set (tmlists k HardList) - {t}" using h H1(1) tn [of HardList] by auto
  moreover have "callback_ran cb (timeout_func (timers k t)) ?k k2"
    using callback_ran_call [OF k2(1)] by (simp add: timer_take_sel)
  moreover have "\<forall>u. t = ThreadTimer u \<longrightarrow> tmlists k2 = tmlists ?k" using woken by simp
  ultimately show ?thesis using k3 f(3,4) by (intro exI [of _ k2] exI [of _ k3]) auto
qed

lemma expired_dist:
  assumes "tm_dist b (tticks k) t < 0x7FFFFFFF" "unat (rt_tick k - b) < 0x7FFFFFFF"
  shows "timer_expired (rt_tick k) t k \<longleftrightarrow> tm_dist b (tticks k) t \<le> unat (rt_tick k - b)"
proof -
  have "rt_tick k - tticks k t = (rt_tick k - b) - (tticks k t - b)" by simp
  then show ?thesis
    using word_half_compare(1) [of "rt_tick k - b" "tticks k t - b"] assms
    unfolding timer_expired_def tm_dist_def by simp
qed

text \<open>The first timer that is not expired ends the list of expired timers.\<close>

lemma head_not_expired:
  assumes pre: "check_pre b k" and h: "tmlists k HardList = t # ts" and e: "\<not> timer_expired (rt_tick k) t k"
  shows "expired_set k = {}"
proof -
  note srt = check_preD(4) [OF pre, unfolded tm_sorted_def h]
  have tick: "unat (rt_tick k - b) < 0x7FFFFFFF" using check_preD(5) [OF pre, of t] h by simp
  have "\<not> timer_expired (rt_tick k) m k" if m: "m \<in> set (tmlists k HardList)" for m
  proof -
    have "tm_dist b (tticks k) t \<le> tm_dist b (tticks k) m" using srt m h by auto
    moreover have "\<not> tm_dist b (tticks k) t \<le> unat (rt_tick k - b)"
      using e expired_dist [OF _ tick, of t] srt by simp
    ultimately show ?thesis using expired_dist [OF _ tick, of m] srt m h by auto
  qed
  then show ?thesis by (auto simp: expired_set_def)
qed

lemma timer_check_loop_ok:
  assumes cb: "callbacks_ok cb" and "check_pre b k"
  shows "\<exists>k' cs. timer_check_loop cb (rt_tick k) k = Some k' \<and> check_pre b k' \<and> rt_tick k' = rt_tick k \<and>
    expired_set k' = {} \<and> still_waiting k k' \<and> expiry_run cb k cs k' \<and> fires_expired cb b k cs"
  using assms(2)
proof (induction "card (expired_set k)" arbitrary: k rule: less_induct)
  case less
  show ?case
  proof (cases "\<exists>t ts. tmlists k HardList = t # ts \<and> timer_expired (rt_tick k) t k")
    case False
    then have "timer_check_loop cb (rt_tick k) k = Some k"
      by (subst timer_check_loop.simps) (auto split: list.splits)
    moreover have "expired_set k = {}"
      using False head_not_expired [OF less.prems] by (cases "tmlists k HardList") (auto simp: expired_set_def)
    ultimately show ?thesis
      using less.prems fires_expired_Nil run_end by (intro exI [of _ k] exI [of _ "[]"]) (simp add: still_waiting_def)
  next
    case True
    then obtain t ts where h: "tmlists k HardList = t # ts" and e: "timer_expired (rt_tick k) t k" by blast
    have te: "t \<in> expired_set k" using h e by (simp add: expired_set_def)
    obtain k1 k2 where k1: "timer_fire cb t k = Some k1" "check_pre b k1" "rt_tick k1 = rt_tick k"
        "expired_set k1 \<subseteq> expired_set k - {t}" "still_waiting k k1"
        "callback_ran cb (timeout_func (timers k t)) (timer_take HardTemp t k) k2" "timer_again HardTemp t k2 = Some k1"
        "\<forall>m. m \<noteq> t \<longrightarrow> timers k1 m = timers k m"
        "set (tmlists (timer_take HardTemp t k) HardList) = set (tmlists k HardList) - {t}"
        "expired_set k - {t} - expired_set k1 \<subseteq> - set (tmlists k2 HardList)"
        "\<forall>u. t = ThreadTimer u \<longrightarrow> tmlists k2 = tmlists (timer_take HardTemp t k)"
      using timer_fire_ok [OF cb less.prems h] by blast
    have "card (expired_set k1) < card (expired_set k)" using te k1(4) by (intro psubset_card_mono) auto
    then obtain k3 cs where k3: "timer_check_loop cb (rt_tick k1) k1 = Some k3" "check_pre b k3"
        "rt_tick k3 = rt_tick k1" "expired_set k3 = {}" "still_waiting k1 k3" "expiry_run cb k1 cs k3"
        "fires_expired cb b k1 cs"
      using less.hyps k1(2) by blast
    have "timer_check_loop cb (rt_tick k) k = Some k3"
      using h e k1(1) k3(1) by (subst timer_check_loop.simps) simp
    moreover have "expiry_run cb k ((t, timer_take HardTemp t k, k2) # cs) k3"
      using run_fire [OF h k1(6,7) k3(6)] .
    moreover have "fires_expired cb b k ((t, timer_take HardTemp t k, k2) # cs)"
      using fires_expired_Cons [OF k3(7) h check_preD(4) [OF less.prems] te k1(6,4,8,9,10,11)] .
    ultimately show ?thesis using k1(3) k3 still_waiting_trans [OF k1(5) k3(5)] by (metis (no_types))
  qed
qed

section \<open>Properties\<close>

text \<open>
  C6: \<open>rt_timer_start\<close> on a hard timer succeeds, sets the deadline \<open>init_tick\<close> ticks ahead and
  puts the timer into the system list behind every timer that is due earlier or at the same time and
  before every later one; the list stays sorted and the kernel invariant holds. Deadlines may
  wrap around: they are ordered by their distance from a base tick.
\<close>

theorem rt_timer_start_correct:
  assumes inv: "kinv k" and ty: "rt_object_get_type (OTimer t) k = Class_Timer" and soft: "\<not> timer_soft t k"
    and th: "\<forall>u. t = ThreadTimer u \<longrightarrow> stat_of (threads k u) = RT_THREAD_SUSPEND"
    and srt: "tm_sorted b (tticks k) (tmlists k HardList)"
    and i: "unat (rt_tick k - b) + unat (init_tick (timers k t)) < 0x7FFFFFFF"
  shows "\<exists>k' xs ys. rt_timer_start t k = Some (RT_EOK, k') \<and> kinv k' \<and> timer_activated t k' \<and>
    tticks k' t = rt_tick k + init_tick (timers k t) \<and>
    tm_sorted b (tticks k') (tmlists k' HardList) \<and>
    tmlists k' HardList = xs @ t # ys \<and> remove1 t (tmlists k HardList) = xs @ ys \<and>
    (\<forall>x\<in>set xs. tm_dist b (tticks k') x \<le> tm_dist b (tticks k') t) \<and>
    (\<forall>y\<in>set ys. tm_dist b (tticks k') t < tm_dist b (tticks k') y)"
proof -
  have i': "init_tick (timers k t) < RT_TICK_HALF" using i by (simp add: word_less_nat_alt)
  obtain k' where k': "timer_link t k = Some k'" "kinv k'"
      "timers k' = (timers k)(t := (timers k t)\<lparr>timeout_tick := rt_tick k + init_tick (timers k t)\<rparr>)"
      "timer_activated t k'" "\<not> timer_soft t k'"
    using timer_link_ok [OF inv ty i' th] soft by blast
  then have "rt_timer_start t k = Some (RT_EOK, k')" "tticks k' t = rt_tick k + init_tick (timers k t)"
    using timer_start_hard [OF ty] by simp_all
  then show ?thesis using k' timer_link_sorted [OF inv ty soft th srt i k'(1)] by blast
qed

theorem rt_timer_start_correct_witness:
  "\<exists>k' xs ys. rt_timer_start (UserTimer 5) demo_timed = Some (RT_EOK, k') \<and> kinv k' \<and>
    timer_activated (UserTimer 5) k' \<and> tticks k' (UserTimer 5) = 110 \<and>
    tmlists k' HardList = xs @ UserTimer 5 # ys \<and> [ThreadTimer 3, UserTimer 0] = xs @ ys"
  using rt_timer_start_correct [OF demo_timed_kinv, of "UserTimer 5" 90]
  by (simp add: tm_sorted_def tm_dist_def) blast

text \<open>
  C7: \<open>rt_timer_check\<close> returns and fires exactly the expired timers: when the timers of the system
  list are sorted, no period is 0 and the callbacks keep to \<open>callbacks_ok\<close>, the loop is a finite
  run of firings, each taking the head of the list out and calling its callback: the function of a
  user timer on its parameter, \<open>rt_thread_timeout\<close> on the thread of a thread timer. Only timers
  that were expired at the start are fired, each once, the earliest deadline first, and every timer
  that was expired is fired unless the callback of a user timer stopped it before its turn. The final
  state has the kernel invariant and a sorted list in which no timer is due, and no thread whose
  time-out was due is still suspended.
\<close>

theorem rt_timer_check_correct:
  assumes "callbacks_ok cb" "check_pre b k"
  shows "\<exists>k' calls. rt_timer_check cb k = Some k' \<and> expiry_run cb k calls k' \<and>
    (\<forall>(t, k1, k2)\<in>set calls. callback_ran cb (timeout_func (timers k t)) k1 k2) \<and>
    set (fired calls) \<subseteq> expired_set k \<and> distinct (fired calls) \<and>
    sorted_wrt (\<lambda>s t. tm_dist b (tticks k) s \<le> tm_dist b (tticks k) t) (fired calls) \<and>
    (\<forall>t\<in>expired_set k. t \<in> set (fired calls) \<or> stopped_by calls t) \<and>
    kinv k' \<and> rt_tick k' = rt_tick k \<and>
    tm_sorted b (tticks k') (tmlists k' HardList) \<and>
    (\<forall>t\<in>set (tmlists k' HardList). \<not> timer_expired (rt_tick k) t k') \<and>
    (\<forall>u. ThreadTimer u \<in> set (tmlists k HardList) \<and> timer_expired (rt_tick k) (ThreadTimer u) k \<longrightarrow>
       stat_of (threads k' u) \<noteq> RT_THREAD_SUSPEND)"
proof -
  have "k\<lparr>tmlists := (tmlists k)(HardTemp := [])\<rparr> = k"
    using check_preD(3) [OF assms(2)] by (simp add: fun_upd_idem)
  then have "rt_timer_check cb k = timer_check_loop cb (rt_tick k) k" by (simp add: rt_timer_check_def)
  moreover obtain k' calls where k': "timer_check_loop cb (rt_tick k) k = Some k'" "check_pre b k'"
      "rt_tick k' = rt_tick k" "expired_set k' = {}" "still_waiting k k'" "expiry_run cb k calls k'"
      "fires_expired cb b k calls"
    using timer_check_loop_ok [OF assms] by blast
  moreover have "stat_of (threads k' u) \<noteq> RT_THREAD_SUSPEND"
    if "ThreadTimer u \<in> set (tmlists k HardList)" "timer_expired (rt_tick k) (ThreadTimer u) k" for u
    using that k'(3,4,5) unfolding still_waiting_def expired_set_def timer_expired_def by auto
  moreover have "\<forall>t\<in>set (tmlists k' HardList). \<not> timer_expired (rt_tick k) t k'"
    using k'(3,4) by (auto simp: expired_set_def)
  ultimately show ?thesis using check_preD(1,4) [OF k'(2)] unfolding fires_expired_def
    by (intro exI [of _ k'] exI [of _ calls]) simp
qed

lemma callbacks_ok_skip: "callbacks_ok (\<lambda>f p k. Some k)"
  unfolding callbacks_ok_def callback_frame_def by (auto intro: exI [of _ "\<lambda>_. True"])

lemma demo_timed_check_pre: "check_pre 90 demo_timed"
  using demo_timed_kinv unfolding check_pre_def by (simp add: tm_sorted_def tm_dist_def)

lemma demo_timed_expired: "expired_set demo_timed = {ThreadTimer 3, UserTimer 0}"
  by (auto simp: expired_set_def timer_expired_def)

lemma not_stopped_skip:
  assumes "\<forall>(t, k1, k2)\<in>set calls. callback_ran (\<lambda>f p k. Some k) (timeout_func (timers demo_timed t)) k1 k2"
  shows "\<not> stopped_by calls t"
  using assms by (force simp: stopped_by_def)

text \<open>Both timers of the list are expired: both are fired.\<close>

theorem rt_timer_check_correct_witness:
  "\<exists>k' calls. rt_timer_check (\<lambda>f p k. Some k) demo_timed = Some k' \<and> kinv k' \<and>
     expiry_run (\<lambda>f p k. Some k) demo_timed calls k' \<and>
     set (fired calls) = {ThreadTimer 3, UserTimer 0} \<and> stat_of (threads k' 3) \<noteq> RT_THREAD_SUSPEND"
proof -
  obtain k' calls where k': "rt_timer_check (\<lambda>f p k. Some k) demo_timed = Some k'" "kinv k'"
      "expiry_run (\<lambda>f p k. Some k) demo_timed calls k'"
      "\<forall>(t, k1, k2)\<in>set calls. callback_ran (\<lambda>f p k. Some k) (timeout_func (timers demo_timed t)) k1 k2"
      "set (fired calls) \<subseteq> expired_set demo_timed"
      "\<forall>t\<in>expired_set demo_timed. t \<in> set (fired calls) \<or> stopped_by calls t"
      "\<forall>u. ThreadTimer u \<in> set (tmlists demo_timed HardList) \<and>
         timer_expired (rt_tick demo_timed) (ThreadTimer u) demo_timed \<longrightarrow> stat_of (threads k' u) \<noteq> RT_THREAD_SUSPEND"
    using rt_timer_check_correct [OF callbacks_ok_skip demo_timed_check_pre] by blast
  moreover have "set (fired calls) = {ThreadTimer 3, UserTimer 0}"
    using k'(5,6) not_stopped_skip [OF k'(4)] unfolding demo_timed_expired by blast
  moreover have "stat_of (threads k' 3) \<noteq> RT_THREAD_SUSPEND" using k'(7) by (simp add: timer_expired_def)
  ultimately show ?thesis by blast
qed

end
