(* ===== verification/RT_Kservice.thy ===== *)
theory RT_Kservice
  imports RT_Prelude
begin

unbundle bit_operations_syntax

text \<open>
  The memory and string routines of \<open>src/kservice.c\<close>, on the byte-addressed memory of the processor: addresses are 32-bit words,
  a word is stored least significant byte first, \<open>char\<close> is unsigned and \<open>sizeof(long)\<close> is 4, as on the Cortex-M3.
  The routines that copy and fill by words are shown to be equal to plain descriptions of their effect, and the searches and
  comparisons to be those of the strings in memory.
\<close>

section \<open>Memory\<close>

type_synonym mem = "u32 \<Rightarrow> u8"

definition load_word :: "u32 \<Rightarrow> mem \<Rightarrow> u32" where
  "load_word a m = ucast (m a) OR push_bit 8 (ucast (m (a + 1))) OR push_bit 16 (ucast (m (a + 2))) OR push_bit 24 (ucast (m (a + 3)))"

definition store_word :: "u32 \<Rightarrow> u32 \<Rightarrow> mem \<Rightarrow> mem" where
  "store_word a w m =
    m(a := ucast w, a + 1 := ucast (drop_bit 8 w), a + 2 := ucast (drop_bit 16 w), a + 3 := ucast (drop_bit 24 w))"

text \<open>An array of words, stored from \<open>a\<close> on.\<close>

fun store_words :: "u32 \<Rightarrow> u32 list \<Rightarrow> mem \<Rightarrow> mem" where
  "store_words a [] m = m"
| "store_words a (w # ws) m = store_words (a + 4) ws (store_word a w m)"

section \<open>Operations\<close>

text \<open>The three loops of \<open>rt_memset\<close>: four words, one word and one byte at a time.\<close>

fun memset_quads :: "u32 \<Rightarrow> u32 \<Rightarrow> nat \<Rightarrow> mem \<Rightarrow> u32 \<times> nat \<times> mem" where
  "memset_quads buffer a count m =
    (if 16 \<le> count then
       let m = store_word a buffer m;
           m = store_word (a + 4) buffer m;
           m = store_word (a + 8) buffer m;
           m = store_word (a + 12) buffer m
       in memset_quads buffer (a + 16) (count - 16) m
     else (a, count, m))"

fun memset_words :: "u32 \<Rightarrow> u32 \<Rightarrow> nat \<Rightarrow> mem \<Rightarrow> u32 \<times> nat \<times> mem" where
  "memset_words buffer a count m =
    (if 4 \<le> count then memset_words buffer (a + 4) (count - 4) (store_word a buffer m) else (a, count, m))"

fun memset_bytes :: "u32 \<Rightarrow> u32 \<Rightarrow> nat \<Rightarrow> mem \<Rightarrow> mem" where
  "memset_bytes d a 0 m = m"
| "memset_bytes d a (Suc count) m = memset_bytes d (a + 1) count (m(a := ucast d))"

definition rt_memset :: "u32 \<Rightarrow> u32 \<Rightarrow> u32 \<Rightarrow> mem \<Rightarrow> u32 \<times> mem" where
  "rt_memset s c count m =
    (let d = c AND 0xFF;
         (a, n, m) =
           (if 4 \<le> count \<and> s AND 3 = 0 then
              let buffer = push_bit 8 d OR d;
                  buffer = buffer OR push_bit 16 buffer;
                  (a, n, m) = memset_quads buffer s (unat count) m
              in memset_words buffer a n m
            else (s, unat count, m))
     in (s, memset_bytes d a n m))"

text \<open>The three loops of \<open>rt_memcpy\<close>.\<close>

definition copy_word :: "u32 \<Rightarrow> u32 \<Rightarrow> mem \<Rightarrow> mem" where
  "copy_word d s m = store_word d (load_word s m) m"

fun memcpy_quads :: "u32 \<Rightarrow> u32 \<Rightarrow> nat \<Rightarrow> mem \<Rightarrow> u32 \<times> u32 \<times> nat \<times> mem" where
  "memcpy_quads d s len m =
    (if 16 \<le> len then
       let m = copy_word d s m;
           m = copy_word (d + 4) (s + 4) m;
           m = copy_word (d + 8) (s + 8) m;
           m = copy_word (d + 12) (s + 12) m
       in memcpy_quads (d + 16) (s + 16) (len - 16) m
     else (d, s, len, m))"

fun memcpy_words :: "u32 \<Rightarrow> u32 \<Rightarrow> nat \<Rightarrow> mem \<Rightarrow> u32 \<times> u32 \<times> nat \<times> mem" where
  "memcpy_words d s len m =
    (if 4 \<le> len then memcpy_words (d + 4) (s + 4) (len - 4) (copy_word d s m) else (d, s, len, m))"

fun memcpy_bytes :: "u32 \<Rightarrow> u32 \<Rightarrow> nat \<Rightarrow> mem \<Rightarrow> mem" where
  "memcpy_bytes d s 0 m = m"
| "memcpy_bytes d s (Suc len) m = memcpy_bytes (d + 1) (s + 1) len (m(d := m s))"

text \<open>\<open>len\<close> is an \<open>int\<close>, but compared with unsigned block sizes; it is the count as an unsigned number.\<close>

definition rt_memcpy :: "u32 \<Rightarrow> u32 \<Rightarrow> u32 \<Rightarrow> mem \<Rightarrow> u32 \<times> mem" where
  "rt_memcpy dst src count m =
    (let (d, s, n, m) =
       (if 16 \<le> count \<and> (src AND 3) OR (dst AND 3) = 0 then
          let (d, s, n, m) = memcpy_quads dst src (unat count) m in memcpy_words d s n m
        else (dst, src, unat count, m))
     in (dst, memcpy_bytes d s n m))"

fun memmove_back :: "u32 \<Rightarrow> u32 \<Rightarrow> nat \<Rightarrow> mem \<Rightarrow> mem" where
  "memmove_back tmp s 0 m = m"
| "memmove_back tmp s (Suc n) m = memmove_back (tmp - 1) (s - 1) n (m(tmp - 1 := m (s - 1)))"

definition rt_memmove :: "u32 \<Rightarrow> u32 \<Rightarrow> u32 \<Rightarrow> mem \<Rightarrow> u32 \<times> mem" where
  "rt_memmove dest src n m =
    (if src < dest \<and> dest < src + n then (dest, memmove_back (dest + n) (src + n) (unat n) m)
     else (dest, memcpy_bytes dest src (unat n) m))"

text \<open>The loop of \<open>rt_memcmp\<close>.\<close>

fun memcmp_loop :: "u32 \<Rightarrow> u32 \<Rightarrow> nat \<Rightarrow> mem \<Rightarrow> int" where
  "memcmp_loop su1 su2 0 m = 0"
| "memcmp_loop su1 su2 (Suc count) m =
    (let res = uint (m su1) - uint (m su2) in if res \<noteq> 0 then res else memcmp_loop (su1 + 1) (su2 + 1) count m)"

definition rt_memcmp :: "u32 \<Rightarrow> u32 \<Rightarrow> u32 \<Rightarrow> mem \<Rightarrow> int" where
  "rt_memcmp cs ct count m = memcmp_loop cs ct (unat count) m"

text \<open>Loops over a string end at its terminator; without one they do not end.\<close>

partial_function (option) strlen_loop :: "u32 \<Rightarrow> mem \<Rightarrow> u32 option" where
  "strlen_loop sc m = (if m sc \<noteq> 0 then strlen_loop (sc + 1) m else Some sc)"

definition rt_strlen :: "u32 \<Rightarrow> mem \<Rightarrow> u32 option" where
  "rt_strlen s m = map_option (\<lambda>sc. sc - s) (strlen_loop s m)"

partial_function (option) strnlen_loop :: "u32 \<Rightarrow> u32 \<Rightarrow> u32 \<Rightarrow> mem \<Rightarrow> u32 option" where
  "strnlen_loop s maxlen sc m = (if m sc \<noteq> 0 \<and> sc - s < maxlen then strnlen_loop s maxlen (sc + 1) m else Some sc)"

definition rt_strnlen :: "u32 \<Rightarrow> u32 \<Rightarrow> mem \<Rightarrow> u32 option" where
  "rt_strnlen s maxlen m = map_option (\<lambda>sc. sc - s) (strnlen_loop s maxlen s m)"

partial_function (option) rt_strcmp :: "u32 \<Rightarrow> u32 \<Rightarrow> mem \<Rightarrow> int option" where
  "rt_strcmp cs ct m = (if m cs \<noteq> 0 \<and> m cs = m ct then rt_strcmp (cs + 1) (ct + 1) m else Some (uint (m cs) - uint (m ct)))"

text \<open>The conversion of a letter to lower case in \<open>rt_strcasecmp\<close>.\<close>

definition lower :: "int \<Rightarrow> int" where
  "lower ca = (if 65 \<le> ca \<and> ca \<le> 90 then ca + (97 - 65) else ca)"

partial_function (option) rt_strcasecmp :: "u32 \<Rightarrow> u32 \<Rightarrow> mem \<Rightarrow> int option" where
  "rt_strcasecmp a b m =
    (let ca = lower (uint (m a)); cb = lower (uint (m b))
     in if ca = cb \<and> ca \<noteq> 0 then rt_strcasecmp (a + 1) (b + 1) m else Some (ca - cb))"

text \<open>The loop of \<open>rt_strstr\<close>; \<open>l1\<close> and \<open>l2\<close> are the lengths, 0 is \<open>RT_NULL\<close>.\<close>

function strstr_loop :: "u32 \<Rightarrow> u32 \<Rightarrow> int \<Rightarrow> int \<Rightarrow> mem \<Rightarrow> u32" where
  "strstr_loop s1 s2 l1 l2 m =
    (if l2 \<le> l1 then if rt_memcmp s1 s2 (word_of_int l2) m = 0 then s1 else strstr_loop (s1 + 1) s2 (l1 - 1) l2 m
     else 0)"
  by pat_completeness auto
termination by (relation "measure (\<lambda>(s1, s2, l1, l2, m). nat (l1 - l2 + 1))") auto

definition rt_strstr :: "u32 \<Rightarrow> u32 \<Rightarrow> mem \<Rightarrow> u32 option" where
  "rt_strstr s1 s2 m =
    do {
      l2 \<leftarrow> rt_strlen s2 m;
      if l2 = 0 then Some s1
      else do {
        l1 \<leftarrow> rt_strlen s1 m;
        Some (strstr_loop s1 s2 (sint l1) (sint l2) m)
      }
    }"

text \<open>The result \<open>tmp\<close> of \<open>rt_malloc\<close> is an argument.\<close>

definition rt_strdup :: "u32 \<Rightarrow> u32 \<Rightarrow> mem \<Rightarrow> (u32 \<times> mem) option" where
  "rt_strdup tmp s m =
    do {
      l \<leftarrow> rt_strlen s m;
      let len = l + 1;
      if tmp = 0 then Some (0, m) else Some (tmp, snd (rt_memcpy tmp s len m))
    }"

declare memset_quads.simps [simp del] memset_words.simps [simp del] memcpy_quads.simps [simp del] memcpy_words.simps [simp del]
  strstr_loop.simps [simp del]
declare strlen_loop.simps [code] strnlen_loop.simps [code] rt_strcmp.simps [code] rt_strcasecmp.simps [code]

section \<open>Filling\<close>

definition fill :: "u32 \<Rightarrow> nat \<Rightarrow> u8 \<Rightarrow> mem \<Rightarrow> mem" where
  "fill a n d m = (\<lambda>x. if unat (x - a) < n then d else m x)"

text \<open>Distances on the ring of addresses.\<close>

lemma unat_minus_step:
  fixes z :: u32
  assumes "k + n \<le> 2 ^ 32" "0 < n"
  shows "unat (z - word_of_nat k) < n \<longleftrightarrow> k \<le> unat z \<and> unat z < k + n"
proof -
  have k: "unat (word_of_nat k :: u32) = k" using assms by (simp add: unsigned_of_nat take_bit_nat_eq_self)
  show ?thesis
  proof (cases "k \<le> unat z")
    case True
    then have "unat (z - word_of_nat k) = unat z - k" using unat_sub [of "word_of_nat k" z] k by (simp add: word_le_nat_alt)
    then show ?thesis using True by auto
  next
    case False
    then have "unat (z - word_of_nat k) = 2 ^ 32 + unat z - k"
      using unat_sub_if' [of z "word_of_nat k"] k by simp
    then show ?thesis using False assms by simp
  qed
qed

lemma fill_0 [simp]: "fill a 0 d m = m"
  by (simp add: fill_def)

lemma distance_step:
  fixes x a :: u32
  assumes "k + n \<le> 2 ^ 32" "0 < n"
  shows "unat (x - (a + word_of_nat k)) < n \<longleftrightarrow> k \<le> unat (x - a) \<and> unat (x - a) < k + n"
  using unat_minus_step [OF assms, of "x - a"] by (simp only: diff_diff_eq)

lemma fill_fill:
  assumes "k + n \<le> 2 ^ 32"
  shows "fill (a + word_of_nat k) n d (fill a k d m) = fill a (k + n) d m"
proof (cases "n = 0")
  case False
  then have "unat (x - (a + word_of_nat k)) < n \<longleftrightarrow> k \<le> unat (x - a) \<and> unat (x - a) < k + n" for x
    by (intro distance_step [OF assms]) simp
  then show ?thesis unfolding fill_def fun_eq_iff by (auto simp only:) auto
qed simp

lemma fill_byte: "m(a := d) = fill a 1 d m"
proof
  fix x
  have "unat (x - a) < 1 \<longleftrightarrow> x = a" by (simp add: unat_eq_0)
  then show "(m(a := d)) x = fill a 1 d m x" by (simp add: fill_def)
qed

lemma fill_word: "m(a := d, a + 1 := d, a + 2 := d, a + 3 := d) = fill a 4 d m"
proof -
  have "m(a := d, a + 1 := d, a + 2 := d, a + 3 := d) = fill (a + 3) 1 d (fill (a + 2) 1 d (fill (a + 1) 1 d (fill a 1 d m)))"
    by (simp only: fill_byte)
  also have "\<dots> = fill a 4 d m"
    using fill_fill [of 1 1 a d m] fill_fill [of 2 1 a d m] fill_fill [of 3 1 a d m] by (simp flip: numeral_2_eq_2)
  finally show ?thesis .
qed

text \<open>The word of four equal bytes.\<close>

lemma store_buffer:
  fixes c :: u32
  defines "d \<equiv> c AND 0xFF"
  defines "b \<equiv> push_bit 8 d OR d"
  shows "store_word a (b OR push_bit 16 b) m = fill a 4 (ucast c) m"
proof -
  let ?w = "b OR push_bit 16 b"
  have "d = take_bit 8 c" by (simp add: d_def take_bit_eq_mask mask_numeral)
  then have d: "bit d n \<longleftrightarrow> bit c n \<and> n < 8" for n by (simp add: bit_take_bit_iff conj_commute)
  have md: "n mod 8 = n - 8" if "8 \<le> n" "n < 16" for n :: nat using that by (simp add: le_mod_geq)
  have b: "bit b n \<longleftrightarrow> n < 16 \<and> bit c (n mod 8)" for n
  proof -
    consider "n < 8" | "8 \<le> n" "n < 16" | "16 \<le> n" by linarith
    then show ?thesis
    proof cases
      case 2
      then have "n - 8 < 8" by simp
      then show ?thesis using 2 md by (simp add: b_def bit_or_iff bit_push_bit_iff d)
    qed (auto simp: b_def bit_or_iff bit_push_bit_iff d)
  qed
  have m16: "(n - 16) mod 8 = n mod 8" if "16 \<le> n" for n :: nat 
  proof -
    have "n = (n - 16) + 2 * 8" using that by simp
    then show ?thesis by (metis mod_mult_self1)
  qed
  have w: "bit ?w n \<longleftrightarrow> n < 32 \<and> bit c (n mod 8)" for n
    by (cases "n < 16"; cases "n < 32") (auto simp: bit_or_iff bit_push_bit_iff b m16)
  define v where "v = ?w"
  have v: "bit v n \<longleftrightarrow> n < 32 \<and> bit c (n mod 8)" for n unfolding v_def by (rule w)
  have "(ucast v :: u8) = ucast c" by (rule bit_word_eqI) (simp add: v bit_ucast_iff)
  moreover have "(ucast (drop_bit 8 v) :: u8) = ucast c" by (rule bit_word_eqI) (simp add: v bit_ucast_iff bit_drop_bit_eq)
  moreover have "(ucast (drop_bit 16 v) :: u8) = ucast c"
    by (rule bit_word_eqI) (use m16 [of "16 + _"] in \<open>simp add: v bit_ucast_iff bit_drop_bit_eq\<close>)
  moreover have "(ucast (drop_bit 24 v) :: u8) = ucast c"
    by (rule bit_word_eqI) (use m16 [of "24 + _"] in \<open>simp add: v bit_ucast_iff bit_drop_bit_eq\<close>)
  ultimately show ?thesis unfolding store_word_def fill_word [symmetric] v_def by simp
qed

text \<open>
  A loop that handles a stretch of \<open>N\<close> bytes in blocks: \<open>D k\<close> is the memory after the first \<open>k\<close> bytes. What is left
  is the remainder of the division by the size of a block.
\<close>

lemma of_nat_add_numeral: "a + word_of_nat k + numeral w = (a + word_of_nat (numeral w + k) :: u32)"
  by (simp add: ac_simps)

lemma memset_words_eq:
  assumes D: "\<And>k. k + 4 \<le> N \<Longrightarrow> store_word (a + word_of_nat k) buffer (D k) = D (k + 4)"
  shows "k + count = N \<Longrightarrow> memset_words buffer (a + word_of_nat k) count (D k) =
    (a + word_of_nat (N - count mod 4), count mod 4, D (N - count mod 4))"
proof (induction count arbitrary: k rule: less_induct)
  case (less count)
  show ?case
  proof (cases "4 \<le> count")
    case True
    then show ?thesis
      using less.IH [of "count - 4" "k + 4"] less.prems le_mod_geq [OF True] D [of k] add.commute [of k]
      by (subst memset_words.simps) (simp add: of_nat_add_numeral del: of_nat_add)
  qed (use less.prems in \<open>subst memset_words.simps, auto\<close>)
qed

lemma memset_quads_eq:
  assumes D: "\<And>k. k + 4 \<le> N \<Longrightarrow> store_word (a + word_of_nat k) buffer (D k) = D (k + 4)"
  shows "k + count = N \<Longrightarrow> memset_quads buffer (a + word_of_nat k) count (D k) =
    (a + word_of_nat (N - count mod 16), count mod 16, D (N - count mod 16))"
proof (induction count arbitrary: k rule: less_induct)
  case (less count)
  show ?case
  proof (cases "16 \<le> count")
    case True
    then show ?thesis
      using less.IH [of "count - 16" "k + 16"] less.prems le_mod_geq [OF True] D [of k] D [of "k + 4"] D [of "k + 8"] D [of "k + 12"] add.commute [of k]
      by (subst memset_quads.simps) (simp add: of_nat_add_numeral del: of_nat_add)
  qed (use less.prems in \<open>subst memset_quads.simps, auto\<close>)
qed

lemma memset_bytes_eq: "k + count \<le> 2 ^ 32 \<Longrightarrow> memset_bytes d (a + word_of_nat k) count (fill a k (ucast d) m) = fill a (k + count) (ucast d) m"
proof (induction count arbitrary: k)
  case (Suc count)
  have "(fill a k (ucast d) m)(a + word_of_nat k := ucast d) = fill a (k + 1) (ucast d) m"
    unfolding fill_byte using fill_fill [of k 1 a "ucast d" m] Suc.prems by simp
  then show ?case using Suc.IH [of "k + 1"] Suc.prems by (simp add: ac_simps)
qed simp

lemma rt_memset_fill: "rt_memset s c count m = (s, fill s (unat count) (ucast c) m)"
proof -
  let ?b = "push_bit 8 (c AND 0xFF) OR (c AND 0xFF)" and ?n = "unat count"
  let ?w = "?b OR push_bit 16 ?b" and ?D = "\<lambda>k. fill s k (ucast c) m"
  have n: "?n < 2 ^ 32" using unat_less_32 [of count] by simp
  have D: "store_word (s + word_of_nat k) ?w (?D k) = ?D (k + 4)" if "k + 4 \<le> ?n" for k
    unfolding store_buffer using fill_fill [of k 4 s "ucast c" m] that n by simp
  have "c AND 0xFF = take_bit 8 c" by (simp add: take_bit_eq_mask mask_numeral)
  then have u: "(ucast (c AND 0xFF) :: u8) = ucast c" by (auto intro!: bit_word_eqI simp: bit_simps)
  have bytes: "memset_bytes (c AND 0xFF) (s + word_of_nat k) (?n - k) (?D k) = ?D ?n" if "k \<le> ?n" for k
    using memset_bytes_eq [of k "?n - k" "c AND 0xFF" s m] that n u by simp
  show ?thesis
  proof (cases "4 \<le> count \<and> s AND 3 = 0")
    case True
    let ?q = "?n - ?n mod 16"
    have q: "?q + ?n mod 16 = ?n" by simp
    have "memset_quads ?w s ?n m = (s + word_of_nat ?q, ?n mod 16, ?D ?q)"
      using memset_quads_eq [where k = 0 and count = ?n and D = ?D, OF D] by simp
    moreover have "memset_words ?w (s + word_of_nat ?q) (?n mod 16) (?D ?q) =
        (s + word_of_nat (?n - ?n mod 16 mod 4), ?n mod 16 mod 4, ?D (?n - ?n mod 16 mod 4))"
      by (rule memset_words_eq [where D = ?D, OF D q])
    moreover have "?n mod 16 mod 4 \<le> ?n" by (meson le_trans mod_less_eq_dividend)
    ultimately show ?thesis using True bytes [of "?n - ?n mod 16 mod 4"] by (simp add: rt_memset_def Let_def)
  next
    case False
    then show ?thesis using bytes [of 0] unfolding rt_memset_def Let_def by auto
  qed
qed

section \<open>Copying\<close>

definition copy :: "u32 \<Rightarrow> u32 \<Rightarrow> nat \<Rightarrow> mem \<Rightarrow> mem" where
  "copy d s n m = (\<lambda>x. if unat (x - d) < n then m (s + (x - d)) else m x)"

lemma copy_0 [simp]: "copy d s 0 m = m"
  by (simp add: copy_def)

text \<open>
  A copy in ascending order is a copy of the original content if no byte is overwritten before it is read: the distance from the
  destination up to the source, plus the length, does not reach around the address space. This holds if the areas do not
  overlap and also if the destination is the lower one.
\<close>

lemma copy_copy:
  assumes kn: "k + n \<le> 2 ^ 32" and ap: "unat (s - d) + (k + n) \<le> 2 ^ 32"
  shows "copy (d + word_of_nat k) (s + word_of_nat k) n (copy d s k m) = copy d s (k + n) m"
proof (cases "n = 0")
  case False
  show ?thesis
  proof
    fix x
    have st: "unat (x - (d + word_of_nat k)) < n \<longleftrightarrow> k \<le> unat (x - d) \<and> unat (x - d) < k + n"
      using False by (intro distance_step [OF kn]) simp
    show "copy (d + word_of_nat k) (s + word_of_nat k) n (copy d s k m) x = copy d s (k + n) m x"
    proof (cases "k \<le> unat (x - d) \<and> unat (x - d) < k + n")
      case True
      let ?y = "s + (x - d)"
      have "?y - d = (s - d) + (x - d)" by simp
      moreover have "unat ((s - d) + (x - d)) = unat (s - d) + unat (x - d)"
        unfolding unat_word_ariths(1) using True ap by simp
      ultimately have "unat (?y - d) = unat (s - d) + unat (x - d)" by simp
      then have "copy d s k m ?y = m ?y" using True by (simp add: copy_def)
      moreover have "s + word_of_nat k + (x - (d + word_of_nat k)) = ?y" by simp
      ultimately show ?thesis using True st unfolding copy_def [of "d + word_of_nat k"] by (simp add: copy_def)
    next
      case False
      then show ?thesis unfolding copy_def [of "d + word_of_nat k"] st by (auto simp: copy_def)
    qed
  qed
qed simp

lemma copy_byte: "m(d := m s) = copy d s 1 m"
proof
  fix x
  have "unat (x - d) < 1 \<longleftrightarrow> x = d" by (simp add: unat_eq_0)
  then show "(m(d := m s)) x = copy d s 1 m x" by (auto simp: copy_def)
qed

lemma bit_load_word:
  "bit (load_word s m) n \<longleftrightarrow> n < 8 \<and> bit (m s) n \<or> 8 \<le> n \<and> n < 16 \<and> bit (m (s + 1)) (n - 8) \<or>
    16 \<le> n \<and> n < 24 \<and> bit (m (s + 2)) (n - 16) \<or> 24 \<le> n \<and> n < 32 \<and> bit (m (s + 3)) (n - 24)"
proof -
  have z: "bit (x :: u8) i \<Longrightarrow> i < 8" for x i using bit_imp_le_length [of x i] by simp
  show ?thesis by (auto simp: load_word_def bit_or_iff bit_push_bit_iff bit_ucast_iff dest: z)
qed

lemma load_word_bytes:
  "ucast (load_word s m) = m s" "ucast (drop_bit 8 (load_word s m)) = m (s + 1)"
  "ucast (drop_bit 16 (load_word s m)) = m (s + 2)" "ucast (drop_bit 24 (load_word s m)) = m (s + 3)"
  by (rule bit_word_eqI; simp add: bit_ucast_iff bit_drop_bit_eq bit_load_word)+

lemma load_store_word: "load_word a (store_word a w m) = w"
proof (rule bit_word_eqI)
  fix n assume "n < LENGTH(32)"
  then consider "n < 8" | "8 \<le> n" "n < 16" | "16 \<le> n" "n < 24" | "24 \<le> n" "n < 32" by fastforce
  then show "bit (load_word a (store_word a w m)) n = bit w n"
    unfolding bit_load_word by cases (auto simp: store_word_def bit_ucast_iff bit_drop_bit_eq)
qed

lemma unat_less_4: "unat (z :: u32) < 4 \<longleftrightarrow> z = 0 \<or> z = 1 \<or> z = 2 \<or> z = 3"
  by (auto simp: word_unat_eq_iff)

lemma store_word_outside: "4 \<le> unat (x - a) \<Longrightarrow> store_word a w m x = m x"
  by (auto simp: store_word_def)

lemma store_words_outside:
  "4 * length ws \<le> unat (x - a) \<Longrightarrow> store_words a ws m x = m x"
proof (induction ws arbitrary: a m)
  case (Cons w ws)
  have "unat (x - (a + 4)) = unat (x - a) - 4"
    using Cons.prems unat_sub [of 4 "x - a"] by (simp add: word_le_nat_alt diff_diff_eq)
  then show ?case using Cons store_word_outside [of x a w m] by simp
qed simp

lemma load_word_cong:
  assumes "\<And>j. unat (j :: u32) < 4 \<Longrightarrow> m (a + j) = m' (a + j)"
  shows "load_word a m = load_word a m'"
  using assms [of 0] assms [of 1] assms [of 2] assms [of 3] by (simp add: load_word_def)

text \<open>Reading back a word of the array, and reading a word outside it.\<close>

lemma load_words_outside:
  assumes "unat (b - a) + 4 \<le> 2 ^ 32" "4 * length ws \<le> unat (b - a)"
  shows "load_word b (store_words a ws m) = load_word b m"
proof (rule load_word_cong)
  fix j :: u32 assume j: "unat j < 4"
  have "b + j - a = (b - a) + j" by simp
  moreover have "unat ((b - a) + j) = unat (b - a) + unat j"
    using assms(1) j unfolding unat_word_ariths(1) by (intro mod_less) simp
  ultimately have "4 * length ws \<le> unat (b + j - a)" using assms(2) by (simp only:)
  then show "store_words a ws m (b + j) = m (b + j)" by (rule store_words_outside)
qed

lemma load_store_words:
  assumes "i < length ws" "4 * length ws \<le> 2 ^ 32"
  shows "load_word (a + word_of_nat (4 * i)) (store_words a ws m) = ws ! i"
  using assms
proof (induction ws arbitrary: a i m)
  case (Cons w ws)
  show ?case
  proof (cases i)
    case 0
    have "a - (a + 4) = - 4" by simp
    then have "unat (a - (a + 4)) = 2 ^ 32 - 4" by (simp only:) simp
    then have "load_word a (store_words (a + 4) ws (store_word a w m)) = load_word a (store_word a w m)"
      using Cons.prems by (intro load_words_outside) simp_all
    then show ?thesis using 0 by (simp add: load_store_word)
  next
    case (Suc n)
    then show ?thesis using Cons.IH [of n "a + 4" "store_word a w m"] Cons.prems by (simp add: ac_simps)
  qed
qed simp

lemma copy_word_eq: "copy_word d s m = copy d s 4 m"
proof -
  have c: "unat (x - d) < 4 \<longleftrightarrow> x = d \<or> x = d + 1 \<or> x = d + 2 \<or> x = d + 3" for x
    unfolding unat_less_4 by (auto simp: diff_eq_eq add.commute)
  show ?thesis unfolding copy_word_def store_word_def load_word_bytes by (auto simp: copy_def c fun_eq_iff)
qed

lemma memcpy_words_eq:
  assumes D: "\<And>k. k + 4 \<le> N \<Longrightarrow> copy_word (d + word_of_nat k) (s + word_of_nat k) (D k) = D (k + 4)"
  shows "k + len = N \<Longrightarrow> memcpy_words (d + word_of_nat k) (s + word_of_nat k) len (D k) =
    (d + word_of_nat (N - len mod 4), s + word_of_nat (N - len mod 4), len mod 4, D (N - len mod 4))"
proof (induction len arbitrary: k rule: less_induct)
  case (less len)
  show ?case
  proof (cases "4 \<le> len")
    case True
    then show ?thesis
      using less.IH [of "len - 4" "k + 4"] less.prems le_mod_geq [OF True] D [of k] add.commute [of k]
      by (subst memcpy_words.simps) (simp add: of_nat_add_numeral del: of_nat_add)
  qed (use less.prems in \<open>subst memcpy_words.simps, auto\<close>)
qed

lemma memcpy_quads_eq:
  assumes D: "\<And>k. k + 4 \<le> N \<Longrightarrow> copy_word (d + word_of_nat k) (s + word_of_nat k) (D k) = D (k + 4)"
  shows "k + len = N \<Longrightarrow> memcpy_quads (d + word_of_nat k) (s + word_of_nat k) len (D k) =
    (d + word_of_nat (N - len mod 16), s + word_of_nat (N - len mod 16), len mod 16, D (N - len mod 16))"
proof (induction len arbitrary: k rule: less_induct)
  case (less len)
  show ?case
  proof (cases "16 \<le> len")
    case True
    then show ?thesis
      using less.IH [of "len - 16" "k + 16"] less.prems le_mod_geq [OF True] D [of k] D [of "k + 4"] D [of "k + 8"] D [of "k + 12"]
        add.commute [of k]
      by (subst memcpy_quads.simps) (simp add: of_nat_add_numeral del: of_nat_add)
  qed (use less.prems in \<open>subst memcpy_quads.simps, auto\<close>)
qed

lemma memcpy_bytes_eq:
  "k + len \<le> 2 ^ 32 \<Longrightarrow> unat (s - d) + (k + len) \<le> 2 ^ 32 \<Longrightarrow>
    memcpy_bytes (d + word_of_nat k) (s + word_of_nat k) len (copy d s k m) = copy d s (k + len) m"
proof (induction len arbitrary: k)
  case (Suc len)
  have "(copy d s k m)(d + word_of_nat k := copy d s k m (s + word_of_nat k)) = copy d s (k + 1) m"
    unfolding copy_byte using copy_copy [of k 1 s d m] Suc.prems by simp
  then show ?case using Suc.IH [of "k + 1"] Suc.prems by (simp add: ac_simps)
qed simp

lemma rt_memcpy_copy:
  assumes ap: "unat (src - dst) + unat count \<le> 2 ^ 32"
  shows "rt_memcpy dst src count m = (dst, copy dst src (unat count) m)"
proof -
  let ?n = "unat count" and ?D = "\<lambda>k. copy dst src k m"
  have n: "?n < 2 ^ 32" using unat_less_32 [of count] by simp
  have D: "copy_word (dst + word_of_nat k) (src + word_of_nat k) (?D k) = ?D (k + 4)" if "k + 4 \<le> ?n" for k
    unfolding copy_word_eq using copy_copy [of k 4 src dst m] that n ap by simp
  have bytes: "memcpy_bytes (dst + word_of_nat k) (src + word_of_nat k) (?n - k) (?D k) = ?D ?n" if "k \<le> ?n" for k
    using memcpy_bytes_eq [of k "?n - k" src dst m] that n ap by simp
  show ?thesis
  proof (cases "16 \<le> count \<and> (src AND 3) OR (dst AND 3) = 0")
    case True
    let ?q = "?n - ?n mod 16"
    have q: "?q + ?n mod 16 = ?n" by simp
    have "memcpy_quads dst src ?n m = (dst + word_of_nat ?q, src + word_of_nat ?q, ?n mod 16, ?D ?q)"
      using memcpy_quads_eq [where k = 0 and len = ?n and D = ?D, OF D] by simp
    moreover have "memcpy_words (dst + word_of_nat ?q) (src + word_of_nat ?q) (?n mod 16) (?D ?q) =
        (dst + word_of_nat (?n - ?n mod 16 mod 4), src + word_of_nat (?n - ?n mod 16 mod 4), ?n mod 16 mod 4, ?D (?n - ?n mod 16 mod 4))"
      by (rule memcpy_words_eq [where D = ?D, OF D q])
    moreover have "?n mod 16 mod 4 \<le> ?n" by (meson le_trans mod_less_eq_dividend)
    ultimately show ?thesis using True bytes [of "?n - ?n mod 16 mod 4"] by (simp add: rt_memcpy_def Let_def)
  next
    case False
    then show ?thesis using bytes [of 0] unfolding rt_memcpy_def Let_def by auto
  qed
qed

text \<open>A copy in descending order.\<close>

lemma memmove_back_eq:
  "unat (d - s) + n \<le> 2 ^ 32 \<Longrightarrow> memmove_back (d + word_of_nat n) (s + word_of_nat n) n m = copy d s n m"
proof (induction n arbitrary: m)
  case (Suc n)
  let ?m = "m(d + word_of_nat n := m (s + word_of_nat n))"
  have nn: "unat (word_of_nat n :: u32) = n" using Suc.prems by (simp add: unsigned_of_nat take_bit_nat_eq_self)
  have "copy d s n ?m = copy d s (Suc n) m"
  proof
    fix x
    have "?m (s + (x - d)) = m (s + (x - d))" if "unat (x - d) < n"
    proof -
      have "s + (x - d) \<noteq> d + word_of_nat n"
      proof
        assume "s + (x - d) = d + word_of_nat n"
        then have e: "x - d = (d - s) + word_of_nat n" by (simp add: algebra_simps)
        have "unat ((d - s) + word_of_nat n) = unat (d - s) + n"
          unfolding unat_word_ariths(1) nn using Suc.prems by simp
        then show False using that unfolding e by linarith
      qed
      then show ?thesis by simp
    qed
    moreover have "unat (x - d) = n \<longleftrightarrow> x = d + word_of_nat n" using nn by (metis add.commute diff_add_cancel add_diff_cancel_left' word_unat_eq_iff)
    ultimately show "copy d s n ?m x = copy d s (Suc n) m x" by (auto simp: copy_def less_Suc_eq)
  qed
  moreover have "memmove_back (d + word_of_nat n) (s + word_of_nat n) n ?m = copy d s n ?m"
    by (rule Suc.IH) (use Suc.prems in simp)
  moreover have "d + word_of_nat (Suc n) - 1 = d + word_of_nat n" "s + word_of_nat (Suc n) - 1 = s + word_of_nat n" by simp_all
  ultimately show ?case by (simp only: memmove_back.simps)
qed simp

lemma rt_memmove_copy:
  assumes "unat src + unat n < 2 ^ 32" "unat dest + unat n \<le> 2 ^ 32"
  shows "rt_memmove dest src n m = (dest, copy dest src (unat n) m)"
proof -
  have sn: "unat (src + n) = unat src + unat n" using assms(1) by (simp add: unat_word_ariths)
  show ?thesis
  proof (cases "src < dest \<and> dest < src + n")
    case True
    then have "unat (dest - src) = unat dest - unat src" by (intro unat_sub) auto
    then have "unat (dest - src) + unat n \<le> 2 ^ 32" using assms True by (simp add: word_less_nat_alt)
    then show ?thesis using True memmove_back_eq [of dest src "unat n" m] by (simp add: rt_memmove_def)
  next
    case False
    then consider "dest \<le> src" | "src < dest" "src + n \<le> dest" by fastforce
    then have "unat (src - dest) + unat n \<le> 2 ^ 32"
    proof cases
      case 1
      then show ?thesis using assms unat_sub [OF 1] by (simp add: word_le_nat_alt)
    next
      case 2
      then show ?thesis using sn unat_sub_if' [of src dest] unat_less_32 [of dest] by (simp add: word_le_nat_alt word_less_nat_alt)
    qed
    then show ?thesis using False memcpy_bytes_eq [of 0 "unat n" src dest m] unat_less_32 [of n] by (auto simp: rt_memmove_def)
  qed
qed

section \<open>Strings in memory\<close>

text \<open>The characters of the string at an address.\<close>

fun str_at :: "mem \<Rightarrow> u32 \<Rightarrow> u8 list \<Rightarrow> bool" where
  "str_at m a [] \<longleftrightarrow> m a = 0"
| "str_at m a (c # cs) \<longleftrightarrow> m a = c \<and> c \<noteq> 0 \<and> str_at m (a + 1) cs"

lemma strlen_loop_eq: "str_at m a cs \<Longrightarrow> strlen_loop a m = Some (a + word_of_nat (length cs))"
proof (induction cs arbitrary: a)
  case (Cons c cs)
  then show ?case by (subst strlen_loop.simps) (simp add: add.assoc)
qed (subst strlen_loop.simps, simp)

lemma rt_strlen_eq: "str_at m a cs \<Longrightarrow> rt_strlen a m = Some (word_of_nat (length cs))"
  by (simp add: rt_strlen_def strlen_loop_eq)

lemma rt_strcmp_eq:
  "str_at m a cs \<Longrightarrow> str_at m b ds \<Longrightarrow> \<exists>r. rt_strcmp a b m = Some r \<and> (r = 0 \<longleftrightarrow> cs = ds) \<and> (r < 0 \<longleftrightarrow> ord_class.lexordp cs ds)"
proof (induction cs arbitrary: a b ds)
  case Nil
  have "uint c \<noteq> 0 \<and> 0 < uint c" if "c \<noteq> 0" for c :: u8 
    using that unsigned_eq_0_iff [of c, where ?'a = int] uint_ge_0 [of c] by linarith
  then show ?case using Nil by (subst rt_strcmp.simps, cases ds) (auto simp: word_less_def)
next
  case (Cons c cs)
  show ?case
  proof (cases "\<exists>ds'. ds = c # ds'")
    case True
    then obtain ds' where ds: "ds = c # ds'" by blast
    have "rt_strcmp a b m = rt_strcmp (a + 1) (b + 1) m" using Cons.prems ds by (subst rt_strcmp.simps) simp
    then show ?thesis using Cons.IH [of "a + 1" "b + 1" ds'] Cons.prems ds by simp
  next
    case False
    have d: "m b = (case ds of [] \<Rightarrow> 0 | d # _ \<Rightarrow> d)" using Cons.prems by (cases ds) auto
    then have "m a \<noteq> m b" using False Cons.prems by (cases ds) auto
    then have "rt_strcmp a b m = Some (uint (m a) - uint (m b))" by (subst rt_strcmp.simps) simp
    moreover have "uint (m a) - uint (m b) = 0 \<longleftrightarrow> m a = m b" by (simp add: word_uint_eq_iff)
    moreover have "uint (m a) - uint (m b) < 0 \<longleftrightarrow> m a < m b" by (simp add: word_less_def)
    ultimately show ?thesis using False Cons.prems d \<open>m a \<noteq> m b\<close> by (cases ds) auto
  qed
qed

lemma lower_0: "lower (uint c) = 0 \<longleftrightarrow> c = (0 :: u8)"
  using unsigned_eq_0_iff [of c, where ?'a = int] uint_ge_0 [of c] by (auto simp: lower_def)

lemma rt_strcasecmp_eq:
  "str_at m a cs \<Longrightarrow> str_at m b ds \<Longrightarrow>
    \<exists>r. rt_strcasecmp a b m = Some r \<and> (r = 0 \<longleftrightarrow> map (lower \<circ> uint) cs = map (lower \<circ> uint) ds)"
proof (induction cs arbitrary: a b ds)
  case Nil
  then show ?case using lower_0 [of "m b"] lower_0 [of 0] by (subst rt_strcasecmp.simps, cases ds) auto
next
  case (Cons c cs)
  have ca: "lower (uint (m a)) \<noteq> 0" "m a = c" using Cons.prems lower_0 by auto
  show ?case
  proof (cases "\<exists>d ds'. ds = d # ds' \<and> lower (uint c) = lower (uint d)")
    case True
    then obtain d ds' where ds: "ds = d # ds'" "lower (uint c) = lower (uint d)" by blast
    have "rt_strcasecmp a b m = rt_strcasecmp (a + 1) (b + 1) m" using Cons.prems ds ca by (subst rt_strcasecmp.simps) (simp add: Let_def)
    then show ?thesis using Cons.IH [of "a + 1" "b + 1" ds'] Cons.prems ds by simp
  next
    case False
    then have "lower (uint (m a)) \<noteq> lower (uint (m b))" using Cons.prems ca lower_0 [of "m b"] by (cases ds) auto
    then show ?thesis using False Cons.prems by (subst rt_strcasecmp.simps, cases ds) (auto simp: Let_def)
  qed
qed

lemma memcmp_loop_0: "memcmp_loop a b n m = 0 \<longleftrightarrow> (\<forall>i<n. m (a + word_of_nat i) = m (b + word_of_nat i))"
proof (induction n arbitrary: a b)
  case (Suc n)
  have "(\<forall>i<Suc n. m (a + word_of_nat i) = m (b + word_of_nat i)) \<longleftrightarrow>
      m a = m b \<and> (\<forall>i<n. m (a + 1 + word_of_nat i) = m (b + 1 + word_of_nat i))"
    by (simp add: All_less_Suc2 add.assoc)
  then show ?case using Suc by (simp add: Let_def word_uint_eq_iff)
qed simp

lemma str_at_nth: "str_at m a cs \<Longrightarrow> i < length cs \<Longrightarrow> m (a + word_of_nat i) = cs ! i"
proof (induction cs arbitrary: a i)
  case (Cons c cs)
  then show ?case using Cons.IH [of "a + 1"] by (cases i) (auto simp: add.assoc)
qed simp

lemma str_at_drop: "str_at m a cs \<Longrightarrow> i \<le> length cs \<Longrightarrow> str_at m (a + word_of_nat i) (drop i cs)"
proof (induction cs arbitrary: a i)
  case (Cons c cs)
  then show ?case using Cons.IH [of "a + 1"] by (cases i) (auto simp: add.assoc)
qed simp

lemma memcmp_prefix:
  assumes "str_at m a cs" "str_at m b ds" "length ds \<le> length cs" "length ds < 2 ^ 32"
  shows "rt_memcmp a b (word_of_nat (length ds)) m = 0 \<longleftrightarrow> take (length ds) cs = ds"
proof -
  have "unat (word_of_nat (length ds) :: u32) = length ds" using assms(4) by (simp add: unsigned_of_nat take_bit_nat_eq_self)
  then have "rt_memcmp a b (word_of_nat (length ds)) m = 0 \<longleftrightarrow> (\<forall>i<length ds. cs ! i = ds ! i)"
    using str_at_nth [OF assms(1)] str_at_nth [OF assms(2)] assms(3) by (simp add: rt_memcmp_def memcmp_loop_0)
  also have "\<dots> \<longleftrightarrow> take (length ds) cs = ds" using assms(3) by (auto simp: list_eq_iff_nth_eq)
  finally show ?thesis .
qed

lemma strstr_loop_eq:
  assumes b: "str_at m b ds" and l: "length ds < 2 ^ 31"
  shows "str_at m a cs \<Longrightarrow> length cs < 2 ^ 31 \<Longrightarrow>
    (\<exists>i. take (length ds) (drop i cs) = ds \<and> (\<forall>j<i. take (length ds) (drop j cs) \<noteq> ds) \<and> i + length ds \<le> length cs \<and>
      strstr_loop a b (int (length cs)) (int (length ds)) m = a + word_of_nat i) \<or>
    (\<forall>i. i + length ds \<le> length cs \<longrightarrow> take (length ds) (drop i cs) \<noteq> ds) \<and>
      strstr_loop a b (int (length cs)) (int (length ds)) m = 0"
proof (induction cs arbitrary: a)
  case Nil
  show ?case
  proof (cases ds)
    case Nil
    then show ?thesis by (subst strstr_loop.simps) (auto simp: rt_memcmp_def)
  next
    case (Cons d ds')
    then show ?thesis by (subst strstr_loop.simps) auto
  qed
next
  case (Cons c cs)
  let ?l = "length ds" and ?cs = "c # cs"
  consider (short) "length ?cs < ?l" | (here) "?l \<le> length ?cs" "take ?l ?cs = ds" | (later) "?l \<le> length ?cs" "take ?l ?cs \<noteq> ds" by linarith
  then show ?case
  proof cases
    case short
    then show ?thesis by (subst strstr_loop.simps) auto
  next
    case here
    then have "strstr_loop a b (int (length ?cs)) (int ?l) m = a"
      using memcmp_prefix [OF Cons.prems(1) b] l by (subst strstr_loop.simps) simp
    then show ?thesis using here by (intro disjI1 exI [of _ 0]) simp
  next
    case later
    then have e: "strstr_loop a b (int (length ?cs)) (int ?l) m = strstr_loop (a + 1) b (int (length cs)) (int ?l) m"
      using memcmp_prefix [OF Cons.prems(1) b] l by (subst strstr_loop.simps) simp
    have "str_at m (a + 1) cs" "length cs < 2 ^ 31" using Cons.prems by simp_all
    from Cons.IH [OF this] show ?thesis
    proof
      assume "\<exists>i. take ?l (drop i cs) = ds \<and> (\<forall>j<i. take ?l (drop j cs) \<noteq> ds) \<and> i + ?l \<le> length cs \<and>
        strstr_loop (a + 1) b (int (length cs)) (int ?l) m = a + 1 + word_of_nat i"
      then obtain i where "take ?l (drop i cs) = ds" "\<forall>j<i. take ?l (drop j cs) \<noteq> ds" "i + ?l \<le> length cs"
        "strstr_loop (a + 1) b (int (length cs)) (int ?l) m = a + 1 + word_of_nat i" by blast
      then show ?thesis using e later(2) by (intro disjI1 exI [of _ "Suc i"]) (auto simp: All_less_Suc2 add.assoc)
    next
      assume n: "(\<forall>i. i + ?l \<le> length cs \<longrightarrow> take ?l (drop i cs) \<noteq> ds) \<and> strstr_loop (a + 1) b (int (length cs)) (int ?l) m = 0"
      have "take ?l (drop i ?cs) \<noteq> ds" if "i + ?l \<le> length ?cs" for i using n later(2) that by (cases i) auto
      then show ?thesis using n e by simp
    qed
  qed
qed

lemma sint_length: "n < 2 ^ 31 \<Longrightarrow> sint (word_of_nat n :: u32) = int n"
  by (simp add: signed_of_nat signed_take_bit_int_eq_self)

lemma strnlen_loop_eq:
  "str_at m (a + word_of_nat k) cs \<Longrightarrow> k + length cs < 2 ^ 32 \<Longrightarrow> k \<le> unat maxlen \<Longrightarrow>
    strnlen_loop a maxlen (a + word_of_nat k) m = Some (a + word_of_nat (min (k + length cs) (unat maxlen)))"
proof (induction cs arbitrary: k)
  case Nil
  then show ?case by (subst strnlen_loop.simps) (simp add: min_def)
next
  case (Cons c cs)
  have k: "unat (word_of_nat k :: u32) = k" using Cons.prems by (simp add: unsigned_of_nat take_bit_nat_eq_self)
  have s: "str_at m (a + word_of_nat (k + 1)) cs" using Cons.prems(1) by (simp add: ac_simps)
  show ?case
  proof (cases "k < unat maxlen")
    case True
    then have "strnlen_loop a maxlen (a + word_of_nat k) m = strnlen_loop a maxlen (a + word_of_nat (k + 1)) m"
      using Cons.prems(1) k by (subst strnlen_loop.simps) (simp add: word_less_nat_alt ac_simps)
    then show ?thesis using Cons.IH [OF s] Cons.prems True by simp
  next
    case False
    then show ?thesis using Cons.prems(1,3) k by (subst strnlen_loop.simps) (simp add: word_less_nat_alt)
  qed
qed

lemma rt_strnlen_eq:
  "str_at m a cs \<Longrightarrow> length cs < 2 ^ 32 \<Longrightarrow> rt_strnlen a maxlen m = Some (word_of_nat (min (length cs) (unat maxlen)))"
  using strnlen_loop_eq [of m a 0 cs maxlen] by (simp add: rt_strnlen_def)

section \<open>Correctness\<close>

text \<open>
  \<open>rt_memset\<close>, by blocks of words, single words and bytes, fills exactly the given bytes with the low byte of \<open>c\<close>.
\<close>

theorem rt_memset_correct:
  "rt_memset s c count m = (s, \<lambda>x. if unat (x - s) < unat count then ucast c else m x)"
  unfolding rt_memset_fill fill_def ..

text \<open>
  \<open>rt_memmove\<close> copies the original content between any two areas that do not wrap around the address space;
  \<open>rt_memcpy\<close>, by blocks of words, single words and bytes, does the same if no byte of the source is overwritten before it is
  read: the areas do not overlap or the destination is the lower one.
\<close>

theorem rt_memmove_correct:
  assumes "unat src + unat n < 2 ^ 32" "unat dst + unat n < 2 ^ 32"
  shows "rt_memmove dst src n m = (dst, \<lambda>x. if unat (x - dst) < unat n then m (src + (x - dst)) else m x) \<and>
    (dst \<le> src \<or> src + n \<le> dst \<longrightarrow>
      rt_memcpy dst src n m = (dst, \<lambda>x. if unat (x - dst) < unat n then m (src + (x - dst)) else m x))"
proof -
  have "unat (src - dst) + unat n \<le> 2 ^ 32" if "dst \<le> src \<or> src + n \<le> dst"
  proof (cases "dst \<le> src")
    case True
    then show ?thesis using assms unat_sub [OF True] by (simp add: word_le_nat_alt)
  next
    case False
    moreover have "unat (src + n) = unat src + unat n" using assms(1) by (simp add: unat_word_ariths)
    ultimately show ?thesis using that unat_sub_if' [of src dst] unat_less_32 [of dst] by (simp add: word_le_nat_alt)
  qed
  then show ?thesis using rt_memmove_copy [of src n dst m] rt_memcpy_copy [of src dst n m] assms by (simp add: copy_def)
qed

text \<open>
  \<open>rt_strstr\<close> on two strings shorter than \<open>2 ^ 31\<close> returns the first position at which the second occurs in the first,
  or null if there is none.
\<close>

theorem rt_strstr_correct:
  assumes "str_at m s1 cs" "str_at m s2 ds" "length cs < 2 ^ 31" "length ds < 2 ^ 31"
  shows "(\<exists>i. rt_strstr s1 s2 m = Some (s1 + word_of_nat i) \<and> i + length ds \<le> length cs \<and> take (length ds) (drop i cs) = ds \<and>
      (\<forall>j<i. take (length ds) (drop j cs) \<noteq> ds)) \<or>
    rt_strstr s1 s2 m = Some 0 \<and> (\<forall>i. i + length ds \<le> length cs \<longrightarrow> take (length ds) (drop i cs) \<noteq> ds)"
proof (cases "ds = []")
  case True
  then have "rt_strstr s1 s2 m = Some (s1 + word_of_nat 0)" using rt_strlen_eq [OF assms(2)] by (simp add: rt_strstr_def)
  then show ?thesis using True by (intro disjI1 exI [of _ 0]) simp
next
  case False
  have "(word_of_nat (length ds) :: u32) \<noteq> 0"
    using sint_length [OF assms(4)] False by auto
  then have "rt_strstr s1 s2 m = Some (strstr_loop s1 s2 (int (length cs)) (int (length ds)) m)"
    using rt_strlen_eq [OF assms(1)] rt_strlen_eq [OF assms(2)] sint_length [OF assms(3)] sint_length [OF assms(4)]
    by (simp add: rt_strstr_def)
  then show ?thesis using strstr_loop_eq [OF assms(2,4,1,3)] by fastforce
qed

text \<open>A memory that holds \<open>speak\<close> at address 100, \<open>pea\<close> at 200 and zeros elsewhere.\<close>

definition demo_mem :: mem where
  "demo_mem = (\<lambda>_. 0)(100 := 115, 101 := 112, 102 := 101, 103 := 97, 104 := 107, 200 := 112, 201 := 101, 202 := 97)"

theorem rt_memmove_correct_witness: "snd (rt_memmove 102 100 5 demo_mem) 106 = 107"
proof -
  have "unat (100 :: u32) + unat (5 :: u32) < 2 ^ 32" "unat (102 :: u32) + unat (5 :: u32) < 2 ^ 32" by simp_all
  from rt_memmove_correct [OF this, of demo_mem] show ?thesis by (simp add: demo_mem_def)
qed

theorem rt_strstr_correct_witness: "rt_strstr 100 200 demo_mem = Some 101"
proof -
  let ?cs = "[115, 112, 101, 97, 107] :: u8 list" and ?ds = "[112, 101, 97] :: u8 list"
  have s: "str_at demo_mem 100 ?cs" "str_at demo_mem 200 ?ds" "length ?cs < 2 ^ 31" "length ?ds < 2 ^ 31" by (simp_all add: demo_mem_def)
  have f: "take (length ?ds) (drop 1 ?cs) = ?ds" "1 + length ?ds \<le> length ?cs" by simp_all
  from rt_strstr_correct [OF s] show ?thesis
  proof
    assume "\<exists>i. rt_strstr 100 200 demo_mem = Some (100 + word_of_nat i) \<and> i + length ?ds \<le> length ?cs \<and>
      take (length ?ds) (drop i ?cs) = ?ds \<and> (\<forall>j<i. take (length ?ds) (drop j ?cs) \<noteq> ?ds)"
    then obtain i where i: "rt_strstr 100 200 demo_mem = Some (100 + word_of_nat i)" "i + length ?ds \<le> length ?cs"
      "take (length ?ds) (drop i ?cs) = ?ds" by blast
    then have "i = 0 \<or> i = 1 \<or> i = 2" by auto
    then show ?thesis using i by auto
  qed (use f in blast)
qed

end
