(* ===== verification/RT_Thread.thy ===== *)
theory RT_Thread
  imports RT_Timer_Run RT_Kservice
begin

unbundle bit_operations_syntax

text \<open>
  Threads, \<open>src/thread.c\<close> (suspend, resume and time-out are in theory \<open>RT_Wake\<close>), the initial stack
  frame of \<open>libcpu/arm/cortex-m3/cpuport.c\<close>, and the thread of \<open>timer.c\<close> that serves the soft timers.

  A routine that blocks is modelled up to its call of \<open>rt_schedule\<close>, included; the
  code after it runs when the thread is scheduled again, in another state, and is a definition of its
  own with the suffix \<open>_resumed\<close>. The cleanup functions of threads are the parameter \<open>cl\<close>, the address
  of \<open>rt_thread_exit\<close> the parameter \<open>texit\<close>.
\<close>

section \<open>Operations\<close>

text \<open>\<open>rt_hw_stack_init\<close> writes the frame a new thread starts from below the end of its stack, and
  returns the initial stack pointer and the memory: \<open>struct stack_frame\<close> has sixteen words, all set to
  \<open>0xdeadbeef\<close>, then the eight words of the exception frame.\<close>

definition rt_hw_stack_init :: "u32 \<Rightarrow> u32 \<Rightarrow> u32 \<Rightarrow> u32 \<Rightarrow> mem \<Rightarrow> u32 \<times> mem" where
  "rt_hw_stack_init tentry parameter addr texit m =
    (let stk = RT_ALIGN_DOWN (addr + 4) 8 - 64;
         m = store_words stk (replicate 16 0xdeadbeef) m;
         m = store_words (stk + 32) [parameter, 0, 0, 0, 0, texit, tentry, 0x01000000] m
     in (stk, m))"

text \<open>\<open>struct stack_frame\<close>: the registers that a thread switched to is loaded with, read from its stack.\<close>

record stack_frame =
  f_r4 :: u32
  f_r5 :: u32
  f_r6 :: u32
  f_r7 :: u32
  f_r8 :: u32
  f_r9 :: u32
  f_r10 :: u32
  f_r11 :: u32
  f_r0 :: u32
  f_r1 :: u32
  f_r2 :: u32
  f_r3 :: u32
  f_r12 :: u32
  f_lr :: u32
  f_pc :: u32
  f_psr :: u32

definition stack_frame_at :: "u32 \<Rightarrow> mem \<Rightarrow> stack_frame" where
  "stack_frame_at a m =
    (let w = (\<lambda>i. load_word (a + word_of_nat (4 * i)) m)
     in \<lparr>f_r4 = w 0, f_r5 = w 1, f_r6 = w 2, f_r7 = w 3, f_r8 = w 4, f_r9 = w 5, f_r10 = w 6, f_r11 = w 7,
         f_r0 = w 8, f_r1 = w 9, f_r2 = w 10, f_r3 = w 11, f_r12 = w 12, f_lr = w 13, f_pc = w 14, f_psr = w 15\<rparr>)"

definition rt_thread_init_fields ::
  "u32 \<Rightarrow> tid \<Rightarrow> u32 \<Rightarrow> u32 \<Rightarrow> u32 \<Rightarrow> u32 \<Rightarrow> u8 \<Rightarrow> u32 \<Rightarrow> kernel \<Rightarrow> (rt_err_t \<times> kernel) option" where
  "rt_thread_init_fields texit t ent parameter stack_start sz priority tick k =
    do {
      let (_, m) = rt_memset stack_start 35 sz (stack_mem (threads k t));
      let (stk, m) = rt_hw_stack_init ent parameter (stack_start + sz - 4) texit m;
      RT_ASSERT (unat priority < 32);
      let k = upd_thread t (\<lambda>th. th\<lparr>entry := ent, t_parameter := parameter, stack_addr := stack_start,
          stack_size := sz, stack_mem := m, sp := stk,
          init_priority := priority, current_priority := priority, number_mask := 0,
          t_init_tick := tick, remaining_tick := tick, t_error := RT_EOK, t_stat := RT_THREAD_INIT,
          cleanup := None\<rparr>) k;
      k \<leftarrow> rt_timer_init (ThreadTimer t) (o_name (hdr k (OThread t))) (Rt_Thread_Timeout t) 0 0 k;
      Some (RT_EOK, k)
    }"

definition rt_thread_init ::
  "u32 \<Rightarrow> tid \<Rightarrow> string \<Rightarrow> u32 \<Rightarrow> u32 \<Rightarrow> u32 \<Rightarrow> u32 \<Rightarrow> u8 \<Rightarrow> u32 \<Rightarrow> kernel \<Rightarrow> (rt_err_t \<times> kernel) option" where
  "rt_thread_init texit t nam ent parameter stack_start sz priority tick k =
    do {
      RT_ASSERT (stack_start \<noteq> 0);
      k \<leftarrow> rt_object_init (OThread t) Class_Thread nam k;
      rt_thread_init_fields texit t ent parameter stack_start sz priority tick k
    }"

definition rt_thread_startup :: "tid \<Rightarrow> kernel \<Rightarrow> (rt_err_t \<times> kernel) option" where
  "rt_thread_startup t k =
    do {
      RT_ASSERT (stat_of (threads k t) = RT_THREAD_INIT);
      RT_ASSERT (rt_object_get_type (OThread t) k = Class_Thread);
      let k = upd_thread t (\<lambda>th. th\<lparr>current_priority := init_priority th\<rparr>) k;
      let k = upd_thread t (\<lambda>th. th\<lparr>number_mask := push_bit (unat (current_priority th)) 1\<rparr>) k;
      let k = upd_thread t (\<lambda>th. th\<lparr>t_stat := RT_THREAD_SUSPEND\<rparr>) k;
      (_, k) \<leftarrow> rt_thread_resume t k;
      k \<leftarrow> (if rt_thread_self k \<noteq> None then rt_schedule k else Some k);
      Some (RT_EOK, k)
    }"

type_synonym cleanups = "nat \<Rightarrow> tid \<Rightarrow> kernel \<Rightarrow> kernel option"

definition thread_cleanup_execute :: "cleanups \<Rightarrow> tid \<Rightarrow> kernel \<Rightarrow> kernel option" where
  "thread_cleanup_execute cl t k =
    (case cleanup (threads k t) of None \<Rightarrow> Some k | Some c \<Rightarrow> cl c t k)"

text \<open>Releasing a thread: a static one leaves the object system, a dynamic one goes to
  \<open>rt_thread_defunct\<close>, which the idle thread empties.\<close>

definition thread_release :: "tid \<Rightarrow> kernel \<Rightarrow> kernel" where
  "thread_release t k =
    (if rt_object_is_systemobject (OThread t) k then rt_object_detach (OThread t) k
     else tl_push Defunct t k)"

definition rt_thread_exit :: "cleanups \<Rightarrow> kernel \<Rightarrow> kernel option" where
  "rt_thread_exit cl k =
    do {
      t \<leftarrow> rt_thread_self k;
      k \<leftarrow> thread_cleanup_execute cl t k;
      k \<leftarrow> rt_schedule_remove_thread t k;
      let k = upd_thread t (\<lambda>th. th\<lparr>t_stat := RT_THREAD_CLOSE\<rparr>) k;
      (_, k) \<leftarrow> rt_timer_detach (ThreadTimer t) k;
      let k = thread_release t k;
      rt_schedule k
    }"

definition rt_thread_detach :: "cleanups \<Rightarrow> tid \<Rightarrow> kernel \<Rightarrow> (rt_err_t \<times> kernel) option" where
  "rt_thread_detach cl t k =
    do {
      RT_ASSERT (rt_object_get_type (OThread t) k = Class_Thread);
      RT_ASSERT (rt_object_is_systemobject (OThread t) k);
      if stat_of (threads k t) = RT_THREAD_CLOSE then Some (RT_EOK, k)
      else do {
        k \<leftarrow> (if stat_of (threads k t) \<noteq> RT_THREAD_INIT then rt_schedule_remove_thread t k else Some k);
        k \<leftarrow> thread_cleanup_execute cl t k;
        (_, k) \<leftarrow> rt_timer_detach (ThreadTimer t) k;
        let k = upd_thread t (\<lambda>th. th\<lparr>t_stat := RT_THREAD_CLOSE\<rparr>) k;
        Some (RT_EOK, thread_release t k)
      }
    }"

text \<open>\<open>mem\<close> and \<open>stack\<close> are the results of the two allocations.\<close>

definition rt_thread_create ::
  "u32 \<Rightarrow> tid option \<Rightarrow> u32 \<Rightarrow> string \<Rightarrow> u32 \<Rightarrow> u32 \<Rightarrow> u32 \<Rightarrow> u8 \<Rightarrow> u32 \<Rightarrow> kernel \<Rightarrow> (tid option \<times> kernel) option" where
  "rt_thread_create texit mem stack nam ent parameter sz priority tick k =
    do {
      (_, k) \<leftarrow> rt_object_allocate (map_option OThread mem) Class_Thread nam k;
      case mem of
        None \<Rightarrow> Some (None, k)
      | Some t \<Rightarrow>
          if stack = 0 then do { k \<leftarrow> rt_object_delete (OThread t) k; Some (None, k) }
          else do {
            (_, k) \<leftarrow> rt_thread_init_fields texit t ent parameter stack sz priority tick k;
            Some (Some t, k)
          }
    }"

definition rt_thread_delete :: "cleanups \<Rightarrow> tid \<Rightarrow> kernel \<Rightarrow> (rt_err_t \<times> kernel) option" where
  "rt_thread_delete cl t k =
    do {
      RT_ASSERT (rt_object_get_type (OThread t) k = Class_Thread);
      RT_ASSERT (\<not> rt_object_is_systemobject (OThread t) k);
      if stat_of (threads k t) = RT_THREAD_CLOSE then Some (RT_EOK, k)
      else do {
        k \<leftarrow> (if stat_of (threads k t) \<noteq> RT_THREAD_INIT then rt_schedule_remove_thread t k else Some k);
        k \<leftarrow> thread_cleanup_execute cl t k;
        (_, k) \<leftarrow> rt_timer_detach (ThreadTimer t) k;
        let k = upd_thread t (\<lambda>th. th\<lparr>t_stat := RT_THREAD_CLOSE\<rparr>) k;
        Some (RT_EOK, tl_push Defunct t k)
      }
    }"

text \<open>Reloading the time slice and asking to yield.\<close>

definition slice_over :: "rt_thread \<Rightarrow> rt_thread" where
  "slice_over th = th\<lparr>remaining_tick := t_init_tick th, t_stat := t_stat th OR RT_THREAD_STAT_YIELD\<rparr>"

definition rt_thread_yield :: "kernel \<Rightarrow> (rt_err_t \<times> kernel) option" where
  "rt_thread_yield k =
    do {
      t \<leftarrow> rt_thread_self k;
      k \<leftarrow> rt_schedule (upd_thread t slice_over k);
      Some (RT_EOK, k)
    }"

text \<open>Suspending the thread and starting its timer, as \<open>rt_thread_sleep\<close> and \<open>rt_thread_delay_until\<close> do.\<close>

definition sleep_for :: "tid \<Rightarrow> u32 \<Rightarrow> kernel \<Rightarrow> kernel option" where
  "sleep_for t tick k =
    do {
      (_, k) \<leftarrow> rt_thread_suspend t k;
      (_, k) \<leftarrow> rt_timer_control (ThreadTimer t) 0 tick k;
      (_, k) \<leftarrow> rt_timer_start (ThreadTimer t) k;
      rt_schedule k
    }"

definition rt_thread_sleep :: "u32 \<Rightarrow> kernel \<Rightarrow> kernel option" where
  "rt_thread_sleep tick k =
    do {
      t \<leftarrow> rt_thread_self k;
      RT_ASSERT (rt_object_get_type (OThread t) k = Class_Thread);
      sleep_for t tick k
    }"

definition clear_timeout :: "tid \<Rightarrow> kernel \<Rightarrow> kernel" where
  "clear_timeout t = upd_thread t (\<lambda>th. if t_error th = - RT_ETIMEOUT then th\<lparr>t_error := RT_EOK\<rparr> else th)"

definition rt_thread_sleep_resumed :: "tid \<Rightarrow> kernel \<Rightarrow> rt_err_t \<times> kernel" where
  "rt_thread_sleep_resumed t k = (RT_EOK, clear_timeout t k)"

definition rt_thread_delay :: "u32 \<Rightarrow> kernel \<Rightarrow> kernel option" where
  "rt_thread_delay tick k = rt_thread_sleep tick k"

text \<open>What a blocking call has done when it returns or switches away: \<open>Returned v\<close>, or
  \<open>Suspended x\<close> with the values of the local variables \<open>x\<close> the rest of the code needs.\<close>

datatype ('v, 'x) call = Returned 'v | Suspended 'x

definition rt_thread_delay_until :: "u32 \<Rightarrow> u32 \<Rightarrow> kernel \<Rightarrow> ((rt_err_t \<times> u32, tid) call \<times> kernel) option" where
  "rt_thread_delay_until tick inc_tick k =
    do {
      t \<leftarrow> rt_thread_self k;
      RT_ASSERT (rt_object_get_type (OThread t) k = Class_Thread);
      if rt_tick k - tick < inc_tick then do {
        k \<leftarrow> sleep_for t (tick + inc_tick - rt_tick k) k;
        Some (Suspended t, k)
      }
      else Some (Returned (RT_EOK, rt_tick k), k)
    }"

definition rt_thread_delay_until_resumed :: "tid \<Rightarrow> kernel \<Rightarrow> (rt_err_t \<times> u32) \<times> kernel" where
  "rt_thread_delay_until_resumed t k = ((RT_EOK, rt_tick k), clear_timeout t k)"

definition change_priority :: "u8 \<Rightarrow> rt_thread \<Rightarrow> rt_thread" where
  "change_priority p th = th\<lparr>current_priority := p, number_mask := push_bit (unat p) 1\<rparr>"

text \<open>\<open>rt_thread_control\<close>; \<open>arg\<close> is the byte behind the pointer. A shift by 32 or more is
  undefined in C: \<open>None\<close>.\<close>

definition rt_thread_control :: "cleanups \<Rightarrow> tid \<Rightarrow> int \<Rightarrow> u8 \<Rightarrow> kernel \<Rightarrow> (rt_err_t \<times> kernel) option" where
  "rt_thread_control cl t cmd arg k =
    do {
      RT_ASSERT (rt_object_get_type (OThread t) k = Class_Thread);
      if cmd = 2 then
        do {
          RT_ASSERT (unat arg < 32);
          if stat_of (threads k t) = RT_THREAD_READY then do {
            k \<leftarrow> rt_schedule_remove_thread t k;
            k \<leftarrow> rt_schedule_insert_thread t (upd_thread t (change_priority arg) k);
            Some (RT_EOK, k)
          }
          else Some (RT_EOK, upd_thread t (change_priority arg) k)
        }
      else if cmd = 0 then rt_thread_startup t k
      else if cmd = 1 then
        (if rt_object_is_systemobject (OThread t) k then rt_thread_detach cl t k else rt_thread_delete cl t k)
      else Some (RT_EOK, k)
    }"

definition rt_thread_find :: "string \<Rightarrow> kernel \<Rightarrow> (oref option \<times> kernel) option" where
  "rt_thread_find nam k = rt_object_find nam Class_Thread k"

text \<open>One round of \<open>rt_thread_timer_entry\<close> up to the point where it waits; the round goes on with
  \<open>rt_soft_timer_check\<close>, and with \<open>rt_thread_sleep_resumed\<close> before it when it slept.\<close>

datatype timer_wait = WaitSuspended | WaitDelayed | NoWait

definition rt_thread_timer_entry_wait :: "kernel \<Rightarrow> (timer_wait \<times> kernel) option" where
  "rt_thread_timer_entry_wait k =
    (let next_timeout = rt_timer_list_next_timeout SoftList k
     in if next_timeout = 0xFFFFFFFF then
          do {
            t \<leftarrow> rt_thread_self k;
            (_, k) \<leftarrow> rt_thread_suspend t k;
            k \<leftarrow> rt_schedule k;
            Some (WaitSuspended, k)
          }
        else if next_timeout - rt_tick k < RT_TICK_HALF then
          do { k \<leftarrow> rt_thread_delay (next_timeout - rt_tick k) k; Some (WaitDelayed, k) }
        else Some (NoWait, k))"

definition rt_thread_timer_entry_check :: "callbacks \<Rightarrow> timer_wait \<Rightarrow> kernel \<Rightarrow> kernel option" where
  "rt_thread_timer_entry_check cb w k =
    rt_soft_timer_check cb
      (if w = WaitDelayed then snd (rt_thread_sleep_resumed (timer_thread k) k) else k)"

text \<open>\<open>entry\<close> and \<open>stack\<close> are the addresses of \<open>rt_thread_timer_entry\<close> and \<open>timer_thread_stack\<close>.\<close>

definition rt_system_timer_thread_init :: "u32 \<Rightarrow> u32 \<Rightarrow> u32 \<Rightarrow> kernel \<Rightarrow> kernel option" where
  "rt_system_timer_thread_init texit ent stack k =
    do {
      let k = k\<lparr>tmlists := (tmlists k)(SoftList := [])\<rparr>;
      (_, k) \<leftarrow> rt_thread_init texit (timer_thread k) ''timer'' ent 0 stack 512 4 10 k;
      (_, k) \<leftarrow> rt_thread_startup (timer_thread k) k;
      Some k
    }"

section \<open>Waiting with a time-out\<close>

lemma kinv_set_init:
  assumes "kinv k"
  shows "kinv (upd_timer m (\<lambda>x. x\<lparr>init_tick := n\<rparr>) k)"
proof -
  have "tt_inv (upd_timer m (\<lambda>x. x\<lparr>init_tick := n\<rparr>) k)"
    using kinvD(4) [OF assms] unfolding tt_inv_def tcb_ok_def by auto
  then show ?thesis using kinvD [OF assms] by (simp add: kinv_def)
qed

lemma data_frame_upd_timer [simp]: "data_frame k (upd_timer m f k)"
  by (simp add: data_frame_def)

lemma ready_group_nonzero:
  assumes q: "qinv {} k" and u: "stat_of (threads k u) = RT_THREAD_READY"
  shows "ready_group k \<noteq> 0"
proof -
  have "prio_ok (threads k u)" using qinvD(5) [OF q] u by (simp add: started_def)
  then have "bit (ready_group k) (unat (current_priority (threads k u)))"
    using qinvD(1) [OF q] qinvD(4) [OF q u] by (auto simp: prio_ok_def)
  then show ?thesis by auto
qed

text \<open>Arming the timer of a suspended thread, as every blocking call does.\<close>

definition arm_timer :: "tid \<Rightarrow> u32 \<Rightarrow> kernel \<Rightarrow> kernel option" where
  "arm_timer t tick k =
    do {
      (_, k) \<leftarrow> rt_timer_control (ThreadTimer t) 0 tick k;
      (_, k) \<leftarrow> rt_timer_start (ThreadTimer t) k;
      Some k
    }"

lemma arm_timer_ok:
  assumes inv: "kinv k" and st: "stat_of (threads k t) = RT_THREAD_SUSPEND" and tick: "tick < RT_TICK_HALF"
  shows "\<exists>k'. arm_timer t tick k = Some k' \<and> kinv k' \<and> data_frame k k' \<and> threads k' = threads k \<and>
    cur k' = cur k \<and> tlists k' = tlists k \<and> ready_group k' = ready_group k \<and>
    ThreadTimer t \<in> set (tmlists k' HardList) \<and> tticks k' (ThreadTimer t) = rt_tick k + tick"
proof -
  let ?m = "ThreadTimer t"
  have tcb: "tcb_ok t k" using tt_invD(1) [OF kinvD(4) [OF inv]] st by (simp add: started_def)
  let ?k = "upd_timer ?m (\<lambda>x. x\<lparr>init_tick := tick\<rparr>) k"
  have c: "rt_timer_control ?m 0 tick k = Some (tick, ?k)"
    using tcb by (simp add: rt_timer_control_def tcb_ok_def)
  have ty: "rt_object_get_type (OTimer ?m) ?k = Class_Timer" using tcb by (simp add: tcb_ok_def)
  have th: "\<forall>u. ?m = ThreadTimer u \<longrightarrow> stat_of (threads ?k u) = RT_THREAD_SUSPEND" using st by simp
  have i: "init_tick (timers ?k ?m) < RT_TICK_HALF" using tick by simp
  obtain k' where k': "timer_link ?m ?k = Some k'" "kinv k'" "data_frame ?k k'" "threads k' = threads ?k"
      "cur k' = cur ?k" "tlists k' = tlists ?k" "ready_group k' = ready_group ?k"
      "timers k' = (timers ?k)(?m := (timers ?k ?m)\<lparr>timeout_tick := rt_tick ?k + init_tick (timers ?k ?m)\<rparr>)"
      "\<forall>l. tmlists k' l = (if l = timer_list_of ?m ?k then
        timer_insert (tticks k') ?m (remove1 ?m (tmlists ?k l)) else remove1 ?m (tmlists ?k l))"
      "timer_soft ?m k' = timer_soft ?m ?k"
    using timer_link_ok [OF kinv_set_init [OF inv] ty i th] by blast
  have soft: "\<not> timer_soft ?m k'" using k'(10) tcb by (simp add: tcb_ok_def)
  have "arm_timer t tick k = Some k'"
    using c timer_start_hard [OF ty k'(1) soft] by (simp add: arm_timer_def)
  moreover have "?m \<in> set (tmlists k' HardList)" using k'(9) soft k'(10) by (simp add: timer_list_of_def)
  moreover have "data_frame k k'" using data_frame_upd_timer data_frame_trans [OF _ k'(3)] by blast
  ultimately show ?thesis using k' by simp
qed

lemma sleep_for_eq:
  "sleep_for t tick k =
    do { (_, k) \<leftarrow> rt_thread_suspend t k; k \<leftarrow> arm_timer t tick k; rt_schedule k }"
  by (simp add: sleep_for_def arm_timer_def split_def cong: option.case_cong)

lemma sleep_for_ok:
  assumes inv: "kinv k" and c: "cur k = Some t" "stat_of (threads k t) = RT_THREAD_RUNNING"
    and tick: "tick < RT_TICK_HALF"
  shows "\<exists>k'. sleep_for t tick k = Some k' \<and> kinv k' \<and> data_frame k k' \<and> cur k' \<noteq> None \<and>
    waits k' = waits k \<and> stat_of (threads k' t) = RT_THREAD_SUSPEND \<and>
    ThreadTimer t \<in> set (tmlists k' HardList) \<and> tticks k' (ThreadTimer t) = rt_tick k + tick \<and>
    (lock_nest k = 0 \<and> (\<exists>u. stat_of (threads k u) = RT_THREAD_READY) \<longrightarrow> cur k' \<noteq> Some t)"
proof -
  obtain k1 where k1: "rt_thread_suspend t k = Some (RT_EOK, k1)" "kinv k1"
    "threads k1 = (threads k)(t := set_stat RT_THREAD_SUSPEND (threads k t))" "cur k1 = cur k"
    "waits k1 = waits k" "data_frame k k1"
    using thread_suspend_ok [OF inv] c(2) by metis
  have st1: "stat_of (threads k1 t) = RT_THREAD_SUSPEND" using k1(3) by simp
  obtain k2 where k2: "arm_timer t tick k1 = Some k2" "kinv k2" "data_frame k1 k2" "threads k2 = threads k1"
      "cur k2 = cur k1" "tlists k2 = tlists k1" "ready_group k2 = ready_group k1"
      "ThreadTimer t \<in> set (tmlists k2 HardList)" "tticks k2 (ThreadTimer t) = rt_tick k1 + tick"
    using arm_timer_ok [OF k1(2) st1 tick] by blast
  obtain k3 where k3: "rt_schedule k2 = Some k3" "kinv k3" "same_threads k2 k3" "sched_only k2 k3"
      "waits k3 = waits k2" "cur k3 \<noteq> None"
      "if lock_nest k2 = 0 \<and> ready_group k2 \<noteq> 0 then runs_highest k3 else k3 = k2"
    using rt_schedule_kinv [OF k2(2)] k2(5) k1(4) c(1) by auto
  have st3: "stat_of (threads k3 t) = RT_THREAD_SUSPEND"
    using same_threadsD(2) [OF k3(3), of t] st1 k2(4) by simp
  have f: "data_frame k k3"
    using k1(6) k2(3) sched_only_data [OF k3(4)] by (blast intro: data_frame_trans)
  have "sleep_for t tick k = Some k3" using k1(1) k2(1) k3(1) by (simp add: sleep_for_eq)
  moreover have "waits k3 = waits k" using k3(5) k2(6) k1(5) by (simp add: waits_def)
  moreover have "cur k3 \<noteq> Some t" if "runs_highest k3" using that st3 by (auto simp: runs_highest_def)
  moreover have "lock_nest k2 = lock_nest k" "rt_tick k1 = rt_tick k"
    using data_frameD(2) [OF k1(6)] data_frameD(2) [OF k2(3)] data_frameD(4) [OF k1(6)] by simp_all
  moreover have "ready_group k2 \<noteq> 0" if "stat_of (threads k u) = RT_THREAD_READY" for u
  proof (rule ready_group_nonzero)
    show "stat_of (threads k2 u) = RT_THREAD_READY" using that c(2) k1(3) k2(4) by auto
  qed (rule kinvD(5) [OF k2(2)])
  ultimately show ?thesis
    using k3 f st3 k2(8,9) sched_onlyD(6,7) [OF k3(4)] by (auto split: if_splits)
qed

section \<open>Starting threads and changing priorities\<close>

lemma upd_thread_upd [simp]: "upd_thread t f (upd_thread t g k) = upd_thread t (\<lambda>th. f (g th)) k"
  by (simp add: upd_thread_def)

lemma kinvI: "sched_inv k \<Longrightarrow> stacks_ok k \<Longrightarrow> tm_inv k \<Longrightarrow> tt_inv k \<Longrightarrow> kinv k"
  by (simp add: kinv_def)

lemma timer_idle:
  assumes "tt_inv k" "stat_of (threads k t) \<noteq> RT_THREAD_SUSPEND"
  shows "ThreadTimer t \<notin> set (tmlists k HardList) \<union> set (tmlists k SoftList)"
  using tt_invD(2,3) [OF assms(1), of t] assms(2) by blast

text \<open>A thread that is in no list may change its structure.\<close>

lemma kinv_upd_free:
  assumes inv: "kinv k" and free: "\<And>l. t \<notin> set (tlists k l)" and tcb: "tcb_ok t k"
    and f: "prio_ok (f (threads k t))" "stack_check (f (threads k t))"
      "stat_of (f (threads k t)) = RT_THREAD_SUSPEND"
  shows "kinv (upd_thread t f k)"
proof (rule kinvI)
  have "qinv {t} k" using qinv_depart [OF kinvD(5) [OF inv], of t] free by simp
  then have "qinv {} (upd_thread t f k)" using f by (intro qinv_upd_transit_arrive) simp_all
  then show "sched_inv (upd_thread t f k)"
    using sched_inv_upd_thread [OF kinvD(1) [OF inv]] f(3) by simp
  show "stacks_ok (upd_thread t f k)" using stacks_ok_upd_thread [OF kinvD(2) [OF inv]] f(2) by simp
  show "tm_inv (upd_thread t f k)" using kinvD(3) [OF inv] by simp
  show "tt_inv (upd_thread t f k)" using tt_inv_upd_thread [OF kinvD(4) [OF inv] tcb] f(3) by simp
qed

definition start_fields :: "rt_thread \<Rightarrow> rt_thread" where
  "start_fields th = th\<lparr>current_priority := init_priority th,
     number_mask := push_bit (unat (init_priority th)) 1, t_stat := RT_THREAD_SUSPEND\<rparr>"

lemma start_fields_props:
  assumes "unat (init_priority th) < 32"
  shows "prio_ok (start_fields th)" "stat_of (start_fields th) = RT_THREAD_SUSPEND"
    "stack_check (start_fields th) = stack_check th"
  using assms by (simp_all add: start_fields_def prio_ok_def stat_of_def stack_check_def push_bit_of_1)

lemma startup_ok:
  assumes inv: "kinv k" and st: "stat_of (threads k t) = RT_THREAD_INIT" and tcb: "tcb_ok t k"
    and stk: "stack_check (threads k t)" and p: "unat (init_priority (threads k t)) < 32"
  shows "\<exists>k'. rt_thread_startup t k = Some (RT_EOK, k') \<and> kinv k' \<and> data_frame k k' \<and>
    stat_of (threads k' t) \<in> {RT_THREAD_READY, RT_THREAD_RUNNING} \<and>
    current_priority (threads k' t) = init_priority (threads k t) \<and>
    sp (threads k' t) = sp (threads k t) \<and> stack_mem (threads k' t) = stack_mem (threads k t) \<and>
    (cur k \<noteq> None \<and> lock_nest k = 0 \<and> cur k \<noteq> Some t \<longrightarrow> runs_highest k')"
proof -
  let ?k = "upd_thread t start_fields k"
  have inv1: "kinv ?k"
    using kinv_upd_free [OF inv _ tcb, of start_fields] not_listed [OF kinvD(5) [OF inv], of t] st stk
      start_fields_props [OF p] by simp
  have st1: "stat_of (threads ?k t) = RT_THREAD_SUSPEND" using start_fields_props(2) [OF p] by simp
  obtain k2 where k2: "rt_thread_resume t ?k = Some (RT_EOK, k2)" "kinv k2" "cur k2 = cur ?k"
      "threads k2 = (threads ?k)(t := set_stat (wake_stat t ?k) (threads ?k t))" "data_frame ?k k2"
    using thread_resume_ok [OF inv1 st1] by metis
  have df2: "data_frame k k2"
    using data_frame_trans [OF sched_only_data [OF sched_only_upd] k2(5)] .
  have st2: "stat_of (threads k2 t) \<in> {RT_THREAD_READY, RT_THREAD_RUNNING}"
      "current_priority (threads k2 t) = init_priority (threads k t)"
      "sp (threads k2 t) = sp (threads k t)" "stack_mem (threads k2 t) = stack_mem (threads k t)"
    using k2(4) by (simp_all add: wake_stat_def start_fields_def)
  have eq: "rt_thread_startup t k =
      do { k \<leftarrow> (if cur k2 \<noteq> None then rt_schedule k2 else Some k2); Some (RT_EOK, k) }"
    using st tcb k2(1) unfolding rt_thread_startup_def
    by (simp add: tcb_ok_def rt_thread_self_def Let_def start_fields_def [abs_def])
  show ?thesis
  proof (cases "cur k = None")
    case True
    then show ?thesis using eq k2(2,3) st2 df2 by simp
  next
    case False
    then obtain k3 where k3: "rt_schedule k2 = Some k3" "kinv k3" "same_threads k2 k3" "sched_only k2 k3"
        "if lock_nest k2 = 0 \<and> ready_group k2 \<noteq> 0 then runs_highest k3 else k3 = k2"
      using rt_schedule_kinv [OF k2(2)] k2(3) by auto
    have "runs_highest k3" if "lock_nest k = 0" "cur k \<noteq> Some t"
    proof -
      have "stat_of (threads k2 t) = RT_THREAD_READY" using that k2(4) by (simp add: wake_stat_def)
      then have "ready_group k2 \<noteq> 0" using ready_group_nonzero [OF kinvD(5) [OF k2(2)]] by blast
      then show ?thesis using k3(5) that data_frameD(2) [OF df2] by simp
    qed
    moreover have "stat_of (threads k3 t) \<in> {RT_THREAD_READY, RT_THREAD_RUNNING}"
      using same_threadsD(4) [OF k3(3) st2(1)] .
    moreover have "current_priority (threads k3 t) = init_priority (threads k t)"
        "sp (threads k3 t) = sp (threads k t)" "stack_mem (threads k3 t) = stack_mem (threads k t)"
      using same_threadsD(3) [OF k3(3), of t] st2(2,3,4) by auto
    ultimately show ?thesis
      using eq False k2(3) k3 data_frame_trans [OF df2 sched_only_data [OF k3(4)]] by auto
  qed
qed

lemma qinv_upd_prio:
  assumes q: "qinv X k" and f: "stat_of (f (threads k t)) = stat_of (threads k t)" "prio_ok (f (threads k t))"
    and st: "stat_of (threads k t) \<noteq> RT_THREAD_READY"
  shows "qinv X (upd_thread t f k)"
proof -
  have "lid_ok l (f (threads k t))" if "t \<in> set (tlists k l)" for l
    using that qinvD(2) [OF q that] f st by (cases l) auto
  then show ?thesis
    using q f st unfolding qinv_def by auto
qed

lemma change_priority_sel [simp]:
  "stat_of (change_priority p th) = stat_of th" "current_priority (change_priority p th) = p"
  "number_mask (change_priority p th) = 2 ^ unat p" "stack_check (change_priority p th) = stack_check th"
  by (simp_all add: change_priority_def stat_of_def stack_check_def push_bit_of_1)

lemma started_change [simp]: "started (change_priority p th) = started th"
  by (simp add: started_def)

lemma prio_ok_change [simp]: "prio_ok (change_priority p th) \<longleftrightarrow> unat p < 32"
  by (simp add: prio_ok_def)

lemma control_priority_ok:
  assumes inv: "kinv k" and st: "started (threads k t)" and p: "unat p < 32"
  shows "\<exists>k'. rt_thread_control cl t 2 p k = Some (RT_EOK, k') \<and> kinv k' \<and> sched_only k k' \<and> cur k' = cur k \<and>
    waits k' = waits k \<and> threads k' = (threads k)(t := (threads k' t)) \<and>
    (\<exists>s. threads k' t = (change_priority p (threads k t))\<lparr>t_stat := s\<rparr>) \<and>
    stat_of (threads k' t) = stat_of (threads k t)"
proof -
  have tcb: "tcb_ok t k" by (rule tt_invD(1) [OF kinvD(4) [OF inv] st])
  note q = kinvD(5) [OF inv]
  have inv': "kinv (upd_thread t (change_priority p) k)"
    if "qinv {} (upd_thread t (change_priority p) k)"
  proof (rule kinvI)
    show "sched_inv (upd_thread t (change_priority p) k)"
      using sched_inv_upd_thread [OF kinvD(1) [OF inv] that] sched_invD(2,3) [OF kinvD(1) [OF inv], of t] by simp
    show "stacks_ok (upd_thread t (change_priority p) k)"
      using stacks_ok_upd_thread [OF kinvD(2) [OF inv]] kinvD(2) [OF inv] st by (simp add: stacks_ok_def)
    show "tm_inv (upd_thread t (change_priority p) k)" using kinvD(3) [OF inv] by simp
    show "tt_inv (upd_thread t (change_priority p) k)"
      using tt_inv_upd_thread [OF kinvD(4) [OF inv] tcb] tt_invD(2,3) [OF kinvD(4) [OF inv], of t] by auto
  qed
  have ex: "\<exists>s. change_priority p (threads k t) = (change_priority p (threads k t))\<lparr>t_stat := s\<rparr>"
    by (rule set_stat_clear_yield_ex(4))
  show ?thesis
  proof (cases "stat_of (threads k t) = RT_THREAD_READY")
    case False
    let ?k = "upd_thread t (change_priority p) k"
    have "qinv {} ?k" using qinv_upd_prio [OF q _ _ False] p by simp
    then have "kinv ?k" by (rule inv')
    moreover have "rt_thread_control cl t 2 p k = Some (RT_EOK, ?k)"
      using False p tcb by (simp add: rt_thread_control_def tcb_ok_def)
    ultimately show ?thesis using ex by (intro exI [of _ ?k]) simp
  next
    case True
    have c: "cur k \<noteq> Some t" using sched_invD(3) [OF kinvD(1) [OF inv]] True by blast
    have pk: "prio_ok (threads k t)" by (rule qinvD(5) [OF q st])
    obtain k1 where k1: "rt_schedule_remove_thread t k = Some k1" "qinv {t} k1"
      using remove_thread_qinv [OF q pk] by auto
    have th1: "threads k1 = threads k" "cur k1 = cur k" using k1(1) remove_thread_eq [OF pk] by auto
    let ?k = "upd_thread t (change_priority p) k1"
    have q2: "qinv (insert t {}) ?k" using k1(2) p th1 by (intro qinv_upd_transit) simp_all
    have p2: "prio_ok (threads ?k t)" using p th1 by simp
    obtain k2 where k2: "rt_schedule_insert_thread t ?k = Some k2" "qinv {} k2"
      using insert_thread_qinv [OF q2 _ _ p2] c th1 by auto
    have th2: "threads k2 = (threads k)(t := set_stat RT_THREAD_READY (change_priority p (threads k t)))"
        "cur k2 = cur k"
      using k2(1) insert_thread_eq [OF _ p2] c th1 by auto
    have only: "sched_only k k2"
      using sched_only_trans [OF remove_thread_only [OF k1(1)]] insert_thread_only [OF k2(1)] by simp
    note f = sched_onlyD [OF only]
    have "kinv k2"
    proof (rule kinvI)
      show "sched_inv k2"
      proof (rule sched_invI [OF k2(2)])
        show "cur k2 = Some u" if "stat_of (threads k2 u) = RT_THREAD_RUNNING" for u
          using that th2 sched_invD(2) [OF kinvD(1) [OF inv], of u] by (cases "u = t") simp_all
        show "stat_of (threads k2 d) \<noteq> RT_THREAD_READY" if "cur k2 = Some d" for d
          using that th2 c sched_invD(3) [OF kinvD(1) [OF inv], of d] by (cases "d = t") simp_all
      qed
      show "stacks_ok k2"
        using kinvD(2) [OF inv] st th2(1) by (simp add: stacks_ok_def)
      show "tm_inv k2" using tm_inv_cong [OF f(1,7)] kinvD(3) [OF inv] by simp
      show "tt_inv k2"
        using kinvD(4) [OF inv] tcb_ok_cong [OF f(1,6)] f(6,7) st th2(1) True
        unfolding tt_inv_def by auto
    qed
    moreover have "waits k2 = waits k"
      using insert_thread_waits [OF k2(1)] remove_thread_waits [OF q _ _ k1(1)] True by simp
    moreover have "rt_thread_control cl t 2 p k = Some (RT_EOK, k2)"
      using True p tcb k1(1) k2(1) by (simp add: rt_thread_control_def tcb_ok_def)
    moreover have "\<exists>s. set_stat RT_THREAD_READY (change_priority p (threads k t)) = (change_priority p (threads k t))\<lparr>t_stat := s\<rparr>"
      by (rule set_stat_clear_yield_ex(1))
    ultimately show ?thesis using only th2 True by (intro exI [of _ k2]) simp
  qed
qed

section \<open>The initial stack\<close>

lemma unat_RT_ALIGN_DOWN_8: "unat (RT_ALIGN_DOWN x 8) = unat x - unat x mod 8"
proof -
  have "x AND NOT 7 = push_bit 3 (drop_bit 3 x)"
    using and_not_mask_eq_take_bit [of x 3] by (simp add: mask_eq_exp_minus_1)
  moreover have "unat (push_bit 3 (drop_bit 3 x)) = unat x div 8 * 8"
  proof -
    have "unat x div 8 * 8 < 4294967296"
      using unat_less_32 [of x] by (meson div_times_less_eq_dividend le_less_trans)
    then show ?thesis
      by (simp add: push_bit_eq_mult drop_bit_eq_div unat_word_ariths unat_div)
  qed
  ultimately show ?thesis by (simp add: RT_ALIGN_DOWN_def minus_mod_eq_div_mult)
qed

lemma stack_pointer_bounds:
  assumes sz: "72 \<le> unat sz" and fit: "unat start + unat sz < 2 ^ 32"
    and stk: "stk = fst (rt_hw_stack_init ent par (start + sz - 4) texit m)"
  shows "unat start < unat stk" "unat stk + 64 \<le> unat start + unat sz" "unat stk mod 8 = 0"
proof -
  let ?e = "RT_ALIGN_DOWN (start + sz) 8"
  have s: "unat (start + sz) = unat start + unat sz" using fit by (simp add: unat_word_ariths)
  have e: "unat ?e = unat start + unat sz - (unat start + unat sz) mod 8"
    by (simp add: unat_RT_ALIGN_DOWN_8 s)
  have m: "(unat start + unat sz) mod 8 < 8" by simp
  have "stk = ?e - 64" using stk by (simp add: rt_hw_stack_init_def Let_def)
  moreover have "unat (?e - 64) = unat ?e - 64"
    using e m sz by (subst unat_sub_if') (simp add: word_le_nat_alt)
  ultimately have k: "unat stk = unat start + unat sz - (unat start + unat sz) mod 8 - 64" using e by simp
  show "unat start < unat stk" "unat stk + 64 \<le> unat start + unat sz" using k m sz by linarith+
  have "(unat start + unat sz - (unat start + unat sz) mod 8) mod 8 = 0"
    by (simp add: minus_mod_eq_mult_div)
  then show "unat stk mod 8 = 0" using k by presburger
qed

text \<open>The words of the frame: those of the exception frame were written last.\<close>

lemma stack_init_words:
  assumes "rt_hw_stack_init ent par addr texit m = (stk, m')" "i < 16"
  shows "load_word (stk + word_of_nat (4 * i)) m' = (replicate 8 0xdeadbeef @ [par, 0, 0, 0, 0, texit, ent, 0x01000000]) ! i"
proof -
  let ?m = "store_words stk (replicate 16 0xdeadbeef) m" and ?ws = "[par, 0, 0, 0, 0, texit, ent, 0x01000000]"
  have m': "m' = store_words (stk + 32) ?ws ?m" using assms(1) by (auto simp: rt_hw_stack_init_def Let_def)
  show ?thesis
  proof (cases "i < 8")
    case True
    have "(stk + word_of_nat (4 * i)) - (stk + 32) = word_of_nat (4 * i) - 32" by simp
    moreover have "unat (word_of_nat (4 * i) :: u32) = 4 * i" using True
      by (simp add: unsigned_of_nat take_bit_nat_eq_self del: of_nat_mult)
    then have "unat (word_of_nat (4 * i) - 32 :: u32) = 4 * i + 2 ^ 32 - 32"
      using True unat_sub_if' [of "word_of_nat (4 * i) :: u32" 32] by simp
    ultimately have "load_word (stk + word_of_nat (4 * i)) m' = load_word (stk + word_of_nat (4 * i)) ?m"
      unfolding m' using True by (intro load_words_outside) simp_all
    then show ?thesis
      using load_store_words [of i "replicate 16 0xdeadbeef" stk m] True by (simp add: nth_append)
  next
    case False
    have "stk + 32 + word_of_nat (4 * (i - 8)) = stk + word_of_nat (32 + 4 * (i - 8))" by simp
    then have "stk + 32 + word_of_nat (4 * (i - 8)) = stk + word_of_nat (4 * i)"
      using False by (simp add: diff_mult_distrib2)
    then show ?thesis
      using load_store_words [of "i - 8" ?ws "stk + 32" ?m] False assms(2) unfolding m'
      by (simp add: nth_append)
  qed
qed

lemma stack_init_frame:
  assumes "rt_hw_stack_init ent par addr texit m = (stk, m')"
  shows "stack_frame_at stk m' =
    \<lparr>f_r4 = 0xdeadbeef, f_r5 = 0xdeadbeef, f_r6 = 0xdeadbeef, f_r7 = 0xdeadbeef, f_r8 = 0xdeadbeef, f_r9 = 0xdeadbeef,
     f_r10 = 0xdeadbeef, f_r11 = 0xdeadbeef, f_r0 = par, f_r1 = 0, f_r2 = 0, f_r3 = 0, f_r12 = 0, f_lr = texit,
     f_pc = ent, f_psr = 0x01000000\<rparr>"
  unfolding stack_frame_at_def Let_def by (simp only: stack_init_words [OF assms]) (simp add: nth_append)

text \<open>The frame leaves the rest of the memory alone.\<close>

lemma stack_init_outside:
  assumes "rt_hw_stack_init ent par addr texit m = (stk, m')" "64 \<le> unat (x - stk)"
  shows "m' x = m x"
proof -
  have "unat (x - (stk + 32)) = unat (x - stk) - 32"
    using assms(2) unat_sub [of 32 "x - stk"] by (simp add: word_le_nat_alt diff_diff_eq)
  moreover have "m' = store_words (stk + 32) [par, 0, 0, 0, 0, texit, ent, 0x01000000]
      (store_words stk (replicate 16 0xdeadbeef) m)"
    using assms(1) by (auto simp: rt_hw_stack_init_def Let_def)
  ultimately show ?thesis using assms(2) by (simp add: store_words_outside del: store_words.simps)
qed

definition init_fields_of :: "u32 \<Rightarrow> mem \<Rightarrow> u32 \<Rightarrow> u32 \<Rightarrow> u32 \<Rightarrow> u32 \<Rightarrow> u8 \<Rightarrow> u32 \<Rightarrow> rt_thread \<Rightarrow> rt_thread" where
  "init_fields_of stk m ent par start sz prio tick th =
    th\<lparr>entry := ent, t_parameter := par, stack_addr := start, stack_size := sz, stack_mem := m, sp := stk,
      init_priority := prio, current_priority := prio, number_mask := 0, t_init_tick := tick,
      remaining_tick := tick, t_error := RT_EOK, t_stat := RT_THREAD_INIT, cleanup := None\<rparr>"

text \<open>The memory of the stack after \<open>rt_thread_init\<close>: filled, then the frame.\<close>

definition init_stack_of :: "u32 \<Rightarrow> u32 \<Rightarrow> u32 \<Rightarrow> u32 \<Rightarrow> u32 \<Rightarrow> mem \<Rightarrow> u32 \<times> mem" where
  "init_stack_of texit ent par start sz m = rt_hw_stack_init ent par (start + sz - 4) texit (fill start (unat sz) 35 m)"

lemma init_fields_eq:
  assumes "unat prio < 32" and stk: "init_stack_of texit ent par start sz (stack_mem (threads k t)) = (stk, m)"
  shows "rt_thread_init_fields texit t ent par start sz prio tick k =
    do { k \<leftarrow> rt_timer_init (ThreadTimer t) (o_name (hdr k (OThread t))) (Rt_Thread_Timeout t) 0 0
           (upd_thread t (init_fields_of stk m ent par start sz prio tick) k);
         Some (RT_EOK, k) }"
  using assms
  by (simp add: rt_thread_init_fields_def rt_memset_fill init_stack_of_def init_fields_of_def [abs_def])

lemma init_stack_guard:
  assumes "72 \<le> unat sz" "unat start + unat sz < 2 ^ 32" and stk: "init_stack_of texit ent par start sz m0 = (stk, m)"
  shows "m start = 35"
proof -
  note b = stack_pointer_bounds [OF assms(1,2), of stk ent par texit "fill start (unat sz) 35 m0"]
  have s: "stk = fst (rt_hw_stack_init ent par (start + sz - 4) texit (fill start (unat sz) 35 m0))"
    using stk by (simp add: init_stack_of_def)
  have "unat (start - stk) = 4294967296 - (unat stk - unat start)"
    using b(1) [OF s] by (simp add: unat_sub_if')
  moreover have "unat stk - unat start < 4294967296 - 64" using b(2) [OF s] assms(2) by simp
  ultimately have "64 \<le> unat (start - stk)" by linarith
  then have "m start = fill start (unat sz) 35 m0 start"
    using stack_init_outside [OF stk [unfolded init_stack_of_def]] by blast
  then show ?thesis using assms(1) by (simp add: fill_def)
qed

lemma init_fields_of_sel [simp]:
  "stat_of (init_fields_of stk m ent par start sz prio tick th) = RT_THREAD_INIT"
  "\<not> started (init_fields_of stk m ent par start sz prio tick th)"
  "sp (init_fields_of stk m ent par start sz prio tick th) = stk"
  by (simp_all add: init_fields_of_def stat_of_def started_def)

lemma init_fields_stack:
  assumes "72 \<le> unat sz" "unat start + unat sz < 2 ^ 32"
    and stk: "init_stack_of texit ent par start sz m0 = (stk, m)"
  shows "stack_check (init_fields_of stk m ent par start sz prio tick th)"
proof -
  have "stk = fst (rt_hw_stack_init ent par (start + sz - 4) texit (fill start (unat sz) 35 m0))"
    using stk by (simp add: init_stack_of_def)
  note b = stack_pointer_bounds [OF assms(1,2) this] and g = init_stack_guard [OF assms]
  have "unat (start + sz) = unat start + unat sz" using assms(2) by (simp add: unat_word_ariths)
  then show ?thesis using b(1,2) g
    by (simp add: stack_check_def init_fields_of_def word_le_nat_alt word_less_nat_alt)
qed

lemma kinv_upd_unstarted:
  assumes inv: "kinv k" and t: "\<not> started (threads k t)" "\<And>l. t \<notin> set (tlists k l)" and f: "\<not> started (f (threads k t))"
  shows "kinv (upd_thread t f k)"
proof (rule kinvI)
  have n: "stat_of (f (threads k t)) \<notin> {RT_THREAD_READY, RT_THREAD_SUSPEND, RT_THREAD_RUNNING}"
    using f by (simp add: started_def)
  have "qinv (insert t {}) (upd_thread t f k)"
    using qinv_depart [OF kinvD(5) [OF inv], of t] t(2) f by (intro qinv_upd_transit) simp_all
  then have q: "qinv {} (upd_thread t f k)" using qinv_arrive [of t "{}"] n by simp
  show "sched_inv (upd_thread t f k)" using sched_inv_upd_thread [OF kinvD(1) [OF inv] q] n by simp
  show "stacks_ok (upd_thread t f k)" using stacks_ok_upd_thread [OF kinvD(2) [OF inv]] f by simp
  show "tm_inv (upd_thread t f k)" using kinvD(3) [OF inv] by simp
  have "ThreadTimer t \<notin> set (tmlists k HardList) \<union> set (tmlists k SoftList)"
    using timer_idle [OF kinvD(4) [OF inv]] t(1) by (auto simp: started_def)
  then show "tt_inv (upd_thread t f k)" using kinvD(4) [OF inv] f unfolding tt_inv_def by auto
qed

text \<open>\<open>rt_timer_init\<close> of the timer of a thread that is not started.\<close>

lemma thread_timer_init_ok:
  assumes inv: "kinv k" and t: "\<not> started (threads k t)" "\<not> timer_linked (ThreadTimer t) k"
    and o: "OTimer (ThreadTimer t) \<notin> set (containers k Class_Timer)"
    and ty: "rt_object_get_type (OThread t) k = Class_Thread"
  shows "\<exists>k'. rt_timer_init (ThreadTimer t) nam (Rt_Thread_Timeout t) 0 0 k = Some k' \<and> kinv k' \<and>
    same_threads k k' \<and> waits k' = waits k \<and> tcb_ok t k' \<and> (cur k' = None \<longleftrightarrow> cur k = None)"
proof -
  let ?m = "ThreadTimer t"
  have i: "rt_object_get_information Class_Timer = Some Class_Timer" by (simp add: rt_object_get_information_def)
  have fresh: "fresh_obj (OTimer ?m) k" using t by simp
  obtain k1 where k1: "rt_object_init (OTimer ?m) Class_Timer nam k = Some k1" "kinv k1" "waits k1 = waits k"
      "same_threads k k1" "cur k1 = None \<longleftrightarrow> cur k = None"
      and h: "hdr k1 = (hdr k)(OTimer ?m := (hdr k (OTimer ?m))\<lparr>o_type := Class_Timer OR Class_Static, o_name := rt_strncpy nam 8\<rparr>)"
      and f: "tmlists k1 = tmlists k"
    using object_init_kinv [OF inv i o fresh, of nam] by (elim exE conjE) (rule that, assumption+)
  let ?k = "upd_timer ?m (\<lambda>_. \<lparr>timeout_func = Rt_Thread_Timeout t, init_tick = 0, timeout_tick = 0\<rparr>)
    (clear_flag ?m 1 (upd_hdr (OTimer ?m) (\<lambda>h. h\<lparr>o_flag := 0\<rparr>) k1))"
  have fl: "\<not> timer_periodic ?m ?k" "\<not> timer_soft ?m ?k" "\<not> timer_activated ?m ?k"
    by (simp_all add: timer_flag_defs clear_flag_def)
  have nl: "\<not> timer_linked ?m k1" "\<not> timer_linked ?m ?k" using t(2) f by (simp_all add: timer_linked_def)
  have st: "\<not> started (threads k1 t)" using t(1) same_threadsD(1) [OF k1(4)] by simp
  have "rt_timer_init ?m nam (Rt_Thread_Timeout t) 0 0 k = Some ?k"
    using k1(1) nl(2) by (simp add: rt_timer_init_def rt_timer_init_fields_def Let_def)
  moreover have tcb: "tcb_ok t ?k"
    using fl h ty by (simp add: tcb_ok_def rt_object_get_type_def rt_object_is_systemobject_def clear_flag_def)
  moreover have "kinv ?k"
  proof (rule kinvI)
    have hd: "hdr ?k r = hdr k1 r" if "r \<noteq> OTimer ?m" for r using that by (simp add: clear_flag_def)
    show "tm_inv ?k" using tm_inv_hdr [OF kinvD(3) [OF k1(2)] _ _ nl(1) fl(3)] hd by simp
    have "tcb_ok u ?k" if "started (threads ?k u)" for u
    proof (cases "u = t")
      case False
      then show ?thesis
        using that tt_invD(1) [OF kinvD(4) [OF k1(2)], of u] hd [of "OThread u"] hd [of "OTimer (ThreadTimer u)"]
        by (simp add: tcb_ok_def timer_flag_defs rt_object_get_type_def rt_object_is_systemobject_def)
    qed (simp add: tcb)
    then show "tt_inv ?k" using tt_invD(2,3,4) [OF kinvD(4) [OF k1(2)]] unfolding tt_inv_def by simp
  qed (use kinvD(1,2) [OF k1(2)] in simp_all)
  ultimately show ?thesis using k1 by (intro exI [of _ ?k]) (simp add: same_threads_def)
qed

section \<open>Properties\<close>

text \<open>
  C8: Creating a thread works end to end. For a thread structure that is not in use, a stack
  of at least 72 bytes that does not wrap around the address space, and a valid priority, \<open>rt_thread_init\<close>
  succeeds: the initial stack pointer is 8-byte aligned, the 64-byte frame lies inside the
  stack and the guard byte is intact, so the overflow check of the scheduler accepts the thread. In
  memory at the stack pointer is the frame that makes the first switch to the thread call its entry
  function with its parameter and return to \<open>texit\<close> (\<open>rt_thread_exit\<close>) in Thumb state: \<open>pc\<close>, \<open>r0\<close>,
  \<open>lr\<close> and \<open>psr\<close> have these values, \<open>r4\<close> to \<open>r11\<close> the debug pattern, the other registers 0.
  \<open>rt_thread_startup\<close> then succeeds and makes the thread running, or ready in the queue of its priority, with
  the frame still on its stack. Both keep the invariant.
\<close>

theorem rt_thread_init_startup:
  assumes inv: "kinv k" and stack: "start \<noteq> 0" "72 \<le> unat sz" "unat start + unat sz < 2 ^ 32" and prio: "unat prio < 32"
    and new: "\<not> started (threads k t)" "\<forall>l. t \<notin> set (tlists k l)" "\<not> timer_linked (ThreadTimer t) k"
      "OThread t \<notin> set (containers k Class_Thread)" "OTimer (ThreadTimer t) \<notin> set (containers k Class_Timer)"
  shows "\<exists>k1 k2. rt_thread_init texit t nam ent par start sz prio tick k = Some (RT_EOK, k1) \<and> kinv k1 \<and>
    stat_of (threads k1 t) = RT_THREAD_INIT \<and> stack_check (threads k1 t) \<and>
    unat (sp (threads k1 t)) mod 8 = 0 \<and> unat start < unat (sp (threads k1 t)) \<and>
    unat (sp (threads k1 t)) + 64 \<le> unat start + unat sz \<and>
    stack_frame_at (sp (threads k1 t)) (stack_mem (threads k1 t)) =
      \<lparr>f_r4 = 0xdeadbeef, f_r5 = 0xdeadbeef, f_r6 = 0xdeadbeef, f_r7 = 0xdeadbeef, f_r8 = 0xdeadbeef, f_r9 = 0xdeadbeef,
       f_r10 = 0xdeadbeef, f_r11 = 0xdeadbeef, f_r0 = par, f_r1 = 0, f_r2 = 0, f_r3 = 0, f_r12 = 0, f_lr = texit,
       f_pc = ent, f_psr = 0x01000000\<rparr> \<and>
    rt_thread_startup t k1 = Some (RT_EOK, k2) \<and> kinv k2 \<and>
    stat_of (threads k2 t) \<in> {RT_THREAD_READY, RT_THREAD_RUNNING} \<and>
    current_priority (threads k2 t) = prio \<and>
    (stat_of (threads k2 t) = RT_THREAD_READY \<longrightarrow> t \<in> set (tlists k2 (Ready (unat prio)))) \<and>
    sp (threads k2 t) = sp (threads k1 t) \<and> stack_mem (threads k2 t) = stack_mem (threads k1 t)"
proof -
  obtain stk m where stk: "init_stack_of texit ent par start sz (stack_mem (threads k t)) = (stk, m)" by fastforce
  note w = stk [unfolded init_stack_of_def]
  have "stk = fst (rt_hw_stack_init ent par (start + sz - 4) texit (fill start (unat sz) 35 (stack_mem (threads k t))))"
    using w by simp
  note b = stack_pointer_bounds [OF stack(2,3) this]
  let ?f = "init_fields_of stk m ent par start sz prio tick"
  have i: "rt_object_get_information Class_Thread = Some Class_Thread" by (simp add: rt_object_get_information_def)
  have fresh: "fresh_obj (OThread t) k" using new(1) by simp
  obtain k1 where k1: "rt_object_init (OThread t) Class_Thread nam k = Some k1" "kinv k1" "waits k1 = waits k"
      "same_threads k k1"
      and h: "hdr k1 = (hdr k)(OThread t := (hdr k (OThread t))\<lparr>o_type := Class_Thread OR Class_Static, o_name := rt_strncpy nam 8\<rparr>)"
      and f: "containers k1 = (containers k)(Class_Thread := OThread t # containers k Class_Thread)" "tmlists k1 = tmlists k"
    using object_init_kinv [OF inv i new(4) fresh, of nam] by (elim exE conjE) (rule that, assumption+)
  have st1: "\<not> started (threads k1 t)" using new(1) same_threadsD(1) [OF k1(4)] by simp
  have nl: "t \<notin> set (tlists k1 l)" for l
  proof (cases l)
    case (Ready p)
    then show ?thesis using qinvD(2) [OF kinvD(5) [OF k1(2)], of t l] st1 by (auto simp: started_def)
  qed (use new(2) k1(3) in \<open>auto simp: waits_def fun_eq_iff\<close>)
  let ?k = "upd_thread t ?f k1"
  have inv2: "kinv ?k" using kinv_upd_unstarted [OF k1(2) st1 nl] by simp
  have "\<not> timer_linked (ThreadTimer t) ?k" using new(3) f(2) by (simp add: timer_linked_def)
  moreover have "OTimer (ThreadTimer t) \<notin> set (containers ?k Class_Timer)" using new(5) f(1) by simp
  moreover have "rt_object_get_type (OThread t) ?k = Class_Thread" using h by (simp add: rt_object_get_type_def)
  ultimately obtain k2 where k2: "rt_timer_init (ThreadTimer t) (o_name (hdr k1 (OThread t))) (Rt_Thread_Timeout t) 0 0 ?k = Some k2"
      "kinv k2" "same_threads ?k k2" "tcb_ok t k2"
    using thread_timer_init_ok [OF inv2, of t "o_name (hdr k1 (OThread t))"] by auto
  have init: "rt_thread_init texit t nam ent par start sz prio tick k = Some (RT_EOK, k2)"
    using stack(1) k1(1) k2(1) init_fields_eq [OF prio, of texit ent par start sz k1 t stk m] stk same_threadsD(3) [OF k1(4), of t]
    by (auto simp: rt_thread_init_def)
  obtain s where s: "threads k2 t = (?f (threads k1 t))\<lparr>t_stat := s\<rparr>"
    using same_threadsD(3) [OF k2(3), of t] by auto
  have st2: "stat_of (threads k2 t) = RT_THREAD_INIT"
  proof -
    have "stat_of (threads k2 t) = stat_of (threads ?k t) \<or>
        stat_of (threads ?k t) \<in> {RT_THREAD_READY, RT_THREAD_RUNNING}"
      using k2(3) unfolding same_threads_def by blast
    then show ?thesis by simp
  qed
  have sc: "stack_check (threads k2 t)"
    using init_fields_stack [OF stack(2,3) stk, of prio tick "threads k1 t"] s by (simp add: stack_check_def)
  have p: "init_priority (threads k2 t) = prio" "sp (threads k2 t) = stk" "stack_mem (threads k2 t) = m"
    using s by (simp_all add: init_fields_of_def)
  obtain k3 where k3: "rt_thread_startup t k2 = Some (RT_EOK, k3)" "kinv k3"
      "stat_of (threads k3 t) \<in> {RT_THREAD_READY, RT_THREAD_RUNNING}" "current_priority (threads k3 t) = prio"
      "sp (threads k3 t) = sp (threads k2 t)" "stack_mem (threads k3 t) = stack_mem (threads k2 t)"
    using startup_ok [OF k2(2) st2 k2(4) sc] prio p(1) by auto
  moreover have "t \<in> set (tlists k3 (Ready (unat prio)))" if "stat_of (threads k3 t) = RT_THREAD_READY"
    using qinvD(4) [OF kinvD(5) [OF k3(2)] that] k3(4) by simp
  moreover note stack_init_frame [OF w]
  ultimately show ?thesis using init k2(2) st2 sc p b by (intro exI [of _ k2] exI [of _ k3]) simp
qed

theorem rt_thread_init_startup_witness:
  "\<exists>k1 k2. rt_thread_init 0x08000100 7 ''serial'' 0x08000200 9 0x20001000 512 25 10 demo_timed = Some (RT_EOK, k1) \<and>
    stack_check (threads k1 7) \<and>
    f_pc (stack_frame_at (sp (threads k1 7)) (stack_mem (threads k1 7))) = 0x08000200 \<and>
    f_r0 (stack_frame_at (sp (threads k1 7)) (stack_mem (threads k1 7))) = 9 \<and> rt_thread_startup 7 k1 = Some (RT_EOK, k2) \<and> kinv k2 \<and>
    current_priority (threads k2 7) = 25"
proof -
  have "containers demo_timed = (\<lambda>_. [])" by (simp add: demo_timed_def demo_kernel_def zero_kernel_def)
  moreover have "7 \<notin> set (tlists demo_timed l)" for l by simp
  ultimately show ?thesis
    using rt_thread_init_startup [OF demo_timed_kinv, where start = "0x20001000" and sz = 512 and prio = 25
        and t = 7 and texit = "0x08000100" and nam = "''serial''" and ent = "0x08000200" and par = 9 and tick = 10]
    by (fastforce simp: started_def timer_linked_def)
qed

text \<open>
  \<open>rt_thread_sleep\<close> by the running thread: it becomes suspended, its timer waits in the
  system list for the tick \<open>tick\<close> ticks ahead, another thread runs if one is ready, and the
  kernel invariant holds, so that the tick handler will wake it (see \<open>rt_timer_check_correct\<close>).
\<close>

theorem rt_thread_sleep_correct:
  assumes "kinv k" "cur k = Some t" "stat_of (threads k t) = RT_THREAD_RUNNING" "tick < RT_TICK_HALF"
  shows "\<exists>k'. rt_thread_sleep tick k = Some k' \<and> kinv k' \<and> stat_of (threads k' t) = RT_THREAD_SUSPEND \<and>
    ThreadTimer t \<in> set (tmlists k' HardList) \<and> tticks k' (ThreadTimer t) = rt_tick k + tick \<and>
    (lock_nest k = 0 \<and> (\<exists>u. stat_of (threads k u) = RT_THREAD_READY) \<longrightarrow> cur k' \<noteq> Some t)"
proof -
  have "rt_object_get_type (OThread t) k = Class_Thread"
    using tt_invD(1) [OF kinvD(4) [OF assms(1)], of t] assms(3) by (simp add: started_def tcb_ok_def)
  then have "rt_thread_sleep tick k = sleep_for t tick k"
    using assms(2) by (simp add: rt_thread_sleep_def rt_thread_self_def)
  then show ?thesis using sleep_for_ok [OF assms] by auto
qed

theorem rt_thread_sleep_correct_witness:
  "\<exists>k'. rt_thread_sleep 50 demo_timed = Some k' \<and> kinv k' \<and> stat_of (threads k' 0) = RT_THREAD_SUSPEND \<and>
    tticks k' (ThreadTimer 0) = 150 \<and> cur k' \<noteq> Some 0"
proof -
  have "\<exists>u. stat_of (threads demo_timed u) = RT_THREAD_READY" by (rule exI [of _ 1]) simp
  then show ?thesis using rt_thread_sleep_correct [OF demo_timed_kinv, of 0 50] by auto
qed

text \<open>
  Changing the priority of a started thread (ready, running or waiting) to a valid one
  succeeds and keeps the kernel invariant: priority and bit mask agree, a ready thread is moved to
  the queue of its new priority, the thread keeps its state, and no other thread changes.
\<close>

theorem rt_thread_control_priority:
  assumes "kinv k" "started (threads k t)" "unat p < 32"
  shows "\<exists>k'. rt_thread_control cl t 2 p k = Some (RT_EOK, k') \<and> kinv k' \<and>
    current_priority (threads k' t) = p \<and> number_mask (threads k' t) = 2 ^ unat p \<and>
    stat_of (threads k' t) = stat_of (threads k t) \<and> (\<forall>u. u \<noteq> t \<longrightarrow> threads k' u = threads k u) \<and>
    waits k' = waits k \<and>
    (stat_of (threads k t) = RT_THREAD_READY \<longrightarrow> t \<in> set (tlists k' (Ready (unat p))))"
proof -
  obtain k' where k': "rt_thread_control cl t 2 p k = Some (RT_EOK, k')" "kinv k'" "waits k' = waits k"
      "threads k' = (threads k)(t := (threads k' t))" "stat_of (threads k' t) = stat_of (threads k t)"
      and s: "\<exists>s. threads k' t = (change_priority p (threads k t))\<lparr>t_stat := s\<rparr>"
    using control_priority_ok [OF assms, of cl] by blast
  have c: "current_priority (threads k' t) = p" "number_mask (threads k' t) = 2 ^ unat p"
    using s by (auto simp: change_priority_def push_bit_of_1)
  have "threads k' u = threads k u" if "u \<noteq> t" for u using that k'(4) by (metis fun_upd_apply)
  moreover have "t \<in> set (tlists k' (Ready (unat p)))" if "stat_of (threads k t) = RT_THREAD_READY"
    using qinvD(4) [OF kinvD(5) [OF k'(2)], of t] that k'(5) c(1) by simp
  ultimately show ?thesis using k'(1,2,3,5) c by blast
qed

theorem rt_thread_control_priority_witness:
  "\<exists>k'. rt_thread_control (\<lambda>c t k. None) 2 2 1 demo_timed = Some (RT_EOK, k') \<and> kinv k' \<and>
    current_priority (threads k' 2) = 1 \<and> 2 \<in> set (tlists k' (Ready 1))"
  using rt_thread_control_priority [OF demo_timed_kinv, of 2 1 "\<lambda>c t k. None"] by (auto simp: started_def)

section \<open>Deleting a thread\<close>

text \<open>The state after \<open>rt_timer_detach\<close>.\<close>

definition timer_gone :: "tmid \<Rightarrow> kernel \<Rightarrow> kernel" where
  "timer_gone m k = rt_object_detach (OTimer m) (clear_flag m RT_TIMER_FLAG_ACTIVATED (tm_remove m k))"

lemma timer_gone_sel [simp]:
  "threads (timer_gone m k) = threads k" "tlists (timer_gone m k) = tlists k"
  "ready_group (timer_gone m k) = ready_group k" "cur (timer_gone m k) = cur k" "timers (timer_gone m k) = timers k"
  "tmlists (timer_gone m k) = (\<lambda>l. remove1 m (tmlists k l))"
  "r \<noteq> OTimer m \<Longrightarrow> hdr (timer_gone m k) r = hdr k r"
  "rt_object_get_type (OTimer m) (timer_gone m k) = 0"
  by (simp_all add: timer_gone_def rt_object_detach_def container_remove_def fun_eq_iff clear_flag_def
      rt_object_get_type_def)

lemma timer_gone_unlinked: "tm_inv k \<Longrightarrow> \<not> timer_linked m (timer_gone m k)"
  by (simp add: timer_linked_iff tm_remove_set)

lemma timer_detach_eq:
  assumes "tcb_ok t k"
  shows "rt_timer_detach (ThreadTimer t) k = Some (RT_EOK, timer_gone (ThreadTimer t) k)"
  using assms by (simp add: rt_timer_detach_def timer_gone_def tcb_ok_def)

lemma tm_inv_timer_gone:
  assumes "tm_inv k"
  shows "tm_inv (timer_gone m k)"
  using tm_inv_unlink [OF assms, of m]
proof (rule tm_inv_hdr)
  show "\<not> timer_linked m (clear_flag m 1 (tm_remove m k))"
    using assms by (simp add: timer_linked_iff tm_remove_set)
qed (simp_all add: timer_gone_def rt_object_detach_def container_remove_def timer_activated_def clear_flag_def and.assoc)

lemma tt_invI:
  assumes "\<And>t. started (threads k t) \<Longrightarrow> tcb_ok t k"
    and "\<And>t. ThreadTimer t \<in> set (tmlists k HardList) \<union> set (tmlists k SoftList) \<Longrightarrow>
       stat_of (threads k t) = RT_THREAD_SUSPEND"
    and "\<And>n. \<exists>f p. timeout_func (timers k (UserTimer n)) = User_Timeout f p"
  shows "tt_inv k"
  using assms unfolding tt_inv_def by blast

text \<open>Closing a thread that has left its queue and whose timer is detached.\<close>

lemma kinv_close:
  assumes inv: "sched_inv k" "stacks_ok k" "tm_inv k" "tt_inv k" and q: "qinv {t} k1" "sched_only k k1"
    and th: "threads k1 = threads k" "cur k1 = cur k"
    and k2: "k2 = upd_thread t (\<lambda>th. th\<lparr>t_stat := RT_THREAD_CLOSE\<rparr>) (timer_gone (ThreadTimer t) k1)"
  shows "kinv (tl_push Defunct t k2)"
proof (rule kinvI)
  let ?g = "\<lambda>th. th\<lparr>t_stat := RT_THREAD_CLOSE\<rparr>"
  let ?k = "tl_push Defunct t k2"
  note f = sched_onlyD [OF q(2)]
  have g: "stat_of (?g x) = RT_THREAD_CLOSE" "\<not> started (?g x)" for x by (simp_all add: stat_of_def started_def)
  have sel: "threads ?k = (threads k)(t := ?g (threads k t))" "cur ?k = cur k" "timers ?k = timers k"
      "hdr ?k = hdr (timer_gone (ThreadTimer t) k1)" "tmlists ?k = (\<lambda>l. remove1 (ThreadTimer t) (tmlists k l))"
    using th f(6,7) by (simp_all add: tl_push_def k2)
  have "qinv {t} (timer_gone (ThreadTimer t) k1)" using q(1) qinv_cong [of "timer_gone (ThreadTimer t) k1" k1] by simp
  then have q2: "qinv (insert t {}) k2" unfolding k2 using g(2) by (intro qinv_upd_transit) simp_all
  have q3: "qinv {} ?k"
    unfolding tl_push_def using g(1) qinvD(3) [OF q2, of t Defunct] qinvD(6) [OF q2, of Defunct]
    by (intro qinv_enlist [OF q2]) (auto simp: k2)
  show "sched_inv ?k"
  proof (rule sched_invI [OF q3])
    show "cur ?k = Some u" if "stat_of (threads ?k u) = RT_THREAD_RUNNING" for u
      using that sched_invD(2) [OF inv(1), of u] g(1) unfolding sel by (cases "u = t") simp_all
    show "stat_of (threads ?k d) \<noteq> RT_THREAD_READY" if "cur ?k = Some d" for d
      using that sched_invD(3) [OF inv(1), of d] g(1) unfolding sel by (cases "d = t") simp_all
  qed
  show "stacks_ok ?k" using inv(2) g(2) unfolding stacks_ok_def sel by simp
  have "tm_inv k1" using tm_inv_cong [OF f(1,7)] inv(3) by simp
  then show "tm_inv ?k" using tm_inv_timer_gone [of k1 "ThreadTimer t"] tm_inv_cong [of ?k "timer_gone (ThreadTimer t) k1"]
    sel f(7) by simp
  show "tt_inv ?k"
  proof (rule tt_invI)
    show "tcb_ok u ?k" if "started (threads ?k u)" for u
    proof -
      have u: "u \<noteq> t" "started (threads k u)" using that g(2) sel(1) by (cases "u = t"; simp)+
      then show ?thesis
        using tt_invD(1) [OF inv(4), of u] sel f(1)
        by (simp add: tcb_ok_def timer_flag_defs rt_object_get_type_def rt_object_is_systemobject_def)
    qed
    show "stat_of (threads ?k u) = RT_THREAD_SUSPEND"
      if "ThreadTimer u \<in> set (tmlists ?k HardList) \<union> set (tmlists ?k SoftList)" for u
      using that tt_invD(2,3) [OF inv(4), of u] tm_remove_set [OF inv(3)] unfolding sel by (cases "u = t") auto
  qed (use tt_invD(4) [OF inv(4)] sel(3) in simp)
qed

text \<open>
  C9: \<open>rt_thread_delete\<close> of a dynamic thread in any started state without a cleanup function:
  the thread leaves every queue it was in, its timer is stopped and removed from the object system,
  and it goes to the list of defunct threads, with the kernel invariant kept.
\<close>

theorem rt_thread_delete_correct:
  assumes inv: "kinv k" and st: "started (threads k t)" and dyn: "\<not> rt_object_is_systemobject (OThread t) k"
    and cl: "cleanup (threads k t) = None"
  shows "\<exists>k'. rt_thread_delete cl t k = Some (RT_EOK, k') \<and> kinv k' \<and>
    stat_of (threads k' t) = RT_THREAD_CLOSE \<and> tlists k' Defunct = t # tlists k Defunct \<and>
    (\<forall>l. l \<noteq> Defunct \<longrightarrow> t \<notin> set (tlists k' l)) \<and> \<not> timer_linked (ThreadTimer t) k' \<and>
    rt_object_get_type (OTimer (ThreadTimer t)) k' = 0"
proof -
  let ?m = "ThreadTimer t"
  have tcb: "tcb_ok t k" by (rule tt_invD(1) [OF kinvD(4) [OF inv] st])
  note q = kinvD(5) [OF inv]
  have p: "prio_ok (threads k t)" by (rule qinvD(5) [OF q st])
  have nst: "stat_of (threads k t) \<noteq> RT_THREAD_CLOSE" "stat_of (threads k t) \<noteq> RT_THREAD_INIT"
    using st by (auto simp: started_def)
  obtain k1 where k1: "rt_schedule_remove_thread t k = Some k1" "qinv {t} k1"
    using remove_thread_qinv [OF q p] by auto
  note only = remove_thread_only [OF k1(1)]
  note f = sched_onlyD [OF only]
  have th1: "threads k1 = threads k" "cur k1 = cur k" "tlists k1 = (\<lambda>l. remove1 t (tlists k l))"
    using k1(1) remove_thread_eq [OF p] by auto
  define k2 where "k2 = upd_thread t (\<lambda>th. th\<lparr>t_stat := RT_THREAD_CLOSE\<rparr>) (timer_gone ?m k1)"
  have "tcb_ok t k1" using tcb tcb_ok_cong [OF f(1,6)] by simp
  then have "rt_thread_delete cl t k = Some (RT_EOK, tl_push Defunct t k2)"
    using tcb dyn nst k1(1) timer_detach_eq cl th1 unfolding rt_thread_delete_def k2_def
    by (simp add: tcb_ok_def thread_cleanup_execute_def)
  moreover have "kinv (tl_push Defunct t k2)"
    by (rule kinv_close [OF kinvD(1-4) [OF inv] k1(2) only th1(1,2) k2_def])
  moreover have "tlists (tl_push Defunct t k2) Defunct = t # tlists k Defunct"
    using th1(3) qinvD(2) [OF q, of t Defunct] nst by (auto simp: tl_push_def k2_def intro: remove1_idem)
  moreover have "t \<notin> set (tlists (tl_push Defunct t k2) l)" if "l \<noteq> Defunct" for l
    using that qinvD(3) [OF k1(2), of t l] by (auto simp: tl_push_def k2_def)
  moreover have "\<not> timer_linked ?m (tl_push Defunct t k2)"
    using tm_remove_set [OF kinvD(3) [OF inv]] f(7) by (simp add: timer_linked_iff tl_push_def k2_def)
  moreover have "rt_object_get_type (OTimer ?m) (tl_push Defunct t k2) = 0"
    using timer_gone_sel(8) by (simp add: tl_push_def k2_def rt_object_get_type_def)
  moreover have "stat_of (threads (tl_push Defunct t k2) t) = RT_THREAD_CLOSE"
    by (simp add: tl_push_def k2_def stat_of_def)
  ultimately show ?thesis by blast
qed

definition demo_dynamic :: kernel where
  "demo_dynamic = upd_hdr (OThread 3) (\<lambda>h. h\<lparr>o_type := Class_Thread\<rparr>) demo_timed"

lemma demo_dynamic_kinv: "kinv demo_dynamic"
proof -
  have "tm_inv demo_dynamic"
    using kinvD(3) [OF demo_timed_kinv]
    unfolding tm_inv_def demo_dynamic_def timer_flag_defs rt_object_get_type_def by simp
  moreover have "tt_inv demo_dynamic"
    using kinvD(4) [OF demo_timed_kinv]
    unfolding tt_inv_def tcb_ok_def demo_dynamic_def timer_flag_defs rt_object_get_type_def rt_object_is_systemobject_def
    by simp
  ultimately show ?thesis using kinvD(1,2) [OF demo_timed_kinv] by (simp add: kinv_def demo_dynamic_def)
qed

theorem rt_thread_delete_correct_witness:
  "\<exists>k'. rt_thread_delete (\<lambda>c t k. None) 3 demo_dynamic = Some (RT_EOK, k') \<and> kinv k' \<and>
    tlists k' Defunct = [3] \<and> 3 \<notin> set (tlists k' (Suspend 0))"
proof -
  have "started (threads demo_dynamic 3)" "\<not> rt_object_is_systemobject (OThread 3) demo_dynamic"
    "cleanup (threads demo_dynamic 3) = None" "tlists demo_dynamic Defunct = []"
    by (simp_all add: demo_dynamic_def started_def rt_object_is_systemobject_def stat_of_def demo_thread_def zero_thread_def)
  then show ?thesis
    using rt_thread_delete_correct [OF demo_dynamic_kinv, of 3 "\<lambda>c t k. None"] by auto
qed

end
