(* ===== verification/RT_Clock.thy ===== *)
theory RT_Clock
  imports RT_Thread
begin

unbundle bit_operations_syntax

text \<open>
  The system tick (\<open>src/clock.c\<close>) and the interrupt nesting counter (\<open>src/irq.c\<close>). The tick
  handler ties the scheduler, the time slices and the timers together.
\<close>

section \<open>Operations\<close>

definition rt_tick_get :: "kernel \<Rightarrow> u32" where
  "rt_tick_get k = rt_tick k"

definition rt_tick_set :: "u32 \<Rightarrow> kernel \<Rightarrow> kernel" where
  "rt_tick_set tick k = k\<lparr>rt_tick := tick\<rparr>"

text \<open>Before the scheduler is started there is no current thread to charge: \<open>None\<close>.\<close>

definition rt_tick_increase :: "callbacks \<Rightarrow> kernel \<Rightarrow> kernel option" where
  "rt_tick_increase cb k =
    do {
      let k = k\<lparr>rt_tick := rt_tick k + 1\<rparr>;
      t \<leftarrow> rt_thread_self k;
      let k = upd_thread t (\<lambda>th. th\<lparr>remaining_tick := remaining_tick th - 1\<rparr>) k;
      k \<leftarrow> (if remaining_tick (threads k t) = 0 then rt_schedule (upd_thread t slice_over k) else Some k);
      rt_timer_check cb k
    }"

text \<open>\<open>RT_TICK_PER_SECOND = 1000\<close>; the arithmetic is that of C's \<open>int\<close>.\<close>

definition rt_tick_from_millisecond :: "u32 \<Rightarrow> u32" where
  "rt_tick_from_millisecond ms =
    (if sint ms < 0 then 0xFFFFFFFF
     else let tick = word_of_int (1000 * (sint ms div 1000))
          in tick + word_of_int ((1000 * (sint ms mod 1000) + 999) div 1000))"

definition rt_tick_get_millisecond :: "kernel \<Rightarrow> u32" where
  "rt_tick_get_millisecond k = rt_tick_get k * (1000 div 1000)"

definition rt_thread_mdelay :: "u32 \<Rightarrow> kernel \<Rightarrow> kernel option" where
  "rt_thread_mdelay ms k = rt_thread_sleep (rt_tick_from_millisecond ms) k"

definition rt_interrupt_enter :: "kernel \<Rightarrow> kernel" where
  "rt_interrupt_enter k = k\<lparr>interrupt_nest := interrupt_nest k + 1\<rparr>"

definition rt_interrupt_leave :: "kernel \<Rightarrow> kernel" where
  "rt_interrupt_leave k = k\<lparr>interrupt_nest := interrupt_nest k - 1\<rparr>"

definition rt_interrupt_get_nest :: "kernel \<Rightarrow> u8" where
  "rt_interrupt_get_nest k = interrupt_nest k"

section \<open>Facts\<close>

lemma kinv_tick: "kinv (k\<lparr>rt_tick := n\<rparr>) = kinv k"
proof -
  have "tm_inv (k\<lparr>rt_tick := n\<rparr>) = tm_inv k" by (rule tm_inv_cong) simp_all
  moreover have "tcb_ok t (k\<lparr>rt_tick := n\<rparr>) = tcb_ok t k" for t by (rule tcb_ok_cong) simp_all
  then have "tt_inv (k\<lparr>rt_tick := n\<rparr>) = tt_inv k" unfolding tt_inv_def by simp
  ultimately show ?thesis by (simp add: kinv_def)
qed

lemma slice_over_sel [simp]:
  "stat_of (slice_over th) = stat_of th" "current_priority (slice_over th) = current_priority th"
  "number_mask (slice_over th) = number_mask th" "stack_check (slice_over th) = stack_check th"
  by (simp_all add: slice_over_def stat_of_def stack_check_def bit.conj_disj_distrib2)

text \<open>Changes of a thread structure that do not touch state, priority and stack.\<close>

lemma kinv_upd_same:
  assumes inv: "kinv k" and f: "stat_of (f (threads k t)) = stat_of (threads k t)"
    "current_priority (f (threads k t)) = current_priority (threads k t)"
    "number_mask (f (threads k t)) = number_mask (threads k t)"
    "stack_check (f (threads k t)) = stack_check (threads k t)"
  shows "kinv (upd_thread t f k)"
proof (rule kinvI)
  have "qinv {} (upd_thread t f k)" using qinv_upd_same [OF kinvD(5) [OF inv]] f by simp
  then show "sched_inv (upd_thread t f k)"
    using sched_inv_upd_thread [OF kinvD(1) [OF inv]] f(1) sched_invD(2,3) [OF kinvD(1) [OF inv], of t] by simp
  have st: "started (f (threads k t)) = started (threads k t)" using f(1) by (simp add: started_def)
  then show "stacks_ok (upd_thread t f k)"
    using stacks_ok_upd_thread [OF kinvD(2) [OF inv], of f t] f(4) kinvD(2) [OF inv] by (simp add: stacks_ok_def)
  show "tm_inv (upd_thread t f k)" using kinvD(3) [OF inv] by simp
  show "tt_inv (upd_thread t f k)"
    using kinvD(4) [OF inv] st f(1) unfolding tt_inv_def by auto
qed

lemma check_pre_transfer:
  assumes "check_pre b k" "kinv k'" "cur k' \<noteq> None" "hdr k' = hdr k" "timers k' = timers k"
    "tmlists k' = tmlists k" "rt_tick k' = rt_tick k"
  shows "check_pre b k'"
  using assms unfolding check_pre_def by (simp add: timer_flag_defs)

section \<open>Properties\<close>

text \<open>
  The tick handler \<open>rt_tick_increase\<close> always returns in a system that satisfies the kernel
  invariant and whose timers are in order: the clock advances by one, the invariant
  holds, no hard timer that is due is left in the list, and every suspended thread whose
  time-out is reached by the new tick has been woken.
\<close>

theorem rt_tick_increase_correct:
  assumes cb: "callbacks_ok cb" and pre: "check_pre b (k\<lparr>rt_tick := rt_tick k + 1\<rparr>)"
  shows "\<exists>k'. rt_tick_increase cb k = Some k' \<and> kinv k' \<and> rt_tick k' = rt_tick k + 1 \<and>
    (\<forall>t\<in>set (tmlists k' HardList). \<not> timer_expired (rt_tick k') t k') \<and>
    (\<forall>u. ThreadTimer u \<in> set (tmlists k HardList) \<and> timer_expired (rt_tick k + 1) (ThreadTimer u) k \<longrightarrow>
       stat_of (threads k' u) \<noteq> RT_THREAD_SUSPEND)"
proof -
  let ?k = "k\<lparr>rt_tick := rt_tick k + 1\<rparr>"
  obtain t where t: "cur ?k = Some t" using check_preD(2) [OF pre] by auto
  let ?k1 = "upd_thread t (\<lambda>th. th\<lparr>remaining_tick := remaining_tick th - 1\<rparr>) ?k"
  have inv1: "kinv ?k1" using check_preD(1) [OF pre] by (intro kinv_upd_same) (simp_all add: stack_check_def)
  have "\<exists>k2. (if remaining_tick (threads ?k1 t) = 0 then rt_schedule (upd_thread t slice_over ?k1) else Some ?k1) = Some k2 \<and>
      kinv k2 \<and> cur k2 \<noteq> None \<and> sched_only ?k k2"
  proof (cases "remaining_tick (threads ?k1 t) = 0")
    case True
    have "kinv (upd_thread t slice_over ?k1)" by (rule kinv_upd_same [OF inv1]) simp_all
    then show ?thesis using True rt_schedule_kinv [of "upd_thread t slice_over ?k1"] t by auto
  next
    case False
    then show ?thesis using inv1 t by simp
  qed
  then obtain k2 where k2: "(if remaining_tick (threads ?k1 t) = 0 then rt_schedule (upd_thread t slice_over ?k1) else Some ?k1) = Some k2"
      "kinv k2" "cur k2 \<noteq> None" "sched_only ?k k2" by blast
  note f = sched_onlyD [OF k2(4)]
  have pre2: "check_pre b k2" using check_pre_transfer [OF pre k2(2,3)] f by simp
  have eq: "k2\<lparr>tmlists := (tmlists k2)(HardTemp := [])\<rparr> = k2"
    using check_preD(3) [OF pre2] by (simp add: fun_upd_idem)
  obtain k3 where k3: "timer_check_loop cb (rt_tick k2) k2 = Some k3" "check_pre b k3" "rt_tick k3 = rt_tick k2"
      "expired_set k3 = {}" "still_waiting k2 k3"
    using timer_check_loop_ok [OF cb pre2] by blast
  have "rt_tick_increase cb k = Some k3"
    using t k2(1) k3(1) eq unfolding rt_tick_increase_def
    by (simp add: rt_thread_self_def rt_timer_check_def Let_def)
  moreover have "stat_of (threads k3 u) \<noteq> RT_THREAD_SUSPEND"
    if "ThreadTimer u \<in> set (tmlists k HardList)" "timer_expired (rt_tick k + 1) (ThreadTimer u) k" for u
    using that k3(3,4,5) f unfolding still_waiting_def expired_set_def timer_expired_def by auto
  ultimately show ?thesis
    using check_preD(1) [OF k3(2)] k3(3,4) f(5) by (auto simp: expired_set_def)
qed

theorem rt_tick_increase_correct_witness:
  "\<exists>k'. rt_tick_increase (\<lambda>f p k. Some k) (demo_timed\<lparr>rt_tick := 99\<rparr>) = Some k' \<and> kinv k' \<and>
    rt_tick k' = 100 \<and> stat_of (threads k' 3) \<noteq> RT_THREAD_SUSPEND"
proof -
  have "check_pre 90 (demo_timed\<lparr>rt_tick := 100\<rparr>)"
    using check_pre_transfer [OF demo_timed_check_pre, of "demo_timed\<lparr>rt_tick := 100\<rparr>"] demo_timed_kinv
    by (simp add: kinv_tick)
  then show ?thesis
    using rt_tick_increase_correct [OF callbacks_ok_skip, of 90 "demo_timed\<lparr>rt_tick := 99\<rparr>"]
    by (auto simp: timer_expired_def)
qed

text \<open>
  At 1000 ticks per second the conversion from milliseconds is exact for every
  non-negative argument, and a negative one means to wait forever.
\<close>

theorem rt_tick_from_millisecond_exact:
  "rt_tick_from_millisecond ms = (if sint ms < 0 then 0xFFFFFFFF else ms)"
proof (cases "sint ms < 0")
  case False
  let ?a = "sint ms"
  have "(1000 * (?a mod 1000) + 999) div 1000 = ?a mod 1000" by simp
  moreover have "word_of_int (1000 * (?a div 1000)) + word_of_int (?a mod 1000) = (word_of_int ?a :: u32)"
    by (metis of_int_add mult_div_mod_eq)
  ultimately show ?thesis
    using False unfolding rt_tick_from_millisecond_def Let_def by (simp only: if_False of_int_sint scast_id)
qed (simp add: rt_tick_from_millisecond_def)

end
