(* ===== verification/RT_IPC.thy ===== *)
theory RT_IPC
  imports RT_Clock
begin

unbundle bit_operations_syntax

text \<open>
  The part of \<open>src/ipc.c\<close> that all IPC objects share: the list of suspended threads, in arrival order or
  in priority order, and waking its first thread or all of them. The list of
  object \<open>i\<close> is \<open>Suspend i\<close>; mailboxes and message queues have a second one, \<open>Sender i\<close>.
\<close>

section \<open>Operations\<close>

definition rt_ipc_object_init :: "nat \<Rightarrow> kernel \<Rightarrow> kernel" where
  "rt_ipc_object_init i k = k\<lparr>tlists := (tlists k)(Suspend i := [])\<rparr>"

fun prio_insert :: "(tid \<Rightarrow> u8) \<Rightarrow> tid \<Rightarrow> tid list \<Rightarrow> tid list" where
  "prio_insert pr t [] = [t]"
| "prio_insert pr t (s # ss) = (if pr t < pr s then t # s # ss else s # prio_insert pr t ss)"

definition fifo_insert :: "(tid \<Rightarrow> u8) \<Rightarrow> tid \<Rightarrow> tid list \<Rightarrow> tid list" where
  "fifo_insert pr t ts = ts @ [t]"

definition rt_ipc_list_suspend :: "lid \<Rightarrow> tid \<Rightarrow> u8 \<Rightarrow> kernel \<Rightarrow> kernel option" where
  "rt_ipc_list_suspend l t flag k =
    do {
      (_, k) \<leftarrow> rt_thread_suspend t k;
      let pr = (\<lambda>u. current_priority (threads k u));
      Some (if flag = RT_IPC_FLAG_FIFO then k\<lparr>tlists := (tlists k)(l := fifo_insert pr t (tlists k l))\<rparr>
            else if flag = RT_IPC_FLAG_PRIO then k\<lparr>tlists := (tlists k)(l := prio_insert pr t (tlists k l))\<rparr>
            else k)
    }"

text \<open>On an empty list the list head would be read as a thread: \<open>None\<close>.\<close>

definition rt_ipc_list_resume :: "lid \<Rightarrow> kernel \<Rightarrow> kernel option" where
  "rt_ipc_list_resume l k =
    (case tlists k l of
       [] \<Rightarrow> None
     | t # _ \<Rightarrow> do { (_, k) \<leftarrow> rt_thread_resume t k; Some k })"

partial_function (option) rt_ipc_list_resume_all :: "lid \<Rightarrow> kernel \<Rightarrow> kernel option" where
  "rt_ipc_list_resume_all l k =
    (case tlists k l of
       [] \<Rightarrow> Some k
     | t # _ \<Rightarrow>
         do {
           (_, k) \<leftarrow> rt_thread_resume t (upd_thread t (\<lambda>th. th\<lparr>t_error := - RT_ERROR\<rparr>) k);
           rt_ipc_list_resume_all l k
         })"

text \<open>The common end of the blocking calls: the thread enters the waiting list, its timer is
  armed if there is a time-out (a positive \<open>rt_int32_t\<close>), and the processor is given away.\<close>

definition block_on :: "lid \<Rightarrow> tid \<Rightarrow> u8 \<Rightarrow> u32 \<Rightarrow> kernel \<Rightarrow> kernel option" where
  "block_on l t flag time k =
    do {
      k \<leftarrow> rt_ipc_list_suspend l t flag k;
      k \<leftarrow> (if 0 < sint time then arm_timer t time k else Some k);
      rt_schedule k
    }"

definition ipc_flag :: "nat \<Rightarrow> kernel \<Rightarrow> u8" where
  "ipc_flag i k = o_flag (hdr k (OIpc i))"

definition set_ipc_flag :: "nat \<Rightarrow> u8 \<Rightarrow> kernel \<Rightarrow> kernel" where
  "set_ipc_flag i flag = upd_hdr (OIpc i) (\<lambda>h. h\<lparr>o_flag := flag\<rparr>)"

text \<open>\<open>thread->error = e\<close>.\<close>

definition set_error :: "tid \<Rightarrow> rt_err_t \<Rightarrow> kernel \<Rightarrow> kernel" where
  "set_error t e = upd_thread t (\<lambda>th. th\<lparr>t_error := e\<rparr>)"

section \<open>The order of a waiting list\<close>

text \<open>What a waiting list must do with a new thread: take it in once and keep the order of the others.\<close>

locale wait_order =
  fixes ins :: "(tid \<Rightarrow> u8) \<Rightarrow> tid \<Rightarrow> tid list \<Rightarrow> tid list"
  assumes ins_split: "\<exists>xs ys. ts = xs @ ys \<and> ins pr t ts = xs @ t # ys"
begin

lemma set_ins: "set (ins pr t ts) = insert t (set ts)"
  using ins_split [of ts pr t] by auto

lemma distinct_ins: "distinct (ins pr t ts) \<longleftrightarrow> t \<notin> set ts \<and> distinct ts"
  using ins_split [of ts pr t] by auto

lemma remove1_ins:
  assumes "t \<notin> set ts"
  shows "remove1 t (ins pr t ts) = ts"
proof -
  obtain xs ys where "ts = xs @ ys" "ins pr t ts = xs @ t # ys" using ins_split by blast
  then show ?thesis using assms by (simp add: remove1_append)
qed

lemma kinv_ins:
  assumes "kinv k" "stat_of (threads k t) = RT_THREAD_SUSPEND" "\<And>l. t \<notin> set (tlists k l)" "l = Suspend i \<or> l = Sender i"
  shows "kinv (k\<lparr>tlists := (tlists k)(l := ins pr t (tlists k l))\<rparr>)"
  using assms qinvD(6) [OF kinvD(5) [OF assms(1)], of l]
  by (intro kinv_enlist [of k t l i]) (simp_all add: set_ins distinct_ins)

end

lemma fifo_insert_split: "\<exists>xs ys. ts = xs @ ys \<and> fifo_insert pr t ts = xs @ t # ys"
  by (intro exI [of _ ts] exI [of _ "[]"]) (simp add: fifo_insert_def)

interpretation fifo: wait_order fifo_insert
  by unfold_locales (rule fifo_insert_split)

lemma prio_insert_split: "\<exists>xs ys. ts = xs @ ys \<and> prio_insert pr t ts = xs @ t # ys"
proof (induction ts)
  case (Cons s ss)
  then obtain xs ys where "ss = xs @ ys" "prio_insert pr t ss = xs @ t # ys" by blast
  then have "s # ss = (if pr t < pr s then [] else s # xs) @ (if pr t < pr s then s # ss else ys)"
    "prio_insert pr t (s # ss) = (if pr t < pr s then [] else s # xs) @ t # (if pr t < pr s then s # ss else ys)"
    by simp_all
  then show ?case by blast
qed simp

interpretation prio: wait_order prio_insert
  by unfold_locales (rule prio_insert_split)

text \<open>In a list ordered by priority a new thread goes behind all threads of the same or higher
  priority and before all threads of lower priority (a higher number).\<close>

lemma prio_insert_sorted:
  assumes "sorted (map (\<lambda>u. unat (pr u)) ts)"
  shows "sorted (map (\<lambda>u. unat (pr u)) (prio_insert pr t ts))"
proof -
  have "set (prio_insert pr t ss) = insert t (set ss)" for ss by (rule prio.set_ins)
  then show ?thesis
    using assms by (induction ts) (auto simp: word_less_nat_alt not_less)
qed

section \<open>Blocking\<close>

text \<open>The insertion that a flag selects.\<close>

definition flag_insert :: "u8 \<Rightarrow> (tid \<Rightarrow> u8) \<Rightarrow> tid \<Rightarrow> tid list \<Rightarrow> tid list" where
  "flag_insert flag = (if flag = RT_IPC_FLAG_FIFO then fifo_insert else prio_insert)"

interpretation by_flag: wait_order "flag_insert flag" for flag
  unfolding flag_insert_def by unfold_locales (simp add: fifo_insert_split prio_insert_split)

abbreviation prio_of :: "kernel \<Rightarrow> tid \<Rightarrow> u8" where
  "prio_of k u \<equiv> current_priority (threads k u)"

lemma list_suspend_ok:
  assumes inv: "kinv k" and c: "cur k = Some t" "stat_of (threads k t) = RT_THREAD_RUNNING"
    and flag: "flag = RT_IPC_FLAG_FIFO \<or> flag = RT_IPC_FLAG_PRIO" and l: "l = Suspend i \<or> l = Sender i"
  shows "\<exists>k'. rt_ipc_list_suspend l t flag k = Some k' \<and> kinv k' \<and> data_frame k k' \<and> cur k' = cur k \<and>
    threads k' = (threads k)(t := set_stat RT_THREAD_SUSPEND (threads k t)) \<and>
    tlists k' l = flag_insert flag (prio_of k) t (tlists k l) \<and>
    (\<forall>m. m \<noteq> l \<and> (\<forall>p. m \<noteq> Ready p) \<longrightarrow> tlists k' m = tlists k m) \<and>
    \<not> timer_activated (ThreadTimer t) k'"
proof -
  obtain k1 where k1: "rt_thread_suspend t k = Some (RT_EOK, k1)" "kinv k1"
    "threads k1 = (threads k)(t := set_stat RT_THREAD_SUSPEND (threads k t))" "cur k1 = cur k"
    "waits k1 = waits k" "data_frame k k1" "\<And>l. t \<notin> set (tlists k1 l)" "\<not> timer_activated (ThreadTimer t) k1"
    using thread_suspend_ok [OF inv] c(2) by metis
  have pr: "prio_of k1 = prio_of k" using k1(3) by auto
  have w: "tlists k1 m = tlists k m" if "\<forall>p. m \<noteq> Ready p" for m
    using that k1(5) by (cases m) (auto simp: waits_def fun_eq_iff)
  have wl: "tlists k1 l = tlists k l" using w l by auto
  let ?k = "k1\<lparr>tlists := (tlists k1)(l := flag_insert flag (prio_of k1) t (tlists k1 l))\<rparr>"
  have "rt_ipc_list_suspend l t flag k = Some ?k"
    using k1(1) flag unfolding rt_ipc_list_suspend_def by (auto simp: flag_insert_def Let_def)
  moreover have "kinv ?k"
    using by_flag.kinv_ins [OF k1(2) _ k1(7) l] k1(3) by simp
  moreover have "data_frame k ?k"
    using k1(6) by (simp add: data_frame_def rt_object_get_type_def rt_object_is_systemobject_def)
  ultimately show ?thesis
    using k1(3,4,8) w wl pr by (intro exI [of _ ?k]) (simp add: timer_activated_def)
qed

lemma sint_nonneg_unat:
  fixes w :: u32
  assumes "0 \<le> sint w"
  shows "int (unat w) = sint w"
proof -
  have "sint w < 2 ^ 32" using sint_lt [of w] by simp
  then have "uint w = sint w"
    using assms uint_sint [of w] take_bit_int_eq_self [of "sint w" 32] by simp
  then show ?thesis by simp
qed

text \<open>A suspended thread \<open>t\<close> that is still current arms its timer and gives the processor away.\<close>

definition give_away :: "tid \<Rightarrow> u32 \<Rightarrow> kernel \<Rightarrow> kernel option" where
  "give_away t time k =
    do {
      k \<leftarrow> (if 0 < sint time then arm_timer t time k else Some k);
      rt_schedule k
    }"

lemma give_away_ok:
  assumes inv: "kinv k" and c: "cur k = Some t" and st: "stat_of (threads k t) = RT_THREAD_SUSPEND" and time: "sint time < 0x7FFFFFFF"
  shows "\<exists>k'. give_away t time k = Some k' \<and> kinv k' \<and> data_frame k k' \<and> cur k' \<noteq> None \<and> same_threads k k' \<and>
    waits k' = waits k \<and>
    (0 < sint time \<longrightarrow> ThreadTimer t \<in> set (tmlists k' HardList) \<and> tticks k' (ThreadTimer t) = rt_tick k + time)"
proof -
  have "\<exists>k2. (if 0 < sint time then arm_timer t time k else Some k) = Some k2 \<and> kinv k2 \<and> data_frame k k2 \<and>
      threads k2 = threads k \<and> cur k2 = cur k \<and> tlists k2 = tlists k \<and>
      (0 < sint time \<longrightarrow> ThreadTimer t \<in> set (tmlists k2 HardList) \<and> tticks k2 (ThreadTimer t) = rt_tick k + time)"
  proof (cases "0 < sint time")
    case True
    have "time < RT_TICK_HALF"
    proof -
      have "int (unat time) = sint time" using sint_nonneg_unat [of time] True by simp
      then have "unat time < 0x7FFFFFFF" using time by linarith
      then show ?thesis by (simp add: word_less_nat_alt)
    qed
    then show ?thesis using True arm_timer_ok [OF inv st] by (simp) blast
  qed (use inv in simp)
  then obtain k2 where k2: "(if 0 < sint time then arm_timer t time k else Some k) = Some k2" "kinv k2"
      "data_frame k k2" "threads k2 = threads k" "cur k2 = cur k" "tlists k2 = tlists k"
      "0 < sint time \<longrightarrow> ThreadTimer t \<in> set (tmlists k2 HardList) \<and> tticks k2 (ThreadTimer t) = rt_tick k + time"
    by blast
  obtain k3 where k3: "rt_schedule k2 = Some k3" "kinv k3" "same_threads k2 k3" "sched_only k2 k3"
      "waits k3 = waits k2" "cur k3 \<noteq> None"
    using rt_schedule_kinv [OF k2(2)] k2(5) c by auto
  have "data_frame k k3" using k2(3) sched_only_data [OF k3(4)] by (rule data_frame_trans)
  moreover have "same_threads k k3" using k3(3) k2(4) by (simp add: same_threads_def)
  moreover have "waits k3 = waits k" using k3(5) k2(6) by (simp add: waits_def)
  ultimately show ?thesis
    using k2(1,7) k3(1,2,6) sched_onlyD(6,7) [OF k3(4)] by (intro exI [of _ k3]) (simp add: give_away_def)
qed

lemma waits_tlists:
  assumes "waits k = waits k'" "\<forall>p. m \<noteq> Ready p"
  shows "tlists k m = tlists k' m"
  using assms by (cases m) (auto simp: waits_def fun_eq_iff)

lemma block_on_ok:
  assumes inv: "kinv k" and c: "cur k = Some t" "stat_of (threads k t) = RT_THREAD_RUNNING"
    and flag: "flag = RT_IPC_FLAG_FIFO \<or> flag = RT_IPC_FLAG_PRIO" and l: "l = Suspend i \<or> l = Sender i"
    and time: "sint time < 0x7FFFFFFF"
  shows "\<exists>k'. block_on l t flag time k = Some k' \<and> kinv k' \<and> data_frame k k' \<and> cur k' \<noteq> None \<and>
    (\<forall>u. \<exists>s. threads k' u = (threads k u)\<lparr>t_stat := s\<rparr>) \<and> (\<forall>u. started (threads k' u) = started (threads k u)) \<and>
    stat_of (threads k' t) = RT_THREAD_SUSPEND \<and>
    tlists k' l = flag_insert flag (prio_of k) t (tlists k l) \<and>
    (\<forall>m. m \<noteq> l \<and> (\<forall>p. m \<noteq> Ready p) \<longrightarrow> tlists k' m = tlists k m) \<and>
    (0 < sint time \<longrightarrow> ThreadTimer t \<in> set (tmlists k' HardList) \<and> tticks k' (ThreadTimer t) = rt_tick k + time)"
proof -
  obtain k1 where k1: "rt_ipc_list_suspend l t flag k = Some k1" "kinv k1" "data_frame k k1" "cur k1 = cur k"
      "threads k1 = (threads k)(t := set_stat RT_THREAD_SUSPEND (threads k t))"
      "tlists k1 l = flag_insert flag (prio_of k) t (tlists k l)"
      "\<forall>m. m \<noteq> l \<and> (\<forall>p. m \<noteq> Ready p) \<longrightarrow> tlists k1 m = tlists k m"
    using list_suspend_ok [OF inv c flag l] by blast
  have st1: "stat_of (threads k1 t) = RT_THREAD_SUSPEND" using k1(5) by simp
  have c1: "cur k1 = Some t" using k1(4) c(1) by simp
  obtain k3 where k3: "give_away t time k1 = Some k3" "kinv k3" "data_frame k1 k3" "cur k3 \<noteq> None" "same_threads k1 k3"
      "waits k3 = waits k1"
      "0 < sint time \<longrightarrow> ThreadTimer t \<in> set (tmlists k3 HardList) \<and> tticks k3 (ThreadTimer t) = rt_tick k1 + time"
    using give_away_ok [OF k1(2) c1 st1 time] by blast
  have w: "tlists k3 m = tlists k1 m" if "\<forall>p. m \<noteq> Ready p" for m using waits_tlists [OF k3(6) that] .
  have th: "\<exists>s. threads k3 u = (threads k u)\<lparr>t_stat := s\<rparr>" for u
    using same_threadsD(3) [OF k3(5), of u] k1(5) set_stat_clear_yield_ex(1) [of RT_THREAD_SUSPEND "threads k t"]
    by (cases "u = t") auto
  have sts: "started (threads k3 u) = started (threads k u)" for u
    using same_threadsD(1) [OF k3(5), of u] k1(5) c(2) by (cases "u = t") (simp_all add: started_def)
  have "block_on l t flag time k = Some k3" using k1(1) k3(1) by (simp add: block_on_def give_away_def)
  moreover have "stat_of (threads k3 t) = RT_THREAD_SUSPEND" using same_threadsD(2) [OF k3(5), of t] st1 by simp
  moreover have "tlists k3 l = flag_insert flag (prio_of k) t (tlists k l)" using w l k1(6) by auto
  moreover have "rt_tick k1 = rt_tick k" by (rule data_frameD(4) [OF k1(3)])
  ultimately show ?thesis
    using k3 data_frame_trans [OF k1(3) k3(3)] th sts w k1(7) by (intro exI [of _ k3]) auto
qed

section \<open>Waking\<close>

lemma tl_remove_waits:
  assumes q: "qinv {} k" and t: "t \<in> set (tlists k l)" and m: "m \<noteq> l"
  shows "tlists (tl_remove t k) m = tlists k m"
proof -
  have "t \<notin> set (tlists k m)" using qinvD(7) [OF q t] m by blast
  then show ?thesis by (simp add: remove1_idem)
qed

lemma wait_list_stat:
  assumes "qinv {} k" "l = Suspend i \<or> l = Sender i" "t \<in> set (tlists k l)"
  shows "stat_of (threads k t) = RT_THREAD_SUSPEND"
  using qinvD(2) [OF assms(1,3)] assms(2) by auto

lemma resume_first_ok:
  assumes inv: "kinv k" and l: "l = Suspend i \<or> l = Sender i" and h: "tlists k l = t # ts"
  shows "\<exists>k'. rt_thread_resume t k = Some (RT_EOK, k') \<and> kinv k' \<and> cur k' = cur k \<and> data_frame k k' \<and>
    threads k' = (threads k)(t := set_stat (wake_stat t k) (threads k t)) \<and> tlists k' l = ts \<and>
    (\<forall>m. m \<noteq> l \<and> (\<forall>p. m \<noteq> Ready p) \<longrightarrow> tlists k' m = tlists k m)"
proof -
  note q = kinvD(5) [OF inv]
  have t: "t \<in> set (tlists k l)" using h by simp
  obtain k' where k': "rt_thread_resume t k = Some (RT_EOK, k')" "kinv k'" "cur k' = cur k"
      "threads k' = (threads k)(t := set_stat (wake_stat t k) (threads k t))"
      "waits k' = waits (tl_remove t k)" "data_frame k k'"
    using thread_resume_ok [OF inv wait_list_stat [OF q l t]] by metis
  have "tlists k' m = tlists (tl_remove t k) m" if "\<forall>p. m \<noteq> Ready p" for m
    using waits_tlists [OF k'(5) that] .
  then have "tlists k' l = ts" "\<forall>m. m \<noteq> l \<and> (\<forall>p. m \<noteq> Ready p) \<longrightarrow> tlists k' m = tlists k m"
    using l h tl_remove_waits [OF q t] by auto
  then show ?thesis using k' by blast
qed

lemma list_resume_ok:
  assumes inv: "kinv k" and l: "l = Suspend i \<or> l = Sender i" and h: "tlists k l = t # ts"
  shows "\<exists>k'. rt_ipc_list_resume l k = Some k' \<and> kinv k' \<and> cur k' = cur k \<and> data_frame k k' \<and>
    threads k' = (threads k)(t := set_stat (wake_stat t k) (threads k t)) \<and> tlists k' l = ts \<and>
    (\<forall>m. m \<noteq> l \<and> (\<forall>p. m \<noteq> Ready p) \<longrightarrow> tlists k' m = tlists k m)"
  using resume_first_ok [OF assms] h by (auto simp: rt_ipc_list_resume_def)

lemma set_error_frame [simp]:
  "threads (set_error t e k) = (threads k)(t := (threads k t)\<lparr>t_error := e\<rparr>)"
  "tlists (set_error t e k) = tlists k" "cur (set_error t e k) = cur k" "data_frame k (set_error t e k)"
  "tmlists (set_error t e k) = tmlists k" "timers (set_error t e k) = timers k"
  "waits (set_error t e k) = waits k" "hdr (set_error t e k) = hdr k"
  "rt_object_get_type r (set_error t e k) = rt_object_get_type r k"
  "sems (set_error t e k) = sems k" "mutexes (set_error t e k) = mutexes k" "events (set_error t e k) = events k"
  "mailboxes (set_error t e k) = mailboxes k" "mqs (set_error t e k) = mqs k" "rt_tick (set_error t e k) = rt_tick k"
  "interrupt_nest (set_error t e k) = interrupt_nest k" "lock_nest (set_error t e k) = lock_nest k"
  by (simp_all add: set_error_def sched_only_data rt_object_get_type_def)

lemma kinv_set_error: "kinv k \<Longrightarrow> kinv (set_error t e k)"
  unfolding set_error_def by (rule kinv_upd_same) (simp_all add: stack_check_def)

lemma resume_all_ok:
  assumes "kinv k" and l: "l = Suspend i \<or> l = Sender i"
  shows "\<exists>k'. rt_ipc_list_resume_all l k = Some k' \<and> kinv k' \<and> cur k' = cur k \<and> data_frame k k' \<and>
    tlists k' l = [] \<and> (\<forall>m. m \<noteq> l \<and> (\<forall>p. m \<noteq> Ready p) \<longrightarrow> tlists k' m = tlists k m) \<and>
    (\<forall>u. threads k' u = (if u \<in> set (tlists k l)
       then set_stat (wake_stat u k) ((threads k u)\<lparr>t_error := - RT_ERROR\<rparr>) else threads k u))"
  using assms(1)
proof (induction "tlists k l" arbitrary: k)
  case Nil
  then have "rt_ipc_list_resume_all l k = Some k" by (subst rt_ipc_list_resume_all.simps) simp
  then show ?case using Nil by (intro exI [of _ k]) simp
next
  case (Cons t ts)
  let ?k = "set_error t (- RT_ERROR) k"
  have inv: "kinv ?k" by (rule kinv_set_error [OF Cons.prems])
  have h: "tlists ?k l = t # ts" using Cons.hyps(2) by simp
  obtain k1 where k1: "rt_thread_resume t ?k = Some (RT_EOK, k1)" "kinv k1" "cur k1 = cur ?k" "data_frame ?k k1"
      "threads k1 = (threads ?k)(t := set_stat (wake_stat t ?k) (threads ?k t))" "tlists k1 l = ts"
      "\<forall>m. m \<noteq> l \<and> (\<forall>p. m \<noteq> Ready p) \<longrightarrow> tlists k1 m = tlists ?k m"
    using resume_first_ok [OF inv l h] by blast
  have tn: "t \<notin> set ts" using qinvD(6) [OF kinvD(5) [OF inv], of l] h by simp
  have w: "wake_stat u k1 = wake_stat u k" "wake_stat u ?k = wake_stat u k" for u using k1(3) by (simp_all add: wake_stat_def)
  obtain k2 where k2: "rt_ipc_list_resume_all l k1 = Some k2" "kinv k2" "cur k2 = cur k1" "data_frame k1 k2"
      "tlists k2 l = []" "\<forall>m. m \<noteq> l \<and> (\<forall>p. m \<noteq> Ready p) \<longrightarrow> tlists k2 m = tlists k1 m"
      "\<forall>u. threads k2 u = (if u \<in> set (tlists k1 l)
         then set_stat (wake_stat u k1) ((threads k1 u)\<lparr>t_error := - RT_ERROR\<rparr>) else threads k1 u)"
    using Cons.hyps(1) [OF k1(6) [symmetric] k1(2)] by blast
  have "rt_ipc_list_resume_all l k = Some k2"
    using Cons.hyps(2) [symmetric] k1(1) k2(1)
    by (subst rt_ipc_list_resume_all.simps) (simp add: set_error_def)
  moreover have "data_frame k k2"
    using set_error_frame(4) k1(4) k2(4) by (blast intro: data_frame_trans)
  moreover have "threads k2 u = (if u \<in> set (tlists k l)
       then set_stat (wake_stat u k) ((threads k u)\<lparr>t_error := - RT_ERROR\<rparr>) else threads k u)" for u
    using k2(7) k1(5,6) w tn Cons.hyps(2) [symmetric] by (cases "u = t") simp_all
  ultimately show ?case
    using k2(2,3,5,6) k1(3,7) by (intro exI [of _ k2]) simp
qed

section \<open>Live IPC objects\<close>

text \<open>A live IPC object of class \<open>c\<close> with a valid queueing flag.\<close>

definition ipc_live :: "u8 \<Rightarrow> nat \<Rightarrow> kernel \<Rightarrow> bool" where
  "ipc_live c i k \<longleftrightarrow> rt_object_get_type (OIpc i) k = c \<and>
    (ipc_flag i k = RT_IPC_FLAG_FIFO \<or> ipc_flag i k = RT_IPC_FLAG_PRIO)"

text \<open>The running thread \<open>t\<close> calls the kernel.\<close>

definition thread_calls :: "tid \<Rightarrow> kernel \<Rightarrow> bool" where
  "thread_calls t k \<longleftrightarrow> cur k = Some t \<and> stat_of (threads k t) = RT_THREAD_RUNNING \<and> interrupt_nest k = 0"

lemma thread_callsD:
  assumes "thread_calls t k"
  shows "cur k = Some t" "stat_of (threads k t) = RT_THREAD_RUNNING" "in_thread_context k" "rt_thread_self k = Some t"
  using assms by (simp_all add: thread_calls_def in_thread_context_def rt_thread_self_def)

lemma ipc_live_frame:
  assumes "data_frame k k'"
  shows "ipc_live c i k' = ipc_live c i k" "ipc_flag i k' = ipc_flag i k"
  using data_frameD(10,12) [OF assms] by (simp_all add: ipc_live_def ipc_flag_def)

lemma only_stat_error:
  assumes "\<exists>s. th' = th\<lparr>t_stat := s\<rparr>"
  shows "t_error th' = t_error th" "current_priority th' = current_priority th" "event_set th' = event_set th"
    "event_info th' = event_info th"
  using assms by auto

lemma kinv_data:
  assumes "hdr k' = hdr k" "timers k' = timers k" "tmlists k' = tmlists k" "threads k' = threads k"
    "tlists k' = tlists k" "ready_group k' = ready_group k" "cur k' = cur k"
  shows "kinv k' = kinv k"
proof -
  have "tm_inv k' = tm_inv k" by (rule tm_inv_cong [OF assms(1,3)])
  moreover have "tt_inv k' = tt_inv k" using tcb_ok_cong [OF assms(1,2)] assms unfolding tt_inv_def by simp
  moreover have "sched_inv k' = sched_inv k" "stacks_ok k' = stacks_ok k"
    using qinv_cong [OF assms(4,5,6)] assms by (simp_all add: sched_inv_def stacks_ok_def)
  ultimately show ?thesis by (simp add: kinv_def)
qed

lemma kinv_payload [simp]:
  "kinv (k\<lparr>sems := s\<rparr>) = kinv k" "kinv (k\<lparr>mutexes := m\<rparr>) = kinv k" "kinv (k\<lparr>events := e\<rparr>) = kinv k"
  "kinv (k\<lparr>mailboxes := b\<rparr>) = kinv k" "kinv (k\<lparr>mqs := q\<rparr>) = kinv k"
  by (rule kinv_data; simp)+

text \<open>A state in which every IPC object is live, of class \<open>c\<close> and first-in-first-out; thread 3
  waits for object 0.\<close>

definition demo_ipc :: "u8 \<Rightarrow> kernel" where
  "demo_ipc c = demo_timed\<lparr>hdr := (\<lambda>r. case r of OIpc i \<Rightarrow> zero_object\<lparr>o_type := c OR Class_Static\<rparr> | _ \<Rightarrow> hdr demo_timed r)\<rparr>"

lemma demo_ipc_sel [simp]:
  "threads (demo_ipc c) = threads demo_kernel" "tlists (demo_ipc c) = tlists demo_kernel"
  "cur (demo_ipc c) = Some 0" "rt_tick (demo_ipc c) = 100" "timers (demo_ipc c) = timers demo_timed"
  "tmlists (demo_ipc c) = tmlists demo_timed" "interrupt_nest (demo_ipc c) = 0" "lock_nest (demo_ipc c) = 0"
  "sems (demo_ipc c) i = zero_sem" "mutexes (demo_ipc c) i = zero_mutex" "events (demo_ipc c) i = zero_event"
  "mailboxes (demo_ipc c) i = zero_mailbox" "mqs (demo_ipc c) i = zero_mq"
  "hdr (demo_ipc c) (OIpc i) = zero_object\<lparr>o_type := c OR Class_Static\<rparr>" "ipc_flag i (demo_ipc c) = 0"
  by (simp_all add: demo_ipc_def demo_timed_def demo_kernel_def zero_kernel_def ipc_flag_def zero_object_def)

lemma demo_ipc_kinv: "kinv (demo_ipc c)"
proof -
  have h: "hdr (demo_ipc c) (OThread t) = hdr demo_timed (OThread t)" "hdr (demo_ipc c) (OTimer m) = hdr demo_timed (OTimer m)" for t m
    by (simp_all add: demo_ipc_def)
  have "tm_inv (demo_ipc c)"
    using kinvD(3) [OF demo_timed_kinv] unfolding tm_inv_def timer_flag_defs rt_object_get_type_def h by simp
  moreover have "tt_inv (demo_ipc c)"
    using kinvD(4) [OF demo_timed_kinv]
    unfolding tt_inv_def tcb_ok_def timer_flag_defs rt_object_get_type_def rt_object_is_systemobject_def h by simp
  moreover have "sched_inv (demo_ipc c)" "stacks_ok (demo_ipc c)"
    using kinvD(1,2) [OF demo_timed_kinv] by (simp_all add: demo_ipc_def)
  ultimately show ?thesis by (simp add: kinv_def)
qed

lemma demo_ipc_live:
  assumes "rt_object_get_information c = Some c'"
  shows "ipc_live c i (demo_ipc c)"
  using class_static(2) [OF assms] by (simp add: ipc_live_def rt_object_get_type_def)

lemma demo_ipc_calls: "thread_calls 0 (demo_ipc c)"
  by (simp add: thread_calls_def)

end
