(* ===== verification/RT_Sem.thy ===== *)
theory RT_Sem
  imports RT_IPC
begin

unbundle bit_operations_syntax

text \<open>
  Semaphores, \<open>src/ipc.c\<close>. \<open>rt_sem_take\<close> is modelled up to \<open>rt_schedule\<close> in the blocking case;
  \<open>rt_sem_take_resumed\<close> is the code after it, run by the thread \<open>t\<close> when it continues.
\<close>

section \<open>Operations\<close>

definition set_sem :: "nat \<Rightarrow> u16 \<Rightarrow> kernel \<Rightarrow> kernel" where
  "set_sem i v k = k\<lparr>sems := (sems k)(i := (sems k i)\<lparr>sem_value := v\<rparr>)\<rparr>"

definition rt_sem_init :: "nat \<Rightarrow> string \<Rightarrow> u32 \<Rightarrow> u8 \<Rightarrow> kernel \<Rightarrow> (rt_err_t \<times> kernel) option" where
  "rt_sem_init i nam val flag k =
    do {
      RT_ASSERT (val < 0x10000);
      k \<leftarrow> rt_object_init (OIpc i) Class_Semaphore nam k;
      let k = rt_ipc_object_init i k;
      let k = set_sem i (ucast val) k;
      Some (RT_EOK, set_ipc_flag i flag k)
    }"

definition rt_sem_detach :: "nat \<Rightarrow> kernel \<Rightarrow> (rt_err_t \<times> kernel) option" where
  "rt_sem_detach i k =
    do {
      RT_ASSERT (rt_object_get_type (OIpc i) k = Class_Semaphore);
      RT_ASSERT (rt_object_is_systemobject (OIpc i) k);
      k \<leftarrow> rt_ipc_list_resume_all (Suspend i) k;
      Some (RT_EOK, rt_object_detach (OIpc i) k)
    }"

definition rt_sem_create :: "nat option \<Rightarrow> string \<Rightarrow> u32 \<Rightarrow> u8 \<Rightarrow> kernel \<Rightarrow> (nat option \<times> kernel) option" where
  "rt_sem_create mem nam val flag k =
    do {
      RT_ASSERT (not_in_interrupt k);
      RT_ASSERT (val < 0x10000);
      (_, k) \<leftarrow> rt_object_allocate (map_option OIpc mem) Class_Semaphore nam k;
      case mem of
        None \<Rightarrow> Some (None, k)
      | Some i \<Rightarrow>
          let k = rt_ipc_object_init i k;
              k = set_sem i (ucast val) k
          in Some (Some i, set_ipc_flag i flag k)
    }"

definition rt_sem_delete :: "nat \<Rightarrow> kernel \<Rightarrow> (rt_err_t \<times> kernel) option" where
  "rt_sem_delete i k =
    do {
      RT_ASSERT (not_in_interrupt k);
      RT_ASSERT (rt_object_get_type (OIpc i) k = Class_Semaphore);
      RT_ASSERT (\<not> rt_object_is_systemobject (OIpc i) k);
      k \<leftarrow> rt_ipc_list_resume_all (Suspend i) k;
      k \<leftarrow> rt_object_delete (OIpc i) k;
      Some (RT_EOK, k)
    }"

definition rt_sem_take :: "nat \<Rightarrow> u32 \<Rightarrow> kernel \<Rightarrow> ((rt_err_t, tid) call \<times> kernel) option" where
  "rt_sem_take i time k =
    do {
      RT_ASSERT (rt_object_get_type (OIpc i) k = Class_Semaphore);
      if 0 < sem_value (sems k i) then
        Some (Returned RT_EOK, set_sem i (sem_value (sems k i) - 1) k)
      else if time = 0 then Some (Returned (- RT_ETIMEOUT), k)
      else do {
        RT_ASSERT (in_thread_context k);
        t \<leftarrow> rt_thread_self k;
        let k = set_error t RT_EOK k;
        k \<leftarrow> block_on (Suspend i) t (ipc_flag i k) time k;
        Some (Suspended t, k)
      }
    }"

definition rt_sem_take_resumed :: "tid \<Rightarrow> kernel \<Rightarrow> rt_err_t" where
  "rt_sem_take_resumed t k =
    (if t_error (threads k t) \<noteq> RT_EOK then t_error (threads k t) else RT_EOK)"

definition rt_sem_trytake :: "nat \<Rightarrow> kernel \<Rightarrow> ((rt_err_t, tid) call \<times> kernel) option" where
  "rt_sem_trytake i k = rt_sem_take i 0 k"

text \<open>\<open>RT_SEM_VALUE_MAX = RT_UINT16_MAX\<close>.\<close>

definition rt_sem_release :: "nat \<Rightarrow> kernel \<Rightarrow> (rt_err_t \<times> kernel) option" where
  "rt_sem_release i k =
    do {
      RT_ASSERT (rt_object_get_type (OIpc i) k = Class_Semaphore);
      if tlists k (Suspend i) \<noteq> [] then
        do {
          k \<leftarrow> rt_ipc_list_resume (Suspend i) k;
          k \<leftarrow> rt_schedule k;
          Some (RT_EOK, k)
        }
      else if sem_value (sems k i) < 0xFFFF then
        Some (RT_EOK, set_sem i (sem_value (sems k i) + 1) k)
      else Some (- RT_EFULL, k)
    }"

definition rt_sem_control :: "nat \<Rightarrow> int \<Rightarrow> u32 \<Rightarrow> kernel \<Rightarrow> (rt_err_t \<times> kernel) option" where
  "rt_sem_control i cmd arg k =
    do {
      RT_ASSERT (rt_object_get_type (OIpc i) k = Class_Semaphore);
      if cmd = 1 then
        do {
          k \<leftarrow> rt_ipc_list_resume_all (Suspend i) k;
          let k = set_sem i (ucast arg) k;
          k \<leftarrow> rt_schedule k;
          Some (RT_EOK, k)
        }
      else Some (- RT_ERROR, k)
    }"

section \<open>Facts\<close>

text \<open>Nobody waits for a semaphore that is available.\<close>

definition sem_ok :: "nat \<Rightarrow> kernel \<Rightarrow> bool" where
  "sem_ok i k \<longleftrightarrow> (tlists k (Suspend i) \<noteq> [] \<longrightarrow> sem_value (sems k i) = 0)"

lemma u16_step:
  fixes v :: u16
  shows "0 < v \<Longrightarrow> unat (v - 1) + 1 = unat v" "v < 0xFFFF \<Longrightarrow> unat (v + 1) = unat v + 1"
proof -
  show "unat (v - 1) + 1 = unat v" if "0 < v"
    using that unat_sub_if' [of v 1] by (simp add: word_gt_0 unat_gt_0 Suc_leI)
  show "unat (v + 1) = unat v + 1" if "v < 0xFFFF"
    using that by (simp add: unat_word_ariths word_less_nat_alt)
qed

section \<open>Properties\<close>

text \<open>
  C10: \<open>rt_sem_take\<close> on every branch: an available semaphore is decremented by exactly one;
  an unavailable one returns \<open>-RT_ETIMEOUT\<close> at once without waiting time, with the state unchanged;
  otherwise the calling thread is suspended at the place in the waiting list that the flag asks for, with
  its error cleared and its timer armed when the time-out is positive. The kernel invariant
  holds and nobody waits for an available semaphore.
\<close>

theorem rt_sem_take_correct:
  assumes inv: "kinv k" and live: "ipc_live Class_Semaphore i k" and c: "thread_calls t k" and ok: "sem_ok i k"
    and time: "sint time < 0x7FFFFFFF"
  shows "if 0 < sem_value (sems k i) then
      \<exists>k'. rt_sem_take i time k = Some (Returned RT_EOK, k') \<and> kinv k' \<and> sem_ok i k' \<and>
        unat (sem_value (sems k' i)) + 1 = unat (sem_value (sems k i)) \<and> threads k' = threads k \<and> tlists k' = tlists k
    else if time = 0 then rt_sem_take i time k = Some (Returned (- RT_ETIMEOUT), k)
    else \<exists>k'. rt_sem_take i time k = Some (Suspended t, k') \<and> kinv k' \<and> sem_ok i k' \<and> sems k' = sems k \<and>
        stat_of (threads k' t) = RT_THREAD_SUSPEND \<and> t_error (threads k' t) = RT_EOK \<and>
        tlists k' (Suspend i) = flag_insert (ipc_flag i k) (prio_of k) t (tlists k (Suspend i)) \<and>
        (0 < sint time \<longrightarrow> ThreadTimer t \<in> set (tmlists k' HardList) \<and> tticks k' (ThreadTimer t) = rt_tick k + time)"
proof -
  consider "0 < sem_value (sems k i)" | "sem_value (sems k i) = 0" "time = 0" | "sem_value (sems k i) = 0" "time \<noteq> 0"
    by (auto simp: word_gt_0)
  then show ?thesis
  proof cases
    case 1
    then have "tlists k (Suspend i) = []" using ok by (auto simp: sem_ok_def)
    then show ?thesis
      using 1 inv live u16_step(1) [OF 1] by (simp add: rt_sem_take_def ipc_live_def set_sem_def sem_ok_def)
  next
    case 2
    then show ?thesis using live by (simp add: rt_sem_take_def ipc_live_def)
  next
    case 3
    let ?k = "set_error t RT_EOK k"
    have fl: "ipc_flag i ?k = ipc_flag i k" by (simp add: ipc_flag_def)
    have flag: "ipc_flag i ?k = RT_IPC_FLAG_FIFO \<or> ipc_flag i ?k = RT_IPC_FLAG_PRIO"
      using live fl by (simp add: ipc_live_def)
    have c': "cur ?k = Some t" "stat_of (threads ?k t) = RT_THREAD_RUNNING" using c by (simp_all add: thread_calls_def)
    obtain k' where k': "block_on (Suspend i) t (ipc_flag i ?k) time ?k = Some k'" "kinv k'" "data_frame ?k k'"
        "\<forall>u. \<exists>s. threads k' u = (threads ?k u)\<lparr>t_stat := s\<rparr>" "stat_of (threads k' t) = RT_THREAD_SUSPEND"
        "tlists k' (Suspend i) = flag_insert (ipc_flag i ?k) (prio_of ?k) t (tlists ?k (Suspend i))"
        "0 < sint time \<longrightarrow> ThreadTimer t \<in> set (tmlists k' HardList) \<and> tticks k' (ThreadTimer t) = rt_tick ?k + time"
      using block_on_ok [OF kinv_set_error [OF inv] c' flag, of "Suspend i" i time] time by blast
    have "rt_sem_take i time k = Some (Suspended t, k')"
      using 3 k'(1) live c by (simp add: rt_sem_take_def ipc_live_def in_thread_context_def thread_calls_def rt_thread_self_def)
    moreover have "sems k' = sems k" using data_frameD(5) [OF k'(3)] by simp
    moreover have "t_error (threads k' t) = RT_EOK"
      using only_stat_error(1) [OF spec [OF k'(4), of t]] by simp
    moreover have "prio_of ?k = prio_of k" by auto
    ultimately show ?thesis using 3 k' fl by (auto simp: sem_ok_def)
  qed
qed

theorem rt_sem_take_correct_witness:
  "rt_sem_take 1 0 (demo_ipc Class_Semaphore) = Some (Returned (- RT_ETIMEOUT), demo_ipc Class_Semaphore) \<and>
   (\<exists>k'. rt_sem_take 0 7 (demo_ipc Class_Semaphore) = Some (Suspended 0, k') \<and> kinv k' \<and>
     tlists k' (Suspend 0) = [3, 0] \<and> tticks k' (ThreadTimer 0) = 107)"
proof -
  have live: "ipc_live Class_Semaphore i (demo_ipc Class_Semaphore)" for i
    by (rule demo_ipc_live) (simp add: rt_object_get_information_def)
  have ok: "sem_ok i (demo_ipc Class_Semaphore)" for i by (simp add: sem_ok_def zero_sem_def)
  show ?thesis
    using rt_sem_take_correct [OF demo_ipc_kinv live [of 1] demo_ipc_calls ok [of 1], of 0]
      rt_sem_take_correct [OF demo_ipc_kinv live [of 0] demo_ipc_calls ok [of 0], of 7]
    by (auto simp: zero_sem_def flag_insert_def fifo_insert_def)
qed

text \<open>
  C11: \<open>rt_sem_release\<close> on every branch: with waiting threads it wakes exactly the first
  one, whose pending \<open>rt_sem_take\<close> then returns \<open>RT_EOK\<close> if its error was clear, and leaves the
  value at 0; without, it increments the value by one; at the maximum value it returns \<open>-RT_EFULL\<close>
  and changes nothing. The kernel invariant holds and nobody waits for an available semaphore.
\<close>

theorem rt_sem_release_correct:
  assumes inv: "kinv k" and live: "ipc_live Class_Semaphore i k" and c: "cur k \<noteq> None" and ok: "sem_ok i k"
  shows "case tlists k (Suspend i) of
      t # ts \<Rightarrow> \<exists>k'. rt_sem_release i k = Some (RT_EOK, k') \<and> kinv k' \<and> sem_ok i k' \<and> sems k' = sems k \<and>
        tlists k' (Suspend i) = ts \<and> stat_of (threads k' t) \<in> {RT_THREAD_READY, RT_THREAD_RUNNING} \<and>
        (t_error (threads k t) = RT_EOK \<longrightarrow> rt_sem_take_resumed t k' = RT_EOK)
    | [] \<Rightarrow>
        if sem_value (sems k i) = 0xFFFF then rt_sem_release i k = Some (- RT_EFULL, k)
        else \<exists>k'. rt_sem_release i k = Some (RT_EOK, k') \<and> kinv k' \<and> sem_ok i k' \<and> threads k' = threads k \<and>
          unat (sem_value (sems k' i)) = unat (sem_value (sems k i)) + 1"
proof (cases "tlists k (Suspend i)")
  case Nil
  show ?thesis
  proof (cases "sem_value (sems k i) < 0xFFFF")
    case True
    then have "sem_value (sems k i) \<noteq> 0xFFFF" by auto
    then show ?thesis
      using Nil True inv live u16_step(2) [OF True] by (simp add: rt_sem_release_def ipc_live_def set_sem_def sem_ok_def)
  next
    case False
    then have "sem_value (sems k i) = 0xFFFF"
      using unat_less_16 [of "sem_value (sems k i)"] by (simp add: word_less_nat_alt word_unat_eq_iff)
    then show ?thesis using Nil live by (simp add: rt_sem_release_def ipc_live_def)
  qed
next
  case (Cons t ts)
  obtain k1 where k1: "rt_ipc_list_resume (Suspend i) k = Some k1" "kinv k1" "cur k1 = cur k" "data_frame k k1"
      "threads k1 = (threads k)(t := set_stat (wake_stat t k) (threads k t))" "tlists k1 (Suspend i) = ts"
    using list_resume_ok [OF inv _ Cons, of i] by blast
  obtain k2 where k2: "rt_schedule k1 = Some k2" "kinv k2" "same_threads k1 k2" "sched_only k1 k2" "waits k2 = waits k1"
    using rt_schedule_kinv [OF k1(2)] k1(3) c by auto
  have "rt_sem_release i k = Some (RT_EOK, k2)"
    using Cons live k1(1) k2(1) by (simp add: rt_sem_release_def ipc_live_def)
  moreover have "tlists k2 (Suspend i) = ts" using waits_tlists [OF k2(5), of "Suspend i"] k1(6) by simp
  moreover have sm: "sems k2 = sems k" using sched_onlyD(10) [OF k2(4)] data_frameD(5) [OF k1(4)] by simp
  moreover have "sem_value (sems k i) = 0" using ok Cons by (simp add: sem_ok_def)
  moreover have "stat_of (threads k2 t) \<in> {RT_THREAD_READY, RT_THREAD_RUNNING}"
    using same_threadsD(4) [OF k2(3), of t] k1(5) by (simp add: wake_stat_def)
  moreover have "t_error (threads k2 t) = t_error (threads k t)"
    using only_stat_error(1) [OF same_threadsD(3) [OF k2(3), of t]] k1(5) by simp
  ultimately show ?thesis using Cons k2(2) by (auto simp: sem_ok_def rt_sem_take_resumed_def)
qed

theorem rt_sem_release_correct_witness:
  "\<exists>k'. rt_sem_release 0 (demo_ipc Class_Semaphore) = Some (RT_EOK, k') \<and> kinv k' \<and>
     tlists k' (Suspend 0) = [] \<and> rt_sem_take_resumed 3 k' = RT_EOK"
proof -
  have live: "ipc_live Class_Semaphore 0 (demo_ipc Class_Semaphore)"
    by (rule demo_ipc_live) (simp add: rt_object_get_information_def)
  have ok: "sem_ok 0 (demo_ipc Class_Semaphore)" by (simp add: sem_ok_def zero_sem_def)
  show ?thesis using rt_sem_release_correct [OF demo_ipc_kinv live _ ok] by auto
qed

text \<open>
  \<open>rt_sem_control\<close> with the reset command wakes all waiting threads with the error
  \<open>-RT_ERROR\<close>, so that their pending \<open>rt_sem_take\<close> fails, and sets the new value; any other
  command is refused and changes nothing.
\<close>

theorem rt_sem_control_correct:
  assumes inv: "kinv k" and live: "ipc_live Class_Semaphore i k" and c: "cur k \<noteq> None"
  shows "if cmd = 1 then
      \<exists>k'. rt_sem_control i cmd arg k = Some (RT_EOK, k') \<and> kinv k' \<and> tlists k' (Suspend i) = [] \<and>
        sem_value (sems k' i) = ucast arg \<and>
        (\<forall>t\<in>set (tlists k (Suspend i)). stat_of (threads k' t) \<in> {RT_THREAD_READY, RT_THREAD_RUNNING} \<and>
           rt_sem_take_resumed t k' = - RT_ERROR)
    else rt_sem_control i cmd arg k = Some (- RT_ERROR, k)"
proof (cases "cmd = 1")
  case True
  obtain k1 where k1: "rt_ipc_list_resume_all (Suspend i) k = Some k1" "kinv k1" "cur k1 = cur k" "tlists k1 (Suspend i) = []"
      "\<forall>u. threads k1 u = (if u \<in> set (tlists k (Suspend i))
         then set_stat (wake_stat u k) ((threads k u)\<lparr>t_error := - RT_ERROR\<rparr>) else threads k u)"
    using resume_all_ok [OF inv, of "Suspend i" i] by blast
  let ?k = "set_sem i (ucast arg) k1"
  have sel: "threads ?k = threads k1" "cur ?k = cur k1" "sems ?k i = (sems k1 i)\<lparr>sem_value := ucast arg\<rparr>" "tlists ?k = tlists k1"
    by (simp_all add: set_sem_def)
  have "kinv ?k" using k1(2) by (simp add: set_sem_def)
  then obtain k2 where k2: "rt_schedule ?k = Some k2" "kinv k2" "same_threads ?k k2" "sched_only ?k k2" "waits k2 = waits ?k"
    using rt_schedule_kinv [of ?k] k1(3) c by (auto simp: sel)
  have "rt_sem_control i cmd arg k = Some (RT_EOK, k2)"
    using True live k1(1) k2(1) by (simp add: rt_sem_control_def ipc_live_def)
  moreover have "tlists k2 (Suspend i) = []" using waits_tlists [OF k2(5), of "Suspend i"] k1(4) sel(4) by simp
  moreover have "sem_value (sems k2 i) = ucast arg" using sched_onlyD(10) [OF k2(4)] sel(3) by simp
  moreover have "stat_of (threads k2 t) \<in> {RT_THREAD_READY, RT_THREAD_RUNNING} \<and> rt_sem_take_resumed t k2 = - RT_ERROR"
    if t: "t \<in> set (tlists k (Suspend i))" for t
    using same_threadsD(4) [OF k2(3), of t] only_stat_error(1) [OF same_threadsD(3) [OF k2(3), of t]] k1(5) t sel(1)
    by (simp add: wake_stat_def rt_sem_take_resumed_def)
  ultimately show ?thesis using True k2(2) by auto
qed (use live in \<open>simp add: rt_sem_control_def ipc_live_def\<close>)

theorem rt_sem_control_correct_witness:
  "\<exists>k'. rt_sem_control 0 1 5 (demo_ipc Class_Semaphore) = Some (RT_EOK, k') \<and> kinv k' \<and>
     sem_value (sems k' 0) = 5 \<and> rt_sem_take_resumed 3 k' = - RT_ERROR"
proof -
  have live: "ipc_live Class_Semaphore 0 (demo_ipc Class_Semaphore)"
    by (rule demo_ipc_live) (simp add: rt_object_get_information_def)
  show ?thesis using rt_sem_control_correct [OF demo_ipc_kinv live, of 1 5] by auto
qed

end
