(* ===== verification/RT_Mutex.thy ===== *)
theory RT_Mutex
  imports RT_IPC
begin

unbundle bit_operations_syntax

text \<open>
  Mutexes with recursive locking and priority inheritance, \<open>src/ipc.c\<close>. The blocking branch of
  \<open>rt_mutex_take\<close> is modelled up to \<open>rt_schedule\<close>; \<open>rt_mutex_take_resumed\<close> is the rest.
\<close>

section \<open>Operations\<close>

definition upd_mutex :: "nat \<Rightarrow> (rt_mutex \<Rightarrow> rt_mutex) \<Rightarrow> kernel \<Rightarrow> kernel" where
  "upd_mutex i f k = k\<lparr>mutexes := (mutexes k)(i := f (mutexes k i))\<rparr>"

definition mutex_fields_init :: "rt_mutex" where
  "mutex_fields_init = \<lparr>mutex_value = 1, original_priority = 0xFF, hold = 0, owner = None\<rparr>"

definition rt_mutex_init :: "nat \<Rightarrow> string \<Rightarrow> u8 \<Rightarrow> kernel \<Rightarrow> (rt_err_t \<times> kernel) option" where
  "rt_mutex_init i nam flag k =
    do {
      k \<leftarrow> rt_object_init (OIpc i) Class_Mutex nam k;
      let k = rt_ipc_object_init i k;
      let k = upd_mutex i (\<lambda>_. mutex_fields_init) k;
      Some (RT_EOK, set_ipc_flag i flag k)
    }"

definition rt_mutex_detach :: "nat \<Rightarrow> kernel \<Rightarrow> (rt_err_t \<times> kernel) option" where
  "rt_mutex_detach i k =
    do {
      RT_ASSERT (rt_object_get_type (OIpc i) k = Class_Mutex);
      RT_ASSERT (rt_object_is_systemobject (OIpc i) k);
      k \<leftarrow> rt_ipc_list_resume_all (Suspend i) k;
      Some (RT_EOK, rt_object_detach (OIpc i) k)
    }"

definition rt_mutex_create :: "nat option \<Rightarrow> string \<Rightarrow> u8 \<Rightarrow> kernel \<Rightarrow> (nat option \<times> kernel) option" where
  "rt_mutex_create mem nam flag k =
    do {
      RT_ASSERT (not_in_interrupt k);
      (_, k) \<leftarrow> rt_object_allocate (map_option OIpc mem) Class_Mutex nam k;
      case mem of
        None \<Rightarrow> Some (None, k)
      | Some i \<Rightarrow>
          let k = rt_ipc_object_init i k;
              k = upd_mutex i (\<lambda>_. mutex_fields_init) k
          in Some (Some i, set_ipc_flag i flag k)
    }"

definition rt_mutex_delete :: "nat \<Rightarrow> kernel \<Rightarrow> (rt_err_t \<times> kernel) option" where
  "rt_mutex_delete i k =
    do {
      RT_ASSERT (not_in_interrupt k);
      RT_ASSERT (rt_object_get_type (OIpc i) k = Class_Mutex);
      RT_ASSERT (\<not> rt_object_is_systemobject (OIpc i) k);
      k \<leftarrow> rt_ipc_list_resume_all (Suspend i) k;
      k \<leftarrow> rt_object_delete (OIpc i) k;
      Some (RT_EOK, k)
    }"

text \<open>\<open>rt_thread_control(t, RT_THREAD_CTRL_CHANGE_PRIORITY, &p)\<close>; this command runs no cleanup
  function.\<close>

definition set_priority :: "tid \<Rightarrow> u8 \<Rightarrow> kernel \<Rightarrow> kernel option" where
  "set_priority t p k = do { (_, k) \<leftarrow> rt_thread_control (\<lambda>_ _ _. None) t 2 p k; Some k }"

text \<open>\<open>RT_MUTEX_HOLD_MAX = RT_UINT8_MAX\<close>.\<close>

definition rt_mutex_take :: "nat \<Rightarrow> u32 \<Rightarrow> kernel \<Rightarrow> ((rt_err_t, tid) call \<times> kernel) option" where
  "rt_mutex_take i time k =
    do {
      RT_ASSERT (in_thread_context k);
      RT_ASSERT (rt_object_get_type (OIpc i) k = Class_Mutex);
      t \<leftarrow> rt_thread_self k;
      let k = set_error t RT_EOK k;
      if owner (mutexes k i) = Some t then
        if hold (mutexes k i) < 0xFF then
          Some (Returned RT_EOK, upd_mutex i (\<lambda>m. m\<lparr>hold := hold m + 1\<rparr>) k)
        else Some (Returned (- RT_EFULL), k)
      else if 0 < mutex_value (mutexes k i) then
        let k = upd_mutex i (\<lambda>m. m\<lparr>mutex_value := mutex_value m - 1, owner := Some t,
                  original_priority := prio_of k t\<rparr>) k
        in if hold (mutexes k i) < 0xFF then
             Some (Returned RT_EOK, upd_mutex i (\<lambda>m. m\<lparr>hold := hold m + 1\<rparr>) k)
           else Some (Returned (- RT_EFULL), k)
      else if time = 0 then Some (Returned (- RT_ETIMEOUT), set_error t (- RT_ETIMEOUT) k)
      else do {
        own \<leftarrow> owner (mutexes k i);
        k \<leftarrow> (if prio_of k t < prio_of k own then set_priority own (prio_of k t) k else Some k);
        k \<leftarrow> block_on (Suspend i) t (ipc_flag i k) time k;
        Some (Suspended t, k)
      }
    }"

definition rt_mutex_take_resumed :: "tid \<Rightarrow> kernel \<Rightarrow> rt_err_t" where
  "rt_mutex_take_resumed t k =
    (if t_error (threads k t) \<noteq> RT_EOK then t_error (threads k t) else RT_EOK)"

text \<open>\<open>RT_MUTEX_VALUE_MAX = RT_UINT16_MAX\<close>.\<close>

definition rt_mutex_release :: "nat \<Rightarrow> kernel \<Rightarrow> (rt_err_t \<times> kernel) option" where
  "rt_mutex_release i k =
    do {
      RT_ASSERT (rt_object_get_type (OIpc i) k = Class_Mutex);
      RT_ASSERT (in_thread_context k);
      t \<leftarrow> rt_thread_self k;
      if owner (mutexes k i) \<noteq> Some t then Some (- RT_ERROR, set_error t (- RT_ERROR) k)
      else
        let k = upd_mutex i (\<lambda>m. m\<lparr>hold := hold m - 1\<rparr>) k
        in if hold (mutexes k i) = 0 then
             do {
               k \<leftarrow> (if original_priority (mutexes k i) \<noteq> prio_of k t
                     then set_priority t (original_priority (mutexes k i)) k else Some k);
               case tlists k (Suspend i) of
                 w # _ \<Rightarrow>
                   let k = upd_mutex i (\<lambda>m. m\<lparr>owner := Some w, original_priority := prio_of k w\<rparr>) k
                   in if hold (mutexes k i) < 0xFF then
                        do {
                          let k = upd_mutex i (\<lambda>m. m\<lparr>hold := hold m + 1\<rparr>) k;
                          k \<leftarrow> rt_ipc_list_resume (Suspend i) k;
                          k \<leftarrow> rt_schedule k;
                          Some (RT_EOK, k)
                        }
                      else Some (- RT_EFULL, k)
               | [] \<Rightarrow>
                   if mutex_value (mutexes k i) < 0xFFFF then
                     Some (RT_EOK, upd_mutex i (\<lambda>m. m\<lparr>mutex_value := mutex_value m + 1, owner := None,
                       original_priority := 0xff\<rparr>) k)
                   else Some (- RT_EFULL, k)
             }
           else Some (RT_EOK, k)
    }"

definition rt_mutex_control :: "nat \<Rightarrow> int \<Rightarrow> kernel \<Rightarrow> rt_err_t option" where
  "rt_mutex_control i cmd k =
    do { RT_ASSERT (rt_object_get_type (OIpc i) k = Class_Mutex); Some (- RT_ERROR) }"

section \<open>The invariant of a mutex\<close>

text \<open>A free mutex has value 1, no owner, no waiters and is not held; a taken one has value 0, a
  started owner, a positive recursion count and a valid saved priority.\<close>

definition mutex_ok :: "nat \<Rightarrow> kernel \<Rightarrow> bool" where
  "mutex_ok i k \<longleftrightarrow>
    (case owner (mutexes k i) of
       None \<Rightarrow> mutex_value (mutexes k i) = 1 \<and> hold (mutexes k i) = 0 \<and> tlists k (Suspend i) = []
     | Some t \<Rightarrow> mutex_value (mutexes k i) = 0 \<and> 0 < hold (mutexes k i) \<and> started (threads k t) \<and>
         unat (original_priority (mutexes k i)) < 32 \<and> t \<notin> set (tlists k (Suspend i)))"

lemma upd_mutex_sel [simp]:
  "mutexes (upd_mutex i f k) = (mutexes k)(i := f (mutexes k i))" "threads (upd_mutex i f k) = threads k"
  "tlists (upd_mutex i f k) = tlists k" "cur (upd_mutex i f k) = cur k" "kinv (upd_mutex i f k) = kinv k"
  "hdr (upd_mutex i f k) = hdr k" "rt_tick (upd_mutex i f k) = rt_tick k"
  "tmlists (upd_mutex i f k) = tmlists k" "timers (upd_mutex i f k) = timers k"
  by (simp_all add: upd_mutex_def)

lemma set_priority_ok:
  assumes "kinv k" "started (threads k t)" "unat p < 32"
  shows "\<exists>k'. set_priority t p k = Some k' \<and> kinv k' \<and> sched_only k k' \<and> cur k' = cur k \<and>
    waits k' = waits k \<and> (\<forall>u. u \<noteq> t \<longrightarrow> threads k' u = threads k u) \<and>
    (\<exists>s. threads k' t = (change_priority p (threads k t))\<lparr>t_stat := s\<rparr>) \<and>
    stat_of (threads k' t) = stat_of (threads k t)"
proof -
  obtain k' where k': "rt_thread_control (\<lambda>_ _ _. None) t 2 p k = Some (RT_EOK, k')" "kinv k'" "sched_only k k'"
      "cur k' = cur k" "waits k' = waits k" "threads k' = (threads k)(t := (threads k' t))"
      "\<exists>s. threads k' t = (change_priority p (threads k t))\<lparr>t_stat := s\<rparr>" "stat_of (threads k' t) = stat_of (threads k t)"
    using control_priority_ok [OF assms, of "\<lambda>_ _ _. None"] by blast
  have "threads k' u = threads k u" if "u \<noteq> t" for u using that k'(6) by (metis fun_upd_apply)
  then show ?thesis using k' by (simp add: set_priority_def)
qed

lemma kinv_prio:
  assumes "kinv k" "started (threads k t)"
  shows "unat (prio_of k t) < 32"
  using qinvD(5) [OF kinvD(5) [OF assms(1)] assms(2)] by (simp add: prio_ok_def)

lemma u8_step:
  fixes v :: u8
  shows "0 < v \<Longrightarrow> unat (v - 1) + 1 = unat v" "v < 0xFF \<Longrightarrow> unat (v + 1) = unat v + 1" "v < 0xFF \<Longrightarrow> 0 < v + 1"
    "\<not> v < 0xFF \<longleftrightarrow> v = 0xFF"
proof -
  show "unat (v - 1) + 1 = unat v" if "0 < v"
    using that unat_sub_if' [of v 1] by (simp add: word_gt_0 unat_gt_0 Suc_leI)
  show u: "unat (v + 1) = unat v + 1" if "v < 0xFF"
    using that by (simp add: unat_word_ariths word_less_nat_alt)
  show "0 < v + 1" if "v < 0xFF" using u [OF that] by (simp add: word_less_nat_alt)
  show "\<not> v < 0xFF \<longleftrightarrow> v = 0xFF"
    using unat_less_8 [of v] by (auto simp: word_less_nat_alt word_unat_eq_iff)
qed

lemma set_error_live [simp]: "ipc_live c i (set_error t e k) = ipc_live c i k" "ipc_flag i (set_error t e k) = ipc_flag i k"
  using ipc_live_frame [OF set_error_frame(4)] by blast+

lemma set_error_calls [simp]: "thread_calls u (set_error t e k) = thread_calls u k"
  by (simp add: thread_calls_def)

lemma set_error_started [simp]: "started (th\<lparr>t_error := e\<rparr>) = started th"
  by (simp add: started_def)

lemma set_error_mutex_ok [simp]: "mutex_ok i (set_error t e k) = mutex_ok i k"
  by (simp add: mutex_ok_def split: option.splits)

text \<open>What \<open>rt_mutex_take\<close> does after it has cleared the error of the calling thread.\<close>

lemma mutex_block_ok:
  assumes inv: "kinv k" and live: "ipc_live Class_Mutex i k" and c: "thread_calls t k" and ok: "mutex_ok i k"
    and own: "owner (mutexes k i) = Some own" "own \<noteq> t" and time: "sint time < 0x7FFFFFFF"
  shows "\<exists>k1 k'. (if prio_of k t < prio_of k own then set_priority own (prio_of k t) k else Some k) = Some k1 \<and>
    block_on (Suspend i) t (ipc_flag i k1) time k1 = Some k' \<and> kinv k' \<and> mutex_ok i k' \<and> mutexes k' = mutexes k \<and>
    stat_of (threads k' t) = RT_THREAD_SUSPEND \<and> t_error (threads k' t) = t_error (threads k t) \<and>
    tlists k' (Suspend i) = flag_insert (ipc_flag i k) (prio_of k') t (tlists k (Suspend i)) \<and>
    prio_of k' own = min (prio_of k own) (prio_of k t)"
proof -
  have so: "started (threads k own)" using ok own by (simp add: mutex_ok_def)
  have st: "started (threads k t)" using thread_callsD(2) [OF c] by (simp add: started_def)
  have "\<exists>k1. (if prio_of k t < prio_of k own then set_priority own (prio_of k t) k else Some k) = Some k1 \<and>
      kinv k1 \<and> sched_only k k1 \<and> cur k1 = cur k \<and> waits k1 = waits k \<and> threads k1 t = threads k t \<and>
      started (threads k1 own) \<and> prio_of k1 own = min (prio_of k own) (prio_of k t)"
  proof (cases "prio_of k t < prio_of k own")
    case True
    obtain k1 where "set_priority own (prio_of k t) k = Some k1" "kinv k1" "sched_only k k1" "cur k1 = cur k"
        "waits k1 = waits k" "\<forall>u. u \<noteq> own \<longrightarrow> threads k1 u = threads k u"
        "\<exists>s. threads k1 own = (change_priority (prio_of k t) (threads k own))\<lparr>t_stat := s\<rparr>"
        "stat_of (threads k1 own) = stat_of (threads k own)"
      using set_priority_ok [OF inv so kinv_prio [OF inv st]] by blast
    then show ?thesis using True own(2) so only_stat_error(2) by (auto simp: started_def min_def)
  next
    case False
    then show ?thesis using inv so by (auto simp: min_def)
  qed
  then obtain k1 where k1: "(if prio_of k t < prio_of k own then set_priority own (prio_of k t) k else Some k) = Some k1"
      "kinv k1" "sched_only k k1" "cur k1 = cur k" "waits k1 = waits k" "threads k1 t = threads k t"
      "started (threads k1 own)" "prio_of k1 own = min (prio_of k own) (prio_of k t)" by blast
  have fl: "ipc_flag i k1 = ipc_flag i k" by (rule ipc_live_frame(2) [OF sched_only_data [OF k1(3)]])
  have wl: "tlists k1 (Suspend i) = tlists k (Suspend i)" using waits_tlists [OF k1(5)] by simp
  have c1: "cur k1 = Some t" "stat_of (threads k1 t) = RT_THREAD_RUNNING"
    using thread_callsD [OF c] k1(4,6) by simp_all
  have flag: "ipc_flag i k1 = RT_IPC_FLAG_FIFO \<or> ipc_flag i k1 = RT_IPC_FLAG_PRIO" using live fl by (simp add: ipc_live_def)
  obtain k' where k': "block_on (Suspend i) t (ipc_flag i k1) time k1 = Some k'" "kinv k'" "data_frame k1 k'"
      "\<forall>u. \<exists>s. threads k' u = (threads k1 u)\<lparr>t_stat := s\<rparr>" "stat_of (threads k' t) = RT_THREAD_SUSPEND"
      "tlists k' (Suspend i) = flag_insert (ipc_flag i k1) (prio_of k1) t (tlists k1 (Suspend i))"
      "\<forall>u. started (threads k' u) = started (threads k1 u)"
    using block_on_ok [OF k1(2) c1 flag, of "Suspend i" i time] time by blast
  have pr: "prio_of k' = prio_of k1" using only_stat_error(2) [OF spec [OF k'(4)]] by auto
  have mu: "mutexes k' = mutexes k" using data_frameD(6) [OF k'(3)] sched_onlyD(11) [OF k1(3)] by simp
  have "started (threads k' own)" using k'(7) k1(7) by simp
  moreover have "own \<notin> set (tlists k' (Suspend i))"
    using k'(6) wl ok own by (simp add: by_flag.set_ins mutex_ok_def)
  ultimately have "mutex_ok i k'" using ok own mu by (simp add: mutex_ok_def)
  then show ?thesis
    using k1(1,6,8) k'(1,2,5,6) mu fl wl pr fun_cong [OF pr, of own] only_stat_error(1) [OF spec [OF k'(4), of t]] by auto
qed

section \<open>Properties\<close>

text \<open>
  C12: \<open>rt_mutex_take\<close> on every branch. A free mutex is taken: the caller becomes the owner, is held once
  and its priority is saved. The owner may take it again, up to 255 times, then \<open>-RT_EFULL\<close>. A mutex
  of another thread gives \<open>-RT_ETIMEOUT\<close> at once without waiting time; otherwise the caller is
  suspended in the waiting list and the owner inherits its priority if that is higher. The
  kernel invariant and the invariant of the mutex hold on every branch.
\<close>

theorem rt_mutex_take_correct:
  assumes inv: "kinv k" and live: "ipc_live Class_Mutex i k" and c: "thread_calls t k" and ok: "mutex_ok i k"
    and time: "sint time < 0x7FFFFFFF"
  shows "\<exists>r k'. rt_mutex_take i time k = Some (r, k') \<and> kinv k' \<and> mutex_ok i k' \<and>
    (case owner (mutexes k i) of
       None \<Rightarrow> r = Returned RT_EOK \<and>
         mutexes k' i = \<lparr>mutex_value = 0, original_priority = prio_of k t, hold = 1, owner = Some t\<rparr>
     | Some own \<Rightarrow>
         if own = t then
           if hold (mutexes k i) = 0xFF then r = Returned (- RT_EFULL) \<and> mutexes k' = mutexes k
           else r = Returned RT_EOK \<and> owner (mutexes k' i) = Some t \<and>
             unat (hold (mutexes k' i)) = unat (hold (mutexes k i)) + 1
         else mutexes k' = mutexes k \<and>
           (if time = 0 then r = Returned (- RT_ETIMEOUT) \<and> tlists k' = tlists k
            else r = Suspended t \<and> stat_of (threads k' t) = RT_THREAD_SUSPEND \<and> t_error (threads k' t) = RT_EOK \<and>
              tlists k' (Suspend i) = flag_insert (ipc_flag i k) (prio_of k') t (tlists k (Suspend i)) \<and>
              prio_of k' own = min (prio_of k own) (prio_of k t)))"
proof -
  let ?k = "set_error t RT_EOK k"
  have inv': "kinv ?k" by (rule kinv_set_error [OF inv])
  have st: "started (threads k t)" using thread_callsD(2) [OF c] by (simp add: started_def)
  note pre = live [unfolded ipc_live_def, THEN conjunct1] thread_callsD(3,4) [OF c]
  have notw: "t \<notin> set (tlists k (Suspend i))"
    using not_listed [OF kinvD(5) [OF inv], of t "Suspend i"] thread_callsD(2) [OF c] by simp
  consider "owner (mutexes k i) = None" | "owner (mutexes k i) = Some t"
    | own where "owner (mutexes k i) = Some own" "own \<noteq> t" "time = 0"
    | own where "owner (mutexes k i) = Some own" "own \<noteq> t" "time \<noteq> 0" by blast
  then show ?thesis
  proof cases
    case 1
    then have m: "mutex_value (mutexes k i) = 1" "hold (mutexes k i) = 0" using ok by (simp_all add: mutex_ok_def)
    then show ?thesis
      using 1 pre inv' st kinv_prio [OF inv st] notw
      by (simp add: rt_mutex_take_def Let_def mutex_ok_def)
  next
    case 2
    show ?thesis
    proof (cases "hold (mutexes k i) < 0xFF")
      case True
      then have "hold (mutexes k i) \<noteq> 0xFF" by auto
      then show ?thesis
        using 2 pre inv' ok u8_step(2,3) [OF True] True
        by (simp add: rt_mutex_take_def Let_def mutex_ok_def)
    next
      case False
      then show ?thesis
        using 2 pre inv' ok u8_step(4) [of "hold (mutexes k i)"] by (simp add: rt_mutex_take_def)
    qed
  next
    case 3
    then have m: "mutex_value (mutexes k i) = 0" using ok by (simp add: mutex_ok_def)
    then show ?thesis
      using 3 pre inv' ok kinv_set_error [OF inv'] by (simp add: rt_mutex_take_def)
  next
    case 4
    then have m: "mutex_value (mutexes k i) = 0" using ok by (simp add: mutex_ok_def)
    obtain k1 k' where k': "(if prio_of ?k t < prio_of ?k own then set_priority own (prio_of ?k t) ?k else Some ?k) = Some k1"
        "block_on (Suspend i) t (ipc_flag i k1) time k1 = Some k'" "kinv k'" "mutex_ok i k'" "mutexes k' = mutexes ?k"
        "stat_of (threads k' t) = RT_THREAD_SUSPEND" "t_error (threads k' t) = t_error (threads ?k t)"
        "tlists k' (Suspend i) = flag_insert (ipc_flag i ?k) (prio_of k') t (tlists ?k (Suspend i))"
        "prio_of k' own = min (prio_of ?k own) (prio_of ?k t)"
      using mutex_block_ok [of ?k i t own time] inv' live c ok 4 time by auto
    have "rt_mutex_take i time k = Some (Suspended t, k')"
      using 4 m pre k'(1,2) unfolding rt_mutex_take_def by simp
    then show ?thesis using 4 k' by simp
  qed
qed

text \<open>A state where thread 1 owns mutex 1 and thread 0, of lower priority, is about to run.\<close>

definition demo_mutex :: kernel where
  "demo_mutex = upd_mutex 1 (\<lambda>_. \<lparr>mutex_value = 0, original_priority = 3, hold = 1, owner = Some 1\<rparr>)
    (upd_mutex 2 (\<lambda>_. mutex_fields_init)
      (upd_mutex 0 (\<lambda>_. \<lparr>mutex_value = 0, original_priority = 5, hold = 1, owner = Some 0\<rparr>) (demo_ipc Class_Mutex)))"

lemma demo_mutex_pre:
  "kinv demo_mutex" "ipc_live Class_Mutex i demo_mutex" "thread_calls 0 demo_mutex"
  "mutex_ok 0 demo_mutex" "mutex_ok 1 demo_mutex" "mutex_ok 2 demo_mutex"
proof -
  have "ipc_live Class_Mutex i (demo_ipc Class_Mutex)"
    by (rule demo_ipc_live) (simp add: rt_object_get_information_def)
  then show "ipc_live Class_Mutex i demo_mutex"
    by (simp add: demo_mutex_def ipc_live_def ipc_flag_def rt_object_get_type_def)
  show "kinv demo_mutex" by (simp add: demo_mutex_def demo_ipc_kinv)
  show "thread_calls 0 demo_mutex" by (simp add: demo_mutex_def thread_calls_def upd_mutex_def)
  show "mutex_ok 0 demo_mutex" "mutex_ok 1 demo_mutex" "mutex_ok 2 demo_mutex"
    by (simp_all add: demo_mutex_def mutex_ok_def started_def mutex_fields_init_def)
qed

theorem rt_mutex_take_correct_witness:
  "(\<exists>k'. rt_mutex_take 2 0 demo_mutex = Some (Returned RT_EOK, k') \<and> owner (mutexes k' 2) = Some 0 \<and> hold (mutexes k' 2) = 1) \<and>
   (\<exists>k'. rt_mutex_take 1 0 demo_mutex = Some (Returned (- RT_ETIMEOUT), k')) \<and>
   (\<exists>k'. rt_mutex_take 1 10 demo_mutex = Some (Suspended 0, k') \<and> kinv k' \<and> mutex_ok 1 k')"
  using rt_mutex_take_correct [OF demo_mutex_pre(1,2,3,6), of 0]
    rt_mutex_take_correct [OF demo_mutex_pre(1,2,3,5), of 0]
    rt_mutex_take_correct [OF demo_mutex_pre(1,2,3,5), of 10]
  by (auto simp: demo_mutex_def mutex_fields_init_def)

text \<open>Handing a mutex that is no longer held to the first waiting thread.\<close>

lemma mutex_handover_ok:
  assumes inv: "kinv k" and c: "cur k \<noteq> None" and w: "tlists k (Suspend i) = w # ws"
    and m: "mutex_value (mutexes k i) = 0" "hold (mutexes k i) = 0"
    and k1: "k1 = upd_mutex i (\<lambda>m. m\<lparr>hold := hold m + 1\<rparr>)
      (upd_mutex i (\<lambda>m. m\<lparr>owner := Some w, original_priority := prio_of k w\<rparr>) k)"
  shows "\<exists>k2 k'. rt_ipc_list_resume (Suspend i) k1 = Some k2 \<and> rt_schedule k2 = Some k' \<and> kinv k' \<and> mutex_ok i k' \<and>
    mutexes k' i = \<lparr>mutex_value = 0, original_priority = prio_of k w, hold = 1, owner = Some w\<rparr> \<and>
    tlists k' (Suspend i) = ws \<and> stat_of (threads k' w) \<in> {RT_THREAD_READY, RT_THREAD_RUNNING} \<and>
    (\<forall>u. t_error (threads k' u) = t_error (threads k u) \<and> prio_of k' u = prio_of k u)"
proof -
  have inv1: "kinv k1" using inv by (simp add: k1)
  have w1: "tlists k1 (Suspend i) = w # ws" using w by (simp add: k1)
  obtain k2 where k2: "rt_ipc_list_resume (Suspend i) k1 = Some k2" "kinv k2" "cur k2 = cur k1" "data_frame k1 k2"
      "threads k2 = (threads k1)(w := set_stat (wake_stat w k1) (threads k1 w))" "tlists k2 (Suspend i) = ws"
    using list_resume_ok [OF inv1 _ w1, of i] by blast
  obtain k' where k': "rt_schedule k2 = Some k'" "kinv k'" "same_threads k2 k'" "sched_only k2 k'" "waits k' = waits k2"
    using rt_schedule_kinv [OF k2(2)] k2(3) c by (auto simp: k1)
  have mu: "mutexes k' i = \<lparr>mutex_value = 0, original_priority = prio_of k w, hold = 1, owner = Some w\<rparr>"
    using sched_onlyD(11) [OF k'(4)] data_frameD(6) [OF k2(4)] m by (simp add: k1)
  have q: "tlists k' (Suspend i) = ws" using waits_tlists [OF k'(5), of "Suspend i"] k2(6) by simp
  have stw: "stat_of (threads k' w) \<in> {RT_THREAD_READY, RT_THREAD_RUNNING}"
    using same_threadsD(4) [OF k'(3), of w] k2(5) by (simp add: wake_stat_def)
  have wn: "w \<notin> set ws" using qinvD(6) [OF kinvD(5) [OF inv], of "Suspend i"] w by simp
  have ws: "started (threads k w)"
    using wait_list_stat [OF kinvD(5) [OF inv], of "Suspend i" i w] w by (simp add: started_def)
  have "mutex_ok i k'"
    using mu q stw wn kinv_prio [OF inv ws] by (auto simp: mutex_ok_def started_def)
  moreover have "t_error (threads k' u) = t_error (threads k u) \<and> prio_of k' u = prio_of k u" for u
    using only_stat_error(1,2) [OF same_threadsD(3) [OF k'(3), of u]] k2(5) by (cases "u = w") (simp_all add: k1)
  ultimately show ?thesis using k2(1) k'(1,2) mu q stw by blast
qed

text \<open>
  C13: \<open>rt_mutex_release\<close> on every branch. Only the owner may release: any other thread gets
  \<open>-RT_ERROR\<close> and the mutex is unchanged. While the owner holds it more than once, the count
  goes down by one. The last release gives the owner its saved priority back and hands the mutex to the
  first waiting thread, which becomes ready, its owner and held once; without waiting threads
  the mutex is free again. The kernel invariant and the invariant of the mutex hold on every branch.
\<close>

theorem rt_mutex_release_correct:
  assumes inv: "kinv k" and live: "ipc_live Class_Mutex i k" and c: "thread_calls t k" and ok: "mutex_ok i k"
  shows "\<exists>e k'. rt_mutex_release i k = Some (e, k') \<and> kinv k' \<and> mutex_ok i k' \<and>
    (if owner (mutexes k i) \<noteq> Some t then e = - RT_ERROR \<and> mutexes k' = mutexes k
     else e = RT_EOK \<and>
       (if hold (mutexes k i) \<noteq> 1 then owner (mutexes k' i) = Some t \<and>
          unat (hold (mutexes k' i)) + 1 = unat (hold (mutexes k i))
        else prio_of k' t = original_priority (mutexes k i) \<and>
          (case tlists k (Suspend i) of
             [] \<Rightarrow> mutexes k' i = mutex_fields_init
           | w # ws \<Rightarrow> mutexes k' i = \<lparr>mutex_value = 0, original_priority = prio_of k w, hold = 1, owner = Some w\<rparr> \<and>
               tlists k' (Suspend i) = ws \<and> stat_of (threads k' w) \<in> {RT_THREAD_READY, RT_THREAD_RUNNING} \<and>
               (t_error (threads k w) = RT_EOK \<longrightarrow> rt_mutex_take_resumed w k' = RT_EOK))))"
proof -
  note pre = live [unfolded ipc_live_def, THEN conjunct1] thread_callsD(3,4) [OF c]
  have st: "started (threads k t)" using thread_callsD(2) [OF c] by (simp add: started_def)
  consider "owner (mutexes k i) \<noteq> Some t" | "owner (mutexes k i) = Some t" "hold (mutexes k i) \<noteq> 1"
    | "owner (mutexes k i) = Some t" "hold (mutexes k i) = 1" by blast
  then show ?thesis
  proof cases
    case 1
    then show ?thesis using pre kinv_set_error [OF inv] ok by (simp add: rt_mutex_release_def)
  next
    case 2
    then have h: "0 < hold (mutexes k i)" using ok by (simp add: mutex_ok_def)
    then have "hold (mutexes k i) - 1 \<noteq> 0" using 2(2) by simp
    then show ?thesis
      using 2 pre inv ok u8_step(1) [OF h] by (simp add: rt_mutex_release_def Let_def mutex_ok_def word_gt_0)
  next
    case 3
    let ?o = "original_priority (mutexes k i)"
    let ?k = "upd_mutex i (\<lambda>m. m\<lparr>hold := hold m - 1\<rparr>) k"
    have o: "unat ?o < 32" "mutex_value (mutexes k i) = 0" "t \<notin> set (tlists k (Suspend i))"
      using ok 3 by (simp_all add: mutex_ok_def)
    have "\<exists>k1. (if ?o \<noteq> prio_of k t then set_priority t ?o ?k else Some ?k) = Some k1 \<and> kinv k1 \<and> cur k1 = cur k \<and>
        sched_only ?k k1 \<and> waits k1 = waits k \<and> prio_of k1 t = ?o \<and> (\<forall>u. u \<noteq> t \<longrightarrow> threads k1 u = threads k u)"
    proof (cases "?o \<noteq> prio_of k t")
      case True
      have "kinv ?k" "started (threads ?k t)" using inv st by simp_all
      from set_priority_ok [OF this o(1)] obtain k1 where "set_priority t ?o ?k = Some k1" "kinv k1" "sched_only ?k k1"
          "cur k1 = cur ?k" "waits k1 = waits ?k" "\<forall>u. u \<noteq> t \<longrightarrow> threads k1 u = threads ?k u"
          "\<exists>s. threads k1 t = (change_priority ?o (threads ?k t))\<lparr>t_stat := s\<rparr>" by blast
      then show ?thesis using True only_stat_error(2) by (auto simp: waits_def)
    next
      case False
      then show ?thesis using inv by (simp add: waits_def)
    qed
    then obtain k1 where k1: "(if ?o \<noteq> prio_of k t then set_priority t ?o ?k else Some ?k) = Some k1" "kinv k1" "cur k1 = cur k"
        "sched_only ?k k1" "waits k1 = waits k" "prio_of k1 t = ?o" "\<forall>u. u \<noteq> t \<longrightarrow> threads k1 u = threads k u" by blast
    have mu: "mutexes k1 i = (mutexes k i)\<lparr>hold := 0\<rparr>" using sched_onlyD(11) [OF k1(4)] 3(2) by simp
    have q: "tlists k1 (Suspend i) = tlists k (Suspend i)" using waits_tlists [OF k1(5)] by simp
    show ?thesis
    proof (cases "tlists k (Suspend i)")
      case Nil
      let ?k' = "upd_mutex i (\<lambda>m. m\<lparr>mutex_value := mutex_value m + 1, owner := None, original_priority := 0xff\<rparr>) k1"
      have "rt_mutex_release i k = Some (RT_EOK, ?k')"
        using 3 pre k1(1,6) mu q Nil o(2) unfolding rt_mutex_release_def
        by (cases "?o = prio_of k t") (simp_all add: Let_def)
      moreover have "mutexes ?k' i = mutex_fields_init" using mu o(2) by (simp add: mutex_fields_init_def)
      ultimately show ?thesis
        using 3 Nil k1(2,6) q by (intro exI [of _ RT_EOK] exI [of _ ?k']) (simp add: mutex_ok_def mutex_fields_init_def)
    next
      case (Cons w ws)
      then have wt: "w \<noteq> t" using o(3) by auto
      obtain k2 k' where k': "rt_ipc_list_resume (Suspend i) (upd_mutex i (\<lambda>m. m\<lparr>hold := hold m + 1\<rparr>)
            (upd_mutex i (\<lambda>m. m\<lparr>owner := Some w, original_priority := prio_of k1 w\<rparr>) k1)) = Some k2"
          "rt_schedule k2 = Some k'" "kinv k'" "mutex_ok i k'"
          "mutexes k' i = \<lparr>mutex_value = 0, original_priority = prio_of k1 w, hold = 1, owner = Some w\<rparr>"
          "tlists k' (Suspend i) = ws" "stat_of (threads k' w) \<in> {RT_THREAD_READY, RT_THREAD_RUNNING}"
          "\<forall>u. t_error (threads k' u) = t_error (threads k1 u) \<and> prio_of k' u = prio_of k1 u"
        using mutex_handover_ok [OF k1(2) _ _ _ _ refl, of i w ws] q Cons k1(3) thread_callsD(1) [OF c] mu o(2) by auto
      have "rt_mutex_release i k = Some (RT_EOK, k')"
        using 3 pre k1(1,6) mu q Cons k'(1,2) unfolding rt_mutex_release_def
        by (cases "?o = prio_of k t") (simp_all add: Let_def)
      then show ?thesis using 3 Cons k' k1(6,7) wt by (auto simp: rt_mutex_take_resumed_def)
    qed
  qed
qed

theorem rt_mutex_release_correct_witness:
  "(\<exists>k'. rt_mutex_release 1 demo_mutex = Some (- RT_ERROR, k') \<and> mutexes k' = mutexes demo_mutex) \<and>
   (\<exists>k'. rt_mutex_release 0 demo_mutex = Some (RT_EOK, k') \<and> kinv k' \<and> owner (mutexes k' 0) = Some 3)"
  using rt_mutex_release_correct [OF demo_mutex_pre(1,2,3,5)] rt_mutex_release_correct [OF demo_mutex_pre(1,2,3,4)]
  by (auto simp: demo_mutex_def)

end
