(* ===== verification/RT_Event.thy ===== *)
theory RT_Event
  imports RT_IPC
begin

unbundle bit_operations_syntax

text \<open>
  Event sets, \<open>src/ipc.c\<close>: 32 event bits, threads that wait for all (\<open>RT_EVENT_FLAG_AND\<close>) or any
  (\<open>RT_EVENT_FLAG_OR\<close>) of a set of them, and optional clearing (\<open>RT_EVENT_FLAG_CLEAR\<close>).
\<close>

section \<open>Operations\<close>

abbreviation (input) RT_EVENT_FLAG_AND :: u8 where "RT_EVENT_FLAG_AND \<equiv> 1"
abbreviation (input) RT_EVENT_FLAG_OR :: u8 where "RT_EVENT_FLAG_OR \<equiv> 2"
abbreviation (input) RT_EVENT_FLAG_CLEAR :: u8 where "RT_EVENT_FLAG_CLEAR \<equiv> 4"

definition set_event :: "nat \<Rightarrow> u32 \<Rightarrow> kernel \<Rightarrow> kernel" where
  "set_event i s k = k\<lparr>events := (events k)(i := (events k i)\<lparr>ev_set := s\<rparr>)\<rparr>"

definition rt_event_init :: "nat \<Rightarrow> string \<Rightarrow> u8 \<Rightarrow> kernel \<Rightarrow> (rt_err_t \<times> kernel) option" where
  "rt_event_init i nam flag k =
    do {
      k \<leftarrow> rt_object_init (OIpc i) Class_Event nam k;
      let k = set_ipc_flag i flag k;
      let k = rt_ipc_object_init i k;
      Some (RT_EOK, set_event i 0 k)
    }"

definition rt_event_detach :: "nat \<Rightarrow> kernel \<Rightarrow> (rt_err_t \<times> kernel) option" where
  "rt_event_detach i k =
    do {
      RT_ASSERT (rt_object_get_type (OIpc i) k = Class_Event);
      RT_ASSERT (rt_object_is_systemobject (OIpc i) k);
      k \<leftarrow> rt_ipc_list_resume_all (Suspend i) k;
      Some (RT_EOK, rt_object_detach (OIpc i) k)
    }"

definition rt_event_create :: "nat option \<Rightarrow> string \<Rightarrow> u8 \<Rightarrow> kernel \<Rightarrow> (nat option \<times> kernel) option" where
  "rt_event_create mem nam flag k =
    do {
      RT_ASSERT (not_in_interrupt k);
      (_, k) \<leftarrow> rt_object_allocate (map_option OIpc mem) Class_Event nam k;
      case mem of
        None \<Rightarrow> Some (None, k)
      | Some i \<Rightarrow>
          let k = set_ipc_flag i flag k;
              k = rt_ipc_object_init i k
          in Some (Some i, set_event i 0 k)
    }"

definition rt_event_delete :: "nat \<Rightarrow> kernel \<Rightarrow> (rt_err_t \<times> kernel) option" where
  "rt_event_delete i k =
    do {
      RT_ASSERT (rt_object_get_type (OIpc i) k = Class_Event);
      RT_ASSERT (\<not> rt_object_is_systemobject (OIpc i) k);
      RT_ASSERT (not_in_interrupt k);
      k \<leftarrow> rt_ipc_list_resume_all (Suspend i) k;
      k \<leftarrow> rt_object_delete (OIpc i) k;
      Some (RT_EOK, k)
    }"

text \<open>The loop of \<open>rt_event_send\<close> over the waiting threads (the node after the current one is
  fetched before the thread is resumed, so the threads visited are those of the
  initial list). \<open>None\<close> inside the result says that a thread has neither flag and the
  routine returns \<open>-RT_EINVAL\<close>.\<close>

fun event_send_loop :: "nat \<Rightarrow> tid list \<Rightarrow> bool \<Rightarrow> kernel \<Rightarrow> (bool option \<times> kernel) option" where
  "event_send_loop i [] need k = Some (Some need, k)"
| "event_send_loop i (t # ts) need k =
    (let th = threads k t;
         s = ev_set (events k i)
     in if event_info th AND RT_EVENT_FLAG_AND = 0 \<and> event_info th AND RT_EVENT_FLAG_OR = 0 then
          Some (None, k)
        else if event_info th AND RT_EVENT_FLAG_AND \<noteq> 0 \<and> event_set th AND s \<noteq> event_set th \<or>
                event_info th AND RT_EVENT_FLAG_AND = 0 \<and> event_set th AND s = 0 then
          event_send_loop i ts need k
        else
          do {
            let k = (if event_info th AND RT_EVENT_FLAG_AND \<noteq> 0 then k
                     else upd_thread t (\<lambda>th. th\<lparr>event_set := event_set th AND s\<rparr>) k);
            let k = (if event_info th AND RT_EVENT_FLAG_CLEAR \<noteq> 0
                     then set_event i (s AND NOT (event_set (threads k t))) k else k);
            (_, k) \<leftarrow> rt_thread_resume t k;
            event_send_loop i ts True k
          })"

definition rt_event_send :: "nat \<Rightarrow> u32 \<Rightarrow> kernel \<Rightarrow> (rt_err_t \<times> kernel) option" where
  "rt_event_send i s k =
    do {
      RT_ASSERT (rt_object_get_type (OIpc i) k = Class_Event);
      if s = 0 then Some (- RT_ERROR, k)
      else do {
        let k = set_event i (ev_set (events k i) OR s) k;
        (need, k) \<leftarrow> event_send_loop i (tlists k (Suspend i)) False k;
        case need of
          None \<Rightarrow> Some (- RT_EINVAL, k)
        | Some need_schedule \<Rightarrow>
            if need_schedule then do { k \<leftarrow> rt_schedule k; Some (RT_EOK, k) } else Some (RT_EOK, k)
      }
    }"

text \<open>\<open>rt_event_recv\<close>: the value written to \<open>*recved\<close>, if any, is the second component.\<close>

definition rt_event_recv ::
  "nat \<Rightarrow> u32 \<Rightarrow> u8 \<Rightarrow> u32 \<Rightarrow> kernel \<Rightarrow> ((rt_err_t \<times> u32 option, tid) call \<times> kernel) option" where
  "rt_event_recv i s opt timeout k =
    do {
      RT_ASSERT (in_thread_context k);
      RT_ASSERT (rt_object_get_type (OIpc i) k = Class_Event);
      if s = 0 then Some (Returned (- RT_ERROR, None), k)
      else do {
        t \<leftarrow> rt_thread_self k;
        let k = set_error t RT_EOK k;
        let e = ev_set (events k i);
        RT_ASSERT (opt AND RT_EVENT_FLAG_AND \<noteq> 0 \<or> opt AND RT_EVENT_FLAG_OR \<noteq> 0);
        if opt AND RT_EVENT_FLAG_AND \<noteq> 0 \<and> e AND s = s \<or> opt AND RT_EVENT_FLAG_AND = 0 \<and> e AND s \<noteq> 0 then
          let k = upd_thread t (\<lambda>th. th\<lparr>event_set := e AND s, event_info := opt\<rparr>) k;
              k = (if opt AND RT_EVENT_FLAG_CLEAR \<noteq> 0 then set_event i (e AND NOT s) k else k)
          in Some (Returned (t_error (threads k t), Some (e AND s)), k)
        else if timeout = 0 then
          Some (Returned (- RT_ETIMEOUT, None), set_error t (- RT_ETIMEOUT) k)
        else do {
          let k = upd_thread t (\<lambda>th. th\<lparr>event_set := s, event_info := opt\<rparr>) k;
          k \<leftarrow> block_on (Suspend i) t (ipc_flag i k) timeout k;
          Some (Suspended t, k)
        }
      }
    }"

definition rt_event_recv_resumed :: "tid \<Rightarrow> kernel \<Rightarrow> rt_err_t \<times> u32 option" where
  "rt_event_recv_resumed t k =
    (if t_error (threads k t) \<noteq> RT_EOK then (t_error (threads k t), None)
     else (t_error (threads k t), Some (event_set (threads k t))))"

definition rt_event_control :: "nat \<Rightarrow> int \<Rightarrow> kernel \<Rightarrow> (rt_err_t \<times> kernel) option" where
  "rt_event_control i cmd k =
    do {
      RT_ASSERT (rt_object_get_type (OIpc i) k = Class_Event);
      if cmd = 1 then
        do {
          k \<leftarrow> rt_ipc_list_resume_all (Suspend i) k;
          let k = set_event i 0 k;
          k \<leftarrow> rt_schedule k;
          Some (RT_EOK, k)
        }
      else Some (- RT_ERROR, k)
    }"

section \<open>The invariant of an event object\<close>

text \<open>The condition that a thread waits for.\<close>

definition event_match :: "rt_thread \<Rightarrow> u32 \<Rightarrow> bool" where
  "event_match th s \<longleftrightarrow>
    (if event_info th AND RT_EVENT_FLAG_AND \<noteq> 0 then event_set th AND s = event_set th else event_set th AND s \<noteq> 0)"

definition event_waiter :: "rt_thread \<Rightarrow> bool" where
  "event_waiter th \<longleftrightarrow> event_info th AND RT_EVENT_FLAG_AND \<noteq> 0 \<or> event_info th AND RT_EVENT_FLAG_OR \<noteq> 0"

text \<open>No thread waits for something that has already happened.\<close>

definition event_ok :: "nat \<Rightarrow> kernel \<Rightarrow> bool" where
  "event_ok i k \<longleftrightarrow> (\<forall>t\<in>set (tlists k (Suspend i)). event_waiter (threads k t) \<and> \<not> event_match (threads k t) (ev_set (events k i)))"

lemma event_match_mono:
  assumes "event_match th (s AND r)"
  shows "event_match th s"
proof -
  have "event_set th AND s = event_set th" if h: "event_set th AND (s AND r) = event_set th"
  proof -
    have "event_set th AND s = (event_set th AND (s AND r)) AND s" by (subst h) (rule refl)
    also have "\<dots> = event_set th AND (s AND r)" by (simp add: ac_simps)
    finally show ?thesis using h by simp
  qed
  moreover have "event_set th AND s \<noteq> 0" if "event_set th AND (s AND r) \<noteq> 0"
    using that by (auto simp: and.assoc [symmetric])
  ultimately show ?thesis using assms by (auto simp: event_match_def split: if_splits)
qed

lemma event_match_cong:
  assumes "event_info th' = event_info th" "event_set th' = event_set th"
  shows "event_match th' s = event_match th s" "event_waiter th' = event_waiter th"
  using assms by (simp_all add: event_match_def event_waiter_def)

lemma set_event_sel [simp]:
  "threads (set_event i s k) = threads k" "tlists (set_event i s k) = tlists k" "cur (set_event i s k) = cur k"
  "kinv (set_event i s k) = kinv k" "ev_set (events (set_event i s k) i) = s" "hdr (set_event i s k) = hdr k"
  "waits (set_event i s k) = waits k" "ipc_flag j (set_event i s k) = ipc_flag j k"
  by (simp_all add: set_event_def waits_def ipc_flag_def)

lemma kinv_event_fields: "kinv k \<Longrightarrow> kinv (upd_thread t (\<lambda>th. th\<lparr>event_set := s th\<rparr>) k)"
  "kinv k \<Longrightarrow> kinv (upd_thread t (\<lambda>th. th\<lparr>event_set := s th, event_info := p\<rparr>) k)"
  by (rule kinv_upd_same; simp add: stack_check_def stat_of_def)+

section \<open>The specification of sending\<close>

text \<open>What \<open>rt_event_send\<close> promises, without kernel state: the waiting threads are served in
  list order; a thread whose condition holds receives its events, which are
  cleared before the next thread is looked at if it asked for that. The result is the threads
  served with what they received, the threads that go on waiting, and the final event set.\<close>

definition received :: "rt_thread \<Rightarrow> u32 \<Rightarrow> u32" where
  "received th s = (if event_info th AND RT_EVENT_FLAG_AND \<noteq> 0 then event_set th else event_set th AND s)"

fun serve :: "(tid \<Rightarrow> rt_thread) \<Rightarrow> tid list \<Rightarrow> u32 \<Rightarrow> (tid \<times> u32) list \<times> tid list \<times> u32" where
  "serve w [] s = ([], [], s)"
| "serve w (t # ts) s =
    (if event_match (w t) s then
       (let got = received (w t) s;
            (woken, rest, e) = serve w ts (if event_info (w t) AND RT_EVENT_FLAG_CLEAR \<noteq> 0 then s AND NOT got else s)
        in ((t, got) # woken, rest, e))
     else (let (woken, rest, e) = serve w ts s in (woken, t # rest, e)))"

lemma serve_cong:
  assumes "\<forall>u\<in>set ts. event_info (w u) = event_info (v u) \<and> event_set (w u) = event_set (v u)"
  shows "serve w ts s = serve v ts s"
  using assms
proof (induction ts arbitrary: s)
  case (Cons t ts)
  have "event_match (w t) s = event_match (v t) s" "received (w t) s = received (v t) s"
    using Cons.prems by (simp_all add: event_match_def received_def)
  then show ?case using Cons by simp
qed simp

lemma serve_set: "serve w ts s = (woken, rest, e) \<Longrightarrow> fst ` set woken \<union> set rest = set ts"
proof (induction ts arbitrary: s woken rest)
  case (Cons t ts)
  show ?case
  proof (cases "event_match (w t) s")
    case True
    then obtain s' woken' g where "serve w ts s' = (woken', rest, e)" "woken = (t, g) # woken'"
      using Cons.prems by (auto simp: Let_def split: prod.splits)
    then show ?thesis using Cons.IH [of s' woken' rest] by auto
  next
    case False
    then obtain rest' where "serve w ts s = (woken, rest', e)" "rest = t # rest'"
      using Cons.prems by (auto split: prod.splits)
    then show ?thesis using Cons.IH [of s woken rest'] by auto
  qed
qed simp

lemma serve_shrinks: "serve w ts s = (woken, rest, e) \<Longrightarrow> \<exists>r. e = s AND r"
proof (induction ts arbitrary: s woken rest)
  case Nil
  then have "e = s AND - 1" by simp
  then show ?case by blast
next
  case (Cons t ts)
  obtain s' woken' rest' where "serve w ts s' = (woken', rest', e)" "s' = s \<or> (\<exists>g. s' = s AND NOT g)"
    using Cons.prems by (auto simp: Let_def split: if_splits prod.splits)
  then show ?case using Cons.IH [of s'] by (auto simp: and.assoc)
qed

text \<open>Clearing events cannot satisfy the condition of a thread that was passed over.\<close>

lemma serve_leaves_no_match:
  "serve w ts s = (woken, rest, e) \<Longrightarrow> u \<in> set rest \<Longrightarrow> \<not> event_match (w u) e"
proof (induction ts arbitrary: s woken rest)
  case (Cons t ts)
  show ?case
  proof (cases "event_match (w t) s")
    case True
    then show ?thesis using Cons by (auto simp: Let_def split: prod.splits)
  next
    case False
    obtain rest' where r: "serve w ts s = (woken, rest', e)" "rest = t # rest'"
      using Cons.prems(1) False by (auto split: prod.splits)
    obtain q where "e = s AND q" using serve_shrinks [OF r(1)] by blast
    then show ?thesis using Cons r False event_match_mono by auto
  qed
qed simp

text \<open>One step of the loop for a thread that is served.\<close>

lemma event_serve_one:
  assumes inv: "kinv k" and h: "tlists k (Suspend i) = pre @ t # ts"
    and k0: "k0 = set_event i e (upd_thread t (\<lambda>th. th\<lparr>event_set := g\<rparr>) k)"
  shows "\<exists>k1. rt_thread_resume t k0 = Some (RT_EOK, k1) \<and> kinv k1 \<and> cur k1 = cur k \<and>
    tlists k1 (Suspend i) = pre @ ts \<and> ev_set (events k1 i) = e \<and> (\<forall>u. u \<noteq> t \<longrightarrow> threads k1 u = threads k u) \<and>
    threads k1 t = set_stat (wake_stat t k) ((threads k t)\<lparr>event_set := g\<rparr>)"
proof -
  have k0s: "kinv k0" "cur k0 = cur k" "tlists k0 = tlists k" "threads k0 = (threads k)(t := (threads k t)\<lparr>event_set := g\<rparr>)"
    "ev_set (events k0 i) = e"
    using kinv_event_fields(1) [OF inv] by (simp_all add: k0)
  note q = kinvD(5) [OF k0s(1)]
  have t: "t \<in> set (tlists k0 (Suspend i))" using h k0s by simp
  obtain k1 where k1: "rt_thread_resume t k0 = Some (RT_EOK, k1)" "kinv k1" "cur k1 = cur k0"
      "threads k1 = (threads k0)(t := set_stat (wake_stat t k0) (threads k0 t))"
      "waits k1 = waits (tl_remove t k0)" "data_frame k0 k1"
    using thread_resume_ok [OF k0s(1) wait_list_stat [OF q _ t, of i]] by metis
  have "t \<notin> set pre" using qinvD(6) [OF q, of "Suspend i"] h k0s(3) by simp
  then have "tlists k1 (Suspend i) = pre @ ts"
    using waits_tlists [OF k1(5), of "Suspend i"] h k0s(3) by (simp add: remove1_append)
  then show ?thesis
    using k1 k0s data_frameD(7) [OF k1(6)] by (intro exI [of _ k1]) (simp add: wake_stat_def)
qed

lemma upd_event_same: "upd_thread t (\<lambda>th. th\<lparr>event_set := event_set (threads k t)\<rparr>) k = k" "set_event i (ev_set (events k i)) k = k"
  by (simp_all add: upd_thread_def set_event_def)

lemma event_send_loop_step:
  assumes w: "event_waiter (threads k t)"
  shows "event_send_loop i (t # ts) need k =
    (if event_match (threads k t) (ev_set (events k i)) then
       (let s = ev_set (events k i); g = received (threads k t) s;
            e = (if event_info (threads k t) AND RT_EVENT_FLAG_CLEAR \<noteq> 0 then s AND NOT g else s) in
        do {
          (_, k) \<leftarrow> rt_thread_resume t (set_event i e (upd_thread t (\<lambda>th. th\<lparr>event_set := g\<rparr>) k));
          event_send_loop i ts True k
        })
     else event_send_loop i ts need k)"
proof -
  have ev: "events (upd_thread t f k) = events k" for f by simp
  show ?thesis
  proof (cases "event_info (threads k t) AND RT_EVENT_FLAG_AND \<noteq> 0")
    case True
    then show ?thesis
      using w upd_event_same [of t k] upd_event_same(2) [of i k]
      by (auto simp: event_match_def event_waiter_def received_def Let_def)
  next
    case False
    have u: "upd_thread t (\<lambda>th. th\<lparr>event_set := event_set th AND s\<rparr>) k =
      upd_thread t (\<lambda>th. th\<lparr>event_set := event_set (threads k t) AND s\<rparr>) k" for s
      by (simp add: upd_thread_def)
    show ?thesis
      using False w upd_event_same(2) [of i "upd_thread t f k" for f]
      by (auto simp: event_match_def event_waiter_def received_def Let_def u)
  qed
qed

lemma event_send_loop_ok:
  assumes "kinv k" "tlists k (Suspend i) = pre @ ts" "\<forall>t\<in>set ts. event_waiter (threads k t)"
    "serve (threads k) ts (ev_set (events k i)) = (woken, rest, e)"
  shows "\<exists>k'. event_send_loop i ts need k = Some (Some (need \<or> woken \<noteq> []), k') \<and> kinv k' \<and> cur k' = cur k \<and>
    tlists k' (Suspend i) = pre @ rest \<and> ev_set (events k' i) = e \<and>
    (\<forall>u. u \<notin> fst ` set woken \<longrightarrow> threads k' u = threads k u) \<and>
    (\<forall>(t, g)\<in>set woken. threads k' t = set_stat (wake_stat t k) ((threads k t)\<lparr>event_set := g\<rparr>))"
  using assms
proof (induction ts arbitrary: k pre need woken rest)
  case (Cons t ts)
  let ?s = "ev_set (events k i)"
  have w: "event_waiter (threads k t)" using Cons.prems by simp
  show ?case
  proof (cases "event_match (threads k t) ?s")
    case False
    obtain rest' where r: "serve (threads k) ts ?s = (woken, rest', e)" "rest = t # rest'"
      using Cons.prems(4) False by (auto split: prod.splits)
    have "tlists k (Suspend i) = (pre @ [t]) @ ts" using Cons.prems(2) by simp
    then show ?thesis
      using Cons.IH [OF Cons.prems(1) _ _ r(1), of "pre @ [t]"] Cons.prems(3) False r(2)
      by (simp add: event_send_loop_step [OF w] del: event_send_loop.simps)
  next
    case True
    define g where "g = received (threads k t) ?s"
    define s' where "s' = (if event_info (threads k t) AND RT_EVENT_FLAG_CLEAR \<noteq> 0 then ?s AND NOT g else ?s)"
    obtain woken' where r: "serve (threads k) ts s' = (woken', rest, e)" "woken = (t, g) # woken'"
      using Cons.prems(4) True by (auto simp: Let_def g_def [symmetric] s'_def [symmetric] split: prod.splits)
    obtain k1 where k1: "rt_thread_resume t (set_event i s' (upd_thread t (\<lambda>th. th\<lparr>event_set := g\<rparr>) k)) = Some (RT_EOK, k1)"
        "kinv k1" "cur k1 = cur k" "tlists k1 (Suspend i) = pre @ ts" "ev_set (events k1 i) = s'"
        "\<forall>u. u \<noteq> t \<longrightarrow> threads k1 u = threads k u"
        "threads k1 t = set_stat (wake_stat t k) ((threads k t)\<lparr>event_set := g\<rparr>)"
      using event_serve_one [OF Cons.prems(1,2) refl, of s' g] by blast
    have tn: "t \<notin> set ts" using qinvD(6) [OF kinvD(5) [OF Cons.prems(1)], of "Suspend i"] Cons.prems(2) by simp
    have sv: "serve (threads k1) ts (ev_set (events k1 i)) = (woken', rest, e)"
      using r(1) k1(5,6) tn serve_cong [of ts "threads k1" "threads k" s'] by metis
    have wt: "\<forall>u\<in>set ts. event_waiter (threads k1 u)" using k1(6) tn Cons.prems(3) by (metis list.set_intros(2))
    obtain k2 where k2: "event_send_loop i ts True k1 = Some (Some True, k2)" "kinv k2" "cur k2 = cur k1"
        "tlists k2 (Suspend i) = pre @ rest" "ev_set (events k2 i) = e"
        "\<forall>u. u \<notin> fst ` set woken' \<longrightarrow> threads k2 u = threads k1 u"
        "\<forall>(t, g)\<in>set woken'. threads k2 t = set_stat (wake_stat t k1) ((threads k1 t)\<lparr>event_set := g\<rparr>)"
      using Cons.IH [OF k1(2,4) wt sv, of True] by auto
    have ws: "wake_stat u k1 = wake_stat u k" for u using k1(3) by (simp add: wake_stat_def)
    have tw: "t \<notin> fst ` set woken'" using serve_set [OF r(1)] tn by blast
    have "event_send_loop i (t # ts) need k =
      (rt_thread_resume t (set_event i s' (upd_thread t (\<lambda>th. th\<lparr>event_set := g\<rparr>) k)) \<bind>
        (\<lambda>(_, k). event_send_loop i ts True k))"
      unfolding event_send_loop_step [OF w] Let_def g_def [symmetric] s'_def [symmetric] using True by simp
    then have "event_send_loop i (t # ts) need k = Some (Some True, k2)" using k1(1) k2(1) by simp
    moreover have "\<forall>u. u \<notin> fst ` set woken \<longrightarrow> threads k2 u = threads k u" using k2(6) k1(6) r(2) by simp
    moreover have "\<forall>(u, h)\<in>set woken'. threads k2 u = set_stat (wake_stat u k) ((threads k u)\<lparr>event_set := h\<rparr>)"
      using k2(7) k1(6) ws tw by (fastforce simp: image_iff)
    moreover have "threads k2 t = set_stat (wake_stat t k) ((threads k t)\<lparr>event_set := g\<rparr>)"
      using k2(6) tw k1(7) by simp
    ultimately show ?thesis using k2(2-5) k1(3) r(2) by (intro exI [of _ k2]) auto
  qed
qed auto

section \<open>Properties\<close>

text \<open>
  C14: \<open>rt_event_send\<close> implements the specification \<open>serve\<close>: the threads whose condition the new
  event set satisfies, taken in list order with the clearing each of them asks for, are made
  ready and their pending \<open>rt_event_recv\<close> returns exactly the events they received; the others stay in
  the list in their order; no thread is left waiting for events that are set. An empty set is refused.
\<close>

theorem rt_event_send_correct:
  assumes inv: "kinv k" and live: "ipc_live Class_Event i k" and c: "cur k \<noteq> None" and ok: "event_ok i k"
    and sv: "serve (threads k) (tlists k (Suspend i)) (ev_set (events k i) OR s) = (woken, rest, e)"
  shows "if s = 0 then rt_event_send i s k = Some (- RT_ERROR, k)
    else \<exists>k'. rt_event_send i s k = Some (RT_EOK, k') \<and> kinv k' \<and> event_ok i k' \<and> ev_set (events k' i) = e \<and>
      tlists k' (Suspend i) = rest \<and>
      (\<forall>(t, g)\<in>set woken. stat_of (threads k' t) \<in> {RT_THREAD_READY, RT_THREAD_RUNNING} \<and>
         (t_error (threads k t) = RT_EOK \<longrightarrow> rt_event_recv_resumed t k' = (RT_EOK, Some g)))"
proof (cases "s = 0")
  case False
  let ?k = "set_event i (ev_set (events k i) OR s) k"
  obtain k1 where k1: "event_send_loop i (tlists k (Suspend i)) False ?k = Some (Some (woken \<noteq> []), k1)" "kinv k1"
      "cur k1 = cur k" "tlists k1 (Suspend i) = rest" "ev_set (events k1 i) = e"
      "\<forall>u. u \<notin> fst ` set woken \<longrightarrow> threads k1 u = threads k u"
      "\<forall>(t, g)\<in>set woken. threads k1 t = set_stat (wake_stat t k) ((threads k t)\<lparr>event_set := g\<rparr>)"
    using event_send_loop_ok [of ?k i "[]" "tlists k (Suspend i)" woken rest e False] inv ok sv
    by (auto simp: event_ok_def wake_stat_def)
  have dist: "u \<notin> fst ` set woken" if "u \<in> set rest" for u
  proof
    assume "u \<in> fst ` set woken"
    then obtain g where g: "(u, g) \<in> set woken" by auto
    have "stat_of (threads k1 u) = wake_stat u k" using k1(7) g by (auto simp: wake_stat_def)
    moreover have "stat_of (threads k1 u) = RT_THREAD_SUSPEND"
      using wait_list_stat [OF kinvD(5) [OF k1(2)], of "Suspend i" i u] k1(4) that by simp
    ultimately show False by (simp add: wake_stat_def split: if_splits)
  qed
  have "\<exists>k2. (if woken \<noteq> [] then rt_schedule k1 else Some k1) = Some k2 \<and> kinv k2 \<and> waits k2 = waits k1 \<and>
     events k2 = events k1 \<and> (\<forall>u. \<exists>s. threads k2 u = (threads k1 u)\<lparr>t_stat := s\<rparr>) \<and>
     (\<forall>u. stat_of (threads k1 u) \<in> {RT_THREAD_READY, RT_THREAD_RUNNING} \<longrightarrow>
        stat_of (threads k2 u) \<in> {RT_THREAD_READY, RT_THREAD_RUNNING})"
  proof (cases "woken = []")
    case True
    have "\<exists>s. th = th\<lparr>t_stat := s\<rparr>" for th :: rt_thread by (rule exI [of _ "t_stat th"]) simp
    then show ?thesis using True k1(2) by simp
  next
    case False
    obtain k2 where k2: "rt_schedule k1 = Some k2" "kinv k2" "same_threads k1 k2" "sched_only k1 k2" "waits k2 = waits k1"
      using rt_schedule_kinv [OF k1(2)] k1(3) c by auto
    have "events k2 = events k1" using data_frameD(7) [OF sched_only_data [OF k2(4)]] .
    then show ?thesis
      using False k2(1,2,5) same_threadsD(3,4) [OF k2(3)] by (intro exI [of _ k2]) simp
  qed
  then obtain k2 where k2: "(if woken \<noteq> [] then rt_schedule k1 else Some k1) = Some k2" "kinv k2" "waits k2 = waits k1"
     "events k2 = events k1" "\<forall>u. \<exists>s. threads k2 u = (threads k1 u)\<lparr>t_stat := s\<rparr>"
     "\<forall>u. stat_of (threads k1 u) \<in> {RT_THREAD_READY, RT_THREAD_RUNNING} \<longrightarrow>
        stat_of (threads k2 u) \<in> {RT_THREAD_READY, RT_THREAD_RUNNING}" by blast
  note same = only_stat_error [OF spec [OF k2(5)]]
  have "rt_event_send i s k = Some (RT_EOK, k2)"
    using False live k1(1) k2(1) by (simp add: rt_event_send_def ipc_live_def split: if_splits)
  moreover have l: "tlists k2 (Suspend i) = rest" using waits_tlists [OF k2(3), of "Suspend i"] k1(4) by simp
  moreover have "event_ok i k2"
    unfolding event_ok_def l
  proof
    fix u assume u: "u \<in> set rest"
    have th: "threads k1 u = threads k u" using k1(6) dist u by blast
    have "event_waiter (threads k u)" using ok serve_set [OF sv] u by (auto simp: event_ok_def)
    then show "event_waiter (threads k2 u) \<and> \<not> event_match (threads k2 u) (ev_set (events k2 i))"
      using serve_leaves_no_match [OF sv u] th k1(5) k2(4) event_match_cong [OF same(4,3) [of u]] by simp
  qed
  moreover have "stat_of (threads k2 t) \<in> {RT_THREAD_READY, RT_THREAD_RUNNING} \<and>
       (t_error (threads k t) = RT_EOK \<longrightarrow> rt_event_recv_resumed t k2 = (RT_EOK, Some g))"
    if "(t, g) \<in> set woken" for t g
  proof -
    have "threads k1 t = set_stat (wake_stat t k) ((threads k t)\<lparr>event_set := g\<rparr>)" using k1(7) that by blast
    then show ?thesis
      using spec [OF k2(6), of t] same(1,3) [of t] by (simp add: rt_event_recv_resumed_def wake_stat_def split: if_splits)
  qed
  ultimately show ?thesis using False k2(2,4) k1(5) by auto
qed (use live in \<open>simp add: rt_event_send_def ipc_live_def\<close>)

text \<open>A state in which thread 3 waits for both of two events, to be cleared on receipt.\<close>

definition demo_event :: kernel where
  "demo_event = upd_thread 3 (\<lambda>th. th\<lparr>event_set := 6, event_info := 5\<rparr>) (demo_ipc Class_Event)"

lemma demo_event_facts:
  "kinv demo_event" "ipc_live Class_Event 0 demo_event" "cur demo_event = Some 0" "event_ok 0 demo_event"
  "tlists demo_event (Suspend 0) = [3]" "thread_calls 0 demo_event" "ev_set (events demo_event 0) = 0"
  "event_set (threads demo_event 3) = 6" "event_info (threads demo_event 3) = 5" "t_error (threads demo_event 3) = RT_EOK"
  "rt_tick demo_event = 100" "ipc_flag 0 demo_event = RT_IPC_FLAG_FIFO"
proof -
  show "kinv demo_event"
    unfolding demo_event_def using kinv_event_fields(2) [OF demo_ipc_kinv, of 3 5 "\<lambda>_. 6"] by simp
  have "ipc_live Class_Event 0 (demo_ipc Class_Event)" by (rule demo_ipc_live) (simp add: rt_object_get_information_def)
  then show "ipc_live Class_Event 0 demo_event"
    by (simp add: demo_event_def ipc_live_def rt_object_get_type_def ipc_flag_def)
  show "tlists demo_event (Suspend 0) = [3]" "cur demo_event = Some 0" "ev_set (events demo_event 0) = 0"
    "event_set (threads demo_event 3) = 6" "event_info (threads demo_event 3) = 5" "t_error (threads demo_event 3) = RT_EOK"
    "rt_tick demo_event = 100" "ipc_flag 0 demo_event = RT_IPC_FLAG_FIFO"
    by (simp_all add: demo_event_def zero_event_def ipc_flag_def zero_object_def)
  then show "event_ok 0 demo_event" by (simp add: event_ok_def event_waiter_def event_match_def)
  show "thread_calls 0 demo_event"
    using demo_ipc_calls [of Class_Event] by (simp add: demo_event_def thread_calls_def)
qed

theorem rt_event_send_correct_witness:
  "rt_event_send 0 0 demo_event = Some (- RT_ERROR, demo_event) \<and>
   (\<exists>k'. rt_event_send 0 7 demo_event = Some (RT_EOK, k') \<and> kinv k' \<and> ev_set (events k' 0) = 1 \<and>
     tlists k' (Suspend 0) = [] \<and> rt_event_recv_resumed 3 k' = (RT_EOK, Some 6)) \<and>
   (\<exists>k'. rt_event_send 0 2 demo_event = Some (RT_EOK, k') \<and> kinv k' \<and> ev_set (events k' 0) = 2 \<and>
     tlists k' (Suspend 0) = [3])"
proof -
  note d = demo_event_facts
  have c: "cur demo_event \<noteq> None" using d(3) by simp
  have "serve (threads demo_event) (tlists demo_event (Suspend 0)) (ev_set (events demo_event 0) OR 0) = ([], [3], 0)"
    "serve (threads demo_event) (tlists demo_event (Suspend 0)) (ev_set (events demo_event 0) OR 7) = ([(3, 6)], [], 1)"
    "serve (threads demo_event) (tlists demo_event (Suspend 0)) (ev_set (events demo_event 0) OR 2) = ([], [3], 2)"
    using d(5,7-9) by (simp_all add: event_match_def received_def Let_def)
  note s = rt_event_send_correct [OF d(1,2) c d(4) this(1)] rt_event_send_correct [OF d(1,2) c d(4) this(2)]
    rt_event_send_correct [OF d(1,2) c d(4) this(3)]
  show ?thesis using s d(10) by auto
qed

text \<open>
  \<open>rt_event_recv\<close> on every branch: an empty set is refused; if the condition already holds the
  call returns the events received and clears, if asked, the whole requested set and nothing
  else; without waiting time it returns \<open>-RT_ETIMEOUT\<close> and leaves the events alone; otherwise the
  thread waits with its set and options recorded, at its place in the list. No thread is
  left waiting for events that are set.
\<close>

theorem rt_event_recv_correct:
  assumes inv: "kinv k" and live: "ipc_live Class_Event i k" and c: "thread_calls t k" and ok: "event_ok i k"
    and opt: "opt AND RT_EVENT_FLAG_AND \<noteq> 0 \<or> opt AND RT_EVENT_FLAG_OR \<noteq> 0" and time: "sint time < 0x7FFFFFFF"
  shows "let e = ev_set (events k i); holds = (if opt AND RT_EVENT_FLAG_AND \<noteq> 0 then e AND s = s else e AND s \<noteq> 0) in
    if s = 0 then rt_event_recv i s opt time k = Some (Returned (- RT_ERROR, None), k)
    else if holds then
      \<exists>k'. rt_event_recv i s opt time k = Some (Returned (RT_EOK, Some (e AND s)), k') \<and> kinv k' \<and> event_ok i k' \<and>
        tlists k' = tlists k \<and>
        ev_set (events k' i) = (if opt AND RT_EVENT_FLAG_CLEAR \<noteq> 0 then e AND NOT s else e)
    else if time = 0 then
      \<exists>k'. rt_event_recv i s opt time k = Some (Returned (- RT_ETIMEOUT, None), k') \<and> kinv k' \<and> event_ok i k' \<and>
        events k' = events k \<and> tlists k' = tlists k
    else
      \<exists>k'. rt_event_recv i s opt time k = Some (Suspended t, k') \<and> kinv k' \<and> event_ok i k' \<and> events k' = events k \<and>
        stat_of (threads k' t) = RT_THREAD_SUSPEND \<and> t_error (threads k' t) = RT_EOK \<and>
        event_set (threads k' t) = s \<and> event_info (threads k' t) = opt \<and>
        tlists k' (Suspend i) = flag_insert (ipc_flag i k) (prio_of k) t (tlists k (Suspend i)) \<and>
        (0 < sint time \<longrightarrow> ThreadTimer t \<in> set (tmlists k' HardList) \<and> tticks k' (ThreadTimer t) = rt_tick k + time)"
proof -
  define e where "e = ev_set (events k i)"
  define holds where "holds = (if opt AND RT_EVENT_FLAG_AND \<noteq> 0 then e AND s = s else e AND s \<noteq> 0)"
  note cd = thread_callsD [OF c]
  have tn: "t \<notin> set (tlists k (Suspend i))"
    using wait_list_stat [OF kinvD(5) [OF inv], of "Suspend i" i t] cd(2) by auto
  let ?k = "set_error t RT_EOK k"
  have start: "rt_event_recv i s opt time k =
    (if holds then
       (let k = upd_thread t (\<lambda>th. th\<lparr>event_set := e AND s, event_info := opt\<rparr>) ?k;
            k = (if opt AND RT_EVENT_FLAG_CLEAR \<noteq> 0 then set_event i (e AND NOT s) k else k)
        in Some (Returned (t_error (threads k t), Some (e AND s)), k))
     else if time = 0 then Some (Returned (- RT_ETIMEOUT, None), set_error t (- RT_ETIMEOUT) ?k)
     else do {
       let k = upd_thread t (\<lambda>th. th\<lparr>event_set := s, event_info := opt\<rparr>) ?k;
       k \<leftarrow> block_on (Suspend i) t (ipc_flag i k) time k;
       Some (Suspended t, k)
     })" if "s \<noteq> 0"
    using that live cd opt by (auto simp: rt_event_recv_def ipc_live_def holds_def e_def Let_def)
  have others: "event_ok i k'" if "\<forall>u\<in>set (tlists k (Suspend i)). event_set (threads k' u) = event_set (threads k u) \<and>
      event_info (threads k' u) = event_info (threads k u)" "tlists k' (Suspend i) = tlists k (Suspend i)"
      "ev_set (events k' i) = e AND r" for k' r
  proof -
    have "event_match (threads k' u) x = event_match (threads k u) x" "event_waiter (threads k' u) = event_waiter (threads k u)"
      if "u \<in> set (tlists k (Suspend i))" for u x
      using event_match_cong [of "threads k' u" "threads k u"] that \<open>\<forall>u\<in>_. _\<close> by blast+
    then show ?thesis
      using ok that(2,3) event_match_mono [of _ e r] by (auto simp: event_ok_def e_def)
  qed
  consider "s = 0" | "s \<noteq> 0" holds | "s \<noteq> 0" "\<not> holds" "time = 0" | "s \<noteq> 0" "\<not> holds" "time \<noteq> 0" by blast
  then show ?thesis
  proof cases
    case 1
    then show ?thesis using live cd by (simp add: rt_event_recv_def ipc_live_def)
  next
    case 2
    have k1: "kinv (upd_thread t (\<lambda>th. th\<lparr>event_set := e AND s, event_info := opt\<rparr>) ?k)"
      by (rule kinv_event_fields(2) [OF kinv_set_error [OF inv]])
    define k' where "k' = (let k = upd_thread t (\<lambda>th. th\<lparr>event_set := e AND s, event_info := opt\<rparr>) ?k
      in if opt AND RT_EVENT_FLAG_CLEAR \<noteq> 0 then set_event i (e AND NOT s) k else k)"
    have sel: "kinv k'" "t_error (threads k' t) = RT_EOK" "tlists k' = tlists k" "\<forall>u. u \<noteq> t \<longrightarrow> threads k' u = threads k u"
      "ev_set (events k' i) = (if opt AND RT_EVENT_FLAG_CLEAR \<noteq> 0 then e AND NOT s else e)"
      using k1 by (simp_all add: k'_def Let_def e_def)
    have "ev_set (events k' i) = e AND (if opt AND RT_EVENT_FLAG_CLEAR \<noteq> 0 then NOT s else - 1)" using sel(5) by simp
    then have "event_ok i k'" using others [of k'] sel(3,4) tn by metis
    then show ?thesis
      using 2 start [OF 2(1), folded k'_def] sel unfolding Let_def e_def [symmetric] holds_def [symmetric] 
      by (simp add: k'_def [unfolded Let_def, symmetric])
  next
    case 3
    let ?k' = "set_error t (- RT_ETIMEOUT) ?k"
    have "ev_set (events ?k' i) = e AND - 1" by (simp add: e_def)
    then have "event_ok i ?k'" by (intro others [of ?k' "- 1"]) (use tn in auto)
    then show ?thesis using 3 start [OF 3(1)] kinv_set_error [OF kinv_set_error [OF inv]]
      unfolding Let_def e_def [symmetric] holds_def [symmetric] by simp
  next
    case 4
    let ?k1 = "upd_thread t (\<lambda>th. th\<lparr>event_set := s, event_info := opt\<rparr>) ?k"
    have k1: "kinv ?k1" by (rule kinv_event_fields(2) [OF kinv_set_error [OF inv]])
    have fl: "ipc_flag i ?k1 = ipc_flag i k" by (simp add: ipc_flag_def)
    have flag: "ipc_flag i ?k1 = RT_IPC_FLAG_FIFO \<or> ipc_flag i ?k1 = RT_IPC_FLAG_PRIO"
      using live by (simp add: ipc_live_def fl)
    have c1: "cur ?k1 = Some t" "stat_of (threads ?k1 t) = RT_THREAD_RUNNING" using cd by (simp_all add: stat_of_def)
    obtain k' where k': "block_on (Suspend i) t (ipc_flag i ?k1) time ?k1 = Some k'" "kinv k'" "data_frame ?k1 k'"
        "\<forall>u. \<exists>s. threads k' u = (threads ?k1 u)\<lparr>t_stat := s\<rparr>" "stat_of (threads k' t) = RT_THREAD_SUSPEND"
        "tlists k' (Suspend i) = flag_insert (ipc_flag i ?k1) (prio_of ?k1) t (tlists ?k1 (Suspend i))"
        "0 < sint time \<longrightarrow> ThreadTimer t \<in> set (tmlists k' HardList) \<and> tticks k' (ThreadTimer t) = rt_tick ?k1 + time"
      using block_on_ok [OF k1 c1 flag _ time, of "Suspend i" i] by blast
    note same = only_stat_error [OF spec [OF k'(4)]]
    have pr: "prio_of ?k1 = prio_of k" by auto
    have ev: "events k' = events k" using data_frameD(7) [OF k'(3)] by simp
    have "\<not> event_match (threads k' t) e" "event_waiter (threads k' t)"
      using 4(2) opt same(3,4) [of t] by (auto simp: event_match_def event_waiter_def holds_def and.commute split: if_splits)
    moreover have "event_waiter (threads k' u) \<and> \<not> event_match (threads k' u) e" if "u \<in> set (tlists k (Suspend i))" for u
      using ok that tn event_match_cong [of "threads k' u" "threads k u"] same(3,4) [of u]
      by (cases "u = t") (auto simp: event_ok_def e_def)
    ultimately have "event_ok i k'"
      unfolding event_ok_def k'(6) by_flag.set_ins ev e_def [symmetric] by simp
    moreover have "rt_event_recv i s opt time k = Some (Suspended t, k')"
      using 4 start [OF 4(1)] k'(1) by simp
    ultimately show ?thesis using 4 k' ev same [of t] fl pr unfolding Let_def e_def [symmetric] holds_def [symmetric] by simp
  qed
qed

theorem rt_event_recv_correct_witness:
  "rt_event_recv 0 0 1 5 demo_event = Some (Returned (- RT_ERROR, None), demo_event) \<and>
   (\<exists>k'. rt_event_recv 0 3 2 0 demo_event = Some (Returned (- RT_ETIMEOUT, None), k') \<and> kinv k') \<and>
   (\<exists>k'. rt_event_recv 0 3 2 5 demo_event = Some (Suspended 0, k') \<and> kinv k' \<and> tlists k' (Suspend 0) = [3, 0] \<and>
     tticks k' (ThreadTimer 0) = 105)"
proof -
  note d = demo_event_facts
  note r = rt_event_recv_correct [OF d(1,2,6,4), of 1 5 0] rt_event_recv_correct [OF d(1,2,6,4), of 2 0 3]
    rt_event_recv_correct [OF d(1,2,6,4), of 2 5 3]
  show ?thesis using r d(5,7,11,12) by (auto simp: flag_insert_def fifo_insert_def)
qed

end
