(* ===== verification/RT_Waiting.thy ===== *)
theory RT_Waiting
  imports RT_IPC
begin

unbundle bit_operations_syntax

text \<open>
  What mailboxes and message queues share in \<open>src/ipc.c\<close>: the second waiting list, the waiting time
  that is left when a blocked call runs again, the suspension of the caller and the
  wake-up of one thread on the other side.
\<close>

section \<open>Operations\<close>

text \<open>\<open>rt_list_init(&(mb->suspend_sender_thread))\<close>.\<close>

definition sender_list_init :: "nat \<Rightarrow> kernel \<Rightarrow> kernel" where
  "sender_list_init i k = k\<lparr>tlists := (tlists k)(Sender i := [])\<rparr>"

text \<open>The waiting time left after a suspension that began at tick \<open>start\<close>; 0 or negative stays as it is.\<close>

definition rest_timeout :: "u32 \<Rightarrow> u32 \<Rightarrow> kernel \<Rightarrow> u32" where
  "rest_timeout timeout start k =
    (if 0 < sint timeout then
       (let timeout = timeout - (rt_tick k - start) in if sint timeout < 0 then 0 else timeout)
     else timeout)"

text \<open>The common end of sending and receiving: wake the first thread of the list, if any.\<close>

definition wake_first :: "lid \<Rightarrow> kernel \<Rightarrow> kernel option" where
  "wake_first l k =
    (if tlists k l \<noteq> [] then do { k \<leftarrow> rt_ipc_list_resume l k; rt_schedule k } else Some k)"

section \<open>Facts\<close>

lemma rest_timeout_cases:
  "sint timeout \<le> 0 \<Longrightarrow> rest_timeout timeout start k = timeout"
  "0 < sint timeout \<Longrightarrow> 0 \<le> sint (rest_timeout timeout start k)"
  by (simp_all add: rest_timeout_def Let_def)

text \<open>A positive waiting time never grows, and it shrinks by the time that has passed until it is used up.\<close>

lemma rest_timeout_exact:
  assumes "0 < sint timeout" "rt_tick k - start \<le> timeout"
  shows "unat (rest_timeout timeout start k) = unat timeout - unat (rt_tick k - start)"
proof -
  let ?d = "rt_tick k - start"
  have t: "int (unat timeout) = sint timeout" using sint_nonneg_unat [of timeout] assms(1) by simp
  have u: "unat (timeout - ?d) = unat timeout - unat ?d" using assms(2) by (simp add: unat_sub)
  have "sint timeout < 0x80000000" using sint_lt [of timeout] by simp
  then have "unat timeout < 0x80000000" using t by linarith
  then have "uint (timeout - ?d) < 0x80000000" using u unat_eq_nat_uint [of "timeout - ?d"] by linarith
  then have "sint (timeout - ?d) = uint (timeout - ?d)"
    unfolding sint_uint by (intro signed_take_bit_int_eq_self) (simp_all add: order_trans [OF _ uint_ge_0])
  then have "0 \<le> sint (timeout - ?d)" by simp
  then show ?thesis using assms(1) u by (simp add: rest_timeout_def Let_def)
qed

lemma wake_first_ok:
  assumes inv: "kinv k" and c: "cur k \<noteq> None" and l: "l = Suspend i \<or> l = Sender i"
  shows "\<exists>k'. wake_first l k = Some k' \<and> kinv k' \<and> cur k' \<noteq> None \<and> data_frame k k' \<and> tlists k' l = tl (tlists k l) \<and>
    (\<forall>m. m \<noteq> l \<and> (\<forall>p. m \<noteq> Ready p) \<longrightarrow> tlists k' m = tlists k m) \<and>
    (\<forall>u. \<exists>s. threads k' u = (threads k u)\<lparr>t_stat := s\<rparr>) \<and>
    (tlists k l \<noteq> [] \<longrightarrow> stat_of (threads k' (hd (tlists k l))) \<in> {RT_THREAD_READY, RT_THREAD_RUNNING})"
proof (cases "tlists k l")
  case Nil
  have "\<exists>s. th = th\<lparr>t_stat := s\<rparr>" for th :: rt_thread by (rule exI [of _ "t_stat th"]) simp
  then show ?thesis using Nil inv c by (simp add: wake_first_def)
next
  case (Cons t ts)
  obtain k1 where k1: "rt_ipc_list_resume l k = Some k1" "kinv k1" "cur k1 = cur k" "data_frame k k1"
      "threads k1 = (threads k)(t := set_stat (wake_stat t k) (threads k t))" "tlists k1 l = ts"
      "\<forall>m. m \<noteq> l \<and> (\<forall>p. m \<noteq> Ready p) \<longrightarrow> tlists k1 m = tlists k m"
    using list_resume_ok [OF inv l Cons] by blast
  obtain k2 where k2: "rt_schedule k1 = Some k2" "kinv k2" "same_threads k1 k2" "sched_only k1 k2" "waits k2 = waits k1"
      "cur k2 \<noteq> None"
    using rt_schedule_kinv [OF k1(2)] k1(3) c by auto
  have w: "tlists k2 m = tlists k1 m" if "\<forall>p. m \<noteq> Ready p" for m using waits_tlists [OF k2(5) that] .
  have "\<exists>s. threads k2 u = (threads k u)\<lparr>t_stat := s\<rparr>" for u
    using same_threadsD(3) [OF k2(3), of u] k1(5) set_stat_clear_yield_ex(1) [of "wake_stat t k" "threads k t"]
    by (cases "u = t") auto
  moreover have "stat_of (threads k2 t) \<in> {RT_THREAD_READY, RT_THREAD_RUNNING}"
    using same_threadsD(4) [OF k2(3), of t] k1(5) by (simp add: wake_stat_def)
  moreover have "data_frame k k2" using k1(4) sched_only_data [OF k2(4)] by (rule data_frame_trans)
  ultimately show ?thesis
    using Cons k1(1,6,7) k2(1,2,6) w l by (intro exI [of _ k2]) (auto simp: wake_first_def)
qed

lemma block_caller_ok:
  assumes inv: "kinv k" and c: "thread_calls t k" and live: "ipc_live cl i k"
    and l: "l = Suspend i \<or> l = Sender i" and time: "sint time < 0x7FFFFFFF"
  shows "\<exists>k'. block_on l t (ipc_flag i (set_error t RT_EOK k)) time (set_error t RT_EOK k) = Some k' \<and> kinv k' \<and>
    data_frame k k' \<and> stat_of (threads k' t) = RT_THREAD_SUSPEND \<and> t_error (threads k' t) = RT_EOK \<and>
    tlists k' l = flag_insert (ipc_flag i k) (prio_of k) t (tlists k l) \<and>
    (\<forall>m. m \<noteq> l \<and> (\<forall>p. m \<noteq> Ready p) \<longrightarrow> tlists k' m = tlists k m) \<and>
    (0 < sint time \<longrightarrow> ThreadTimer t \<in> set (tmlists k' HardList) \<and> tticks k' (ThreadTimer t) = rt_tick k + time)"
proof -
  let ?k = "set_error t RT_EOK k"
  have fl: "ipc_flag i ?k = ipc_flag i k" by (simp add: ipc_flag_def)
  have flag: "ipc_flag i ?k = RT_IPC_FLAG_FIFO \<or> ipc_flag i ?k = RT_IPC_FLAG_PRIO"
    using live fl by (simp add: ipc_live_def)
  have c': "cur ?k = Some t" "stat_of (threads ?k t) = RT_THREAD_RUNNING" using c by (simp_all add: thread_calls_def)
  obtain k' where k': "block_on l t (ipc_flag i ?k) time ?k = Some k'" "kinv k'" "data_frame ?k k'"
      "\<forall>u. \<exists>s. threads k' u = (threads ?k u)\<lparr>t_stat := s\<rparr>" "stat_of (threads k' t) = RT_THREAD_SUSPEND"
      "tlists k' l = flag_insert (ipc_flag i ?k) (prio_of ?k) t (tlists ?k l)"
      "\<forall>m. m \<noteq> l \<and> (\<forall>p. m \<noteq> Ready p) \<longrightarrow> tlists k' m = tlists ?k m"
      "0 < sint time \<longrightarrow> ThreadTimer t \<in> set (tmlists k' HardList) \<and> tticks k' (ThreadTimer t) = rt_tick ?k + time"
    using block_on_ok [OF kinv_set_error [OF inv] c' flag l time] by blast
  have "t_error (threads k' t) = RT_EOK" using only_stat_error(1) [OF spec [OF k'(4), of t]] by simp
  moreover have "prio_of ?k = prio_of k" by auto
  moreover have "data_frame k k'" using set_error_frame(4) k'(3) by (rule data_frame_trans)
  ultimately show ?thesis using k' fl by auto
qed

text \<open>Waking all receivers and then all senders with an error.\<close>

lemma resume_both_ok:
  assumes inv: "kinv k"
  shows "\<exists>k1 k2. rt_ipc_list_resume_all (Suspend i) k = Some k1 \<and> rt_ipc_list_resume_all (Sender i) k1 = Some k2 \<and>
    kinv k2 \<and> cur k2 = cur k \<and> data_frame k k2 \<and> tlists k2 (Suspend i) = [] \<and> tlists k2 (Sender i) = [] \<and>
    (\<forall>u\<in>set (tlists k (Suspend i)) \<union> set (tlists k (Sender i)).
      stat_of (threads k2 u) \<in> {RT_THREAD_READY, RT_THREAD_RUNNING} \<and> t_error (threads k2 u) = - RT_ERROR)"
proof -
  obtain k1 where k1: "rt_ipc_list_resume_all (Suspend i) k = Some k1" "kinv k1" "cur k1 = cur k" "data_frame k k1"
      "tlists k1 (Suspend i) = []" "\<forall>m. m \<noteq> Suspend i \<and> (\<forall>p. m \<noteq> Ready p) \<longrightarrow> tlists k1 m = tlists k m"
      "\<forall>u. threads k1 u = (if u \<in> set (tlists k (Suspend i))
         then set_stat (wake_stat u k) ((threads k u)\<lparr>t_error := - RT_ERROR\<rparr>) else threads k u)"
    using resume_all_ok [OF inv, of "Suspend i" i] by blast
  obtain k2 where k2: "rt_ipc_list_resume_all (Sender i) k1 = Some k2" "kinv k2" "cur k2 = cur k1" "data_frame k1 k2"
      "tlists k2 (Sender i) = []" "\<forall>m. m \<noteq> Sender i \<and> (\<forall>p. m \<noteq> Ready p) \<longrightarrow> tlists k2 m = tlists k1 m"
      "\<forall>u. threads k2 u = (if u \<in> set (tlists k1 (Sender i))
         then set_stat (wake_stat u k1) ((threads k1 u)\<lparr>t_error := - RT_ERROR\<rparr>) else threads k1 u)"
    using resume_all_ok [OF k1(2), of "Sender i" i] by blast
  have "tlists k2 (Suspend i) = []" "tlists k1 (Sender i) = tlists k (Sender i)" using k2(6) k1(5,6) by simp_all
  moreover have "data_frame k k2" using k1(4) k2(4) by (rule data_frame_trans)
  moreover have "stat_of (threads k2 u) \<in> {RT_THREAD_READY, RT_THREAD_RUNNING} \<and> t_error (threads k2 u) = - RT_ERROR"
    if "u \<in> set (tlists k (Suspend i)) \<union> set (tlists k (Sender i))" for u
    using that k2(7) k1(7) \<open>tlists k1 (Sender i) = _\<close> by (auto simp: wake_stat_def)
  ultimately show ?thesis using k1 k2 by (intro exI [of _ k1] exI [of _ k2]) simp
qed

text \<open>The same with new contents of the object and a scheduling at the end, as the reset commands do.\<close>

lemma reset_schedule_ok:
  assumes inv: "kinv k2" and c: "cur k2 \<noteq> None"
    and u: "\<forall>u\<in>U. stat_of (threads k2 u) \<in> {RT_THREAD_READY, RT_THREAD_RUNNING} \<and> t_error (threads k2 u) = - RT_ERROR"
  shows "\<exists>k3. rt_schedule k2 = Some k3 \<and> kinv k3 \<and> data_frame k2 k3 \<and> waits k3 = waits k2 \<and>
    (\<forall>u\<in>U. stat_of (threads k3 u) \<in> {RT_THREAD_READY, RT_THREAD_RUNNING} \<and> t_error (threads k3 u) = - RT_ERROR)"
proof -
  obtain k3 where k3: "rt_schedule k2 = Some k3" "kinv k3" "same_threads k2 k3" "sched_only k2 k3" "waits k3 = waits k2"
    using rt_schedule_kinv [OF inv c] by blast
  have "stat_of (threads k3 x) \<in> {RT_THREAD_READY, RT_THREAD_RUNNING} \<and> t_error (threads k3 x) = - RT_ERROR" if "x \<in> U" for x
    using u that same_threadsD(4) [OF k3(3), of x] only_stat_error(1) [OF same_threadsD(3) [OF k3(3), of x]] by simp
  then show ?thesis using k3 sched_only_data by blast
qed

end
