(* ===== verification/RT_Fifo.thy ===== *)
theory RT_Fifo
  imports RT_Prelude
begin

text \<open>
  The interface that mailboxes, message queues and ring buffers share: a store of limited capacity that gives
  back what was put into it in the same order. \<open>fits s x\<close> says which values the store takes whole.
\<close>

fun put_all :: "('a \<Rightarrow> 's \<Rightarrow> 's option) \<Rightarrow> 'a list \<Rightarrow> 's \<Rightarrow> 's option" where
  "put_all put [] s = Some s"
| "put_all put (x # xs) s = do { s \<leftarrow> put x s; put_all put xs s }"

fun get_all :: "('s \<Rightarrow> ('a \<times> 's) option) \<Rightarrow> nat \<Rightarrow> 's \<Rightarrow> ('a list \<times> 's) option" where
  "get_all get 0 s = Some ([], s)"
| "get_all get (Suc n) s = do { (x, s) \<leftarrow> get s; (xs, s) \<leftarrow> get_all get n s; Some (x # xs, s) }"

locale bounded_fifo =
  fixes inv :: "'s \<Rightarrow> bool" and cap :: "'s \<Rightarrow> nat" and fits :: "'s \<Rightarrow> 'a \<Rightarrow> bool" and contents :: "'s \<Rightarrow> 'a list"
    and put :: "'a \<Rightarrow> 's \<Rightarrow> 's option" and get :: "'s \<Rightarrow> ('a \<times> 's) option"
  assumes bound: "inv s \<Longrightarrow> length (contents s) \<le> cap s"
    and put_law: "inv s \<Longrightarrow> fits s x \<Longrightarrow> length (contents s) < cap s \<Longrightarrow>
      \<exists>s'. put x s = Some s' \<and> inv s' \<and> cap s' = cap s \<and> fits s' = fits s \<and> contents s' = contents s @ [x]"
    and get_law: "inv s \<Longrightarrow> contents s = x # xs \<Longrightarrow>
      \<exists>s'. get s = Some (x, s') \<and> inv s' \<and> cap s' = cap s \<and> fits s' = fits s \<and> contents s' = xs"
begin

lemma put_all_ok:
  "inv s \<Longrightarrow> \<forall>x\<in>set xs. fits s x \<Longrightarrow> length (contents s) + length xs \<le> cap s \<Longrightarrow>
    \<exists>s'. put_all put xs s = Some s' \<and> inv s' \<and> cap s' = cap s \<and> fits s' = fits s \<and> contents s' = contents s @ xs"
proof (induction xs arbitrary: s)
  case (Cons x xs)
  obtain s1 where s1: "put x s = Some s1" "inv s1" "cap s1 = cap s" "fits s1 = fits s" "contents s1 = contents s @ [x]"
    using put_law [of s x] Cons.prems by auto
  then obtain s2 where "put_all put xs s1 = Some s2" "inv s2" "cap s2 = cap s1" "fits s2 = fits s1"
      "contents s2 = contents s1 @ xs"
    using Cons.IH [of s1] Cons.prems by auto
  then show ?case using s1 by simp
qed simp

lemma get_all_ok:
  "inv s \<Longrightarrow> contents s = xs @ ys \<Longrightarrow>
    \<exists>s'. get_all get (length xs) s = Some (xs, s') \<and> inv s' \<and> cap s' = cap s \<and> fits s' = fits s \<and> contents s' = ys"
proof (induction xs arbitrary: s)
  case (Cons x xs)
  obtain s1 where s1: "get s = Some (x, s1)" "inv s1" "cap s1 = cap s" "fits s1 = fits s" "contents s1 = xs @ ys"
    using get_law [of s x "xs @ ys"] Cons.prems by auto
  then obtain s2 where "get_all get (length xs) s1 = Some (xs, s2)" "inv s2" "cap s2 = cap s1" "fits s2 = fits s1"
      "contents s2 = ys"
    using Cons.IH [of s1] by auto
  then show ?case using s1 by simp
qed simp

text \<open>What is put in comes out, unchanged and in order, behind what was there before.\<close>

lemma fifo_round_trip:
  assumes "inv s" "\<forall>x\<in>set xs. fits s x" "length (contents s) + length xs \<le> cap s"
  shows "\<exists>s1 s2. put_all put xs s = Some s1 \<and>
    get_all get (length (contents s) + length xs) s1 = Some (contents s @ xs, s2) \<and> inv s2 \<and> contents s2 = []"
proof -
  obtain s1 where s1: "put_all put xs s = Some s1" "inv s1" "contents s1 = contents s @ xs"
    using put_all_ok [OF assms] by blast
  then show ?thesis using get_all_ok [of s1 "contents s @ xs" "[]"] by auto
qed

end

section \<open>Circular storage\<close>

text \<open>The \<open>m\<close> elements of a circular store of length \<open>n\<close> from position \<open>s\<close> on.\<close>

definition circ :: "nat \<Rightarrow> 'a list \<Rightarrow> nat \<Rightarrow> nat \<Rightarrow> 'a list" where
  "circ n p s m = map (\<lambda>j. p ! ((s + j) mod n)) [0..<m]"

lemma length_circ [simp]: "length (circ n p s m) = m"
  by (simp add: circ_def)

lemma circ_Nil [simp]: "circ n p s 0 = []"
  by (simp add: circ_def)

lemma mod_add_neq:
  fixes s j m n :: nat
  assumes "j < m" "m < n"
  shows "(s + j) mod n \<noteq> (s + m) mod n"
proof
  assume "(s + j) mod n = (s + m) mod n"
  then have "n dvd (s + m) - (s + j)"
    using assms mod_eq_dvd_iff_nat [of "s + j" "s + m" n] by (metis add_le_cancel_left less_imp_le_nat)
  then have "n dvd m - j" by simp
  then show False using assms by (auto dest: dvd_imp_le)
qed

lemma circ_snoc:
  assumes "m < n" "length p = n"
  shows "circ n (p[(s + m) mod n := v]) s (Suc m) = circ n p s m @ [v]"
proof -
  have "(s + m) mod n < n" using assms(1) by (intro mod_less_divisor) simp
  moreover have "(s + m) mod n \<noteq> (s + j) mod n" if "j < m" for j
    using mod_add_neq [OF that assms(1)] by metis
  ultimately show ?thesis using assms by (simp add: circ_def)
qed

lemma circ_Suc: "circ n p s (Suc m) = p ! (s mod n) # circ n p (Suc s mod n) m"
proof -
  have "[0..<Suc m] = 0 # map Suc [0..<m]" by (metis upt_conv_Cons map_Suc_upt zero_less_Suc)
  moreover have "(s + Suc j) mod n = (Suc s mod n + j) mod n" for j by (simp add: mod_simps)
  ultimately show ?thesis by (simp add: circ_def)
qed

lemma circ_mod: "circ n p (s mod n) m = circ n p s m"
  by (simp add: circ_def mod_simps)

lemma circ_add: "circ n p s (a + b) = circ n p s a @ circ n p ((s + a) mod n) b"
proof -
  have "[0..<a + b] = [0..<a] @ map (\<lambda>j. a + j) [0..<b]" by (induction b) simp_all
  moreover have "(s + (a + j)) mod n = ((s + a) mod n + j) mod n" for j 
    by (metis add.assoc mod_add_left_eq)
  ultimately show ?thesis by (simp add: circ_def)
qed

lemma take_circ: "m \<le> k \<Longrightarrow> take m (circ n p s k) = circ n p s m"
  by (simp add: circ_def take_map)

lemma circ_linear:
  assumes "s + m \<le> n" "length p = n"
  shows "circ n p s m = take m (drop s p)"
  using assms by (intro nth_equalityI) (auto simp: circ_def)

text \<open>Writing a block position by position, and as one or two copies of contiguous memory.\<close>

fun circ_write :: "nat \<Rightarrow> 'a list \<Rightarrow> nat \<Rightarrow> 'a list \<Rightarrow> 'a list" where
  "circ_write n p i [] = p"
| "circ_write n p i (x # xs) = circ_write n (p[i := x]) (Suc i mod n) xs"

lemma length_circ_write [simp]: "length (circ_write n p i xs) = length p"
  by (induction xs arbitrary: p i) simp_all

lemma circ_circ_write:
  "m + length xs \<le> n \<Longrightarrow> length p = n \<Longrightarrow> circ n (circ_write n p ((s + m) mod n) xs) s (m + length xs) = circ n p s m @ xs"
proof (induction xs arbitrary: p m)
  case (Cons x xs)
  let ?p = "p[(s + m) mod n := x]"
  have "circ n (circ_write n ?p ((s + Suc m) mod n) xs) s (Suc m + length xs) = circ n ?p s (Suc m) @ xs"
    using Cons.prems by (intro Cons.IH) auto
  moreover have "circ n ?p s (Suc m) = circ n p s m @ [x]" using Cons.prems by (intro circ_snoc) auto
  moreover have "Suc ((s + m) mod n) mod n = (s + Suc m) mod n" by (simp add: mod_simps)
  ultimately show ?case by simp
qed simp

lemma circ_write_append:
  assumes "i < n"
  shows "circ_write n p i (xs @ ys) = circ_write n (circ_write n p i xs) ((i + length xs) mod n) ys"
  using assms
proof (induction xs arbitrary: p i)
  case (Cons x xs)
  have "(Suc i mod n + length xs) mod n = (i + length (x # xs)) mod n" by (simp add: mod_simps)
  moreover have "Suc i mod n < n" using Cons.prems by simp
  ultimately show ?case using Cons.IH [of "Suc i mod n"] by simp
qed simp

definition blit :: "nat \<Rightarrow> 'a list \<Rightarrow> 'a list \<Rightarrow> 'a list" where
  "blit i xs p = take i p @ xs @ drop (i + length xs) p"

lemma length_blit [simp]: "i + length xs \<le> length p \<Longrightarrow> length (blit i xs p) = length p"
  by (simp add: blit_def)

lemma blit_circ_write:
  "i + length xs \<le> n \<Longrightarrow> length p = n \<Longrightarrow> blit i xs p = circ_write n p i xs"
proof (induction xs arbitrary: p i)
  case (Cons x xs)
  have "blit i (x # xs) p = blit (Suc i) xs (p[i := x])"
  proof -
    have "take (Suc i) (p[i := x]) = take i p @ [x]"
      using Cons.prems by (simp add: take_Suc_conv_app_nth)
    moreover have "drop (Suc i + length xs) (p[i := x]) = drop (i + length (x # xs)) p"
      using Cons.prems by (simp add: drop_update_cancel)
    ultimately show ?thesis by (simp add: blit_def)
  qed
  also have "\<dots> = circ_write n (p[i := x]) (Suc i) xs" using Cons.prems by (intro Cons.IH) auto
  also have "\<dots> = circ_write n (p[i := x]) (Suc i mod n) xs"
    using Cons.prems by (cases xs) auto
  finally show ?case by simp
qed (simp add: blit_def)

end
