(* ===== verification/RT_Mailbox.thy ===== *)
theory RT_Mailbox
  imports RT_Waiting RT_Fifo
begin

unbundle bit_operations_syntax

text \<open>
  Mailboxes, \<open>src/ipc.c\<close>: a circular buffer of words with a list of waiting receivers (\<open>Suspend i\<close>)
  and one of waiting senders (\<open>Sender i\<close>). A blocking call that suspends its thread returns \<open>Suspended\<close> with
  the thread, the waiting time left and the tick at which it began to wait; the
  \<open>_resumed\<close> definitions are the code after \<open>rt_schedule\<close>, which goes back to the loop.
\<close>

section \<open>Operations\<close>

definition upd_mb :: "nat \<Rightarrow> (rt_mailbox \<Rightarrow> rt_mailbox) \<Rightarrow> kernel \<Rightarrow> kernel" where
  "upd_mb i f k = k\<lparr>mailboxes := (mailboxes k)(i := f (mailboxes k i))\<rparr>"

definition mb_clear :: "rt_mailbox \<Rightarrow> rt_mailbox" where
  "mb_clear b = b\<lparr>mb_entry := 0, in_offset := 0, out_offset := 0\<rparr>"

definition rt_mb_init :: "nat \<Rightarrow> string \<Rightarrow> u32 list \<Rightarrow> u32 \<Rightarrow> u8 \<Rightarrow> kernel \<Rightarrow> (rt_err_t \<times> kernel) option" where
  "rt_mb_init i nam pool sz flag k =
    do {
      k \<leftarrow> rt_object_init (OIpc i) Class_MailBox nam k;
      let k = set_ipc_flag i flag k;
      let k = rt_ipc_object_init i k;
      let k = upd_mb i (\<lambda>b. mb_clear (b\<lparr>msg_pool := pool, mb_size := ucast sz\<rparr>)) k;
      Some (RT_EOK, sender_list_init i k)
    }"

definition rt_mb_detach :: "nat \<Rightarrow> kernel \<Rightarrow> (rt_err_t \<times> kernel) option" where
  "rt_mb_detach i k =
    do {
      RT_ASSERT (rt_object_get_type (OIpc i) k = Class_MailBox);
      RT_ASSERT (rt_object_is_systemobject (OIpc i) k);
      k \<leftarrow> rt_ipc_list_resume_all (Suspend i) k;
      k \<leftarrow> rt_ipc_list_resume_all (Sender i) k;
      Some (RT_EOK, rt_object_detach (OIpc i) k)
    }"

text \<open>\<open>mem\<close> and \<open>pool\<close> are what the two allocations return.\<close>

definition rt_mb_create ::
  "nat option \<Rightarrow> u32 list option \<Rightarrow> string \<Rightarrow> u32 \<Rightarrow> u8 \<Rightarrow> kernel \<Rightarrow> (nat option \<times> kernel) option" where
  "rt_mb_create mem pool nam sz flag k =
    do {
      RT_ASSERT (not_in_interrupt k);
      (_, k) \<leftarrow> rt_object_allocate (map_option OIpc mem) Class_MailBox nam k;
      case mem of
        None \<Rightarrow> Some (None, k)
      | Some i \<Rightarrow>
          do {
            let k = set_ipc_flag i flag k;
            let k = rt_ipc_object_init i k;
            let k = upd_mb i (\<lambda>b. b\<lparr>mb_size := ucast sz\<rparr>) k;
            case pool of
              None \<Rightarrow> do { k \<leftarrow> rt_object_delete (OIpc i) k; Some (None, k) }
            | Some p \<Rightarrow> Some (Some i, sender_list_init i (upd_mb i (\<lambda>b. mb_clear (b\<lparr>msg_pool := p\<rparr>)) k))
          }
    }"

definition rt_mb_delete :: "nat \<Rightarrow> kernel \<Rightarrow> (rt_err_t \<times> kernel) option" where
  "rt_mb_delete i k =
    do {
      RT_ASSERT (not_in_interrupt k);
      RT_ASSERT (rt_object_get_type (OIpc i) k = Class_MailBox);
      RT_ASSERT (\<not> rt_object_is_systemobject (OIpc i) k);
      k \<leftarrow> rt_ipc_list_resume_all (Suspend i) k;
      k \<leftarrow> rt_ipc_list_resume_all (Sender i) k;
      k \<leftarrow> rt_object_delete (OIpc i) k;
      Some (RT_EOK, k)
    }"

text \<open>The next offset: \<open>++ o; if (o >= size) o = 0\<close>.\<close>

definition next_offset :: "u16 \<Rightarrow> u16 \<Rightarrow> u16" where
  "next_offset sz x = (if sz \<le> x + 1 then 0 else x + 1)"

text \<open>\<open>None\<close>: the access is outside the pool. The boolean says whether the entry count could be raised.\<close>

definition mb_store :: "u32 \<Rightarrow> rt_mailbox \<Rightarrow> (bool \<times> rt_mailbox) option" where
  "mb_store v b =
    (if unat (in_offset b) < length (msg_pool b) then
       (let b = b\<lparr>msg_pool := (msg_pool b)[unat (in_offset b) := v]\<rparr>;
            b = b\<lparr>in_offset := next_offset (mb_size b) (in_offset b)\<rparr>
        in if mb_entry b < 0xFFFF then Some (True, b\<lparr>mb_entry := mb_entry b + 1\<rparr>) else Some (False, b))
     else None)"

definition mb_fetch :: "rt_mailbox \<Rightarrow> (u32 \<times> rt_mailbox) option" where
  "mb_fetch b =
    (if unat (out_offset b) < length (msg_pool b) then
       (let v = msg_pool b ! unat (out_offset b);
            b = b\<lparr>out_offset := next_offset (mb_size b) (out_offset b)\<rparr>
        in Some (v, if 0 < mb_entry b then b\<lparr>mb_entry := mb_entry b - 1\<rparr> else b))
     else None)"

text \<open>The code of \<open>rt_mb_send_wait\<close> from the loop on, run by \<open>thread\<close>.\<close>

definition mb_send_loop ::
  "nat \<Rightarrow> tid option \<Rightarrow> u32 \<Rightarrow> u32 \<Rightarrow> kernel \<Rightarrow> ((rt_err_t, tid \<times> u32 \<times> u32) call \<times> kernel) option" where
  "mb_send_loop i thread value timeout k =
    (if mb_entry (mailboxes k i) = mb_size (mailboxes k i) then
       do {
         t \<leftarrow> thread;
         let k = set_error t RT_EOK k;
         if timeout = 0 then Some (Returned (- RT_EFULL), k)
         else do {
           RT_ASSERT (in_thread_context k);
           k' \<leftarrow> block_on (Sender i) t (ipc_flag i k) timeout k;
           Some (Suspended (t, timeout, rt_tick k), k')
         }
       }
     else do {
       (counted, b) \<leftarrow> mb_store value (mailboxes k i);
       let k = upd_mb i (\<lambda>_. b) k;
       if counted then do { k \<leftarrow> wake_first (Suspend i) k; Some (Returned RT_EOK, k) }
       else Some (Returned (- RT_EFULL), k)
     })"

definition rt_mb_send_wait ::
  "nat \<Rightarrow> u32 \<Rightarrow> u32 \<Rightarrow> kernel \<Rightarrow> ((rt_err_t, tid \<times> u32 \<times> u32) call \<times> kernel) option" where
  "rt_mb_send_wait i value timeout k =
    do {
      RT_ASSERT (rt_object_get_type (OIpc i) k = Class_MailBox);
      if mb_entry (mailboxes k i) = mb_size (mailboxes k i) \<and> timeout = 0 then Some (Returned (- RT_EFULL), k)
      else mb_send_loop i (rt_thread_self k) value timeout k
    }"

definition rt_mb_send_wait_resumed ::
  "nat \<Rightarrow> u32 \<Rightarrow> tid \<times> u32 \<times> u32 \<Rightarrow> kernel \<Rightarrow> ((rt_err_t, tid \<times> u32 \<times> u32) call \<times> kernel) option" where
  "rt_mb_send_wait_resumed i value p k =
    (case p of (t, timeout, start) \<Rightarrow>
       if t_error (threads k t) \<noteq> RT_EOK then Some (Returned (t_error (threads k t)), k)
       else mb_send_loop i (Some t) value (rest_timeout timeout start k) k)"

definition rt_mb_send :: "nat \<Rightarrow> u32 \<Rightarrow> kernel \<Rightarrow> ((rt_err_t, tid \<times> u32 \<times> u32) call \<times> kernel) option" where
  "rt_mb_send i value k = rt_mb_send_wait i value 0 k"

text \<open>Receiving; the value written to \<open>*value\<close>, if any, is returned with the error code.\<close>

definition mb_recv_loop ::
  "nat \<Rightarrow> tid option \<Rightarrow> u32 \<Rightarrow> kernel \<Rightarrow> ((rt_err_t \<times> u32 option, tid \<times> u32 \<times> u32) call \<times> kernel) option" where
  "mb_recv_loop i thread timeout k =
    (if mb_entry (mailboxes k i) = 0 then
       do {
         t \<leftarrow> thread;
         let k = set_error t RT_EOK k;
         if timeout = 0 then Some (Returned (- RT_ETIMEOUT, None), set_error t (- RT_ETIMEOUT) k)
         else do {
           RT_ASSERT (in_thread_context k);
           k' \<leftarrow> block_on (Suspend i) t (ipc_flag i k) timeout k;
           Some (Suspended (t, timeout, rt_tick k), k')
         }
       }
     else do {
       (v, b) \<leftarrow> mb_fetch (mailboxes k i);
       k \<leftarrow> wake_first (Sender i) (upd_mb i (\<lambda>_. b) k);
       Some (Returned (RT_EOK, Some v), k)
     })"

definition rt_mb_recv ::
  "nat \<Rightarrow> u32 \<Rightarrow> kernel \<Rightarrow> ((rt_err_t \<times> u32 option, tid \<times> u32 \<times> u32) call \<times> kernel) option" where
  "rt_mb_recv i timeout k =
    do {
      RT_ASSERT (rt_object_get_type (OIpc i) k = Class_MailBox);
      if mb_entry (mailboxes k i) = 0 \<and> timeout = 0 then Some (Returned (- RT_ETIMEOUT, None), k)
      else mb_recv_loop i (rt_thread_self k) timeout k
    }"

definition rt_mb_recv_resumed ::
  "nat \<Rightarrow> tid \<times> u32 \<times> u32 \<Rightarrow> kernel \<Rightarrow> ((rt_err_t \<times> u32 option, tid \<times> u32 \<times> u32) call \<times> kernel) option" where
  "rt_mb_recv_resumed i p k =
    (case p of (t, timeout, start) \<Rightarrow>
       if t_error (threads k t) \<noteq> RT_EOK then Some (Returned (t_error (threads k t), None), k)
       else mb_recv_loop i (Some t) (rest_timeout timeout start k) k)"

definition rt_mb_control :: "nat \<Rightarrow> int \<Rightarrow> kernel \<Rightarrow> (rt_err_t \<times> kernel) option" where
  "rt_mb_control i cmd k =
    do {
      RT_ASSERT (rt_object_get_type (OIpc i) k = Class_MailBox);
      if cmd = 1 then
        do {
          k \<leftarrow> rt_ipc_list_resume_all (Suspend i) k;
          k \<leftarrow> rt_ipc_list_resume_all (Sender i) k;
          let k = upd_mb i mb_clear k;
          k \<leftarrow> rt_schedule k;
          Some (RT_EOK, k)
        }
      else Some (- RT_ERROR, k)
    }"

section \<open>The buffer of a mailbox\<close>

definition mb_inv :: "rt_mailbox \<Rightarrow> bool" where
  "mb_inv b \<longleftrightarrow> 0 < mb_size b \<and> length (msg_pool b) = unat (mb_size b) \<and> out_offset b < mb_size b \<and>
    mb_entry b \<le> mb_size b \<and>
    unat (in_offset b) = (unat (out_offset b) + unat (mb_entry b)) mod unat (mb_size b)"

definition mb_list :: "rt_mailbox \<Rightarrow> u32 list" where
  "mb_list b = circ (unat (mb_size b)) (msg_pool b) (unat (out_offset b)) (unat (mb_entry b))"

lemma next_offset_unat:
  assumes "x < sz"
  shows "unat (next_offset sz x) = Suc (unat x) mod unat sz"
proof -
  have le: "unat x < unat sz" "unat sz < 0x10000" using assms unat_less_16 [of sz] by (simp_all add: word_less_nat_alt)
  then have s: "unat (x + 1) = Suc (unat x)" by (simp add: unat_word_ariths)
  show ?thesis
  proof (cases "Suc (unat x) = unat sz")
    case True
    then show ?thesis using s by (simp add: next_offset_def word_le_nat_alt)
  next
    case False
    then show ?thesis using s le by (simp add: next_offset_def word_le_nat_alt)
  qed
qed

lemma mb_store_ok:
  assumes inv: "mb_inv b" and room: "mb_entry b \<noteq> mb_size b"
  shows "\<exists>b'. mb_store v b = Some (True, b') \<and> mb_inv b' \<and> mb_size b' = mb_size b \<and> mb_list b' = mb_list b @ [v]"
proof -
  let ?n = "unat (mb_size b)" and ?e = "unat (mb_entry b)" and ?o = "unat (out_offset b)" and ?i = "unat (in_offset b)"
  have e: "?e < ?n" using inv room by (auto simp: mb_inv_def word_le_nat_alt le_less word_unat_eq_iff)
  have i: "?i = (?o + ?e) mod ?n" "?i < ?n" "in_offset b < mb_size b"
    using inv e by (simp_all add: mb_inv_def word_less_nat_alt)
  have small: "mb_entry b < 0xFFFF" using e unat_less_16 [of "mb_size b"] by (simp add: word_less_nat_alt)
  have e': "unat (mb_entry b + 1) = Suc ?e" using e unat_less_16 [of "mb_size b"] by (simp add: unat_word_ariths)
  define b' where "b' = b\<lparr>msg_pool := (msg_pool b)[?i := v], in_offset := next_offset (mb_size b) (in_offset b),
    mb_entry := mb_entry b + 1\<rparr>"
  have "mb_store v b = Some (True, b')"
    using i(2) inv small by (simp add: mb_store_def Let_def b'_def mb_inv_def)
  moreover have "mb_inv b'"
  proof -
    have "Suc ((?o + ?e) mod ?n) mod ?n = (?o + Suc ?e) mod ?n" by (simp add: mod_simps)
    then show ?thesis
      using inv e i next_offset_unat [OF i(3)] e' by (simp add: mb_inv_def b'_def word_le_nat_alt)
  qed
  moreover have "mb_list b' = mb_list b @ [v]"
    using circ_snoc [OF e, of "msg_pool b" ?o v] inv i(1) e' by (simp add: mb_list_def b'_def mb_inv_def)
  ultimately show ?thesis by (simp add: b'_def)
qed

lemma mb_fetch_ok:
  assumes inv: "mb_inv b" and some: "mb_entry b \<noteq> 0"
  shows "\<exists>b'. mb_fetch b = Some (hd (mb_list b), b') \<and> mb_inv b' \<and> mb_size b' = mb_size b \<and> mb_list b' = tl (mb_list b)"
proof -
  let ?n = "unat (mb_size b)" and ?e = "unat (mb_entry b)" and ?o = "unat (out_offset b)"
  have o: "?o < ?n" "out_offset b < mb_size b" using inv by (simp_all add: mb_inv_def word_less_nat_alt)
  have pos: "0 < mb_entry b" "?e \<noteq> 0" using some by (simp_all add: word_gt_0 unat_eq_0)
  then obtain m where m: "?e = Suc m" using not0_implies_Suc by blast
  have e': "unat (mb_entry b - 1) = m" using pos m unat_sub_if' [of "mb_entry b" 1] by (simp add: Suc_leI)
  define b' where "b' = b\<lparr>out_offset := next_offset (mb_size b) (out_offset b), mb_entry := mb_entry b - 1\<rparr>"
  have l: "mb_list b = msg_pool b ! ?o # mb_list b'"
    using circ_Suc [of ?n "msg_pool b" ?o m] m e' next_offset_unat [OF o(2)] o(1) by (simp add: mb_list_def b'_def)
  have "mb_fetch b = Some (msg_pool b ! ?o, b')"
    using o(1) inv pos by (simp add: mb_fetch_def Let_def b'_def mb_inv_def)
  moreover have "mb_inv b'"
  proof -
    have "(Suc ?o mod ?n + m) mod ?n = (?o + Suc m) mod ?n" by (simp add: mod_simps)
    then show ?thesis
      using inv o next_offset_unat [OF o(2)] e' m by (simp add: mb_inv_def b'_def word_le_nat_alt word_less_nat_alt)
  qed
  ultimately show ?thesis using l by (simp add: b'_def)
qed

lemma mb_list_length: "length (mb_list b) = unat (mb_entry b)" "mb_list b = [] \<longleftrightarrow> mb_entry b = 0"
  by (simp_all add: mb_list_def circ_def unat_eq_0)

text \<open>A mailbox is a bounded first-in-first-out store of words.\<close>

interpretation mb: bounded_fifo mb_inv "\<lambda>b. unat (mb_size b)" "\<lambda>_ _. True" mb_list
  "\<lambda>v b. map_option snd (mb_store v b)" mb_fetch
proof
  show "length (mb_list b) \<le> unat (mb_size b)" if "mb_inv b" for b
    using that by (simp add: mb_list_length mb_inv_def word_le_nat_alt)
  show "\<exists>b'. map_option snd (mb_store v b) = Some b' \<and> mb_inv b' \<and> unat (mb_size b') = unat (mb_size b) \<and>
      (\<lambda>_. True) = (\<lambda>_. True) \<and> mb_list b' = mb_list b @ [v]"
    if "mb_inv b" "True" "length (mb_list b) < unat (mb_size b)" for b v
  proof -
    have "mb_entry b \<noteq> mb_size b" using that(3) by (auto simp: mb_list_length)
    then show ?thesis using mb_store_ok [OF that(1), of v] by auto
  qed
  show "\<exists>b'. mb_fetch b = Some (v, b') \<and> mb_inv b' \<and> unat (mb_size b') = unat (mb_size b) \<and>
      (\<lambda>_. True) = (\<lambda>_. True) \<and> mb_list b' = vs"
    if "mb_inv b" "mb_list b = v # vs" for b v vs
    using mb_fetch_ok [OF that(1)] that(2) mb_list_length(2) [of b] by auto
qed

section \<open>The mailbox in the kernel\<close>

lemma upd_mb_sel [simp]:
  "threads (upd_mb i f k) = threads k" "tlists (upd_mb i f k) = tlists k" "cur (upd_mb i f k) = cur k"
  "kinv (upd_mb i f k) = kinv k" "mailboxes (upd_mb i f k) i = f (mailboxes k i)" "rt_tick (upd_mb i f k) = rt_tick k"
  by (simp_all add: upd_mb_def)

text \<open>Storing a value and waking the first receiver.\<close>

lemma mb_send_room:
  assumes inv: "kinv k" and c: "cur k \<noteq> None" and mb: "mb_inv (mailboxes k i)"
    and room: "mb_entry (mailboxes k i) \<noteq> mb_size (mailboxes k i)"
  shows "\<exists>k'. mb_send_loop i thread v timeout k = Some (Returned RT_EOK, k') \<and> kinv k' \<and> mb_inv (mailboxes k' i) \<and>
    mb_list (mailboxes k' i) = mb_list (mailboxes k i) @ [v] \<and> cur k' \<noteq> None \<and>
    tlists k' (Suspend i) = tl (tlists k (Suspend i)) \<and> tlists k' (Sender i) = tlists k (Sender i) \<and>
    (\<forall>u. t_error (threads k' u) = t_error (threads k u)) \<and> (\<forall>j. j \<noteq> i \<longrightarrow> mailboxes k' j = mailboxes k j) \<and>
    (\<forall>c j. ipc_live c j k' = ipc_live c j k) \<and>
    (tlists k (Suspend i) \<noteq> [] \<longrightarrow>
      stat_of (threads k' (hd (tlists k (Suspend i)))) \<in> {RT_THREAD_READY, RT_THREAD_RUNNING})"
proof -
  obtain b where b: "mb_store v (mailboxes k i) = Some (True, b)" "mb_inv b" "mb_list b = mb_list (mailboxes k i) @ [v]"
    using mb_store_ok [OF mb room] by blast
  let ?k = "upd_mb i (\<lambda>_. b) k"
  obtain k' where k': "wake_first (Suspend i) ?k = Some k'" "kinv k'" "cur k' \<noteq> None" "data_frame ?k k'"
      "tlists k' (Suspend i) = tl (tlists ?k (Suspend i))"
      "\<forall>m. m \<noteq> Suspend i \<and> (\<forall>p. m \<noteq> Ready p) \<longrightarrow> tlists k' m = tlists ?k m"
      "\<forall>u. \<exists>s. threads k' u = (threads ?k u)\<lparr>t_stat := s\<rparr>"
      "tlists ?k (Suspend i) \<noteq> [] \<longrightarrow> stat_of (threads k' (hd (tlists ?k (Suspend i)))) \<in> {RT_THREAD_READY, RT_THREAD_RUNNING}"
    using wake_first_ok [of ?k "Suspend i" i] inv c by auto
  have "mailboxes k' i = b" using data_frameD(8) [OF k'(4)] by simp
  moreover have "mailboxes k' j = mailboxes k j" if "j \<noteq> i" for j
    using data_frameD(8) [OF k'(4)] that by (simp add: upd_mb_def)
  moreover have "ipc_live c j k' = ipc_live c j k" for c j
    using ipc_live_frame(1) [OF k'(4), of c j] by (simp add: ipc_live_def ipc_flag_def rt_object_get_type_def upd_mb_def)
  ultimately show ?thesis
    using k' b room only_stat_error(1) [OF spec [OF k'(7)]] by (intro exI [of _ k']) (simp add: mb_send_loop_def)
qed

lemma mb_recv_some:
  assumes inv: "kinv k" and c: "cur k \<noteq> None" and mb: "mb_inv (mailboxes k i)"
    and l: "mb_list (mailboxes k i) = v # vs"
  shows "\<exists>k'. mb_recv_loop i thread timeout k = Some (Returned (RT_EOK, Some v), k') \<and> kinv k' \<and>
    mb_inv (mailboxes k' i) \<and> mb_list (mailboxes k' i) = vs \<and>
    tlists k' (Sender i) = tl (tlists k (Sender i)) \<and> tlists k' (Suspend i) = tlists k (Suspend i) \<and>
    (\<forall>u. t_error (threads k' u) = t_error (threads k u)) \<and>
    (tlists k (Sender i) \<noteq> [] \<longrightarrow>
      stat_of (threads k' (hd (tlists k (Sender i)))) \<in> {RT_THREAD_READY, RT_THREAD_RUNNING})"
proof -
  have ne: "mb_entry (mailboxes k i) \<noteq> 0" using l mb_list_length(2) [of "mailboxes k i"] by auto
  obtain b where b: "mb_fetch (mailboxes k i) = Some (v, b)" "mb_inv b" "mb_list b = vs"
    using mb_fetch_ok [OF mb ne] l by auto
  let ?k = "upd_mb i (\<lambda>_. b) k"
  obtain k' where k': "wake_first (Sender i) ?k = Some k'" "kinv k'" "data_frame ?k k'"
      "tlists k' (Sender i) = tl (tlists ?k (Sender i))"
      "\<forall>m. m \<noteq> Sender i \<and> (\<forall>p. m \<noteq> Ready p) \<longrightarrow> tlists k' m = tlists ?k m"
      "\<forall>u. \<exists>s. threads k' u = (threads ?k u)\<lparr>t_stat := s\<rparr>"
      "tlists ?k (Sender i) \<noteq> [] \<longrightarrow> stat_of (threads k' (hd (tlists ?k (Sender i)))) \<in> {RT_THREAD_READY, RT_THREAD_RUNNING}"
    using wake_first_ok [of ?k "Sender i" i] inv c by auto
  have "mailboxes k' i = b" using data_frameD(8) [OF k'(3)] by simp
  then show ?thesis
    using k' b ne only_stat_error(1) [OF spec [OF k'(6)]] by (intro exI [of _ k']) (simp add: mb_recv_loop_def)
qed

lemma mb_send_full:
  assumes inv: "kinv k" and live: "ipc_live Class_MailBox i k" and c: "thread_calls t k"
    and full: "mb_entry (mailboxes k i) = mb_size (mailboxes k i)" and time: "timeout \<noteq> 0" "sint timeout < 0x7FFFFFFF"
  shows "\<exists>k'. mb_send_loop i (Some t) v timeout k = Some (Suspended (t, timeout, rt_tick k), k') \<and> kinv k' \<and>
    mailboxes k' = mailboxes k \<and> stat_of (threads k' t) = RT_THREAD_SUSPEND \<and> t_error (threads k' t) = RT_EOK \<and>
    tlists k' (Sender i) = flag_insert (ipc_flag i k) (prio_of k) t (tlists k (Sender i)) \<and>
    (0 < sint timeout \<longrightarrow> tticks k' (ThreadTimer t) = rt_tick k + timeout)"
proof -
  obtain k' where k': "block_on (Sender i) t (ipc_flag i (set_error t RT_EOK k)) timeout (set_error t RT_EOK k) = Some k'"
      "kinv k'" "data_frame k k'" "stat_of (threads k' t) = RT_THREAD_SUSPEND" "t_error (threads k' t) = RT_EOK"
      "tlists k' (Sender i) = flag_insert (ipc_flag i k) (prio_of k) t (tlists k (Sender i))"
      "0 < sint timeout \<longrightarrow> ThreadTimer t \<in> set (tmlists k' HardList) \<and> tticks k' (ThreadTimer t) = rt_tick k + timeout"
    using block_caller_ok [OF inv c live _ time(2), of "Sender i"] by blast
  have "in_thread_context (set_error t RT_EOK k)"
    using thread_callsD(3) [OF c] by (simp add: in_thread_context_def rt_thread_self_def)
  then show ?thesis
    using full time k' data_frameD(8) [OF k'(3)] by (intro exI [of _ k']) (simp add: mb_send_loop_def Let_def)
qed

lemma mb_recv_empty:
  assumes inv: "kinv k" and live: "ipc_live Class_MailBox i k" and c: "thread_calls t k"
    and empty: "mb_list (mailboxes k i) = []" and time: "timeout \<noteq> 0" "sint timeout < 0x7FFFFFFF"
  shows "\<exists>k'. mb_recv_loop i (Some t) timeout k = Some (Suspended (t, timeout, rt_tick k), k') \<and> kinv k' \<and>
    mailboxes k' = mailboxes k \<and> stat_of (threads k' t) = RT_THREAD_SUSPEND \<and> t_error (threads k' t) = RT_EOK \<and>
    tlists k' (Suspend i) = flag_insert (ipc_flag i k) (prio_of k) t (tlists k (Suspend i)) \<and>
    (0 < sint timeout \<longrightarrow> tticks k' (ThreadTimer t) = rt_tick k + timeout)"
proof -
  have e: "mb_entry (mailboxes k i) = 0" using empty mb_list_length(2) [of "mailboxes k i"] by simp
  obtain k' where k': "block_on (Suspend i) t (ipc_flag i (set_error t RT_EOK k)) timeout (set_error t RT_EOK k) = Some k'"
      "kinv k'" "data_frame k k'" "stat_of (threads k' t) = RT_THREAD_SUSPEND" "t_error (threads k' t) = RT_EOK"
      "tlists k' (Suspend i) = flag_insert (ipc_flag i k) (prio_of k) t (tlists k (Suspend i))"
      "0 < sint timeout \<longrightarrow> ThreadTimer t \<in> set (tmlists k' HardList) \<and> tticks k' (ThreadTimer t) = rt_tick k + timeout"
    using block_caller_ok [OF inv c live _ time(2), of "Suspend i"] by blast
  have "in_thread_context (set_error t RT_EOK k)"
    using thread_callsD(3) [OF c] by (simp add: in_thread_context_def rt_thread_self_def)
  then show ?thesis
    using e time k' data_frameD(8) [OF k'(3)] by (intro exI [of _ k']) (simp add: mb_recv_loop_def Let_def)
qed

text \<open>Mailboxes of two words in a kernel where thread 3 waits to receive from mailbox 0; mailbox 1 is full.\<close>

definition demo_mailbox :: rt_mailbox where
  "demo_mailbox = \<lparr>msg_pool = [0, 0], mb_size = 2, mb_entry = 0, in_offset = 1, out_offset = 1\<rparr>"

definition demo_mb :: kernel where
  "demo_mb = (demo_ipc Class_MailBox)\<lparr>mailboxes :=
    (\<lambda>_. demo_mailbox)(1 := \<lparr>msg_pool = [7, 8], mb_size = 2, mb_entry = 2, in_offset = 0, out_offset = 0\<rparr>)\<rparr>"

lemma demo_mb_facts:
  "kinv demo_mb" "ipc_live Class_MailBox i demo_mb" "thread_calls 0 demo_mb" "cur demo_mb = Some 0"
  "mb_inv (mailboxes demo_mb i)" "mb_list (mailboxes demo_mb 0) = []" "mb_list (mailboxes demo_mb 1) = [7, 8]"
  "tlists demo_mb (Suspend 0) = [3]" "t_error (threads demo_mb 3) = RT_EOK" "rt_tick demo_mb = 100"
  "tlists demo_mb (Sender 0) = []" "tlists demo_mb (Sender 1) = []" "ipc_flag i demo_mb = RT_IPC_FLAG_FIFO"
  "mb_size (mailboxes demo_mb i) = 2"
proof -
  show "kinv demo_mb" using demo_ipc_kinv by (simp add: demo_mb_def)
  have "ipc_live Class_MailBox i (demo_ipc Class_MailBox)" by (rule demo_ipc_live) (simp add: rt_object_get_information_def)
  then show "ipc_live Class_MailBox i demo_mb"
    by (simp add: demo_mb_def ipc_live_def rt_object_get_type_def ipc_flag_def)
  show "thread_calls 0 demo_mb" by (simp add: demo_mb_def thread_calls_def)
  show "cur demo_mb = Some 0" "tlists demo_mb (Suspend 0) = [3]" "t_error (threads demo_mb 3) = RT_EOK" "rt_tick demo_mb = 100"
    "tlists demo_mb (Sender 0) = []" "tlists demo_mb (Sender 1) = []"
    by (simp_all add: demo_mb_def)
  show "ipc_flag i demo_mb = RT_IPC_FLAG_FIFO" by (simp add: demo_mb_def ipc_flag_def zero_object_def)
  show "mb_inv (mailboxes demo_mb i)" "mb_size (mailboxes demo_mb i) = 2"
    by (simp_all add: demo_mb_def demo_mailbox_def mb_inv_def)
  show "mb_list (mailboxes demo_mb 0) = []" "mb_list (mailboxes demo_mb 1) = [7, 8]"
    by (simp_all add: demo_mb_def demo_mailbox_def mb_list_def circ_def upt_rec)
qed

section \<open>Properties\<close>

text \<open>
  The buffer of a mailbox is first-in-first-out and loses nothing: storing words up to its
  capacity and fetching everything gives the words that were there followed by the new ones, in
  order, wherever the offsets are in the circular pool, and leaves the mailbox empty.
\<close>

theorem mb_round_trip:
  assumes "mb_inv b" "length (mb_list b) + length vs \<le> unat (mb_size b)"
  shows "\<exists>b1 b2. put_all (\<lambda>v b. map_option snd (mb_store v b)) vs b = Some b1 \<and>
    get_all mb_fetch (length (mb_list b) + length vs) b1 = Some (mb_list b @ vs, b2) \<and> mb_inv b2 \<and> mb_list b2 = []"
  using mb.fifo_round_trip [OF assms(1) _ assms(2)] by simp

theorem mb_round_trip_witness:
  "\<exists>b1 b2. put_all (\<lambda>v b. map_option snd (mb_store v b)) [5, 6] demo_mailbox = Some b1 \<and>
    get_all mb_fetch 2 b1 = Some ([5, 6], b2)"
proof -
  have "mb_inv demo_mailbox" "mb_list demo_mailbox = []" "mb_size demo_mailbox = 2"
    by (simp_all add: demo_mailbox_def mb_inv_def mb_list_def)
  moreover from this have "length (mb_list demo_mailbox) + length [5::u32, 6] = 2" "unat (mb_size demo_mailbox) = 2"
      "mb_list demo_mailbox @ [5, 6] = [5, 6]" by simp_all
  ultimately show ?thesis using mb_round_trip [of demo_mailbox "[5, 6]"] by (metis order_refl)
qed

text \<open>
  C15: \<open>rt_mb_send_wait\<close> on every branch: with room the value is appended to the mailbox and the
  first waiting receiver is made ready; a full mailbox refuses at once with \<open>-RT_EFULL\<close> and no change when there
  is no waiting time, and otherwise the caller is suspended in the list of senders at the
  place the flag asks for, with its timer armed. The kernel invariant and the buffer's hold afterwards.
\<close>

theorem rt_mb_send_wait_correct:
  assumes inv: "kinv k" and live: "ipc_live Class_MailBox i k" and c: "thread_calls t k"
    and mb: "mb_inv (mailboxes k i)" and time: "sint timeout < 0x7FFFFFFF"
  shows "if length (mb_list (mailboxes k i)) < unat (mb_size (mailboxes k i)) then
      \<exists>k'. rt_mb_send_wait i v timeout k = Some (Returned RT_EOK, k') \<and> kinv k' \<and> mb_inv (mailboxes k' i) \<and>
        mb_list (mailboxes k' i) = mb_list (mailboxes k i) @ [v] \<and>
        tlists k' (Suspend i) = tl (tlists k (Suspend i)) \<and> tlists k' (Sender i) = tlists k (Sender i) \<and>
        (tlists k (Suspend i) \<noteq> [] \<longrightarrow>
          stat_of (threads k' (hd (tlists k (Suspend i)))) \<in> {RT_THREAD_READY, RT_THREAD_RUNNING})
    else if timeout = 0 then rt_mb_send_wait i v timeout k = Some (Returned (- RT_EFULL), k)
    else \<exists>k'. rt_mb_send_wait i v timeout k = Some (Suspended (t, timeout, rt_tick k), k') \<and> kinv k' \<and>
        mailboxes k' = mailboxes k \<and> stat_of (threads k' t) = RT_THREAD_SUSPEND \<and>
        tlists k' (Sender i) = flag_insert (ipc_flag i k) (prio_of k) t (tlists k (Sender i)) \<and>
        (0 < sint timeout \<longrightarrow> tticks k' (ThreadTimer t) = rt_tick k + timeout)"
proof -
  have ty: "rt_object_get_type (OIpc i) k = Class_MailBox" using live by (simp add: ipc_live_def)
  have self: "rt_thread_self k = Some t" "cur k \<noteq> None" using thread_callsD [OF c] by simp_all
  have full: "length (mb_list (mailboxes k i)) < unat (mb_size (mailboxes k i)) \<longleftrightarrow>
      mb_entry (mailboxes k i) \<noteq> mb_size (mailboxes k i)"
    using mb by (auto simp: mb_list_length mb_inv_def word_le_nat_alt word_unat_eq_iff)
  show ?thesis
    unfolding full
    using mb_send_room [OF inv self(2) mb, of "Some t" v timeout] mb_send_full [OF inv live c _ _ time, of v] ty self(1)
    by (simp add: rt_mb_send_wait_def) blast
qed

theorem rt_mb_send_wait_correct_witness:
  "(\<exists>k'. rt_mb_send_wait 0 9 0 demo_mb = Some (Returned RT_EOK, k') \<and> kinv k' \<and> mb_list (mailboxes k' 0) = [9] \<and>
     tlists k' (Suspend 0) = []) \<and>
   rt_mb_send_wait 1 9 0 demo_mb = Some (Returned (- RT_EFULL), demo_mb) \<and>
   (\<exists>k'. rt_mb_send_wait 1 9 4 demo_mb = Some (Suspended (0, 4, 100), k') \<and> kinv k' \<and> tlists k' (Sender 1) = [0])"
proof -
  note d = demo_mb_facts
  note r = rt_mb_send_wait_correct [OF d(1) d(2) [of 0] d(3) d(5) [of 0], of 0 9]
    rt_mb_send_wait_correct [OF d(1) d(2) [of 1] d(3) d(5) [of 1], of 0 9]
    rt_mb_send_wait_correct [OF d(1) d(2) [of 1] d(3) d(5) [of 1], of 4 9]
  show ?thesis using r d by (auto simp: flag_insert_def fifo_insert_def)
qed

text \<open>
  C16: \<open>rt_mb_recv\<close> on every branch: the oldest word is returned and removed and the first waiting sender is
  made ready; an empty mailbox gives \<open>-RT_ETIMEOUT\<close> at once and no change when there is no waiting
  time, and otherwise the caller is suspended in the list of receivers with its timer armed.
\<close>

theorem rt_mb_recv_correct:
  assumes inv: "kinv k" and live: "ipc_live Class_MailBox i k" and c: "thread_calls t k"
    and mb: "mb_inv (mailboxes k i)" and time: "sint timeout < 0x7FFFFFFF"
  shows "case mb_list (mailboxes k i) of
      v # vs \<Rightarrow>
        \<exists>k'. rt_mb_recv i timeout k = Some (Returned (RT_EOK, Some v), k') \<and> kinv k' \<and> mb_inv (mailboxes k' i) \<and>
          mb_list (mailboxes k' i) = vs \<and>
          tlists k' (Sender i) = tl (tlists k (Sender i)) \<and> tlists k' (Suspend i) = tlists k (Suspend i) \<and>
          (tlists k (Sender i) \<noteq> [] \<longrightarrow>
            stat_of (threads k' (hd (tlists k (Sender i)))) \<in> {RT_THREAD_READY, RT_THREAD_RUNNING})
    | [] \<Rightarrow>
        if timeout = 0 then rt_mb_recv i timeout k = Some (Returned (- RT_ETIMEOUT, None), k)
        else \<exists>k'. rt_mb_recv i timeout k = Some (Suspended (t, timeout, rt_tick k), k') \<and> kinv k' \<and>
          mailboxes k' = mailboxes k \<and> stat_of (threads k' t) = RT_THREAD_SUSPEND \<and>
          tlists k' (Suspend i) = flag_insert (ipc_flag i k) (prio_of k) t (tlists k (Suspend i)) \<and>
          (0 < sint timeout \<longrightarrow> tticks k' (ThreadTimer t) = rt_tick k + timeout)"
proof -
  have ty: "rt_object_get_type (OIpc i) k = Class_MailBox" using live by (simp add: ipc_live_def)
  have self: "rt_thread_self k = Some t" "cur k \<noteq> None" using thread_callsD [OF c] by simp_all
  show ?thesis
  proof (cases "mb_list (mailboxes k i)")
    case Nil
    then have "mb_entry (mailboxes k i) = 0" using mb_list_length(2) by blast
    then show ?thesis
      using Nil mb_recv_empty [OF inv live c Nil _ time] ty self(1) by (simp add: rt_mb_recv_def) blast
  next
    case (Cons v vs)
    then have "mb_entry (mailboxes k i) \<noteq> 0" using mb_list_length(2) [of "mailboxes k i"] by auto
    then show ?thesis
      using Cons mb_recv_some [OF inv self(2) mb Cons, of "Some t" timeout] ty self(1) by (simp add: rt_mb_recv_def) blast
  qed
qed

theorem rt_mb_recv_correct_witness:
  "(\<exists>k'. rt_mb_recv 1 0 demo_mb = Some (Returned (RT_EOK, Some 7), k') \<and> kinv k' \<and> mb_list (mailboxes k' 1) = [8]) \<and>
   rt_mb_recv 0 0 demo_mb = Some (Returned (- RT_ETIMEOUT, None), demo_mb) \<and>
   (\<exists>k'. rt_mb_recv 0 4 demo_mb = Some (Suspended (0, 4, 100), k') \<and> kinv k' \<and> tlists k' (Suspend 0) = [3, 0])"
proof -
  note d = demo_mb_facts
  note r = rt_mb_recv_correct [OF d(1) d(2) [of 1] d(3) d(5) [of 1], of 0]
    rt_mb_recv_correct [OF d(1) d(2) [of 0] d(3) d(5) [of 0], of 0]
    rt_mb_recv_correct [OF d(1) d(2) [of 0] d(3) d(5) [of 0], of 4]
  show ?thesis using r d by (auto simp: flag_insert_def fifo_insert_def)
qed

text \<open>
  A word sent to a waiting receiver arrives: when the mailbox is empty and thread \<open>u\<close> is the first
  receiver in the list, sending makes \<open>u\<close> ready, and when \<open>u\<close> goes on with its pending \<open>rt_mb_recv\<close> in the state
  the send left, that call returns \<open>RT_EOK\<close> with exactly the word sent, whatever is left of its
  waiting time, and the mailbox is empty again.
\<close>

theorem rt_mb_delivers:
  assumes inv: "kinv k" and live: "ipc_live Class_MailBox i k" and c: "cur k \<noteq> None"
    and mb: "mb_inv (mailboxes k i)" and empty: "mb_list (mailboxes k i) = []"
    and u: "tlists k (Suspend i) = u # us" "t_error (threads k u) = RT_EOK"
  shows "\<exists>k1 k2. rt_mb_send i v k = Some (Returned RT_EOK, k1) \<and> kinv k1 \<and>
    stat_of (threads k1 u) \<in> {RT_THREAD_READY, RT_THREAD_RUNNING} \<and> tlists k1 (Suspend i) = us \<and>
    rt_mb_recv_resumed i (u, timeout, start) k1 = Some (Returned (RT_EOK, Some v), k2) \<and> kinv k2 \<and>
    mb_list (mailboxes k2 i) = []"
proof -
  have e: "mb_entry (mailboxes k i) = 0" using empty mb_list_length(2) by blast
  then have room: "mb_entry (mailboxes k i) \<noteq> mb_size (mailboxes k i)" using mb by (auto simp: mb_inv_def)
  obtain k1 where k1: "mb_send_loop i (rt_thread_self k) v 0 k = Some (Returned RT_EOK, k1)" "kinv k1" "mb_inv (mailboxes k1 i)"
      "mb_list (mailboxes k1 i) = [v]" "cur k1 \<noteq> None" "tlists k1 (Suspend i) = us" "\<forall>u. t_error (threads k1 u) = t_error (threads k u)"
      "stat_of (threads k1 u) \<in> {RT_THREAD_READY, RT_THREAD_RUNNING}"
    using mb_send_room [OF inv c mb room, of "rt_thread_self k" v 0] empty u(1) by auto
  have "rt_mb_send i v k = Some (Returned RT_EOK, k1)"
    using k1(1) room live by (simp add: rt_mb_send_def rt_mb_send_wait_def ipc_live_def)
  moreover have "\<exists>k2. rt_mb_recv_resumed i (u, timeout, start) k1 = Some (Returned (RT_EOK, Some v), k2) \<and> kinv k2 \<and>
      mb_list (mailboxes k2 i) = []"
    using mb_recv_some [OF k1(2,5,3,4), of "Some u" "rest_timeout timeout start k1"] k1(7) u(2)
    by (auto simp: rt_mb_recv_resumed_def)
  ultimately show ?thesis using k1(2,6,8) by blast
qed

theorem rt_mb_delivers_witness:
  "\<exists>k1 k2. rt_mb_send 0 9 demo_mb = Some (Returned RT_EOK, k1) \<and> kinv k1 \<and>
    rt_mb_recv_resumed 0 (3, 5, 98) k1 = Some (Returned (RT_EOK, Some 9), k2) \<and> mb_list (mailboxes k2 0) = []"
proof -
  note d = demo_mb_facts
  have "cur demo_mb \<noteq> None" using d(4) by simp
  then show ?thesis
    using rt_mb_delivers [OF d(1) d(2) [of 0] _ d(5) [of 0] d(6,8,9), of 9 5 98] by blast
qed

text \<open>
  \<open>rt_mb_control\<close> with the reset command empties the mailbox, keeps its capacity, and makes all waiting
  receivers and senders ready with the error \<open>-RT_ERROR\<close>, which their pending calls return. Any other
  command is refused.
\<close>

theorem rt_mb_control_correct:
  assumes inv: "kinv k" and live: "ipc_live Class_MailBox i k" and c: "cur k \<noteq> None" and mb: "mb_inv (mailboxes k i)"
  shows "if cmd = 1 then
      \<exists>k'. rt_mb_control i cmd k = Some (RT_EOK, k') \<and> kinv k' \<and> mb_inv (mailboxes k' i) \<and> mb_list (mailboxes k' i) = [] \<and>
        mb_size (mailboxes k' i) = mb_size (mailboxes k i) \<and> tlists k' (Suspend i) = [] \<and> tlists k' (Sender i) = [] \<and>
        (\<forall>u\<in>set (tlists k (Suspend i)) \<union> set (tlists k (Sender i)).
          stat_of (threads k' u) \<in> {RT_THREAD_READY, RT_THREAD_RUNNING} \<and>
          rt_mb_recv_resumed i (u, timeout, start) k' = Some (Returned (- RT_ERROR, None), k') \<and>
          rt_mb_send_wait_resumed i v (u, timeout, start) k' = Some (Returned (- RT_ERROR), k'))
    else rt_mb_control i cmd k = Some (- RT_ERROR, k)"
proof (cases "cmd = 1")
  case True
  let ?U = "set (tlists k (Suspend i)) \<union> set (tlists k (Sender i))"
  obtain k1 k2 where k2: "rt_ipc_list_resume_all (Suspend i) k = Some k1" "rt_ipc_list_resume_all (Sender i) k1 = Some k2"
      "kinv k2" "cur k2 = cur k" "data_frame k k2" "tlists k2 (Suspend i) = []" "tlists k2 (Sender i) = []"
      "\<forall>u\<in>?U. stat_of (threads k2 u) \<in> {RT_THREAD_READY, RT_THREAD_RUNNING} \<and> t_error (threads k2 u) = - RT_ERROR"
    using resume_both_ok [OF inv, of i] by blast
  let ?k = "upd_mb i mb_clear k2"
  obtain k3 where k3: "rt_schedule ?k = Some k3" "kinv k3" "data_frame ?k k3" "waits k3 = waits ?k"
      "\<forall>u\<in>?U. stat_of (threads k3 u) \<in> {RT_THREAD_READY, RT_THREAD_RUNNING} \<and> t_error (threads k3 u) = - RT_ERROR"
    using reset_schedule_ok [of ?k ?U] k2(3,4,8) c by auto
  have "rt_mb_control i cmd k = Some (RT_EOK, k3)"
    using True live k2(1,2) k3(1) by (simp add: rt_mb_control_def ipc_live_def)
  moreover have "mailboxes k3 i = mb_clear (mailboxes k i)"
    using data_frameD(8) [OF k3(3)] data_frameD(8) [OF k2(5)] by simp
  moreover have "mb_inv (mb_clear (mailboxes k i))" "mb_list (mb_clear (mailboxes k i)) = []"
    using mb by (simp_all add: mb_inv_def mb_clear_def mb_list_def)
  moreover have "tlists k3 (Suspend i) = []" "tlists k3 (Sender i) = []"
    using waits_tlists [OF k3(4), of "Suspend i"] waits_tlists [OF k3(4), of "Sender i"] k2(6,7) by simp_all
  ultimately show ?thesis
    using True k3(2,5) by (auto simp: rt_mb_recv_resumed_def rt_mb_send_wait_resumed_def mb_clear_def)
qed (use live in \<open>simp add: rt_mb_control_def ipc_live_def\<close>)

theorem rt_mb_control_correct_witness:
  "(\<exists>k'. rt_mb_control 0 1 demo_mb = Some (RT_EOK, k') \<and> kinv k' \<and> mb_list (mailboxes k' 0) = [] \<and>
     rt_mb_recv_resumed 0 (3, 0, 0) k' = Some (Returned (- RT_ERROR, None), k')) \<and>
   rt_mb_control 0 2 demo_mb = Some (- RT_ERROR, demo_mb)"
proof -
  note d = demo_mb_facts
  have c: "cur demo_mb \<noteq> None" using d(4) by simp
  note r = rt_mb_control_correct [OF d(1) d(2) [of 0] c d(5) [of 0]]
  show ?thesis using r [of 1 0 0 0] r [of 2 0 0 0] d(8) by auto
qed

end
