(* ===== verification/RT_Mq.thy ===== *)
theory RT_Mq
  imports RT_Waiting RT_Fifo
begin

unbundle bit_operations_syntax

text \<open>
  Message queues, \<open>src/ipc.c\<close>: a pool of slots, each with a \<open>next\<close> pointer, that are chained into a queue
  of messages (head and tail) and a list of free slots. A slot is named by its index in the pool.
  A buffer handed to the kernel is the list of its bytes, so \<open>size\<close> is its length. Blocking calls
  are split as for mailboxes.
\<close>

section \<open>Operations\<close>

definition upd_mq :: "nat \<Rightarrow> (rt_messagequeue \<Rightarrow> rt_messagequeue) \<Rightarrow> kernel \<Rightarrow> kernel" where
  "upd_mq i f k = k\<lparr>mqs := (mqs k)(i := f (mqs k i))\<rparr>"

text \<open>One turn of the loop that builds the list of free slots.\<close>

definition mq_add_free :: "nat \<Rightarrow> rt_messagequeue \<Rightarrow> rt_messagequeue" where
  "mq_add_free m q = q\<lparr>mq_next := (mq_next q)(m := msg_queue_free q), msg_queue_free := Some m\<rparr>"

definition mq_pool_init :: "rt_messagequeue \<Rightarrow> rt_messagequeue" where
  "mq_pool_init q =
    (let q = q\<lparr>msg_queue_head := None, msg_queue_tail := None, msg_queue_free := None\<rparr>;
         q = fold mq_add_free [0..<unat (max_msgs q)] q
     in q\<lparr>mq_entry := 0\<rparr>)"

text \<open>\<open>data\<close> is what the slots of the pool hold initially.\<close>

definition rt_mq_init ::
  "nat \<Rightarrow> string \<Rightarrow> (nat \<Rightarrow> u8 list) \<Rightarrow> u32 \<Rightarrow> u32 \<Rightarrow> u8 \<Rightarrow> kernel \<Rightarrow> (rt_err_t \<times> kernel) option" where
  "rt_mq_init i nam data msize pool_size flag k =
    do {
      k \<leftarrow> rt_object_init (OIpc i) Class_MessageQueue nam k;
      let k = set_ipc_flag i flag k;
      let k = rt_ipc_object_init i k;
      let k = upd_mq i (\<lambda>q.
        let q = q\<lparr>mq_data := data, msg_size := ucast (RT_ALIGN msize 4)\<rparr>;
            q = q\<lparr>max_msgs := ucast (pool_size div (ucast (msg_size q) + 4))\<rparr>
        in mq_pool_init q) k;
      Some (RT_EOK, sender_list_init i k)
    }"

definition rt_mq_detach :: "nat \<Rightarrow> kernel \<Rightarrow> (rt_err_t \<times> kernel) option" where
  "rt_mq_detach i k =
    do {
      RT_ASSERT (rt_object_get_type (OIpc i) k = Class_MessageQueue);
      RT_ASSERT (rt_object_is_systemobject (OIpc i) k);
      k \<leftarrow> rt_ipc_list_resume_all (Suspend i) k;
      k \<leftarrow> rt_ipc_list_resume_all (Sender i) k;
      Some (RT_EOK, rt_object_detach (OIpc i) k)
    }"

definition rt_mq_create ::
  "nat option \<Rightarrow> (nat \<Rightarrow> u8 list) option \<Rightarrow> string \<Rightarrow> u32 \<Rightarrow> u32 \<Rightarrow> u8 \<Rightarrow> kernel \<Rightarrow> (nat option \<times> kernel) option" where
  "rt_mq_create mem pool nam msize msgs flag k =
    do {
      RT_ASSERT (not_in_interrupt k);
      (_, k) \<leftarrow> rt_object_allocate (map_option OIpc mem) Class_MessageQueue nam k;
      case mem of
        None \<Rightarrow> Some (None, k)
      | Some i \<Rightarrow>
          do {
            let k = set_ipc_flag i flag k;
            let k = rt_ipc_object_init i k;
            let k = upd_mq i (\<lambda>q. q\<lparr>msg_size := ucast (RT_ALIGN msize 4), max_msgs := ucast msgs\<rparr>) k;
            case pool of
              None \<Rightarrow> do { k \<leftarrow> rt_object_delete (OIpc i) k; Some (None, k) }
            | Some data \<Rightarrow> Some (Some i, sender_list_init i (upd_mq i (\<lambda>q. mq_pool_init (q\<lparr>mq_data := data\<rparr>)) k))
          }
    }"

definition rt_mq_delete :: "nat \<Rightarrow> kernel \<Rightarrow> (rt_err_t \<times> kernel) option" where
  "rt_mq_delete i k =
    do {
      RT_ASSERT (not_in_interrupt k);
      RT_ASSERT (rt_object_get_type (OIpc i) k = Class_MessageQueue);
      RT_ASSERT (\<not> rt_object_is_systemobject (OIpc i) k);
      k \<leftarrow> rt_ipc_list_resume_all (Suspend i) k;
      k \<leftarrow> rt_ipc_list_resume_all (Sender i) k;
      k \<leftarrow> rt_object_delete (OIpc i) k;
      Some (RT_EOK, k)
    }"

text \<open>\<open>rt_memcpy(msg + 1, buffer, size)\<close>: the rest of the slot keeps its bytes.\<close>

definition slot_copy :: "u8 list \<Rightarrow> u8 list \<Rightarrow> u8 list" where
  "slot_copy buf old = buf @ drop (length buf) old"

text \<open>Counting a message; false when the count is at its maximum.\<close>

definition mq_count :: "rt_messagequeue \<Rightarrow> bool \<times> rt_messagequeue" where
  "mq_count q = (if mq_entry q < 0xFFFF then (True, q\<lparr>mq_entry := mq_entry q + 1\<rparr>) else (False, q))"

text \<open>The body of \<open>rt_mq_send_wait\<close> once a free slot is there: take it, fill it, link it behind the tail.\<close>

definition mq_append :: "u8 list \<Rightarrow> rt_messagequeue \<Rightarrow> (bool \<times> rt_messagequeue) option" where
  "mq_append buf q =
    do {
      msg \<leftarrow> msg_queue_free q;
      let q = q\<lparr>msg_queue_free := mq_next q msg\<rparr>;
      let q = q\<lparr>mq_next := (mq_next q)(msg := None)\<rparr>;
      let q = q\<lparr>mq_data := (mq_data q)(msg := slot_copy buf (mq_data q msg))\<rparr>;
      let q = (case msg_queue_tail q of None \<Rightarrow> q | Some t \<Rightarrow> q\<lparr>mq_next := (mq_next q)(t := Some msg)\<rparr>);
      let q = q\<lparr>msg_queue_tail := Some msg\<rparr>;
      let q = (if msg_queue_head q = None then q\<lparr>msg_queue_head := Some msg\<rparr> else q);
      Some (mq_count q)
    }"

text \<open>The body of \<open>rt_mq_urgent\<close>: link the slot before the head.\<close>

definition mq_prepend :: "u8 list \<Rightarrow> rt_messagequeue \<Rightarrow> (bool \<times> rt_messagequeue) option" where
  "mq_prepend buf q =
    do {
      msg \<leftarrow> msg_queue_free q;
      let q = q\<lparr>msg_queue_free := mq_next q msg\<rparr>;
      let q = q\<lparr>mq_data := (mq_data q)(msg := slot_copy buf (mq_data q msg))\<rparr>;
      let q = q\<lparr>mq_next := (mq_next q)(msg := msg_queue_head q)\<rparr>;
      let q = q\<lparr>msg_queue_head := Some msg\<rparr>;
      let q = (if msg_queue_tail q = None then q\<lparr>msg_queue_tail := Some msg\<rparr> else q);
      Some (mq_count q)
    }"

text \<open>Unlinking the first message, and giving a slot back.\<close>

definition mq_unlink :: "nat \<Rightarrow> rt_messagequeue \<Rightarrow> rt_messagequeue" where
  "mq_unlink msg q =
    (let q = q\<lparr>msg_queue_head := mq_next q msg\<rparr>
     in if msg_queue_tail q = Some msg then q\<lparr>msg_queue_tail := None\<rparr> else q)"

text \<open>The body of \<open>rt_mq_recv\<close> once a message is there. \<open>None\<close>: there is no message after all.\<close>

definition mq_fetch :: "nat \<Rightarrow> rt_messagequeue \<Rightarrow> (u8 list \<times> rt_messagequeue) option" where
  "mq_fetch bsize q =
    do {
      msg \<leftarrow> msg_queue_head q;
      let q = mq_unlink msg q;
      let q = (if 0 < mq_entry q then q\<lparr>mq_entry := mq_entry q - 1\<rparr> else q);
      let buf = take (if bsize > unat (msg_size q) then unat (msg_size q) else bsize) (mq_data q msg);
      Some (buf, mq_add_free msg q)
    }"

partial_function (option) mq_release_all :: "rt_messagequeue \<Rightarrow> rt_messagequeue option" where
  "mq_release_all q =
    (case msg_queue_head q of
       None \<Rightarrow> Some q
     | Some msg \<Rightarrow> mq_release_all (mq_add_free msg (mq_unlink msg q)))"

definition mq_send_loop ::
  "nat \<Rightarrow> tid option \<Rightarrow> u8 list \<Rightarrow> u32 \<Rightarrow> kernel \<Rightarrow> ((rt_err_t, tid \<times> u32 \<times> u32) call \<times> kernel) option" where
  "mq_send_loop i thread buf timeout k =
    (if msg_queue_free (mqs k i) = None then
       do {
         t \<leftarrow> thread;
         let k = set_error t RT_EOK k;
         if timeout = 0 then Some (Returned (- RT_EFULL), k)
         else do {
           RT_ASSERT (in_thread_context k);
           k' \<leftarrow> block_on (Sender i) t (ipc_flag i k) timeout k;
           Some (Suspended (t, timeout, rt_tick k), k')
         }
       }
     else do {
       (counted, q) \<leftarrow> mq_append buf (mqs k i);
       let k = upd_mq i (\<lambda>_. q) k;
       if counted then do { k \<leftarrow> wake_first (Suspend i) k; Some (Returned RT_EOK, k) }
       else Some (Returned (- RT_EFULL), k)
     })"

definition rt_mq_send_wait ::
  "nat \<Rightarrow> u8 list \<Rightarrow> u32 \<Rightarrow> kernel \<Rightarrow> ((rt_err_t, tid \<times> u32 \<times> u32) call \<times> kernel) option" where
  "rt_mq_send_wait i buf timeout k =
    do {
      RT_ASSERT (rt_object_get_type (OIpc i) k = Class_MessageQueue);
      RT_ASSERT (length buf \<noteq> 0);
      if length buf > unat (msg_size (mqs k i)) then Some (Returned (- RT_ERROR), k)
      else if msg_queue_free (mqs k i) = None \<and> timeout = 0 then Some (Returned (- RT_EFULL), k)
      else mq_send_loop i (rt_thread_self k) buf timeout k
    }"

definition rt_mq_send_wait_resumed ::
  "nat \<Rightarrow> u8 list \<Rightarrow> tid \<times> u32 \<times> u32 \<Rightarrow> kernel \<Rightarrow> ((rt_err_t, tid \<times> u32 \<times> u32) call \<times> kernel) option" where
  "rt_mq_send_wait_resumed i buf p k =
    (case p of (t, timeout, start) \<Rightarrow>
       if t_error (threads k t) \<noteq> RT_EOK then Some (Returned (t_error (threads k t)), k)
       else mq_send_loop i (Some t) buf (rest_timeout timeout start k) k)"

definition rt_mq_send :: "nat \<Rightarrow> u8 list \<Rightarrow> kernel \<Rightarrow> ((rt_err_t, tid \<times> u32 \<times> u32) call \<times> kernel) option" where
  "rt_mq_send i buf k = rt_mq_send_wait i buf 0 k"

definition rt_mq_urgent :: "nat \<Rightarrow> u8 list \<Rightarrow> kernel \<Rightarrow> (rt_err_t \<times> kernel) option" where
  "rt_mq_urgent i buf k =
    do {
      RT_ASSERT (rt_object_get_type (OIpc i) k = Class_MessageQueue);
      RT_ASSERT (length buf \<noteq> 0);
      if length buf > unat (msg_size (mqs k i)) then Some (- RT_ERROR, k)
      else if msg_queue_free (mqs k i) = None then Some (- RT_EFULL, k)
      else do {
        (counted, q) \<leftarrow> mq_prepend buf (mqs k i);
        let k = upd_mq i (\<lambda>_. q) k;
        if counted then do { k \<leftarrow> wake_first (Suspend i) k; Some (RT_EOK, k) } else Some (- RT_EFULL, k)
      }
    }"

text \<open>Receiving into a buffer of \<open>bsize\<close> bytes; the bytes copied are returned with the error code.\<close>

definition mq_recv_loop ::
  "nat \<Rightarrow> tid option \<Rightarrow> nat \<Rightarrow> u32 \<Rightarrow> kernel \<Rightarrow> ((rt_err_t \<times> u8 list option, tid \<times> u32 \<times> u32) call \<times> kernel) option" where
  "mq_recv_loop i thread bsize timeout k =
    (if mq_entry (mqs k i) = 0 then
       do {
         RT_ASSERT (in_thread_context k);
         t \<leftarrow> thread;
         let k = set_error t RT_EOK k;
         if timeout = 0 then Some (Returned (- RT_ETIMEOUT, None), set_error t (- RT_ETIMEOUT) k)
         else do {
           k' \<leftarrow> block_on (Suspend i) t (ipc_flag i k) timeout k;
           Some (Suspended (t, timeout, rt_tick k), k')
         }
       }
     else do {
       (buf, q) \<leftarrow> mq_fetch bsize (mqs k i);
       k \<leftarrow> wake_first (Sender i) (upd_mq i (\<lambda>_. q) k);
       Some (Returned (RT_EOK, Some buf), k)
     })"

definition rt_mq_recv ::
  "nat \<Rightarrow> nat \<Rightarrow> u32 \<Rightarrow> kernel \<Rightarrow> ((rt_err_t \<times> u8 list option, tid \<times> u32 \<times> u32) call \<times> kernel) option" where
  "rt_mq_recv i bsize timeout k =
    do {
      RT_ASSERT (rt_object_get_type (OIpc i) k = Class_MessageQueue);
      RT_ASSERT (bsize \<noteq> 0);
      if mq_entry (mqs k i) = 0 \<and> timeout = 0 then Some (Returned (- RT_ETIMEOUT, None), k)
      else mq_recv_loop i (rt_thread_self k) bsize timeout k
    }"

definition rt_mq_recv_resumed ::
  "nat \<Rightarrow> nat \<Rightarrow> tid \<times> u32 \<times> u32 \<Rightarrow> kernel \<Rightarrow> ((rt_err_t \<times> u8 list option, tid \<times> u32 \<times> u32) call \<times> kernel) option" where
  "rt_mq_recv_resumed i bsize p k =
    (case p of (t, timeout, start) \<Rightarrow>
       if t_error (threads k t) \<noteq> RT_EOK then Some (Returned (t_error (threads k t), None), k)
       else mq_recv_loop i (Some t) bsize (rest_timeout timeout start k) k)"

definition rt_mq_control :: "nat \<Rightarrow> int \<Rightarrow> kernel \<Rightarrow> (rt_err_t \<times> kernel) option" where
  "rt_mq_control i cmd k =
    do {
      RT_ASSERT (rt_object_get_type (OIpc i) k = Class_MessageQueue);
      if cmd = 1 then
        do {
          k \<leftarrow> rt_ipc_list_resume_all (Suspend i) k;
          k \<leftarrow> rt_ipc_list_resume_all (Sender i) k;
          q \<leftarrow> mq_release_all (mqs k i);
          let k = upd_mq i (\<lambda>_. q\<lparr>mq_entry := 0\<rparr>) k;
          k \<leftarrow> rt_schedule k;
          Some (RT_EOK, k)
        }
      else Some (- RT_ERROR, k)
    }"

section \<open>Chains of slots\<close>

fun chain :: "(nat \<Rightarrow> nat option) \<Rightarrow> nat option \<Rightarrow> nat list \<Rightarrow> bool" where
  "chain nx p [] \<longleftrightarrow> p = None"
| "chain nx p (x # xs) \<longleftrightarrow> p = Some x \<and> chain nx (nx x) xs"

lemma chain_upd [simp]: "x \<notin> set xs \<Longrightarrow> chain (nx(x := v)) p xs = chain nx p xs"
  by (induction xs arbitrary: p) auto

lemma chain_unique: "chain nx p xs \<Longrightarrow> chain nx p ys \<Longrightarrow> xs = ys"
proof (induction xs arbitrary: p ys)
  case (Cons x xs)
  then show ?case by (cases ys) auto
qed (auto elim: chain.elims)

lemma chain_snoc:
  "chain nx p xs \<Longrightarrow> distinct xs \<Longrightarrow> xs \<noteq> [] \<Longrightarrow> m \<notin> set xs \<Longrightarrow> chain (nx(m := None, last xs := Some m)) p (xs @ [m])"
proof (induction xs arbitrary: p)
  case (Cons x xs)
  show ?case
  proof (cases "xs = []")
    case False
    then have "x \<noteq> last xs" using Cons.prems(2) by auto
    then show ?thesis using Cons False by simp
  qed (use Cons in auto)
qed simp

text \<open>The queue holds the slots \<open>us\<close> in order and the free list the slots \<open>fs\<close>; together
  they are the pool, each slot once.\<close>

definition mq_rep :: "rt_messagequeue \<Rightarrow> nat list \<Rightarrow> nat list \<Rightarrow> bool" where
  "mq_rep q us fs \<longleftrightarrow> chain (mq_next q) (msg_queue_head q) us \<and> chain (mq_next q) (msg_queue_free q) fs \<and>
    distinct (us @ fs) \<and> set (us @ fs) = {..<unat (max_msgs q)} \<and>
    msg_queue_tail q = (if us = [] then None else Some (last us)) \<and> unat (mq_entry q) = length us \<and>
    (\<forall>m<unat (max_msgs q). length (mq_data q m) = unat (msg_size q))"

lemma mq_repD:
  assumes "mq_rep q us fs"
  shows "chain (mq_next q) (msg_queue_head q) us" "chain (mq_next q) (msg_queue_free q) fs" "distinct us" "distinct fs"
    "set us \<inter> set fs = {}" "set us \<union> set fs = {..<unat (max_msgs q)}"
    "msg_queue_tail q = (if us = [] then None else Some (last us))" "unat (mq_entry q) = length us"
    "m < unat (max_msgs q) \<Longrightarrow> length (mq_data q m) = unat (msg_size q)"
  using assms by (simp_all add: mq_rep_def)

lemma mq_rep_length: "mq_rep q us fs \<Longrightarrow> length us + length fs = unat (max_msgs q)"
  using distinct_card [of "us @ fs"] by (simp add: mq_rep_def)

text \<open>The slots of a chain, by walking it.\<close>

fun walk :: "nat \<Rightarrow> (nat \<Rightarrow> nat option) \<Rightarrow> nat option \<Rightarrow> nat list" where
  "walk 0 nx p = []"
| "walk (Suc n) nx p = (case p of None \<Rightarrow> [] | Some x \<Rightarrow> x # walk n nx (nx x))"

lemma walk_chain: "chain nx p xs \<Longrightarrow> walk (length xs) nx p = xs"
  by (induction xs arbitrary: p) auto

definition mq_slots :: "rt_messagequeue \<Rightarrow> nat list" where
  "mq_slots q = walk (unat (mq_entry q)) (mq_next q) (msg_queue_head q)"

definition mq_free_slots :: "rt_messagequeue \<Rightarrow> nat list" where
  "mq_free_slots q = walk (unat (max_msgs q) - unat (mq_entry q)) (mq_next q) (msg_queue_free q)"

definition mq_inv :: "rt_messagequeue \<Rightarrow> bool" where
  "mq_inv q \<longleftrightarrow> mq_rep q (mq_slots q) (mq_free_slots q)"

definition mq_list :: "rt_messagequeue \<Rightarrow> u8 list list" where
  "mq_list q = map (mq_data q) (mq_slots q)"

lemma mq_rep_slots:
  assumes "mq_rep q us fs"
  shows "mq_slots q = us" "mq_free_slots q = fs" "mq_inv q" "mq_list q = map (mq_data q) us"
proof -
  have "unat (max_msgs q) - unat (mq_entry q) = length fs" using mq_rep_length [OF assms] mq_repD(8) [OF assms] by simp
  then show "mq_slots q = us" "mq_free_slots q = fs"
    using walk_chain mq_repD(1,2,8) [OF assms] by (metis mq_slots_def, metis mq_free_slots_def)
  then show "mq_inv q" "mq_list q = map (mq_data q) us" using assms by (simp_all add: mq_inv_def mq_list_def)
qed

lemma mq_list_facts:
  assumes "mq_inv q"
  shows "length (mq_list q) = unat (mq_entry q)" "length (mq_list q) \<le> unat (max_msgs q)"
    "msg_queue_free q = None \<longleftrightarrow> length (mq_list q) = unat (max_msgs q)" "mq_list q = [] \<longleftrightarrow> mq_entry q = 0"
    "msg_queue_head q = None \<longleftrightarrow> mq_list q = []"
proof -
  note r = assms [unfolded mq_inv_def]
  note l = mq_rep_length [OF r]
  show "length (mq_list q) = unat (mq_entry q)" "length (mq_list q) \<le> unat (max_msgs q)"
    using mq_repD(8) [OF r] l by (simp_all add: mq_list_def)
  show "msg_queue_free q = None \<longleftrightarrow> length (mq_list q) = unat (max_msgs q)"
    using mq_repD(2) [OF r] l by (cases "mq_free_slots q") (simp_all add: mq_list_def)
  show "mq_list q = [] \<longleftrightarrow> mq_entry q = 0" using mq_repD(8) [OF r] by (auto simp: mq_list_def unat_eq_0)
  show "msg_queue_head q = None \<longleftrightarrow> mq_list q = []"
    using mq_repD(1) [OF r] by (cases "mq_slots q") (simp_all add: mq_list_def)
qed

section \<open>Operations on the chains\<close>

lemma mq_room:
  assumes "mq_inv q" "msg_queue_free q \<noteq> None"
  shows "\<exists>us m fs. mq_rep q us (m # fs) \<and> mq_list q = map (mq_data q) us \<and> m \<notin> set us \<union> set fs \<and>
    msg_queue_free q = Some m \<and> m < unat (max_msgs q) \<and> mq_count q = (True, q\<lparr>mq_entry := mq_entry q + 1\<rparr>) \<and>
    unat (mq_entry q + 1) = Suc (length us)"
proof -
  note r = assms(1) [unfolded mq_inv_def]
  obtain m fs where f: "mq_free_slots q = m # fs" using mq_repD(2) [OF r] assms(2) by (cases "mq_free_slots q") auto
  have r': "mq_rep q (mq_slots q) (m # fs)" using r f by simp
  have e: "unat (mq_entry q) < unat (max_msgs q)" using mq_rep_length [OF r'] mq_repD(8) [OF r'] by simp
  then have "mq_entry q < 0xFFFF" "unat (mq_entry q + 1) = Suc (unat (mq_entry q))"
    using unat_less_16 [of "max_msgs q"] by (simp_all add: word_less_nat_alt unat_word_ariths)
  moreover have "m \<notin> set (mq_slots q) \<union> set fs" using mq_repD(4,5) [OF r'] by auto
  moreover have "m < unat (max_msgs q)" using mq_repD(6) [OF r'] by auto
  moreover have "msg_queue_free q = Some m" using mq_repD(2) [OF r'] by simp
  ultimately show ?thesis
    using r' mq_rep_slots(4) [OF r'] mq_repD(8) [OF r']
    by (intro exI [of _ "mq_slots q"] exI [of _ m] exI [of _ fs]) (simp add: mq_count_def)
qed

lemma slot_copy_length: "length buf \<le> length old \<Longrightarrow> length (slot_copy buf old) = length old"
  by (simp add: slot_copy_def)

lemma mq_append_ok:
  assumes inv: "mq_inv q" and f: "msg_queue_free q \<noteq> None" and b: "length buf \<le> unat (msg_size q)"
  shows "\<exists>q' tail. mq_append buf q = Some (True, q') \<and> mq_inv q' \<and> max_msgs q' = max_msgs q \<and> msg_size q' = msg_size q \<and>
    length tail = unat (msg_size q) - length buf \<and> mq_list q' = mq_list q @ [buf @ tail]"
proof -
  obtain us m fs where r: "mq_rep q us (m # fs)" "mq_list q = map (mq_data q) us" "m \<notin> set us \<union> set fs"
      "msg_queue_free q = Some m" "m < unat (max_msgs q)" "mq_count q = (True, q\<lparr>mq_entry := mq_entry q + 1\<rparr>)"
      "unat (mq_entry q + 1) = Suc (length us)"
    using mq_room [OF inv f] by blast
  note d = mq_repD [OF r(1)]
  have lo: "length (mq_data q m) = unat (msg_size q)" by (rule d(9) [OF r(5)])
  define nx where "nx = (if us = [] then (mq_next q)(m := None) else (mq_next q)(m := None, last us := Some m))"
  define q' where "q' = q\<lparr>msg_queue_free := mq_next q m, mq_next := nx, mq_data := (mq_data q)(m := slot_copy buf (mq_data q m)),
    msg_queue_tail := Some m, msg_queue_head := (if us = [] then Some m else msg_queue_head q), mq_entry := mq_entry q + 1\<rparr>"
  have h: "msg_queue_head q = None \<longleftrightarrow> us = []" using d(1) by (cases us) auto
  have e: "mq_entry q < 0xFFFF" using r(6) by (simp add: mq_count_def split: if_splits)
  have "mq_append buf q = Some (True, q')"
    using r(4) h e d(7) by (auto simp: mq_append_def Let_def q'_def nx_def mq_count_def split: option.splits)
  moreover have "mq_rep q' (us @ [m]) fs"
  proof -
    have c1: "chain nx (msg_queue_head q') (us @ [m])"
      using chain_snoc [OF d(1) d(3), of m] r(3) by (auto simp: nx_def q'_def)
    have "last us \<notin> set fs" if "us \<noteq> []" using d(5) last_in_set [OF that] by fastforce
    then have c2: "chain nx (msg_queue_free q') fs" using d(2) r(3) by (auto simp: nx_def q'_def)
    have ln: "\<forall>j<unat (max_msgs q). length (mq_data q' j) = unat (msg_size q)"
      using d(9) lo b by (simp add: q'_def slot_copy_length)
    have "set (us @ [m]) \<union> set fs = {..<unat (max_msgs q)}" using d(6) by auto
    then show ?thesis
      unfolding mq_rep_def using c1 c2 ln d(3,4,5) r(3,7) by (auto simp: q'_def)
  qed
  then have "mq_inv q'" "mq_list q' = map (mq_data q') (us @ [m])" by (rule mq_rep_slots)+
  moreover have "map (mq_data q') (us @ [m]) = mq_list q @ [buf @ drop (length buf) (mq_data q m)]"
    using r(2,3) by (auto simp: q'_def slot_copy_def)
  moreover have "max_msgs q' = max_msgs q" "msg_size q' = msg_size q" by (simp_all add: q'_def)
  ultimately show ?thesis
    using lo by (intro exI [of _ q'] exI [of _ "drop (length buf) (mq_data q m)"]) simp
qed

lemma mq_prepend_ok:
  assumes inv: "mq_inv q" and f: "msg_queue_free q \<noteq> None" and b: "length buf \<le> unat (msg_size q)"
  shows "\<exists>q' tail. mq_prepend buf q = Some (True, q') \<and> mq_inv q' \<and> max_msgs q' = max_msgs q \<and> msg_size q' = msg_size q \<and>
    length tail = unat (msg_size q) - length buf \<and> mq_list q' = (buf @ tail) # mq_list q"
proof -
  obtain us m fs where r: "mq_rep q us (m # fs)" "mq_list q = map (mq_data q) us" "m \<notin> set us \<union> set fs"
      "msg_queue_free q = Some m" "m < unat (max_msgs q)" "mq_count q = (True, q\<lparr>mq_entry := mq_entry q + 1\<rparr>)"
      "unat (mq_entry q + 1) = Suc (length us)"
    using mq_room [OF inv f] by blast
  note d = mq_repD [OF r(1)]
  have lo: "length (mq_data q m) = unat (msg_size q)" by (rule d(9) [OF r(5)])
  define q' where "q' = q\<lparr>msg_queue_free := mq_next q m, mq_next := (mq_next q)(m := msg_queue_head q),
    mq_data := (mq_data q)(m := slot_copy buf (mq_data q m)),
    msg_queue_tail := Some (last (m # us)), msg_queue_head := Some m, mq_entry := mq_entry q + 1\<rparr>"
  have e: "mq_entry q < 0xFFFF" using r(6) by (simp add: mq_count_def split: if_splits)
  have "mq_prepend buf q = Some (True, q')"
    using r(4) e d(7) by (auto simp: mq_prepend_def Let_def q'_def mq_count_def split: if_splits)
  moreover have "mq_rep q' (m # us) fs"
  proof -
    have ln: "\<forall>j<unat (max_msgs q). length (mq_data q' j) = unat (msg_size q)"
      using d(9) lo b by (simp add: q'_def slot_copy_length)
    have "set (m # us) \<union> set fs = {..<unat (max_msgs q)}" using d(6) by auto
    then show ?thesis
      unfolding mq_rep_def using ln d(1-5) r(3,7) by (auto simp: q'_def)
  qed
  then have "mq_inv q'" "mq_list q' = map (mq_data q') (m # us)" by (rule mq_rep_slots)+
  moreover have "map (mq_data q') (m # us) = (buf @ drop (length buf) (mq_data q m)) # mq_list q"
    using r(2,3) by (auto simp: q'_def slot_copy_def)
  moreover have "max_msgs q' = max_msgs q" "msg_size q' = msg_size q" by (simp_all add: q'_def)
  ultimately show ?thesis
    using lo by (intro exI [of _ q'] exI [of _ "drop (length buf) (mq_data q m)"]) simp
qed

text \<open>Moving the first slot of the queue to the free list.\<close>

lemma mq_rep_release:
  assumes r: "mq_rep q (m # us) fs" and e: "unat e = length us"
  shows "mq_rep (mq_add_free m (mq_unlink m q)\<lparr>mq_entry := e\<rparr>) us (m # fs)"
proof -
  note d = mq_repD [OF r]
  have t: "msg_queue_tail (mq_unlink m q) = (if us = [] then None else Some (last us))"
  proof (cases "us = []")
    case False
    then have "last us \<noteq> m" using d(3) last_in_set [OF False] by auto
    then show ?thesis using d(7) False by (simp add: mq_unlink_def Let_def)
  qed (use d(7) in \<open>simp add: mq_unlink_def Let_def\<close>)
  have s: "msg_queue_head (mq_unlink m q) = mq_next q m" "msg_queue_free (mq_unlink m q) = msg_queue_free q"
    "mq_next (mq_unlink m q) = mq_next q" "max_msgs (mq_unlink m q) = max_msgs q" "msg_size (mq_unlink m q) = msg_size q"
    "mq_data (mq_unlink m q) = mq_data q"
    by (simp_all add: mq_unlink_def Let_def)
  have "m \<notin> set us" "m \<notin> set fs" using d(3,5) by auto
  moreover have "set us \<union> set (m # fs) = {..<unat (max_msgs q)}" using d(6) by auto
  ultimately show ?thesis
    unfolding mq_rep_def using d(1-5,9) e t s by (auto simp: mq_add_free_def)
qed

lemma mq_fetch_ok:
  assumes inv: "mq_inv q" and l: "mq_list q = x # xs"
  shows "\<exists>q'. mq_fetch n q = Some (take (min n (unat (msg_size q))) x, q') \<and> mq_inv q' \<and> max_msgs q' = max_msgs q \<and>
    msg_size q' = msg_size q \<and> mq_list q' = xs"
proof -
  note r = inv [unfolded mq_inv_def]
  obtain m us where u: "mq_slots q = m # us" "x = mq_data q m" "xs = map (mq_data q) us"
    using l by (auto simp: mq_list_def)
  have r': "mq_rep q (m # us) (mq_free_slots q)" using r u(1) by simp
  have h: "msg_queue_head q = Some m" using mq_repD(1) [OF r'] by simp
  have e: "unat (mq_entry q) = Suc (length us)" using mq_repD(8) [OF r'] by simp
  then have e': "0 < mq_entry q" "unat (mq_entry q - 1) = length us"
    using unat_sub_if' [of "mq_entry q" 1] by (simp_all add: word_less_nat_alt)
  define q' where "q' = mq_add_free m (mq_unlink m q)\<lparr>mq_entry := mq_entry q - 1\<rparr>"
  have en: "mq_entry (mq_unlink m q) = mq_entry q" "mq_data (mq_unlink m q) = mq_data q"
    "msg_size (mq_unlink m q) = msg_size q" "max_msgs (mq_unlink m q) = max_msgs q" by (simp_all add: mq_unlink_def Let_def)
  have "mq_fetch n q = Some (take (min n (unat (msg_size q))) x, q')"
    using h e'(1) en u(2) by (simp add: mq_fetch_def Let_def q'_def mq_add_free_def min_def)
  moreover have "mq_rep q' us (m # mq_free_slots q)"
    unfolding q'_def by (rule mq_rep_release [OF r' e'(2)])
  then have "mq_inv q'" "mq_list q' = map (mq_data q') us" by (rule mq_rep_slots)+
  moreover have "mq_data q' = mq_data q" "max_msgs q' = max_msgs q" "msg_size q' = msg_size q"
    by (simp_all add: q'_def mq_add_free_def en)
  ultimately show ?thesis using u(3) by auto
qed

lemma fold_add_free:
  fixes q :: rt_messagequeue
  assumes "msg_queue_free q = None"
  defines "q' \<equiv> \<lambda>n. fold mq_add_free [0..<n] q"
  shows "chain (mq_next (q' n)) (msg_queue_free (q' n)) (rev [0..<n]) \<and> max_msgs (q' n) = max_msgs q \<and>
    msg_size (q' n) = msg_size q \<and> mq_data (q' n) = mq_data q \<and> msg_queue_head (q' n) = msg_queue_head q \<and>
    msg_queue_tail (q' n) = msg_queue_tail q"
proof (induction n)
  case 0
  then show ?case using assms by simp
next
  case (Suc n)
  have "q' (Suc n) = mq_add_free n (q' n)" by (simp add: q'_def)
  moreover have "chain ((mq_next (q' n))(n := v)) p (rev [0..<n]) = chain (mq_next (q' n)) p (rev [0..<n])" for v p
    by (rule chain_upd) simp
  ultimately show ?case using Suc by (simp add: mq_add_free_def del: fun_upd_apply add: fun_upd_same)
qed

lemma mq_pool_init_ok:
  assumes "\<forall>m<unat (max_msgs q). length (mq_data q m) = unat (msg_size q)"
  shows "mq_inv (mq_pool_init q)" "mq_list (mq_pool_init q) = []" "max_msgs (mq_pool_init q) = max_msgs q"
    "msg_size (mq_pool_init q) = msg_size q"
proof -
  let ?q = "q\<lparr>msg_queue_head := None, msg_queue_tail := None, msg_queue_free := None\<rparr>"
  note f = fold_add_free [of ?q "unat (max_msgs q)"]
  have e: "mq_pool_init q = fold mq_add_free [0..<unat (max_msgs q)] ?q\<lparr>mq_entry := 0\<rparr>"
    by (simp add: mq_pool_init_def Let_def)
  have "mq_rep (mq_pool_init q) [] (rev [0..<unat (max_msgs q)])"
    unfolding mq_rep_def e using f assms by auto
  then show "mq_inv (mq_pool_init q)" "mq_list (mq_pool_init q) = []" by (auto dest: mq_rep_slots)
  show "max_msgs (mq_pool_init q) = max_msgs q" "msg_size (mq_pool_init q) = msg_size q" using f by (simp_all add: e)
qed

lemma mq_release_all_ok:
  "mq_rep (q\<lparr>mq_entry := e\<rparr>) us fs \<Longrightarrow>
    \<exists>q' fs'. mq_release_all q = Some q' \<and> mq_rep (q'\<lparr>mq_entry := 0\<rparr>) [] fs' \<and> max_msgs q' = max_msgs q \<and> msg_size q' = msg_size q"
proof (induction us arbitrary: q e fs)
  case Nil
  then have "msg_queue_head q = None" "e = 0" using mq_repD(1,8) [OF Nil] by (simp_all add: unat_eq_0)
  then show ?case using Nil by (subst mq_release_all.simps) auto
next
  case (Cons m us)
  let ?q = "mq_add_free m (mq_unlink m q)"
  have h: "msg_queue_head q = Some m" using mq_repD(1) [OF Cons.prems] by simp
  have e: "unat (e - 1) = length us" using mq_repD(8) [OF Cons.prems] unat_sub_if' [of e 1] by simp
  have eq: "mq_add_free m (mq_unlink m (q\<lparr>mq_entry := e\<rparr>))\<lparr>mq_entry := e'\<rparr> = ?q\<lparr>mq_entry := e'\<rparr>" for e'
    by (simp add: mq_add_free_def mq_unlink_def Let_def)
  have "mq_rep (?q\<lparr>mq_entry := e - 1\<rparr>) us (m # fs)" using mq_rep_release [OF Cons.prems e] by (simp add: eq)
  from Cons.IH [OF this] obtain q' fs' where "mq_release_all ?q = Some q'" "mq_rep (q'\<lparr>mq_entry := 0\<rparr>) [] fs'"
      "max_msgs q' = max_msgs ?q" "msg_size q' = msg_size ?q" by blast
  then show ?case
    using h by (subst mq_release_all.simps) (auto simp: mq_add_free_def mq_unlink_def Let_def)
qed

lemma mq_list_sizes:
  assumes "mq_inv q" "x \<in> set (mq_list q)"
  shows "length x = unat (msg_size q)"
proof -
  note r = assms(1) [unfolded mq_inv_def]
  obtain m where "m \<in> set (mq_slots q)" "x = mq_data q m" using assms(2) by (auto simp: mq_list_def)
  moreover from this have "m < unat (max_msgs q)" using mq_repD(6) [OF r] by auto
  ultimately show ?thesis using mq_repD(9) [OF r] by simp
qed

text \<open>A message queue is a bounded first-in-first-out store of full-size messages.\<close>

interpretation mq: bounded_fifo mq_inv "\<lambda>q. unat (max_msgs q)" "\<lambda>q x. length x = unat (msg_size q)" mq_list
  "\<lambda>x q. map_option snd (mq_append x q)" "\<lambda>q. mq_fetch (unat (msg_size q)) q"
proof
  show "length (mq_list q) \<le> unat (max_msgs q)" if "mq_inv q" for q by (rule mq_list_facts(2) [OF that])
  show "\<exists>q'. map_option snd (mq_append x q) = Some q' \<and> mq_inv q' \<and> unat (max_msgs q') = unat (max_msgs q) \<and>
      (\<lambda>x. length x = unat (msg_size q')) = (\<lambda>x. length x = unat (msg_size q)) \<and> mq_list q' = mq_list q @ [x]"
    if "mq_inv q" "length x = unat (msg_size q)" "length (mq_list q) < unat (max_msgs q)" for q x
  proof -
    have "msg_queue_free q \<noteq> None" using mq_list_facts(3) [OF that(1)] that(3) by auto
    then show ?thesis using mq_append_ok [OF that(1), of x] that(2) by auto
  qed
  show "\<exists>q'. mq_fetch (unat (msg_size q)) q = Some (x, q') \<and> mq_inv q' \<and> unat (max_msgs q') = unat (max_msgs q) \<and>
      (\<lambda>x. length x = unat (msg_size q')) = (\<lambda>x. length x = unat (msg_size q)) \<and> mq_list q' = xs"
    if "mq_inv q" "mq_list q = x # xs" for q x xs
  proof -
    have "length x = unat (msg_size q)" using mq_list_sizes [OF that(1), of x] that(2) by simp
    then show ?thesis using mq_fetch_ok [OF that, of "unat (msg_size q)"] by auto
  qed
qed

section \<open>The message queue in the kernel\<close>

lemma upd_mq_sel [simp]:
  "threads (upd_mq i f k) = threads k" "tlists (upd_mq i f k) = tlists k" "cur (upd_mq i f k) = cur k"
  "kinv (upd_mq i f k) = kinv k" "mqs (upd_mq i f k) i = f (mqs k i)" "rt_tick (upd_mq i f k) = rt_tick k"
  by (simp_all add: upd_mq_def)

text \<open>A new buffer is written and the first thread of the other side is woken.\<close>

lemma mq_wake:
  assumes inv: "kinv k" and c: "cur k \<noteq> None" and l: "l = Suspend i \<or> l = Sender i"
  shows "\<exists>k'. wake_first l (upd_mq i (\<lambda>_. q) k) = Some k' \<and> kinv k' \<and> cur k' \<noteq> None \<and> mqs k' i = q \<and>
    tlists k' l = tl (tlists k l) \<and> (\<forall>m. m \<noteq> l \<and> (\<forall>p. m \<noteq> Ready p) \<longrightarrow> tlists k' m = tlists k m) \<and>
    (\<forall>u. t_error (threads k' u) = t_error (threads k u)) \<and>
    (tlists k l \<noteq> [] \<longrightarrow> stat_of (threads k' (hd (tlists k l))) \<in> {RT_THREAD_READY, RT_THREAD_RUNNING})"
proof -
  let ?k = "upd_mq i (\<lambda>_. q) k"
  obtain k' where k': "wake_first l ?k = Some k'" "kinv k'" "cur k' \<noteq> None" "data_frame ?k k'"
      "tlists k' l = tl (tlists ?k l)" "\<forall>m. m \<noteq> l \<and> (\<forall>p. m \<noteq> Ready p) \<longrightarrow> tlists k' m = tlists ?k m"
      "\<forall>u. \<exists>s. threads k' u = (threads ?k u)\<lparr>t_stat := s\<rparr>"
      "tlists ?k l \<noteq> [] \<longrightarrow> stat_of (threads k' (hd (tlists ?k l))) \<in> {RT_THREAD_READY, RT_THREAD_RUNNING}"
    using wake_first_ok [of ?k l i] inv c l by auto
  then show ?thesis
    using data_frameD(9) [OF k'(4)] only_stat_error(1) [OF spec [OF k'(7)]] by (intro exI [of _ k']) simp
qed

lemma mq_send_room:
  assumes inv: "kinv k" and c: "cur k \<noteq> None" and mq: "mq_inv (mqs k i)"
    and b: "length buf \<le> unat (msg_size (mqs k i))" and room: "msg_queue_free (mqs k i) \<noteq> None"
  shows "\<exists>k' tail. mq_send_loop i thread buf timeout k = Some (Returned RT_EOK, k') \<and> kinv k' \<and> cur k' \<noteq> None \<and>
    mq_inv (mqs k' i) \<and> length tail = unat (msg_size (mqs k i)) - length buf \<and>
    msg_size (mqs k' i) = msg_size (mqs k i) \<and> mq_list (mqs k' i) = mq_list (mqs k i) @ [buf @ tail] \<and>
    tlists k' (Suspend i) = tl (tlists k (Suspend i)) \<and> tlists k' (Sender i) = tlists k (Sender i) \<and>
    (\<forall>u. t_error (threads k' u) = t_error (threads k u)) \<and>
    (tlists k (Suspend i) \<noteq> [] \<longrightarrow>
      stat_of (threads k' (hd (tlists k (Suspend i)))) \<in> {RT_THREAD_READY, RT_THREAD_RUNNING})"
proof -
  obtain q tail where q: "mq_append buf (mqs k i) = Some (True, q)" "mq_inv q" "msg_size q = msg_size (mqs k i)"
      "length tail = unat (msg_size (mqs k i)) - length buf" "mq_list q = mq_list (mqs k i) @ [buf @ tail]"
    using mq_append_ok [OF mq room b] by blast
  obtain k' where k': "wake_first (Suspend i) (upd_mq i (\<lambda>_. q) k) = Some k'" "kinv k'" "cur k' \<noteq> None" "mqs k' i = q"
      "tlists k' (Suspend i) = tl (tlists k (Suspend i))"
      "\<forall>m. m \<noteq> Suspend i \<and> (\<forall>p. m \<noteq> Ready p) \<longrightarrow> tlists k' m = tlists k m"
      "\<forall>u. t_error (threads k' u) = t_error (threads k u)"
      "tlists k (Suspend i) \<noteq> [] \<longrightarrow> stat_of (threads k' (hd (tlists k (Suspend i)))) \<in> {RT_THREAD_READY, RT_THREAD_RUNNING}"
    using mq_wake [OF inv c, of "Suspend i" i q] by blast
  have "mq_send_loop i thread buf timeout k = Some (Returned RT_EOK, k')"
    using q(1) room k'(1) by (auto simp: mq_send_loop_def)
  then show ?thesis using q k' by (intro exI [of _ k'] exI [of _ tail]) simp
qed

lemma mq_recv_some:
  assumes inv: "kinv k" and c: "cur k \<noteq> None" and mq: "mq_inv (mqs k i)" and l: "mq_list (mqs k i) = x # xs"
  shows "\<exists>k'. mq_recv_loop i thread n timeout k =
      Some (Returned (RT_EOK, Some (take (min n (unat (msg_size (mqs k i)))) x)), k') \<and> kinv k' \<and> cur k' \<noteq> None \<and>
    mq_inv (mqs k' i) \<and> mq_list (mqs k' i) = xs \<and>
    tlists k' (Sender i) = tl (tlists k (Sender i)) \<and> tlists k' (Suspend i) = tlists k (Suspend i) \<and>
    (tlists k (Sender i) \<noteq> [] \<longrightarrow>
      stat_of (threads k' (hd (tlists k (Sender i)))) \<in> {RT_THREAD_READY, RT_THREAD_RUNNING})"
proof -
  have ne: "mq_entry (mqs k i) \<noteq> 0" using mq_list_facts(4) [OF mq] l by auto
  obtain q where q: "mq_fetch n (mqs k i) = Some (take (min n (unat (msg_size (mqs k i)))) x, q)" "mq_inv q" "mq_list q = xs"
    using mq_fetch_ok [OF mq l] by blast
  obtain k' where k': "wake_first (Sender i) (upd_mq i (\<lambda>_. q) k) = Some k'" "kinv k'" "cur k' \<noteq> None" "mqs k' i = q"
      "tlists k' (Sender i) = tl (tlists k (Sender i))"
      "\<forall>m. m \<noteq> Sender i \<and> (\<forall>p. m \<noteq> Ready p) \<longrightarrow> tlists k' m = tlists k m"
      "tlists k (Sender i) \<noteq> [] \<longrightarrow> stat_of (threads k' (hd (tlists k (Sender i)))) \<in> {RT_THREAD_READY, RT_THREAD_RUNNING}"
    using mq_wake [OF inv c, of "Sender i" i q] by blast
  then show ?thesis using q ne by (intro exI [of _ k']) (simp add: mq_recv_loop_def)
qed

text \<open>The caller is suspended; the queue stays as it is.\<close>

lemma mq_block:
  assumes inv: "kinv k" and live: "ipc_live Class_MessageQueue i k" and c: "thread_calls t k"
    and l: "l = Suspend i \<or> l = Sender i" and time: "sint timeout < 0x7FFFFFFF"
  shows "\<exists>k'. block_on l t (ipc_flag i (set_error t RT_EOK k)) timeout (set_error t RT_EOK k) = Some k' \<and> kinv k' \<and>
    mqs k' = mqs k \<and> stat_of (threads k' t) = RT_THREAD_SUSPEND \<and>
    tlists k' l = flag_insert (ipc_flag i k) (prio_of k) t (tlists k l) \<and>
    (0 < sint timeout \<longrightarrow> tticks k' (ThreadTimer t) = rt_tick k + timeout)"
    "in_thread_context k" "in_thread_context (set_error t RT_EOK k)"
proof -
  obtain k' where "block_on l t (ipc_flag i (set_error t RT_EOK k)) timeout (set_error t RT_EOK k) = Some k'"
      "kinv k'" "data_frame k k'" "stat_of (threads k' t) = RT_THREAD_SUSPEND"
      "tlists k' l = flag_insert (ipc_flag i k) (prio_of k) t (tlists k l)"
      "0 < sint timeout \<longrightarrow> ThreadTimer t \<in> set (tmlists k' HardList) \<and> tticks k' (ThreadTimer t) = rt_tick k + timeout"
    using block_caller_ok [OF inv c live l time] by blast
  then show "\<exists>k'. block_on l t (ipc_flag i (set_error t RT_EOK k)) timeout (set_error t RT_EOK k) = Some k' \<and> kinv k' \<and>
    mqs k' = mqs k \<and> stat_of (threads k' t) = RT_THREAD_SUSPEND \<and>
    tlists k' l = flag_insert (ipc_flag i k) (prio_of k) t (tlists k l) \<and>
    (0 < sint timeout \<longrightarrow> tticks k' (ThreadTimer t) = rt_tick k + timeout)"
    using data_frameD(9) by (intro exI [of _ k']) simp
  show "in_thread_context k" "in_thread_context (set_error t RT_EOK k)"
    using thread_callsD(3) [OF c] by (simp_all add: in_thread_context_def rt_thread_self_def)
qed

text \<open>Two queues of two slots of four bytes; thread 3 waits to receive from queue 0, queue 1 holds one message.\<close>

definition demo_queue :: rt_messagequeue where
  "demo_queue = mq_pool_init (zero_mq\<lparr>msg_size := 4, max_msgs := 2, mq_data := (\<lambda>_. [0, 0, 0, 0])\<rparr>)"

definition demo_mq :: kernel where
  "demo_mq = (demo_ipc Class_MessageQueue)\<lparr>mqs := (\<lambda>_. demo_queue)(1 := snd (the (mq_append [1, 2, 3] demo_queue)))\<rparr>"

lemma demo_queue_facts: "mq_inv demo_queue" "mq_list demo_queue = []" "max_msgs demo_queue = 2" "msg_size demo_queue = 4"
  using mq_pool_init_ok [of "zero_mq\<lparr>msg_size := 4, max_msgs := 2, mq_data := (\<lambda>_. [0, 0, 0, 0])\<rparr>"]
  by (simp_all add: demo_queue_def)

lemma demo_mq_facts:
  "kinv demo_mq" "ipc_live Class_MessageQueue i demo_mq" "thread_calls 0 demo_mq" "cur demo_mq = Some 0"
  "mqs demo_mq 0 = demo_queue" "mq_inv (mqs demo_mq i)" "mq_list (mqs demo_mq 1) = [[1, 2, 3, 0]]"
  "tlists demo_mq (Suspend 0) = [3]" "t_error (threads demo_mq 3) = RT_EOK" "rt_tick demo_mq = 100"
  "ipc_flag i demo_mq = RT_IPC_FLAG_FIFO" "msg_size (mqs demo_mq i) = 4" "tlists demo_mq (Sender i) = []" "max_msgs (mqs demo_mq i) = 2"
proof -
  show "kinv demo_mq" using demo_ipc_kinv by (simp add: demo_mq_def)
  have "ipc_live Class_MessageQueue i (demo_ipc Class_MessageQueue)"
    by (rule demo_ipc_live) (simp add: rt_object_get_information_def)
  then show "ipc_live Class_MessageQueue i demo_mq"
    by (simp add: demo_mq_def ipc_live_def rt_object_get_type_def ipc_flag_def)
  show "thread_calls 0 demo_mq" by (simp add: demo_mq_def thread_calls_def)
  show "cur demo_mq = Some 0" "tlists demo_mq (Suspend 0) = [3]" "t_error (threads demo_mq 3) = RT_EOK" "rt_tick demo_mq = 100"
    "mqs demo_mq 0 = demo_queue" "tlists demo_mq (Sender i) = []"
    by (simp_all add: demo_mq_def)
  show "ipc_flag i demo_mq = RT_IPC_FLAG_FIFO" by (simp add: demo_mq_def ipc_flag_def zero_object_def)
  have "msg_queue_free demo_queue \<noteq> None" using mq_list_facts(3) [OF demo_queue_facts(1)] by (simp add: demo_queue_facts)
  then obtain q' where q: "mq_append [1, 2, 3] demo_queue = Some (True, q')" "mq_inv q'" "msg_size q' = 4" "max_msgs q' = 2"
    using mq_append_ok [OF demo_queue_facts(1), of "[1, 2, 3]"] by (auto simp: demo_queue_facts)
  have "mqs demo_mq i = (if i = 1 then q' else demo_queue)" by (simp add: demo_mq_def q(1))
  then show "mq_inv (mqs demo_mq i)" "msg_size (mqs demo_mq i) = 4" "max_msgs (mqs demo_mq i) = 2"
    using demo_queue_facts q by simp_all
  show "mq_list (mqs demo_mq 1) = [[1, 2, 3, 0]]"
    by (simp add: demo_mq_def demo_queue_def mq_pool_init_def mq_add_free_def zero_mq_def mq_append_def mq_count_def
        slot_copy_def mq_list_def mq_slots_def Let_def upt_rec)
qed

section \<open>Properties\<close>

text \<open>
  The chained slots of a message queue are a first-in-first-out store: appending full-size
  messages as long as there are free slots and fetching all messages gives the old ones followed by the new
  ones, in order and byte for byte, and leaves an empty queue with all slots free again.
\<close>

theorem mq_round_trip:
  assumes "mq_inv q" "\<forall>x\<in>set xs. length x = unat (msg_size q)" "length (mq_list q) + length xs \<le> unat (max_msgs q)"
  shows "\<exists>q1 q2. put_all (\<lambda>x q. map_option snd (mq_append x q)) xs q = Some q1 \<and>
    get_all (\<lambda>q. mq_fetch (unat (msg_size q)) q) (length (mq_list q) + length xs) q1 = Some (mq_list q @ xs, q2) \<and>
    mq_inv q2 \<and> mq_list q2 = []"
  by (rule mq.fifo_round_trip [OF assms])

theorem mq_round_trip_witness:
  "\<exists>q1 q2. put_all (\<lambda>x q. map_option snd (mq_append x q)) [[1, 2, 3, 4], [5, 6, 7, 8]] demo_queue = Some q1 \<and>
    get_all (\<lambda>q. mq_fetch (unat (msg_size q)) q) 2 q1 = Some ([[1, 2, 3, 4], [5, 6, 7, 8]], q2) \<and> mq_inv q2"
proof -
  let ?xs = "[[1, 2, 3, 4], [5, 6, 7, 8]] :: u8 list list"
  have e: "length (mq_list demo_queue) + length ?xs = 2" "mq_list demo_queue @ ?xs = ?xs"
    by (simp_all add: demo_queue_facts)
  have h: "\<forall>x\<in>set ?xs. length x = unat (msg_size demo_queue)"
    "length (mq_list demo_queue) + length ?xs \<le> unat (max_msgs demo_queue)"
    by (simp_all add: demo_queue_facts)
  show ?thesis using mq_round_trip [OF demo_queue_facts(1) h] unfolding e by blast
qed

text \<open>
  C17: \<open>rt_mq_send_wait\<close> on every branch: a message longer than a slot is refused with \<open>-RT_ERROR\<close>; with a
  free slot the message becomes the last of the queue and the first waiting receiver is made
  ready; a full queue refuses at once with \<open>-RT_EFULL\<close> and no change when there is no waiting time, and otherwise
  the caller is suspended in the list of senders. The invariants of the kernel and the queue hold afterwards.
\<close>

theorem rt_mq_send_wait_correct:
  assumes inv: "kinv k" and live: "ipc_live Class_MessageQueue i k" and c: "thread_calls t k"
    and mq: "mq_inv (mqs k i)" and buf: "buf \<noteq> []" and time: "sint timeout < 0x7FFFFFFF"
  shows "if length buf > unat (msg_size (mqs k i)) then rt_mq_send_wait i buf timeout k = Some (Returned (- RT_ERROR), k)
    else if length (mq_list (mqs k i)) < unat (max_msgs (mqs k i)) then
      \<exists>k' tail. rt_mq_send_wait i buf timeout k = Some (Returned RT_EOK, k') \<and> kinv k' \<and> mq_inv (mqs k' i) \<and>
        mq_list (mqs k' i) = mq_list (mqs k i) @ [buf @ tail] \<and> length tail = unat (msg_size (mqs k i)) - length buf \<and>
        tlists k' (Suspend i) = tl (tlists k (Suspend i)) \<and> tlists k' (Sender i) = tlists k (Sender i) \<and>
        (tlists k (Suspend i) \<noteq> [] \<longrightarrow>
          stat_of (threads k' (hd (tlists k (Suspend i)))) \<in> {RT_THREAD_READY, RT_THREAD_RUNNING})
    else if timeout = 0 then rt_mq_send_wait i buf timeout k = Some (Returned (- RT_EFULL), k)
    else \<exists>k'. rt_mq_send_wait i buf timeout k = Some (Suspended (t, timeout, rt_tick k), k') \<and> kinv k' \<and>
        mqs k' = mqs k \<and> stat_of (threads k' t) = RT_THREAD_SUSPEND \<and>
        tlists k' (Sender i) = flag_insert (ipc_flag i k) (prio_of k) t (tlists k (Sender i)) \<and>
        (0 < sint timeout \<longrightarrow> tticks k' (ThreadTimer t) = rt_tick k + timeout)"
proof -
  have start: "rt_mq_send_wait i buf timeout k = (if length buf > unat (msg_size (mqs k i)) then Some (Returned (- RT_ERROR), k)
      else if msg_queue_free (mqs k i) = None \<and> timeout = 0 then Some (Returned (- RT_EFULL), k)
      else mq_send_loop i (Some t) buf timeout k)"
    using live buf thread_callsD(4) [OF c] by (simp add: rt_mq_send_wait_def ipc_live_def)
  have c': "cur k \<noteq> None" using thread_callsD(1) [OF c] by simp
  have full: "length (mq_list (mqs k i)) < unat (max_msgs (mqs k i)) \<longleftrightarrow> msg_queue_free (mqs k i) \<noteq> None"
    using mq_list_facts(2,3) [OF mq] by auto
  note room = mq_send_room [OF inv c' mq, of buf "Some t" timeout]
  have blocked: "\<exists>k'. mq_send_loop i (Some t) buf timeout k = Some (Suspended (t, timeout, rt_tick k), k') \<and> kinv k' \<and>
        mqs k' = mqs k \<and> stat_of (threads k' t) = RT_THREAD_SUSPEND \<and>
        tlists k' (Sender i) = flag_insert (ipc_flag i k) (prio_of k) t (tlists k (Sender i)) \<and>
        (0 < sint timeout \<longrightarrow> tticks k' (ThreadTimer t) = rt_tick k + timeout)"
    if "msg_queue_free (mqs k i) = None" "timeout \<noteq> 0"
    using mq_block [OF inv live c _ time, of "Sender i"] that by (auto simp: mq_send_loop_def Let_def)
  consider "length buf > unat (msg_size (mqs k i))"
    | "length buf \<le> unat (msg_size (mqs k i))" "msg_queue_free (mqs k i) \<noteq> None"
    | "length buf \<le> unat (msg_size (mqs k i))" "msg_queue_free (mqs k i) = None" by fastforce
  then show ?thesis
  proof cases
    case 2
    then show ?thesis unfolding full start using room [OF 2] by auto
  next
    case 3
    then show ?thesis unfolding full start using blocked [OF 3(2)] by simp
  qed (simp add: start)
qed

theorem rt_mq_send_wait_correct_witness:
  "rt_mq_send_wait 0 [1, 2, 3, 4, 5] 0 demo_mq = Some (Returned (- RT_ERROR), demo_mq) \<and>
   (\<exists>k'. rt_mq_send_wait 0 [1, 2, 3, 4] 0 demo_mq = Some (Returned RT_EOK, k') \<and> kinv k' \<and>
      mq_list (mqs k' 0) = [[1, 2, 3, 4]] \<and> tlists k' (Suspend 0) = [])"
proof -
  note d = demo_mq_facts
  note r = rt_mq_send_wait_correct [OF d(1) d(2) [of 0] d(3) d(6) [of 0], of "[1, 2, 3, 4, 5]" 0]
    rt_mq_send_wait_correct [OF d(1) d(2) [of 0] d(3) d(6) [of 0], of "[1, 2, 3, 4]" 0]
  show ?thesis using r d(5,8,12,14) demo_queue_facts by auto
qed

text \<open>
  C18: \<open>rt_mq_recv\<close> on every branch: the first message is removed from the queue and as much of it as the
  buffer holds is copied, its slot becomes free and the first waiting sender is made ready; an empty queue
  gives \<open>-RT_ETIMEOUT\<close> at once and no change when there is no waiting time, and otherwise the caller is
  suspended in the list of receivers.
\<close>

theorem rt_mq_recv_correct:
  assumes inv: "kinv k" and live: "ipc_live Class_MessageQueue i k" and c: "thread_calls t k"
    and mq: "mq_inv (mqs k i)" and n: "n \<noteq> 0" and time: "sint timeout < 0x7FFFFFFF"
  shows "case mq_list (mqs k i) of
      x # xs \<Rightarrow>
        \<exists>k'. rt_mq_recv i n timeout k = Some (Returned (RT_EOK, Some (take (min n (unat (msg_size (mqs k i)))) x)), k') \<and>
          kinv k' \<and> mq_inv (mqs k' i) \<and> mq_list (mqs k' i) = xs \<and>
          tlists k' (Sender i) = tl (tlists k (Sender i)) \<and> tlists k' (Suspend i) = tlists k (Suspend i) \<and>
          (tlists k (Sender i) \<noteq> [] \<longrightarrow>
            stat_of (threads k' (hd (tlists k (Sender i)))) \<in> {RT_THREAD_READY, RT_THREAD_RUNNING})
    | [] \<Rightarrow>
        if timeout = 0 then rt_mq_recv i n timeout k = Some (Returned (- RT_ETIMEOUT, None), k)
        else \<exists>k'. rt_mq_recv i n timeout k = Some (Suspended (t, timeout, rt_tick k), k') \<and> kinv k' \<and>
          mqs k' = mqs k \<and> stat_of (threads k' t) = RT_THREAD_SUSPEND \<and>
          tlists k' (Suspend i) = flag_insert (ipc_flag i k) (prio_of k) t (tlists k (Suspend i)) \<and>
          (0 < sint timeout \<longrightarrow> tticks k' (ThreadTimer t) = rt_tick k + timeout)"
proof -
  have start: "rt_mq_recv i n timeout k = (if mq_entry (mqs k i) = 0 \<and> timeout = 0 then Some (Returned (- RT_ETIMEOUT, None), k)
      else mq_recv_loop i (Some t) n timeout k)"
    using live n thread_callsD(4) [OF c] by (simp add: rt_mq_recv_def ipc_live_def)
  have c': "cur k \<noteq> None" using thread_callsD(1) [OF c] by simp
  show ?thesis
  proof (cases "mq_list (mqs k i)")
    case Nil
    then have e: "mq_entry (mqs k i) = 0" using mq_list_facts(4) [OF mq] by simp
    show ?thesis
      unfolding start using Nil e mq_block [OF inv live c _ time, of "Suspend i"]
      by (auto simp: mq_recv_loop_def Let_def)
  next
    case (Cons x xs)
    then have "mq_entry (mqs k i) \<noteq> 0" using mq_list_facts(4) [OF mq] by auto
    then show ?thesis unfolding start using Cons mq_recv_some [OF inv c' mq Cons, of "Some t" n timeout] by simp blast
  qed
qed

theorem rt_mq_recv_correct_witness:
  "(\<exists>k'. rt_mq_recv 1 8 0 demo_mq = Some (Returned (RT_EOK, Some [1, 2, 3, 0]), k') \<and> kinv k' \<and> mq_list (mqs k' 1) = []) \<and>
   rt_mq_recv 0 4 0 demo_mq = Some (Returned (- RT_ETIMEOUT, None), demo_mq) \<and>
   (\<exists>k'. rt_mq_recv 0 4 6 demo_mq = Some (Suspended (0, 6, 100), k') \<and> kinv k' \<and> tlists k' (Suspend 0) = [3, 0])"
proof -
  note d = demo_mq_facts
  note r = rt_mq_recv_correct [OF d(1) d(2) [of 1] d(3) d(6) [of 1], of 8 0]
    rt_mq_recv_correct [OF d(1) d(2) [of 0] d(3) d(6) [of 0], of 4 0]
    rt_mq_recv_correct [OF d(1) d(2) [of 0] d(3) d(6) [of 0], of 4 6]
  show ?thesis using r d(5,7,8,10,11,12) demo_queue_facts by (auto simp: flag_insert_def fifo_insert_def)
qed

text \<open>
  \<open>rt_mq_urgent\<close> on every branch: a message longer than a slot is refused with \<open>-RT_ERROR\<close>, a full queue with
  \<open>-RT_EFULL\<close>, both without any change; otherwise the message overtakes all others, so that the
  next receiver gets it, and the first waiting receiver is made ready.
\<close>

theorem rt_mq_urgent_correct:
  assumes inv: "kinv k" and live: "ipc_live Class_MessageQueue i k" and c: "cur k \<noteq> None"
    and mq: "mq_inv (mqs k i)" and buf: "buf \<noteq> []"
  shows "if length buf > unat (msg_size (mqs k i)) then rt_mq_urgent i buf k = Some (- RT_ERROR, k)
    else if length (mq_list (mqs k i)) = unat (max_msgs (mqs k i)) then rt_mq_urgent i buf k = Some (- RT_EFULL, k)
    else \<exists>k' tail. rt_mq_urgent i buf k = Some (RT_EOK, k') \<and> kinv k' \<and> mq_inv (mqs k' i) \<and>
        mq_list (mqs k' i) = (buf @ tail) # mq_list (mqs k i) \<and> length tail = unat (msg_size (mqs k i)) - length buf \<and>
        tlists k' (Suspend i) = tl (tlists k (Suspend i)) \<and>
        (tlists k (Suspend i) \<noteq> [] \<longrightarrow>
          stat_of (threads k' (hd (tlists k (Suspend i)))) \<in> {RT_THREAD_READY, RT_THREAD_RUNNING})"
proof -
  note full = mq_list_facts(3) [OF mq]
  consider "length buf > unat (msg_size (mqs k i))"
    | "length buf \<le> unat (msg_size (mqs k i))" "msg_queue_free (mqs k i) = None"
    | "length buf \<le> unat (msg_size (mqs k i))" "msg_queue_free (mqs k i) \<noteq> None" by fastforce
  then show ?thesis
  proof cases
    case 3
    obtain q tail where q: "mq_prepend buf (mqs k i) = Some (True, q)" "mq_inv q"
        "length tail = unat (msg_size (mqs k i)) - length buf" "mq_list q = (buf @ tail) # mq_list (mqs k i)"
      using mq_prepend_ok [OF mq 3(2,1)] by blast
    obtain k' where k': "wake_first (Suspend i) (upd_mq i (\<lambda>_. q) k) = Some k'" "kinv k'" "mqs k' i = q"
        "tlists k' (Suspend i) = tl (tlists k (Suspend i))"
        "tlists k (Suspend i) \<noteq> [] \<longrightarrow> stat_of (threads k' (hd (tlists k (Suspend i)))) \<in> {RT_THREAD_READY, RT_THREAD_RUNNING}"
      using mq_wake [OF inv c, of "Suspend i" i q] by blast
    have "rt_mq_urgent i buf k = Some (RT_EOK, k')"
      using 3 live buf q(1) k'(1) by (auto simp: rt_mq_urgent_def ipc_live_def)
    then show ?thesis using 3 full q k' by auto
  qed (use live buf full in \<open>auto simp: rt_mq_urgent_def ipc_live_def\<close>)
qed

theorem rt_mq_urgent_correct_witness:
  "\<exists>k' tail. rt_mq_urgent 1 [9] demo_mq = Some (RT_EOK, k') \<and> kinv k' \<and> length tail = 3 \<and>
     mq_list (mqs k' 1) = [9 # tail, [1, 2, 3, 0]]"
proof -
  note d = demo_mq_facts
  have "cur demo_mq \<noteq> None" using d(4) by simp
  from rt_mq_urgent_correct [OF d(1) d(2) [of 1] this d(6) [of 1], of "[9]"] show ?thesis
    using d(7,12,14) by auto
qed

text \<open>
  \<open>rt_mq_control\<close> with the reset command returns: the loop that releases the messages ends, the queue is
  empty with every slot free, and all waiting receivers and senders are made ready with the
  error \<open>-RT_ERROR\<close>, which their pending calls return. Any other command is refused.
\<close>

theorem rt_mq_control_correct:
  assumes inv: "kinv k" and live: "ipc_live Class_MessageQueue i k" and c: "cur k \<noteq> None" and mq: "mq_inv (mqs k i)"
  shows "if cmd = 1 then
      \<exists>k'. rt_mq_control i cmd k = Some (RT_EOK, k') \<and> kinv k' \<and> mq_inv (mqs k' i) \<and> mq_list (mqs k' i) = [] \<and>
        length (mq_free_slots (mqs k' i)) = unat (max_msgs (mqs k i)) \<and>
        tlists k' (Suspend i) = [] \<and> tlists k' (Sender i) = [] \<and>
        (\<forall>u\<in>set (tlists k (Suspend i)) \<union> set (tlists k (Sender i)).
          stat_of (threads k' u) \<in> {RT_THREAD_READY, RT_THREAD_RUNNING} \<and>
          rt_mq_recv_resumed i n (u, timeout, start) k' = Some (Returned (- RT_ERROR, None), k') \<and>
          rt_mq_send_wait_resumed i buf (u, timeout, start) k' = Some (Returned (- RT_ERROR), k'))
    else rt_mq_control i cmd k = Some (- RT_ERROR, k)"
proof (cases "cmd = 1")
  case True
  let ?U = "set (tlists k (Suspend i)) \<union> set (tlists k (Sender i))"
  obtain k1 k2 where k2: "rt_ipc_list_resume_all (Suspend i) k = Some k1" "rt_ipc_list_resume_all (Sender i) k1 = Some k2"
      "kinv k2" "cur k2 = cur k" "data_frame k k2" "tlists k2 (Suspend i) = []" "tlists k2 (Sender i) = []"
      "\<forall>u\<in>?U. stat_of (threads k2 u) \<in> {RT_THREAD_READY, RT_THREAD_RUNNING} \<and> t_error (threads k2 u) = - RT_ERROR"
    using resume_both_ok [OF inv, of i] by blast
  have q: "mqs k2 i = mqs k i" using data_frameD(9) [OF k2(5)] by simp
  have "mq_rep (mqs k i\<lparr>mq_entry := mq_entry (mqs k i)\<rparr>) (mq_slots (mqs k i)) (mq_free_slots (mqs k i))"
    using mq by (simp add: mq_inv_def)
  from mq_release_all_ok [OF this] obtain q' fs where q': "mq_release_all (mqs k i) = Some q'"
      "mq_rep (q'\<lparr>mq_entry := 0\<rparr>) [] fs" "max_msgs q' = max_msgs (mqs k i)" by blast
  let ?k = "upd_mq i (\<lambda>_. q'\<lparr>mq_entry := 0\<rparr>) k2"
  obtain k3 where k3: "rt_schedule ?k = Some k3" "kinv k3" "data_frame ?k k3" "waits k3 = waits ?k"
      "\<forall>u\<in>?U. stat_of (threads k3 u) \<in> {RT_THREAD_READY, RT_THREAD_RUNNING} \<and> t_error (threads k3 u) = - RT_ERROR"
    using reset_schedule_ok [of ?k ?U] k2(3,4,8) c by auto
  have "rt_mq_control i cmd k = Some (RT_EOK, k3)"
    using True live k2(1,2) q'(1) k3(1) q by (simp add: rt_mq_control_def ipc_live_def)
  moreover have "mqs k3 i = q'\<lparr>mq_entry := 0\<rparr>" using data_frameD(9) [OF k3(3)] by simp
  moreover have "tlists k3 (Suspend i) = []" "tlists k3 (Sender i) = []"
    using waits_tlists [OF k3(4), of "Suspend i"] waits_tlists [OF k3(4), of "Sender i"] k2(6,7) by simp_all
  ultimately show ?thesis
    using True k3(2,5) mq_rep_slots [OF q'(2)] mq_rep_length [OF q'(2)] q'(3)
    by (auto simp: rt_mq_recv_resumed_def rt_mq_send_wait_resumed_def)
qed (use live in \<open>simp add: rt_mq_control_def ipc_live_def\<close>)

theorem rt_mq_control_correct_witness:
  "(\<exists>k'. rt_mq_control 0 1 demo_mq = Some (RT_EOK, k') \<and> kinv k' \<and> mq_list (mqs k' 0) = [] \<and>
     rt_mq_recv_resumed 0 4 (3, 0, 0) k' = Some (Returned (- RT_ERROR, None), k')) \<and>
   rt_mq_control 0 2 demo_mq = Some (- RT_ERROR, demo_mq)"
proof -
  note d = demo_mq_facts
  have c: "cur demo_mq \<noteq> None" using d(4) by simp
  note r = rt_mq_control_correct [OF d(1) d(2) [of 0] c d(6) [of 0]]
  show ?thesis using r [of 1 4 0 0 "[]"] r [of 2 4 0 0 "[]"] d(8) by auto
qed

end
