(* ===== verification/RT_System.thy ===== *)
theory RT_System
  imports RT_Sem RT_Mailbox RT_Mq
begin

unbundle bit_operations_syntax

text \<open>
  The kernel as a whole: threads that call semaphores, mailboxes, message queues, sleep and yield, in any order and interleaved
  by the scheduler and by the clock interrupt. A thread that was suspended inside a call carries the rest of the
  call with it (\<open>pending\<close>) and executes it when it runs again. The step relation is over the code's own
  definitions; the invariant of all reachable states says that no call ever fails an assertion,
  accesses memory outside an object, or fails to return.
\<close>

section \<open>Calls and their continuations\<close>

datatype syscall =
    Sem_Take nat u32
  | Sem_Release nat
  | Sem_Control nat int u32
  | Mb_Send nat u32 u32
  | Mb_Recv nat u32
  | Mb_Control nat int
  | Mq_Send nat "u8 list" u32
  | Mq_Urgent nat "u8 list"
  | Mq_Recv nat nat u32
  | Mq_Control nat int
  | Sleep u32
  | Yield

datatype pending =
    In_Sem_Take tid
  | In_Sleep tid
  | In_Mb_Send nat u32 "tid \<times> u32 \<times> u32"
  | In_Mb_Recv nat "tid \<times> u32 \<times> u32"
  | In_Mq_Send nat "u8 list" "tid \<times> u32 \<times> u32"
  | In_Mq_Recv nat nat "tid \<times> u32 \<times> u32"

fun pend_of :: "('x \<Rightarrow> pending) \<Rightarrow> ('v, 'x) call \<Rightarrow> pending option" where
  "pend_of f (Returned v) = None"
| "pend_of f (Suspended x) = Some (f x)"

fun enter_call :: "syscall \<Rightarrow> kernel \<Rightarrow> (pending option \<times> kernel) option" where
  "enter_call (Sem_Take i time) k = do { (r, k) \<leftarrow> rt_sem_take i time k; Some (pend_of In_Sem_Take r, k) }"
| "enter_call (Sem_Release i) k = do { (_, k) \<leftarrow> rt_sem_release i k; Some (None, k) }"
| "enter_call (Sem_Control i cmd arg) k = do { (_, k) \<leftarrow> rt_sem_control i cmd arg k; Some (None, k) }"
| "enter_call (Mb_Send i v time) k = do { (r, k) \<leftarrow> rt_mb_send_wait i v time k; Some (pend_of (In_Mb_Send i v) r, k) }"
| "enter_call (Mb_Recv i time) k = do { (r, k) \<leftarrow> rt_mb_recv i time k; Some (pend_of (In_Mb_Recv i) r, k) }"
| "enter_call (Mb_Control i cmd) k = do { (_, k) \<leftarrow> rt_mb_control i cmd k; Some (None, k) }"
| "enter_call (Mq_Send i buf time) k = do { (r, k) \<leftarrow> rt_mq_send_wait i buf time k; Some (pend_of (In_Mq_Send i buf) r, k) }"
| "enter_call (Mq_Urgent i buf) k = do { (_, k) \<leftarrow> rt_mq_urgent i buf k; Some (None, k) }"
| "enter_call (Mq_Recv i n time) k = do { (r, k) \<leftarrow> rt_mq_recv i n time k; Some (pend_of (In_Mq_Recv i n) r, k) }"
| "enter_call (Mq_Control i cmd) k = do { (_, k) \<leftarrow> rt_mq_control i cmd k; Some (None, k) }"
| "enter_call (Sleep tick) k = do { t \<leftarrow> rt_thread_self k; k \<leftarrow> rt_thread_sleep tick k; Some (Some (In_Sleep t), k) }"
| "enter_call Yield k = do { (_, k) \<leftarrow> rt_thread_yield k; Some (None, k) }"

text \<open>The rest of a call. A semaphore that was taken only reports the error of the thread.\<close>

fun finish_call :: "pending \<Rightarrow> kernel \<Rightarrow> (pending option \<times> kernel) option" where
  "finish_call (In_Sem_Take t) k = Some (None, k)"
| "finish_call (In_Sleep t) k = Some (None, snd (rt_thread_sleep_resumed t k))"
| "finish_call (In_Mb_Send i v x) k = do { (r, k) \<leftarrow> rt_mb_send_wait_resumed i v x k; Some (pend_of (In_Mb_Send i v) r, k) }"
| "finish_call (In_Mb_Recv i x) k = do { (r, k) \<leftarrow> rt_mb_recv_resumed i x k; Some (pend_of (In_Mb_Recv i) r, k) }"
| "finish_call (In_Mq_Send i buf x) k = do { (r, k) \<leftarrow> rt_mq_send_wait_resumed i buf x k; Some (pend_of (In_Mq_Send i buf) r, k) }"
| "finish_call (In_Mq_Recv i n x) k = do { (r, k) \<leftarrow> rt_mq_recv_resumed i n x k; Some (pend_of (In_Mq_Recv i n) r, k) }"

text \<open>The handler of the clock interrupt.\<close>

definition SysTick_Handler :: "callbacks \<Rightarrow> kernel \<Rightarrow> kernel option" where
  "SysTick_Handler cb k =
    do {
      k \<leftarrow> rt_tick_increase cb (rt_interrupt_enter k);
      Some (rt_interrupt_leave k)
    }"

text \<open>What the documentation of the calls asks of their arguments: a live object of the right class, a
  time-out that is forever (negative) or below half of the tick range, a message that is not empty.\<close>

definition time_ok :: "u32 \<Rightarrow> bool" where
  "time_ok time \<longleftrightarrow> sint time < 0x7FFFFFFE"

fun call_ok :: "syscall \<Rightarrow> kernel \<Rightarrow> bool" where
  "call_ok (Sem_Take i time) k \<longleftrightarrow> ipc_live Class_Semaphore i k \<and> time_ok time"
| "call_ok (Sem_Release i) k \<longleftrightarrow> ipc_live Class_Semaphore i k"
| "call_ok (Sem_Control i cmd arg) k \<longleftrightarrow> ipc_live Class_Semaphore i k"
| "call_ok (Mb_Send i v time) k \<longleftrightarrow> ipc_live Class_MailBox i k \<and> time_ok time"
| "call_ok (Mb_Recv i time) k \<longleftrightarrow> ipc_live Class_MailBox i k \<and> time_ok time"
| "call_ok (Mb_Control i cmd) k \<longleftrightarrow> ipc_live Class_MailBox i k"
| "call_ok (Mq_Send i buf time) k \<longleftrightarrow> ipc_live Class_MessageQueue i k \<and> time_ok time \<and> buf \<noteq> []"
| "call_ok (Mq_Urgent i buf) k \<longleftrightarrow> ipc_live Class_MessageQueue i k \<and> buf \<noteq> []"
| "call_ok (Mq_Recv i n time) k \<longleftrightarrow> ipc_live Class_MessageQueue i k \<and> time_ok time \<and> n \<noteq> 0"
| "call_ok (Mq_Control i cmd) k \<longleftrightarrow> ipc_live Class_MessageQueue i k"
| "call_ok (Sleep tick) k \<longleftrightarrow> unat tick < 0x7FFFFFFE"
| "call_ok Yield k \<longleftrightarrow> True"

text \<open>The code computes the rest of a time-out from the ticks that have passed since the thread was suspended. That is
  right as long as a suspended thread runs again within \<open>2 ^ 31\<close> ticks, 24 days at 1000 ticks per second.\<close>

fun in_time :: "pending \<Rightarrow> kernel \<Rightarrow> bool" where
  "in_time (In_Sem_Take t) k \<longleftrightarrow> True"
| "in_time (In_Sleep t) k \<longleftrightarrow> True"
| "in_time (In_Mb_Send i v (t, time, start)) k \<longleftrightarrow> rt_tick k - start < 0x80000000"
| "in_time (In_Mb_Recv i (t, time, start)) k \<longleftrightarrow> rt_tick k - start < 0x80000000"
| "in_time (In_Mq_Send i buf (t, time, start)) k \<longleftrightarrow> rt_tick k - start < 0x80000000"
| "in_time (In_Mq_Recv i n (t, time, start)) k \<longleftrightarrow> rt_tick k - start < 0x80000000"

type_synonym system = "kernel \<times> (tid \<rightharpoonup> pending)"

inductive system_step :: "callbacks \<Rightarrow> system \<Rightarrow> system \<Rightarrow> bool" for cb where
  call: "thread_calls t k \<Longrightarrow> pend t = None \<Longrightarrow> call_ok c k \<Longrightarrow> enter_call c k = Some (p, k') \<Longrightarrow>
    system_step cb (k, pend) (k', pend(t := p))"
| finish: "thread_calls t k \<Longrightarrow> pend t = Some x \<Longrightarrow> in_time x k \<Longrightarrow> finish_call x k = Some (p, k') \<Longrightarrow>
    system_step cb (k, pend) (k', pend(t := p))"
| clock: "SysTick_Handler cb k = Some k' \<Longrightarrow> system_step cb (k, pend) (k', pend)"

inductive_cases system_stepE: "system_step cb s s'"

section \<open>What the steps keep\<close>

definition objs_inv :: "kernel \<Rightarrow> bool" where
  "objs_inv k \<longleftrightarrow> (\<forall>i. (ipc_live Class_Semaphore i k \<longrightarrow> sem_ok i k) \<and>
    (ipc_live Class_MailBox i k \<longrightarrow> mb_inv (mailboxes k i)) \<and>
    (ipc_live Class_MessageQueue i k \<longrightarrow> mq_inv (mqs k i)))"

text \<open>The list of hard timers, seen from the present tick.\<close>

definition tm_window :: "kernel \<Rightarrow> bool" where
  "tm_window k \<longleftrightarrow> tmlists k HardTemp = [] \<and> tm_sorted (rt_tick k) (tticks k) (tmlists k HardList) \<and>
    (\<forall>t\<in>set (tmlists k HardList). unat (init_tick (timers k t)) < 0x7FFFFFFE \<and>
       (timer_periodic t k \<longrightarrow> 0 < init_tick (timers k t)))"

definition good :: "kernel \<Rightarrow> bool" where
  "good k \<longleftrightarrow> kinv k \<and> cur k \<noteq> None \<and> tm_window k \<and> objs_inv k"

text \<open>What the continuations rely on.\<close>

definition static :: "kernel \<Rightarrow> kernel \<Rightarrow> bool" where
  "static k k' \<longleftrightarrow> (\<forall>c i. ipc_live c i k' = ipc_live c i k) \<and> (\<forall>i. msg_size (mqs k' i) = msg_size (mqs k i)) \<and>
    interrupt_nest k' = interrupt_nest k"

text \<open>A change that no IPC object notices except that waiting lists may shrink.\<close>

definition quiet :: "kernel \<Rightarrow> kernel \<Rightarrow> bool" where
  "quiet k k' \<longleftrightarrow> sems k' = sems k \<and> mailboxes k' = mailboxes k \<and> mqs k' = mqs k \<and>
    (\<forall>i. hdr k' (OIpc i) = hdr k (OIpc i)) \<and> interrupt_nest k' = interrupt_nest k \<and>
    (\<forall>i. tlists k (Suspend i) = [] \<longrightarrow> tlists k' (Suspend i) = [])"

lemma goodD:
  assumes "good k"
  shows "kinv k" "cur k \<noteq> None" "tm_window k" "objs_inv k"
    "ipc_live Class_Semaphore i k \<Longrightarrow> sem_ok i k" "ipc_live Class_MailBox i k \<Longrightarrow> mb_inv (mailboxes k i)"
    "ipc_live Class_MessageQueue i k \<Longrightarrow> mq_inv (mqs k i)"
  using assms by (auto simp: good_def objs_inv_def)

lemma static_refl [simp]: "static k k"
  by (simp add: static_def)

lemma static_trans: "static k k' \<Longrightarrow> static k' k'' \<Longrightarrow> static k k''"
  by (simp add: static_def)

lemma quiet_refl [simp]: "quiet k k"
  by (simp add: quiet_def)

lemma quiet_trans: "quiet k k' \<Longrightarrow> quiet k' k'' \<Longrightarrow> quiet k k''"
  by (simp add: quiet_def)

lemma quiet_static: "quiet k k' \<Longrightarrow> static k k'"
  by (simp add: quiet_def static_def ipc_live_def ipc_flag_def rt_object_get_type_def)

lemma quiet_objs: "quiet k k' \<Longrightarrow> objs_inv k \<Longrightarrow> objs_inv k'"
  using quiet_static [of k k'] by (auto simp: quiet_def objs_inv_def static_def sem_ok_def)

section \<open>The timer window\<close>

lemma tm_window_cong:
  assumes "hdr k' = hdr k" "timers k' = timers k" "tmlists k' = tmlists k" "rt_tick k' = rt_tick k"
  shows "tm_window k' = tm_window k"
  using assms by (simp add: tm_window_def timer_flag_defs)

lemma tm_window_sched: "sched_only k k' \<Longrightarrow> tm_window k' = tm_window k"
  by (rule tm_window_cong) (simp_all add: sched_only_def)

lemma tm_window_tlists [simp]: "tm_window (k\<lparr>tlists := x\<rparr>) = tm_window k"
  by (rule tm_window_cong) simp_all

lemma tm_window_off: "tm_window k \<Longrightarrow> tm_window (timer_off m k)"
proof -
  assume w: "tm_window k"
  have "tmlists (timer_off m k) l = (if timer_activated m k then remove1 m (tmlists k l) else tmlists k l)" for l
    by (simp add: timer_off_def)
  then show ?thesis
    using w tm_sorted_remove1 [of "rt_tick k" "tticks k" "tmlists k HardList" m]
    by (auto simp: tm_window_def dest: notin_set_remove1)
qed

lemma timer_stop_off: "rt_timer_stop m k = Some (e, k') \<Longrightarrow> k' = timer_off m k"
  by (auto simp: rt_timer_stop_def timer_off_def Let_def split: if_splits)

lemma suspend_window:
  assumes "rt_thread_suspend t k = Some (e, k')" "tm_window k"
  shows "tm_window k'"
proof -
  have "tm_window (upd_thread t f k1)" if "rt_schedule_remove_thread t k = Some k1" for f k1
    using tm_window_sched [OF remove_thread_only [OF that]] tm_window_sched [of k1 "upd_thread t f k1"] assms(2) by simp
  then show ?thesis
    using assms by (auto simp: rt_thread_suspend_def Let_def bind_eq_Some_conv intro: tm_window_off dest!: timer_stop_off split: if_splits)
qed

lemma resume_window:
  assumes "rt_thread_resume t k = Some (e, k')" "tm_window k"
  shows "tm_window k'"
proof -
  have "tm_window (timer_off m (tl_remove t k))" for m
    using tm_window_sched [of k "tl_remove t k"] assms(2) tm_window_off [of "tl_remove t k" m] by simp
  then show ?thesis
    using assms by (auto simp: rt_thread_resume_def Let_def bind_eq_Some_conv dest!: timer_stop_off insert_thread_only tm_window_sched split: if_splits)
qed

lemma schedule_window: "rt_schedule k = Some k' \<Longrightarrow> tm_window k' = tm_window k"
  by (rule tm_window_sched [OF rt_schedule_only])

lemma arm_window:
  assumes inv: "kinv k" and st: "stat_of (threads k t) = RT_THREAD_SUSPEND" and tick: "unat tick < 0x7FFFFFFE"
    and k': "arm_timer t tick k = Some k'" and w: "tm_window k"
  shows "tm_window k'"
proof -
  let ?m = "ThreadTimer t"
  let ?k = "upd_timer ?m (\<lambda>x. x\<lparr>init_tick := tick\<rparr>) k"
  have tcb: "tcb_ok t k" using tt_invD(1) [OF kinvD(4) [OF inv]] st by (simp add: started_def)
  have ty: "rt_object_get_type (OTimer ?m) ?k = Class_Timer" and soft: "\<not> timer_soft ?m ?k" and per: "\<not> timer_periodic ?m ?k"
    using tcb by (simp_all add: tcb_ok_def)
  have th: "\<forall>u. ?m = ThreadTimer u \<longrightarrow> stat_of (threads ?k u) = RT_THREAD_SUSPEND" using st by simp
  have i: "init_tick (timers ?k ?m) < RT_TICK_HALF" "unat (rt_tick ?k - rt_tick k) + unat (init_tick (timers ?k ?m)) < 0x7FFFFFFF"
    using tick by (simp_all add: word_less_nat_alt)
  obtain k1 where k1: "timer_link ?m ?k = Some k1" "data_frame ?k k1"
      "timers k1 = (timers ?k)(?m := (timers ?k ?m)\<lparr>timeout_tick := rt_tick ?k + init_tick (timers ?k ?m)\<rparr>)"
      "\<forall>l. tmlists k1 l = (if l = timer_list_of ?m ?k then
        timer_insert (tticks k1) ?m (remove1 ?m (tmlists ?k l)) else remove1 ?m (tmlists ?k l))"
      "\<forall>m. timer_periodic m k1 = timer_periodic m ?k \<and> timer_soft m k1 = timer_soft m ?k"
    using timer_link_ok [OF kinv_set_init [OF inv] ty i(1) th] by blast
  have "rt_timer_control ?m 0 tick k = Some (tick, ?k)" using tcb by (simp add: rt_timer_control_def tcb_ok_def)
  then have kk: "k' = k1" using k' timer_start_hard [OF ty k1(1)] k1(5) soft by (simp add: arm_timer_def)
  have "tm_sorted (rt_tick k) (tticks ?k) (tmlists ?k HardList)"
    using w tm_sorted_cong [of "tmlists k HardList" "tticks k" "tticks ?k" "rt_tick k"] by (simp add: tm_window_def)
  then have "tm_sorted (rt_tick k) (tticks k1) (tmlists k1 HardList)"
    using timer_link_sorted(1) [OF kinv_set_init [OF inv] ty soft th _ i(2) k1(1)] by blast
  moreover have "rt_tick k1 = rt_tick k" using data_frameD(4) [OF k1(2)] by simp
  moreover have "tmlists k1 HardTemp = []" using k1(4) w by (simp add: tm_window_def timer_list_of_def)
  moreover have "unat (init_tick (timers k1 x)) < 0x7FFFFFFE \<and> (timer_periodic x k1 \<longrightarrow> 0 < init_tick (timers k1 x))"
    if "x \<in> set (tmlists k1 HardList)" for x
  proof (cases "x = ?m")
    case True
    then show ?thesis using k1(3,5) tick per by simp
  next
    case False
    then have "x \<in> set (tmlists k HardList)" using that k1(4) soft by (auto simp: timer_list_of_def dest: notin_set_remove1)
    then show ?thesis using w False k1(3,5) by (simp add: tm_window_def)
  qed
  ultimately show ?thesis unfolding kk tm_window_def by simp
qed

lemma block_window:
  assumes inv: "kinv k" and c: "cur k = Some t" "stat_of (threads k t) = RT_THREAD_RUNNING"
    and flag: "flag = RT_IPC_FLAG_FIFO \<or> flag = RT_IPC_FLAG_PRIO" and l: "l = Suspend i \<or> l = Sender i"
    and time: "time_ok time" and k': "block_on l t flag time k = Some k'" and w: "tm_window k"
  shows "tm_window k'"
proof -
  obtain k1 where k1: "rt_ipc_list_suspend l t flag k = Some k1" "kinv k1"
      "threads k1 = (threads k)(t := set_stat RT_THREAD_SUSPEND (threads k t))"
    using list_suspend_ok [OF inv c flag l] by blast
  have w1: "tm_window k1"
    using k1(1) w by (auto simp: rt_ipc_list_suspend_def bind_eq_Some_conv Let_def dest!: suspend_window split: if_splits)
  have "tm_window k2" if "(if 0 < sint time then arm_timer t time k1 else Some k1) = Some k2" for k2
  proof (cases "0 < sint time")
    case True
    have "int (unat time) = sint time" using sint_nonneg_unat [of time] True by simp
    then have "unat time < 0x7FFFFFFE" using time unfolding time_ok_def by linarith
    then show ?thesis using that True arm_window [OF k1(2) _ _ _ w1, of t time k2] k1(3) by simp
  qed (use that w1 in simp)
  then show ?thesis using k' k1(1) by (auto simp: block_on_def bind_eq_Some_conv dest!: schedule_window)
qed

lemma resume_all_window: "rt_ipc_list_resume_all l k = Some k' \<Longrightarrow> tm_window k \<longrightarrow> tm_window k'"
proof (erule rt_ipc_list_resume_all.raw_induct [rotated])
  fix f l k k'
  assume IH: "\<And>l k k'. f l k = Some k' \<Longrightarrow> tm_window k \<longrightarrow> tm_window k'"
    and k': "(case tlists k l of [] \<Rightarrow> Some k
      | t # _ \<Rightarrow> do { (_, k) \<leftarrow> rt_thread_resume t (upd_thread t (\<lambda>th. th\<lparr>t_error := - RT_ERROR\<rparr>) k); f l k }) = Some k'"
  show "tm_window k \<longrightarrow> tm_window k'"
    using k' tm_window_sched [OF sched_only_upd]
    by (auto simp: bind_eq_Some_conv split: list.splits dest!: resume_window IH)
qed

section \<open>The building blocks of the calls\<close>

lemma data_frame_static: "data_frame k k' \<Longrightarrow> static k k'"
  using ipc_live_frame [of k k'] by (simp add: static_def data_frame_def)

text \<open>A step of the kernel that leaves the contents of the objects alone.\<close>

lemma good_frame:
  assumes g: "good k" and k': "kinv k'" "cur k' \<noteq> None" "tm_window k'" "data_frame k k'"
    and l: "\<And>i. ipc_live Class_Semaphore i k \<Longrightarrow> tlists k' (Suspend i) = [] \<or> tlists k (Suspend i) \<noteq> [] \<or> sem_value (sems k i) = 0"
  shows "good k' \<and> static k k'"
proof -
  note f = data_frameD [OF k'(4)]
  have "ipc_live c i k' = ipc_live c i k" for c i by (rule ipc_live_frame [OF k'(4)])
  then have "objs_inv k'"
    using goodD(4) [OF g] l f(5,8,9) unfolding objs_inv_def sem_ok_def by metis
  then show ?thesis using k' data_frame_static by (simp add: good_def)
qed

lemma schedule_good:
  assumes "good k"
  shows "\<exists>k'. rt_schedule k = Some k' \<and> good k' \<and> static k k'"
proof -
  obtain k' where k': "rt_schedule k = Some k'" "kinv k'" "sched_only k k'" "waits k' = waits k" "cur k' \<noteq> None"
    using rt_schedule_kinv [OF goodD(1,2) [OF assms]] by blast
  have "tlists k' (Suspend i) = tlists k (Suspend i)" for i using waits_tlists [OF k'(4)] by simp
  then show ?thesis
    using k' good_frame [OF assms k'(2,5) _ sched_only_data [OF k'(3)]] schedule_window [OF k'(1)] goodD(3) [OF assms] by auto
qed

lemma wake_good:
  assumes g: "good k" and l: "l = Suspend i \<or> l = Sender i"
  shows "\<exists>k'. wake_first l k = Some k' \<and> good k' \<and> static k k'"
proof -
  obtain k' where k': "wake_first l k = Some k'" "kinv k'" "cur k' \<noteq> None" "data_frame k k'" "tlists k' l = tl (tlists k l)"
      "\<forall>m. m \<noteq> l \<and> (\<forall>p. m \<noteq> Ready p) \<longrightarrow> tlists k' m = tlists k m"
    using wake_first_ok [OF goodD(1,2) [OF g] l] by blast
  have "tm_window k'"
    using k'(1) goodD(3) [OF g]
    by (auto simp: wake_first_def rt_ipc_list_resume_def bind_eq_Some_conv split: if_splits list.splits dest!: resume_window schedule_window)
  moreover have "tlists k' (Suspend j) = [] \<or> tlists k (Suspend j) \<noteq> []" for j
    using k'(5,6) by (cases "l = Suspend j") auto
  ultimately show ?thesis using good_frame [OF g k'(2,3) _ k'(4)] k'(1) by blast
qed

lemma block_good:
  assumes g: "good k" and c: "thread_calls t k" and live: "ipc_live cl i k"
    and l: "l = Suspend i \<or> l = Sender i" and time: "time_ok time"
    and z: "ipc_live Class_Semaphore i k \<and> l = Suspend i \<Longrightarrow> sem_value (sems k i) = 0"
  shows "\<exists>k'. block_on l t (ipc_flag i (set_error t RT_EOK k)) time (set_error t RT_EOK k) = Some k' \<and> good k' \<and> static k k'"
proof -
  let ?k = "set_error t RT_EOK k"
  have time': "sint time < 0x7FFFFFFF" using time by (simp add: time_ok_def)
  have fl: "ipc_flag i ?k = RT_IPC_FLAG_FIFO \<or> ipc_flag i ?k = RT_IPC_FLAG_PRIO" using live by (simp add: ipc_live_def ipc_flag_def)
  have c': "cur ?k = Some t" "stat_of (threads ?k t) = RT_THREAD_RUNNING" using c by (simp_all add: thread_calls_def)
  note inv = kinv_set_error [OF goodD(1) [OF g]]
  obtain k' where k': "block_on l t (ipc_flag i ?k) time ?k = Some k'" "kinv k'" "data_frame ?k k'" "cur k' \<noteq> None"
      "\<forall>m. m \<noteq> l \<and> (\<forall>p. m \<noteq> Ready p) \<longrightarrow> tlists k' m = tlists ?k m"
    using block_on_ok [OF inv c' fl l time'] by blast
  have "tm_window ?k" using goodD(3) [OF g] tm_window_cong [of ?k k] by simp
  then have "tm_window k'" by (rule block_window [OF inv c' fl l time k'(1)])
  moreover have "data_frame k k'" using set_error_frame(4) k'(3) by (rule data_frame_trans)
  moreover have "tlists k' (Suspend j) = [] \<or> tlists k (Suspend j) \<noteq> [] \<or> sem_value (sems k j) = 0"
    if "ipc_live Class_Semaphore j k" for j
    using k'(5) z that l by (cases "l = Suspend j") auto
  ultimately show ?thesis using good_frame [OF g k'(2,4)] k'(1) by blast
qed

lemma set_error_good: "good k \<Longrightarrow> good (set_error t e k) \<and> static k (set_error t e k)"
  using good_frame [of k "set_error t e k"] kinv_set_error [of k t e] tm_window_cong [of "set_error t e k" k] goodD(1-3) [of k] by simp

text \<open>Changing the contents of one object.\<close>

lemma sem_good:
  assumes g: "good k" and v: "tlists k (Suspend i) = [] \<or> v = 0"
  shows "good (set_sem i v k) \<and> static k (set_sem i v k)"
proof -
  have "ipc_live c j (set_sem i v k) = ipc_live c j k" for c j by (simp add: ipc_live_def ipc_flag_def set_sem_def rt_object_get_type_def)
  moreover have "tm_window (set_sem i v k)" using goodD(3) [OF g] tm_window_cong [of "set_sem i v k" k] by (simp add: set_sem_def)
  ultimately show ?thesis
    using g v by (auto simp: good_def objs_inv_def static_def set_sem_def sem_ok_def)
qed

lemma mb_good:
  assumes g: "good k" and b: "mb_inv b"
  shows "good (upd_mb i (\<lambda>_. b) k) \<and> static k (upd_mb i (\<lambda>_. b) k)"
proof -
  let ?k = "upd_mb i (\<lambda>_. b) k"
  have "ipc_live c j ?k = ipc_live c j k" for c j by (simp add: ipc_live_def ipc_flag_def upd_mb_def rt_object_get_type_def)
  moreover have "tm_window ?k" using goodD(3) [OF g] tm_window_cong [of ?k k] by (simp add: upd_mb_def)
  ultimately show ?thesis using g b by (auto simp: good_def objs_inv_def static_def upd_mb_def sem_ok_def)
qed

lemma mq_good:
  assumes g: "good k" and q: "mq_inv q" "msg_size q = msg_size (mqs k i)"
  shows "good (upd_mq i (\<lambda>_. q) k) \<and> static k (upd_mq i (\<lambda>_. q) k)"
proof -
  let ?k = "upd_mq i (\<lambda>_. q) k"
  have "ipc_live c j ?k = ipc_live c j k" for c j by (simp add: ipc_live_def ipc_flag_def upd_mq_def rt_object_get_type_def)
  moreover have "tm_window ?k" using goodD(3) [OF g] tm_window_cong [of ?k k] by (simp add: upd_mq_def)
  ultimately show ?thesis using g q by (auto simp: good_def objs_inv_def static_def upd_mq_def sem_ok_def)
qed

lemma resume_all_good:
  assumes g: "good k" and l: "l = Suspend i \<or> l = Sender i"
  shows "\<exists>k'. rt_ipc_list_resume_all l k = Some k' \<and> good k' \<and> static k k' \<and> tlists k' l = [] \<and> sems k' = sems k \<and>
    mailboxes k' = mailboxes k \<and> mqs k' = mqs k"
proof -
  obtain k' where k': "rt_ipc_list_resume_all l k = Some k'" "kinv k'" "cur k' = cur k" "data_frame k k'" "tlists k' l = []"
      "\<forall>m. m \<noteq> l \<and> (\<forall>p. m \<noteq> Ready p) \<longrightarrow> tlists k' m = tlists k m"
    using resume_all_ok [OF goodD(1) [OF g] l] by blast
  have "tlists k' (Suspend j) = [] \<or> tlists k (Suspend j) \<noteq> []" for j using k'(5,6) by (cases "l = Suspend j") auto
  then show ?thesis
    using good_frame [OF g k'(2) _ _ k'(4)] resume_all_window [OF k'(1)] goodD(2,3) [OF g] k'(1,3,5) data_frameD(5,8,9) [OF k'(4)] by auto
qed

section \<open>Calls\<close>

fun pend_ok :: "tid \<Rightarrow> kernel \<Rightarrow> pending \<Rightarrow> bool" where
  "pend_ok t k (In_Sem_Take u) \<longleftrightarrow> u = t"
| "pend_ok t k (In_Sleep u) \<longleftrightarrow> u = t"
| "pend_ok t k (In_Mb_Send i v (u, time, start)) \<longleftrightarrow> u = t \<and> ipc_live Class_MailBox i k \<and> time_ok time"
| "pend_ok t k (In_Mb_Recv i (u, time, start)) \<longleftrightarrow> u = t \<and> ipc_live Class_MailBox i k \<and> time_ok time"
| "pend_ok t k (In_Mq_Send i buf (u, time, start)) \<longleftrightarrow> u = t \<and> ipc_live Class_MessageQueue i k \<and> time_ok time \<and>
    length buf \<le> unat (msg_size (mqs k i))"
| "pend_ok t k (In_Mq_Recv i n (u, time, start)) \<longleftrightarrow> u = t \<and> ipc_live Class_MessageQueue i k \<and> time_ok time"

lemma pend_ok_static:
  assumes "static k k'"
  shows "pend_ok t k' x = pend_ok t k x"
  using assms by (cases "(t, k, x)" rule: pend_ok.cases) (simp_all add: static_def)

text \<open>A call made by thread \<open>t\<close> returns, in a good state, and what it leaves to do is in order.\<close>

definition runs :: "tid \<Rightarrow> kernel \<Rightarrow> (pending option \<times> kernel) option \<Rightarrow> bool" where
  "runs t k res \<longleftrightarrow> (\<exists>p k'. res = Some (p, k') \<and> good k' \<and> static k k' \<and> (\<forall>x. p = Some x \<longrightarrow> pend_ok t k' x))"

lemma runs_none: "good k' \<and> static k k' \<Longrightarrow> runs t k (Some (None, k'))"
  by (simp add: runs_def)

lemma runs_some: "good k' \<and> static k k' \<Longrightarrow> pend_ok t k x \<Longrightarrow> runs t k (Some (Some x, k'))"
  using pend_ok_static [of k k' t x] by (simp add: runs_def)

lemma rest_time_ok:
  assumes time: "time_ok time" and d: "rt_tick k - start < 0x80000000"
  shows "time_ok (rest_timeout time start k)"
proof (cases "0 < sint time \<and> 0 \<le> sint (time - (rt_tick k - start))")
  case True
  let ?d = "rt_tick k - start"
  have u: "int (unat time) = sint time" "int (unat (time - ?d)) = sint (time - ?d)" using True sint_nonneg_unat by simp_all
  have d': "unat ?d < 0x80000000" using d by (simp add: word_less_nat_alt)
  have l: "sint (time - ?d) < 0x80000000" using sint_lt [of "time - ?d"] by simp
  have "unat (time - ?d) \<le> unat time"
  proof (cases "unat ?d \<le> unat time")
    case False
    then have "unat (time - ?d) = 0x100000000 + unat time - unat ?d" by (simp add: unat_sub_if')
    then show ?thesis using d' u(2) l by linarith
  qed (simp add: unat_sub_if')
  then have "sint (time - ?d) \<le> sint time" using u by linarith
  then show ?thesis using True time by (simp add: rest_timeout_def Let_def time_ok_def)
qed (use time in \<open>auto simp: rest_timeout_def Let_def time_ok_def\<close>)

lemma calls_context:
  assumes "thread_calls t k"
  shows "in_thread_context k" "in_thread_context (set_error t e k)" "rt_thread_self k = Some t"
  using assms by (simp_all add: thread_calls_def in_thread_context_def rt_thread_self_def)

lemma sem_take_runs:
  assumes g: "good k" and c: "thread_calls t k" and live: "ipc_live Class_Semaphore i k" and time: "time_ok time"
  shows "runs t k (enter_call (Sem_Take i time) k)"
proof -
  have ty: "rt_object_get_type (OIpc i) k = Class_Semaphore" using live by (simp add: ipc_live_def)
  consider "0 < sem_value (sems k i)" | "sem_value (sems k i) = 0" "time = 0" | "sem_value (sems k i) = 0" "time \<noteq> 0"
    by (auto simp: word_gt_0)
  then show ?thesis
  proof cases
    case 1
    then have "tlists k (Suspend i) = []" using goodD(5) [OF g live] by (auto simp: sem_ok_def)
    then show ?thesis using 1 ty runs_none [OF sem_good [OF g]] by (simp add: rt_sem_take_def)
  next
    case 2
    then show ?thesis using ty g by (simp add: rt_sem_take_def runs_none)
  next
    case 3
    obtain k' where k': "block_on (Suspend i) t (ipc_flag i (set_error t RT_EOK k)) time (set_error t RT_EOK k) = Some k'"
        "good k' \<and> static k k'"
      using block_good [OF g c live _ time, of "Suspend i"] 3 by blast
    then show ?thesis using 3 ty calls_context [OF c] runs_some [OF k'(2), of t "In_Sem_Take t"] by (simp add: rt_sem_take_def)
  qed
qed

lemma sem_release_runs:
  assumes g: "good k" and live: "ipc_live Class_Semaphore i k"
  shows "runs t k (enter_call (Sem_Release i) k)"
proof -
  have ty: "rt_object_get_type (OIpc i) k = Class_Semaphore" using live by (simp add: ipc_live_def)
  obtain k' where k': "wake_first (Suspend i) k = Some k'" "good k' \<and> static k k'" using wake_good [OF g] by blast
  show ?thesis
  proof (cases "tlists k (Suspend i) = []")
    case True
    then show ?thesis using ty g runs_none [OF sem_good [OF g]] by (simp add: rt_sem_release_def runs_none)
  next
    case False
    then show ?thesis
      using ty k'(1) runs_none [OF k'(2)] by (auto simp: rt_sem_release_def wake_first_def bind_eq_Some_conv)
  qed
qed

lemma sem_control_runs:
  assumes g: "good k" and live: "ipc_live Class_Semaphore i k"
  shows "runs t k (enter_call (Sem_Control i cmd arg) k)"
proof -
  have ty: "rt_object_get_type (OIpc i) k = Class_Semaphore" using live by (simp add: ipc_live_def)
  obtain k1 where k1: "rt_ipc_list_resume_all (Suspend i) k = Some k1" "good k1" "static k k1" "tlists k1 (Suspend i) = []"
    using resume_all_good [OF g] by blast
  have k2: "good (set_sem i (ucast arg) k1)" "static k1 (set_sem i (ucast arg) k1)" using sem_good [OF k1(2)] k1(4) by simp_all
  obtain k3 where k3: "rt_schedule (set_sem i (ucast arg) k1) = Some k3" "good k3" "static (set_sem i (ucast arg) k1) k3"
    using schedule_good [OF k2(1)] by blast
  have "static k k3" using k1(3) k2(2) k3(3) by (blast intro: static_trans)
  then show ?thesis using ty g k1(1) k3(1,2) by (simp add: rt_sem_control_def runs_none)
qed

text \<open>A new value of the object is stored and the first thread of the other side is woken.\<close>

lemma store_wake:
  assumes k1: "good k1 \<and> static k k1" and l: "l = Suspend i \<or> l = Sender i"
  obtains k' where "wake_first l k1 = Some k'" "good k' \<and> static k k'"
  using wake_good [of k1 l i] k1 l static_trans by blast

lemma set_error_twice: "good k \<Longrightarrow> good (set_error t e (set_error t e' k)) \<and> static k (set_error t e (set_error t e' k))"
  using set_error_good [of k t e'] set_error_good [of "set_error t e' k" t e] static_trans by blast

lemma mb_send_runs:
  assumes g: "good k" and c: "thread_calls t k" and live: "ipc_live Class_MailBox i k" and time: "time_ok time"
  shows "runs t k (do { (r, k) \<leftarrow> mb_send_loop i (Some t) v time k; Some (pend_of (In_Mb_Send i v) r, k) })"
proof -
  consider "mb_entry (mailboxes k i) = mb_size (mailboxes k i)" "time = 0" | "mb_entry (mailboxes k i) = mb_size (mailboxes k i)" "time \<noteq> 0"
    | "mb_entry (mailboxes k i) \<noteq> mb_size (mailboxes k i)" by blast
  then show ?thesis
  proof cases
    case 1
    then show ?thesis using runs_none [OF set_error_good [OF g]] by (simp add: mb_send_loop_def)
  next
    case 2
    obtain k' where k': "block_on (Sender i) t (ipc_flag i (set_error t RT_EOK k)) time (set_error t RT_EOK k) = Some k'"
        "good k' \<and> static k k'"
      using block_good [OF g c live _ time, of "Sender i"] by blast
    then show ?thesis
      using 2 calls_context [OF c] live time runs_some [OF k'(2), of t "In_Mb_Send i v (t, time, rt_tick k)"] by (simp add: mb_send_loop_def Let_def)
  next
    case 3
    obtain b where b: "mb_store v (mailboxes k i) = Some (True, b)" "mb_inv b" using mb_store_ok [OF goodD(6) [OF g live] 3] by blast
    obtain k' where k': "wake_first (Suspend i) (upd_mb i (\<lambda>_. b) k) = Some k'" "good k' \<and> static k k'"
      using store_wake [OF mb_good [OF g b(2), of i]] by blast
    then show ?thesis using 3 b(1) runs_none [OF k'(2)] by (simp add: mb_send_loop_def)
  qed
qed

lemma mb_recv_runs:
  assumes g: "good k" and c: "thread_calls t k" and live: "ipc_live Class_MailBox i k" and time: "time_ok time"
  shows "runs t k (do { (r, k) \<leftarrow> mb_recv_loop i (Some t) time k; Some (pend_of (In_Mb_Recv i) r, k) })"
proof -
  consider "mb_entry (mailboxes k i) = 0" "time = 0" | "mb_entry (mailboxes k i) = 0" "time \<noteq> 0" | "mb_entry (mailboxes k i) \<noteq> 0" by blast
  then show ?thesis
  proof cases
    case 1
    then show ?thesis using runs_none [OF set_error_twice [OF g]] by (simp add: mb_recv_loop_def)
  next
    case 2
    have "\<not> ipc_live Class_Semaphore i k" using live by (auto simp: ipc_live_def)
    then obtain k' where k': "block_on (Suspend i) t (ipc_flag i (set_error t RT_EOK k)) time (set_error t RT_EOK k) = Some k'"
        "good k' \<and> static k k'"
      using block_good [OF g c live _ time, of "Suspend i"] by blast
    then show ?thesis
      using 2 calls_context [OF c] live time runs_some [OF k'(2), of t "In_Mb_Recv i (t, time, rt_tick k)"] by (simp add: mb_recv_loop_def Let_def)
  next
    case 3
    obtain v b where b: "mb_fetch (mailboxes k i) = Some (v, b)" "mb_inv b" using mb_fetch_ok [OF goodD(6) [OF g live] 3] by blast
    obtain k' where k': "wake_first (Sender i) (upd_mb i (\<lambda>_. b) k) = Some k'" "good k' \<and> static k k'"
      using store_wake [OF mb_good [OF g b(2), of i]] by blast
    then show ?thesis using 3 b(1) runs_none [OF k'(2)] by (simp add: mb_recv_loop_def)
  qed
qed

lemma mq_send_runs:
  assumes g: "good k" and c: "thread_calls t k" and live: "ipc_live Class_MessageQueue i k" and time: "time_ok time"
    and buf: "length buf \<le> unat (msg_size (mqs k i))"
  shows "runs t k (do { (r, k) \<leftarrow> mq_send_loop i (Some t) buf time k; Some (pend_of (In_Mq_Send i buf) r, k) })"
proof -
  consider "msg_queue_free (mqs k i) = None" "time = 0" | "msg_queue_free (mqs k i) = None" "time \<noteq> 0"
    | "msg_queue_free (mqs k i) \<noteq> None" by blast
  then show ?thesis
  proof cases
    case 1
    then show ?thesis using runs_none [OF set_error_good [OF g]] by (simp add: mq_send_loop_def)
  next
    case 2
    obtain k' where k': "block_on (Sender i) t (ipc_flag i (set_error t RT_EOK k)) time (set_error t RT_EOK k) = Some k'"
        "good k' \<and> static k k'"
      using block_good [OF g c live _ time, of "Sender i"] by blast
    then show ?thesis
      using 2 calls_context [OF c] live time buf runs_some [OF k'(2), of t "In_Mq_Send i buf (t, time, rt_tick k)"]
      by (simp add: mq_send_loop_def Let_def)
  next
    case 3
    obtain q where q: "mq_append buf (mqs k i) = Some (True, q)" "mq_inv q" "msg_size q = msg_size (mqs k i)"
      using mq_append_ok [OF goodD(7) [OF g live] 3 buf] by blast
    obtain k' where k': "wake_first (Suspend i) (upd_mq i (\<lambda>_. q) k) = Some k'" "good k' \<and> static k k'"
      using store_wake [OF mq_good [OF g q(2,3)]] by blast
    then show ?thesis using 3 q(1) runs_none [OF k'(2)] by (auto simp: mq_send_loop_def)
  qed
qed

lemma mq_recv_runs:
  assumes g: "good k" and c: "thread_calls t k" and live: "ipc_live Class_MessageQueue i k" and time: "time_ok time"
  shows "runs t k (do { (r, k) \<leftarrow> mq_recv_loop i (Some t) n time k; Some (pend_of (In_Mq_Recv i n) r, k) })"
proof -
  consider "mq_entry (mqs k i) = 0" "time = 0" | "mq_entry (mqs k i) = 0" "time \<noteq> 0" | "mq_entry (mqs k i) \<noteq> 0" by blast
  then show ?thesis
  proof cases
    case 1
    then show ?thesis using calls_context [OF c] runs_none [OF set_error_twice [OF g]] by (simp add: mq_recv_loop_def)
  next
    case 2
    have "\<not> ipc_live Class_Semaphore i k" using live by (auto simp: ipc_live_def)
    then obtain k' where k': "block_on (Suspend i) t (ipc_flag i (set_error t RT_EOK k)) time (set_error t RT_EOK k) = Some k'"
        "good k' \<and> static k k'"
      using block_good [OF g c live _ time, of "Suspend i"] by blast
    then show ?thesis
      using 2 calls_context [OF c] live time runs_some [OF k'(2), of t "In_Mq_Recv i n (t, time, rt_tick k)"]
      by (simp add: mq_recv_loop_def Let_def)
  next
    case 3
    then obtain x xs where "mq_list (mqs k i) = x # xs" using mq_list_facts(4) [OF goodD(7) [OF g live]] by (cases "mq_list (mqs k i)") auto
    then obtain y q where q: "mq_fetch n (mqs k i) = Some (y, q)" "mq_inv q" "msg_size q = msg_size (mqs k i)"
      using mq_fetch_ok [OF goodD(7) [OF g live]] by blast
    obtain k' where k': "wake_first (Sender i) (upd_mq i (\<lambda>_. q) k) = Some k'" "good k' \<and> static k k'"
      using store_wake [OF mq_good [OF g q(2,3)]] by blast
    then show ?thesis using 3 q(1) runs_none [OF k'(2)] by (simp add: mq_recv_loop_def)
  qed
qed

lemma mq_urgent_runs:
  assumes g: "good k" and live: "ipc_live Class_MessageQueue i k" and buf: "buf \<noteq> []"
  shows "runs t k (enter_call (Mq_Urgent i buf) k)"
proof -
  have ty: "rt_object_get_type (OIpc i) k = Class_MessageQueue" using live by (simp add: ipc_live_def)
  show ?thesis
  proof (cases "length buf \<le> unat (msg_size (mqs k i)) \<and> msg_queue_free (mqs k i) \<noteq> None")
    case True
    then obtain q where q: "mq_prepend buf (mqs k i) = Some (True, q)" "mq_inv q" "msg_size q = msg_size (mqs k i)"
      using mq_prepend_ok [OF goodD(7) [OF g live]] by blast
    obtain k' where k': "wake_first (Suspend i) (upd_mq i (\<lambda>_. q) k) = Some k'" "good k' \<and> static k k'"
      using store_wake [OF mq_good [OF g q(2,3)]] by blast
    then show ?thesis using True ty buf q(1) runs_none [OF k'(2)] by (auto simp: rt_mq_urgent_def)
  qed (use ty buf g in \<open>auto simp: rt_mq_urgent_def runs_none\<close>)
qed

lemma mb_control_runs:
  assumes g: "good k" and live: "ipc_live Class_MailBox i k"
  shows "runs t k (enter_call (Mb_Control i cmd) k)"
proof -
  have ty: "rt_object_get_type (OIpc i) k = Class_MailBox" using live by (simp add: ipc_live_def)
  obtain k1 where k1: "rt_ipc_list_resume_all (Suspend i) k = Some k1" "good k1" "static k k1" "mailboxes k1 = mailboxes k"
    using resume_all_good [OF g] by blast
  obtain k2 where k2: "rt_ipc_list_resume_all (Sender i) k1 = Some k2" "good k2" "static k1 k2" "mailboxes k2 = mailboxes k1"
    using resume_all_good [OF k1(2)] by blast
  have "mb_inv (mb_clear (mailboxes k i))" using goodD(6) [OF g live] by (simp add: mb_inv_def mb_clear_def)
  moreover have "upd_mb i mb_clear k2 = upd_mb i (\<lambda>_. mb_clear (mailboxes k i)) k2" using k1(4) k2(4) by (simp add: upd_mb_def)
  ultimately have k3: "good (upd_mb i mb_clear k2)" "static k2 (upd_mb i mb_clear k2)" using mb_good [OF k2(2)] by simp_all
  obtain k4 where k4: "rt_schedule (upd_mb i mb_clear k2) = Some k4" "good k4" "static (upd_mb i mb_clear k2) k4"
    using schedule_good [OF k3(1)] by blast
  have "static k k4" using k1(3) k2(3) k3(2) k4(3) by (blast intro: static_trans)
  then show ?thesis using ty g k1(1) k2(1) k4(1,2) by (simp add: rt_mb_control_def runs_none)
qed

lemma mq_control_runs:
  assumes g: "good k" and live: "ipc_live Class_MessageQueue i k"
  shows "runs t k (enter_call (Mq_Control i cmd) k)"
proof -
  have ty: "rt_object_get_type (OIpc i) k = Class_MessageQueue" using live by (simp add: ipc_live_def)
  obtain k1 where k1: "rt_ipc_list_resume_all (Suspend i) k = Some k1" "good k1" "static k k1" "mqs k1 = mqs k"
    using resume_all_good [OF g] by blast
  obtain k2 where k2: "rt_ipc_list_resume_all (Sender i) k1 = Some k2" "good k2" "static k1 k2" "mqs k2 = mqs k1"
    using resume_all_good [OF k1(2)] by blast
  have "mq_rep (mqs k i\<lparr>mq_entry := mq_entry (mqs k i)\<rparr>) (mq_slots (mqs k i)) (mq_free_slots (mqs k i))"
    using goodD(7) [OF g live] by (simp add: mq_inv_def)
  from mq_release_all_ok [OF this] obtain q fs where q: "mq_release_all (mqs k i) = Some q"
      "mq_rep (q\<lparr>mq_entry := 0\<rparr>) [] fs" "msg_size q = msg_size (mqs k i)" by blast
  let ?k = "upd_mq i (\<lambda>_. q\<lparr>mq_entry := 0\<rparr>) k2"
  have k3: "good ?k" "static k2 ?k" using mq_good [OF k2(2) mq_rep_slots(3) [OF q(2)], of i] q(3) k1(4) k2(4) by simp_all
  obtain k4 where k4: "rt_schedule ?k = Some k4" "good k4" "static ?k k4" using schedule_good [OF k3(1)] by blast
  have "static k k4" using k1(3) k2(3) k3(2) k4(3) by (blast intro: static_trans)
  then show ?thesis using ty g k1(1,4) k2(1,4) q(1) k4(1,2) by (simp add: rt_mq_control_def runs_none)
qed

lemma upd_thread_good:
  assumes g: "good k" and k': "kinv (upd_thread t f k)"
  shows "good (upd_thread t f k) \<and> static k (upd_thread t f k)"
proof (rule good_frame [OF g k'])
  show "tm_window (upd_thread t f k)" using tm_window_sched [of k "upd_thread t f k"] goodD(3) [OF g] by simp
  show "cur (upd_thread t f k) \<noteq> None" using goodD(2) [OF g] by simp
  show "data_frame k (upd_thread t f k)" by (simp add: sched_only_data)
qed simp

lemma sleep_runs:
  assumes g: "good k" and c: "thread_calls t k" and tick: "unat tick < 0x7FFFFFFE"
  shows "runs t k (enter_call (Sleep tick) k)"
proof -
  note inv = goodD(1) [OF g] and run = thread_callsD(1,2) [OF c]
  have tick': "tick < RT_TICK_HALF" using tick by (simp add: word_less_nat_alt)
  obtain k' where k': "sleep_for t tick k = Some k'" "kinv k'" "data_frame k k'" "cur k' \<noteq> None" "waits k' = waits k"
    using sleep_for_ok [OF inv run tick'] by blast
  have ty: "rt_object_get_type (OThread t) k = Class_Thread"
    using tt_invD(1) [OF kinvD(4) [OF inv], of t] run(2) by (simp add: started_def tcb_ok_def)
  obtain k1 where k1: "rt_thread_suspend t k = Some (RT_EOK, k1)" "kinv k1"
      "threads k1 = (threads k)(t := set_stat RT_THREAD_SUSPEND (threads k t))"
    using thread_suspend_ok [OF inv] run(2) by metis
  have "tm_window k2" if "arm_timer t tick k1 = Some k2" for k2
    using arm_window [OF k1(2) _ tick that suspend_window [OF k1(1) goodD(3) [OF g]]] k1(3) by simp
  then have "tm_window k'"
    using k'(1) k1(1) by (auto simp: sleep_for_eq bind_eq_Some_conv dest!: schedule_window)
  moreover have "tlists k' (Suspend i) = tlists k (Suspend i)" for i using waits_tlists [OF k'(5)] by simp
  ultimately have "good k' \<and> static k k'" using good_frame [OF g k'(2,4) _ k'(3)] by auto
  then show ?thesis using k'(1) ty calls_context(3) [OF c] runs_some [of k' k t "In_Sleep t"] by (simp add: rt_thread_sleep_def)
qed

lemma yield_runs:
  assumes g: "good k" and c: "thread_calls t k"
  shows "runs t k (enter_call Yield k)"
proof -
  have "kinv (upd_thread t slice_over k)" by (rule kinv_upd_same [OF goodD(1) [OF g]]) simp_all
  then have k1: "good (upd_thread t slice_over k)" "static k (upd_thread t slice_over k)" using upd_thread_good [OF g] by simp_all
  obtain k2 where k2: "rt_schedule (upd_thread t slice_over k) = Some k2" "good k2" "static (upd_thread t slice_over k) k2"
    using schedule_good [OF k1(1)] by blast
  have "static k k2" using k1(2) k2(3) by (rule static_trans)
  then show ?thesis using k2 calls_context(3) [OF c] by (simp add: rt_thread_yield_def runs_none)
qed

text \<open>Every call that is made as documented returns.\<close>

lemma enter_call_runs:
  assumes g: "good k" and c: "thread_calls t k" and ok: "call_ok s k"
  shows "runs t k (enter_call s k)"
proof (cases s)
  case (Mb_Send i v time)
  then show ?thesis
    using ok g calls_context(3) [OF c] mb_send_runs [OF g c, of i time v] by (simp add: rt_mb_send_wait_def ipc_live_def runs_none)
next
  case (Mb_Recv i time)
  then show ?thesis
    using ok g calls_context(3) [OF c] mb_recv_runs [OF g c, of i time] by (simp add: rt_mb_recv_def ipc_live_def runs_none)
next
  case (Mq_Send i buf time)
  then show ?thesis
    using ok g calls_context(3) [OF c] mq_send_runs [OF g c, of i time buf]
    by (simp add: rt_mq_send_wait_def ipc_live_def runs_none)
next
  case (Mq_Recv i n time)
  then show ?thesis
    using ok g calls_context(3) [OF c] mq_recv_runs [OF g c, of i time n] by (simp add: rt_mq_recv_def ipc_live_def runs_none)
qed (use ok g c sem_take_runs sem_release_runs sem_control_runs mb_control_runs mq_urgent_runs mq_control_runs sleep_runs yield_runs in
  \<open>simp_all del: enter_call.simps\<close>)

text \<open>So does the rest of a call that was interrupted by a suspension.\<close>

lemma finish_call_runs:
  assumes g: "good k" and c: "thread_calls t k" and x: "pend_ok t k x" "in_time x k"
  shows "runs t k (finish_call x k)"
proof (cases "(t, k, x)" rule: pend_ok.cases)
  case (2 t' k' u)
  have "kinv (clear_timeout u k)"
    unfolding clear_timeout_def by (rule kinv_upd_same [OF goodD(1) [OF g]]) (simp_all add: stack_check_def)
  then show ?thesis
    using 2 upd_thread_good [OF g] by (simp add: rt_thread_sleep_resumed_def clear_timeout_def runs_none)
next
  case (3 t' k' i v u time start)
  then show ?thesis
    using x g rest_time_ok mb_send_runs [OF g c, of i "rest_timeout time start k" v]
    by (simp add: rt_mb_send_wait_resumed_def runs_none)
next
  case (4 t' k' i u time start)
  then show ?thesis
    using x g rest_time_ok mb_recv_runs [OF g c, of i "rest_timeout time start k"] by (simp add: rt_mb_recv_resumed_def runs_none)
next
  case (5 t' k' i buf u time start)
  then show ?thesis
    using x g rest_time_ok mq_send_runs [OF g c, of i "rest_timeout time start k" buf]
    by (simp add: rt_mq_send_wait_resumed_def runs_none)
next
  case (6 t' k' i n u time start)
  then show ?thesis
    using x g rest_time_ok mq_recv_runs [OF g c, of i "rest_timeout time start k" n] by (simp add: rt_mq_recv_resumed_def runs_none)
qed (use g in \<open>simp add: runs_none\<close>)

section \<open>The clock interrupt\<close>

text \<open>Timer callbacks of the application must keep the objects in order, as the kernel's own calls do.\<close>

definition keeps :: "kernel \<Rightarrow> kernel \<Rightarrow> bool" where
  "keeps k k' \<longleftrightarrow> (objs_inv k \<longrightarrow> objs_inv k') \<and> static k k'"

definition callbacks_safe :: "callbacks \<Rightarrow> bool" where
  "callbacks_safe cb \<longleftrightarrow> callbacks_ok cb \<and> (\<forall>f p k k'. cb f p k = Some k' \<longrightarrow> keeps k k')"

lemma keeps_refl [simp]: "keeps k k"
  by (simp add: keeps_def)

lemma keeps_trans: "keeps k k' \<Longrightarrow> keeps k' k'' \<Longrightarrow> keeps k k''"
  using static_trans by (auto simp: keeps_def)

lemma quiet_keeps: "quiet k k' \<Longrightarrow> keeps k k'"
  using quiet_objs quiet_static by (simp add: keeps_def)

lemma quiet_upd [simp]:
  "quiet k (upd_thread t f k') = quiet k k'" "quiet (upd_thread t f k) k' = quiet k k'"
  "quiet k (tm_remove m k') = quiet k k'" "quiet (tm_remove m k) k' = quiet k k'"
  "quiet k (clear_flag m b k') = quiet k k'" "quiet (clear_flag m b k) k' = quiet k k'"
  "quiet k (set_flag m b k') = quiet k k'" "quiet k (upd_timer m g k') = quiet k k'"
  "quiet k (k'\<lparr>tmlists := x\<rparr>) = quiet k k'" "quiet (k\<lparr>rt_tick := n\<rparr>) k' = quiet k k'"
  "quiet k (k'\<lparr>rt_tick := n\<rparr>) = quiet k k'" "quiet k (k'\<lparr>rt_current_priority := p, cur := y\<rparr>) = quiet k k'"
  "quiet k (log_switch c t k') = quiet k k'" "quiet (k\<lparr>rt_current_priority := p, cur := y\<rparr>) k' = quiet k k'"
  "quiet k (timer_off m k') = quiet k k'" "quiet (timer_off m k) k' = quiet k k'"
  by (simp_all add: quiet_def upd_defs clear_flag_def set_flag_def log_switch_def timer_off_def)

lemma quiet_tl_remove: "quiet (tl_remove t k) k' \<Longrightarrow> quiet k k'"
  by (simp add: quiet_def upd_defs)

lemma insert_thread_quiet: "rt_schedule_insert_thread t k = Some k' \<Longrightarrow> quiet k k'"
  by (auto simp: rt_schedule_insert_thread_def quiet_def upd_defs Let_def split: if_splits)

lemma remove_thread_quiet: "rt_schedule_remove_thread t k = Some k' \<Longrightarrow> quiet k k'"
  by (auto simp: rt_schedule_remove_thread_def quiet_def upd_defs Let_def split: if_splits)

lemma schedule_switch_quiet:
  assumes "schedule_switch c t p ins k = Some k'"
  shows "quiet k k'"
  using assms
proof (rule schedule_switchE)
  fix k2 k3
  let ?k = "k\<lparr>rt_current_priority := of_nat p, cur := Some t\<rparr>"
  assume k: "(if ins then rt_schedule_insert_thread c ?k else Some ?k) = Some k2"
    "rt_schedule_remove_thread t k2 = Some k3" "k' = log_switch c t (upd_thread t (set_stat RT_THREAD_RUNNING) k3)"
  have "quiet ?k k2" using k(1) by (auto split: if_splits dest: insert_thread_quiet)
  then show "quiet k k'" using quiet_trans [OF _ remove_thread_quiet [OF k(2)]] unfolding k(3) by simp
qed

lemma schedule_quiet: "rt_schedule k = Some k' \<Longrightarrow> quiet k k'"
  unfolding rt_schedule_def Let_def
  by (auto simp: bind_eq_Some_conv split: if_splits dest!: schedule_switch_quiet remove_thread_quiet)

lemma resume_quiet: "rt_thread_resume t k = Some (e, k') \<Longrightarrow> quiet k k'"
  by (auto simp: rt_thread_resume_def Let_def bind_eq_Some_conv dest!: timer_stop_off insert_thread_quiet quiet_tl_remove split: if_splits)

lemma timeout_quiet:
  assumes "rt_thread_timeout t k = Some k'"
  shows "quiet k k'"
proof -
  let ?k = "upd_thread t (\<lambda>th. th\<lparr>t_error := - RT_ETIMEOUT\<rparr>) k"
  obtain k1 where "rt_schedule_insert_thread t (tl_remove t ?k) = Some k1" "rt_schedule k1 = Some k'"
    using assms by (auto simp: rt_thread_timeout_def Let_def bind_eq_Some_conv split: if_splits)
  then have "quiet (tl_remove t ?k) k'" using insert_thread_quiet schedule_quiet quiet_trans by blast
  then have "quiet ?k k'" by (rule quiet_tl_remove)
  then show ?thesis by simp
qed

lemma timer_link_quiet:
  assumes "timer_link t k = Some k'"
  shows "quiet k k'"
proof -
  have "init_tick (timers k t) < RT_TICK_HALF" using assms by (auto simp: timer_link_def Let_def split: if_splits)
  then show ?thesis using assms timer_link_eq [of k t] by (auto simp: Let_def)
qed

lemma timer_start_quiet: "rt_timer_start t k = Some (e, k') \<Longrightarrow> quiet k k'"
  by (auto simp: rt_timer_start_def bind_eq_Some_conv dest!: timer_link_quiet resume_quiet schedule_quiet split: if_splits
      intro: quiet_trans [OF quiet_trans])

lemma timer_again_quiet: "timer_again temp t k = Some k' \<Longrightarrow> quiet k k'"
  by (auto simp: timer_again_def Let_def bind_eq_Some_conv dest!: timer_start_quiet split: if_splits)

lemma timer_take_quiet: "quiet k (timer_take temp t k)"
  by (simp add: timer_take_def Let_def)

lemma timer_fire_keeps:
  assumes cb: "callbacks_safe cb" and k': "timer_fire cb t k = Some k'"
  shows "keeps k k'"
proof -
  have call: "keeps k1 k2" if "timeout_call cb fn k1 = Some k2" for fn k1 k2
    using that cb by (cases fn) (auto simp: callbacks_safe_def intro: quiet_keeps timeout_quiet)
  obtain k2 where "timeout_call cb (timeout_func (timers (timer_take HardTemp t k) t)) (timer_take HardTemp t k) = Some k2"
      "timer_again HardTemp t k2 = Some k'"
    using k' by (auto simp: timer_fire_def Let_def bind_eq_Some_conv)
  then show ?thesis
    using call quiet_keeps [OF timer_take_quiet] quiet_keeps [OF timer_again_quiet] by (blast intro: keeps_trans)
qed

lemma timer_loop_keeps: "timer_check_loop cb tick k = Some k' \<Longrightarrow> callbacks_safe cb \<longrightarrow> keeps k k'"
proof (erule timer_check_loop.raw_induct [rotated])
  fix f cb tick k k'
  assume IH: "\<And>cb tick k k'. f cb tick k = Some k' \<Longrightarrow> callbacks_safe cb \<longrightarrow> keeps k k'"
    and k': "(case tmlists k HardList of [] \<Rightarrow> Some k
      | t # _ \<Rightarrow> if timer_expired tick t k then do { k \<leftarrow> timer_fire cb t k; f cb (rt_tick k) k } else Some k) = Some k'"
  have "keeps k k'" if cb: "callbacks_safe cb"
    using k' cb by (auto simp: bind_eq_Some_conv split: list.splits if_splits dest!: IH timer_fire_keeps [OF cb] intro: keeps_trans)
  then show "callbacks_safe cb \<longrightarrow> keeps k k'" by blast
qed

text \<open>After the interrupt the list is seen from the new tick.\<close>

lemma tm_sorted_next:
  assumes s: "tm_sorted b tt ts" and e: "\<And>t. t \<in> set ts \<Longrightarrow> \<not> b + 1 - tt t < RT_TICK_HALF"
  shows "tm_sorted (b + 1) tt ts"
proof -
  have d: "tm_dist (b + 1) tt t = tm_dist b tt t - 1" "1 \<le> tm_dist b tt t" if "t \<in> set ts" for t
  proof -
    have "tm_dist b tt t < 0x7FFFFFFF" using s that by (simp add: tm_sorted_def)
    moreover have eq: "b + 1 - tt t = 1 - (tt t - b)" by simp
    ultimately have "1 < unat (tt t - b)"
      using e [OF that, unfolded eq] word_half_compare(1) [of 1 "tt t - b"] by (simp add: tm_dist_def)
    then have "tt t - b \<noteq> 0" "1 \<le> unat (tt t - b)" by (metis not_less_zero unat_0, simp)
    moreover have "tt t - (b + 1) = tt t - b - 1" by simp
    ultimately show "tm_dist (b + 1) tt t = tm_dist b tt t - 1" "1 \<le> tm_dist b tt t"
      unfolding tm_dist_def using unat_minus_one [of "tt t - b"] by metis+
  qed
  have eq: "map (tm_dist (b + 1) tt) ts = map (\<lambda>t. tm_dist b tt t - 1) ts" using d(1) by simp
  have "sorted (map (tm_dist (b + 1) tt) ts)"
    unfolding eq using s unfolding tm_sorted_def sorted_map by (auto elim!: sorted_wrt_mono_rel [rotated])
  moreover have "\<forall>t\<in>set ts. tm_dist (b + 1) tt t < 0x7FFFFFFF" using s d(1) by (auto simp: tm_sorted_def intro: le_less_trans)
  ultimately show ?thesis unfolding tm_sorted_def by simp
qed

lemma tick_good:
  assumes cb: "callbacks_safe cb" and g: "good k"
  shows "\<exists>k'. rt_tick_increase cb k = Some k' \<and> good k' \<and> static k k'"
proof -
  let ?k = "k\<lparr>rt_tick := rt_tick k + 1\<rparr>"
  note w = goodD(3) [OF g, unfolded tm_window_def]
  obtain t where t: "cur ?k = Some t" using goodD(2) [OF g] by auto
  let ?k1 = "upd_thread t (\<lambda>th. th\<lparr>remaining_tick := remaining_tick th - 1\<rparr>) ?k"
  have inv1: "kinv ?k1" using goodD(1) [OF g] kinv_tick by (intro kinv_upd_same) (simp_all add: stack_check_def)
  have "kinv (upd_thread t slice_over ?k1)" by (rule kinv_upd_same [OF inv1]) simp_all
  then have "\<exists>k2. (if remaining_tick (threads ?k1 t) = 0 then rt_schedule (upd_thread t slice_over ?k1) else Some ?k1) = Some k2 \<and>
      kinv k2 \<and> cur k2 \<noteq> None \<and> sched_only ?k k2 \<and> quiet ?k k2"
    using inv1 t rt_schedule_kinv [of "upd_thread t slice_over ?k1"] schedule_quiet [of "upd_thread t slice_over ?k1"] by auto
  then obtain k2 where k2: "(if remaining_tick (threads ?k1 t) = 0 then rt_schedule (upd_thread t slice_over ?k1) else Some ?k1) = Some k2"
      "kinv k2" "cur k2 \<noteq> None" "sched_only ?k k2" "quiet ?k k2" by blast
  note f = sched_onlyD [OF k2(4)]
  have pre: "check_pre (rt_tick k) k2"
    using k2(2,3) f w by (auto simp: check_pre_def timer_flag_defs)
  have eq: "k2\<lparr>tmlists := (tmlists k2)(HardTemp := [])\<rparr> = k2" using check_preD(3) [OF pre] by (simp add: fun_upd_idem)
  have cb': "callbacks_ok cb" using cb by (simp add: callbacks_safe_def)
  obtain k3 where k3: "timer_check_loop cb (rt_tick k2) k2 = Some k3" "check_pre (rt_tick k) k3" "rt_tick k3 = rt_tick k2"
      "expired_set k3 = {}"
    using timer_check_loop_ok [OF cb' pre] by blast
  have "rt_tick_increase cb k = Some k3"
    using t k2(1) k3(1) eq unfolding rt_tick_increase_def by (simp add: rt_thread_self_def rt_timer_check_def Let_def)
  moreover have tick: "rt_tick k3 = rt_tick k + 1" using k3(3) f by simp
  have "tm_sorted (rt_tick k + 1) (tticks k3) (tmlists k3 HardList)"
    using k3(4) tick by (intro tm_sorted_next [OF check_preD(4) [OF k3(2)]]) (auto simp: expired_set_def timer_expired_def)
  moreover have "unat (init_tick (timers k3 x)) < 0x7FFFFFFE" if "x \<in> set (tmlists k3 HardList)" for x
    using check_preD(5) [OF k3(2) that] tick by simp
  ultimately have "tm_window k3" using check_preD(3,6) [OF k3(2)] tick by (auto simp: tm_window_def)
  moreover have "keeps k k3"
    using timer_loop_keeps [OF k3(1)] cb quiet_keeps [of k k2] k2(5) by (auto intro: keeps_trans)
  ultimately show ?thesis
    using \<open>rt_tick_increase cb k = Some k3\<close> check_preD(1,2) [OF k3(2)] goodD(4) [OF g] by (auto simp: good_def keeps_def)
qed

lemma nest_good: "good (k\<lparr>interrupt_nest := n\<rparr>) = good k"
proof -
  let ?k = "k\<lparr>interrupt_nest := n\<rparr>"
  have "kinv ?k = kinv k" "tm_window ?k = tm_window k" by (rule kinv_data; simp) (rule tm_window_cong; simp)
  moreover have "ipc_live c i ?k = ipc_live c i k" for c i by (simp add: ipc_live_def ipc_flag_def rt_object_get_type_def)
  ultimately show ?thesis by (simp add: good_def objs_inv_def sem_ok_def)
qed

lemma clock_good:
  assumes cb: "callbacks_safe cb" and g: "good k"
  shows "\<exists>k'. SysTick_Handler cb k = Some k' \<and> good k' \<and> static k k'"
proof -
  have "good (rt_interrupt_enter k)" using g nest_good by (simp add: rt_interrupt_enter_def)
  from tick_good [OF cb this] obtain k1 where k1: "rt_tick_increase cb (rt_interrupt_enter k) = Some k1" "good k1"
      "static (rt_interrupt_enter k) k1" by blast
  have "good (rt_interrupt_leave k1)" using k1(2) nest_good by (simp add: rt_interrupt_leave_def)
  moreover have "static k (rt_interrupt_leave k1)"
    using k1(3) by (simp add: static_def rt_interrupt_enter_def rt_interrupt_leave_def ipc_live_def ipc_flag_def rt_object_get_type_def)
  ultimately show ?thesis using k1(1) by (simp add: SysTick_Handler_def)
qed

section \<open>The invariant of the system\<close>

definition system_inv :: "system \<Rightarrow> bool" where
  "system_inv s \<longleftrightarrow> good (fst s) \<and> (\<forall>t x. snd s t = Some x \<longrightarrow> pend_ok t (fst s) x)"

lemma runs_system:
  assumes r: "runs t k (Some (p, k'))" and s: "system_inv (k, pend)"
  shows "system_inv (k', pend(t := p))"
  using r s pend_ok_static [of k k'] by (auto simp: runs_def system_inv_def)

lemma system_step_inv:
  assumes "system_step cb s s'" "callbacks_safe cb" "system_inv s"
  shows "system_inv s'"
  using assms(1)
proof cases
  case (call t k pend c p k')
  have "runs t k (enter_call c k)" using enter_call_runs [OF _ call(3,5)] assms(3) call(1) by (simp add: system_inv_def)
  then show ?thesis using runs_system [of t k p k' pend] assms(3) call by simp
next
  case (finish t k pend x p k')
  have "runs t k (finish_call x k)"
    using finish_call_runs [OF _ finish(3) _ finish(5)] assms(3) finish(1,4) by (simp add: system_inv_def)
  then show ?thesis using runs_system [of t k p k' pend] assms(3) finish by simp
next
  case (clock k k' pend)
  obtain k1 where "SysTick_Handler cb k = Some k1" "good k1" "static k k1"
    using clock_good [OF assms(2), of k] assms(3) clock(1) by (auto simp: system_inv_def)
  then show ?thesis using clock assms(3) pend_ok_static [of k k'] by (simp add: system_inv_def)
qed

lemma system_reach_inv:
  assumes "(system_step cb)\<^sup>*\<^sup>* s s'" "callbacks_safe cb" "system_inv s"
  shows "system_inv s'"
  using assms(1,3) by induction (auto intro: system_step_inv [OF _ assms(2)])

lemma callbacks_safe_skip: "callbacks_safe (\<lambda>f p k. Some k)"
  by (simp add: callbacks_safe_def callbacks_ok_skip)

section \<open>Properties\<close>

text \<open>
  C1: The kernel never gets stuck. From a state that satisfies the system invariant let threads make any
  documented calls of semaphores, mailboxes, message queues, sleep and yield, be suspended in them and continue them, with the scheduler
  deciding who runs, and let the clock interrupt come at any time. In every state that can be reached the
  invariant of the scheduler, the timers and all objects holds, and every next step returns: any documented call of the running
  thread, the rest of a call in which it was suspended, and the clock interrupt. No assertion fails, no loop
  runs forever, no memory outside an object is touched.
\<close>

theorem system_never_stuck:
  assumes cb: "callbacks_safe cb" and s: "system_inv s" and r: "(system_step cb)\<^sup>*\<^sup>* s (k, pend)"
  shows "kinv k \<and> objs_inv k \<and> tm_window k \<and> SysTick_Handler cb k \<noteq> None \<and>
    (\<forall>t. thread_calls t k \<longrightarrow>
      (case pend t of None \<Rightarrow> \<forall>c. call_ok c k \<longrightarrow> enter_call c k \<noteq> None
       | Some x \<Rightarrow> in_time x k \<longrightarrow> finish_call x k \<noteq> None))"
proof -
  have inv: "system_inv (k, pend)" by (rule system_reach_inv [OF r cb s])
  then have g: "good k" by (simp add: system_inv_def)
  have "enter_call c k \<noteq> None" if "thread_calls t k" "call_ok c k" for t c
    using enter_call_runs [OF g that] by (auto simp: runs_def)
  moreover have "finish_call x k \<noteq> None" if "thread_calls t k" "pend t = Some x" "in_time x k" for t x
    using finish_call_runs [OF g that(1) _ that(3)] inv that(2) by (auto simp: runs_def system_inv_def)
  ultimately show ?thesis using clock_good [OF cb g] goodD(1,3,4) [OF g] by (auto split: option.split)
qed

lemma demo_system: "system_inv (demo_mb, Map.empty)"
proof -
  have "tm_window demo_mb"
    by (simp add: tm_window_def demo_mb_def tm_sorted_def tm_dist_def timer_flag_defs demo_ipc_def zero_object_def)
  moreover have "objs_inv demo_mb"
    using demo_mb_facts(2,5) by (auto simp: objs_inv_def ipc_live_def)
  ultimately show ?thesis using demo_mb_facts(1,4) by (simp add: system_inv_def good_def)
qed

theorem system_never_stuck_witness:
  "\<exists>p k'. enter_call (Mb_Send 0 5 0) demo_mb = Some (p, k') \<and> kinv k' \<and> SysTick_Handler (\<lambda>f p k. Some k) k' \<noteq> None"
proof -
  let ?cb = "\<lambda>f p k. Some k :: kernel option"
  have ok: "call_ok (Mb_Send 0 5 0) demo_mb" using demo_mb_facts(2) by (simp add: time_ok_def)
  have "good demo_mb" using demo_system by (simp add: system_inv_def)
  then obtain p k' where k': "enter_call (Mb_Send 0 5 0) demo_mb = Some (p, k')"
    using enter_call_runs [OF _ demo_mb_facts(3) ok] by (auto simp: runs_def)
  then have "system_step ?cb (demo_mb, Map.empty) (k', Map.empty(0 := p))"
    using system_step.call [OF demo_mb_facts(3) _ ok] by simp
  then show ?thesis using k' system_never_stuck [OF callbacks_safe_skip demo_system r_into_rtranclp] by blast
qed

end
