(* ===== verification/RT_Park.thy ===== *)
theory RT_Park
  imports RT_Waiting
begin

text \<open>
  Waiting outside \<open>ipc.c\<close>: memory pools, completions and data queues suspend the calling thread and link it into a list of their own
  with \<open>rt_list_insert_after\<close> (at the front) or \<open>rt_list_insert_before\<close> (at the end), without a queueing flag.
\<close>

section \<open>Operations\<close>

definition lifo_insert :: "(tid \<Rightarrow> u8) \<Rightarrow> tid \<Rightarrow> tid list \<Rightarrow> tid list" where
  "lifo_insert pr t ts = t # ts"

text \<open>\<open>rt_thread_suspend\<close>, the insertion, the timer and \<open>rt_schedule\<close>.\<close>

definition park :: "((tid \<Rightarrow> u8) \<Rightarrow> tid \<Rightarrow> tid list \<Rightarrow> tid list) \<Rightarrow> lid \<Rightarrow> tid \<Rightarrow> u32 \<Rightarrow> kernel \<Rightarrow> kernel option" where
  "park ins l t time k =
    do {
      (_, k) \<leftarrow> rt_thread_suspend t k;
      give_away t time (k\<lparr>tlists := (tlists k)(l := ins (prio_of k) t (tlists k l))\<rparr>)
    }"

text \<open>\<open>rt_thread_resume\<close> of the first thread of the list and \<open>rt_schedule\<close>, or nothing on an empty list.\<close>

definition unpark :: "lid \<Rightarrow> kernel \<Rightarrow> kernel option" where
  "unpark l k =
    (case tlists k l of
       [] \<Rightarrow> Some k
     | t # _ \<Rightarrow> do { (_, k) \<leftarrow> rt_thread_resume t k; rt_schedule k })"

section \<open>Facts\<close>

interpretation lifo: wait_order lifo_insert
  by unfold_locales (metis append_Nil lifo_insert_def)

text \<open>What parking does, for every order of the waiting list.\<close>

context wait_order
begin

lemma park_ok:
  assumes inv: "kinv k" and c: "thread_calls t k" and l: "l = Suspend i \<or> l = Sender i" and time: "sint time < 0x7FFFFFFF"
  shows "\<exists>k'. park ins l t time (set_error t RT_EOK k) = Some k' \<and> kinv k' \<and> data_frame k k' \<and> cur k' \<noteq> None \<and>
    stat_of (threads k' t) = RT_THREAD_SUSPEND \<and> t_error (threads k' t) = RT_EOK \<and>
    tlists k' l = ins (prio_of k) t (tlists k l) \<and> (\<forall>m. m \<noteq> l \<and> (\<forall>p. m \<noteq> Ready p) \<longrightarrow> tlists k' m = tlists k m) \<and>
    (\<forall>u. u \<noteq> t \<longrightarrow> t_error (threads k' u) = t_error (threads k u)) \<and>
    (0 < sint time \<longrightarrow> ThreadTimer t \<in> set (tmlists k' HardList) \<and> tticks k' (ThreadTimer t) = rt_tick k + time)"
proof -
  let ?k = "set_error t RT_EOK k"
  have c': "cur ?k = Some t" "stat_of (threads ?k t) = RT_THREAD_RUNNING" using c by (simp_all add: thread_calls_def)
  obtain k1 where k1: "rt_thread_suspend t ?k = Some (RT_EOK, k1)" "kinv k1"
    "threads k1 = (threads ?k)(t := set_stat RT_THREAD_SUSPEND (threads ?k t))" "cur k1 = cur ?k"
    "waits k1 = waits ?k" "data_frame ?k k1" "\<And>l. t \<notin> set (tlists k1 l)" "\<not> timer_activated (ThreadTimer t) k1"
    using thread_suspend_ok [OF kinv_set_error [OF inv]] c'(2) by metis
  have pr: "prio_of k1 = prio_of k" using k1(3) by auto
  have w: "tlists k1 m = tlists k m" if "\<forall>p. m \<noteq> Ready p" for m using waits_tlists [OF k1(5) that] by simp
  let ?k2 = "k1\<lparr>tlists := (tlists k1)(l := ins (prio_of k1) t (tlists k1 l))\<rparr>"
  have st: "stat_of (threads ?k2 t) = RT_THREAD_SUSPEND" using k1(3) by simp
  have i2: "kinv ?k2" using kinv_ins [OF k1(2) _ k1(7) l] k1(3) by simp
  have c2: "cur ?k2 = Some t" using k1(4) c'(1) by simp
  obtain k3 where k3: "give_away t time ?k2 = Some k3" "kinv k3" "data_frame ?k2 k3" "cur k3 \<noteq> None" "same_threads ?k2 k3"
      "waits k3 = waits ?k2"
      "0 < sint time \<longrightarrow> ThreadTimer t \<in> set (tmlists k3 HardList) \<and> tticks k3 (ThreadTimer t) = rt_tick ?k2 + time"
    using give_away_ok [OF i2 c2 st time] by blast
  have "data_frame k1 ?k2" by (simp add: data_frame_def rt_object_get_type_def rt_object_is_systemobject_def)
  then have df: "data_frame k k3"
    using set_error_frame(4) k1(6) k3(3) by (meson data_frame_trans)
  have w3: "tlists k3 m = tlists ?k2 m" if "\<forall>p. m \<noteq> Ready p" for m using waits_tlists [OF k3(6) that] .
  have e: "t_error (threads k3 u) = t_error (threads ?k2 u)" for u
    using only_stat_error(1) [OF same_threadsD(3) [OF k3(5), of u]] .
  have "tlists k3 l = ins (prio_of k) t (tlists k l)" using w3 [of l] w [of l] l pr by auto
  moreover have "tlists k3 m = tlists k m" if "m \<noteq> l" "\<forall>p. m \<noteq> Ready p" for m using w3 [OF that(2)] w [OF that(2)] that(1) by simp
  moreover have "stat_of (threads k3 t) = RT_THREAD_SUSPEND" using same_threadsD(2) [OF k3(5), of t] st by simp
  moreover have "park ins l t time ?k = Some k3" using k1(1) k3(1) by (simp add: park_def)
  moreover have "rt_tick ?k2 = rt_tick k" using data_frameD(4) [OF k1(6)] by simp
  ultimately show ?thesis using k3(2,4,7) df e k1(3) by (intro exI [of _ k3]) auto
qed

end

lemma unpark_wake: "unpark l k = wake_first l k"
  by (cases "tlists k l") (auto simp: unpark_def wake_first_def rt_ipc_list_resume_def split: Option.bind_splits)

end
