(* ===== verification/RT_Mempool.thy ===== *)
theory RT_Mempool
  imports RT_Park
begin

text \<open>
  Memory pools, \<open>src/mempool.c\<close>: blocks of one size, each behind a word that links the free blocks and, in an allocated block,
  points to the pool. Pools are named by identifiers of kernel objects, their waiting threads are the list \<open>Suspend i\<close>. A word is
  either a link or a pointer to a pool; reading the one as the other is \<open>None\<close>. As in \<open>ipc.c\<close>, \<open>rt_mp_alloc\<close> is cut at
  \<open>rt_schedule\<close>. The global variable that \<open>rt_set_errno\<close> writes outside threads is not part of the state.
\<close>

section \<open>Operations\<close>

record rt_mempool =
  start_address :: u32
  mp_size :: u32
  block_size :: u32
  block_list :: u32
  block_total_count :: u32
  block_free_count :: u32

datatype mp_word = Link u32 | Pool nat

record mp_state =
  pools :: "nat \<Rightarrow> rt_mempool"
  words :: "u32 \<Rightarrow> mp_word"

definition upd_pool :: "nat \<Rightarrow> (rt_mempool \<Rightarrow> rt_mempool) \<Rightarrow> mp_state \<Rightarrow> mp_state" where
  "upd_pool i f s = s\<lparr>pools := (pools s)(i := f (pools s i))\<rparr>"

definition rt_set_errno :: "rt_err_t \<Rightarrow> kernel \<Rightarrow> kernel" where
  "rt_set_errno e k =
    (if interrupt_nest k \<noteq> 0 then k else case rt_thread_self k of None \<Rightarrow> k | Some t \<Rightarrow> set_error t e k)"

text \<open>The distance of two blocks.\<close>

abbreviation stride :: "rt_mempool \<Rightarrow> u32" where
  "stride p \<equiv> block_size p + 4"

fun link_blocks :: "u32 \<Rightarrow> u32 \<Rightarrow> nat \<Rightarrow> (u32 \<Rightarrow> mp_word) \<Rightarrow> (u32 \<Rightarrow> mp_word)" where
  "link_blocks block_ptr st 0 w = w"
| "link_blocks block_ptr st (Suc offset) w =
    (link_blocks block_ptr st offset w)(block_ptr + word_of_nat offset * st := Link (block_ptr + (word_of_nat offset + 1) * st))"

text \<open>The initial free list; without a block the last assignment writes before the pool.\<close>

definition mp_free_init :: "nat \<Rightarrow> mp_state \<Rightarrow> mp_state option" where
  "mp_free_init i s =
    (let p = pools s i;
         w = link_blocks (start_address p) (stride p) (unat (block_total_count p)) (words s)
     in do {
       RT_ASSERT (block_total_count p \<noteq> 0);
       Some (upd_pool i (\<lambda>p. p\<lparr>block_list := start_address p\<rparr>)
         (s\<lparr>words := w(start_address p + (block_total_count p - 1) * stride p := Link 0)\<rparr>))
     })"

definition rt_mp_init :: "nat \<Rightarrow> string \<Rightarrow> u32 \<Rightarrow> u32 \<Rightarrow> u32 \<Rightarrow> mp_state \<times> kernel \<Rightarrow> (rt_err_t \<times> mp_state \<times> kernel) option" where
  "rt_mp_init i nam start sz bsz sk =
    (case sk of (s, k) \<Rightarrow>
       do {
         RT_ASSERT (start \<noteq> 0);
         RT_ASSERT (0 < sz \<and> 0 < bsz);
         k \<leftarrow> rt_object_init (OIpc i) Class_MemPool nam k;
         let s = upd_pool i (\<lambda>p. p\<lparr>start_address := start, mp_size := RT_ALIGN_DOWN sz 4, block_size := RT_ALIGN bsz 4\<rparr>) s;
         let s = upd_pool i (\<lambda>p. p\<lparr>block_total_count := mp_size p div stride p\<rparr>) s;
         let s = upd_pool i (\<lambda>p. p\<lparr>block_free_count := block_total_count p\<rparr>) s;
         let k = k\<lparr>tlists := (tlists k)(Suspend i := [])\<rparr>;
         s \<leftarrow> mp_free_init i s;
         Some (RT_EOK, s, k)
       })"

definition rt_mp_detach :: "nat \<Rightarrow> mp_state \<times> kernel \<Rightarrow> (rt_err_t \<times> mp_state \<times> kernel) option" where
  "rt_mp_detach i sk =
    (case sk of (s, k) \<Rightarrow>
       do {
         RT_ASSERT (rt_object_get_type (OIpc i) k = Class_MemPool);
         RT_ASSERT (rt_object_is_systemobject (OIpc i) k);
         k \<leftarrow> rt_ipc_list_resume_all (Suspend i) k;
         Some (RT_EOK, s, rt_object_detach (OIpc i) k)
       })"

text \<open>\<open>mem\<close> and \<open>start\<close> are what the two allocations return.\<close>

definition rt_mp_create ::
  "nat option \<Rightarrow> u32 \<Rightarrow> string \<Rightarrow> u32 \<Rightarrow> u32 \<Rightarrow> mp_state \<times> kernel \<Rightarrow> (nat option \<times> mp_state \<times> kernel) option" where
  "rt_mp_create mem start nam block_count bsz sk =
    (case sk of (s, k) \<Rightarrow>
       do {
         RT_ASSERT (not_in_interrupt k);
         RT_ASSERT (0 < block_count \<and> 0 < bsz);
         (_, k) \<leftarrow> rt_object_allocate (map_option OIpc mem) Class_MemPool nam k;
         case mem of
           None \<Rightarrow> Some (None, s, k)
         | Some i \<Rightarrow>
             do {
               let bsz = RT_ALIGN bsz 4;
               let s = upd_pool i (\<lambda>p. p\<lparr>block_size := bsz, mp_size := (bsz + 4) * block_count, start_address := start\<rparr>) s;
               if start = 0 then do { k \<leftarrow> rt_object_delete (OIpc i) k; Some (None, s, k) }
               else do {
                 let s = upd_pool i (\<lambda>p. p\<lparr>block_total_count := block_count, block_free_count := block_count\<rparr>) s;
                 let k = k\<lparr>tlists := (tlists k)(Suspend i := [])\<rparr>;
                 s \<leftarrow> mp_free_init i s;
                 Some (Some i, s, k)
               }
             }
       })"

definition rt_mp_delete :: "nat \<Rightarrow> mp_state \<times> kernel \<Rightarrow> (rt_err_t \<times> mp_state \<times> kernel) option" where
  "rt_mp_delete i sk =
    (case sk of (s, k) \<Rightarrow>
       do {
         RT_ASSERT (not_in_interrupt k);
         RT_ASSERT (rt_object_get_type (OIpc i) k = Class_MemPool);
         RT_ASSERT (\<not> rt_object_is_systemobject (OIpc i) k);
         k \<leftarrow> rt_ipc_list_resume_all (Suspend i) k;
         k \<leftarrow> rt_object_delete (OIpc i) k;
         Some (RT_EOK, s, k)
       })"

text \<open>Taking the first block of the free list.\<close>

definition mp_take :: "nat \<Rightarrow> mp_state \<Rightarrow> (u32 \<times> mp_state) option" where
  "mp_take i s =
    (let s = upd_pool i (\<lambda>p. p\<lparr>block_free_count := block_free_count p - 1\<rparr>) s;
         block_ptr = block_list (pools s i)
     in do {
       RT_ASSERT (block_ptr \<noteq> 0);
       next \<leftarrow> (case words s block_ptr of Link n \<Rightarrow> Some n | Pool _ \<Rightarrow> None);
       let s = upd_pool i (\<lambda>p. p\<lparr>block_list := next\<rparr>) s;
       Some (block_ptr + 4, s\<lparr>words := (words s)(block_ptr := Pool i)\<rparr>)
     })"

text \<open>The code of \<open>rt_mp_alloc\<close> from the loop on.\<close>

definition mp_alloc_loop ::
  "nat \<Rightarrow> tid option \<Rightarrow> u32 \<Rightarrow> mp_state \<times> kernel \<Rightarrow> ((u32, tid \<times> u32 \<times> u32) call \<times> mp_state \<times> kernel) option" where
  "mp_alloc_loop i thread time sk =
    (case sk of (s, k) \<Rightarrow>
       if block_free_count (pools s i) = 0 then
         if time = 0 then Some (Returned 0, s, rt_set_errno (- RT_ETIMEOUT) k)
         else do {
           RT_ASSERT (not_in_interrupt k);
           t \<leftarrow> thread;
           k' \<leftarrow> park lifo_insert (Suspend i) t time (set_error t RT_EOK k);
           Some (Suspended (t, time, rt_tick k), s, k')
         }
       else do {
         (b, s) \<leftarrow> mp_take i s;
         Some (Returned b, s, k)
       })"

definition rt_mp_alloc ::
  "nat \<Rightarrow> u32 \<Rightarrow> mp_state \<times> kernel \<Rightarrow> ((u32, tid \<times> u32 \<times> u32) call \<times> mp_state \<times> kernel) option" where
  "rt_mp_alloc i time sk = mp_alloc_loop i (rt_thread_self (snd sk)) time sk"

definition rt_mp_alloc_resumed ::
  "nat \<Rightarrow> tid \<times> u32 \<times> u32 \<Rightarrow> mp_state \<times> kernel \<Rightarrow> ((u32, tid \<times> u32 \<times> u32) call \<times> mp_state \<times> kernel) option" where
  "rt_mp_alloc_resumed i p sk =
    (case (p, sk) of ((t, time, before_sleep), s, k) \<Rightarrow>
       if t_error (threads k t) \<noteq> RT_EOK then Some (Returned 0, s, k)
       else mp_alloc_loop i (Some t) (rest_timeout time before_sleep k) (s, k))"

text \<open>Linking a block into the free list of its pool.\<close>

definition mp_give :: "nat \<Rightarrow> u32 \<Rightarrow> mp_state \<Rightarrow> mp_state" where
  "mp_give i block_ptr s =
    (let s = upd_pool i (\<lambda>p. p\<lparr>block_free_count := block_free_count p + 1\<rparr>) s;
         s = s\<lparr>words := (words s)(block_ptr := Link (block_list (pools s i)))\<rparr>
     in upd_pool i (\<lambda>p. p\<lparr>block_list := block_ptr\<rparr>) s)"

definition rt_mp_free :: "u32 \<Rightarrow> mp_state \<times> kernel \<Rightarrow> (mp_state \<times> kernel) option" where
  "rt_mp_free block sk =
    (case sk of (s, k) \<Rightarrow>
       if block = 0 then Some (s, k)
       else case words s (block - 4) of
         Link _ \<Rightarrow> None
       | Pool i \<Rightarrow>
           do {
             let s = mp_give i (block - 4) s;
             case tlists k (Suspend i) of
               [] \<Rightarrow> Some (s, k)
             | t # _ \<Rightarrow>
                 do {
                   (_, k) \<leftarrow> rt_thread_resume t (set_error t RT_EOK k);
                   k \<leftarrow> rt_schedule k;
                   Some (s, k)
                 }
           })"

section \<open>The free list\<close>

fun mp_chain :: "(u32 \<Rightarrow> mp_word) \<Rightarrow> u32 \<Rightarrow> u32 list \<Rightarrow> bool" where
  "mp_chain w a [] \<longleftrightarrow> a = 0"
| "mp_chain w a (b # bs) \<longleftrightarrow> a = b \<and> (case w b of Link n \<Rightarrow> mp_chain w n bs | Pool _ \<Rightarrow> False)"

text \<open>The addresses of the blocks of a pool, each that of the word before the data.\<close>

definition mp_blocks :: "rt_mempool \<Rightarrow> u32 list" where
  "mp_blocks p = map (\<lambda>j. start_address p + word_of_nat j * stride p) [0..<unat (block_total_count p)]"

text \<open>The pool lies within the address space and its free blocks are \<open>fs\<close>; all others belong to the pool.\<close>

definition mp_rep :: "nat \<Rightarrow> mp_state \<Rightarrow> u32 list \<Rightarrow> bool" where
  "mp_rep i s fs \<longleftrightarrow>
    (let p = pools s i in
     start_address p \<noteq> 0 \<and> unat (block_size p) + 4 < 2 ^ 32 \<and>
     unat (start_address p) + unat (block_total_count p) * (unat (block_size p) + 4) \<le> 2 ^ 32 \<and>
     mp_chain (words s) (block_list p) fs \<and> distinct fs \<and> set fs \<subseteq> set (mp_blocks p) \<and> length fs = unat (block_free_count p) \<and>
     (\<forall>b\<in>set (mp_blocks p) - set fs. words s b = Pool i))"

definition mp_allocated :: "nat \<Rightarrow> mp_state \<Rightarrow> u32 list \<Rightarrow> u32 set" where
  "mp_allocated i s fs = set (mp_blocks (pools s i)) - set fs"

lemma mp_chain_cong: "\<forall>b\<in>set bs. w' b = w b \<Longrightarrow> mp_chain w' a bs = mp_chain w a bs"
  by (induction bs arbitrary: a) (auto split: mp_word.splits)

lemma upd_pool_sel [simp]: "pools (upd_pool i f s) = (pools s)(i := f (pools s i))" "words (upd_pool i f s) = words s"
  by (simp_all add: upd_pool_def)

lemma mp_blocks_cong: "start_address p' = start_address p \<Longrightarrow> block_size p' = block_size p \<Longrightarrow> block_total_count p' = block_total_count p \<Longrightarrow>
    mp_blocks p' = mp_blocks p"
  by (simp add: mp_blocks_def)

text \<open>Distances inside a pool do not wrap around.\<close>

lemma block_address:
  fixes a st :: u32
  assumes "unat a + n * unat st \<le> 2 ^ 32" "j < n" "0 < unat st"
  shows "unat (a + word_of_nat j * st) = unat a + j * unat st"
proof -
  have "j * unat st + unat st \<le> n * unat st" using assms(2) by (metis Suc_leI add.commute mult_Suc mult_le_mono1)
  then have lt: "unat a + j * unat st < 2 ^ 32" using assms(1,3) by linarith
  have "j \<le> j * unat st" using assms(3) by simp
  then have "j < 2 ^ 32" using lt by linarith
  then have "unat (word_of_nat j :: u32) = j" by (simp add: unsigned_of_nat take_bit_nat_eq_self)
  then show ?thesis using lt by (simp add: unat_word_ariths)
qed

lemma unat_stride: "unat (block_size p) + 4 < 2 ^ 32 \<Longrightarrow> unat (stride p) = unat (block_size p) + 4"
  by (simp add: unat_word_ariths)

lemma mp_blocks_nth:
  assumes "unat (start_address p) + unat (block_total_count p) * (unat (block_size p) + 4) \<le> 2 ^ 32" "unat (block_size p) + 4 < 2 ^ 32"
    "j < unat (block_total_count p)"
  shows "unat (mp_blocks p ! j) = unat (start_address p) + j * (unat (block_size p) + 4)"
  using block_address [of "start_address p" "unat (block_total_count p)" "stride p" j] assms unat_stride [OF assms(2)]
  by (simp add: mp_blocks_def)

lemma mp_blocks_facts:
  assumes "unat (start_address p) + unat (block_total_count p) * (unat (block_size p) + 4) \<le> 2 ^ 32" "unat (block_size p) + 4 < 2 ^ 32"
  shows "distinct (mp_blocks p)" "b \<in> set (mp_blocks p) \<Longrightarrow> start_address p \<le> b"
    "b \<in> set (mp_blocks p) \<Longrightarrow> c \<in> set (mp_blocks p) \<Longrightarrow> b \<noteq> c \<Longrightarrow>
      unat b + (unat (block_size p) + 4) \<le> unat c \<or> unat c + (unat (block_size p) + 4) \<le> unat b"
    "b \<in> set (mp_blocks p) \<Longrightarrow> unat b + (unat (block_size p) + 4) \<le> 2 ^ 32"
proof -
  let ?n = "unat (block_total_count p)" and ?st = "unat (block_size p) + 4"
  have len: "length (mp_blocks p) = ?n" by (simp add: mp_blocks_def)
  have step: "i * ?st + ?st \<le> j * ?st" if "i < j" for i j using that by (metis Suc_leI add.commute mult_Suc mult_le_mono1)
  have ap: "unat (mp_blocks p ! i) + ?st \<le> unat (mp_blocks p ! j)" if "i < j" "j < ?n" for i j
    using mp_blocks_nth [OF assms, of i] mp_blocks_nth [OF assms, of j] step [OF that(1)] that by simp
  show "distinct (mp_blocks p)"
  proof (unfold distinct_conv_nth len, intro allI impI)
    fix i j assume ij: "i < ?n" "j < ?n" "i \<noteq> j"
    then consider "i < j" | "j < i" by linarith
    then show "mp_blocks p ! i \<noteq> mp_blocks p ! j" using ap [of i j] ap [of j i] ij by cases auto
  qed
  show "start_address p \<le> b" if "b \<in> set (mp_blocks p)"
    using that mp_blocks_nth [OF assms] len by (fastforce simp: in_set_conv_nth word_le_nat_alt)
  show "unat b + ?st \<le> unat c \<or> unat c + ?st \<le> unat b" if bc: "b \<in> set (mp_blocks p)" "c \<in> set (mp_blocks p)" "b \<noteq> c"
  proof -
    obtain i j where "i < ?n" "mp_blocks p ! i = b" "j < ?n" "mp_blocks p ! j = c" using bc len by (auto simp: in_set_conv_nth)
    then show ?thesis using ap [of i j] ap [of j i] bc(3) by (metis linorder_neqE_nat)
  qed
  show "unat b + ?st \<le> 2 ^ 32" if b: "b \<in> set (mp_blocks p)"
  proof -
    obtain i where i: "i < ?n" "mp_blocks p ! i = b" using b len by (auto simp: in_set_conv_nth)
    then show ?thesis using mp_blocks_nth [OF assms i(1)] step [OF i(1)] assms(1) by simp
  qed
qed

lemma mp_repD:
  assumes "mp_rep i s fs"
  shows "start_address (pools s i) \<noteq> 0" "unat (block_size (pools s i)) + 4 < 2 ^ 32"
    "unat (start_address (pools s i)) + unat (block_total_count (pools s i)) * (unat (block_size (pools s i)) + 4) \<le> 2 ^ 32"
    "mp_chain (words s) (block_list (pools s i)) fs" "distinct fs" "set fs \<subseteq> set (mp_blocks (pools s i))"
    "length fs = unat (block_free_count (pools s i))" "b \<in> set (mp_blocks (pools s i)) \<Longrightarrow> b \<notin> set fs \<Longrightarrow> words s b = Pool i"
  using assms by (auto simp: mp_rep_def Let_def)

lemma mp_block_nonzero: "mp_rep i s fs \<Longrightarrow> b \<in> set (mp_blocks (pools s i)) \<Longrightarrow> b \<noteq> 0"
  using mp_blocks_facts(2) [OF mp_repD(3,2)] mp_repD(1) by (metis word_le_0_iff)

lemma mp_take_ok:
  assumes r: "mp_rep i s (b # fs)"
  shows "\<exists>s'. mp_take i s = Some (b + 4, s') \<and> mp_rep i s' fs \<and> mp_blocks (pools s' i) = mp_blocks (pools s i) \<and> words s' b = Pool i \<and>
    (\<forall>j. j \<noteq> i \<longrightarrow> pools s' j = pools s j)"
proof -
  let ?p = "pools s i"
  note d = mp_repD [OF r]
  have bl: "block_list ?p = b" using d(4) by simp
  obtain n where n: "words s b = Link n" "mp_chain (words s) n fs" using d(4) by (auto split: mp_word.splits)
  have b0: "b \<noteq> 0" using mp_block_nonzero [OF r] d(6) by simp
  define p' where "p' = ?p\<lparr>block_free_count := block_free_count ?p - 1, block_list := n\<rparr>"
  define s' where "s' = s\<lparr>pools := (pools s)(i := p'), words := (words s)(b := Pool i)\<rparr>"
  have t: "mp_take i s = Some (b + 4, s')"
    using bl n(1) b0 by (simp add: mp_take_def Let_def s'_def p'_def upd_pool_def)
  have bs: "mp_blocks p' = mp_blocks ?p" by (rule mp_blocks_cong) (simp_all add: p'_def)
  have c: "mp_chain ((words s)(b := Pool i)) n fs" using n(2) d(5) mp_chain_cong [of fs "(words s)(b := Pool i)" "words s" n] by auto
  have "unat (block_free_count ?p - 1) = length fs"
    using d(7) unat_sub [of 1 "block_free_count ?p"] by (simp add: word_le_nat_alt)
  then have "mp_rep i s' fs"
    using d c bs by (auto simp: mp_rep_def Let_def s'_def p'_def)
  then show ?thesis using t bs by (simp add: s'_def)
qed

lemma mp_give_ok:
  assumes r: "mp_rep i s fs" and b: "b \<in> set (mp_blocks (pools s i))" "b \<notin> set fs"
  shows "mp_rep i (mp_give i b s) (b # fs)" "mp_blocks (pools (mp_give i b s) i) = mp_blocks (pools s i)"
    "\<forall>j. j \<noteq> i \<longrightarrow> pools (mp_give i b s) j = pools s j"
proof -
  let ?p = "pools s i" and ?s = "mp_give i b s"
  note d = mp_repD [OF r]
  have p: "pools ?s i = ?p\<lparr>block_free_count := block_free_count ?p + 1, block_list := b\<rparr>"
    and w: "words ?s = (words s)(b := Link (block_list ?p))"
    by (simp_all add: mp_give_def Let_def)
  show bs: "mp_blocks (pools ?s i) = mp_blocks ?p" by (rule mp_blocks_cong) (simp_all add: p)
  have "card (set (b # fs)) \<le> card (set (mp_blocks ?p))" using d(6) b(1) by (intro card_mono) auto
  then have "Suc (length fs) \<le> unat (block_total_count ?p)"
    using b(2) d(5) distinct_card [OF mp_blocks_facts(1) [OF d(3,2)]] distinct_card [OF d(5)] by (simp add: mp_blocks_def)
  then have "unat (block_free_count ?p + 1) = Suc (length fs)"
    using d(7) unat_less_32 [of "block_total_count ?p"] by (simp add: unat_word_ariths)
  moreover have "mp_chain (words ?s) b (b # fs)"
    using d(4) b(2) mp_chain_cong [of fs "words ?s" "words s"] by (auto simp: w)
  ultimately show "mp_rep i ?s (b # fs)" using d b bs by (auto simp: mp_rep_def Let_def p w)
  show "\<forall>j. j \<noteq> i \<longrightarrow> pools ?s j = pools s j" by (simp add: mp_give_def Let_def)
qed

section \<open>The initial free list\<close>

lemma link_blocks_at:
  "inj_on (\<lambda>j. a + word_of_nat j * st) {..<n} \<Longrightarrow> j < n \<Longrightarrow>
    link_blocks a st n w (a + word_of_nat j * st) = Link (a + (word_of_nat j + 1) * st)"
proof (induction n)
  case (Suc n)
  show ?case
  proof (cases "j = n")
    case False
    then have "j < n" using Suc.prems(2) by simp
    moreover have "a + word_of_nat j * st \<noteq> a + word_of_nat n * st"
      using inj_onD [OF Suc.prems(1), of j n] False Suc.prems(2) by auto
    moreover have "inj_on (\<lambda>j. a + word_of_nat j * st) {..<n}" using Suc.prems(1) by (rule inj_on_subset) auto
    ultimately show ?thesis using Suc.IH by simp
  qed simp
qed simp

lemma chain_map:
  assumes "\<And>j. j < n \<Longrightarrow> w (ad j) = Link (if Suc j = n then 0 else ad (Suc j))"
  shows "j < n \<Longrightarrow> mp_chain w (ad j) (map ad [j..<n])"
proof (induction "n - j" arbitrary: j)
  case (Suc d)
  then have u: "[j..<n] = j # [Suc j..<n]" by (simp add: upt_conv_Cons)
  show ?case
  proof (cases "Suc j = n")
    case True
    then show ?thesis using assms [OF Suc.prems] unfolding u by simp
  next
    case False
    then show ?thesis using assms [OF Suc.prems] Suc.hyps(1) [of "Suc j"] Suc.hyps(2) Suc.prems unfolding u by simp
  qed
qed simp

lemma mp_free_init_ok:
  assumes p: "start_address (pools s i) \<noteq> 0" "unat (block_size (pools s i)) + 4 < 2 ^ 32"
      "unat (start_address (pools s i)) + unat (block_total_count (pools s i)) * (unat (block_size (pools s i)) + 4) \<le> 2 ^ 32"
      "block_total_count (pools s i) \<noteq> 0" "block_free_count (pools s i) = block_total_count (pools s i)"
  shows "\<exists>s'. mp_free_init i s = Some s' \<and> mp_rep i s' (mp_blocks (pools s i)) \<and> mp_blocks (pools s' i) = mp_blocks (pools s i)"
proof -
  let ?p = "pools s i" and ?n = "unat (block_total_count (pools s i))"
  let ?ad = "\<lambda>j. start_address ?p + word_of_nat j * stride ?p"
  have bs: "mp_blocks ?p = map ?ad [0..<?n]" by (simp add: mp_blocks_def)
  have "distinct (map ?ad [0..<?n])" using mp_blocks_facts(1) [OF p(3,2)] bs by simp
  then have inj: "inj_on ?ad {..<?n}" by (simp add: distinct_map atLeast0LessThan)
  have n0: "0 < ?n" using p(4) by (simp add: unat_gt_0)
  have last: "start_address ?p + (block_total_count ?p - 1) * stride ?p = ?ad (?n - 1)"
  proof -
    have "word_of_nat (?n - 1) = block_total_count ?p - 1"
      using n0 by (simp add: of_nat_diff)
    then show ?thesis by simp
  qed
  define w where "w = (link_blocks (start_address ?p) (stride ?p) ?n (words s))(?ad (?n - 1) := Link 0)"
  have w: "w (?ad j) = Link (if Suc j = ?n then 0 else ?ad (Suc j))" if "j < ?n" for j
  proof (cases "Suc j = ?n")
    case False
    then have "?ad j \<noteq> ?ad (?n - 1)" using inj_onD [OF inj, of j "?n - 1"] that n0 by auto
    then show ?thesis using False link_blocks_at [OF inj that, of "words s"] by (simp add: w_def add.commute)
  next
    case True
    then have "j = ?n - 1" by simp
    then show ?thesis using True by (simp add: w_def)
  qed
  define s' where "s' = upd_pool i (\<lambda>p. p\<lparr>block_list := start_address p\<rparr>) (s\<lparr>words := w\<rparr>)"
  have "mp_free_init i s = Some s'" using p(4) last by (simp add: mp_free_init_def Let_def s'_def w_def)
  moreover have bs': "mp_blocks (pools s' i) = mp_blocks ?p" by (rule mp_blocks_cong) (simp_all add: s'_def)
  moreover have "mp_chain w (start_address ?p) (mp_blocks ?p)" using chain_map [of ?n w ?ad 0] w n0 bs by simp
  then have "mp_rep i s' (mp_blocks ?p)"
    using p bs' mp_blocks_facts(1) [OF p(3,2)] by (simp add: mp_rep_def Let_def s'_def) (simp add: mp_blocks_def)
  ultimately show ?thesis by blast
qed

section \<open>Correctness\<close>

text \<open>
  C19: \<open>rt_mp_alloc\<close> on every branch. With a free block it returns the data of the first one, which overlaps no other
  allocated block; without one it returns null with the error \<open>-RT_ETIMEOUT\<close> at once, or
  suspends the caller in front of all waiting threads, with its timer armed when the waiting time is positive. The kernel
  invariant and the free list are kept.
\<close>

theorem rt_mp_alloc_correct:
  assumes inv: "kinv k" and c: "thread_calls t k" and r: "mp_rep i s fs" and time: "sint time < 0x7FFFFFFF"
  shows "case fs of
      b # fs' \<Rightarrow> \<exists>s'. rt_mp_alloc i time (s, k) = Some (Returned (b + 4), s', k) \<and> mp_rep i s' fs' \<and> b \<notin> mp_allocated i s fs \<and>
        mp_allocated i s' fs' = insert b (mp_allocated i s fs) \<and>
        (\<forall>c\<in>mp_allocated i s fs. unat c + 4 + unat (block_size (pools s i)) \<le> unat b \<or> unat b + 4 + unat (block_size (pools s i)) \<le> unat c)
    | [] \<Rightarrow>
        if time = 0 then rt_mp_alloc i time (s, k) = Some (Returned 0, s, set_error t (- RT_ETIMEOUT) k)
        else \<exists>k'. rt_mp_alloc i time (s, k) = Some (Suspended (t, time, rt_tick k), s, k') \<and> kinv k' \<and>
          stat_of (threads k' t) = RT_THREAD_SUSPEND \<and> t_error (threads k' t) = RT_EOK \<and>
          tlists k' (Suspend i) = t # tlists k (Suspend i) \<and>
          (0 < sint time \<longrightarrow> ThreadTimer t \<in> set (tmlists k' HardList) \<and> tticks k' (ThreadTimer t) = rt_tick k + time)"
proof (cases fs)
  case Nil
  then have e: "block_free_count (pools s i) = 0" using mp_repD(7) [OF r] by (simp add: unat_eq_0)
  have n: "interrupt_nest k = 0" "rt_thread_self k = Some t" using c by (simp_all add: thread_calls_def rt_thread_self_def)
  show ?thesis
  proof (cases "time = 0")
    case True
    then show ?thesis using Nil e n by (simp add: rt_mp_alloc_def mp_alloc_loop_def rt_set_errno_def)
  next
    case False
    obtain k' where k': "park lifo_insert (Suspend i) t time (set_error t RT_EOK k) = Some k'" "kinv k'"
        "stat_of (threads k' t) = RT_THREAD_SUSPEND" "t_error (threads k' t) = RT_EOK"
        "tlists k' (Suspend i) = lifo_insert (prio_of k) t (tlists k (Suspend i))"
        "0 < sint time \<longrightarrow> ThreadTimer t \<in> set (tmlists k' HardList) \<and> tticks k' (ThreadTimer t) = rt_tick k + time"
      using lifo.park_ok [OF inv c _ time, of "Suspend i" i] by blast
    then show ?thesis
      using Nil False e n by (simp add: rt_mp_alloc_def mp_alloc_loop_def not_in_interrupt_def lifo_insert_def)
  qed
next
  case (Cons b fs')
  note d = mp_repD [OF r]
  have e: "block_free_count (pools s i) \<noteq> 0" using d(7) Cons by auto
  obtain s' where s': "mp_take i s = Some (b + 4, s')" "mp_rep i s' fs'" "mp_blocks (pools s' i) = mp_blocks (pools s i)"
    using mp_take_ok [OF r [unfolded Cons]] by blast
  have b: "b \<in> set (mp_blocks (pools s i))" "b \<notin> set fs'" using d(5,6) Cons by auto
  have "unat c + 4 + unat (block_size (pools s i)) \<le> unat b \<or> unat b + 4 + unat (block_size (pools s i)) \<le> unat c"
    if "c \<in> mp_allocated i s fs" for c
    using mp_blocks_facts(3) [OF d(3,2), of c b] that b(1) Cons by (auto simp: mp_allocated_def)
  moreover have "mp_allocated i s' fs' = insert b (mp_allocated i s fs)" "b \<notin> mp_allocated i s fs"
    using s'(3) b Cons by (auto simp: mp_allocated_def)
  ultimately show ?thesis using Cons e s'(1,2) by (simp add: rt_mp_alloc_def mp_alloc_loop_def)
qed

text \<open>Two pools of three blocks of 12 bytes; of the first no block is free, of the second the last two.\<close>

definition demo_pools :: mp_state where
  "demo_pools =
    \<lparr>pools = (\<lambda>i. \<lparr>start_address = 64 * word_of_nat i + 64, mp_size = 48, block_size = 12, block_list = if i = 0 then 0 else 144,
        block_total_count = 3, block_free_count = if i = 0 then 0 else 2\<rparr>),
     words = (\<lambda>a. if a = 144 then Link 160 else if a = 160 then Link 0 else Pool (if a < 128 then 0 else 1))\<rparr>"

lemma demo_pools_blocks [simp]:
  "mp_blocks (pools demo_pools 0) = [64, 80, 96]" "mp_blocks (pools demo_pools 1) = [128, 144, 160]"
  by (simp_all add: mp_blocks_def demo_pools_def upt_rec)

lemma demo_pools_rep: "mp_rep 0 demo_pools []" "mp_rep 1 demo_pools [144, 160]"
  unfolding mp_rep_def Let_def demo_pools_blocks by (auto simp: demo_pools_def)

theorem rt_mp_alloc_correct_witness:
  "(\<exists>s. rt_mp_alloc 1 0 (demo_pools, demo_ipc Class_MemPool) = Some (Returned 148, s, demo_ipc Class_MemPool) \<and> mp_rep 1 s [160]) \<and>
   (\<exists>k. rt_mp_alloc 0 7 (demo_pools, demo_ipc Class_MemPool) = Some (Suspended (0, 7, 100), demo_pools, k) \<and> kinv k \<and>
     tlists k (Suspend 0) = [0, 3])"
  using rt_mp_alloc_correct [OF demo_ipc_kinv demo_ipc_calls demo_pools_rep(1), of 7 Class_MemPool]
    rt_mp_alloc_correct [OF demo_ipc_kinv demo_ipc_calls demo_pools_rep(2), of 0 Class_MemPool]
  by (auto simp: demo_kernel_sel)

text \<open>
  C20: \<open>rt_mp_free\<close> of an allocated block returns and puts it at the front of the free list of its pool. If threads wait, the
  first of them runs or is ready, without an error, and the continuation of its \<open>rt_mp_alloc\<close> gets this block.
\<close>

theorem rt_mp_free_correct:
  assumes inv: "kinv k" and c: "cur k \<noteq> None" and r: "mp_rep i s fs" and b: "b \<in> mp_allocated i s fs" "b + 4 \<noteq> 0"
  shows "\<exists>s' k'. rt_mp_free (b + 4) (s, k) = Some (s', k') \<and> kinv k' \<and> mp_rep i s' (b # fs) \<and>
    mp_allocated i s' (b # fs) = mp_allocated i s fs - {b} \<and> tlists k' (Suspend i) = tl (tlists k (Suspend i)) \<and>
    (case tlists k (Suspend i) of
       [] \<Rightarrow> k' = k
     | t # _ \<Rightarrow> stat_of (threads k' t) \<in> {RT_THREAD_READY, RT_THREAD_RUNNING} \<and>
         (\<forall>time start. \<exists>s''. rt_mp_alloc_resumed i (t, time, start) (s', k') = Some (Returned (b + 4), s'', k')))"
proof -
  have m: "b \<in> set (mp_blocks (pools s i))" "b \<notin> set fs" using b(1) by (auto simp: mp_allocated_def)
  have w: "words s (b + 4 - 4) = Pool i" using mp_repD(8) [OF r m] by simp
  let ?s = "mp_give i b s"
  note g = mp_give_ok [OF r m]
  have a: "mp_allocated i ?s (b # fs) = mp_allocated i s fs - {b}" using g(2) by (auto simp: mp_allocated_def)
  show ?thesis
  proof (cases "tlists k (Suspend i)")
    case Nil
    then show ?thesis using w b(2) g(1) a inv by (auto simp: rt_mp_free_def)
  next
    case (Cons t ts)
    let ?k = "set_error t RT_EOK k"
    have h: "tlists ?k (Suspend i) = t # ts" using Cons by simp
    obtain k1 where k1: "rt_thread_resume t ?k = Some (RT_EOK, k1)" "kinv k1" "cur k1 = cur ?k"
        "threads k1 = (threads ?k)(t := set_stat (wake_stat t ?k) (threads ?k t))" "tlists k1 (Suspend i) = ts"
      using resume_first_ok [OF kinv_set_error [OF inv] _ h] by blast
    obtain k2 where k2: "rt_schedule k1 = Some k2" "kinv k2" "same_threads k1 k2" "waits k2 = waits k1"
      using rt_schedule_kinv [OF k1(2)] k1(3) c by auto
    have "tlists k2 (Suspend i) = ts" using waits_tlists [OF k2(4), of "Suspend i"] k1(5) by simp
    moreover have "stat_of (threads k2 t) \<in> {RT_THREAD_READY, RT_THREAD_RUNNING}"
      using same_threadsD(4) [OF k2(3), of t] k1(4) by (simp add: wake_stat_def)
    moreover have er: "t_error (threads k2 t) = RT_EOK"
      using only_stat_error(1) [OF same_threadsD(3) [OF k2(3), of t]] k1(4) by simp
    moreover obtain s'' where s'': "mp_take i ?s = Some (b + 4, s'')" using mp_take_ok [OF g(1)] by blast
    moreover have "block_free_count (pools ?s i) \<noteq> 0" using mp_repD(7) [OF g(1)] by auto
    then have "rt_mp_alloc_resumed i (t, time, start) (?s, k2) = Some (Returned (b + 4), s'', k2)" for time start
      using er s'' by (simp add: rt_mp_alloc_resumed_def mp_alloc_loop_def)
    moreover have "rt_mp_free (b + 4) (s, k) = Some (?s, k2)" using w b(2) Cons k1(1) k2(1) by (simp add: rt_mp_free_def)
    ultimately show ?thesis using Cons k2(2) g(1) a by auto
  qed
qed

theorem rt_mp_free_correct_witness:
  "\<exists>s k. rt_mp_free 84 (demo_pools, demo_ipc Class_MemPool) = Some (s, k) \<and> mp_rep 0 s [80] \<and> mp_allocated 0 s [80] = {64, 96} \<and>
    (\<exists>s'. rt_mp_alloc_resumed 0 (3, 7, 90) (s, k) = Some (Returned 84, s', k))"
  using rt_mp_free_correct [OF demo_ipc_kinv _ demo_pools_rep(1), of Class_MemPool 80]
  by (auto simp: mp_allocated_def demo_kernel_sel)

text \<open>
  \<open>rt_mp_init\<close> of an area that holds at least one block makes all its blocks free; there are as many as
  fit, at equal distances from the start of the area, and the last ends inside the area.
\<close>

theorem rt_mp_init_correct:
  assumes inv: "sched_inv k" "stacks_ok k" and new: "OIpc i \<notin> set (containers k Class_MemPool)"
    and a: "start \<noteq> 0" "unat start + unat sz \<le> 2 ^ 32" "bsz \<noteq> 0" "unat bsz + 7 < 2 ^ 32" "unat (RT_ALIGN bsz 4) + 4 \<le> unat (RT_ALIGN_DOWN sz 4)"
  shows "\<exists>s' k'. rt_mp_init i nam start sz bsz (s, k) = Some (RT_EOK, s', k') \<and> tlists k' (Suspend i) = [] \<and>
    mp_rep i s' (mp_blocks (pools s' i)) \<and> length (mp_blocks (pools s' i)) = unat (RT_ALIGN_DOWN sz 4) div (unat (RT_ALIGN bsz 4) + 4) \<and>
    (\<forall>j<length (mp_blocks (pools s' i)). unat (mp_blocks (pools s' i) ! j) = unat start + j * (unat (RT_ALIGN bsz 4) + 4)) \<and>
    unat start + length (mp_blocks (pools s' i)) * (unat (RT_ALIGN bsz 4) + 4) \<le> unat start + unat sz"
proof -
  let ?b = "unat (RT_ALIGN bsz 4)" and ?z = "unat (RT_ALIGN_DOWN sz 4)"
  obtain k1 where k: "rt_object_init (OIpc i) Class_MemPool nam k = Some k1" "sched_inv k1" "stacks_ok k1"
    using object_init_ok [OF inv _ new] by (auto simp: rt_object_get_information_def)
  have bl: "?b + 4 < 2 ^ 32" using unat_RT_ALIGN [of bsz] a(4) by simp
  have zl: "?z \<le> unat sz" by simp
  have st: "unat (RT_ALIGN bsz 4 + 4) = ?b + 4" using bl by (simp add: unat_word_ariths)
  define t where "t = RT_ALIGN_DOWN sz 4 div (RT_ALIGN bsz 4 + 4)"
  have ut: "unat t = ?z div (?b + 4)" unfolding t_def unat_div st ..
  have "1 \<le> ?z div (?b + 4)" using a(5) by (simp add: Suc_leI div_greater_zero_iff)
  then have t0: "t \<noteq> 0" using ut by auto
  have fit: "unat t * (?b + 4) \<le> ?z" unfolding ut by simp
  have sz0: "0 < sz" using a(5) zl by (metis add_is_0 le_zero_eq unat_0 word_gt_0 zero_neq_numeral)
  define s1 where "s1 = upd_pool i (\<lambda>p. p\<lparr>start_address := start, mp_size := RT_ALIGN_DOWN sz 4, block_size := RT_ALIGN bsz 4,
    block_total_count := t, block_free_count := t\<rparr>) s"
  have p: "start_address (pools s1 i) = start" "block_size (pools s1 i) = RT_ALIGN bsz 4" "block_total_count (pools s1 i) = t"
    "block_free_count (pools s1 i) = t" by (simp_all add: s1_def)
  have geo: "unat start + unat t * (?b + 4) \<le> 2 ^ 32" using fit zl a(2) by linarith
  obtain s' where s': "mp_free_init i s1 = Some s'" "mp_rep i s' (mp_blocks (pools s1 i))" "mp_blocks (pools s' i) = mp_blocks (pools s1 i)"
    using mp_free_init_ok [of s1 i] p a(1) bl geo t0 by auto
  have "rt_mp_init i nam start sz bsz (s, k) = Some (RT_EOK, s', k1\<lparr>tlists := (tlists k1)(Suspend i := [])\<rparr>)"
    using k(1) a(1,3) sz0 s'(1) by (simp add: rt_mp_init_def word_gt_0 s1_def t_def upd_pool_def del: unat_RT_ALIGN_DOWN)
  moreover have "length (mp_blocks (pools s1 i)) = unat t" by (simp add: mp_blocks_def p)
  moreover have "unat (mp_blocks (pools s1 i) ! j) = unat start + j * (?b + 4)" if "j < unat t" for j
    using mp_blocks_nth [of "pools s1 i" j] that p geo bl by simp
  moreover have "unat start + unat t * (?b + 4) \<le> unat start + unat sz" using fit zl by linarith
  ultimately show ?thesis using s'(2,3)
    by (intro exI [of _ s'] exI [of _ "k1\<lparr>tlists := (tlists k1)(Suspend i := [])\<rparr>"])
      (simp add: ut [symmetric] del: unat_RT_ALIGN_DOWN)
qed

theorem rt_mp_init_correct_witness:
  "\<exists>s k. rt_mp_init 7 ''mp'' 1000 50 10 (demo_pools, demo_kernel) = Some (RT_EOK, s, k) \<and> length (mp_blocks (pools s 7)) = 3"
proof -
  have al: "unat (RT_ALIGN 10 4) = 12" by (subst unat_RT_ALIGN) simp_all
  have "containers demo_kernel = (\<lambda>_. [])" by (simp add: demo_kernel_def zero_kernel_def)
  then show ?thesis
    using rt_mp_init_correct [OF demo_kernel_inv demo_kernel_stacks, of 7 1000 50 10 "''mp''" demo_pools] by (auto simp: al)
qed

end
