(* ===== verification/RT_Mem.thy ===== *)
theory RT_Mem
  imports RT_Prelude
begin

unbundle bit_operations_syntax

text \<open>
  The heap, \<open>src/mem.c\<close>: one area of memory divided into blocks, each behind a header \<open>struct heap_mem\<close> of twelve bytes
  that holds the offsets of the next and the previous block. Headers and user data are two stores over
  the offsets from \<open>heap_ptr\<close>; that they do not overlap is part of what is proved. Offsets and sizes
  are natural numbers, with the wrap-around of \<open>rt_size_t\<close> written out where the code subtracts. An address is a
  natural number, 0 is \<open>RT_NULL\<close>. The semaphore \<open>heap_sem\<close> makes the routines mutually exclusive; each is one step.
  \<open>None\<close>: an assertion fails, a loop does not end, or memory outside the heap is accessed.
\<close>

section \<open>Operations\<close>

abbreviation (input) HEAP_MAGIC :: u16 where "HEAP_MAGIC \<equiv> 0x1ea0"

record heap_mem =
  magic :: u16
  used :: u16
  next_off :: nat
  prev_off :: nat

record heap =
  heap_ptr :: nat
  hdrs :: "nat \<Rightarrow> heap_mem"
  heap_data :: "nat \<Rightarrow> u8"
  heap_end :: nat
  lfree :: nat
  mem_size_aligned :: nat
  used_mem :: nat
  max_mem :: nat

text \<open>Subtraction of \<open>rt_size_t\<close>.\<close>

definition size_sub :: "nat \<Rightarrow> nat \<Rightarrow> nat" where
  "size_sub a b = unat (word_of_nat a - word_of_nat b :: u32)"

definition upd_mem :: "nat \<Rightarrow> (heap_mem \<Rightarrow> heap_mem) \<Rightarrow> heap \<Rightarrow> heap" where
  "upd_mem a f h = h\<lparr>hdrs := (hdrs h)(a := f (hdrs h a))\<rparr>"

text \<open>The two halves of \<open>plug_holes\<close>: joining a free block with the next and with the previous one.\<close>

definition plug_forward :: "nat \<Rightarrow> heap \<Rightarrow> heap" where
  "plug_forward mem h =
    (let nmem = next_off (hdrs h mem) in
     if mem \<noteq> nmem \<and> used (hdrs h nmem) = 0 \<and> nmem \<noteq> heap_end h then
       let h = (if lfree h = nmem then h\<lparr>lfree := mem\<rparr> else h);
           h = upd_mem mem (\<lambda>m. m\<lparr>next_off := next_off (hdrs h nmem)\<rparr>) h
       in upd_mem (next_off (hdrs h nmem)) (\<lambda>m. m\<lparr>prev_off := mem\<rparr>) h
     else h)"

definition plug_backward :: "nat \<Rightarrow> heap \<Rightarrow> heap" where
  "plug_backward mem h =
    (let pmem = prev_off (hdrs h mem) in
     if pmem \<noteq> mem \<and> used (hdrs h pmem) = 0 then
       let h = (if lfree h = mem then h\<lparr>lfree := pmem\<rparr> else h);
           h = upd_mem pmem (\<lambda>m. m\<lparr>next_off := next_off (hdrs h mem)\<rparr>) h
       in upd_mem (next_off (hdrs h mem)) (\<lambda>m. m\<lparr>prev_off := pmem\<rparr>) h
     else h)"

definition plug_holes :: "nat \<Rightarrow> heap \<Rightarrow> heap option" where
  "plug_holes mem h =
    do {
      RT_ASSERT (mem < heap_end h);
      RT_ASSERT (used (hdrs h mem) = 0);
      Some (plug_backward mem (plug_forward mem h))
    }"

definition rt_system_heap_init :: "u32 \<Rightarrow> u32 \<Rightarrow> heap \<Rightarrow> heap" where
  "rt_system_heap_init begin_addr end_addr h =
    (let begin_align = RT_ALIGN begin_addr 4; end_align = RT_ALIGN_DOWN end_addr 4 in
     if end_align > 2 * 12 \<and> end_align - 2 * 12 \<ge> begin_align then
       let sz = unat (end_align - begin_align - 2 * 12);
           h = h\<lparr>mem_size_aligned := sz, heap_ptr := unat begin_align\<rparr>;
           h = upd_mem 0 (\<lambda>m. \<lparr>magic = HEAP_MAGIC, used = 0, next_off = sz + 12, prev_off = 0\<rparr>) h;
           h = h\<lparr>heap_end := next_off (hdrs h 0)\<rparr>;
           h = upd_mem (heap_end h) (\<lambda>m. \<lparr>magic = HEAP_MAGIC, used = 1, next_off = sz + 12, prev_off = sz + 12\<rparr>) h
       in h\<lparr>lfree := 0\<rparr>
     else h)"

text \<open>The search of \<open>rt_malloc\<close>: the offset of the first block that is free and large enough.\<close>

partial_function (option) malloc_find :: "nat \<Rightarrow> nat \<Rightarrow> heap \<Rightarrow> nat option option" where
  "malloc_find sz ptr h =
    (if ptr < size_sub (mem_size_aligned h) sz then
       if used (hdrs h ptr) = 0 \<and> sz \<le> size_sub (next_off (hdrs h ptr)) (ptr + 12) then Some (Some ptr)
       else malloc_find sz (next_off (hdrs h ptr)) h
     else Some None)"

definition count_used :: "nat \<Rightarrow> heap \<Rightarrow> heap" where
  "count_used n h =
    (let u = unat (word_of_nat (used_mem h + n) :: u32) in h\<lparr>used_mem := u, max_mem := if max_mem h < u then u else max_mem h\<rparr>)"

declare malloc_find.simps [code]

text \<open>Taking the block at \<open>ptr\<close>, split if the rest can hold a block of its own.\<close>

definition malloc_take :: "nat \<Rightarrow> nat \<Rightarrow> heap \<Rightarrow> heap" where
  "malloc_take sz ptr h =
    (let mem = hdrs h ptr;
         h = (if size_sub (next_off mem) (ptr + 12) \<ge> sz + 12 + 12 then
                let ptr2 = ptr + 12 + sz;
                    h = upd_mem ptr2 (\<lambda>m. \<lparr>magic = HEAP_MAGIC, used = 0, next_off = next_off mem, prev_off = ptr\<rparr>) h;
                    h = upd_mem ptr (\<lambda>m. m\<lparr>next_off := ptr2, used := 1\<rparr>) h;
                    h = (if next_off (hdrs h ptr2) \<noteq> mem_size_aligned h + 12
                         then upd_mem (next_off (hdrs h ptr2)) (\<lambda>m. m\<lparr>prev_off := ptr2\<rparr>) h else h)
                in count_used (sz + 12) h
              else count_used (size_sub (next_off mem) ptr) (upd_mem ptr (\<lambda>m. m\<lparr>used := 1\<rparr>) h))
     in upd_mem ptr (\<lambda>m. m\<lparr>magic := HEAP_MAGIC\<rparr>) h)"

partial_function (option) next_free :: "nat \<Rightarrow> heap \<Rightarrow> nat option" where
  "next_free a h =
    (if used (hdrs h a) \<noteq> 0 \<and> a \<noteq> heap_end h then next_free (next_off (hdrs h a)) h else Some a)"

declare next_free.simps [code]

text \<open>When the lowest free block was taken, \<open>lfree\<close> moves on.\<close>

definition advance_lfree :: "nat \<Rightarrow> heap \<Rightarrow> heap option" where
  "advance_lfree ptr h =
    (if ptr = lfree h then
       do {
         l \<leftarrow> next_free (lfree h) h;
         RT_ASSERT (l = heap_end h \<or> used (hdrs h l) = 0);
         Some (h\<lparr>lfree := l\<rparr>)
       }
     else Some h)"

definition rt_malloc :: "u32 \<Rightarrow> heap \<Rightarrow> (nat \<times> heap) option" where
  "rt_malloc size_arg h =
    (if size_arg = 0 then Some (0, h)
     else
       let sz = unat (RT_ALIGN size_arg 4) in
       if sz > mem_size_aligned h then Some (0, h)
       else
         let sz = (if sz < 12 then 12 else sz) in
         do {
           found \<leftarrow> malloc_find sz (lfree h) h;
           case found of
             None \<Rightarrow> Some (0, h)
           | Some ptr \<Rightarrow>
               do {
                 let h = malloc_take sz ptr h;
                 h \<leftarrow> advance_lfree ptr h;
                 RT_ASSERT (ptr + 12 + sz \<le> heap_end h);
                 RT_ASSERT ((heap_ptr h + ptr + 12) mod 4 = 0);
                 RT_ASSERT ((heap_ptr h + ptr) mod 4 = 0);
                 Some (heap_ptr h + ptr + 12, h)
               }
         })"

text \<open>A pointer into the first header would make \<open>rt_free\<close> read a header before the heap.\<close>

definition rt_free :: "nat \<Rightarrow> heap \<Rightarrow> heap option" where
  "rt_free rmem h =
    (if rmem = 0 then Some h
     else do {
       RT_ASSERT (rmem mod 4 = 0);
       RT_ASSERT (heap_ptr h \<le> rmem \<and> rmem < heap_ptr h + heap_end h);
       RT_ASSERT (heap_ptr h + 12 \<le> rmem);
       let mem = rmem - heap_ptr h - 12;
       RT_ASSERT (used (hdrs h mem) \<noteq> 0);
       RT_ASSERT (magic (hdrs h mem) = HEAP_MAGIC);
       let h = upd_mem mem (\<lambda>m. m\<lparr>used := 0, magic := HEAP_MAGIC\<rparr>) h;
       let h = (if mem < lfree h then h\<lparr>lfree := mem\<rparr> else h);
       let h = h\<lparr>used_mem := size_sub (used_mem h) (size_sub (next_off (hdrs h mem)) mem)\<rparr>;
       plug_holes mem h
     })"

text \<open>\<open>rt_memcpy\<close> and \<open>rt_memset\<close> on the user data, by offset.\<close>

definition data_copy :: "nat \<Rightarrow> nat \<Rightarrow> nat \<Rightarrow> heap \<Rightarrow> heap" where
  "data_copy dst src n h =
    h\<lparr>heap_data := (\<lambda>a. if dst \<le> a \<and> a < dst + n then heap_data h (src + (a - dst)) else heap_data h a)\<rparr>"

definition data_zero :: "nat \<Rightarrow> nat \<Rightarrow> heap \<Rightarrow> heap" where
  "data_zero dst n h = h\<lparr>heap_data := (\<lambda>a. if dst \<le> a \<and> a < dst + n then 0 else heap_data h a)\<rparr>"

definition realloc_split :: "nat \<Rightarrow> nat \<Rightarrow> nat \<Rightarrow> heap \<Rightarrow> heap option" where
  "realloc_split ptr sz newsize h =
    (let h = h\<lparr>used_mem := size_sub (used_mem h) (size_sub sz newsize)\<rparr>;
         ptr2 = ptr + 12 + newsize;
         h = upd_mem ptr2 (\<lambda>m. \<lparr>magic = HEAP_MAGIC, used = 0, next_off = next_off (hdrs h ptr), prev_off = ptr\<rparr>) h;
         h = upd_mem ptr (\<lambda>m. m\<lparr>next_off := ptr2\<rparr>) h;
         h = (if next_off (hdrs h ptr2) \<noteq> mem_size_aligned h + 12
              then upd_mem (next_off (hdrs h ptr2)) (\<lambda>m. m\<lparr>prev_off := ptr2\<rparr>) h else h);
         h = (if ptr2 < lfree h then h\<lparr>lfree := ptr2\<rparr> else h)
     in plug_holes ptr2 h)"

definition rt_realloc :: "nat \<Rightarrow> u32 \<Rightarrow> heap \<Rightarrow> (nat \<times> heap) option" where
  "rt_realloc rmem newsize_arg h =
    (let newsize_word = RT_ALIGN newsize_arg 4; newsize = unat newsize_word in
     if newsize > mem_size_aligned h then Some (0, h)
     else if newsize = 0 then do { h \<leftarrow> rt_free rmem h; Some (0, h) }
     else if rmem = 0 then rt_malloc newsize_word h
     else if rmem < heap_ptr h \<or> heap_ptr h + heap_end h \<le> rmem then Some (rmem, h)
     else do {
       RT_ASSERT (heap_ptr h + 12 \<le> rmem);
       let ptr = rmem - heap_ptr h - 12;
       let sz = size_sub (size_sub (next_off (hdrs h ptr)) ptr) 12;
       if sz = newsize then Some (rmem, h)
       else if newsize + 12 + 12 < sz then do { h \<leftarrow> realloc_split ptr sz newsize h; Some (rmem, h) }
       else do {
         (nmem, h) \<leftarrow> rt_malloc newsize_word h;
         if nmem \<noteq> 0 then
           do {
             let h = data_copy (nmem - heap_ptr h) (rmem - heap_ptr h) (if sz < newsize then sz else newsize) h;
             h \<leftarrow> rt_free rmem h;
             Some (nmem, h)
           }
         else Some (nmem, h)
       }
     })"

definition rt_calloc :: "u32 \<Rightarrow> u32 \<Rightarrow> heap \<Rightarrow> (nat \<times> heap) option" where
  "rt_calloc count sz h =
    do {
      (p, h) \<leftarrow> rt_malloc (count * sz) h;
      Some (p, if p \<noteq> 0 then data_zero (p - heap_ptr h) (unat (count * sz)) h else h)
    }"

definition rt_memory_info :: "heap \<Rightarrow> nat \<times> nat \<times> nat" where
  "rt_memory_info h = (mem_size_aligned h, used_mem h, max_mem h)"

section \<open>Blocks\<close>

text \<open>The abstract heap: the lengths of the blocks with their headers, in order, and whether they are in use.\<close>

type_synonym block = "nat \<times> bool"

definition extent :: "block list \<Rightarrow> nat" where
  "extent bs = sum_list (map fst bs)"

lemma extent_simps [simp]: "extent [] = 0" "extent (b # bs) = fst b + extent bs" "extent (xs @ ys) = extent xs + extent ys"
  by (simp_all add: extent_def)

lemma used_extent: "extent (filter snd zs) \<le> extent zs"
  by (induction zs) auto

text \<open>\<open>rep h pv a bs\<close>: from offset \<open>a\<close> on the headers are those of the blocks \<open>bs\<close>; \<open>pv\<close> is the offset of the block before.\<close>

fun rep :: "heap \<Rightarrow> nat \<Rightarrow> nat \<Rightarrow> block list \<Rightarrow> bool" where
  "rep h pv a [] \<longleftrightarrow> True"
| "rep h pv a ((n, u) # bs) \<longleftrightarrow>
    hdrs h a = \<lparr>magic = HEAP_MAGIC, used = if u then 1 else 0, next_off = a + n, prev_off = pv\<rparr> \<and>
    16 \<le> n \<and> n mod 4 = 0 \<and> rep h a (a + n) bs"

fun before :: "nat \<Rightarrow> nat \<Rightarrow> block list \<Rightarrow> nat" where
  "before pv a [] = pv"
| "before pv a (b # bs) = before a (a + fst b) bs"

lemma before_append [simp]: "before pv a (xs @ ys) = before (before pv a xs) (a + extent xs) ys"
  by (induction xs arbitrary: pv a) (auto simp: add.assoc)

lemma rep_append [simp]:
  "rep h pv a (xs @ ys) \<longleftrightarrow> rep h pv a xs \<and> rep h (before pv a xs) (a + extent xs) ys"
  by (induction xs arbitrary: pv a) (auto simp: add.assoc)

lemma rep_cong: "rep h pv a bs \<Longrightarrow> (\<And>p. a \<le> p \<Longrightarrow> p < a + extent bs \<Longrightarrow> hdrs h' p = hdrs h p) \<Longrightarrow> rep h' pv a bs"
proof (induction bs arbitrary: pv a)
  case (Cons b bs)
  obtain n u where b: "b = (n, u)" by (cases b)
  have "hdrs h' a = hdrs h a" using Cons.prems b by simp
  moreover have "rep h' a (a + n) bs" using Cons.prems b by (intro Cons.IH) auto
  ultimately show ?case using Cons.prems(1) b by simp
qed simp

lemma rep_sizes: "rep h pv a bs \<Longrightarrow> (n, u) \<in> set bs \<Longrightarrow> 16 \<le> n \<and> n mod 4 = 0"
  by (induction bs arbitrary: pv a) auto

lemma rep_extent_mod: "rep h pv a bs \<Longrightarrow> extent bs mod 4 = 0"
  by (induction bs arbitrary: pv a) (auto simp: mod_eq_0_iff_dvd)

lemma rep_nonempty: "rep h pv a bs \<Longrightarrow> bs \<noteq> [] \<Longrightarrow> 12 \<le> extent bs"
  by (cases bs) auto

lemma size_sub_le: "b \<le> a \<Longrightarrow> a < 2 ^ 32 \<Longrightarrow> size_sub a b = a - b"
  unfolding size_sub_def by (simp flip: of_nat_diff add: unsigned_of_nat take_bit_nat_eq_self)

lemma upd_mem_sel [simp]:
  "hdrs (upd_mem a f h) = (hdrs h)(a := f (hdrs h a))" "heap_ptr (upd_mem a f h) = heap_ptr h"
  "heap_data (upd_mem a f h) = heap_data h" "heap_end (upd_mem a f h) = heap_end h" "lfree (upd_mem a f h) = lfree h"
  "mem_size_aligned (upd_mem a f h) = mem_size_aligned h" "used_mem (upd_mem a f h) = used_mem h" "max_mem (upd_mem a f h) = max_mem h"
  by (simp_all add: upd_mem_def)

text \<open>The previous offset of the first block is changed.\<close>

lemma rep_prev: "rep h pv a bs \<Longrightarrow> hdrs h' a = (hdrs h a)\<lparr>prev_off := pv'\<rparr> \<Longrightarrow>
    (\<And>p. a < p \<Longrightarrow> p < a + extent bs \<Longrightarrow> hdrs h' p = hdrs h p) \<Longrightarrow> rep h' pv' a bs"
proof (cases bs)
  case (Cons b cs)
  assume r: "rep h pv a bs" "hdrs h' a = (hdrs h a)\<lparr>prev_off := pv'\<rparr>" "\<And>p. a < p \<Longrightarrow> p < a + extent bs \<Longrightarrow> hdrs h' p = hdrs h p"
  obtain n u where b: "b = (n, u)" by (cases b)
  have "rep h' a (a + n) cs" using r Cons b by (intro rep_cong [of h a "a + n" cs h']) auto
  then show ?thesis using r Cons b by simp
qed simp

section \<open>The invariant\<close>

definition heap_rep :: "heap \<Rightarrow> block list \<Rightarrow> bool" where
  "heap_rep h bs \<longleftrightarrow> rep h 0 0 bs \<and> bs \<noteq> [] \<and> successively (\<lambda>x y. snd x \<or> snd y) bs \<and>
    heap_end h = extent bs \<and> mem_size_aligned h + 12 = heap_end h \<and> 12 \<le> mem_size_aligned h \<and>
    used (hdrs h (heap_end h)) \<noteq> 0 \<and> lfree h = extent (takeWhile snd bs) \<and> used_mem h = extent (filter snd bs) \<and>
    heap_ptr h mod 4 = 0 \<and> 0 < heap_ptr h \<and> heap_ptr h + heap_end h + 12 \<le> 2 ^ 32 \<and>
    used_mem h \<le> max_mem h"

lemma heap_repD:
  assumes "heap_rep h bs"
  shows "rep h 0 0 bs" "bs \<noteq> []" "successively (\<lambda>x y. snd x \<or> snd y) bs" "heap_end h = extent bs"
    "mem_size_aligned h + 12 = extent bs" "12 \<le> mem_size_aligned h" "used (hdrs h (extent bs)) \<noteq> 0"
    "lfree h = extent (takeWhile snd bs)" "used_mem h = extent (filter snd bs)" "heap_ptr h mod 4 = 0" "0 < heap_ptr h"
    "heap_ptr h + extent bs + 12 \<le> 2 ^ 32" "used_mem h \<le> max_mem h"
  using assms by (auto simp: heap_rep_def)

section \<open>Searching\<close>

text \<open>The first free block that holds \<open>sz\<close> bytes and lies below \<open>lim\<close>.\<close>

fun first_fit :: "nat \<Rightarrow> nat \<Rightarrow> nat \<Rightarrow> block list \<Rightarrow> nat option" where
  "first_fit lim sz a [] = None"
| "first_fit lim sz a ((n, u) # bs) =
    (if a < lim then if \<not> u \<and> sz + 12 \<le> n then Some a else first_fit lim sz (a + n) bs else None)"

lemma malloc_find_eq:
  "rep h pv a bs \<Longrightarrow> a + extent bs = mem_size_aligned h + 12 \<Longrightarrow> a + extent bs < 2 ^ 32 \<Longrightarrow> sz \<le> mem_size_aligned h \<Longrightarrow>
    malloc_find sz a h = Some (first_fit (mem_size_aligned h - sz) sz a bs)"
proof (induction bs arbitrary: pv a)
  case Nil
  have "size_sub (mem_size_aligned h) sz = mem_size_aligned h - sz" using Nil by (intro size_sub_le) simp_all
  moreover have "\<not> a < mem_size_aligned h - sz" using Nil by simp
  ultimately show ?case by (subst malloc_find.simps) simp
next
  case (Cons b bs)
  obtain n u where b: "b = (n, u)" by (cases b)
  have s: "size_sub (mem_size_aligned h) sz = mem_size_aligned h - sz" using Cons.prems by (intro size_sub_le) simp_all
  have n: "size_sub (a + n) (a + 12) = n - 12" using Cons.prems b size_sub_le [of "a + 12" "a + n"] by simp
  have "malloc_find sz (a + n) h = Some (first_fit (mem_size_aligned h - sz) sz (a + n) bs)"
    using Cons.prems b by (intro Cons.IH [of a]) simp_all
  then show ?case using Cons.prems b s n by (subst malloc_find.simps) auto
qed

lemma first_fit_None: "first_fit lim sz a (xs @ (n, False) # ys) = None \<Longrightarrow> n < sz + 12 \<or> lim \<le> a + extent xs"
proof (induction xs arbitrary: a)
  case (Cons b xs)
  show ?case using Cons.IH [of "a + fst b"] Cons.prems by (cases b) (auto split: if_splits)
qed (auto split: if_splits)

lemma first_fit_Some:
  "first_fit lim sz a bs = Some p \<Longrightarrow> \<exists>xs n ys. bs = xs @ (n, False) # ys \<and> p = a + extent xs \<and> sz + 12 \<le> n"
proof (induction lim sz a bs rule: first_fit.induct)
  case (2 lim sz a n u bs)
  show ?case
  proof (cases "\<not> u \<and> sz + 12 \<le> n")
    case True
    then show ?thesis using "2.prems" by (intro exI [of _ "[]"]) (auto split: if_splits)
  next
    case False
    have a: "a < lim" using "2.prems" by (auto split: if_splits)
    obtain xs m ys where "bs = xs @ (m, False) # ys" "p = a + n + extent xs" "sz + 12 \<le> m"
      using "2.IH" [OF a] False "2.prems" a by auto
    then show ?thesis by (intro exI [of _ "(n, u) # xs"]) auto
  qed
qed simp

lemma first_fit_used: "\<forall>b\<in>set xs. snd b \<Longrightarrow> first_fit lim sz a (xs @ ys) = first_fit lim sz (a + extent xs) ys"
proof (induction xs arbitrary: a)
  case (Cons b xs)
  obtain n where b: "b = (n, True)" using Cons.prems by (cases b) auto
  have "first_fit lim sz c zs = None" if "lim \<le> c" for c zs using that by (cases zs) auto
  then show ?case using Cons b by (simp add: add.assoc)
qed simp

lemma next_free_eq:
  "rep h pv a bs \<Longrightarrow> a + extent bs = heap_end h \<Longrightarrow> used (hdrs h (heap_end h)) \<noteq> 0 \<Longrightarrow>
    next_free a h = Some (a + extent (takeWhile snd bs))"
proof (induction bs arbitrary: pv a)
  case (Cons b bs)
  obtain n u where b: "b = (n, u)" by (cases b)
  have "u \<Longrightarrow> next_free (a + n) h = Some (a + n + extent (takeWhile snd bs))"
    using Cons.prems b by (intro Cons.IH [of a]) simp_all
  then show ?case using Cons.prems b by (subst next_free.simps) auto
qed (subst next_free.simps; simp)

section \<open>Allocating\<close>

lemma count_used_sel [simp]:
  "hdrs (count_used n h) = hdrs h" "heap_ptr (count_used n h) = heap_ptr h" "heap_data (count_used n h) = heap_data h"
  "heap_end (count_used n h) = heap_end h" "lfree (count_used n h) = lfree h"
  "mem_size_aligned (count_used n h) = mem_size_aligned h" "used_mem (count_used n h) = (used_mem h + n) mod 2 ^ 32"
  by (simp_all add: count_used_def Let_def unsigned_of_nat take_bit_eq_mod flip: of_nat_add)

lemma malloc_take_sel:
  "heap_ptr (malloc_take sz a h) = heap_ptr h" "heap_data (malloc_take sz a h) = heap_data h"
  "heap_end (malloc_take sz a h) = heap_end h" "lfree (malloc_take sz a h) = lfree h"
  "mem_size_aligned (malloc_take sz a h) = mem_size_aligned h"
  by (simp_all add: malloc_take_def Let_def)

lemma malloc_take_max: "used_mem (malloc_take sz a h) \<le> max_mem (malloc_take sz a h)"
  by (simp add: malloc_take_def Let_def count_used_def)

text \<open>What becomes of a free block of length \<open>n\<close>.\<close>

definition taken :: "nat \<Rightarrow> nat \<Rightarrow> block list" where
  "taken sz n = (if sz + 36 \<le> n then [(sz + 12, True), (n - (sz + 12), False)] else [(n, True)])"

lemma taken_extent: "sz + 12 \<le> n \<Longrightarrow> extent (taken sz n) = n"
  by (simp add: taken_def)

text \<open>The hole between blocks that stay is filled with new ones.\<close>

lemma rep_middle:
  assumes r: "rep h 0 0 (xs @ b # ys)" and z: "rep h' (before 0 0 xs) (extent xs) zs" "extent zs = fst b"
    and l: "\<And>p. p < extent xs \<Longrightarrow> hdrs h' p = hdrs h p"
    and y: "rep h' (before (before 0 0 xs) (extent xs) zs) (extent xs + fst b) ys"
  shows "rep h' 0 0 (xs @ zs @ ys)"
proof -
  have "rep h' 0 0 xs" using r l by (intro rep_cong [of h 0 0 xs h']) simp_all
  then show ?thesis using z y by simp
qed

lemma malloc_take_rep:
  assumes r: "rep h 0 0 (xs @ (n, False) # ys)" and e: "mem_size_aligned h + 12 = extent xs + n + extent ys"
    and lt: "extent xs + n + extent ys < 2 ^ 32" and sz: "sz + 12 \<le> n" "sz mod 4 = 0" "12 \<le> sz"
    and u: "used_mem h + n < 2 ^ 32"
  shows "rep (malloc_take sz (extent xs) h) 0 0 (xs @ taken sz n @ ys)"
    "hdrs (malloc_take sz (extent xs) h) (extent xs + n + extent ys) = hdrs h (extent xs + n + extent ys)"
    "used_mem (malloc_take sz (extent xs) h) = used_mem h + extent (filter snd (taken sz n))"
proof -
  let ?a = "extent xs" and ?h = "malloc_take sz (extent xs) h"
  let ?p = "?a + 12 + sz"
  have a: "hdrs h ?a = \<lparr>magic = HEAP_MAGIC, used = 0, next_off = ?a + n, prev_off = before 0 0 xs\<rparr>" and n: "16 \<le> n" "n mod 4 = 0"
    and ys: "rep h ?a (?a + n) ys" using r by simp_all
  have s1: "size_sub (?a + n) (?a + 12) = n - 12" using n lt size_sub_le [of "?a + 12" "?a + n"] by simp
  have s2: "size_sub (?a + n) ?a = n" using lt size_sub_le [of ?a "?a + n"] by simp
  consider (split) "sz + 36 \<le> n" | (whole) "\<not> sz + 36 \<le> n" by blast
  then have "rep ?h 0 0 (xs @ taken sz n @ ys) \<and> hdrs ?h (?a + n + extent ys) = hdrs h (?a + n + extent ys) \<and>
      used_mem ?h = used_mem h + extent (filter snd (taken sz n))"
  proof cases
    case split
    define H where "H = (hdrs h)(?p := \<lparr>magic = HEAP_MAGIC, used = 0, next_off = ?a + n, prev_off = ?a\<rparr>,
      ?a := \<lparr>magic = HEAP_MAGIC, used = 1, next_off = ?p, prev_off = before 0 0 xs\<rparr>)"
    have hd: "hdrs ?h = (if ys = [] then H else H(?a + n := (hdrs h (?a + n))\<lparr>prev_off := ?p\<rparr>))"
    proof -
      have e': "?a + n = mem_size_aligned h + 12 \<longleftrightarrow> ys = []" using e rep_nonempty [OF ys] by (cases "ys = []") auto
      have ne: "?a + n \<noteq> ?a" "?a + n \<noteq> ?p" "?p \<noteq> ?a" using split n by simp_all
      have ge: "n - 12 \<ge> sz + 12 + 12" using split by simp
      show ?thesis
        unfolding malloc_take_def Let_def a using e' ne ge s1 by (auto simp: H_def a fun_eq_iff)
    qed
    have t: "taken sz n = [(sz + 12, True), (n - (sz + 12), False)]" using split by (simp add: taken_def)
    have ge: "24 + sz \<le> n - 12" using split by simp
    have m: "(n - (sz + 12)) mod 4 = 0" "(sz + 12) mod 4 = 0" using n(2) sz(2) by presburger+
    have z: "rep ?h (before 0 0 xs) ?a (taken sz n)"
      unfolding t using split sz m by (auto simp: hd H_def add.assoc add.commute add.left_commute)
    have "rep ?h (before (before 0 0 xs) ?a (taken sz n)) (?a + n) ys"
    proof (cases "ys = []")
      case False
      have "rep ?h ?p (?a + n) ys"
        by (rule rep_prev [OF ys]) (use False split in \<open>auto simp: hd H_def\<close>)
      then show ?thesis unfolding t by (simp add: add.assoc add.commute add.left_commute)
    qed simp
    then have "rep ?h 0 0 (xs @ taken sz n @ ys)"
      by (intro rep_middle [OF r z]) (use split taken_extent [OF sz(1)] in \<open>auto simp: hd H_def\<close>)
    moreover have "hdrs ?h (?a + n + extent ys) = hdrs h (?a + n + extent ys)"
      using split n rep_nonempty [OF ys] by (auto simp: hd H_def)
    moreover have "used_mem ?h = used_mem h + (sz + 12)"
      using split u s1 a ge by (simp add: malloc_take_def Let_def)
    ultimately show ?thesis by (simp add: t)
  next
    case whole
    have lt': "\<not> n - 12 \<ge> sz + 12 + 12" using whole n by simp
    have hd: "hdrs ?h = (hdrs h)(?a := \<lparr>magic = HEAP_MAGIC, used = 1, next_off = ?a + n, prev_off = before 0 0 xs\<rparr>)"
      using lt' s1 a by (simp add: malloc_take_def Let_def)
    have t: "taken sz n = [(n, True)]" using whole by (simp add: taken_def)
    have z: "rep ?h (before 0 0 xs) ?a (taken sz n)" unfolding t using n by (simp add: hd)
    have "rep ?h ?a (?a + n) ys" by (rule rep_cong [OF ys]) (use n in \<open>auto simp: hd\<close>)
    then have "rep ?h 0 0 (xs @ taken sz n @ ys)" by (intro rep_middle [OF r z]) (auto simp: hd t)
    moreover have "used_mem ?h = used_mem h + n" using lt' s1 s2 a u by (simp add: malloc_take_def Let_def)
    ultimately show ?thesis using n by (simp add: t hd)
  qed
  then show "rep ?h 0 0 (xs @ taken sz n @ ys)" "hdrs ?h (?a + n + extent ys) = hdrs h (?a + n + extent ys)"
    "used_mem ?h = used_mem h + extent (filter snd (taken sz n))" by blast+
qed

text \<open>The number of bytes that a request gets at least.\<close>

definition want :: "u32 \<Rightarrow> nat" where
  "want size_arg = max 12 ((unat size_arg + 3) div 4 * 4)"

lemma taken_coalesced:
  assumes "successively (\<lambda>x y. snd x \<or> snd y) (xs @ (n, False) # ys)"
  shows "successively (\<lambda>x y. snd x \<or> snd y) (xs @ taken sz n @ ys)"
  using assms by (cases ys) (auto simp: successively_append_iff taken_def)

lemma taken_first_free:
  assumes "lf = extent (takeWhile snd (xs @ (n, False) # ys))" "lf \<noteq> extent xs"
  shows "extent (takeWhile snd (xs @ zs)) = lf"
proof -
  have "\<not> (\<forall>b\<in>set xs. snd b)"
  proof
    assume "\<forall>b\<in>set xs. snd b"
    then have "takeWhile snd (xs @ (n, False) # ys) = xs" by (simp add: takeWhile_append2)
    then show False using assms by simp
  qed
  then show ?thesis using assms(1) takeWhile_append1 [of _ xs snd] by auto
qed

lemma first_free_used:
  assumes "extent (takeWhile snd (xs @ (n, False) # ys)) = extent xs" "rep h 0 0 xs"
  shows "\<forall>b\<in>set xs. snd b"
proof (rule ccontr)
  assume "\<not> (\<forall>b\<in>set xs. snd b)"
  then obtain b where b: "b \<in> set xs" "\<not> snd b" by blast
  then have t: "takeWhile snd (xs @ (n, False) # ys) = takeWhile snd xs" by (rule takeWhile_append1)
  have "xs = takeWhile snd xs @ dropWhile snd xs" by simp
  then have "extent xs = extent (takeWhile snd xs) + extent (dropWhile snd xs)" by (metis extent_simps(3))
  moreover have d: "dropWhile snd xs \<noteq> []" using b by (simp add: dropWhile_eq_Nil_conv) blast
  have "rep h 0 0 (takeWhile snd xs @ dropWhile snd xs)" using assms(2) by simp
  then have "12 \<le> extent (dropWhile snd xs)" using rep_nonempty d unfolding rep_append by blast
  ultimately show False using assms(1) t by simp
qed

lemma rt_malloc_found:
  assumes r: "heap_rep h (xs @ (n, False) # ys)" and sz: "sz + 12 \<le> n" "sz mod 4 = 0" "12 \<le> sz"
  defines "h1 \<equiv> malloc_take sz (extent xs) h"
  shows "\<exists>h'. advance_lfree (extent xs) h1 = Some h' \<and> heap_rep h' (xs @ taken sz n @ ys) \<and> heap_data h' = heap_data h \<and> heap_ptr h' = heap_ptr h \<and>
      heap_end h' = heap_end h"
proof -
  let ?bs = "xs @ (n, False) # ys" and ?cs = "xs @ taken sz n @ ys"
  note d = heap_repD [OF r]
  have lt: "extent xs + n + extent ys < 2 ^ 32" using d(11,12) by simp
  have ext: "extent ?cs = extent ?bs" using taken_extent [OF sz(1)] by simp
  have "used_mem h + n \<le> extent ?bs"
  proof -
    show ?thesis using d(9) used_extent [of xs] used_extent [of ys] by simp
  qed
  then have u: "used_mem h + n < 2 ^ 32" using lt by simp
  have e: "mem_size_aligned h + 12 = extent xs + n + extent ys" using d(5) by simp
  note m = malloc_take_rep [OF d(1) e lt sz u, folded h1_def]
  have sel: "heap_ptr h1 = heap_ptr h" "heap_data h1 = heap_data h" "heap_end h1 = heap_end h" "lfree h1 = lfree h"
      "mem_size_aligned h1 = mem_size_aligned h"
    by (simp_all add: h1_def malloc_take_sel)
  have endu: "used (hdrs h1 (extent ?cs)) \<noteq> 0" using m(2) d(7) ext by (simp add: add.assoc)
  have hr: "heap_rep (h1\<lparr>lfree := l\<rparr>) ?cs" if "l = extent (takeWhile snd ?cs)" for l
  proof -
    have "rep (h1\<lparr>lfree := l\<rparr>) 0 0 ?cs" by (rule rep_cong [OF m(1)]) simp
    moreover have "used_mem h1 = extent (filter snd ?cs)" using m(3) d(9) by simp
    ultimately show ?thesis
      using that d(4-6,10-12) sel endu ext taken_coalesced [OF d(3)] malloc_take_max [of sz "extent xs" h, folded h1_def]
      by (simp add: heap_rep_def taken_def)
  qed
  show ?thesis
  proof (cases "extent xs = lfree h1")
    case True
    have xs: "\<forall>b\<in>set xs. snd b" using first_free_used [of xs n ys h] True sel d(8) d(1) by simp
    have "rep h1 (before 0 0 xs) (extent xs) (taken sz n @ ys)" using m(1) by simp
    then have nf: "next_free (extent xs) h1 = Some (extent xs + extent (takeWhile snd (taken sz n @ ys)))"
      using next_free_eq endu ext d(4) sel by simp
    moreover have l: "extent xs + extent (takeWhile snd (taken sz n @ ys)) = extent (takeWhile snd ?cs)"
      using xs by (simp add: takeWhile_append2)
    moreover have "used (hdrs h1 (extent (takeWhile snd ?cs))) = 0 \<or> extent (takeWhile snd ?cs) = heap_end h1"
    proof -
      have "rep h1 0 0 (takeWhile snd ?cs @ dropWhile snd ?cs)" using m(1) by simp
      then have rd: "rep h1 (before 0 0 (takeWhile snd ?cs)) (extent (takeWhile snd ?cs)) (dropWhile snd ?cs)"
        unfolding rep_append by simp
      show ?thesis
      proof (cases "dropWhile snd ?cs")
        case Nil
        then have tw: "takeWhile snd ?cs = ?cs" by (metis append_Nil2 takeWhile_dropWhile_id)
        show ?thesis unfolding tw using ext d(4) sel by simp
      next
        case (Cons b bs)
        then have "\<not> snd b" using hd_dropWhile [of snd ?cs] by simp
        then show ?thesis using rd Cons by (cases b) simp
      qed
    qed
    ultimately show ?thesis using True hr [OF l] sel by (auto simp: l advance_lfree_def)
  next
    case False
    then have "lfree h1 = extent (takeWhile snd ?cs)"
      using taken_first_free [OF d(8), of "taken sz n @ ys"] sel by simp
    then have "heap_rep (h1\<lparr>lfree := lfree h1\<rparr>) ?cs" by (rule hr)
    then have "heap_rep h1 ?cs" by simp
    then show ?thesis using False sel by (auto simp: advance_lfree_def)
  qed
qed

lemma want_facts: "12 \<le> want size_arg" "want size_arg mod 4 = 0"
  by (simp_all add: want_def max_def)

lemma rt_malloc_ok:
  assumes r: "heap_rep h bs" and sz: "size_arg \<noteq> 0" "unat size_arg + 3 < 2 ^ 32"
  shows "(\<exists>xs n ys h'. bs = xs @ (n, False) # ys \<and> want size_arg + 12 \<le> n \<and>
      rt_malloc size_arg h = Some (heap_ptr h + extent xs + 12, h') \<and> heap_rep h' (xs @ taken (want size_arg) n @ ys) \<and>
      heap_data h' = heap_data h \<and> heap_ptr h' = heap_ptr h \<and> heap_end h' = heap_end h) \<or>
    (rt_malloc size_arg h = Some (0, h) \<and>
      (\<forall>xs n ys. bs = xs @ (n, False) # ys \<longrightarrow> n < want size_arg + 12 \<or> mem_size_aligned h \<le> extent xs + want size_arg))"
proof -
  let ?w = "want size_arg" and ?al = "unat (RT_ALIGN size_arg 4)"
  note d = heap_repD [OF r]
  have al: "?al = (unat size_arg + 3) div 4 * 4" by (rule unat_RT_ALIGN [OF sz(2)])
  have w: "(if ?al < 12 then 12 else ?al) = ?w" unfolding al want_def by auto
  show ?thesis
  proof (cases "?al > mem_size_aligned h")
    case True
    have "n < ?w + 12" if "bs = xs @ (n, False) # ys" for xs n ys
    proof -
      have "n \<le> mem_size_aligned h + 12" using that d(5) by simp
      then show ?thesis using True unfolding al want_def by simp
    qed
    then show ?thesis using True sz(1) by (auto simp: rt_malloc_def)
  next
    case False
    then have wle: "?w \<le> mem_size_aligned h" using d(6) unfolding al want_def by simp
    let ?ts = "takeWhile snd bs" and ?ds = "dropWhile snd bs"
    have "rep h 0 0 (?ts @ ?ds)" using d(1) by simp
    then have rd: "rep h (before 0 0 ?ts) (extent ?ts) ?ds" unfolding rep_append by simp
    have ex: "extent ?ts + extent ?ds = extent bs" by (metis extent_simps(3) takeWhile_dropWhile_id)
    have lt: "extent bs < 2 ^ 32" using d(11,12) by simp
    have "malloc_find ?w (lfree h) h = Some (first_fit (mem_size_aligned h - ?w) ?w (extent ?ts) ?ds)"
      unfolding d(8) using ex lt d(5) wle by (intro malloc_find_eq [OF rd]) simp_all
    moreover have "\<forall>b\<in>set ?ts. snd b" using set_takeWhileD by fast
    then have "first_fit (mem_size_aligned h - ?w) ?w (extent ?ts) ?ds = first_fit (mem_size_aligned h - ?w) ?w 0 (?ts @ ?ds)"
      using first_fit_used [of ?ts "mem_size_aligned h - ?w" ?w 0 ?ds] by simp
    ultimately have f: "malloc_find ?w (lfree h) h = Some (first_fit (mem_size_aligned h - ?w) ?w 0 bs)" by simp
    show ?thesis
    proof (cases "first_fit (mem_size_aligned h - ?w) ?w 0 bs")
      case None
      then have "n < ?w + 12 \<or> mem_size_aligned h \<le> extent xs + ?w" if "bs = xs @ (n, False) # ys" for xs n ys
        using first_fit_None [of "mem_size_aligned h - ?w" ?w 0 xs n ys] that by auto
      moreover have "rt_malloc size_arg h = Some (0, h)" using False sz(1) w f None by (simp add: rt_malloc_def Let_def)
      ultimately show ?thesis by blast
    next
      case (Some p)
      obtain xs n ys where bs: "bs = xs @ (n, False) # ys" "p = extent xs" "?w + 12 \<le> n" using first_fit_Some [OF Some] by auto
      obtain h' where h': "advance_lfree (extent xs) (malloc_take ?w (extent xs) h) = Some h'" "heap_rep h' (xs @ taken ?w n @ ys)" "heap_data h' = heap_data h" "heap_ptr h' = heap_ptr h"
          "heap_end h' = heap_end h"
        using rt_malloc_found [OF r [unfolded bs(1)] bs(3) want_facts(2,1)] by blast
      have "rep h 0 0 xs" using d(1) bs(1) by simp
      then have x4: "extent xs mod 4 = 0" by (rule rep_extent_mod)
      have "(heap_ptr h + extent xs) mod 4 = 0" "(heap_ptr h + extent xs + 12) mod 4 = 0" using x4 d(10) by presburger+
      moreover have "extent xs + 12 + ?w \<le> heap_end h" using bs d(4) by simp
      ultimately have "rt_malloc size_arg h = Some (heap_ptr h + extent xs + 12, h')"
        using False sz(1) w f Some bs(2) h'(1,4,5) unfolding rt_malloc_def Let_def by simp
      then show ?thesis using bs h' by blast
    qed
  qed
qed

section \<open>Joining free blocks\<close>

definition join_next :: "nat \<Rightarrow> block list \<Rightarrow> block list" where
  "join_next n ys = (case ys of (m, False) # zs \<Rightarrow> (n + m, False) # zs | _ \<Rightarrow> (n, False) # ys)"

text \<open>The block list with a free block of length \<open>n\<close> between \<open>xs\<close> and \<open>ys\<close>.\<close>

definition fuse :: "block list \<Rightarrow> nat \<Rightarrow> block list \<Rightarrow> block list" where
  "fuse xs n ys =
    (if xs \<noteq> [] \<and> \<not> snd (last xs) then butlast xs @ (fst (last xs) + fst (hd (join_next n ys)), False) # tl (join_next n ys)
     else xs @ join_next n ys)"

definition same_rest :: "heap \<Rightarrow> heap \<Rightarrow> bool" where
  "same_rest h h' \<longleftrightarrow> heap_ptr h' = heap_ptr h \<and> heap_data h' = heap_data h \<and> heap_end h' = heap_end h \<and> lfree h' = lfree h \<and>
    mem_size_aligned h' = mem_size_aligned h \<and> used_mem h' = used_mem h \<and> max_mem h' = max_mem h \<and>
    used (hdrs h' (heap_end h)) = used (hdrs h (heap_end h))"

lemma same_rest_trans: "same_rest h h' \<Longrightarrow> same_rest h' h'' \<Longrightarrow> same_rest h h''"
  by (simp add: same_rest_def)

lemma rep_merge:
  assumes r: "rep h 0 0 (ws @ (m, False) # (n, False) # zs)" and e: "heap_end h = extent ws + m + n + extent zs"
  defines "h' \<equiv> upd_mem (extent ws + m + n) (\<lambda>x. x\<lparr>prev_off := extent ws\<rparr>) (upd_mem (extent ws) (\<lambda>x. x\<lparr>next_off := extent ws + m + n\<rparr>) h)"
  shows "rep h' 0 0 (ws @ (m + n, False) # zs)" "same_rest h h'"
proof -
  let ?a = "extent ws"
  have a: "hdrs h ?a = \<lparr>magic = HEAP_MAGIC, used = 0, next_off = ?a + m, prev_off = before 0 0 ws\<rparr>"
    and s: "16 \<le> m" "m mod 4 = 0" "16 \<le> n" "n mod 4 = 0" and z: "rep h (?a + m) (?a + m + n) zs"
    using r by simp_all
  have w: "rep h' 0 0 ws" by (rule rep_cong [of h]) (use r in \<open>auto simp: h'_def\<close>)
  have z': "rep h' ?a (?a + m + n) zs"
    by (rule rep_prev [OF z]) (use s in \<open>auto simp: h'_def\<close>)
  have "(m + n) mod 4 = 0" using s by presburger
  then show "rep h' 0 0 (ws @ (m + n, False) # zs)" using w z' a s by (simp add: h'_def add.assoc)
  show "same_rest h h'" using a s e by (auto simp: same_rest_def h'_def)
qed

lemma plug_forward_rep:
  assumes r: "rep h 0 0 (xs @ (n, False) # ys)" and e: "heap_end h = extent xs + n + extent ys" and l: "lfree h \<le> extent xs"
  shows "rep (plug_forward (extent xs) h) 0 0 (xs @ join_next n ys)" "same_rest h (plug_forward (extent xs) h)"
proof -
  let ?a = "extent xs"
  have a: "next_off (hdrs h ?a) = ?a + n" "12 \<le> n" and y: "rep h ?a (?a + n) ys" using r by simp_all
  have "rep (plug_forward ?a h) 0 0 (xs @ join_next n ys) \<and> same_rest h (plug_forward ?a h)"
  proof (cases "\<exists>m zs. ys = (m, False) # zs")
    case True
    then obtain m zs where ys: "ys = (m, False) # zs" by blast
    have b: "hdrs h (?a + n) = \<lparr>magic = HEAP_MAGIC, used = 0, next_off = ?a + n + m, prev_off = ?a\<rparr>" "12 \<le> m" using y ys by simp_all
    have "plug_forward ?a h =
        upd_mem (?a + n + m) (\<lambda>x. x\<lparr>prev_off := ?a\<rparr>) (upd_mem ?a (\<lambda>x. x\<lparr>next_off := ?a + n + m\<rparr>) h)"
      using a b l e ys by (simp add: plug_forward_def Let_def)
    then show ?thesis using rep_merge [of h xs n m zs] r e ys by (simp add: join_next_def)
  next
    case False
    then have j: "join_next n ys = (n, False) # ys" by (auto simp: join_next_def split: list.splits bool.splits)
    have "plug_forward ?a h = h"
    proof (cases ys)
      case Nil
      then show ?thesis using a e by (simp add: plug_forward_def Let_def)
    next
      case (Cons c cs)
      then have "used (hdrs h (?a + n)) = 1" using False y by (cases c) auto
      then show ?thesis using a by (simp add: plug_forward_def Let_def)
    qed
    then show ?thesis using r j by (simp add: same_rest_def)
  qed
  then show "rep (plug_forward ?a h) 0 0 (xs @ join_next n ys)" "same_rest h (plug_forward ?a h)" by blast+
qed

lemma plug_backward_rep:
  assumes r: "rep h 0 0 (xs @ (n, False) # ys)" and e: "heap_end h = extent xs + n + extent ys"
    and l: "xs \<noteq> [] \<and> \<not> snd (last xs) \<longrightarrow> lfree h \<noteq> extent xs"
  shows "rep (plug_backward (extent xs) h) 0 0
      (if xs \<noteq> [] \<and> \<not> snd (last xs) then butlast xs @ (fst (last xs) + n, False) # ys else xs @ (n, False) # ys)"
    "same_rest h (plug_backward (extent xs) h)"
proof -
  let ?a = "extent xs"
  let ?bs = "if xs \<noteq> [] \<and> \<not> snd (last xs) then butlast xs @ (fst (last xs) + n, False) # ys else xs @ (n, False) # ys"
  have a: "hdrs h ?a = \<lparr>magic = HEAP_MAGIC, used = 0, next_off = ?a + n, prev_off = before 0 0 xs\<rparr>" "12 \<le> n" using r by simp_all
  have "rep (plug_backward ?a h) 0 0 ?bs \<and> same_rest h (plug_backward ?a h)"
  proof (cases xs rule: rev_cases)
    case Nil
    then show ?thesis using r a by (simp add: plug_backward_def Let_def same_rest_def)
  next
    case (snoc ws b)
    obtain m u where b: "b = (m, u)" by (cases b)
    have p: "prev_off (hdrs h ?a) = extent ws" "used (hdrs h (extent ws)) = (if u then 1 else 0)" "12 \<le> m" "extent ws \<noteq> ?a"
      using a r snoc b by simp_all
    show ?thesis
    proof (cases u)
      case True
      then show ?thesis using r p snoc b by (simp add: plug_backward_def Let_def same_rest_def)
    next
      case False
      have "plug_backward ?a h =
          upd_mem (extent ws + m + n) (\<lambda>x. x\<lparr>prev_off := extent ws\<rparr>) (upd_mem (extent ws) (\<lambda>x. x\<lparr>next_off := extent ws + m + n\<rparr>) h)"
        using False a p l snoc b by (simp add: plug_backward_def Let_def)
      then show ?thesis using rep_merge [of h ws m n ys] r e snoc b False by simp
    qed
  qed
  then show "rep (plug_backward ?a h) 0 0 ?bs" "same_rest h (plug_backward ?a h)" by blast+
qed

lemma takeWhile_free: "takeWhile snd (xs @ (n, False) # ys) = takeWhile snd xs"
  by (induction xs) auto

lemma extent_takeWhile: "extent (takeWhile P xs) \<le> extent xs"
  by (induction xs) auto

lemma join_next_form: "\<exists>m zs. join_next n ys = (m, False) # zs \<and> m + extent zs = n + extent ys \<and> filter snd zs = filter snd ys"
  by (auto simp: join_next_def split: list.split bool.split)

lemma plug_holes_ok:
  assumes r: "rep h 0 0 (xs @ (n, False) # ys)" and e: "heap_end h = extent xs + n + extent ys"
    and l: "lfree h = extent (takeWhile snd xs)"
  shows "\<exists>h'. plug_holes (extent xs) h = Some h' \<and> rep h' 0 0 (fuse xs n ys) \<and> same_rest h h'"
proof -
  let ?h = "plug_forward (extent xs) h"
  have a: "used (hdrs h (extent xs)) = 0" "12 \<le> n" using r by simp_all
  have le: "lfree h \<le> extent xs" using l extent_takeWhile by simp
  note f = plug_forward_rep [OF r e le]
  obtain m zs where j: "join_next n ys = (m, False) # zs" "m + extent zs = n + extent ys" using join_next_form by blast
  have "lfree ?h \<noteq> extent xs" if "xs \<noteq> []" "\<not> snd (last xs)"
  proof
    assume "lfree ?h = extent xs"
    then have "extent (takeWhile snd (xs @ (n, False) # ys)) = extent xs"
      using f(2) l by (simp add: same_rest_def takeWhile_free)
    moreover have "rep h 0 0 xs" using r by simp
    ultimately show False using first_free_used that by (meson last_in_set)
  qed
  moreover have "rep ?h 0 0 (xs @ (m, False) # zs)" "heap_end ?h = extent xs + m + extent zs"
    using f e j by (simp_all add: same_rest_def)
  ultimately have b: "rep (plug_backward (extent xs) ?h) 0 0
      (if xs \<noteq> [] \<and> \<not> snd (last xs) then butlast xs @ (fst (last xs) + m, False) # zs else xs @ (m, False) # zs)"
    "same_rest ?h (plug_backward (extent xs) ?h)"
    using plug_backward_rep [of ?h xs m zs] by blast+
  have "rep (plug_backward (extent xs) ?h) 0 0 (fuse xs n ys)" using b(1) unfolding fuse_def j(1) list.sel fst_conv .
  moreover have "same_rest h (plug_backward (extent xs) ?h)" using same_rest_trans f(2) b(2) .
  moreover have "plug_holes (extent xs) h = Some (plug_backward (extent xs) ?h)" using a e by (simp add: plug_holes_def)
  ultimately show ?thesis by blast
qed

lemma fuse_facts:
  shows "extent (fuse xs n ys) = extent xs + n + extent ys" "fuse xs n ys \<noteq> []"
    "extent (takeWhile snd (fuse xs n ys)) = extent (takeWhile snd xs)"
    "extent (filter snd (fuse xs n ys)) = extent (filter snd xs) + extent (filter snd ys)"
proof -
  obtain m zs where j: "join_next n ys = (m, False) # zs" "m + extent zs = n + extent ys" "filter snd zs = filter snd ys"
    using join_next_form by blast
  have "extent (fuse xs n ys) = extent xs + n + extent ys \<and> fuse xs n ys \<noteq> [] \<and>
    extent (takeWhile snd (fuse xs n ys)) = extent (takeWhile snd xs) \<and>
    extent (filter snd (fuse xs n ys)) = extent (filter snd xs) + extent (filter snd ys)"
  proof (cases "xs \<noteq> [] \<and> \<not> snd (last xs)")
    case True
    then obtain ws k where xs: "xs = ws @ [(k, False)]" by (metis append_butlast_last_id prod.collapse)
    then show ?thesis
      using j takeWhile_free [of ws k "[]"] takeWhile_free [of ws "k + m" zs] by (simp add: fuse_def)
  next
    case False
    then have "fuse xs n ys = xs @ (m, False) # zs" using j(1) by (auto simp: fuse_def)
    then show ?thesis using j takeWhile_free [of xs m zs] by simp
  qed
  then show "extent (fuse xs n ys) = extent xs + n + extent ys" "fuse xs n ys \<noteq> []"
    "extent (takeWhile snd (fuse xs n ys)) = extent (takeWhile snd xs)"
    "extent (filter snd (fuse xs n ys)) = extent (filter snd xs) + extent (filter snd ys)" by blast+
qed

lemma join_coalesced:
  "successively (\<lambda>x y. snd x \<or> snd y) ys \<Longrightarrow> successively (\<lambda>x y. snd x \<or> snd y) (join_next n ys)"
  by (auto simp: join_next_def successively_Cons split: list.splits bool.splits)

lemma fuse_coalesced:
  assumes "successively (\<lambda>x y. snd x \<or> snd y) (xs @ (n, True) # ys)"
  shows "successively (\<lambda>x y. snd x \<or> snd y) (fuse xs n ys)"
proof -
  let ?P = "\<lambda>x y :: block. snd x \<or> snd y"
  have x: "successively ?P xs" and y: "successively ?P ys" using assms by (auto simp: successively_append_iff successively_Cons)
  obtain m zs where j: "join_next n ys = (m, False) # zs" using join_next_form by blast
  have jc: "successively ?P ((m, False) # zs)" using join_coalesced [OF y, of n] j by simp
  show ?thesis
  proof (cases "xs \<noteq> [] \<and> \<not> snd (last xs)")
    case True
    then obtain ws k where xs: "xs = ws @ [(k, False)]" by (metis append_butlast_last_id prod.collapse)
    then show ?thesis using True x jc j by (auto simp: fuse_def successively_append_iff successively_Cons)
  next
    case False
    then have "fuse xs n ys = xs @ (m, False) # zs" using j by (auto simp: fuse_def)
    then show ?thesis using False x jc by (auto simp: successively_append_iff)
  qed
qed

text \<open>A free block behind \<open>xs\<close> and the blocks \<open>zs\<close> in use, in place of one in use: the lowest free block.\<close>

lemma lowest_free:
  assumes "extent zs < n" "\<forall>b\<in>set zs. snd b"
  shows "(if extent xs + extent zs < extent (takeWhile snd (xs @ (n, True) # ys)) then extent xs + extent zs
      else extent (takeWhile snd (xs @ (n, True) # ys))) = extent (takeWhile snd (xs @ zs))"
proof (cases "\<forall>b\<in>set xs. snd b")
  case True
  then have "takeWhile snd (xs @ zs) = xs @ zs" using assms(2) by (auto simp: takeWhile_eq_all_conv)
  then have "extent (takeWhile snd (xs @ zs)) = extent xs + extent zs" by (metis extent_simps(3))
  moreover have "extent (takeWhile snd (xs @ (n, True) # ys)) > extent xs + extent zs" using True assms(1) by (simp add: takeWhile_append2)
  ultimately show ?thesis by simp
next
  case False
  then have "takeWhile snd (xs @ (n, True) # ys) = takeWhile snd xs" "takeWhile snd (xs @ zs) = takeWhile snd xs"
    using takeWhile_append1 [of _ xs snd] by auto
  then show ?thesis using extent_takeWhile [of snd xs] by simp
qed

lemma rt_free_ok:
  assumes r: "heap_rep h (xs @ (n, True) # ys)"
  shows "\<exists>h'. rt_free (heap_ptr h + extent xs + 12) h = Some h' \<and> heap_rep h' (fuse xs n ys) \<and> heap_data h' = heap_data h \<and>
    heap_ptr h' = heap_ptr h \<and> heap_end h' = heap_end h"
proof -
  let ?a = "extent xs" and ?bs = "xs @ (n, True) # ys"
  note d = heap_repD [OF r]
  have a: "hdrs h ?a = \<lparr>magic = HEAP_MAGIC, used = 1, next_off = ?a + n, prev_off = before 0 0 xs\<rparr>" "16 \<le> n" "n mod 4 = 0"
    and y: "rep h ?a (?a + n) ys" and x: "rep h 0 0 xs" using d(1) by simp_all
  have lt: "?a + n + extent ys < 2 ^ 32" using d(11,12) by simp
  have s: "size_sub (?a + n) ?a = n" using lt size_sub_le [of ?a "?a + n"] by simp
  have um: "used_mem h = extent (filter snd xs) + n + extent (filter snd ys)" using d(9) by simp
  have su: "size_sub (used_mem h) n = extent (filter snd xs) + extent (filter snd ys)"
    using size_sub_le [of n "used_mem h"] um lt used_extent [of xs] used_extent [of ys] by simp
  define h1 where "h1 = upd_mem ?a (\<lambda>m. m\<lparr>used := 0, magic := HEAP_MAGIC\<rparr>) h"
  define h2 where "h2 = (if ?a < lfree h1 then h1\<lparr>lfree := ?a\<rparr> else h1)"
  define h3 where "h3 = h2\<lparr>used_mem := size_sub (used_mem h2) (size_sub (next_off (hdrs h2 ?a)) ?a)\<rparr>"
  have sel: "hdrs h3 = (hdrs h)(?a := \<lparr>magic = HEAP_MAGIC, used = 0, next_off = ?a + n, prev_off = before 0 0 xs\<rparr>)"
      "heap_end h3 = heap_end h" "heap_ptr h3 = heap_ptr h" "heap_data h3 = heap_data h" "mem_size_aligned h3 = mem_size_aligned h"
      "used_mem h3 = extent (filter snd xs) + extent (filter snd ys)" "max_mem h3 = max_mem h"
    using a s su by (simp_all add: h3_def h2_def h1_def)
  have lf: "lfree h3 = extent (takeWhile snd xs)"
    using lowest_free [of "[]" n xs ys] a(2) d(8) by (simp add: h3_def h2_def h1_def split: if_splits)
  have r3: "rep h3 0 0 (xs @ (n, False) # ys)"
    using rep_cong [OF x, of h3] rep_cong [OF y, of h3] a by (simp add: sel)
  have e3: "heap_end h3 = ?a + n + extent ys" using sel(2) d(4) by simp
  obtain h' where h': "plug_holes ?a h3 = Some h'" "rep h' 0 0 (fuse xs n ys)" "same_rest h3 h'"
    using plug_holes_ok [OF r3 e3 lf] by blast
  have "extent xs mod 4 = 0" by (rule rep_extent_mod [OF x])
  then have al: "(heap_ptr h + ?a + 12) mod 4 = 0" using d(10) by presburger
  have "rt_free (heap_ptr h + ?a + 12) h = plug_holes ?a h3"
    using a al d(4) by (simp add: rt_free_def Let_def h1_def h2_def h3_def)
  moreover have "heap_rep h' (fuse xs n ys)"
    using h'(2,3) sel lf um d(4-7,10-13) fuse_facts [of xs n ys] fuse_coalesced [OF d(3)] a(2)
    by (auto simp: heap_rep_def same_rest_def)
  ultimately show ?thesis using h'(1,3) sel by (auto simp: same_rest_def)
qed

section \<open>Shrinking and moving a block\<close>

lemma realloc_split_ok:
  assumes r: "heap_rep h (xs @ (n, True) # ys)" and k: "4 \<le> k" "k mod 4 = 0" "k + 36 < n"
  shows "\<exists>h'. realloc_split (extent xs) (n - 12) k h = Some h' \<and>
    heap_rep h' (fuse (xs @ [(k + 12, True)]) (n - (k + 12)) ys) \<and> heap_data h' = heap_data h \<and>
    heap_ptr h' = heap_ptr h \<and> heap_end h' = heap_end h"
proof -
  let ?a = "extent xs" and ?bs = "xs @ (n, True) # ys" and ?xs = "xs @ [(k + 12, True)]" and ?n = "n - (k + 12)"
  let ?p = "?a + 12 + k"
  note d = heap_repD [OF r]
  have a: "hdrs h ?a = \<lparr>magic = HEAP_MAGIC, used = 1, next_off = ?a + n, prev_off = before 0 0 xs\<rparr>" "16 \<le> n" "n mod 4 = 0"
    and y: "rep h ?a (?a + n) ys" and x: "rep h 0 0 xs" using d(1) by simp_all
  have lt: "?a + n + extent ys < 2 ^ 32" using d(11,12) by simp
  have um: "used_mem h = extent (filter snd xs) + n + extent (filter snd ys)" using d(9) by simp
  have "used_mem h < 2 ^ 32" using um lt used_extent [of xs] used_extent [of ys] by simp
  then have su: "size_sub (used_mem h) (size_sub (n - 12) k) = extent (filter snd ?xs) + extent (filter snd ys)"
    using size_sub_le [of k "n - 12"] size_sub_le [of "n - 12 - k" "used_mem h"] um k lt by simp
  define h0 where "h0 = h\<lparr>used_mem := size_sub (used_mem h) (size_sub (n - 12) k)\<rparr>"
  define h1 where "h1 = upd_mem ?a (\<lambda>m. m\<lparr>next_off := ?p\<rparr>)
    (upd_mem ?p (\<lambda>m. \<lparr>magic = HEAP_MAGIC, used = 0, next_off = ?a + n, prev_off = ?a\<rparr>) h0)"
  define h2 where "h2 = (if ?a + n \<noteq> mem_size_aligned h + 12 then upd_mem (?a + n) (\<lambda>m. m\<lparr>prev_off := ?p\<rparr>) h1 else h1)"
  define h3 where "h3 = (if ?p < lfree h2 then h2\<lparr>lfree := ?p\<rparr> else h2)"
  have e': "?a + n = mem_size_aligned h + 12 \<longleftrightarrow> ys = []" using d(5) rep_nonempty [OF y] by (cases "ys = []") auto
  define H where "H = (hdrs h)(?p := \<lparr>magic = HEAP_MAGIC, used = 0, next_off = ?a + n, prev_off = ?a\<rparr>,
    ?a := \<lparr>magic = HEAP_MAGIC, used = 1, next_off = ?p, prev_off = before 0 0 xs\<rparr>)"
  have hd: "hdrs h3 = (if ys = [] then H else H(?a + n := (hdrs h (?a + n))\<lparr>prev_off := ?p\<rparr>))"
    using a k by (auto simp: h3_def h2_def h1_def h0_def H_def e' fun_eq_iff)
  have sel: "heap_end h3 = heap_end h" "heap_ptr h3 = heap_ptr h" "heap_data h3 = heap_data h" "mem_size_aligned h3 = mem_size_aligned h"
      "used_mem h3 = extent (filter snd ?xs) + extent (filter snd ys)" "max_mem h3 = max_mem h"
    using su by (simp_all add: h3_def h2_def h1_def h0_def)
  have lf: "lfree h3 = extent (takeWhile snd ?xs)"
    using lowest_free [of "[(k + 12, True)]" n xs ys] k d(8)
    by (simp add: h3_def h2_def h1_def h0_def add.assoc add.commute add.left_commute split: if_splits)
  have xr: "rep h3 0 0 xs" by (rule rep_cong [OF x]) (use k in \<open>auto simp: hd H_def\<close>)
  have yr: "rep h3 ?p (?a + n) ys" if "ys \<noteq> []"
    by (rule rep_prev [OF y]) (use k that in \<open>auto simp: hd H_def\<close>)
  have "(k + 12) mod 4 = 0" "?n mod 4 = 0" using k a(3) by presburger+
  then have r3: "rep h3 0 0 (?xs @ (?n, False) # ys)"
    using xr yr k by (cases "ys = []") (auto simp: hd H_def add.assoc add.commute add.left_commute)
  have e3: "heap_end h3 = extent ?xs + ?n + extent ys" using sel(1) d(4) k by simp
  have eu: "used (hdrs h3 (extent ?bs)) \<noteq> 0"
    using d(7) k rep_nonempty [OF y] by (cases "ys = []") (auto simp: hd H_def)
  obtain h' where h': "plug_holes (extent ?xs) h3 = Some h'" "rep h' 0 0 (fuse ?xs ?n ys)" "same_rest h3 h'"
    using plug_holes_ok [OF r3 e3 lf] by blast
  have c: "successively (\<lambda>x y. snd x \<or> snd y) (?xs @ (?n, True) # ys)"
    using d(3) by (auto simp: successively_append_iff successively_Cons)
  have "realloc_split ?a (n - 12) k h = plug_holes (extent ?xs) h3"
    using a k by (simp add: realloc_split_def Let_def h3_def h2_def h1_def h0_def add.assoc add.commute add.left_commute)
  moreover have "heap_rep h' (fuse ?xs ?n ys)"
    using h'(2,3) sel lf um d(4-6,10-13) eu fuse_facts [of ?xs ?n ys] fuse_coalesced [OF c] k
    by (auto simp: heap_rep_def same_rest_def)
  ultimately show ?thesis using h'(1,3) sel by (auto simp: same_rest_def)
qed

end
