(* ===== verification/RT_Heap.thy ===== *)
theory RT_Heap
  imports RT_Mem
begin

text \<open>
  The heap as its clients see it: the set of allocations, what \<open>rt_malloc\<close>, \<open>rt_free\<close>, \<open>rt_realloc\<close> and \<open>rt_calloc\<close> of
  \<open>src/mem.c\<close> do to it, and that no sequence of valid calls makes an assertion fail. The locale \<open>allocator\<close> states what
  a client relies on; its interpretation on the model carries the move of an allocation in \<open>rt_realloc\<close>.
\<close>

section \<open>The blocks of a heap\<close>

text \<open>The blocks, as a walk over the headers finds them. A heap of \<open>heap_end\<close> bytes has at most \<open>heap_end div 16\<close> blocks.\<close>

fun blocks_from :: "nat \<Rightarrow> nat \<Rightarrow> heap \<Rightarrow> block list" where
  "blocks_from 0 a h = []"
| "blocks_from (Suc k) a h =
    (if a = heap_end h then [] else (next_off (hdrs h a) - a, used (hdrs h a) \<noteq> 0) # blocks_from k (next_off (hdrs h a)) h)"

definition blocks :: "heap \<Rightarrow> block list" where
  "blocks h = blocks_from (heap_end h div 16) 0 h"

definition heap_inv :: "heap \<Rightarrow> bool" where
  "heap_inv h \<longleftrightarrow> heap_rep h (blocks h)"

text \<open>The allocations: the offset behind the header and the size of the user data of each block in use.\<close>

fun live_at :: "nat \<Rightarrow> block list \<Rightarrow> (nat \<times> nat) list" where
  "live_at a [] = []"
| "live_at a ((n, u) # bs) = (if u then [(a + 12, n - 12)] else []) @ live_at (a + n) bs"

definition live :: "heap \<Rightarrow> (nat \<times> nat) list" where
  "live h = live_at (heap_ptr h) (blocks h)"

lemma blocks_from_rep:
  "rep h pv a bs \<Longrightarrow> a + extent bs = heap_end h \<Longrightarrow> extent bs div 16 \<le> k \<Longrightarrow> blocks_from k a h = bs"
proof (induction bs arbitrary: pv a k)
  case Nil
  then show ?case by (cases k) auto
next
  case (Cons b bs)
  obtain n u where b: "b = (n, u)" by (cases b)
  then have n: "16 \<le> n" using Cons.prems(1) by simp
  then have "1 + extent bs div 16 \<le> extent (b # bs) div 16" using b by simp
  then obtain k' where k: "k = Suc k'" "extent bs div 16 \<le> k'" using Cons.prems(3) by (cases k) auto
  have "blocks_from k' (a + n) h = bs" using Cons.prems b k(2) by (intro Cons.IH [of a]) simp_all
  then show ?case using Cons.prems b k n by simp
qed

lemma heap_rep_blocks: "heap_rep h bs \<Longrightarrow> blocks h = bs"
  using blocks_from_rep [of h 0 0 bs "heap_end h div 16"] by (simp add: blocks_def heap_rep_def)

lemma heap_rep_inv: "heap_rep h bs \<Longrightarrow> heap_inv h \<and> live h = live_at (heap_ptr h) bs"
  using heap_rep_blocks by (auto simp: heap_inv_def live_def)

lemma live_at_append [simp]: "live_at a (xs @ ys) = live_at a xs @ live_at (a + extent xs) ys"
  by (induction xs arbitrary: a) (auto simp: add.assoc)

lemma live_at_split:
  "(p, k) \<in> set (live_at a bs) \<Longrightarrow> (\<And>b. b \<in> set bs \<Longrightarrow> 12 \<le> fst b) \<Longrightarrow>
    \<exists>xs ys. bs = xs @ (k + 12, True) # ys \<and> p = a + extent xs + 12"
proof (induction bs arbitrary: a)
  case (Cons b bs)
  obtain n u where b: "b = (n, u)" by (cases b)
  show ?case
  proof (cases "u \<and> p = a + 12 \<and> k = n - 12")
    case True
    then have "b # bs = [] @ (k + 12, True) # bs \<and> p = a + extent [] + 12" using Cons.prems(2) [of b] b by simp
    then show ?thesis by blast
  next
    case False
    then have "(p, k) \<in> set (live_at (a + n) bs)" using Cons.prems(1) b by (auto split: if_splits)
    then obtain xs ys where "bs = xs @ (k + 12, True) # ys" "p = a + n + extent xs + 12"
      using Cons.IH Cons.prems(2) by (metis list.set_intros(2))
    then have "b # bs = (b # xs) @ (k + 12, True) # ys \<and> p = a + extent (b # xs) + 12" using b by simp
    then show ?thesis by blast
  qed
qed simp

lemma live_at_bounds: "(p, k) \<in> set (live_at a bs) \<Longrightarrow> (\<And>b. b \<in> set bs \<Longrightarrow> 12 \<le> fst b) \<Longrightarrow> a + 12 \<le> p \<and> p + k \<le> a + extent bs"
  using live_at_split by fastforce

lemma live_at_join: "live_at a (join_next n ys) = live_at (a + n) ys"
  by (auto simp: join_next_def add.assoc split: list.split bool.split)

lemma live_at_fuse: "live_at a (fuse xs n ys) = live_at a xs @ live_at (a + extent xs + n) ys"
proof -
  obtain m zs where j: "join_next n ys = (m, False) # zs" using join_next_form by blast
  have l: "live_at (b + n) ys = live_at (b + m) zs" for b using live_at_join [of b n ys] j by simp
  show ?thesis
  proof (cases "xs \<noteq> [] \<and> \<not> snd (last xs)")
    case True
    then obtain ws k where xs: "xs = ws @ [(k, False)]" by (metis append_butlast_last_id prod.collapse)
    then show ?thesis using j l [of "a + extent xs"] by (simp add: fuse_def add.assoc)
  next
    case False
    then have "fuse xs n ys = xs @ (m, False) # zs" using j by (auto simp: fuse_def)
    then show ?thesis using l [of "a + extent xs"] by simp
  qed
qed

lemma live_at_taken:
  "sz + 12 \<le> n \<Longrightarrow> \<exists>k\<ge>sz. live_at a (taken sz n @ ys) = (a + 12, k) # live_at (a + n) ys"
  by (auto simp: taken_def)

lemma rep_fst: "rep h pv a bs \<Longrightarrow> b \<in> set bs \<Longrightarrow> 12 \<le> fst b"
  using rep_sizes [of h pv a bs "fst b" "snd b"] by simp

lemma live_split:
  assumes "heap_inv h" "(p, k) \<in> set (live h)"
  obtains xs ys where "heap_rep h (xs @ (k + 12, True) # ys)" "p = heap_ptr h + extent xs + 12"
proof -
  have r: "heap_rep h (blocks h)" using assms(1) by (simp add: heap_inv_def)
  then obtain xs ys where "blocks h = xs @ (k + 12, True) # ys" "p = heap_ptr h + extent xs + 12"
    using live_at_split [of p k "heap_ptr h" "blocks h"] assms(2) rep_fst [OF heap_repD(1)] by (auto simp: live_def)
  then show thesis using r that by metis
qed

text \<open>Two stretches of user data, with the headers before them, do not overlap.\<close>

definition apart :: "nat \<times> nat \<Rightarrow> nat \<times> nat \<Rightarrow> bool" where
  "apart x y \<longleftrightarrow> fst x + snd x + 12 \<le> fst y \<or> fst y + snd y + 12 \<le> fst x"

lemma live_at_apart: "(\<And>b. b \<in> set bs \<Longrightarrow> 12 \<le> fst b) \<Longrightarrow> sorted_wrt (\<lambda>x y. fst x + snd x + 12 \<le> fst y) (live_at a bs)"
proof (induction bs arbitrary: a)
  case (Cons b bs)
  obtain n u where b: "b = (n, u)" by (cases b)
  have "a + n + 12 \<le> fst x" if "x \<in> set (live_at (a + n) bs)" for x
    using live_at_bounds [of "fst x" "snd x" "a + n" bs] that Cons.prems by simp
  moreover have "sorted_wrt (\<lambda>x y. fst x + snd x + 12 \<le> fst y) (live_at (a + n) bs)" using Cons.prems by (intro Cons.IH) simp
  moreover have "12 \<le> n" using Cons.prems [of b] b by simp
  ultimately show ?case using b by auto
qed simp

lemma live_sorted: "heap_inv h \<Longrightarrow> sorted_wrt (\<lambda>x y. fst x + snd x + 12 \<le> fst y) (live h)"
  unfolding live_def heap_inv_def by (rule live_at_apart) (erule rep_fst [OF heap_repD(1)])

lemma sorted_wrt_cases: "sorted_wrt R xs \<Longrightarrow> x \<in> set xs \<Longrightarrow> y \<in> set xs \<Longrightarrow> x = y \<or> R x y \<or> R y x"
  by (induction xs) auto

lemma live_apart: "heap_inv h \<Longrightarrow> x \<in> set (live h) \<Longrightarrow> y \<in> set (live h) \<Longrightarrow> x = y \<or> apart x y"
  using sorted_wrt_cases [OF live_sorted] by (auto simp: apart_def)

lemma live_distinct: "heap_inv h \<Longrightarrow> distinct (map fst (live h))"
proof -
  assume "heap_inv h"
  then have "sorted_wrt (\<lambda>x y. x < y) (map fst (live h))"
    unfolding sorted_wrt_map by (rule sorted_wrt_mono_rel [rotated, OF live_sorted]) simp
  then show ?thesis using strict_sorted_iff by blast
qed

lemma live_bounds: "heap_inv h \<Longrightarrow> (p, k) \<in> set (live h) \<Longrightarrow> heap_ptr h + 12 \<le> p \<and> p + k \<le> heap_ptr h + heap_end h \<and> p mod 4 = 0 \<and> 4 \<le> k"
proof -
  assume h: "heap_inv h" "(p, k) \<in> set (live h)"
  obtain xs ys where r: "heap_rep h (xs @ (k + 12, True) # ys)" "p = heap_ptr h + extent xs + 12" by (rule live_split [OF h])
  note d = heap_repD [OF r(1)]
  have "rep h 0 0 xs" "16 \<le> k + 12" using d(1) by simp_all
  moreover from this have "extent xs mod 4 = 0" by (rule_tac rep_extent_mod)
  then have "p mod 4 = 0" unfolding r(2) using d(10) by presburger
  ultimately show ?thesis using r(2) d(4) by simp
qed

section \<open>What the operations do to the allocations\<close>

lemma heap_init_rep:
  assumes "used_mem h = 0" "0 < unat b" "unat b + 3 < 2 ^ 32" "unat (RT_ALIGN b 4) + 36 \<le> unat (RT_ALIGN_DOWN e 4)"
  shows "heap_rep (rt_system_heap_init b e h) [(unat (RT_ALIGN_DOWN e 4) - unat (RT_ALIGN b 4) - 12, False)]"
proof -
  let ?b = "unat (RT_ALIGN b 4)" and ?e = "unat (RT_ALIGN_DOWN e 4)"
  have be: "?b = (unat b + 3) div 4 * 4" "?e = unat e - unat e mod 4" using unat_RT_ALIGN [OF assms(3)] by simp_all
  have m: "?b mod 4 = 0" "?e mod 4 = 0" "0 < ?b" using be assms(2) by (simp_all add: minus_mod_eq_div_mult)
  then have m': "(?e - ?b - 12) mod 4 = 0" using assms(4) by presburger
  have le: "24 \<le> RT_ALIGN_DOWN e 4" "RT_ALIGN b 4 \<le> RT_ALIGN_DOWN e 4" using assms(4) by (simp_all add: word_le_nat_alt)
  have u1: "unat (RT_ALIGN_DOWN e 4 - 24) = ?e - 24" using unat_sub [OF le(1)] by simp
  have u2: "unat (RT_ALIGN_DOWN e 4 - RT_ALIGN b 4) = ?e - ?b" using unat_sub [OF le(2)] by simp
  have "24 \<le> RT_ALIGN_DOWN e 4 - RT_ALIGN b 4" unfolding word_le_nat_alt u2 using assms(4) by simp
  then have u3: "unat (RT_ALIGN_DOWN e 4 - RT_ALIGN b 4 - 24) = ?e - ?b - 24" using unat_sub u2 by fastforce
  have c: "24 < RT_ALIGN_DOWN e 4" "RT_ALIGN b 4 \<le> RT_ALIGN_DOWN e 4 - 24"
    using assms(4) u1 by (simp_all add: word_less_nat_alt word_le_nat_alt)
  have "unat (RT_ALIGN_DOWN e 4) < 2 ^ LENGTH(32)" by (rule unsigned_less)
  then have "?e < 2 ^ 32" by (simp del: unat_RT_ALIGN_DOWN)
  then show ?thesis
    using c u3 assms(1,4) m m' by (auto simp: rt_system_heap_init_def Let_def heap_rep_def simp del: unat_RT_ALIGN_DOWN)
qed

text \<open>The byte at an address of the heap.\<close>

definition mem_byte :: "heap \<Rightarrow> nat \<Rightarrow> u8" where
  "mem_byte h a = heap_data h (a - heap_ptr h)"

text \<open>Requests that do not wrap around when they are rounded up to a multiple of four.\<close>

definition request_ok :: "u32 \<Rightarrow> bool" where
  "request_ok n \<longleftrightarrow> n \<noteq> 0 \<and> unat n + 3 < 2 ^ 32"

text \<open>No free block holds \<open>sz\<close> bytes, other than one that starts within the last \<open>sz\<close> bytes of the heap.\<close>

definition no_room :: "nat \<Rightarrow> heap \<Rightarrow> bool" where
  "no_room sz h \<longleftrightarrow> (\<forall>xs m ys. blocks h = xs @ (m, False) # ys \<longrightarrow> m < sz + 12 \<or> mem_size_aligned h \<le> extent xs + sz)"

lemma want_ge: "unat n \<le> want n"
  by (simp add: want_def)

lemma malloc_live:
  assumes h: "heap_inv h" and n: "request_ok n"
  shows "\<exists>p h'. rt_malloc n h = Some (p, h') \<and> heap_inv h' \<and> heap_data h' = heap_data h \<and> heap_ptr h' = heap_ptr h \<and>
    heap_end h' = heap_end h \<and>
    (if p = 0 then h' = h \<and> no_room (want n) h
     else p \<notin> fst ` set (live h) \<and> (\<exists>k\<ge>want n. set (live h') = insert (p, k) (set (live h))))"
proof -
  have r: "heap_rep h (blocks h)" and sz: "n \<noteq> 0" "unat n + 3 < 2 ^ 32" using h n by (simp_all add: heap_inv_def request_ok_def)
  note d = heap_repD [OF r]
  from rt_malloc_ok [OF r sz] show ?thesis
  proof
    assume "\<exists>xs m ys h'. blocks h = xs @ (m, False) # ys \<and> want n + 12 \<le> m \<and> rt_malloc n h = Some (heap_ptr h + extent xs + 12, h') \<and>
      heap_rep h' (xs @ taken (want n) m @ ys) \<and> heap_data h' = heap_data h \<and> heap_ptr h' = heap_ptr h \<and> heap_end h' = heap_end h"
    then obtain xs m ys h' where b: "blocks h = xs @ (m, False) # ys" "want n + 12 \<le> m"
      and h': "rt_malloc n h = Some (heap_ptr h + extent xs + 12, h')" "heap_rep h' (xs @ taken (want n) m @ ys)"
        "heap_data h' = heap_data h" "heap_ptr h' = heap_ptr h" "heap_end h' = heap_end h" by blast
    obtain k where k: "k \<ge> want n" "live_at (heap_ptr h + extent xs) (taken (want n) m @ ys) =
        (heap_ptr h + extent xs + 12, k) # live_at (heap_ptr h + extent xs + m) ys"
      using live_at_taken [OF b(2), of "heap_ptr h + extent xs" ys] by blast
    have l: "live h' = live_at (heap_ptr h) xs @ (heap_ptr h + extent xs + 12, k) # live_at (heap_ptr h + extent xs + m) ys"
      using heap_rep_inv [OF h'(2)] h'(4) k(2) by simp
    moreover have l0: "live h = live_at (heap_ptr h) xs @ live_at (heap_ptr h + extent xs + m) ys" using b by (simp add: live_def)
    moreover have i: "heap_inv h'" using heap_rep_inv [OF h'(2)] by simp
    moreover have "heap_ptr h + extent xs + 12 \<notin> fst ` set (live h)" using live_distinct [OF i] unfolding l l0 by auto
    ultimately show ?thesis using h' k(1) by auto
  qed (use h in \<open>auto simp: no_room_def\<close>)
qed

lemma free_live:
  assumes h: "heap_inv h" and p: "(p, k) \<in> set (live h)"
  shows "\<exists>h'. rt_free p h = Some h' \<and> heap_inv h' \<and> heap_data h' = heap_data h \<and> heap_ptr h' = heap_ptr h \<and>
    heap_end h' = heap_end h \<and> set (live h') = set (live h) - {(p, k)} \<and> used_mem h' + k + 12 = used_mem h"
proof -
  obtain xs ys where r: "heap_rep h (xs @ (k + 12, True) # ys)" "p = heap_ptr h + extent xs + 12" by (rule live_split [OF h p])
  obtain h' where h': "rt_free p h = Some h'" "heap_rep h' (fuse xs (k + 12) ys)" "heap_data h' = heap_data h" "heap_ptr h' = heap_ptr h"
      "heap_end h' = heap_end h"
    using rt_free_ok [OF r(1)] r(2) by blast
  have l: "live h = live_at (heap_ptr h) xs @ (p, k) # live_at (heap_ptr h + extent xs + (k + 12)) ys"
    using heap_rep_inv [OF r(1)] r(2) by simp
  have "live h' = live_at (heap_ptr h) xs @ live_at (heap_ptr h + extent xs + (k + 12)) ys"
    using heap_rep_inv [OF h'(2)] h'(4) by (simp add: live_at_fuse)
  moreover have "distinct (live h)" using live_distinct [OF h] by (simp add: distinct_map)
  ultimately have "set (live h') = set (live h) - {(p, k)}" unfolding l by auto
  moreover have "used_mem h' + k + 12 = used_mem h" using heap_repD(9) [OF h'(2)] heap_repD(9) [OF r(1)] fuse_facts(4) by simp
  ultimately show ?thesis using h' heap_rep_inv [OF h'(2)] by blast
qed

lemma heap_data_inv [simp]:
  "blocks (h\<lparr>heap_data := f\<rparr>) = blocks h" "heap_inv (h\<lparr>heap_data := f\<rparr>) = heap_inv h" "live (h\<lparr>heap_data := f\<rparr>) = live h"
proof -
  have "blocks_from k a (h\<lparr>heap_data := f\<rparr>) = blocks_from k a h" for k a by (induction k arbitrary: a) simp_all
  then show b: "blocks (h\<lparr>heap_data := f\<rparr>) = blocks h" by (simp add: blocks_def)
  have "rep (h\<lparr>heap_data := f\<rparr>) pv a bs = rep h pv a bs" for pv a bs
    using rep_cong [of h pv a bs "h\<lparr>heap_data := f\<rparr>"] rep_cong [of "h\<lparr>heap_data := f\<rparr>" pv a bs h] by auto
  then show "heap_inv (h\<lparr>heap_data := f\<rparr>) = heap_inv h" using b by (simp add: heap_inv_def heap_rep_def)
  show "live (h\<lparr>heap_data := f\<rparr>) = live h" using b by (simp add: live_def)
qed

section \<open>The interface of an allocator\<close>

text \<open>
  What a client of the heap relies on. \<open>live\<close> are the allocations with their sizes, \<open>byte\<close> is the content of an address.
\<close>

locale allocator =
  fixes inv :: "'s \<Rightarrow> bool" and live :: "'s \<Rightarrow> (nat \<times> nat) set" and byte :: "'s \<Rightarrow> nat \<Rightarrow> 'b"
    and ok :: "'r \<Rightarrow> bool" and need :: "'r \<Rightarrow> nat"
    and alloc :: "'r \<Rightarrow> 's \<Rightarrow> (nat \<times> 's) option" and release :: "nat \<Rightarrow> 's \<Rightarrow> 's option"
    and copy :: "nat \<Rightarrow> nat \<Rightarrow> nat \<Rightarrow> 's \<Rightarrow> 's"
  assumes apart: "inv s \<Longrightarrow> (p, k) \<in> live s \<Longrightarrow> (q, m) \<in> live s \<Longrightarrow> p + k \<le> q \<or> q + m \<le> p \<or> (p, k) = (q, m)"
    and nonempty: "inv s \<Longrightarrow> (p, k) \<in> live s \<Longrightarrow> 0 < k"
    and alloc_ok: "inv s \<Longrightarrow> ok r \<Longrightarrow> \<exists>p s'. alloc r s = Some (p, s') \<and> inv s' \<and> byte s' = byte s \<and>
      (if p = 0 then s' = s else p \<notin> fst ` live s \<and> (\<exists>k\<ge>need r. live s' = insert (p, k) (live s)))"
    and release_ok: "inv s \<Longrightarrow> (p, k) \<in> live s \<Longrightarrow>
      \<exists>s'. release p s = Some s' \<and> inv s' \<and> byte s' = byte s \<and> live s' = live s - {(p, k)}"
    and copy_ok: "inv s \<Longrightarrow> (q, m) \<in> live s \<Longrightarrow> (p, k) \<in> live s \<Longrightarrow> inv (copy q p c s) \<and> live (copy q p c s) = live s"
    and copy_byte: "inv s \<Longrightarrow> (q, m) \<in> live s \<Longrightarrow> (p, k) \<in> live s \<Longrightarrow> (x, j) \<in> live s \<Longrightarrow> i < j \<Longrightarrow>
      byte (copy q p c s) (x + i) = (if q \<le> x + i \<and> x + i < q + c then byte s (p + (x + i - q)) else byte s (x + i))"
begin

text \<open>An allocation that is released at once leaves no trace.\<close>

lemma alloc_release:
  assumes "inv s" "ok r" "alloc r s = Some (p, s')" "p \<noteq> 0"
  shows "\<exists>s''. release p s' = Some s'' \<and> inv s'' \<and> byte s'' = byte s \<and> live s'' = live s"
proof -
  obtain k where k: "inv s'" "byte s' = byte s" "p \<notin> fst ` live s" "live s' = insert (p, k) (live s)"
    using alloc_ok [OF assms(1,2)] assms(3,4) by auto
  obtain s'' where s'': "release p s' = Some s''" "inv s''" "byte s'' = byte s'" "live s'' = live s' - {(p, k)}"
    using release_ok [of s' p k] k(1,4) by auto
  moreover have "(p, k) \<notin> live s" using k(3) by force
  ultimately show ?thesis using k by auto
qed

text \<open>Moving an allocation: a new one, a copy of the first \<open>c\<close> bytes, and the release of the old one.\<close>

lemma move:
  assumes s: "inv s" "(p, k) \<in> live s" and a: "ok r" "alloc r s = Some (q, s1)" "q \<noteq> 0" and c: "c \<le> need r" "c \<le> k"
  shows "\<exists>s2 m. release p (copy q p c s1) = Some s2 \<and> inv s2 \<and> need r \<le> m \<and> live s2 = insert (q, m) (live s - {(p, k)}) \<and>
    (\<forall>i<c. byte s2 (q + i) = byte s (p + i)) \<and>
    (\<forall>(x, j)\<in>live s - {(p, k)}. \<forall>i<j. byte s2 (x + i) = byte s (x + i))"
proof -
  obtain m where m: "inv s1" "byte s1 = byte s" "q \<notin> fst ` live s" "need r \<le> m" "live s1 = insert (q, m) (live s)"
    using alloc_ok [OF s(1) a(1)] a(2,3) by auto
  have l: "(q, m) \<in> live s1" "(p, k) \<in> live s1" "q \<noteq> p" using m s(2) by force+
  note cp = copy_ok [OF m(1) l(1,2), of c] and cb = copy_byte [OF m(1) l(1,2), where c = c]
  obtain s2 where s2: "release p (copy q p c s1) = Some s2" "inv s2" "byte s2 = byte (copy q p c s1)"
      "live s2 = live (copy q p c s1) - {(p, k)}"
    using release_ok [of "copy q p c s1" p k] cp l(2) by auto
  have "byte s2 (q + i) = byte s (p + i)" if "i < c" for i
    using cb [OF l(1), of i] that c(1) m(2,4) s2(3) by simp
  moreover have "byte s2 (x + i) = byte s (x + i)" if x: "(x, j) \<in> live s" "i < j" for x j i
  proof -
    have xl: "(x, j) \<in> live s1" "x \<noteq> q" using x(1) m(3,5) by force+
    then have "x + j \<le> q \<or> q + m \<le> x" using apart [OF m(1) xl(1) l(1)] by blast
    then show ?thesis using cb [OF xl(1) x(2)] x(2) c(1) m(2,4) s2(3) by auto
  qed
  moreover have "live s2 = insert (q, m) (live s - {(p, k)})" using s2(4) cp m(5) l(3) by auto
  ultimately show ?thesis using s2(1,2) m(4) by blast
qed

end

text \<open>\<open>rt_memcpy\<close> between two allocations.\<close>

definition copy_bytes :: "nat \<Rightarrow> nat \<Rightarrow> nat \<Rightarrow> heap \<Rightarrow> heap" where
  "copy_bytes q p c h = data_copy (q - heap_ptr h) (p - heap_ptr h) c h"

interpretation heap_alloc: allocator heap_inv "\<lambda>h. set (live h)" mem_byte request_ok want rt_malloc rt_free copy_bytes
proof (unfold_locales, goal_cases)
  case (1 s p k q m)
  then show ?case using live_apart [of s "(p, k)" "(q, m)"] by (auto simp: apart_def)
next
  case (2 s p k)
  then show ?case using live_bounds by force
next
  case (3 s r)
  obtain p h' where h': "rt_malloc r s = Some (p, h')" "heap_inv h'" "heap_data h' = heap_data s" "heap_ptr h' = heap_ptr s"
      "if p = 0 then h' = s \<and> no_room (want r) s
       else p \<notin> fst ` set (live s) \<and> (\<exists>k\<ge>want r. set (live h') = insert (p, k) (set (live s)))"
    using malloc_live [OF 3] by blast
  have "mem_byte h' = mem_byte s" using h'(3,4) by (simp add: mem_byte_def fun_eq_iff)
  moreover have "if p = 0 then h' = s else p \<notin> fst ` set (live s) \<and> (\<exists>k\<ge>want r. set (live h') = insert (p, k) (set (live s)))"
    using h'(5) by presburger
  ultimately show ?case using h'(1,2) by (intro exI [of _ p] exI [of _ h'] conjI) assumption+
next
  case (4 s p k)
  then show ?case using free_live [OF 4] by (auto simp: mem_byte_def fun_eq_iff)
next
  case (5 s q m p k c)
  then show ?case by (simp add: copy_bytes_def data_copy_def)
next
  case (6 s q m p k r j i c)
  have "heap_ptr s \<le> q" "heap_ptr s \<le> p" "heap_ptr s \<le> r" using live_bounds [OF 6(1)] 6 by fastforce+
  then have "q - heap_ptr s \<le> r + i - heap_ptr s \<longleftrightarrow> q \<le> r + i" "r + i - heap_ptr s < q - heap_ptr s + c \<longleftrightarrow> r + i < q + c"
      "q \<le> r + i \<Longrightarrow> p - heap_ptr s + (r + i - heap_ptr s - (q - heap_ptr s)) = p + (r + i - q) - heap_ptr s" by arith+
  then show ?case by (simp add: copy_bytes_def data_copy_def mem_byte_def)
qed

section \<open>Changing the size of an allocation\<close>

lemma RT_ALIGN_facts:
  assumes "request_ok n"
  shows "unat n \<le> unat (RT_ALIGN n 4)" "unat (RT_ALIGN n 4) mod 4 = 0" "4 \<le> unat (RT_ALIGN n 4)"
proof -
  have n: "0 < unat n" "unat n + 3 < 2 ^ 32" using assms by (simp_all add: request_ok_def unat_gt_0)
  have al: "unat (RT_ALIGN n 4) = (unat n + 3) div 4 * 4" by (rule unat_RT_ALIGN [OF n(2)])
  show "unat n \<le> unat (RT_ALIGN n 4)" "unat (RT_ALIGN n 4) mod 4 = 0" unfolding al by simp_all
  have "1 \<le> (unat n + 3) div 4" using n(1) by simp
  then show "4 \<le> unat (RT_ALIGN n 4)" unfolding al by simp
qed

lemma request_ok_align:
  assumes "request_ok n" "unat (RT_ALIGN n 4) \<le> mem_size_aligned h" "heap_inv h"
  shows "request_ok (RT_ALIGN n 4)" "unat (RT_ALIGN n 4) \<le> want (RT_ALIGN n 4)"
proof -
  have "mem_size_aligned h + 24 < 2 ^ 32" using heap_repD(5,11,12) assms(3) unfolding heap_inv_def by fastforce
  then show "request_ok (RT_ALIGN n 4)"
    using RT_ALIGN_facts [OF assms(1)] assms(2) unat_gt_0 [of "RT_ALIGN n 4"] by (simp add: request_ok_def)
qed (rule want_ge)

text \<open>What a client may rely on when the allocation \<open>(p, k)\<close> becomes \<open>(q, m)\<close> and its first \<open>c\<close> bytes are kept.\<close>

definition moved :: "nat \<Rightarrow> nat \<Rightarrow> nat \<Rightarrow> nat \<Rightarrow> nat \<Rightarrow> heap \<Rightarrow> heap \<Rightarrow> bool" where
  "moved p k q m c h h' \<longleftrightarrow> set (live h') = insert (q, m) (set (live h) - {(p, k)}) \<and>
    (\<forall>i<c. mem_byte h' (q + i) = mem_byte h (p + i)) \<and>
    (\<forall>(x, j)\<in>set (live h) - {(p, k)}. \<forall>i<j. mem_byte h' (x + i) = mem_byte h (x + i))"

lemma realloc_split_moved:
  assumes h: "heap_inv h" and p: "(p, k) \<in> set (live h)" and s: "4 \<le> s" "s mod 4 = 0" "s + 24 < k"
  shows "\<exists>h'. realloc_split (p - heap_ptr h - 12) k s h = Some h' \<and> heap_inv h' \<and> moved p k p s c h h'"
proof -
  obtain xs ys where r: "heap_rep h (xs @ (k + 12, True) # ys)" "p = heap_ptr h + extent xs + 12" by (rule live_split [OF h p])
  have s': "s + 36 < k + 12" using s(3) by simp
  obtain h' where h': "realloc_split (extent xs) k s h = Some h'"
      "heap_rep h' (fuse (xs @ [(s + 12, True)]) (k + 12 - (s + 12)) ys)" "heap_data h' = heap_data h" "heap_ptr h' = heap_ptr h"
    using realloc_split_ok [OF r(1) s(1,2) s'] by auto
  have l: "live h = live_at (heap_ptr h) xs @ (p, k) # live_at (heap_ptr h + extent xs + (k + 12)) ys"
    using heap_rep_inv [OF r(1)] r(2) by simp
  have e: "heap_ptr h + extent (xs @ [(s + 12, True)]) + (k + 12 - (s + 12)) = heap_ptr h + extent xs + (k + 12)" using s(3) by simp
  have "live h' = live_at (heap_ptr h) xs @ (p, s) # live_at (heap_ptr h + extent xs + (k + 12)) ys"
    using heap_rep_inv [OF h'(2)] h'(4) r(2) e unfolding live_at_fuse by (simp add: ac_simps)
  moreover have "distinct (live h)" using live_distinct [OF h] by (simp add: distinct_map)
  ultimately have "set (live h') = insert (p, s) (set (live h) - {(p, k)})" unfolding l by auto
  then have "moved p k p s c h h'" using h'(3,4) by (simp add: moved_def mem_byte_def)
  then show ?thesis using h'(1) r(2) heap_rep_inv [OF h'(2)] by simp
qed

lemma realloc_live:
  assumes h: "heap_inv h" and p: "(p, k) \<in> set (live h)" and n: "request_ok n"
  shows "\<exists>q h'. rt_realloc p n h = Some (q, h') \<and> heap_inv h' \<and>
    (if q = 0 then h' = h else \<exists>m\<ge>unat n. moved p k q m (min k (unat n)) h h')"
proof (cases "unat (RT_ALIGN n 4) > mem_size_aligned h")
  case True
  then show ?thesis using h by (simp add: rt_realloc_def Let_def)
next
  case False
  let ?w = "RT_ALIGN n 4" and ?s = "unat (RT_ALIGN n 4)"
  note a = RT_ALIGN_facts [OF n] and ok = request_ok_align [OF n _ h]
  have b: "heap_ptr h + 12 \<le> p" "p + k \<le> heap_ptr h + heap_end h" "0 < k" "p \<noteq> 0"
    using live_bounds [OF h p] by simp_all
  obtain xs ys where r: "heap_rep h (xs @ (k + 12, True) # ys)" "p = heap_ptr h + extent xs + 12" by (rule live_split [OF h p])
  have hd: "next_off (hdrs h (p - heap_ptr h - 12)) = extent xs + (k + 12)" using heap_repD(1) [OF r(1)] r(2) by simp
  have "extent xs + (k + 12) < 2 ^ 32" using heap_repD(11,12) [OF r(1)] by simp
  then have sz: "size_sub (size_sub (next_off (hdrs h (p - heap_ptr h - 12))) (p - heap_ptr h - 12)) 12 = k"
    unfolding hd using r(2) size_sub_le [of "extent xs" "extent xs + (k + 12)"] size_sub_le [of 12 "k + 12"] by simp
  have unf: "rt_realloc p n h =
    (if k = ?s then Some (p, h)
     else if ?s + 12 + 12 < k then do { h' \<leftarrow> realloc_split (p - heap_ptr h - 12) k ?s h; Some (p, h') }
     else do { (q, h') \<leftarrow> rt_malloc ?w h;
       if q \<noteq> 0 then do { let h' = copy_bytes q p (if k < ?s then k else ?s) h'; h' \<leftarrow> rt_free p h'; Some (q, h') }
       else Some (q, h') })"
    unfolding rt_realloc_def Let_def copy_bytes_def sz using False a(3) b by simp
  consider (same) "k = ?s" | (shrink) "?s + 24 < k" | (move) "k \<noteq> ?s" "\<not> ?s + 24 < k" by linarith
  then show ?thesis
  proof cases
    case same
    have "moved p k p k (min k (unat n)) h h" using p by (auto simp: moved_def)
    then show ?thesis using unf same h a(1) b(4) by auto
  next
    case shrink
    obtain h' where h': "realloc_split (p - heap_ptr h - 12) k ?s h = Some h'" "heap_inv h'" "moved p k p ?s (min k (unat n)) h h'"
      using realloc_split_moved [OF h p a(3,2) shrink] by blast
    have "rt_realloc p n h = Some (p, h')" using unf shrink h'(1) by simp
    then show ?thesis using h'(2,3) a(1) b(4) by auto
  next
    case move
    obtain q h1 where m: "rt_malloc ?w h = Some (q, h1)" "heap_inv h1" "q = 0 \<longrightarrow> h1 = h"
      using heap_alloc.alloc_ok [OF h ok(1)] False by fastforce
    show ?thesis
    proof (cases "q = 0")
      case True
      then show ?thesis using unf move m by simp
    next
      case q: False
      let ?c = "if k < ?s then k else ?s"
      have c: "?c \<le> want ?w" "?c \<le> k" using want_ge [of ?w] move by auto
      obtain h2 j where h2: "rt_free p (copy_bytes q p ?c h1) = Some h2" "heap_inv h2" "want ?w \<le> j" "moved p k q j ?c h h2"
        using heap_alloc.move [OF h p ok(1) m(1) q c] False unfolding moved_def by auto
      have "min k (unat n) \<le> ?c" using a(1) by auto
      then have "moved p k q j (min k (unat n)) h h2" using h2(4) by (auto simp: moved_def)
      moreover have "unat n \<le> j" using a(1) want_ge [of ?w] h2(3) by linarith
      ultimately show ?thesis using unf move m(1) q h2(1,2) by auto
    qed
  qed
qed

section \<open>Clients of the heap\<close>

datatype heap_call = Malloc u32 | Calloc u32 u32 | Realloc nat u32 | Free nat

fun heap_exec :: "heap_call \<Rightarrow> heap \<Rightarrow> (nat \<times> heap) option" where
  "heap_exec (Malloc n) h = rt_malloc n h"
| "heap_exec (Calloc c n) h = rt_calloc c n h"
| "heap_exec (Realloc p n) h = rt_realloc p n h"
| "heap_exec (Free p) h = map_option (Pair 0) (rt_free p h)"

text \<open>Pointers are null or come from the heap; sizes are not so large that they wrap around.\<close>

fun heap_valid :: "heap_call \<Rightarrow> heap \<Rightarrow> bool" where
  "heap_valid (Malloc n) h \<longleftrightarrow> unat n + 3 < 2 ^ 32"
| "heap_valid (Calloc c n) h \<longleftrightarrow> unat c * unat n + 3 < 2 ^ 32"
| "heap_valid (Realloc p n) h \<longleftrightarrow> (p = 0 \<or> p \<in> fst ` set (live h)) \<and> unat n + 3 < 2 ^ 32"
| "heap_valid (Free p) h \<longleftrightarrow> p = 0 \<or> p \<in> fst ` set (live h)"

inductive heap_step :: "heap \<Rightarrow> heap \<Rightarrow> bool" where
  call: "heap_valid c h \<Longrightarrow> heap_exec c h = Some (r, h') \<Longrightarrow> heap_step h h'"
| store: "(p, k) \<in> set (live h) \<Longrightarrow> i < k \<Longrightarrow> heap_step h (h\<lparr>heap_data := (heap_data h)(p + i - heap_ptr h := v)\<rparr>)"

lemma malloc_zero [simp]: "rt_malloc 0 h = Some (0, h)"
  by (simp add: rt_malloc_def)

lemma free_null [simp]: "rt_free 0 h = Some h"
  by (simp add: rt_free_def)

lemma malloc_total: "heap_inv h \<Longrightarrow> unat n + 3 < 2 ^ 32 \<Longrightarrow> \<exists>p h'. rt_malloc n h = Some (p, h') \<and> heap_inv h'"
  using malloc_live [of h n] by (cases "n = 0") (auto simp: request_ok_def)

lemma free_total: "heap_inv h \<Longrightarrow> p = 0 \<or> p \<in> fst ` set (live h) \<Longrightarrow> \<exists>h'. rt_free p h = Some h' \<and> heap_inv h'"
  using free_live by fastforce

lemma RT_ALIGN_zero [simp]: "RT_ALIGN 0 4 = 0"
  by (simp add: RT_ALIGN_def)

lemma realloc_total:
  assumes h: "heap_inv h" and v: "heap_valid (Realloc p n) h"
  shows "\<exists>q h'. rt_realloc p n h = Some (q, h') \<and> heap_inv h'"
proof (cases "n = 0 \<or> unat (RT_ALIGN n 4) > mem_size_aligned h")
  case True
  then show ?thesis using free_total [OF h, of p] h v by (auto simp: rt_realloc_def Let_def)
next
  case False
  then have n: "request_ok n" using v by (simp add: request_ok_def)
  show ?thesis
  proof (cases "p = 0")
    case True
    have "request_ok (RT_ALIGN n 4)" using request_ok_align [OF n _ h] False by simp
    moreover have "rt_realloc p n h = rt_malloc (RT_ALIGN n 4) h"
      using True False RT_ALIGN_facts(3) [OF n] by (simp add: rt_realloc_def Let_def)
    ultimately show ?thesis using malloc_total [OF h] by (simp add: request_ok_def)
  next
    case p: False
    then show ?thesis using realloc_live [OF h _ n] v by fastforce
  qed
qed

lemma exec_total: "heap_inv h \<Longrightarrow> heap_valid c h \<Longrightarrow> \<exists>r h'. heap_exec c h = Some (r, h') \<and> heap_inv h'"
proof (cases c)
  case (Calloc m n)
  assume h: "heap_inv h" "heap_valid c h"
  then have "unat m * unat n + 3 < 2 ^ 32" using Calloc by simp
  then have "unat (m * n) + 3 < 2 ^ 32" by (simp add: unat_word_ariths)
  then show ?thesis using malloc_total [OF h(1), of "m * n"] Calloc by (auto simp: rt_calloc_def data_zero_def)
qed (use malloc_total free_total realloc_total in fastforce)+

lemma step_inv: "heap_step h h' \<Longrightarrow> heap_inv h \<Longrightarrow> heap_inv h'"
proof (induction rule: heap_step.induct)
  case (call c h r h')
  then show ?case using exec_total [of h c] by auto
qed simp

lemma steps_inv: "heap_step\<^sup>*\<^sup>* h h' \<Longrightarrow> heap_inv h \<Longrightarrow> heap_inv h'"
  by (induction rule: rtranclp_induct) (auto intro: step_inv)

lemma live_at_used: "(\<And>b. b \<in> set bs \<Longrightarrow> 12 \<le> fst b) \<Longrightarrow> (\<Sum>(p, k)\<leftarrow>live_at a bs. k + 12) = extent (filter snd bs)"
proof (induction bs arbitrary: a)
  case (Cons b bs)
  then show ?case using Cons.IH [of "a + fst b"] Cons.prems [of b] by (cases b) auto
qed simp

lemma fuse_taken:
  assumes c: "successively (\<lambda>x y. snd x \<or> snd y) (xs @ (m, False) # ys)" and w: "sz + 12 \<le> m"
  shows "\<exists>k zs. taken sz m @ ys = (k, True) # zs \<and> fuse xs k zs = xs @ (m, False) # ys"
proof -
  have l: "\<not> (xs \<noteq> [] \<and> \<not> snd (last xs))" using c by (auto simp: successively_append_iff)
  show ?thesis
  proof (cases "sz + 36 \<le> m")
    case True
    then have "taken sz m @ ys = (sz + 12, True) # (m - (sz + 12), False) # ys" by (simp add: taken_def)
    moreover have "fuse xs (sz + 12) ((m - (sz + 12), False) # ys) = xs @ (m, False) # ys"
      using l w unfolding fuse_def by (auto simp: join_next_def)
    ultimately show ?thesis by blast
  next
    case False
    have "join_next m ys = (m, False) # ys"
      using c by (auto simp: join_next_def successively_append_iff successively_Cons split: list.splits bool.splits)
    then have "fuse xs m ys = xs @ (m, False) # ys" using l by (auto simp: fuse_def)
    moreover have "taken sz m @ ys = (m, True) # ys" using False by (simp add: taken_def)
    ultimately show ?thesis by blast
  qed
qed

section \<open>Correctness\<close>

text \<open>
  C22: from an initialised heap, after any sequence of calls of \<open>rt_malloc\<close>, \<open>rt_calloc\<close>, \<open>rt_realloc\<close> and
  \<open>rt_free\<close> with pointers that are null or allocated and sizes that do not wrap around, and of stores into
  allocations, the invariant of the heap holds; the allocations are aligned, lie inside the
  heap and do not overlap each other or a header; \<open>rt_memory_info\<close> reports the bytes in use; and every next valid call
  returns, with no assertion failing.
\<close>

theorem heap_never_stuck:
  assumes "used_mem h0 = 0" "0 < unat b" "unat b + 3 < 2 ^ 32" "unat (RT_ALIGN b 4) + 36 \<le> unat (RT_ALIGN_DOWN e 4)"
    and "heap_step\<^sup>*\<^sup>* (rt_system_heap_init b e h0) h"
  shows "heap_inv h \<and> sorted_wrt (\<lambda>(p, k) (q, m). p + k + 12 \<le> q) (live h) \<and>
    (\<forall>(p, k)\<in>set (live h). p mod 4 = 0 \<and> 4 \<le> k \<and> heap_ptr h + 12 \<le> p \<and> p + k \<le> heap_ptr h + heap_end h) \<and>
    (\<exists>peak. rt_memory_info h = (heap_end h - 12, \<Sum>(p, k)\<leftarrow>live h. k + 12, peak) \<and> (\<Sum>(p, k)\<leftarrow>live h. k + 12) \<le> peak) \<and>
    (\<forall>c. heap_valid c h \<longrightarrow> (\<exists>r h'. heap_exec c h = Some (r, h') \<and> heap_inv h'))"
proof -
  have "heap_inv (rt_system_heap_init b e h0)" using heap_rep_inv [OF heap_init_rep [OF assms(1-4)]] by blast
  then have h: "heap_inv h" by (rule steps_inv [OF assms(5)])
  then have d: "heap_rep h (blocks h)" by (simp add: heap_inv_def)
  have u: "(\<Sum>(p, k)\<leftarrow>live h. k + 12) = used_mem h"
    unfolding live_def heap_repD(9) [OF d] by (rule live_at_used) (erule rep_fst [OF heap_repD(1) [OF d]])
  have "sorted_wrt (\<lambda>(p, k) (q, m). p + k + 12 \<le> q) (live h)"
    using live_sorted [OF h] by (simp add: case_prod_unfold)
  moreover have "\<exists>peak. rt_memory_info h = (heap_end h - 12, used_mem h, peak) \<and> used_mem h \<le> peak"
    using heap_repD(4,5,13) [OF d] by (simp add: rt_memory_info_def)
  moreover have "\<forall>(p, k)\<in>set (live h). p mod 4 = 0 \<and> 4 \<le> k \<and> heap_ptr h + 12 \<le> p \<and> p + k \<le> heap_ptr h + heap_end h"
    using live_bounds [OF h] by auto
  ultimately show ?thesis using h exec_total [OF h] u by simp
qed

text \<open>
  C23: \<open>rt_malloc\<close> returns. Either it returns null, leaves the heap as it is, and no free block is large enough (but possibly
  one that starts within the last \<open>want n\<close> bytes of the heap); or it returns a new allocation of at least the requested
  size, and the other allocations and all user data are as before.
\<close>

theorem rt_malloc_correct:
  assumes "heap_inv h" "n \<noteq> 0" "unat n + 3 < 2 ^ 32"
  shows "\<exists>p h'. rt_malloc n h = Some (p, h') \<and> heap_inv h' \<and> heap_data h' = heap_data h \<and>
    (if p = 0 then h' = h \<and> (\<forall>xs m ys. blocks h = xs @ (m, False) # ys \<longrightarrow> m < want n + 12 \<or> mem_size_aligned h \<le> extent xs + want n)
     else p \<notin> fst ` set (live h) \<and> (\<exists>k\<ge>unat n. set (live h') = insert (p, k) (set (live h))))"
proof -
  have "request_ok n" using assms(2,3) by (simp add: request_ok_def)
  from malloc_live [OF assms(1) this] obtain p h' where r: "rt_malloc n h = Some (p, h')" "heap_inv h'" "heap_data h' = heap_data h"
    and c: "if p = 0 then h' = h \<and> no_room (want n) h
      else p \<notin> fst ` set (live h) \<and> (\<exists>k\<ge>want n. set (live h') = insert (p, k) (set (live h)))" by blast
  show ?thesis
  proof (cases "p = 0")
    case True
    then show ?thesis using r c unfolding no_room_def by simp
  next
    case False
    then obtain k where "p \<notin> fst ` set (live h)" "want n \<le> k" "set (live h') = insert (p, k) (set (live h))" using c by auto
    moreover have "unat n \<le> k" using want_ge [of n] \<open>want n \<le> k\<close> by linarith
    ultimately show ?thesis using r False by (intro exI [of _ p] exI [of _ h'] conjI) auto
  qed
qed

text \<open>
  C24: \<open>rt_free\<close> of an allocation returns, removes exactly this allocation, keeps all user data and gives its bytes back.
\<close>

theorem rt_free_correct:
  assumes "heap_inv h" "(p, k) \<in> set (live h)"
  shows "\<exists>h'. rt_free p h = Some h' \<and> heap_inv h' \<and> heap_data h' = heap_data h \<and> set (live h') = set (live h) - {(p, k)} \<and>
    used_mem h' + k + 12 = used_mem h"
  using free_live [OF assms] by blast

text \<open>
  \<open>rt_realloc\<close> of an allocation returns. Either it returns null and leaves the heap, with the allocation, as it is; or
  the allocation is replaced by one of at least the new size that starts with the old content up to the smaller of the sizes, and
  all other allocations keep their place, size and content.
\<close>

theorem rt_realloc_correct:
  assumes "heap_inv h" "(p, k) \<in> set (live h)" "n \<noteq> 0" "unat n + 3 < 2 ^ 32"
  shows "\<exists>q h'. rt_realloc p n h = Some (q, h') \<and> heap_inv h' \<and>
    (if q = 0 then h' = h
     else \<exists>m\<ge>unat n. set (live h') = insert (q, m) (set (live h) - {(p, k)}) \<and>
       (\<forall>i<min k (unat n). mem_byte h' (q + i) = mem_byte h (p + i)) \<and>
       (\<forall>(x, j)\<in>set (live h) - {(p, k)}. \<forall>i<j. mem_byte h' (x + i) = mem_byte h (x + i)))"
  using realloc_live [OF assms(1,2)] assms(3,4) unfolding request_ok_def moved_def by blast

text \<open>
  \<open>rt_free\<close> of what \<open>rt_malloc\<close> has just returned undoes it: the block, split by the allocation, is joined
  again, and the blocks, the lowest free block, the number of bytes in use and the data are those from before.
\<close>

theorem malloc_free_round_trip:
  assumes "heap_inv h" "unat n + 3 < 2 ^ 32" "rt_malloc n h = Some (p, h')"
  shows "\<exists>h''. rt_free p h' = Some h'' \<and> heap_inv h'' \<and> blocks h'' = blocks h \<and> lfree h'' = lfree h \<and>
    used_mem h'' = used_mem h \<and> heap_data h'' = heap_data h"
proof (cases "p = 0")
  case True
  then show ?thesis using assms malloc_live [OF assms(1), of n] by (cases "n = 0") (auto simp: request_ok_def)
next
  case False
  have r: "heap_rep h (blocks h)" and n: "n \<noteq> 0" using assms False by (auto simp: heap_inv_def)
  then obtain xs m ys where b: "blocks h = xs @ (m, False) # ys" "want n + 12 \<le> m" "p = heap_ptr h + extent xs + 12"
      and h': "heap_rep h' (xs @ taken (want n) m @ ys)" "heap_data h' = heap_data h" "heap_ptr h' = heap_ptr h"
    using rt_malloc_ok [OF r n assms(2)] assms(3) False by auto
  obtain k zs where k: "taken (want n) m @ ys = (k, True) # zs" "fuse xs k zs = blocks h"
    using fuse_taken [OF heap_repD(3) [OF r [unfolded b(1)]] b(2)] b(1) by auto
  obtain h'' where h'': "rt_free p h' = Some h''" "heap_rep h'' (blocks h)" "heap_data h'' = heap_data h'"
    using rt_free_ok [OF h'(1) [unfolded k(1)]] k(2) b(3) h'(3) by auto
  then show ?thesis
    using h'(2) heap_rep_blocks [OF h''(2)] heap_rep_inv [OF h''(2)] heap_repD(8,9) [OF h''(2)] heap_repD(8,9) [OF r] by auto
qed

section \<open>A heap of 128 bytes\<close>

definition heap0 :: heap where
  "heap0 = \<lparr>heap_ptr = 0, hdrs = \<lambda>_. \<lparr>magic = 0, used = 0, next_off = 0, prev_off = 0\<rparr>, heap_data = \<lambda>_. 7, heap_end = 0, lfree = 0,
    mem_size_aligned = 0, used_mem = 0, max_mem = 0\<rparr>"

definition heap1 :: heap where
  "heap1 = rt_system_heap_init 0x10 0x90 heap0"

definition heap2 :: heap where
  "heap2 = (case rt_malloc 20 heap1 of Some (p, h) \<Rightarrow> h | None \<Rightarrow> heap1)"

lemma heap1_conds:
  "used_mem heap0 = 0" "0 < unat (0x10 :: u32)" "unat (0x10 :: u32) + 3 < 2 ^ 32"
  "unat (RT_ALIGN (0x10 :: u32) 4) + 36 \<le> unat (RT_ALIGN_DOWN (0x90 :: u32) 4)"
  by (simp_all add: heap0_def unat_RT_ALIGN)

lemma heap1_inv: "heap_inv heap1"
  unfolding heap1_def using heap_rep_inv [OF heap_init_rep [OF heap1_conds]] by blast

lemma heap2_malloc: "map_option fst (rt_malloc 20 heap1) = Some 0x1C"
  by code_simp

lemma heap2_eq: "rt_malloc 20 heap1 = Some (0x1C, heap2)"
  using heap2_malloc by (auto simp: heap2_def)

lemma heap2_inv: "heap_inv heap2"
  using malloc_total [OF heap1_inv, of 20] heap2_eq by simp

lemma heap2_live: "live heap2 = [(0x1C, 20)]"
  by code_simp

theorem heap_never_stuck_witness:
  "heap_step\<^sup>*\<^sup>* (rt_system_heap_init 0x10 0x90 heap0) heap2 \<and> heap_inv heap2 \<and> live heap2 = [(0x1C, 20)] \<and>
    (\<exists>peak. rt_memory_info heap2 = (heap_end heap2 - 12, 32, peak)) \<and> (\<exists>r h'. heap_exec (Realloc 0x1C 40) heap2 = Some (r, h'))"
proof -
  have "heap_step heap1 heap2" using heap2_eq by (intro heap_step.call [of "Malloc 20"]) simp_all
  then have s: "heap_step\<^sup>*\<^sup>* (rt_system_heap_init 0x10 0x90 heap0) heap2" by (simp add: heap1_def)
  have v: "heap_valid (Realloc 0x1C 40) heap2" using heap2_live by simp
  note n = heap_never_stuck [OF heap1_conds s]
  then have "\<exists>peak. rt_memory_info heap2 = (heap_end heap2 - 12, 32, peak)" using heap2_live by auto
  moreover have "\<exists>r h'. heap_exec (Realloc 0x1C 40) heap2 = Some (r, h')" using n v by blast
  ultimately show ?thesis using s n heap2_live by blast
qed

theorem rt_malloc_correct_witness:
  "\<exists>p h'. rt_malloc 30 heap2 = Some (p, h') \<and> heap_inv h' \<and> heap_data h' = heap_data heap2"
proof -
  have "unat (30 :: u32) + 3 < 2 ^ 32" "(30 :: u32) \<noteq> 0" by simp_all
  from rt_malloc_correct [OF heap2_inv this(2,1)] show ?thesis by blast
qed

theorem rt_free_correct_witness: "\<exists>h'. rt_free 0x1C heap2 = Some h' \<and> heap_inv h' \<and> live h' = []"
  using rt_free_correct [of heap2 28 20, OF heap2_inv] heap2_live by auto

theorem rt_realloc_correct_witness:
  "\<exists>q h'. rt_realloc 0x1C 40 heap2 = Some (q, h') \<and> heap_inv h' \<and> (q = 0 \<or> (\<forall>i<20. mem_byte h' (q + i) = mem_byte heap2 (0x1C + i)))"
proof -
  have "(0x1C, 20) \<in> set (live heap2)" "(40 :: u32) \<noteq> 0" "unat (40 :: u32) + 3 < 2 ^ 32" using heap2_live by simp_all
  from rt_realloc_correct [OF heap2_inv this] show ?thesis by (auto split: if_splits)
qed

theorem malloc_free_round_trip_witness: "\<exists>h''. rt_free 0x1C heap2 = Some h'' \<and> blocks h'' = [(116, False)]"
proof -
  have "blocks heap1 = [(116, False)]" by code_simp
  then show ?thesis using malloc_free_round_trip [OF heap1_inv _ heap2_eq] by auto
qed

text \<open>A free block that fits exactly is not found at the end of the heap, and a request close to \<open>2 ^ 32\<close> gets twelve bytes.\<close>

lemma rt_malloc_exact_fit_refused: "blocks heap1 = [(92 + 24, False)] \<and> map_option fst (rt_malloc (92 + 12) heap1) = Some 0"
  by (rule conjI; code_simp)

lemma rt_malloc_wraps: "map_option (\<lambda>(p, h). (p, live h)) (rt_malloc 0xFFFFFFFD heap1) = Some (0x1C, [(0x1C, 12)])"
  by code_simp

end
