(* ===== verification/RT_Idle.thy ===== *)
theory RT_Idle
  imports RT_Thread RT_Heap
begin

text \<open>
  The idle thread, \<open>src/idle.c\<close>: its hooks and its background job, which releases deleted threads. Kernel and heap meet here: the
  stack of a deleted thread and its structure are allocations of the heap. \<open>adr t\<close> is the address of the structure of thread \<open>t\<close>, which
  the kernel state does not hold. Hooks are numbered, and what they do is a parameter.
\<close>

unbundle bit_operations_syntax

section \<open>Operations\<close>

abbreviation (input) RT_ENOSYS :: rt_err_t where "RT_ENOSYS \<equiv> 6"

type_synonym idle_hooks = "nat option list"

fun rt_thread_idle_sethook :: "nat \<Rightarrow> idle_hooks \<Rightarrow> rt_err_t \<times> idle_hooks" where
  "rt_thread_idle_sethook hook [] = (- RT_EFULL, [])"
| "rt_thread_idle_sethook hook (x # hs) =
    (if x = None then (RT_EOK, Some hook # hs) else map_prod id ((#) x) (rt_thread_idle_sethook hook hs))"

fun rt_thread_idle_delhook :: "nat \<Rightarrow> idle_hooks \<Rightarrow> rt_err_t \<times> idle_hooks" where
  "rt_thread_idle_delhook hook [] = (- RT_ENOSYS, [])"
| "rt_thread_idle_delhook hook (x # hs) =
    (if x = Some hook then (RT_EOK, None # hs) else map_prod id ((#) x) (rt_thread_idle_delhook hook hs))"

text \<open>One pass of the loop: the thread leaves the list, its stack is freed, and \<open>rt_object_delete\<close> unregisters it and frees its
  structure.\<close>

definition release_thread :: "(tid \<Rightarrow> nat) \<Rightarrow> tid \<Rightarrow> kernel \<times> heap \<Rightarrow> (kernel \<times> heap) option" where
  "release_thread adr t kh =
    (case kh of (k, h) \<Rightarrow>
       do {
         let k = tl_remove t k;
         h \<leftarrow> rt_free (unat (stack_addr (threads k t))) h;
         k \<leftarrow> rt_object_delete (OThread t) k;
         h \<leftarrow> rt_free (adr t) h;
         Some (k, h)
       })"

partial_function (option) idle_loop :: "(tid \<Rightarrow> nat) \<Rightarrow> kernel \<times> heap \<Rightarrow> (kernel \<times> heap) option" where
  "idle_loop adr kh =
    (case tlists (fst kh) Defunct of
       [] \<Rightarrow> Some kh
     | t # _ \<Rightarrow> do { kh \<leftarrow> release_thread adr t kh; idle_loop adr kh })"

definition rt_thread_idle_excute :: "(tid \<Rightarrow> nat) \<Rightarrow> kernel \<times> heap \<Rightarrow> (kernel \<times> heap) option" where
  "rt_thread_idle_excute adr kh =
    do {
      RT_ASSERT (not_in_interrupt (fst kh));
      idle_loop adr kh
    }"

text \<open>One round of the endless loop of \<open>rt_thread_idle_entry\<close>.\<close>

fun run_hooks :: "(nat \<Rightarrow> kernel \<times> heap \<Rightarrow> (kernel \<times> heap) option) \<Rightarrow> idle_hooks \<Rightarrow> kernel \<times> heap \<Rightarrow> (kernel \<times> heap) option" where
  "run_hooks run [] kh = Some kh"
| "run_hooks run (x # hs) kh = do { kh \<leftarrow> (case x of None \<Rightarrow> Some kh | Some hook \<Rightarrow> run hook kh); run_hooks run hs kh }"

definition rt_thread_idle_entry ::
  "(tid \<Rightarrow> nat) \<Rightarrow> (nat \<Rightarrow> kernel \<times> heap \<Rightarrow> (kernel \<times> heap) option) \<Rightarrow> idle_hooks \<Rightarrow> kernel \<times> heap \<Rightarrow> (kernel \<times> heap) option" where
  "rt_thread_idle_entry adr run hs kh = do { kh \<leftarrow> run_hooks run hs kh; rt_thread_idle_excute adr kh }"

definition rt_thread_idle_init :: "u32 \<Rightarrow> tid \<Rightarrow> u32 \<Rightarrow> u32 \<Rightarrow> kernel \<Rightarrow> kernel option" where
  "rt_thread_idle_init texit idle idle_entry stack k =
    do {
      (_, k) \<leftarrow> rt_thread_init texit idle ''tidle0'' idle_entry 0 stack 256 31 32 k;
      (_, k) \<leftarrow> rt_thread_startup idle k;
      Some k
    }"

section \<open>Hooks\<close>

lemma idle_hook_round_trip:
  "rt_thread_idle_sethook hook hs = (RT_EOK, hs') \<Longrightarrow> Some hook \<notin> set hs \<Longrightarrow> rt_thread_idle_delhook hook hs' = (RT_EOK, hs)"
  by (induction hs arbitrary: hs') (auto simp: map_prod_def split: if_splits prod.splits)

lemma idle_sethook_full: "fst (rt_thread_idle_sethook hook hs) = - RT_EFULL \<longleftrightarrow> None \<notin> set hs"
  by (induction hs) (auto simp: map_prod_def split: prod.splits)

section \<open>Releasing\<close>

lemma tl_remove_defunct:
  assumes q: "qinv {} k" and t: "t \<in> set (tlists k Defunct)"
  shows "tlists (tl_remove t k) l = (if l = Defunct then remove1 t (tlists k l) else tlists k l)"
  using qinvD(7) [OF q t, of l] by (auto simp: tl_remove_def intro: remove1_idem)

lemma kinv_release:
  assumes inv: "kinv k" and t: "t \<in> set (tlists k Defunct)"
  shows "kinv (container_remove (OThread t) (upd_hdr (OThread t) (\<lambda>h. h\<lparr>o_type := 0\<rparr>) (tl_remove t k)))" (is "kinv ?k")
proof -
  note q = kinvD(5) [OF inv]
  define k1 where "k1 = ?k"
  have sel: "threads k1 = threads k" "ready_group k1 = ready_group k" "cur k1 = cur k"
      "tmlists k1 = tmlists k" "timers k1 = timers k" "\<And>r. r \<noteq> OThread t \<Longrightarrow> hdr k1 r = hdr k r"
    by (simp_all add: k1_def container_remove_def upd_hdr_def tl_remove_def)
  have l: "tlists k1 m = (if m = Defunct then remove1 t (tlists k m) else tlists k m)" for m
    using tl_remove_defunct [OF q t, of m] by (simp add: k1_def container_remove_def upd_hdr_def)
  have "stat_of (threads k t) = RT_THREAD_CLOSE" using qinvD(2) [OF q t] by simp
  then have ns: "\<not> started (threads k t)" by (simp add: started_def)
  have "qinv {} k1"
  proof (rule qinvI)
    show "bit (ready_group k1) p \<longleftrightarrow> tlists k1 (Ready p) \<noteq> []" if "p < 32" for p using qinvD(1) [OF q that] sel l by simp
    show "lid_ok m (threads k1 u)" if "u \<in> set (tlists k1 m)" for m u
      using that qinvD(2) [OF q, of u m] sel l by (auto split: if_splits dest: notin_set_remove1)
    show "u \<in> set (tlists k1 (Ready (unat (current_priority (threads k1 u)))))" if "stat_of (threads k1 u) = RT_THREAD_READY" for u
      using that qinvD(4) [OF q, of u] sel l by simp
    show "prio_ok (threads k1 u)" if "started (threads k1 u)" for u using that qinvD(5) [OF q, of u] sel by simp
    show "distinct (tlists k1 m)" for m using qinvD(6) [OF q, of m] l by (auto intro: distinct_remove1)
    show "m = n" if "u \<in> set (tlists k1 m)" "u \<in> set (tlists k1 n)" for m n u
      using that qinvD(7) [OF q, of u m n] sel l by (auto split: if_splits dest: notin_set_remove1)
  qed simp
  then have "sched_inv k1" using kinvD(1) [OF inv] sel by (simp add: sched_inv_def)
  moreover have "stacks_ok k1" using kinvD(2) [OF inv] sel by (simp add: stacks_ok_def)
  moreover have "tm_inv k1"
    using kinvD(3) [OF inv] sel(4,6) unfolding tm_inv_def timer_flag_defs rt_object_get_type_def by simp
  moreover have "tt_inv k1"
    using kinvD(4) [OF inv] sel(1,4,5,6) ns unfolding tt_inv_def tcb_ok_def timer_flag_defs rt_object_get_type_def rt_object_is_systemobject_def
    by (metis oref.distinct(1) oref.inject(1))
  ultimately show ?thesis unfolding k1_def [symmetric] by (simp add: kinv_def)
qed

lemma free_address:
  assumes "heap_inv h" "p \<in> fst ` set (live h)"
  shows "\<exists>h'. rt_free p h = Some h' \<and> heap_inv h' \<and> heap_data h' = heap_data h \<and> set (live h') = {b \<in> set (live h). fst b \<noteq> p}"
proof -
  obtain n where n: "(p, n) \<in> set (live h)" using assms(2) by auto
  have u: "b = (p, n)" if "b \<in> set (live h)" "fst b = p" for b
    using eq_key_imp_eq_value [OF live_distinct [OF assms(1)] n, of "snd b"] that by (cases b) auto
  have "b \<in> set (live h) - {(p, n)} \<longleftrightarrow> b \<in> {b \<in> set (live h). fst b \<noteq> p}" for b using u [of b] by fastforce
  then have "set (live h) - {(p, n)} = {b \<in> set (live h). fst b \<noteq> p}" by (rule set_eqI)
  then show ?thesis using free_live [OF assms(1) n] by metis
qed

text \<open>The memory of a list of threads: their stacks and structures.\<close>

definition thread_memory :: "(tid \<Rightarrow> nat) \<Rightarrow> kernel \<Rightarrow> tid list \<Rightarrow> nat list" where
  "thread_memory adr k ts = concat (map (\<lambda>t. [unat (stack_addr (threads k t)), adr t]) ts)"

lemma release_thread_ok:
  assumes inv: "kinv k" "heap_inv h" and d: "tlists k Defunct = t # ts" and dyn: "o_type (hdr k (OThread t)) AND Class_Static = 0"
    and m: "unat (stack_addr (threads k t)) \<in> fst ` set (live h)" "adr t \<in> fst ` set (live h)" "unat (stack_addr (threads k t)) \<noteq> adr t"
  shows "\<exists>k' h'. release_thread adr t (k, h) = Some (k', h') \<and> kinv k' \<and> heap_inv h' \<and> heap_data h' = heap_data h \<and>
    tlists k' Defunct = ts \<and> (\<forall>l. l \<noteq> Defunct \<longrightarrow> tlists k' l = tlists k l) \<and> threads k' = threads k \<and>
    hdr k' = (hdr k)(OThread t := (hdr k (OThread t))\<lparr>o_type := 0\<rparr>) \<and>
    containers k' = (\<lambda>c. remove1 (OThread t) (containers k c)) \<and>
    set (live h') = {b \<in> set (live h). fst b \<notin> {unat (stack_addr (threads k t)), adr t}}"
proof -
  have t: "t \<in> set (tlists k Defunct)" using d by simp
  define k' where "k' = container_remove (OThread t) (upd_hdr (OThread t) (\<lambda>h. h\<lparr>o_type := 0\<rparr>) (tl_remove t k))"
  have "tlists k' l = (if l = Defunct then remove1 t (tlists k l) else tlists k l)" for l
    using tl_remove_defunct [OF kinvD(5) [OF inv(1)] t, of l] by (simp add: k'_def container_remove_def upd_hdr_def)
  then have ls: "tlists k' Defunct = ts" "\<forall>l. l \<noteq> Defunct \<longrightarrow> tlists k' l = tlists k l" using d by simp_all
  have sel: "threads k' = threads k" "hdr k' = (hdr k)(OThread t := (hdr k (OThread t))\<lparr>o_type := 0\<rparr>)"
      "containers k' = (\<lambda>c. remove1 (OThread t) (containers k c))"
    by (simp_all add: k'_def container_remove_def upd_hdr_def tl_remove_def)
  obtain h1 where h1: "rt_free (unat (stack_addr (threads k t))) h = Some h1" "heap_inv h1" "heap_data h1 = heap_data h"
      "set (live h1) = {b \<in> set (live h). fst b \<noteq> unat (stack_addr (threads k t))}"
    using free_address [OF inv(2) m(1)] by blast
  have "adr t \<in> fst ` set (live h1)" using m(2,3) h1(4) by force
  then obtain h2 where h2: "rt_free (adr t) h1 = Some h2" "heap_inv h2" "heap_data h2 = heap_data h1"
      "set (live h2) = {b \<in> set (live h1). fst b \<noteq> adr t}"
    using free_address [OF h1(2)] by blast
  have "release_thread adr t (k, h) = Some (k', h2)"
    using h1(1) h2(1) dyn by (simp add: release_thread_def rt_object_delete_def k'_def tl_remove_def)
  moreover have "kinv k'" unfolding k'_def by (rule kinv_release [OF inv(1) t])
  ultimately show ?thesis using h1 h2 ls sel by auto
qed

text \<open>Registered objects other than the given threads. A list without duplicates loses exactly them.\<close>

definition without_threads :: "tid list \<Rightarrow> oref list \<Rightarrow> oref list" where
  "without_threads ts rs = filter (\<lambda>r. r \<notin> OThread ` set ts) rs"

lemma without_threads_Nil [simp]: "without_threads [] rs = rs"
  by (simp add: without_threads_def)

lemma without_threads_Cons:
  "distinct rs \<Longrightarrow> without_threads ts (remove1 (OThread t) rs) = without_threads (t # ts) rs"
  by (auto simp: without_threads_def distinct_remove1_removeAll removeAll_filter_not_eq intro: filter_cong)

lemma idle_loop_ok:
  "kinv k \<Longrightarrow> heap_inv h \<Longrightarrow> tlists k Defunct = ts \<Longrightarrow> \<forall>t\<in>set ts. o_type (hdr k (OThread t)) AND Class_Static = 0 \<Longrightarrow>
    distinct (thread_memory adr k ts) \<Longrightarrow> set (thread_memory adr k ts) \<subseteq> fst ` set (live h) \<Longrightarrow>
    \<exists>k' h'. idle_loop adr (k, h) = Some (k', h') \<and> kinv k' \<and> heap_inv h' \<and> heap_data h' = heap_data h \<and>
      tlists k' Defunct = [] \<and> (\<forall>l. l \<noteq> Defunct \<longrightarrow> tlists k' l = tlists k l) \<and> threads k' = threads k \<and>
      hdr k' = (\<lambda>r. if r \<in> OThread ` set ts then (hdr k r)\<lparr>o_type := 0\<rparr> else hdr k r) \<and>
      (\<forall>c. distinct (containers k c) \<longrightarrow> containers k' c = without_threads ts (containers k c)) \<and>
      set (live h') = {b \<in> set (live h). fst b \<notin> set (thread_memory adr k ts)}"
proof (induction ts arbitrary: k h)
  case Nil
  then show ?case by (subst idle_loop.simps) (simp add: thread_memory_def)
next
  case (Cons t ts)
  let ?a = "unat (stack_addr (threads k t))"
  have m: "thread_memory adr k (t # ts) = ?a # adr t # thread_memory adr k ts" by (simp add: thread_memory_def)
  have ok: "o_type (hdr k (OThread t)) AND Class_Static = 0" "?a \<in> fst ` set (live h)" "adr t \<in> fst ` set (live h)" "?a \<noteq> adr t"
    using Cons.prems(4-6) unfolding m by simp_all
  obtain k1 h1 where r: "release_thread adr t (k, h) = Some (k1, h1)" "kinv k1" "heap_inv h1" "heap_data h1 = heap_data h"
      "tlists k1 Defunct = ts" "\<forall>l. l \<noteq> Defunct \<longrightarrow> tlists k1 l = tlists k l" "threads k1 = threads k"
      "hdr k1 = (hdr k)(OThread t := (hdr k (OThread t))\<lparr>o_type := 0\<rparr>)"
      "containers k1 = (\<lambda>c. remove1 (OThread t) (containers k c))"
      "set (live h1) = {b \<in> set (live h). fst b \<notin> {?a, adr t}}"
    using release_thread_ok [where adr = adr, OF Cons.prems(1-3) ok] by blast
  have m1: "thread_memory adr k1 ts = thread_memory adr k ts" using r(7) by (simp add: thread_memory_def)
  have "\<forall>u\<in>set ts. o_type (hdr k1 (OThread u)) AND Class_Static = 0" using Cons.prems(4) r(8) by auto
  moreover have "distinct (thread_memory adr k1 ts)" "set (thread_memory adr k1 ts) \<subseteq> fst ` set (live h1)"
  proof -
    show "distinct (thread_memory adr k1 ts)" using Cons.prems(5) unfolding m m1 by simp
    have "?a \<notin> set (thread_memory adr k ts)" "adr t \<notin> set (thread_memory adr k ts)" using Cons.prems(5) unfolding m by simp_all
    then show "set (thread_memory adr k1 ts) \<subseteq> fst ` set (live h1)" using Cons.prems(6) unfolding m m1 r(10) by fastforce
  qed
  ultimately obtain k2 h2 where r2: "idle_loop adr (k1, h1) = Some (k2, h2)" "kinv k2" "heap_inv h2" "heap_data h2 = heap_data h1"
      "tlists k2 Defunct = []" "\<forall>l. l \<noteq> Defunct \<longrightarrow> tlists k2 l = tlists k1 l" "threads k2 = threads k1"
      "hdr k2 = (\<lambda>r. if r \<in> OThread ` set ts then (hdr k1 r)\<lparr>o_type := 0\<rparr> else hdr k1 r)"
      "\<forall>c. distinct (containers k1 c) \<longrightarrow> containers k2 c = without_threads ts (containers k1 c)"
      "set (live h2) = {b \<in> set (live h1). fst b \<notin> set (thread_memory adr k1 ts)}"
    using Cons.IH [OF r(2,3,5)] by blast
  have "idle_loop adr (k, h) = Some (k2, h2)" using Cons.prems(3) r(1) r2(1) by (subst idle_loop.simps) simp
  moreover have "hdr k2 = (\<lambda>r. if r \<in> OThread ` set (t # ts) then (hdr k r)\<lparr>o_type := 0\<rparr> else hdr k r)"
    unfolding r2(8) r(8) by auto
  moreover have "set (live h2) = {b \<in> set (live h). fst b \<notin> set (thread_memory adr k (t # ts))}"
    unfolding r2(10) r(10) m m1 by auto
  moreover have "containers k2 c = without_threads (t # ts) (containers k c)" if "distinct (containers k c)" for c
    using that r(9) r2(9) without_threads_Cons [OF that] by simp
  ultimately show ?case using r r2 by auto
qed

section \<open>Correctness\<close>

text \<open>
  C21: The background job of the idle thread returns, and then no deleted thread is left: each of them has left the object
  container it was registered in and its type byte is cleared, every other object stays registered, in order, with its header, and
  exactly the stacks and structures of the deleted threads have been given back to the heap. If the deleted threads are
  dynamic and their memory is allocated, each piece once, all invariants of the kernel and the heap are kept, and no other list,
  thread or allocation changes. A container holds an object at most once (\<open>rt_object_init\<close> asserts it).
\<close>

theorem rt_thread_idle_excute_correct:
  assumes "kinv k" "heap_inv h" "not_in_interrupt k" "\<forall>t\<in>set (tlists k Defunct). o_type (hdr k (OThread t)) AND Class_Static = 0"
    and "distinct (thread_memory adr k (tlists k Defunct))" "set (thread_memory adr k (tlists k Defunct)) \<subseteq> fst ` set (live h)"
  shows "\<exists>k' h'. rt_thread_idle_excute adr (k, h) = Some (k', h') \<and> kinv k' \<and> heap_inv h' \<and> heap_data h' = heap_data h \<and>
    tlists k' Defunct = [] \<and> (\<forall>l. l \<noteq> Defunct \<longrightarrow> tlists k' l = tlists k l) \<and> threads k' = threads k \<and>
    (\<forall>t\<in>set (tlists k Defunct). rt_object_get_type (OThread t) k' = 0) \<and>
    (\<forall>r. r \<notin> OThread ` set (tlists k Defunct) \<longrightarrow> hdr k' r = hdr k r) \<and>
    (\<forall>c. distinct (containers k c) \<longrightarrow>
       containers k' c = filter (\<lambda>r. r \<notin> OThread ` set (tlists k Defunct)) (containers k c)) \<and>
    set (live h') = {b \<in> set (live h). fst b \<notin> set (thread_memory adr k (tlists k Defunct))}"
  using idle_loop_ok [OF assms(1,2) refl assms(4-6)] assms(3)
  by (auto simp: rt_thread_idle_excute_def rt_object_get_type_def without_threads_def)

text \<open>A system whose thread 3 is deleted; its stack and its structure are the two allocations of the heap.\<close>

definition heap3 :: heap where
  "heap3 = snd (the (rt_malloc 20 heap2))"

lemma heap3_malloc: "map_option fst (rt_malloc 20 heap2) = Some 0x3C"
  by code_simp

lemma heap3_inv: "heap_inv heap3"
  using malloc_total [OF heap2_inv, of 20] heap3_malloc by (auto simp: heap3_def)

lemma heap3_live: "live heap3 = [(0x1C, 20), (0x3C, 20)]"
  by code_simp

definition demo_defunct :: kernel where
  "demo_defunct = zero_kernel\<lparr>threads := (\<lambda>_. zero_thread)(3 := zero_thread\<lparr>t_stat := RT_THREAD_CLOSE, stack_addr := 0x1C\<rparr>),
    tlists := (\<lambda>_. [])(Defunct := [3]), hdr := (\<lambda>_. zero_object)(OThread 3 := zero_object\<lparr>o_type := Class_Thread\<rparr>),
    containers := (\<lambda>_. [])(Class_Thread := [OThread 5, OThread 3, OThread 0])\<rparr>"

lemma demo_defunct_kinv: "kinv demo_defunct"
proof -
  have ns: "\<not> started (threads demo_defunct t)" for t by (simp add: demo_defunct_def started_def stat_of_def zero_thread_def)
  have "sched_inv demo_defunct"
    by (rule sched_invI, rule qinvI)
      (auto simp: demo_defunct_def zero_kernel_def zero_thread_def stat_of_def started_def split: if_splits)
  moreover have "stacks_ok demo_defunct" using ns by (simp add: stacks_ok_def)
  moreover have "tm_inv demo_defunct"
    by (auto simp: tm_inv_def demo_defunct_def zero_kernel_def timer_flag_defs zero_object_def)
  moreover have "tt_inv demo_defunct" using ns by (simp add: tt_inv_def demo_defunct_def zero_kernel_def zero_timer_def)
  ultimately show ?thesis by (simp add: kinv_def)
qed

theorem rt_thread_idle_excute_correct_witness:
  "\<exists>k h. rt_thread_idle_excute (\<lambda>_. 0x3C) (demo_defunct, heap3) = Some (k, h) \<and> kinv k \<and> heap_inv h \<and> tlists k Defunct = [] \<and> live h = [] \<and>
    containers k Class_Thread = [OThread 5, OThread 0]"
proof -
  have "tlists demo_defunct Defunct = [3]" "not_in_interrupt demo_defunct" "o_type (hdr demo_defunct (OThread 3)) AND Class_Static = 0"
      "thread_memory (\<lambda>_. 0x3C) demo_defunct [3] = [0x1C, 0x3C]"
    by (simp_all add: demo_defunct_def zero_kernel_def not_in_interrupt_def thread_memory_def zero_object_def)
  then obtain k h where r: "rt_thread_idle_excute (\<lambda>_. 0x3C) (demo_defunct, heap3) = Some (k, h)" "kinv k" "heap_inv h" "tlists k Defunct = []"
      "set (live h) = {b \<in> set (live heap3). fst b \<notin> {0x1C, 0x3C}}"
      and c: "\<forall>c. distinct (containers demo_defunct c) \<longrightarrow>
        containers k c = filter (\<lambda>r. r \<notin> OThread ` {3}) (containers demo_defunct c)"
    using rt_thread_idle_excute_correct [OF demo_defunct_kinv heap3_inv, of "\<lambda>_. 0x3C"] by (auto simp: heap3_live)
  have "set (live h) = {}" unfolding r(5) heap3_live by auto
  then have "live h = []" by simp
  moreover have "containers k Class_Thread = [OThread 5, OThread 0]"
    using c [rule_format, of Class_Thread] by (simp add: demo_defunct_def)
  ultimately show ?thesis using r(1-4) by blast
qed

end
