(* ===== verification/RT_Printf.thy ===== *)
theory RT_Printf
  imports RT_Prelude
begin

unbundle bit_operations_syntax

text \<open>
  Formatted output, \<open>rt_vsnprintf\<close> of \<open>src/kservice.c\<close> with its number printing and the buffer of \<open>rt_kprintf\<close>. The buffer
  is part of the memory, addressed by 32-bit words; the format and the strings among the arguments are values: they do not lie in the
  buffer. An argument that is missing or of the wrong kind is \<open>None\<close>. Widths and precisions are \<open>int\<close>; a signed overflow
  of the C type is not modelled. The routine is shown to write exactly the text that a description by padding, sign and digits gives,
  cut to the size of the buffer, with its terminator, and nothing else.
\<close>

section \<open>Operations\<close>

type_synonym cmem = "u32 \<Rightarrow> char"

text \<open>The next free position and the memory; the arguments of the variable argument list.\<close>

type_synonym out = "u32 \<times> cmem"

datatype arg = AInt u32 | AStr "string option"

fun va_int :: "arg list \<Rightarrow> (u32 \<times> arg list) option" where
  "va_int (AInt w # as) = Some (w, as)"
| "va_int _ = None"

fun va_str :: "arg list \<Rightarrow> (string option \<times> arg list) option" where
  "va_str (AStr s # as) = Some (s, as)"
| "va_str _ = None"

abbreviation (input) ZEROPAD :: u8 where "ZEROPAD \<equiv> 1"
abbreviation (input) SIGN :: u8 where "SIGN \<equiv> 2"
abbreviation (input) PLUS :: u8 where "PLUS \<equiv> 4"
abbreviation (input) SPACE :: u8 where "SPACE \<equiv> 8"
abbreviation (input) LEFT :: u8 where "LEFT \<equiv> 16"
abbreviation (input) SPECIAL :: u8 where "SPECIAL \<equiv> 32"
abbreviation (input) LARGE :: u8 where "LARGE \<equiv> 64"

text \<open>\<open>if (str < end) *str = c; ++ str;\<close>\<close>

definition put :: "u32 \<Rightarrow> char \<Rightarrow> out \<Rightarrow> out" where
  "put end c st = (case st of (str, m) \<Rightarrow> (str + 1, if str < end then m(str := c) else m))"

text \<open>\<open>while (n-- > 0)\<close> with a \<open>put\<close> in its body: the value of \<open>n\<close> behind the loop, and the output.\<close>

function put_loop :: "u32 \<Rightarrow> char \<Rightarrow> int \<Rightarrow> out \<Rightarrow> int \<times> out" where
  "put_loop end c n st = (if n > 0 then put_loop end c (n - 1) (put end c st) else (n - 1, st))"
  by pat_completeness auto
termination by (relation "measure (\<lambda>(e, c, n, st). nat n)") auto

text \<open>\<open>divide\<close>: the last digit and the rest; every base other than 10 divides by 16.\<close>

definition divide :: "u32 \<Rightarrow> nat \<Rightarrow> nat \<times> u32" where
  "divide n base = (if base = 10 then (unat (n mod 10), n div 10) else (unat (n mod 16), n div 16))"

lemma divide_less: "n \<noteq> 0 \<Longrightarrow> unat (snd (divide n base)) < unat n"
  by (simp add: divide_def unat_div unat_gt_0 div_less_dividend)

definition digit_chars :: "bool \<Rightarrow> string" where
  "digit_chars large = (if large then ''0123456789ABCDEF'' else ''0123456789abcdef'')"

text \<open>\<open>while (num != 0) tmp[i++] = digits[divide(&num, base)]\<close>, with the array of 16 characters.\<close>

function digits_loop :: "string \<Rightarrow> nat \<Rightarrow> u32 \<Rightarrow> string \<Rightarrow> string option" where
  "digits_loop digits base num tmp =
    (if num \<noteq> 0 then
       do {
         RT_ASSERT (length tmp < 16);
         digits_loop digits base (snd (divide num base)) (tmp @ [digits ! fst (divide num base)])
       }
     else Some tmp)"
  by pat_completeness auto
termination by (relation "measure (\<lambda>(ds, b, n, t). unat n)") (auto simp: divide_less)

declare put_loop.simps [simp del] digits_loop.simps [simp del]

text \<open>\<open>while (i-- > 0 && precision_bak != 0)\<close>: the digits, last one first.\<close>

fun put_tmp :: "u32 \<Rightarrow> string \<Rightarrow> out \<Rightarrow> out" where
  "put_tmp end [] st = st"
| "put_tmp end (c # cs) st = put_tmp end cs (put end c st)"

text \<open>The three parts of \<open>print_number\<close>: the sign, the digits, and the output of padding, sign, zeros and digits.\<close>

definition number_sign :: "u8 \<Rightarrow> u32 \<Rightarrow> char option \<times> u32" where
  "number_sign ty num =
    (if ty AND SIGN \<noteq> 0 then
       if num <s 0 then (Some CHR ''-'', - num)
       else if ty AND PLUS \<noteq> 0 then (Some CHR ''+'', num)
       else if ty AND SPACE \<noteq> 0 then (Some CHR '' '', num)
       else (None, num)
     else (None, num))"

definition put_number :: "u32 \<Rightarrow> char option \<Rightarrow> string \<Rightarrow> int \<Rightarrow> int \<Rightarrow> u8 \<Rightarrow> out \<Rightarrow> out" where
  "put_number end sign tmp s precision ty buf =
    (let precision_bak = precision;
         c = (if ty AND ZEROPAD \<noteq> 0 then CHR ''0'' else CHR '' '');
         i = int (length tmp);
         precision = (if i > precision then i else precision);
         size = s - precision;
         (size, buf) =
           (if ty AND (ZEROPAD OR LEFT) = 0 then
              let size = (if sign \<noteq> None \<and> size > 0 then size - 1 else size) in put_loop end CHR '' '' size buf
            else (size, buf));
         (size, buf) = (case sign of Some sg \<Rightarrow> (size - 1, put end sg buf) | None \<Rightarrow> (size, buf));
         (size, buf) = (if ty AND LEFT = 0 then put_loop end c size buf else (size, buf));
         (_, buf) = put_loop end CHR ''0'' (precision - i) buf;
         buf = (if precision_bak \<noteq> 0 then put_tmp end (rev tmp) buf else buf)
     in snd (put_loop end CHR '' '' size buf))"

definition print_number :: "out \<Rightarrow> u32 \<Rightarrow> u32 \<Rightarrow> nat \<Rightarrow> int \<Rightarrow> int \<Rightarrow> u8 \<Rightarrow> out option" where
  "print_number buf end num base s precision ty =
    (let digits = digit_chars (ty AND LARGE \<noteq> 0);
         ty = (if ty AND LEFT \<noteq> 0 then ty AND NOT ZEROPAD else ty);
         (sign, num) = number_sign ty num
     in do {
       tmp \<leftarrow> (if num = 0 then Some ''0'' else digits_loop digits base num []);
       Some (put_number end sign tmp s precision ty buf)
     })"

text \<open>The flags of a directive, and a decimal number of the format.\<close>

fun parse_flags :: "string \<Rightarrow> u8 \<Rightarrow> u8 \<times> string" where
  "parse_flags [] flags = (flags, [])"
| "parse_flags (c # fmt) flags =
    (if c = CHR ''-'' then parse_flags fmt (flags OR LEFT)
     else if c = CHR ''+'' then parse_flags fmt (flags OR PLUS)
     else if c = CHR '' '' then parse_flags fmt (flags OR SPACE)
     else if c = CHR ''#'' then parse_flags fmt (flags OR SPECIAL)
     else if c = CHR ''0'' then parse_flags fmt (flags OR ZEROPAD)
     else (flags, c # fmt))"

definition is_digit :: "char \<Rightarrow> bool" where
  "is_digit c \<longleftrightarrow> 48 \<le> (of_char c :: nat) \<and> (of_char c :: nat) < 58"

fun skip_atoi :: "string \<Rightarrow> int \<Rightarrow> int \<times> string" where
  "skip_atoi [] i = (i, [])"
| "skip_atoi (c # fmt) i = (if is_digit c then skip_atoi fmt (i * 10 + of_char c - 48) else (i, c # fmt))"

definition parse_width :: "string \<Rightarrow> u8 \<Rightarrow> arg list \<Rightarrow> (int \<times> u8 \<times> string \<times> arg list) option" where
  "parse_width fmt flags args =
    (case fmt of
       c # fmt' \<Rightarrow>
         if is_digit c then let (w, fmt) = skip_atoi fmt 0 in Some (w, flags, fmt, args)
         else if c = CHR ''*'' then
           do {
             (a, args) \<leftarrow> va_int args;
             Some (if sint a < 0 then (- sint a, flags OR LEFT, fmt', args) else (sint a, flags, fmt', args))
           }
         else Some (- 1, flags, fmt, args)
     | [] \<Rightarrow> Some (- 1, flags, fmt, args))"

definition parse_precision :: "string \<Rightarrow> arg list \<Rightarrow> (int \<times> string \<times> arg list) option" where
  "parse_precision fmt args =
    (if fmt \<noteq> [] \<and> hd fmt = CHR ''.'' then
       do {
         (p, fmt, args) \<leftarrow>
           (case tl fmt of
              c # fmt' \<Rightarrow>
                if is_digit c then let (p, fmt) = skip_atoi (tl fmt) 0 in Some (p, fmt, args)
                else if c = CHR ''*'' then do { (a, args) \<leftarrow> va_int args; Some (sint a, fmt', args) }
                else Some (- 1, tl fmt, args)
            | [] \<Rightarrow> Some (- 1, tl fmt, args));
         Some (if p < 0 then 0 else p, fmt, args)
       }
     else Some (- 1, fmt, args))"

definition parse_qualifier :: "string \<Rightarrow> char option \<times> string" where
  "parse_qualifier fmt = (case fmt of c # fmt' \<Rightarrow> if c = CHR ''h'' \<or> c = CHR ''l'' then (Some c, fmt') else (None, fmt) | [] \<Rightarrow> (None, fmt))"

text \<open>The value of an integer argument under the qualifier and the signedness of the conversion.\<close>

definition arg_number :: "char option \<Rightarrow> u8 \<Rightarrow> u32 \<Rightarrow> u32" where
  "arg_number qualifier flags a =
    (if qualifier = Some CHR ''h'' then if flags AND SIGN \<noteq> 0 then scast (ucast a :: u16) else ucast (ucast a :: u16) else a)"

text \<open>The conversions \<open>c\<close> and \<open>s\<close>; \<open>while (--n > 0)\<close> and \<open>while (len < n--)\<close> are loops of the same kind.\<close>

definition put_char :: "u32 \<Rightarrow> u8 \<Rightarrow> int \<Rightarrow> char \<Rightarrow> out \<Rightarrow> out" where
  "put_char end flags field_width c str =
    (let (rest, str) = (if flags AND LEFT = 0 then put_loop end CHR '' '' (field_width - 1) str else (field_width - 1, str));
         str = put end c str
     in snd (put_loop end CHR '' '' rest str))"

definition put_string :: "u32 \<Rightarrow> u8 \<Rightarrow> int \<Rightarrow> int \<Rightarrow> string \<Rightarrow> out \<Rightarrow> out" where
  "put_string end flags field_width precision s str =
    (let len = int (length s);
         len = (if precision > 0 \<and> len > precision then precision else len);
         (rest, str) = (if flags AND LEFT = 0 then put_loop end CHR '' '' (field_width - len) str else (field_width - len, str));
         str = put_tmp end (take (nat len) s) str
     in snd (put_loop end CHR '' '' rest str))"

text \<open>One directive: the format behind \<open>%\<close>; the result is the format behind the directive, the remaining arguments and the output.\<close>

definition directive :: "u32 \<Rightarrow> string \<Rightarrow> arg list \<Rightarrow> out \<Rightarrow> (string \<times> arg list \<times> out) option" where
  "directive end fmt args str =
    (let (flags, fmt) = parse_flags fmt 0 in
     do {
       (field_width, flags, fmt, args) \<leftarrow> parse_width fmt flags args;
       (precision, fmt, args) \<leftarrow> parse_precision fmt args;
       let (qualifier, fmt) = parse_qualifier fmt;
       case fmt of
         [] \<Rightarrow> Some ([], args, put end CHR ''%'' str)
       | cv # fmt \<Rightarrow>
           if cv = CHR ''c'' then
             do { (a, args) \<leftarrow> va_int args; Some (fmt, args, put_char end flags field_width (char_of (unat a mod 256)) str) }
           else if cv = CHR ''s'' then
             do {
               (s, args) \<leftarrow> va_str args;
               Some (fmt, args, put_string end flags field_width precision (case s of None \<Rightarrow> ''(NULL)'' | Some s \<Rightarrow> s) str)
             }
           else if cv = CHR ''p'' then
             do {
               (a, args) \<leftarrow> va_int args;
               let (field_width, flags) = (if field_width = - 1 then (8, flags OR ZEROPAD) else (field_width, flags));
               str \<leftarrow> print_number str end a 16 field_width precision flags;
               Some (fmt, args, str)
             }
           else if cv = CHR ''%'' then Some (fmt, args, put end CHR ''%'' str)
           else if cv \<in> {CHR ''o'', CHR ''x'', CHR ''X'', CHR ''d'', CHR ''i'', CHR ''u''} then
             do {
               let base = (if cv = CHR ''o'' then 8 else if cv = CHR ''x'' \<or> cv = CHR ''X'' then 16 else 10);
               let flags = (if cv = CHR ''X'' then flags OR LARGE else if cv = CHR ''d'' \<or> cv = CHR ''i'' then flags OR SIGN else flags);
               (a, args) \<leftarrow> va_int args;
               str \<leftarrow> print_number str end (arg_number qualifier flags a) base field_width precision flags;
               Some (fmt, args, str)
             }
           else Some (fmt, args, put end cv (put end CHR ''%'' str))
     })"

lemma parse_flags_len: "length (snd (parse_flags fmt f)) \<le> length fmt"
  by (induction fmt f rule: parse_flags.induct) auto

lemma skip_atoi_len: "length (snd (skip_atoi fmt i)) \<le> length fmt"
  by (induction fmt i rule: skip_atoi.induct) auto

lemma parse_width_len: "parse_width fmt f args = Some (w, f', fmt', args') \<Longrightarrow> length fmt' \<le> length fmt"
  using skip_atoi_len [of fmt 0]
  by (auto simp: parse_width_def Let_def split: list.splits if_splits prod.splits Option.bind_splits)

lemma parse_precision_len: "parse_precision fmt args = Some (p, fmt', args') \<Longrightarrow> length fmt' \<le> length fmt"
  using skip_atoi_len [of "tl fmt" 0]
  by (cases fmt) (auto simp: parse_precision_def Let_def split: list.splits if_splits prod.splits Option.bind_splits)

lemma parse_qualifier_len: "length (snd (parse_qualifier fmt)) \<le> length fmt"
  by (auto simp: parse_qualifier_def split: list.splits)

lemma directive_len: "directive e fmt args str = Some (fmt', args', str') \<Longrightarrow> length fmt' \<le> length fmt"
proof -
  assume d: "directive e fmt args str = Some (fmt', args', str')"
  obtain f1 t1 where p1: "parse_flags fmt 0 = (f1, t1)" by fastforce
  obtain w f2 t2 a2 where p2: "parse_width t1 f1 args = Some (w, f2, t2, a2)" using d p1 by (auto simp: directive_def split: Option.bind_splits)
  obtain p t3 a3 where p3: "parse_precision t2 a2 = Some (p, t3, a3)" using d p1 p2 by (auto simp: directive_def split: Option.bind_splits)
  obtain q t4 where p4: "parse_qualifier t3 = (q, t4)" by fastforce
  have "length t4 \<le> length fmt"
    using parse_flags_len [of fmt 0] parse_width_len [OF p2] parse_precision_len [OF p3] parse_qualifier_len [of t3] p1 p4 by simp
  moreover have "length fmt' \<le> length t4"
    using d p1 p2 p3 p4 by (cases t4) (auto simp: directive_def Let_def split: if_splits prod.splits Option.bind_splits)
  ultimately show ?thesis by simp
qed

text \<open>The loop over the format.\<close>

function vsn_loop :: "u32 \<Rightarrow> string \<Rightarrow> arg list \<Rightarrow> out \<Rightarrow> out option" where
  "vsn_loop end [] args str = Some str"
| "vsn_loop end (c # fmt) args str =
    (if c \<noteq> CHR ''%'' then vsn_loop end fmt args (put end c str)
     else case directive end fmt args str of
       None \<Rightarrow> None
     | Some (fmt, args, str) \<Rightarrow> vsn_loop end fmt args str)"
  by pat_completeness auto
termination
  by (relation "measure (\<lambda>(e, fmt, a, s). length fmt)") (auto dest!: directive_len)

definition rt_vsnprintf :: "u32 \<Rightarrow> u32 \<Rightarrow> string \<Rightarrow> arg list \<Rightarrow> cmem \<Rightarrow> (u32 \<times> cmem) option" where
  "rt_vsnprintf buf sz fmt args m =
    (let end = buf + sz;
         (end, sz) = (if end < buf then (- 1, - 1 - buf) else (end, sz))
     in do {
       (str, m) \<leftarrow> vsn_loop end fmt args (buf, m);
       let m = (if sz > 0 then if str < end then m(str := CHR 0x00) else m(end - 1 := CHR 0x00) else m);
       Some (str - buf, m)
     })"

definition rt_vsprintf :: "u32 \<Rightarrow> string \<Rightarrow> arg list \<Rightarrow> cmem \<Rightarrow> (u32 \<times> cmem) option" where
  "rt_vsprintf buf format args m = rt_vsnprintf buf (- 1) format args m"

text \<open>What \<open>rt_kprintf\<close> hands over: the whole buffer up to its terminator without a console device, a number of bytes with one.\<close>

datatype console = Hw_output | Device_write u32

definition rt_kprintf :: "bool \<Rightarrow> u32 \<Rightarrow> string \<Rightarrow> arg list \<Rightarrow> cmem \<Rightarrow> (console \<times> cmem) option" where
  "rt_kprintf has_device rt_log_buf fmt args m =
    do {
      (len, m) \<leftarrow> rt_vsnprintf rt_log_buf (256 - 1) fmt args m;
      let len = (if len > 256 - 1 then 256 - 1 else len);
      Some (if has_device then Device_write len else Hw_output, m)
    }"

section \<open>The text of a directive\<close>

lemma put_tmp_append: "put_tmp e (xs @ ys) st = put_tmp e ys (put_tmp e xs st)"
  by (induction xs arbitrary: st) auto

lemma put_tmp_single: "put e c st = put_tmp e [c] st"
  by simp

lemma put_loop_eq: "put_loop e c n st = (if n > 0 then - 1 else n - 1, put_tmp e (replicate (nat n) c) st)"
proof (induction e c n st rule: put_loop.induct)
  case (1 e c n st)
  show ?case
  proof (cases "n > 0")
    case True
    then have "nat n = Suc (nat (n - 1))" by simp
    then show ?thesis using 1 [OF True] True by (subst put_loop.simps) simp
  qed (subst put_loop.simps, simp)
qed

text \<open>The digits of a number, the most significant first.\<close>

fun udigits :: "nat \<Rightarrow> nat \<Rightarrow> nat list" where
  "udigits b n = (if n = 0 \<or> b < 2 then [] else udigits b (n div b) @ [n mod b])"

declare udigits.simps [simp del]

lemma udigits_0 [simp]: "udigits b 0 = []"
  by (subst udigits.simps) simp

lemma udigits_length: "n < b ^ k \<Longrightarrow> length (udigits b n) \<le> k"
proof (induction b n arbitrary: k rule: udigits.induct)
  case (1 b n)
  show ?case
  proof (cases "n = 0 \<or> b < 2")
    case False
    then obtain k' where k: "k = Suc k'" using "1.prems" by (cases k) auto
    then have "n div b < b ^ k'" using "1.prems" by (simp add: less_mult_imp_div_less mult.commute)
    then have "length (udigits b (n div b)) \<le> k'" by (rule "1.IH" [OF False])
    then show ?thesis using False k by (subst udigits.simps) simp
  qed (subst udigits.simps, simp)
qed

definition divisor :: "nat \<Rightarrow> nat" where
  "divisor base = (if base = 10 then 10 else 16)"

lemma divide_eq: "fst (divide n base) = unat n mod divisor base" "unat (snd (divide n base)) = unat n div divisor base"
  by (simp_all add: divide_def divisor_def unat_mod unat_div)

lemma digits_loop_eq:
  "length tmp + length (udigits (divisor base) (unat num)) \<le> 16 \<Longrightarrow>
    digits_loop ds base num tmp = Some (tmp @ rev (map ((!) ds) (udigits (divisor base) (unat num))))"
proof (induction ds base num tmp rule: digits_loop.induct)
  case (1 ds base num tmp)
  show ?case
  proof (cases "num = 0")
    case True
    then show ?thesis by (subst digits_loop.simps) simp
  next
    case False
    let ?b = "divisor base" and ?n = "unat num"
    have u: "udigits ?b ?n = udigits ?b (?n div ?b) @ [?n mod ?b]"
      using False by (subst udigits.simps) (simp add: divisor_def unat_eq_0)
    then show ?thesis
      using 1 False by (subst digits_loop.simps) (simp add: divide_eq)
  qed
qed

lemma udigits_word: "length (udigits (divisor base) (unat (num :: u32))) \<le> 16"
proof -
  have "unat num < divisor base ^ 16"
  proof -
    have "unat num < 10 ^ 16" using unat_less_32 [of num] by simp
    also have "10 ^ 16 \<le> divisor base ^ 16" by (rule power_mono) (simp_all add: divisor_def)
    finally show ?thesis .
  qed
  then show ?thesis by (rule udigits_length)
qed

text \<open>The sign and the magnitude of a number.\<close>

definition sign_text :: "u8 \<Rightarrow> u32 \<Rightarrow> string" where
  "sign_text ty num =
    (if ty AND SIGN = 0 then []
     else if num <s 0 then ''-'' else if ty AND PLUS \<noteq> 0 then ''+'' else if ty AND SPACE \<noteq> 0 then '' '' else [])"

definition magnitude :: "u8 \<Rightarrow> u32 \<Rightarrow> u32" where
  "magnitude ty num = (if ty AND SIGN \<noteq> 0 \<and> num <s 0 then - num else num)"

definition digits_text :: "bool \<Rightarrow> nat \<Rightarrow> u32 \<Rightarrow> string" where
  "digits_text large base n = (if n = 0 then ''0'' else map ((!) (digit_chars large)) (udigits (divisor base) (unat n)))"

text \<open>Sign, zeros up to the precision and digits, padded to the width on the side that the flags choose.\<close>

definition number_text :: "u32 \<Rightarrow> nat \<Rightarrow> int \<Rightarrow> int \<Rightarrow> u8 \<Rightarrow> string" where
  "number_text num base width precision ty =
    (let sg = sign_text ty num;
         ds = digits_text (ty AND LARGE \<noteq> 0) base (magnitude ty num);
         body = replicate (nat (precision - int (length ds))) CHR ''0'' @ (if precision = 0 then [] else ds);
         pad = nat (width - max (int (length ds)) precision - int (length sg))
     in if ty AND LEFT \<noteq> 0 then sg @ body @ replicate pad CHR '' ''
        else if ty AND ZEROPAD \<noteq> 0 then sg @ replicate pad CHR ''0'' @ body
        else replicate pad CHR '' '' @ sg @ body)"

lemma flag_mask: "ty AND (ZEROPAD OR LEFT) = 0 \<longleftrightarrow> ty AND ZEROPAD = 0 \<and> ty AND LEFT = (0 :: u8)"
  by (simp only: bit.conj_disj_distrib or_eq_0_iff)

lemma flag_left:
  "(ty AND NOT ZEROPAD) AND ZEROPAD = (0 :: u8)" "(ty AND NOT ZEROPAD) AND LEFT = ty AND LEFT" "(ty AND NOT ZEROPAD) AND SIGN = ty AND SIGN"
  "(ty AND NOT ZEROPAD) AND PLUS = ty AND PLUS" "(ty AND NOT ZEROPAD) AND SPACE = ty AND SPACE"
  by (simp_all only: and.assoc) simp_all

lemma put_number_emit:
  assumes "ty AND LEFT \<noteq> 0 \<longrightarrow> ty AND ZEROPAD = 0"
  shows "put_number e sign (rev ds) s p ty st =
    (let sg = (case sign of None \<Rightarrow> [] | Some c \<Rightarrow> [c]);
         body = replicate (nat (p - int (length ds))) CHR ''0'' @ (if p = 0 then [] else ds);
         pad = nat (s - max (int (length ds)) p - int (length sg))
     in put_tmp e
       (if ty AND LEFT \<noteq> 0 then sg @ body @ replicate pad CHR '' ''
        else if ty AND ZEROPAD \<noteq> 0 then sg @ replicate pad CHR ''0'' @ body
        else replicate pad CHR '' '' @ sg @ body) st)"
proof -
  define w where "w = s - max (int (length ds)) p"
  have m: "(if int (length (rev ds)) > p then int (length (rev ds)) else p) = max (int (length ds)) p" by simp
  have z: "nat (max (int (length ds)) p - int (length (rev ds))) = nat (p - int (length ds))" by simp
  show ?thesis
    using assms
    unfolding put_number_def Let_def m w_def [symmetric] flag_mask put_loop_eq z
    by (cases sign; cases "ty AND LEFT = 0"; cases "ty AND ZEROPAD = 0"; cases "w > 0") (simp_all add: put_tmp_append)
qed

lemma number_sign_text:
  "number_sign ty num = (sign, n) \<Longrightarrow> sign_text ty num = (case sign of None \<Rightarrow> [] | Some c \<Rightarrow> [c]) \<and> n = magnitude ty num"
  by (auto simp: number_sign_def sign_text_def magnitude_def split: if_splits)

lemma print_number_emit: "print_number st e num base s p ty = Some (put_tmp e (number_text num base s p ty) st)"
proof -
  define ty' where "ty' = (if ty AND LEFT \<noteq> 0 then ty AND NOT ZEROPAD else ty)"
  have t: "ty' AND LEFT = ty AND LEFT" "ty' AND SIGN = ty AND SIGN" "ty' AND PLUS = ty AND PLUS" "ty' AND SPACE = ty AND SPACE"
      "ty' AND ZEROPAD = (if ty AND LEFT \<noteq> 0 then 0 else ty AND ZEROPAD)"
    unfolding ty'_def using flag_left [of ty] by simp_all
  obtain sign n where sn: "number_sign ty' num = (sign, n)" by fastforce
  have st: "sign_text ty num = (case sign of None \<Rightarrow> [] | Some c \<Rightarrow> [c])" "n = magnitude ty num"
    using number_sign_text [OF sn] unfolding sign_text_def magnitude_def t by (rule conjunct1, rule conjunct2)
  define ds where "ds = digits_text (ty AND LARGE \<noteq> 0) base n"
  have tmp: "(if n = 0 then Some ''0'' else digits_loop (digit_chars (ty AND LARGE \<noteq> 0)) base n []) = Some (rev ds)"
    using digits_loop_eq [of "[]" base n] udigits_word [of base n] by (simp add: ds_def digits_text_def)
  have "print_number st e num base s p ty = Some (put_number e sign (rev ds) s p ty' st)"
    using sn tmp unfolding print_number_def Let_def ty'_def by simp
  also have "put_number e sign (rev ds) s p ty' st = put_tmp e (number_text num base s p ty) st"
    using t by (subst put_number_emit) (auto simp: number_text_def Let_def st ds_def)
  finally show ?thesis .
qed

definition char_text :: "u8 \<Rightarrow> int \<Rightarrow> char \<Rightarrow> string" where
  "char_text flags width c =
    (let pad = replicate (nat (width - 1)) CHR '' '' in if flags AND LEFT \<noteq> 0 then c # pad else pad @ [c])"

definition string_text :: "u8 \<Rightarrow> int \<Rightarrow> int \<Rightarrow> string \<Rightarrow> string" where
  "string_text flags width precision s =
    (let t = (if precision > 0 then take (nat precision) s else s);
         pad = replicate (nat (width - int (length t))) CHR '' ''
     in if flags AND LEFT \<noteq> 0 then t @ pad else pad @ t)"

lemma put_char_emit: "put_char e flags w c st = put_tmp e (char_text flags w c) st"
  by (simp add: put_char_def char_text_def put_loop_eq Let_def put_tmp_append)

lemma put_string_emit: "put_string e flags w p s st = put_tmp e (string_text flags w p s) st"
proof -
  define t where "t = (if p > 0 then take (nat p) s else s)"
  have l: "(if p > 0 \<and> int (length s) > p then p else int (length s)) = int (length t)" "take (length t) s = t"
    by (auto simp: t_def min_def)
  show ?thesis
    unfolding put_string_def string_text_def Let_def l t_def [symmetric] by (simp add: put_loop_eq put_tmp_append l)
qed

text \<open>The text of a directive, the format behind it and the remaining arguments.\<close>

definition directive_text :: "string \<Rightarrow> arg list \<Rightarrow> (string \<times> string \<times> arg list) option" where
  "directive_text fmt args =
    (let (flags, fmt) = parse_flags fmt 0 in
     do {
       (width, flags, fmt, args) \<leftarrow> parse_width fmt flags args;
       (precision, fmt, args) \<leftarrow> parse_precision fmt args;
       let (qualifier, fmt) = parse_qualifier fmt;
       case fmt of
         [] \<Rightarrow> Some (''%'', [], args)
       | cv # fmt \<Rightarrow>
           if cv = CHR ''c'' then do { (a, args) \<leftarrow> va_int args; Some (char_text flags width (char_of (unat a mod 256)), fmt, args) }
           else if cv = CHR ''s'' then
             do { (s, args) \<leftarrow> va_str args; Some (string_text flags width precision (case s of None \<Rightarrow> ''(NULL)'' | Some s \<Rightarrow> s), fmt, args) }
           else if cv = CHR ''p'' then
             do {
               (a, args) \<leftarrow> va_int args;
               Some (if width = - 1 then number_text a 16 8 precision (flags OR ZEROPAD) else number_text a 16 width precision flags, fmt, args)
             }
           else if cv = CHR ''%'' then Some (''%'', fmt, args)
           else if cv \<in> {CHR ''o'', CHR ''x'', CHR ''X'', CHR ''d'', CHR ''i'', CHR ''u''} then
             do {
               let base = (if cv = CHR ''o'' then 8 else if cv = CHR ''x'' \<or> cv = CHR ''X'' then 16 else 10);
               let flags = (if cv = CHR ''X'' then flags OR LARGE else if cv = CHR ''d'' \<or> cv = CHR ''i'' then flags OR SIGN else flags);
               (a, args) \<leftarrow> va_int args;
               Some (number_text (arg_number qualifier flags a) base width precision flags, fmt, args)
             }
           else Some ([CHR ''%'', cv], fmt, args)
     })"

lemma directive_emit:
  "directive e fmt args st = map_option (\<lambda>(t, fmt, args). (fmt, args, put_tmp e t st)) (directive_text fmt args)"
proof -
  obtain f1 t1 where p1: "parse_flags fmt 0 = (f1, t1)" by fastforce
  show ?thesis
  proof (cases "parse_width t1 f1 args")
    case None
    then show ?thesis using p1 by (simp add: directive_def directive_text_def)
  next
    case (Some r)
    then obtain w f2 t2 a2 where p2: "parse_width t1 f1 args = Some (w, f2, t2, a2)" by (cases r) auto
    show ?thesis
    proof (cases "parse_precision t2 a2")
      case None
      then show ?thesis using p1 p2 by (simp add: directive_def directive_text_def)
    next
      case (Some r')
      then obtain p t3 a3 where p3: "parse_precision t2 a2 = Some (p, t3, a3)" by (cases r') auto
      obtain q t4 where p4: "parse_qualifier t3 = (q, t4)" by fastforce
      show ?thesis
        unfolding directive_def directive_text_def Let_def p1 prod.case p2 p3 p4 Option.bind.simps
        by (cases t4; cases "va_int a3"; cases "va_str a3")
          (simp_all add: print_number_emit put_char_emit put_string_emit split: prod.split)
    qed
  qed
qed

lemma directive_text_len: "directive_text fmt args = Some (t, fmt', args') \<Longrightarrow> length fmt' \<le> length fmt"
  using directive_len directive_emit [of 0 fmt args "(0, \<lambda>_. CHR 0x00)"] by (metis (no_types, lifting) case_prod_conv option.simps(9))

text \<open>The text of a format with its arguments.\<close>

function format_text :: "string \<Rightarrow> arg list \<Rightarrow> string option" where
  "format_text [] args = Some []"
| "format_text (c # fmt) args =
    (if c \<noteq> CHR ''%'' then map_option (Cons c) (format_text fmt args)
     else case directive_text fmt args of
       None \<Rightarrow> None
     | Some (t, fmt, args) \<Rightarrow> map_option ((@) t) (format_text fmt args))"
  by pat_completeness auto
termination
  by (relation "measure (\<lambda>(fmt, a). length fmt)") (auto dest!: directive_text_len)

lemma vsn_loop_emit: "vsn_loop e fmt args st = map_option (\<lambda>t. put_tmp e t st) (format_text fmt args)"
proof (induction fmt args arbitrary: st rule: format_text.induct)
  case (2 c fmt args)
  show ?case
  proof (cases "c = CHR ''%''")
    case True
    show ?thesis
    proof (cases "directive_text fmt args")
      case None
      then show ?thesis using True by (simp add: directive_emit)
    next
      case (Some r)
      then obtain t f a where r: "directive_text fmt args = Some (t, f, a)" by (cases r) auto
      then have "vsn_loop e f a st' = map_option (\<lambda>t. put_tmp e t st') (format_text f a)" for st'
        using "2.IH"(2) True by simp
      then show ?thesis using True r by (cases "format_text f a") (simp_all add: directive_emit put_tmp_append)
    qed
  next
    case False
    then show ?thesis using "2.IH"(1) by (cases "format_text fmt args") simp_all
  qed
qed simp

section \<open>The text in memory\<close>

lemma unat_step: "unat (str :: u32) + n < 2 ^ 32 \<Longrightarrow> unat (str + word_of_nat n) = unat str + n"
  by (simp add: unat_word_ariths unsigned_of_nat take_bit_nat_eq_self)

lemma put_tmp_mem:
  "unat str + length t < 2 ^ 32 \<Longrightarrow> put_tmp e t (str, m) =
    (str + word_of_nat (length t),
     \<lambda>x. if unat str \<le> unat x \<and> unat x < unat str + length t \<and> x < e then t ! (unat x - unat str) else m x)"
proof (induction t arbitrary: str m)
  case (Cons c t)
  have s: "unat (str + 1) = unat str + 1" using unat_step [of str 1] Cons.prems by simp
  have ih: "put_tmp e t (str + 1, m') = (str + 1 + word_of_nat (length t),
      \<lambda>x. if unat str + 1 \<le> unat x \<and> unat x < unat str + 1 + length t \<and> x < e then t ! (unat x - (unat str + 1)) else m' x)" for m'
  proof -
    have "unat (str + 1) + length t < 2 ^ 32" using Cons.prems s by simp
    from Cons.IH [OF this, of m'] show ?thesis unfolding s .
  qed
  have "(if unat str + 1 \<le> unat x \<and> unat x < unat str + 1 + length t \<and> x < e then t ! (unat x - (unat str + 1))
       else (if str < e then m(str := c) else m) x) =
      (if unat str \<le> unat x \<and> unat x < unat str + length (c # t) \<and> x < e then (c # t) ! (unat x - unat str) else m x)" for x
  proof (cases "x = str")
    case False
    then have "unat x \<noteq> unat str" by (simp add: word_unat_eq_iff)
    then show ?thesis using False by (auto simp: nth_Cons')
  qed simp
  then show ?case using ih by (simp add: put_def add.assoc fun_eq_iff)
qed (auto simp: fun_eq_iff)

lemma effective_end:
  fixes buf sz :: u32
  defines "e \<equiv> if buf + sz < buf then (- 1, - 1 - buf) else (buf + sz, sz)"
  shows "unat (fst e) = unat buf + unat (snd e)"
proof (cases "buf + sz < buf")
  case True
  have "unat (- 1 - buf :: u32) = unat (- 1 :: u32) - unat buf" by (rule unat_sub) simp
  moreover have "unat buf \<le> unat (- 1 :: u32)" by (simp flip: word_le_nat_alt)
  ultimately show ?thesis using True by (simp add: e_def)
next
  case False
  then have "unat (buf + sz) = unat buf + unat sz"
    by (metis add.commute linorder_not_less unat_plus_simple)
  then show ?thesis using False by (simp add: e_def)
qed

text \<open>The memory behind \<open>rt_vsnprintf\<close>: \<open>n\<close> is the size of the buffer.\<close>

definition printed :: "u32 \<Rightarrow> nat \<Rightarrow> string \<Rightarrow> cmem \<Rightarrow> cmem" where
  "printed buf n t m =
    (\<lambda>x. if buf \<le> x \<and> unat (x - buf) < min (length t) (n - 1) then t ! unat (x - buf)
         else if buf \<le> x \<and> unat (x - buf) = min (length t) (n - 1) \<and> 0 < n then CHR 0x00 else m x)"

lemma printed_alt:
  fixes m :: cmem and buf e :: u32 and t :: string
  assumes l: "unat buf + length t < 2 ^ 32" and e: "unat e = unat buf + n"
  defines "m1 \<equiv> \<lambda>x. if unat buf \<le> unat x \<and> unat x < unat buf + length t \<and> x < e then t ! (unat x - unat buf) else m x"
  shows "(if 0 < n then if buf + word_of_nat (length t) < e then m1(buf + word_of_nat (length t) := CHR 0x00) else m1(e - 1 := CHR 0x00)
      else m1) = printed buf n t m"
proof
  fix x
  have s: "unat (buf + word_of_nat (length t)) = unat buf + length t" by (rule unat_step [OF l])
  have d: "buf \<le> x \<Longrightarrow> unat (x - buf) = unat x - unat buf" by (rule unat_sub)
  have c: "x < e \<longleftrightarrow> unat x < unat buf + n" using e by (simp add: word_less_nat_alt)
  have e1: "0 < n \<Longrightarrow> unat (e - 1) = unat buf + n - 1" using e unat_sub [of 1 e] by (simp add: word_le_nat_alt)
  have "x = buf + word_of_nat (length t) \<longleftrightarrow> unat x = unat buf + length t" unfolding word_unat_eq_iff s ..
  moreover have "0 < n \<Longrightarrow> x = e - 1 \<longleftrightarrow> unat x = unat buf + n - 1" unfolding word_unat_eq_iff using e1 by simp
  moreover have "buf \<le> x \<longleftrightarrow> unat buf \<le> unat x" by (simp add: word_le_nat_alt)
  moreover have "buf + word_of_nat (length t) < e \<longleftrightarrow> length t < n" using s e by (simp add: word_less_nat_alt)
  ultimately show "(if 0 < n then if buf + word_of_nat (length t) < e then m1(buf + word_of_nat (length t) := CHR 0x00)
      else m1(e - 1 := CHR 0x00) else m1) x = printed buf n t m x"
    using d c by (cases "0 < n"; cases "length t < n") (auto simp: m1_def printed_def)
qed

lemma vsnprintf_printed:
  assumes t: "format_text fmt args = Some t" and l: "unat buf + length t < 2 ^ 32"
  shows "rt_vsnprintf buf sz fmt args m =
    Some (word_of_nat (length t), printed buf (if buf + sz < buf then unat (- 1 - buf) else unat sz) t m)"
proof -
  define e s where "e = (if buf + sz < buf then - 1 else buf + sz)" and "s = (if buf + sz < buf then - 1 - buf else sz)"
  have es: "(if buf + sz < buf then (- 1, - 1 - buf) else (buf + sz, sz)) = (e, s)" by (simp add: e_def s_def)
  have u: "unat e = unat buf + unat s" using effective_end [of buf sz] unfolding es by simp
  define m1 where "m1 = (\<lambda>x. if unat buf \<le> unat x \<and> unat x < unat buf + length t \<and> x < e then t ! (unat x - unat buf) else m x)"
  have "vsn_loop e fmt args (buf, m) = Some (buf + word_of_nat (length t), m1)"
    unfolding vsn_loop_emit t m1_def using put_tmp_mem [OF l, of e m] by simp
  then have "rt_vsnprintf buf sz fmt args m = Some (buf + word_of_nat (length t) - buf,
      if s > 0 then if buf + word_of_nat (length t) < e then m1(buf + word_of_nat (length t) := CHR 0x00) else m1(e - 1 := CHR 0x00) else m1)"
    unfolding rt_vsnprintf_def Let_def es by simp
  also have "(s > 0) = (0 < unat s)" by (simp add: unat_gt_0 word_neq_0_conv)
  finally show ?thesis
    using printed_alt [OF l u, of m, folded m1_def] by (simp add: s_def if_distrib)
qed

lemma vsnprintf_None: "format_text fmt args = None \<longleftrightarrow> rt_vsnprintf buf sz fmt args m = None"
  by (cases "format_text fmt args") (simp_all add: rt_vsnprintf_def vsn_loop_emit Let_def split: prod.split)

section \<open>Reading numbers back\<close>

definition read_nat :: "string \<Rightarrow> int" where
  "read_nat cs = foldl (\<lambda>a c. a * 10 + (of_char c - 48)) 0 cs"

definition read_int :: "string \<Rightarrow> int" where
  "read_int cs = (if cs \<noteq> [] \<and> hd cs = CHR ''-'' then - read_nat (tl cs) else read_nat cs)"

lemma udigits_bound: "d \<in> set (udigits b n) \<Longrightarrow> d < b"
proof (induction b n rule: udigits.induct)
  case (1 b n)
  then show ?case by (subst (asm) udigits.simps) (auto split: if_splits)
qed

lemma udigits_value: "2 \<le> b \<Longrightarrow> foldl (\<lambda>a d. a * b + d) 0 (udigits b n) = n"
proof (induction b n rule: udigits.induct)
  case (1 b n)
  show ?case
  proof (cases "n = 0")
    case False
    then show ?thesis using 1 by (subst udigits.simps) (simp add: mult.commute)
  qed simp
qed

lemma digit_char: "d < 10 \<Longrightarrow> of_char (digit_chars large ! d) = (48 + int d)"
proof -
  assume "d < 10"
  then have "d \<in> {0, 1, 2, 3, 4, 5, 6, 7, 8, 9}" by auto
  then show ?thesis by (auto simp: digit_chars_def)
qed

lemma read_digits:
  "\<forall>d\<in>set ds. d < 10 \<Longrightarrow> foldl (\<lambda>a c. a * 10 + (of_char c - 48)) (int a) (map ((!) (digit_chars large)) ds) = int (foldl (\<lambda>a d. a * 10 + d) a ds)"
proof (induction ds arbitrary: a)
  case (Cons d ds)
  then show ?case using Cons.IH [of "a * 10 + d"] digit_char [of d large] by simp
qed simp

lemma read_digits_text: "read_nat (digits_text large 10 n) = int (unat n)"
proof (cases "n = 0")
  case False
  have "\<forall>d\<in>set (udigits 10 (unat n)). d < 10" using udigits_bound by blast
  from read_digits [OF this, of 0 large] show ?thesis
    using False udigits_value [of 10 "unat n"] by (simp add: read_nat_def digits_text_def divisor_def)
qed (simp add: read_nat_def digits_text_def)

lemma digits_text_head: "digits_text large 10 n \<noteq> [] \<and> hd (digits_text large 10 n) \<noteq> CHR ''-''"
proof (cases "n = 0")
  case False
  then have "udigits 10 (unat n) \<noteq> []" by (subst udigits.simps) (simp add: unat_eq_0)
  moreover from this have "hd (udigits 10 (unat n)) < 10" using udigits_bound hd_in_set by blast
  then have "of_char (digit_chars large ! hd (udigits 10 (unat n))) \<noteq> (of_char CHR ''-'' :: int)" using digit_char by fastforce
  ultimately show ?thesis using False by (auto simp: digits_text_def divisor_def hd_map)
qed (simp add: digits_text_def)

lemma sint_eq: "sint (w :: u32) = uint w - 2 ^ 32 * of_bool (bit (uint w) 31)"
proof -
  have "take_bit 32 (uint w) = uint w" by (rule take_bit_int_eq_self) (use uint_lt2p [of w] in simp_all)
  then show ?thesis using signed_take_bit_eq_take_bit_minus [of 31 "uint w"] by (simp add: sint_uint)
qed

lemma sint_negative: "w <s 0 \<Longrightarrow> sint (w :: u32) = uint w - 2 ^ 32"
proof -
  assume "w <s 0"
  then have n: "sint w < 0" by (simp add: word_sless_alt)
  then show ?thesis using sint_eq [of w] uint_ge_0 [of w] by (cases "bit (uint w) 31") simp_all
qed

lemma magnitude_negative: "w <s 0 \<Longrightarrow> int (unat (- w :: u32)) = - sint w"
proof -
  assume w: "w <s 0"
  then have "w \<noteq> 0" by auto
  then have u: "0 < uint w" using unsigned_eq_0_iff [of w, where ?'a = int] uint_ge_0 [of w] by linarith
  have "uint (- w) = 2 ^ 32 - uint w"
    using u uint_lt2p [of w] by (simp add: uint_word_ariths zmod_zminus1_eq_if)
  then show ?thesis using sint_negative [OF w] by simp
qed

lemma sint_nonnegative: "\<not> w <s 0 \<Longrightarrow> sint (w :: u32) = int (unat w)"
proof -
  assume "\<not> w <s 0"
  then have n: "0 \<le> sint w" by (simp add: word_sless_alt)
  then show ?thesis using sint_eq [of w] uint_lt2p [of w] by (cases "bit (uint w) 31") simp_all
qed

lemma digits_text_length: "length (digits_text large 10 n) \<le> 10"
proof -
  have "unat n < 10 ^ 10" using unat_less_32 [of n] by simp
  then show ?thesis using udigits_length [of "unat n" 10 10] by (simp add: digits_text_def divisor_def)
qed

text \<open>The bytes of a text that fits.\<close>

definition bytes_at :: "(u32 \<Rightarrow> char) \<Rightarrow> u32 \<Rightarrow> nat \<Rightarrow> string" where
  "bytes_at m a n = map (\<lambda>i. m (a + word_of_nat i)) [0..<n]"

lemma printed_at:
  assumes "unat buf + n < 2 ^ 32" "0 < n"
  shows "i < min (length t) (n - 1) \<Longrightarrow> printed buf n t m (buf + word_of_nat i) = t ! i"
    "printed buf n t m (buf + word_of_nat (min (length t) (n - 1))) = CHR 0x00"
proof -
  have at: "buf \<le> buf + word_of_nat i \<and> unat (buf + word_of_nat i - buf) = i" if "i < n" for i
  proof -
    have "unat buf + i < 2 ^ 32" using that assms by simp
    then show ?thesis using unat_step [of buf i] by (simp add: word_le_nat_alt unsigned_of_nat take_bit_nat_eq_self)
  qed
  show "printed buf n t m (buf + word_of_nat i) = t ! i" if i: "i < min (length t) (n - 1)"
  proof -
    have "i < n" using i by linarith
    from at [OF this] show ?thesis using i unfolding printed_def by simp
  qed
  show "printed buf n t m (buf + word_of_nat (min (length t) (n - 1))) = CHR 0x00"
  proof -
    have "min (length t) (n - 1) < n" using assms(2) by linarith
    from at [OF this] show ?thesis using assms(2) unfolding printed_def by simp
  qed
qed

lemma vsnprintf_fits:
  assumes t: "format_text fmt args = Some t" and l: "length t < unat sz" "unat buf + unat sz < 2 ^ 32"
  shows "\<exists>m'. rt_vsnprintf buf sz fmt args m = Some (word_of_nat (length t), m') \<and> bytes_at m' buf (length t) = t"
proof -
  have "\<not> buf + sz < buf" using l(2) by (simp add: word_less_nat_alt unat_word_ariths)
  moreover have "bytes_at (printed buf (unat sz) t m) buf (length t) = t"
    unfolding bytes_at_def using printed_at(1) [OF l(2)] l(1) by (intro nth_equalityI) auto
  ultimately show ?thesis using vsnprintf_printed [OF t, of buf sz m] l by auto
qed

section \<open>Correctness\<close>

text \<open>
  C25: \<open>rt_vsnprintf\<close> returns exactly if the arguments fit the format. It then returns the length of the text, and if the text does
  not run around the end of the address space, the buffer holds the text, cut to leave room for the terminator, and the
  terminator; no other byte of the memory changes.
\<close>

theorem rt_vsnprintf_correct:
  assumes "unat buf + unat sz < 2 ^ 32"
  shows "case format_text fmt args of
      None \<Rightarrow> rt_vsnprintf buf sz fmt args m = None
    | Some t \<Rightarrow> (unat buf + length t < 2 ^ 32 \<longrightarrow>
        (\<exists>m'. rt_vsnprintf buf sz fmt args m = Some (word_of_nat (length t), m') \<and>
          (\<forall>x. x < buf \<or> unat sz \<le> unat (x - buf) \<longrightarrow> m' x = m x) \<and>
          (0 < sz \<longrightarrow> (\<forall>i<min (length t) (unat sz - 1). m' (buf + word_of_nat i) = t ! i) \<and>
            m' (buf + word_of_nat (min (length t) (unat sz - 1))) = CHR 0x00)))"
proof (cases "format_text fmt args")
  case None
  then show ?thesis using vsnprintf_None by simp
next
  case (Some t)
  have "unat (buf + sz) = unat buf + unat sz" using assms by (simp add: unat_word_ariths)
  then have nw: "\<not> buf + sz < buf" by (simp add: word_less_nat_alt)
  let ?m = "printed buf (unat sz) t m"
  have o: "?m x = m x" if "x < buf \<or> unat sz \<le> unat (x - buf)" for x
    using that by (auto simp: printed_def)
  have z: "0 < sz \<longleftrightarrow> 0 < unat sz" by (simp add: unat_gt_0 word_neq_0_conv)
  show ?thesis using Some vsnprintf_printed [OF Some, of buf sz m] nw o z printed_at [OF assms, where t = t and m = m] by auto
qed

text \<open>
  a buffer of 12 bytes holds what \<open>%d\<close> and \<open>%u\<close> make of any 32-bit integer: read back, the first is the signed and the
  second the unsigned value.
\<close>

theorem decimal_round_trip:
  assumes "unat buf + 12 < 2 ^ 32"
  shows "\<exists>n m1 l m2. rt_vsnprintf buf 12 ''%d'' [AInt w] m = Some (word_of_nat n, m1) \<and> n < 12 \<and> read_int (bytes_at m1 buf n) = sint w \<and>
    rt_vsnprintf buf 12 ''%u'' [AInt w] m = Some (word_of_nat l, m2) \<and> l < 12 \<and> read_int (bytes_at m2 buf l) = uint w"
proof -
  let ?d = "digits_text False 10" and ?s = "if w <s 0 then CHR ''-'' # digits_text False 10 (- w) else digits_text False 10 w"
  have f: "format_text ''%d'' [AInt w] = Some ?s" "format_text ''%u'' [AInt w] = Some (?d w)"
    by (simp_all add: directive_text_def parse_width_def parse_precision_def parse_qualifier_def is_digit_def arg_number_def
        number_text_def sign_text_def magnitude_def Let_def)
  have l: "length ?s < 12" "length (?d w) < 12" using digits_text_length [of False w] digits_text_length [of False "- w"] by auto
  have "read_int ?s = sint w"
    using magnitude_negative [of w] sint_nonnegative [of w] digits_text_head [of False w]
    by (simp add: read_int_def read_digits_text)
  moreover have "read_int (?d w) = uint w" using digits_text_head [of False w] by (simp add: read_int_def read_digits_text)
  ultimately show ?thesis
    using vsnprintf_fits [OF f(1), of 12 buf m] vsnprintf_fits [OF f(2), of 12 buf m] l assms
    by fastforce
qed

theorem decimal_round_trip_witness:
  "\<exists>n m'. rt_vsnprintf 1000 12 ''%d'' [AInt (- 42)] (\<lambda>_. CHR ''?'') = Some (word_of_nat n, m') \<and> read_int (bytes_at m' 1000 n) = - 42"
  using decimal_round_trip [of 1000 "- 42" "\<lambda>_. CHR ''?''"] by auto

text \<open>Octal conversion prints hexadecimal digits: \<open>divide\<close> knows the bases 10 and 16 only.\<close>

lemma octal_is_hexadecimal: "format_text ''%o'' [AInt w] = format_text ''%x'' [AInt w]"
  by (simp add: directive_text_def parse_width_def parse_precision_def parse_qualifier_def is_digit_def arg_number_def number_text_def
      sign_text_def magnitude_def digits_text_def divisor_def Let_def)

text \<open>A precision of 0 suppresses every number, and a long message to the console ends with its terminator.\<close>

lemma precision_zero_empty: "format_text ''%.0d'' [AInt 5] = Some []"
  by code_simp

lemma rt_kprintf_cuts:
  assumes t: "format_text fmt args = Some t" and l: "255 \<le> length t" "unat buf + length t < 2 ^ 32" "length t < 2 ^ 32"
  shows "\<exists>m'. rt_kprintf True buf fmt args m = Some (Device_write 255, m') \<and> m' (buf + 254) = CHR 0x00"
proof -
  have nw: "\<not> buf + 255 < buf" using unat_step [of buf 255] l by (simp add: word_less_nat_alt)
  have "rt_vsnprintf buf 255 fmt args m = Some (word_of_nat (length t), printed buf 255 t m)"
    using vsnprintf_printed [OF t l(2), of 255 m] nw by simp
  moreover have "(if (word_of_nat (length t) :: u32) > 255 then 255 else word_of_nat (length t)) = (255 :: u32)"
    using l by (auto simp: word_less_nat_alt unsigned_of_nat take_bit_nat_eq_self word_unat_eq_iff)
  moreover have "printed buf 255 t m (buf + 254) = CHR 0x00"
    using unat_step [of buf 254] l by (simp add: printed_def word_le_nat_alt)
  ultimately show ?thesis by (simp add: rt_kprintf_def split: if_splits)
qed

theorem rt_vsnprintf_correct_witness:
  "\<exists>m'. rt_vsnprintf 1000 8 ''x=%05d'' [AInt (- 42)] (\<lambda>_. CHR ''?'') = Some (7, m') \<and>
    map (\<lambda>i. m' (1000 + word_of_nat i)) [0..<8] = ''x=-0042'' @ [CHR 0x00] \<and> m' 1008 = CHR ''?''"
proof -
  have f: "format_text ''x=%05d'' [AInt (- 42)] = Some ''x=-0042''" by code_simp
  have "unat (1000 :: u32) + unat (8 :: u32) < 2 ^ 32" by simp
  from rt_vsnprintf_correct [OF this, of "''x=%05d''" "[AInt (- 42)]" "\<lambda>_. CHR ''?''"] f
  obtain m' where m: "rt_vsnprintf 1000 8 ''x=%05d'' [AInt (- 42)] (\<lambda>_. CHR ''?'') = Some (7, m')"
    "\<forall>x. x < 1000 \<or> 8 \<le> unat (x - 1000) \<longrightarrow> m' x = CHR ''?''"
    "\<forall>i<7. m' (1000 + word_of_nat i) = ''x=-0042'' ! i" "m' (1000 + 7) = CHR 0x00" by auto
  have "m' 1008 = CHR ''?''" using m(2) by simp
  moreover have "map (\<lambda>i. m' (1000 + word_of_nat i)) [0..<7] = ''x=-0042''"
    using m(3) by (intro nth_equalityI) (auto simp: nth_append)
  then have "map (\<lambda>i. m' (1000 + word_of_nat i)) [0..<8] = ''x=-0042'' @ [CHR 0x00]" using m(4) by (simp add: upt_rec)
  ultimately show ?thesis using m(1) by blast
qed

end
