(* ===== verification/Dev_Completion.thy ===== *)
theory Dev_Completion
  imports RT_Park
begin

text \<open>
  Completions, \<open>components/drivers/src/completion.c\<close>: a flag on which one thread waits until a driver, often in an interrupt, is
  done. The flags are a store of their own beside the kernel; the list of the waiting thread is \<open>Suspend i\<close>.
  \<open>rt_completion_wait\<close> is cut at \<open>rt_schedule\<close>.
\<close>

section \<open>Operations\<close>

abbreviation (input) RT_UNCOMPLETED :: u32 where "RT_UNCOMPLETED \<equiv> 0"
abbreviation (input) RT_COMPLETED :: u32 where "RT_COMPLETED \<equiv> 1"

type_synonym completions = "nat \<Rightarrow> u32"

definition rt_completion_init :: "nat \<Rightarrow> completions \<times> kernel \<Rightarrow> completions \<times> kernel" where
  "rt_completion_init i sk = (case sk of (s, k) \<Rightarrow> (s(i := RT_UNCOMPLETED), k\<lparr>tlists := (tlists k)(Suspend i := [])\<rparr>))"

definition rt_completion_wait ::
  "nat \<Rightarrow> u32 \<Rightarrow> completions \<times> kernel \<Rightarrow> ((rt_err_t, tid) call \<times> completions \<times> kernel) option" where
  "rt_completion_wait i timeout sk =
    (case sk of (s, k) \<Rightarrow>
       if s i \<noteq> RT_COMPLETED then
         do {
           RT_ASSERT (tlists k (Suspend i) = []);
           if timeout = 0 then Some (Returned (- RT_ETIMEOUT), s, k)
           else do {
             t \<leftarrow> rt_thread_self k;
             RT_ASSERT (not_in_interrupt k);
             k \<leftarrow> park fifo_insert (Suspend i) t timeout (set_error t RT_EOK k);
             Some (Suspended t, s, k)
           }
         }
       else Some (Returned RT_EOK, s(i := RT_UNCOMPLETED), k))"

definition rt_completion_wait_resumed ::
  "nat \<Rightarrow> tid \<Rightarrow> completions \<times> kernel \<Rightarrow> (rt_err_t, tid) call \<times> completions \<times> kernel" where
  "rt_completion_wait_resumed i t sk =
    (case sk of (s, k) \<Rightarrow> (Returned (t_error (threads k t)), s(i := RT_UNCOMPLETED), k))"

definition rt_completion_done :: "nat \<Rightarrow> completions \<times> kernel \<Rightarrow> (completions \<times> kernel) option" where
  "rt_completion_done i sk =
    (case sk of (s, k) \<Rightarrow>
       if s i = RT_COMPLETED then Some (s, k)
       else do {
         k \<leftarrow> unpark (Suspend i) k;
         Some (s(i := RT_COMPLETED), k)
       })"

section \<open>Correctness\<close>

text \<open>
  Waiting for a completion on every branch: after \<open>rt_completion_done\<close> it returns at once and takes the completion away;
  otherwise it returns \<open>-RT_ETIMEOUT\<close> at once or suspends the caller as the only waiting thread.
\<close>

theorem rt_completion_wait_correct:
  assumes inv: "kinv k" and c: "thread_calls t k" and w: "s i = RT_COMPLETED \<or> tlists k (Suspend i) = []"
    and time: "sint timeout < 0x7FFFFFFF"
  shows "if s i = RT_COMPLETED then rt_completion_wait i timeout (s, k) = Some (Returned RT_EOK, s(i := RT_UNCOMPLETED), k)
    else if timeout = 0 then rt_completion_wait i timeout (s, k) = Some (Returned (- RT_ETIMEOUT), s, k)
    else \<exists>k'. rt_completion_wait i timeout (s, k) = Some (Suspended t, s, k') \<and> kinv k' \<and> tlists k' (Suspend i) = [t] \<and>
      stat_of (threads k' t) = RT_THREAD_SUSPEND \<and> t_error (threads k' t) = RT_EOK \<and>
      (0 < sint timeout \<longrightarrow> ThreadTimer t \<in> set (tmlists k' HardList) \<and> tticks k' (ThreadTimer t) = rt_tick k + timeout)"
proof -
  have n: "interrupt_nest k = 0" "rt_thread_self k = Some t" using c by (simp_all add: thread_calls_def rt_thread_self_def)
  obtain k' where k': "park fifo_insert (Suspend i) t timeout (set_error t RT_EOK k) = Some k'" "kinv k'"
      "stat_of (threads k' t) = RT_THREAD_SUSPEND" "t_error (threads k' t) = RT_EOK"
      "tlists k' (Suspend i) = fifo_insert (prio_of k) t (tlists k (Suspend i))"
      "0 < sint timeout \<longrightarrow> ThreadTimer t \<in> set (tmlists k' HardList) \<and> tticks k' (ThreadTimer t) = rt_tick k + timeout"
    using fifo.park_ok [OF inv c _ time, of "Suspend i" i] by blast
  then show ?thesis
    using w n by (auto simp: rt_completion_wait_def not_in_interrupt_def fifo_insert_def)
qed

text \<open>
  C26: A completion is delivered, whichever side comes first. If a thread waits, \<open>rt_completion_done\<close> makes it ready, and its
  pending \<open>rt_completion_wait\<close> returns \<open>RT_EOK\<close>; if none waits, the next \<open>rt_completion_wait\<close> returns \<open>RT_EOK\<close> at once. Both
  consume the completion: the flag is cleared and nobody waits.
\<close>

theorem rt_completion_delivers:
  assumes inv: "kinv k" and c: "cur k \<noteq> None" and s: "s i = RT_UNCOMPLETED" and w: "tlists k (Suspend i) = ts"
    and one: "ts = [] \<or> (\<exists>t. ts = [t] \<and> t_error (threads k t) = RT_EOK)"
  shows "\<exists>k'. rt_completion_done i (s, k) = Some (s(i := RT_COMPLETED), k') \<and> kinv k' \<and> tlists k' (Suspend i) = [] \<and>
    (case ts of
       [] \<Rightarrow> rt_completion_wait i timeout (s(i := RT_COMPLETED), k') = Some (Returned RT_EOK, s, k')
     | t # _ \<Rightarrow> stat_of (threads k' t) \<in> {RT_THREAD_READY, RT_THREAD_RUNNING} \<and>
         rt_completion_wait_resumed i t (s(i := RT_COMPLETED), k') = (Returned RT_EOK, s, k'))"
proof -
  obtain k' where k': "wake_first (Suspend i) k = Some k'" "kinv k'" "tlists k' (Suspend i) = tl (tlists k (Suspend i))"
      "\<forall>u. \<exists>s. threads k' u = (threads k u)\<lparr>t_stat := s\<rparr>"
      "tlists k (Suspend i) \<noteq> [] \<longrightarrow> stat_of (threads k' (hd (tlists k (Suspend i)))) \<in> {RT_THREAD_READY, RT_THREAD_RUNNING}"
    using wake_first_ok [OF inv c, of "Suspend i" i] by blast
  have e: "t_error (threads k' u) = t_error (threads k u)" for u using only_stat_error(1) [OF spec [OF k'(4), of u]] .
  have clr: "s(i := RT_UNCOMPLETED) = s" using s by (simp add: fun_upd_idem_iff)
  have "rt_completion_done i (s, k) = Some (s(i := RT_COMPLETED), k')" using s k'(1) by (simp add: rt_completion_done_def unpark_wake)
  then show ?thesis
    using k' one w e clr by (auto simp: rt_completion_wait_def rt_completion_wait_resumed_def)
qed

text \<open>
  A completion that comes after the time-out of the waiting thread, but before that thread runs again, is lost: the thread
  returns its error and clears the flag.
\<close>

lemma rt_completion_lost:
  assumes "s i = RT_COMPLETED" "t_error (threads k t) = - RT_ETIMEOUT"
  shows "rt_completion_wait_resumed i t (s, k) = (Returned (- RT_ETIMEOUT), s(i := RT_UNCOMPLETED), k)"
  using assms by (simp add: rt_completion_wait_resumed_def)

theorem rt_completion_delivers_witness:
  "(\<exists>k'. rt_completion_done 0 (\<lambda>_. 0, demo_ipc Class_Semaphore) = Some ((\<lambda>_. 0)(0 := 1), k') \<and>
     rt_completion_wait_resumed 0 3 ((\<lambda>_. 0)(0 := 1), k') = (Returned RT_EOK, \<lambda>_. 0, k')) \<and>
   (\<exists>k'. rt_completion_done 1 (\<lambda>_. 0, demo_ipc Class_Semaphore) = Some ((\<lambda>_. 0)(1 := 1), k') \<and>
     rt_completion_wait 1 5 ((\<lambda>_. 0)(1 := 1), k') = Some (Returned RT_EOK, \<lambda>_. 0, k'))"
  using rt_completion_delivers [OF demo_ipc_kinv, of Class_Semaphore "\<lambda>_. 0" 0 "[3]" 5]
    rt_completion_delivers [OF demo_ipc_kinv, of Class_Semaphore "\<lambda>_. 0" 1 "[]" 5]
  by auto

theorem rt_completion_wait_correct_witness:
  "\<exists>k'. rt_completion_wait 1 5 (\<lambda>_. 0, demo_ipc Class_Semaphore) = Some (Suspended 0, \<lambda>_. 0, k') \<and> kinv k' \<and> tlists k' (Suspend 1) = [0]"
  using rt_completion_wait_correct [OF demo_ipc_kinv demo_ipc_calls, of "\<lambda>_. 0" 1 Class_Semaphore 5] by auto

end
