(* ===== verification/Dev_Dataqueue.thy ===== *)
theory Dev_Dataqueue
  imports RT_Park RT_Fifo
begin

text \<open>
  Data queues, \<open>components/drivers/src/dataqueue.c\<close>: a circular store of pairs of a pointer and a size between a driver and its user,
  with waiting readers (\<open>Suspend i\<close>, the code's \<open>suspended_pop_list\<close>) and writers (\<open>Sender i\<close>, \<open>suspended_push_list\<close>). The
  indexes are bit fields of 15 bits. The calls of the callback \<open>evt_notify\<close>, if there is one, are recorded in \<open>notified\<close>. The
  blocking calls are cut at \<open>rt_schedule\<close>; the memory of the queue comes from an allocation that is an argument.
\<close>

section \<open>Operations\<close>

type_synonym u15 = "15 word"
type_synonym data_item = "u32 \<times> u32"

abbreviation (input) RT_EEMPTY :: rt_err_t where "RT_EEMPTY \<equiv> 4"
abbreviation (input) RT_ENOMEM :: rt_err_t where "RT_ENOMEM \<equiv> 5"
abbreviation (input) DATAQUEUE_MAGIC :: u32 where "DATAQUEUE_MAGIC \<equiv> 0xbead0e0e"
abbreviation (input) RT_DATAQUEUE_EVENT_POP :: u32 where "RT_DATAQUEUE_EVENT_POP \<equiv> 1"
abbreviation (input) RT_DATAQUEUE_EVENT_PUSH :: u32 where "RT_DATAQUEUE_EVENT_PUSH \<equiv> 2"
abbreviation (input) RT_DATAQUEUE_EVENT_LWM :: u32 where "RT_DATAQUEUE_EVENT_LWM \<equiv> 3"

record rt_data_queue =
  dq_magic :: u32
  dq_size :: u16
  lwm :: u16
  get_index :: u15
  is_empty :: bool
  put_index :: u15
  is_full :: bool
  dq_items :: "data_item list"
  evt_notify :: bool

record dq_state =
  queues :: "nat \<Rightarrow> rt_data_queue"
  notified :: "(nat \<times> u32) list"

definition upd_dq :: "nat \<Rightarrow> (rt_data_queue \<Rightarrow> rt_data_queue) \<Rightarrow> dq_state \<Rightarrow> dq_state" where
  "upd_dq i f s = s\<lparr>queues := (queues s)(i := f (queues s i))\<rparr>"

definition notify :: "nat \<Rightarrow> u32 \<Rightarrow> dq_state \<Rightarrow> dq_state" where
  "notify i event s = (if evt_notify (queues s i) then s\<lparr>notified := notified s @ [(i, event)]\<rparr> else s)"

definition dq_clear :: "rt_data_queue \<Rightarrow> rt_data_queue" where
  "dq_clear q = q\<lparr>get_index := 0, put_index := 0, is_empty := True, is_full := False\<rparr>"

definition rt_data_queue_init ::
  "nat \<Rightarrow> data_item list option \<Rightarrow> u16 \<Rightarrow> u16 \<Rightarrow> bool \<Rightarrow> dq_state \<times> kernel \<Rightarrow> (rt_err_t \<times> dq_state \<times> kernel) option" where
  "rt_data_queue_init i mem sz low notify_fun sk =
    (case sk of (s, k) \<Rightarrow>
       do {
         RT_ASSERT (0 < sz);
         let s = upd_dq i (\<lambda>q. dq_clear (q\<lparr>evt_notify := notify_fun, dq_magic := DATAQUEUE_MAGIC, dq_size := sz, lwm := low\<rparr>)) s;
         let k = k\<lparr>tlists := (tlists k)(Sender i := [], Suspend i := [])\<rparr>;
         let s = upd_dq i (\<lambda>q. q\<lparr>dq_items := case mem of None \<Rightarrow> [] | Some m \<Rightarrow> m\<rparr>) s;
         Some (if mem = None then - RT_ENOMEM else RT_EOK, s, k)
       })"

definition index_succ :: "u16 \<Rightarrow> u15 \<Rightarrow> u15" where
  "index_succ sz x = (let x = x + 1 in if unat x = unat sz then 0 else x)"

text \<open>Storing at the put index and fetching at the get index.\<close>

definition dq_put :: "data_item \<Rightarrow> rt_data_queue \<Rightarrow> rt_data_queue option" where
  "dq_put x q =
    do {
      RT_ASSERT (unat (put_index q) < length (dq_items q));
      let q = q\<lparr>dq_items := (dq_items q)[unat (put_index q) := x]\<rparr>;
      let q = q\<lparr>put_index := index_succ (dq_size q) (put_index q), is_empty := False\<rparr>;
      Some (if put_index q = get_index q then q\<lparr>is_full := True\<rparr> else q)
    }"

definition dq_get :: "rt_data_queue \<Rightarrow> (data_item \<times> rt_data_queue) option" where
  "dq_get q =
    do {
      RT_ASSERT (unat (get_index q) < length (dq_items q));
      let x = dq_items q ! unat (get_index q);
      let q = q\<lparr>get_index := index_succ (dq_size q) (get_index q), is_full := False\<rparr>;
      Some (x, if put_index q = get_index q then q\<lparr>is_empty := True\<rparr> else q)
    }"

definition rt_data_queue_len :: "rt_data_queue \<Rightarrow> u16 option" where
  "rt_data_queue_len q =
    do {
      RT_ASSERT (dq_magic q = DATAQUEUE_MAGIC);
      Some (if is_empty q then 0
        else if get_index q < put_index q then word_of_int (uint (put_index q) - uint (get_index q))
        else word_of_int (uint (dq_size q) + uint (put_index q) - uint (get_index q)))
    }"

text \<open>The code of \<open>rt_data_queue_push\<close> from the loop on. A thread that is woken and finds the queue full waits again for the
  whole time.\<close>

definition push_loop ::
  "nat \<Rightarrow> tid option \<Rightarrow> data_item \<Rightarrow> u32 \<Rightarrow> dq_state \<times> kernel \<Rightarrow> ((rt_err_t, tid \<times> data_item \<times> u32) call \<times> dq_state \<times> kernel) option" where
  "push_loop i thread x timeout sk =
    (case sk of (s, k) \<Rightarrow>
       if is_full (queues s i) then
         if timeout = 0 then Some (Returned (- RT_ETIMEOUT), s, k)
         else do {
           RT_ASSERT (not_in_interrupt k);
           t \<leftarrow> thread;
           k \<leftarrow> park fifo_insert (Sender i) t timeout (set_error t RT_EOK k);
           Some (Suspended (t, x, timeout), s, k)
         }
       else do {
         q \<leftarrow> dq_put x (queues s i);
         let s = upd_dq i (\<lambda>_. q) s;
         if tlists k (Suspend i) \<noteq> [] then do { k \<leftarrow> unpark (Suspend i) k; Some (Returned RT_EOK, s, k) }
         else Some (Returned RT_EOK, notify i RT_DATAQUEUE_EVENT_PUSH s, k)
       })"

definition rt_data_queue_push ::
  "nat \<Rightarrow> data_item \<Rightarrow> u32 \<Rightarrow> dq_state \<times> kernel \<Rightarrow> ((rt_err_t, tid \<times> data_item \<times> u32) call \<times> dq_state \<times> kernel) option" where
  "rt_data_queue_push i x timeout sk =
    do {
      RT_ASSERT (dq_magic (queues (fst sk) i) = DATAQUEUE_MAGIC);
      push_loop i (rt_thread_self (snd sk)) x timeout sk
    }"

definition rt_data_queue_push_resumed ::
  "nat \<Rightarrow> tid \<times> data_item \<times> u32 \<Rightarrow> dq_state \<times> kernel \<Rightarrow> ((rt_err_t, tid \<times> data_item \<times> u32) call \<times> dq_state \<times> kernel) option" where
  "rt_data_queue_push_resumed i p sk =
    (case (p, sk) of ((t, x, timeout), s, k) \<Rightarrow>
       if t_error (threads k t) \<noteq> RT_EOK then Some (Returned (t_error (threads k t)), s, k)
       else push_loop i (Some t) x timeout (s, k))"

definition pop_loop ::
  "nat \<Rightarrow> tid option \<Rightarrow> u32 \<Rightarrow> dq_state \<times> kernel \<Rightarrow>
    ((rt_err_t \<times> data_item option, tid \<times> u32) call \<times> dq_state \<times> kernel) option" where
  "pop_loop i thread timeout sk =
    (case sk of (s, k) \<Rightarrow>
       if is_empty (queues s i) then
         if timeout = 0 then Some (Returned (- RT_ETIMEOUT, None), s, k)
         else do {
           RT_ASSERT (not_in_interrupt k);
           t \<leftarrow> thread;
           k \<leftarrow> park fifo_insert (Suspend i) t timeout (set_error t RT_EOK k);
           Some (Suspended (t, timeout), s, k)
         }
       else do {
         (x, q) \<leftarrow> dq_get (queues s i);
         let s = upd_dq i (\<lambda>_. q) s;
         n \<leftarrow> rt_data_queue_len q;
         if n \<le> lwm q then
           do { k \<leftarrow> unpark (Sender i) k; Some (Returned (RT_EOK, Some x), notify i RT_DATAQUEUE_EVENT_LWM s, k) }
         else Some (Returned (RT_EOK, Some x), notify i RT_DATAQUEUE_EVENT_POP s, k)
       })"

definition rt_data_queue_pop ::
  "nat \<Rightarrow> u32 \<Rightarrow> dq_state \<times> kernel \<Rightarrow> ((rt_err_t \<times> data_item option, tid \<times> u32) call \<times> dq_state \<times> kernel) option" where
  "rt_data_queue_pop i timeout sk =
    do {
      RT_ASSERT (dq_magic (queues (fst sk) i) = DATAQUEUE_MAGIC);
      pop_loop i (rt_thread_self (snd sk)) timeout sk
    }"

definition rt_data_queue_pop_resumed ::
  "nat \<Rightarrow> tid \<times> u32 \<Rightarrow> dq_state \<times> kernel \<Rightarrow> ((rt_err_t \<times> data_item option, tid \<times> u32) call \<times> dq_state \<times> kernel) option" where
  "rt_data_queue_pop_resumed i p sk =
    (case (p, sk) of ((t, timeout), s, k) \<Rightarrow>
       if t_error (threads k t) \<noteq> RT_EOK then Some (Returned (t_error (threads k t), None), s, k)
       else pop_loop i (Some t) timeout (s, k))"

definition rt_data_queue_peek :: "rt_data_queue \<Rightarrow> (rt_err_t \<times> data_item option) option" where
  "rt_data_queue_peek q =
    do {
      RT_ASSERT (dq_magic q = DATAQUEUE_MAGIC);
      if is_empty q then Some (- RT_EEMPTY, None)
      else do {
        RT_ASSERT (unat (get_index q) < length (dq_items q));
        Some (RT_EOK, Some (dq_items q ! unat (get_index q)))
      }
    }"

definition rt_data_queue_reset :: "nat \<Rightarrow> dq_state \<times> kernel \<Rightarrow> (dq_state \<times> kernel) option" where
  "rt_data_queue_reset i sk =
    (case sk of (s, k) \<Rightarrow>
       do {
         RT_ASSERT (dq_magic (queues s i) = DATAQUEUE_MAGIC);
         let s = upd_dq i dq_clear s;
         let k = rt_enter_critical k;
         k \<leftarrow> rt_ipc_list_resume_all (Suspend i) k;
         k \<leftarrow> rt_ipc_list_resume_all (Sender i) k;
         k \<leftarrow> rt_exit_critical k;
         k \<leftarrow> rt_schedule k;
         Some (s, k)
       })"

definition rt_data_queue_deinit :: "nat \<Rightarrow> dq_state \<times> kernel \<Rightarrow> (rt_err_t \<times> dq_state \<times> kernel) option" where
  "rt_data_queue_deinit i sk =
    do {
      (s, k) \<leftarrow> rt_data_queue_reset i sk;
      Some (RT_EOK, upd_dq i (\<lambda>q. q\<lparr>dq_magic := 0\<rparr>) s, k)
    }"

section \<open>The store\<close>

text \<open>A store of at most \<open>0x8000\<close> items: larger ones do not fit the 15 bits of the indexes.\<close>

definition dq_inv :: "rt_data_queue \<Rightarrow> bool" where
  "dq_inv q \<longleftrightarrow> 0 < unat (dq_size q) \<and> unat (dq_size q) \<le> 0x8000 \<and> length (dq_items q) = unat (dq_size q) \<and>
    unat (get_index q) < unat (dq_size q) \<and> unat (put_index q) < unat (dq_size q) \<and> dq_magic q = DATAQUEUE_MAGIC \<and>
    (put_index q = get_index q \<longleftrightarrow> is_empty q \<or> is_full q) \<and> \<not> (is_empty q \<and> is_full q)"

definition dq_count :: "rt_data_queue \<Rightarrow> nat" where
  "dq_count q =
    (if is_empty q then 0
     else if unat (get_index q) < unat (put_index q) then unat (put_index q) - unat (get_index q)
     else unat (dq_size q) + unat (put_index q) - unat (get_index q))"

definition dq_list :: "rt_data_queue \<Rightarrow> data_item list" where
  "dq_list q = circ (unat (dq_size q)) (dq_items q) (unat (get_index q)) (dq_count q)"

lemma unat_index_succ:
  assumes "unat x < unat sz" "unat sz \<le> 0x8000"
  shows "unat (index_succ sz x) = Suc (unat x) mod unat sz"
proof (cases "Suc (unat x) < unat sz")
  case True
  then have "unat (x + 1) = Suc (unat x)" using assms by (simp add: unat_word_ariths)
  then show ?thesis using True by (simp add: index_succ_def)
next
  case False
  then have s: "Suc (unat x) = unat sz" using assms(1) by simp
  then have "unat (x + 1) = unat sz \<or> x + 1 = 0" using assms(2)
    by (cases "unat sz = 0x8000") (auto simp: unat_word_ariths word_unat_eq_iff)
  then show ?thesis using s by (auto simp: index_succ_def Let_def)
qed

lemma Suc_mod_cases: "x < n \<Longrightarrow> Suc x mod n = (if Suc x = n then 0 else Suc x)"
  by auto

text \<open>How the number of items follows from the indexes, and how it changes.\<close>

lemma dq_invD:
  assumes "dq_inv q"
  shows "unat (put_index q) = (unat (get_index q) + dq_count q) mod unat (dq_size q)" "dq_count q \<le> unat (dq_size q)"
    "is_empty q \<longleftrightarrow> dq_count q = 0" "is_full q \<longleftrightarrow> dq_count q = unat (dq_size q)"
proof -
  have i: "unat (get_index q) < unat (dq_size q)" "unat (put_index q) < unat (dq_size q)"
      "unat (put_index q) = unat (get_index q) \<longleftrightarrow> is_empty q \<or> is_full q" "\<not> (is_empty q \<and> is_full q)"
    using assms by (simp_all add: dq_inv_def word_unat_eq_iff)
  show "unat (put_index q) = (unat (get_index q) + dq_count q) mod unat (dq_size q)"
    using i by (simp add: dq_count_def)
  show "dq_count q \<le> unat (dq_size q)" "is_empty q \<longleftrightarrow> dq_count q = 0" "is_full q \<longleftrightarrow> dq_count q = unat (dq_size q)"
    using i by (auto simp: dq_count_def)
qed

lemma dq_put_ok:
  assumes inv: "dq_inv q" and room: "\<not> is_full q"
  shows "\<exists>q'. dq_put x q = Some q' \<and> dq_inv q' \<and> dq_size q' = dq_size q \<and> lwm q' = lwm q \<and> evt_notify q' = evt_notify q \<and>
    dq_list q' = dq_list q @ [x]"
proof -
  let ?n = "unat (dq_size q)" and ?g = "unat (get_index q)" and ?p = "unat (put_index q)"
  note d = inv [unfolded dq_inv_def]
  define q' where "q' = q\<lparr>dq_items := (dq_items q)[?p := x], put_index := index_succ (dq_size q) (put_index q), is_empty := False,
    is_full := index_succ (dq_size q) (put_index q) = get_index q\<rparr>"
  have p': "unat (put_index q') = (if Suc ?p = ?n then 0 else Suc ?p)"
    using unat_index_succ [of "put_index q" "dq_size q"] Suc_mod_cases [of ?p ?n] d by (simp add: q'_def)
  have "dq_put x q = Some q'" using d room by (auto simp: dq_put_def q'_def Let_def intro!: rt_data_queue.equality)
  moreover have "dq_inv q'"
  proof -
    have "unat (index_succ (dq_size q) (put_index q)) < ?n"
      using unat_index_succ [of "put_index q" "dq_size q"] d by simp
    then show ?thesis using d by (simp add: dq_inv_def q'_def)
  qed
  moreover have "dq_count q' = Suc (dq_count q)"
    using d room p' by (auto simp: dq_count_def q'_def word_unat_eq_iff)
  then have "dq_list q' = dq_list q @ [x]"
    using circ_snoc [of "dq_count q" ?n "dq_items q" ?g x] dq_invD [OF inv] room d by (simp add: dq_list_def q'_def)
  ultimately show ?thesis by (simp add: q'_def)
qed

lemma dq_get_ok:
  assumes inv: "dq_inv q" and l: "dq_list q = x # xs"
  shows "\<exists>q'. dq_get q = Some (x, q') \<and> dq_inv q' \<and> dq_size q' = dq_size q \<and> lwm q' = lwm q \<and> evt_notify q' = evt_notify q \<and>
    dq_list q' = xs"
proof -
  let ?n = "unat (dq_size q)" and ?g = "unat (get_index q)" and ?p = "unat (put_index q)"
  note d = inv [unfolded dq_inv_def]
  have "length (dq_list q) \<noteq> 0" using l by simp
  then have "dq_count q \<noteq> 0" by (simp add: dq_list_def)
  then obtain m where m: "dq_count q = Suc m" using not0_implies_Suc by blast
  define q' where "q' = q\<lparr>get_index := index_succ (dq_size q) (get_index q), is_full := False,
    is_empty := put_index q = index_succ (dq_size q) (get_index q)\<rparr>"
  have g': "unat (get_index q') = Suc ?g mod ?n" using unat_index_succ [of "get_index q" "dq_size q"] d by (simp add: q'_def)
  have ne: "\<not> is_empty q" using dq_invD(3) [OF inv] m by simp
  have c: "dq_count q' = m"
    using d m ne g' Suc_mod_cases [of ?g ?n] by (auto simp: dq_count_def q'_def word_unat_eq_iff split: if_splits)
  have e: "x = dq_items q ! ?g" "xs = dq_list q'"
    using l circ_Suc [of ?n "dq_items q" ?g m] m c g' d by (simp_all add: dq_list_def q'_def)
  have "dq_get q = Some (x, q')" using d ne e(1) by (auto simp: dq_get_def q'_def Let_def intro!: rt_data_queue.equality)
  moreover have "unat (index_succ (dq_size q) (get_index q)) < ?n"
    using unat_index_succ [of "get_index q" "dq_size q"] d by simp
  then have "dq_inv q'" using d by (simp add: dq_inv_def q'_def)
  ultimately show ?thesis using e(2) by (simp add: q'_def)
qed

lemma dq_list_facts:
  assumes "dq_inv q"
  shows "length (dq_list q) = dq_count q" "is_empty q \<longleftrightarrow> dq_list q = []" "is_full q \<longleftrightarrow> length (dq_list q) = unat (dq_size q)"
  using dq_invD [OF assms] by (auto simp: dq_list_def circ_def)

lemma word_of_int_diff_nat: "a = int n \<Longrightarrow> b = int m \<Longrightarrow> m \<le> n \<Longrightarrow> (word_of_int (a - b) :: 'c::len word) = word_of_nat (n - m)"
  by (metis of_int_of_nat_eq of_nat_diff)

lemma rt_data_queue_len_eq: "dq_inv q \<Longrightarrow> rt_data_queue_len q = Some (word_of_nat (length (dq_list q)))"
proof -
  assume inv: "dq_inv q"
  have u: "uint (put_index q) = int (unat (put_index q))" "uint (get_index q) = int (unat (get_index q))"
      "uint (dq_size q) + uint (put_index q) = int (unat (dq_size q) + unat (put_index q))"
    by (simp_all only: uint_nat of_nat_add)
  have m: "dq_magic q = DATAQUEUE_MAGIC" "unat (get_index q) \<le> unat (dq_size q) + unat (put_index q)"
    using inv by (simp_all add: dq_inv_def)
  show ?thesis
    using m(1) dq_list_facts(1) [OF inv] word_of_int_diff_nat [where 'c = 16, OF u(1,2)]
      word_of_int_diff_nat [where 'c = 16, OF u(3,2) m(2)]
    unfolding rt_data_queue_len_def dq_count_def word_less_nat_alt by (simp del: uint_nat)
qed

text \<open>A data queue is a bounded first-in-first-out store.\<close>

interpretation dq: bounded_fifo dq_inv "\<lambda>q. unat (dq_size q)" "\<lambda>_ _. True" dq_list dq_put dq_get
proof
  show "length (dq_list q) \<le> unat (dq_size q)" if "dq_inv q" for q
    using dq_invD(2) [OF that] dq_list_facts(1) [OF that] by simp
  show "\<exists>q'. dq_put x q = Some q' \<and> dq_inv q' \<and> unat (dq_size q') = unat (dq_size q) \<and> (\<lambda>_. True) = (\<lambda>_. True) \<and>
      dq_list q' = dq_list q @ [x]" if "dq_inv q" "True" "length (dq_list q) < unat (dq_size q)" for q x
    using dq_put_ok [OF that(1), of x] dq_list_facts(3) [OF that(1)] that(3) by auto
  show "\<exists>q'. dq_get q = Some (x, q') \<and> dq_inv q' \<and> unat (dq_size q') = unat (dq_size q) \<and> (\<lambda>_. True) = (\<lambda>_. True) \<and>
      dq_list q' = xs" if "dq_inv q" "dq_list q = x # xs" for q x xs
    using dq_get_ok [OF that] by auto
qed

section \<open>The queue in the kernel\<close>

lemma upd_dq_sel [simp]: "queues (upd_dq i f s) i = f (queues s i)" "j \<noteq> i \<Longrightarrow> queues (upd_dq i f s) j = queues s j"
  "notified (upd_dq i f s) = notified s"
  by (simp_all add: upd_dq_def)

lemma notify_sel [simp]: "queues (notify i e s) = queues s"
  "notified (notify i e s) = notified s @ (if evt_notify (queues s i) then [(i, e)] else [])"
  by (simp_all add: notify_def)

lemma push_room:
  assumes inv: "kinv k" and c: "cur k \<noteq> None" and q: "dq_inv (queues s i)" and room: "\<not> is_full (queues s i)"
  shows "\<exists>s' k'. push_loop i thread x timeout (s, k) = Some (Returned RT_EOK, s', k') \<and> kinv k' \<and> cur k' \<noteq> None \<and>
    dq_inv (queues s' i) \<and> dq_list (queues s' i) = dq_list (queues s i) @ [x] \<and> dq_size (queues s' i) = dq_size (queues s i) \<and>
    tlists k' (Suspend i) = tl (tlists k (Suspend i)) \<and> tlists k' (Sender i) = tlists k (Sender i) \<and>
    (\<forall>u. t_error (threads k' u) = t_error (threads k u)) \<and>
    (tlists k (Suspend i) \<noteq> [] \<longrightarrow>
      stat_of (threads k' (hd (tlists k (Suspend i)))) \<in> {RT_THREAD_READY, RT_THREAD_RUNNING}) \<and>
    notified s' = notified s @
      (if tlists k (Suspend i) = [] \<and> evt_notify (queues s i) then [(i, RT_DATAQUEUE_EVENT_PUSH)] else [])"
proof -
  obtain q' where q': "dq_put x (queues s i) = Some q'" "dq_inv q'" "dq_size q' = dq_size (queues s i)"
      "evt_notify q' = evt_notify (queues s i)" "dq_list q' = dq_list (queues s i) @ [x]"
    using dq_put_ok [OF q room] by blast
  obtain k' where k': "wake_first (Suspend i) k = Some k'" "kinv k'" "cur k' \<noteq> None"
      "tlists k' (Suspend i) = tl (tlists k (Suspend i))"
      "\<forall>m. m \<noteq> Suspend i \<and> (\<forall>p. m \<noteq> Ready p) \<longrightarrow> tlists k' m = tlists k m"
      "\<forall>u. \<exists>s. threads k' u = (threads k u)\<lparr>t_stat := s\<rparr>"
      "tlists k (Suspend i) \<noteq> [] \<longrightarrow> stat_of (threads k' (hd (tlists k (Suspend i)))) \<in> {RT_THREAD_READY, RT_THREAD_RUNNING}"
    using wake_first_ok [OF inv c, of "Suspend i" i] by blast
  have e: "\<forall>u. t_error (threads k' u) = t_error (threads k u)" using only_stat_error(1) [OF spec [OF k'(6)]] by blast
  have k0: "k' = k" if "tlists k (Suspend i) = []" using that k'(1) by (simp add: wake_first_def)
  show ?thesis
  proof (cases "tlists k (Suspend i) = []")
    case True
    then show ?thesis using q' room inv c by (simp add: push_loop_def)
  next
    case False
    then show ?thesis using q' k' e room by (simp add: push_loop_def unpark_wake)
  qed
qed

lemma pop_some:
  assumes inv: "kinv k" and c: "cur k \<noteq> None" and q: "dq_inv (queues s i)" and l: "dq_list (queues s i) = x # xs"
  shows "\<exists>s' k'. pop_loop i thread timeout (s, k) = Some (Returned (RT_EOK, Some x), s', k') \<and> kinv k' \<and> cur k' \<noteq> None \<and>
    dq_inv (queues s' i) \<and> dq_list (queues s' i) = xs \<and> dq_size (queues s' i) = dq_size (queues s i) \<and>
    tlists k' (Suspend i) = tlists k (Suspend i) \<and> (\<forall>u. t_error (threads k' u) = t_error (threads k u)) \<and>
    (if length xs \<le> unat (lwm (queues s i)) then
       tlists k' (Sender i) = tl (tlists k (Sender i)) \<and>
       (tlists k (Sender i) \<noteq> [] \<longrightarrow> stat_of (threads k' (hd (tlists k (Sender i)))) \<in> {RT_THREAD_READY, RT_THREAD_RUNNING})
     else k' = k) \<and>
    notified s' = notified s @ (if evt_notify (queues s i) then
      [(i, if length xs \<le> unat (lwm (queues s i)) then RT_DATAQUEUE_EVENT_LWM else RT_DATAQUEUE_EVENT_POP)] else [])"
proof -
  obtain q' where q': "dq_get (queues s i) = Some (x, q')" "dq_inv q'" "dq_size q' = dq_size (queues s i)" "lwm q' = lwm (queues s i)"
      "evt_notify q' = evt_notify (queues s i)" "dq_list q' = xs"
    using dq_get_ok [OF q l] by blast
  have ne: "\<not> is_empty (queues s i)" using dq_list_facts(2) [OF q] l by simp
  have "length xs < 0x10000" using dq_invD(2) [OF q'(2)] dq_list_facts(1) [OF q'(2)] q'(2,6) by (simp add: dq_inv_def)
  then have n: "(word_of_nat (length xs) \<le> lwm (queues s i)) = (length xs \<le> unat (lwm (queues s i)))"
    by (simp add: word_le_nat_alt unsigned_of_nat take_bit_nat_eq_self)
  have len: "rt_data_queue_len q' = Some (word_of_nat (length xs))" using rt_data_queue_len_eq [OF q'(2)] q'(6) by simp
  obtain k' where k': "wake_first (Sender i) k = Some k'" "kinv k'" "cur k' \<noteq> None"
      "tlists k' (Sender i) = tl (tlists k (Sender i))"
      "\<forall>m. m \<noteq> Sender i \<and> (\<forall>p. m \<noteq> Ready p) \<longrightarrow> tlists k' m = tlists k m"
      "\<forall>u. \<exists>s. threads k' u = (threads k u)\<lparr>t_stat := s\<rparr>"
      "tlists k (Sender i) \<noteq> [] \<longrightarrow> stat_of (threads k' (hd (tlists k (Sender i)))) \<in> {RT_THREAD_READY, RT_THREAD_RUNNING}"
    using wake_first_ok [OF inv c, of "Sender i" i] by blast
  have e: "\<forall>u. t_error (threads k' u) = t_error (threads k u)" using only_stat_error(1) [OF spec [OF k'(6)]] by blast
  show ?thesis
  proof (cases "length xs \<le> unat (lwm (queues s i))")
    case True
    then show ?thesis using q' len n ne k' e by (simp add: pop_loop_def unpark_wake)
  next
    case False
    then show ?thesis using q' len n ne inv c by (simp add: pop_loop_def)
  qed
qed

text \<open>A caller that has to wait, on either side.\<close>

lemma dq_waits:
  assumes inv: "kinv k" and c: "thread_calls t k" and l: "l = Suspend i \<or> l = Sender i" and time: "sint timeout < 0x7FFFFFFF"
  shows "\<exists>k'. park fifo_insert l t timeout (set_error t RT_EOK k) = Some k' \<and> not_in_interrupt k \<and> rt_thread_self k = Some t \<and>
    kinv k' \<and> tlists k' l = tlists k l @ [t] \<and> stat_of (threads k' t) = RT_THREAD_SUSPEND \<and> t_error (threads k' t) = RT_EOK \<and>
    (0 < sint timeout \<longrightarrow> tticks k' (ThreadTimer t) = rt_tick k + timeout)"
  using fifo.park_ok [OF inv c l time] c
  by (auto simp: fifo_insert_def thread_calls_def not_in_interrupt_def rt_thread_self_def)

lemma kinv_lock [simp]: "kinv (k\<lparr>lock_nest := n\<rparr>) = kinv k"
  by (rule kinv_data) simp_all

lemma exit_critical_kinv:
  assumes inv: "kinv k" and c: "cur k \<noteq> None"
  shows "\<exists>k'. rt_exit_critical k = Some k' \<and> kinv k' \<and> same_threads k k' \<and> waits k' = waits k \<and> cur k' \<noteq> None"
proof (cases "sint (lock_nest k - 1) \<le> 0")
  case True
  obtain k' where "rt_schedule (k\<lparr>lock_nest := 0\<rparr>) = Some k'" "kinv k'" "same_threads (k\<lparr>lock_nest := 0\<rparr>) k'"
      "waits k' = waits (k\<lparr>lock_nest := 0\<rparr>)" "cur k' \<noteq> None"
    using rt_schedule_kinv [of "k\<lparr>lock_nest := 0\<rparr>"] inv c by auto
  then show ?thesis using True c by (auto simp: rt_exit_critical_def waits_def same_threads_def Let_def)
next
  case False
  have "same_threads k (k\<lparr>lock_nest := lock_nest k - 1\<rparr>)" by (rule same_threads_eq) simp
  then show ?thesis using False inv c by (simp add: rt_exit_critical_def Let_def waits_def)
qed

section \<open>Correctness\<close>

text \<open>
  Items put into a data queue up to its capacity come out in the same order behind those that were there before.
\<close>

theorem dq_round_trip:
  assumes "dq_inv q" "length (dq_list q) + length xs \<le> unat (dq_size q)"
  shows "\<exists>q1 q2. put_all dq_put xs q = Some q1 \<and> get_all dq_get (length (dq_list q) + length xs) q1 = Some (dq_list q @ xs, q2) \<and>
    dq_inv q2 \<and> dq_list q2 = []"
  using dq.fifo_round_trip [OF assms(1) _ assms(2)] by simp

text \<open>
  \<open>rt_data_queue_push\<close> on every branch. With room the item is appended and the first waiting reader is made ready, or the callback
  is told if there is none; a full queue gives \<open>-RT_ETIMEOUT\<close> at once, or suspends the caller at the
  end of the list of writers. A reader that waits on the empty queue gets exactly this item when it runs again.
\<close>

theorem rt_data_queue_push_correct:
  assumes inv: "kinv k" and c: "thread_calls t k" and q: "dq_inv (queues s i)" and time: "sint timeout < 0x7FFFFFFF"
  shows "if length (dq_list (queues s i)) < unat (dq_size (queues s i)) then
      \<exists>s' k'. rt_data_queue_push i x timeout (s, k) = Some (Returned RT_EOK, s', k') \<and> kinv k' \<and> dq_inv (queues s' i) \<and>
        dq_list (queues s' i) = dq_list (queues s i) @ [x] \<and> tlists k' (Suspend i) = tl (tlists k (Suspend i)) \<and>
        tlists k' (Sender i) = tlists k (Sender i) \<and>
        (case tlists k (Suspend i) of
           [] \<Rightarrow> notified s' = notified s @ (if evt_notify (queues s i) then [(i, RT_DATAQUEUE_EVENT_PUSH)] else [])
         | u # _ \<Rightarrow> notified s' = notified s \<and> stat_of (threads k' u) \<in> {RT_THREAD_READY, RT_THREAD_RUNNING} \<and>
             (dq_list (queues s i) = [] \<and> t_error (threads k u) = RT_EOK \<longrightarrow>
               (\<exists>s'' k''. rt_data_queue_pop_resumed i (u, time_u) (s', k') = Some (Returned (RT_EOK, Some x), s'', k'') \<and>
                 kinv k'' \<and> dq_list (queues s'' i) = [])))
    else if timeout = 0 then rt_data_queue_push i x timeout (s, k) = Some (Returned (- RT_ETIMEOUT), s, k)
    else \<exists>k'. rt_data_queue_push i x timeout (s, k) = Some (Suspended (t, x, timeout), s, k') \<and> kinv k' \<and>
        stat_of (threads k' t) = RT_THREAD_SUSPEND \<and> tlists k' (Sender i) = tlists k (Sender i) @ [t] \<and>
        (0 < sint timeout \<longrightarrow> tticks k' (ThreadTimer t) = rt_tick k + timeout)"
proof -
  have m: "dq_magic (queues s i) = DATAQUEUE_MAGIC" using q by (simp add: dq_inv_def)
  have cu: "cur k \<noteq> None" using thread_callsD [OF c] by simp
  have full: "length (dq_list (queues s i)) < unat (dq_size (queues s i)) \<longleftrightarrow> \<not> is_full (queues s i)"
    using dq_list_facts [OF q] dq_invD(2) [OF q] by auto
  show ?thesis
  proof (cases "is_full (queues s i)")
    case True
    then show ?thesis using full m dq_waits [OF inv c _ time, of "Sender i" i] by (auto simp: rt_data_queue_push_def push_loop_def)
  next
    case False
    obtain s' k' where r: "push_loop i (rt_thread_self k) x timeout (s, k) = Some (Returned RT_EOK, s', k')" "kinv k'" "cur k' \<noteq> None"
        "dq_inv (queues s' i)" "dq_list (queues s' i) = dq_list (queues s i) @ [x]"
        "tlists k' (Suspend i) = tl (tlists k (Suspend i))" "tlists k' (Sender i) = tlists k (Sender i)"
        "\<forall>u. t_error (threads k' u) = t_error (threads k u)"
        "tlists k (Suspend i) \<noteq> [] \<longrightarrow> stat_of (threads k' (hd (tlists k (Suspend i)))) \<in> {RT_THREAD_READY, RT_THREAD_RUNNING}"
        "notified s' = notified s @
          (if tlists k (Suspend i) = [] \<and> evt_notify (queues s i) then [(i, RT_DATAQUEUE_EVENT_PUSH)] else [])"
      using push_room [OF inv cu q False] by blast
    have "\<exists>s'' k''. rt_data_queue_pop_resumed i (u, time_u) (s', k') = Some (Returned (RT_EOK, Some x), s'', k'') \<and> kinv k'' \<and>
        dq_list (queues s'' i) = []" if "dq_list (queues s i) = []" "t_error (threads k u) = RT_EOK" for u
      using pop_some [OF r(2-4), of x "[]" "Some u" time_u] r(5,8) that by (auto simp: rt_data_queue_pop_resumed_def)
    then show ?thesis using False full m r by (auto simp: rt_data_queue_push_def split: list.split)
  qed
qed

text \<open>
  \<open>rt_data_queue_pop\<close> on every branch. The oldest item is returned and removed; when not more than the low-water mark are left, the first
  waiting writer is made ready. An empty queue gives \<open>-RT_ETIMEOUT\<close> at once, or suspends the caller at the end of the list of
  readers. The callback is told what happened.
\<close>

theorem rt_data_queue_pop_correct:
  assumes inv: "kinv k" and c: "thread_calls t k" and q: "dq_inv (queues s i)" and time: "sint timeout < 0x7FFFFFFF"
  shows "case dq_list (queues s i) of
      x # xs \<Rightarrow>
        \<exists>s' k'. rt_data_queue_pop i timeout (s, k) = Some (Returned (RT_EOK, Some x), s', k') \<and> kinv k' \<and> dq_inv (queues s' i) \<and>
          dq_list (queues s' i) = xs \<and> tlists k' (Suspend i) = tlists k (Suspend i) \<and>
          (if length xs \<le> unat (lwm (queues s i)) then
             tlists k' (Sender i) = tl (tlists k (Sender i)) \<and>
             (tlists k (Sender i) \<noteq> [] \<longrightarrow> stat_of (threads k' (hd (tlists k (Sender i)))) \<in> {RT_THREAD_READY, RT_THREAD_RUNNING})
           else k' = k) \<and>
          notified s' = notified s @ (if evt_notify (queues s i) then
            [(i, if length xs \<le> unat (lwm (queues s i)) then RT_DATAQUEUE_EVENT_LWM else RT_DATAQUEUE_EVENT_POP)] else [])
    | [] \<Rightarrow>
        if timeout = 0 then rt_data_queue_pop i timeout (s, k) = Some (Returned (- RT_ETIMEOUT, None), s, k)
        else \<exists>k'. rt_data_queue_pop i timeout (s, k) = Some (Suspended (t, timeout), s, k') \<and> kinv k' \<and>
          stat_of (threads k' t) = RT_THREAD_SUSPEND \<and> tlists k' (Suspend i) = tlists k (Suspend i) @ [t] \<and>
          (0 < sint timeout \<longrightarrow> tticks k' (ThreadTimer t) = rt_tick k + timeout)"
proof -
  have m: "dq_magic (queues s i) = DATAQUEUE_MAGIC" using q by (simp add: dq_inv_def)
  have cu: "cur k \<noteq> None" using thread_callsD [OF c] by simp
  show ?thesis
  proof (cases "dq_list (queues s i)")
    case Nil
    then show ?thesis
      using m dq_list_facts(2) [OF q] dq_waits [OF inv c _ time, of "Suspend i" i] by (auto simp: rt_data_queue_pop_def pop_loop_def)
  next
    case (Cons x xs)
    obtain s' k' where "pop_loop i (rt_thread_self k) timeout (s, k) = Some (Returned (RT_EOK, Some x), s', k')" "kinv k'"
        "dq_inv (queues s' i)" "dq_list (queues s' i) = xs" "tlists k' (Suspend i) = tlists k (Suspend i)"
        "if length xs \<le> unat (lwm (queues s i)) then
           tlists k' (Sender i) = tl (tlists k (Sender i)) \<and>
           (tlists k (Sender i) \<noteq> [] \<longrightarrow> stat_of (threads k' (hd (tlists k (Sender i)))) \<in> {RT_THREAD_READY, RT_THREAD_RUNNING})
         else k' = k"
        "notified s' = notified s @ (if evt_notify (queues s i) then
          [(i, if length xs \<le> unat (lwm (queues s i)) then RT_DATAQUEUE_EVENT_LWM else RT_DATAQUEUE_EVENT_POP)] else [])"
      using pop_some [OF inv cu q Cons] by blast
    then show ?thesis using Cons m by (simp add: rt_data_queue_pop_def)
  qed
qed

text \<open>
  \<open>rt_data_queue_reset\<close> empties the queue and makes all waiting readers and writers ready; their pending calls return
  \<open>-RT_ERROR\<close>.
\<close>

theorem rt_data_queue_reset_correct:
  assumes inv: "kinv k" and c: "cur k \<noteq> None" and q: "dq_inv (queues s i)"
  shows "\<exists>s' k'. rt_data_queue_reset i (s, k) = Some (s', k') \<and> kinv k' \<and> dq_inv (queues s' i) \<and> dq_list (queues s' i) = [] \<and>
    dq_size (queues s' i) = dq_size (queues s i) \<and> tlists k' (Suspend i) = [] \<and> tlists k' (Sender i) = [] \<and>
    (\<forall>u\<in>set (tlists k (Suspend i)) \<union> set (tlists k (Sender i)).
      stat_of (threads k' u) \<in> {RT_THREAD_READY, RT_THREAD_RUNNING} \<and>
      rt_data_queue_pop_resumed i (u, timeout) (s', k') = Some (Returned (- RT_ERROR, None), s', k') \<and>
      rt_data_queue_push_resumed i (u, x, timeout) (s', k') = Some (Returned (- RT_ERROR), s', k'))"
proof -
  let ?k = "rt_enter_critical k" and ?s = "upd_dq i dq_clear s" and ?U = "set (tlists k (Suspend i)) \<union> set (tlists k (Sender i))"
  have e: "kinv ?k" "tlists ?k = tlists k" "cur ?k = cur k" using inv by (simp_all add: rt_enter_critical_def)
  obtain k1 k2 where k2: "rt_ipc_list_resume_all (Suspend i) ?k = Some k1" "rt_ipc_list_resume_all (Sender i) k1 = Some k2"
      "kinv k2" "cur k2 = cur k" "tlists k2 (Suspend i) = []" "tlists k2 (Sender i) = []"
      "\<forall>u\<in>?U. stat_of (threads k2 u) \<in> {RT_THREAD_READY, RT_THREAD_RUNNING} \<and> t_error (threads k2 u) = - RT_ERROR"
    using resume_both_ok [OF e(1), of i] unfolding e(2,3) by blast
  obtain k3 where k3: "rt_exit_critical k2 = Some k3" "kinv k3" "same_threads k2 k3" "waits k3 = waits k2" "cur k3 \<noteq> None"
    using exit_critical_kinv [OF k2(3)] k2(4) c by auto
  have u3: "\<forall>u\<in>?U. stat_of (threads k3 u) \<in> {RT_THREAD_READY, RT_THREAD_RUNNING} \<and> t_error (threads k3 u) = - RT_ERROR"
    using k2(7) same_threadsD(4) [OF k3(3)] only_stat_error(1) [OF same_threadsD(3) [OF k3(3)]] by simp
  obtain k4 where k4: "rt_schedule k3 = Some k4" "kinv k4" "waits k4 = waits k3"
      "\<forall>u\<in>?U. stat_of (threads k4 u) \<in> {RT_THREAD_READY, RT_THREAD_RUNNING} \<and> t_error (threads k4 u) = - RT_ERROR"
    using reset_schedule_ok [OF k3(2,5) u3] by blast
  have "tlists k4 (Suspend i) = []" "tlists k4 (Sender i) = []"
    using waits_tlists [OF k4(3), of "Suspend i"] waits_tlists [OF k4(3), of "Sender i"]
      waits_tlists [OF k3(4), of "Suspend i"] waits_tlists [OF k3(4), of "Sender i"] k2(5,6) by simp_all
  moreover have "rt_data_queue_reset i (s, k) = Some (?s, k4)"
    using q k2(1,2) k3(1) k4(1) by (simp add: rt_data_queue_reset_def dq_inv_def)
  moreover have "dq_inv (queues ?s i)" "dq_list (queues ?s i) = []"
    using q by (simp_all add: dq_inv_def dq_clear_def dq_list_def dq_count_def)
  ultimately show ?thesis
    using k4(2,4) by (intro exI [of _ ?s] exI [of _ k4])
      (auto simp: rt_data_queue_pop_resumed_def rt_data_queue_push_resumed_def dq_clear_def)
qed

text \<open>Queues of two items: 0 is empty and thread 3 waits to read from it, 2 is full.\<close>

definition demo_queue_state :: dq_state where
  "demo_queue_state =
    \<lparr>queues = (\<lambda>i. \<lparr>dq_magic = DATAQUEUE_MAGIC, dq_size = 2, lwm = 0, get_index = 1, is_empty = (i \<noteq> 2), put_index = 1,
        is_full = (i = 2), dq_items = [(7, 8), (5, 6)], evt_notify = True\<rparr>), notified = []\<rparr>"

lemma demo_queue_state_facts:
  "dq_inv (queues demo_queue_state i)" "dq_list (queues demo_queue_state 0) = []"
  "dq_list (queues demo_queue_state 2) = [(5, 6), (7, 8)]" "dq_size (queues demo_queue_state i) = 2" "lwm (queues demo_queue_state i) = 0"
  by (simp_all add: demo_queue_state_def dq_inv_def dq_list_def dq_count_def circ_def upt_rec)

theorem rt_data_queue_push_correct_witness:
  "(\<exists>s k. rt_data_queue_push 0 (1, 2) 0 (demo_queue_state, demo_ipc Class_Semaphore) = Some (Returned RT_EOK, s, k) \<and>
     dq_list (queues s 0) = [(1, 2)] \<and> (\<exists>s' k'. rt_data_queue_pop_resumed 0 (3, 9) (s, k) = Some (Returned (RT_EOK, Some (1, 2)), s', k'))) \<and>
   (\<exists>k. rt_data_queue_push 2 (1, 2) 4 (demo_queue_state, demo_ipc Class_Semaphore) = Some (Suspended (0, (1, 2), 4), demo_queue_state, k) \<and>
     tlists k (Sender 2) = [0])"
  using rt_data_queue_push_correct [where timeout = 0 and x = "(1, 2)" and time_u = 9,
      OF demo_ipc_kinv [of Class_Semaphore] demo_ipc_calls demo_queue_state_facts(1) [of 0]]
    rt_data_queue_push_correct [where timeout = 4 and x = "(1, 2)" and time_u = 9,
      OF demo_ipc_kinv [of Class_Semaphore] demo_ipc_calls demo_queue_state_facts(1) [of 2]]
  by (auto simp: demo_queue_state_facts)

theorem rt_data_queue_pop_correct_witness:
  "(\<exists>s k. rt_data_queue_pop 2 0 (demo_queue_state, demo_ipc Class_Semaphore) = Some (Returned (RT_EOK, Some (5, 6)), s, k) \<and>
     dq_list (queues s 2) = [(7, 8)]) \<and>
   (\<exists>k. rt_data_queue_pop 0 4 (demo_queue_state, demo_ipc Class_Semaphore) = Some (Suspended (0, 4), demo_queue_state, k) \<and>
     tlists k (Suspend 0) = [3, 0])"
  using rt_data_queue_pop_correct [where timeout = 0,
      OF demo_ipc_kinv [of Class_Semaphore] demo_ipc_calls demo_queue_state_facts(1) [of 2]]
    rt_data_queue_pop_correct [where timeout = 4,
      OF demo_ipc_kinv [of Class_Semaphore] demo_ipc_calls demo_queue_state_facts(1) [of 0]]
  by (auto simp: demo_queue_state_facts)

end
