(* ===== verification/Dev_Ringbuffer.thy ===== *)
theory Dev_Ringbuffer
  imports RT_Fifo
begin

unbundle bit_operations_syntax

text \<open>
  The byte ring buffer of the device drivers, \<open>components/drivers/src/ringbuffer.c\<close>: read and write
  indices of 15 bits, each with a mirror bit that flips when the index passes the end of the buffer.
  \<open>None\<close> means that an assertion fails or memory outside the buffer or the caller's block is accessed.
\<close>

section \<open>Operations\<close>

record rt_ringbuffer =
  buffer_ptr :: "u8 list"
  read_mirror :: bool
  read_index :: "15 word"
  write_mirror :: bool
  write_index :: "15 word"
  buffer_size :: int

datatype rt_ringbuffer_state = RT_RINGBUFFER_EMPTY | RT_RINGBUFFER_FULL | RT_RINGBUFFER_HALFFULL

definition rt_ringbuffer_status :: "rt_ringbuffer \<Rightarrow> rt_ringbuffer_state" where
  "rt_ringbuffer_status rb =
    (if read_index rb = write_index rb then
       (if read_mirror rb = write_mirror rb then RT_RINGBUFFER_EMPTY else RT_RINGBUFFER_FULL)
     else RT_RINGBUFFER_HALFFULL)"

definition rt_ringbuffer_data_len :: "rt_ringbuffer \<Rightarrow> u32" where
  "rt_ringbuffer_data_len rb =
    (case rt_ringbuffer_status rb of
       RT_RINGBUFFER_EMPTY \<Rightarrow> 0
     | RT_RINGBUFFER_FULL \<Rightarrow> word_of_int (buffer_size rb)
     | RT_RINGBUFFER_HALFFULL \<Rightarrow>
         if write_index rb > read_index rb then word_of_int (uint (write_index rb) - uint (read_index rb))
         else word_of_int (buffer_size rb - (uint (read_index rb) - uint (write_index rb))))"

definition rt_ringbuffer_space_len :: "rt_ringbuffer \<Rightarrow> u32" where
  "rt_ringbuffer_space_len rb = word_of_int (buffer_size rb) - rt_ringbuffer_data_len rb"

text \<open>\<open>RT_ALIGN_DOWN\<close> of a size that is promoted to \<open>int\<close>; the structure is that of the caller.\<close>

definition rt_ringbuffer_init :: "u8 list \<Rightarrow> 16 word \<Rightarrow> rt_ringbuffer \<Rightarrow> rt_ringbuffer option" where
  "rt_ringbuffer_init pool sz rb =
    do {
      RT_ASSERT (0 < sint sz);
      Some (rb\<lparr>read_mirror := False, read_index := 0, write_mirror := False, write_index := 0,
        buffer_ptr := pool, buffer_size := sint (RT_ALIGN_DOWN (word_of_int (sint sz)) 4)\<rparr>)
    }"

text \<open>Reading \<open>n\<close> bytes from the caller's block and copying bytes into the buffer; a negative length is a
  huge \<open>size_t\<close>.\<close>

definition block_read :: "u8 list \<Rightarrow> int \<Rightarrow> int \<Rightarrow> u8 list option" where
  "block_read ptr a n =
    (if 0 \<le> a \<and> 0 \<le> n \<and> a + n \<le> int (length ptr) then Some (take (nat n) (drop (nat a) ptr)) else None)"

definition buffer_write :: "int \<Rightarrow> u8 list \<Rightarrow> rt_ringbuffer \<Rightarrow> rt_ringbuffer option" where
  "buffer_write a xs rb =
    (if 0 \<le> a \<and> a + int (length xs) \<le> int (length (buffer_ptr rb))
     then Some (rb\<lparr>buffer_ptr := blit (nat a) xs (buffer_ptr rb)\<rparr>) else None)"

text \<open>The copying of \<open>rt_ringbuffer_put\<close> and \<open>rt_ringbuffer_put_force\<close>; the boolean says whether the write
  index went to the other side of the mirror.\<close>

definition ringbuffer_copy_in :: "u8 list \<Rightarrow> int \<Rightarrow> rt_ringbuffer \<Rightarrow> (bool \<times> rt_ringbuffer) option" where
  "ringbuffer_copy_in ptr len rb =
    (let w = uint (write_index rb); room = buffer_size rb - w in
     if room > len then
       do {
         xs \<leftarrow> block_read ptr 0 len;
         rb \<leftarrow> buffer_write w xs rb;
         Some (False, rb\<lparr>write_index := word_of_int (w + len)\<rparr>)
       }
     else
       do {
         xs \<leftarrow> block_read ptr 0 room;
         rb \<leftarrow> buffer_write w xs rb;
         ys \<leftarrow> block_read ptr room (len - room);
         rb \<leftarrow> buffer_write 0 ys rb;
         Some (True, rb\<lparr>write_mirror := \<not> write_mirror rb, write_index := word_of_int (len - room)\<rparr>)
       })"

definition rt_ringbuffer_put :: "u8 list \<Rightarrow> u16 \<Rightarrow> rt_ringbuffer \<Rightarrow> (u32 \<times> rt_ringbuffer) option" where
  "rt_ringbuffer_put ptr len rb =
    (let sz = (ucast (rt_ringbuffer_space_len rb) :: u16) in
     if sz = 0 then Some (0, rb)
     else do {
       let len = (if sz < len then sz else len);
       (_, rb) \<leftarrow> ringbuffer_copy_in ptr (uint len) rb;
       Some (ucast len, rb)
     })"

definition rt_ringbuffer_put_force :: "u8 list \<Rightarrow> u16 \<Rightarrow> rt_ringbuffer \<Rightarrow> (u32 \<times> rt_ringbuffer) option" where
  "rt_ringbuffer_put_force ptr len rb =
    do {
      let space_length = (ucast (rt_ringbuffer_space_len rb) :: u16);
      let over = uint len > buffer_size rb;
      let ptr = (if over then drop (nat (uint len - buffer_size rb)) ptr else ptr);
      let len = (if over then word_of_int (buffer_size rb) else len);
      (flipped, rb) \<leftarrow> ringbuffer_copy_in ptr (uint len) rb;
      let rb = (if len > space_length then
                  (if flipped then rb\<lparr>read_mirror := \<not> read_mirror rb, read_index := write_index rb\<rparr>
                   else rb\<lparr>read_index := write_index rb\<rparr>)
                else rb);
      Some (ucast len, rb)
    }"

definition buffer_read :: "int \<Rightarrow> int \<Rightarrow> rt_ringbuffer \<Rightarrow> u8 list option" where
  "buffer_read a n rb = block_read (buffer_ptr rb) a n"

text \<open>\<open>rt_ringbuffer_get\<close>: the bytes copied to the caller are the first component.\<close>

definition rt_ringbuffer_get :: "u16 \<Rightarrow> rt_ringbuffer \<Rightarrow> (u8 list \<times> rt_ringbuffer) option" where
  "rt_ringbuffer_get len rb =
    (let sz = rt_ringbuffer_data_len rb in
     if sz = 0 then Some ([], rb)
     else
       (let len = ((if sz < ucast len then ucast sz else len) :: u16);
            r = uint (read_index rb);
            room = buffer_size rb - r in
        if room > uint len then
          do {
            xs \<leftarrow> buffer_read r (uint len) rb;
            Some (xs, rb\<lparr>read_index := word_of_int (r + uint len)\<rparr>)
          }
        else
          do {
            xs \<leftarrow> buffer_read r room rb;
            ys \<leftarrow> buffer_read 0 (uint len - room) rb;
            Some (xs @ ys, rb\<lparr>read_mirror := \<not> read_mirror rb, read_index := word_of_int (uint len - room)\<rparr>)
          }))"

text \<open>\<open>rt_ringbuffer_peak\<close>: the bytes of the contiguous block that \<open>*ptr\<close> points to.\<close>

definition rt_ringbuffer_peak :: "rt_ringbuffer \<Rightarrow> (u8 list \<times> rt_ringbuffer) option" where
  "rt_ringbuffer_peak rb =
    (let sz = rt_ringbuffer_data_len rb; r = uint (read_index rb); room = buffer_size rb - r in
     if sz = 0 then Some ([], rb)
     else if word_of_int room > sz then
       do { xs \<leftarrow> buffer_read r (uint sz) rb; Some (xs, rb\<lparr>read_index := word_of_int (r + uint sz)\<rparr>) }
     else
       do { xs \<leftarrow> buffer_read r room rb; Some (xs, rb\<lparr>read_mirror := \<not> read_mirror rb, read_index := 0\<rparr>) })"

definition rt_ringbuffer_putchar :: "u8 \<Rightarrow> rt_ringbuffer \<Rightarrow> (u32 \<times> rt_ringbuffer) option" where
  "rt_ringbuffer_putchar ch rb =
    (if rt_ringbuffer_space_len rb = 0 then Some (0, rb)
     else do {
       rb \<leftarrow> buffer_write (uint (write_index rb)) [ch] rb;
       Some (1, if uint (write_index rb) = buffer_size rb - 1
                then rb\<lparr>write_mirror := \<not> write_mirror rb, write_index := 0\<rparr>
                else rb\<lparr>write_index := write_index rb + 1\<rparr>)
     })"

definition rt_ringbuffer_putchar_force :: "u8 \<Rightarrow> rt_ringbuffer \<Rightarrow> (u32 \<times> rt_ringbuffer) option" where
  "rt_ringbuffer_putchar_force ch rb =
    do {
      let old_state = rt_ringbuffer_status rb;
      rb \<leftarrow> buffer_write (uint (write_index rb)) [ch] rb;
      if uint (write_index rb) = buffer_size rb - 1 then
        let rb = rb\<lparr>write_mirror := \<not> write_mirror rb, write_index := 0\<rparr>
        in Some (1, if old_state = RT_RINGBUFFER_FULL
                    then rb\<lparr>read_mirror := \<not> read_mirror rb, read_index := write_index rb\<rparr> else rb)
      else
        let rb = rb\<lparr>write_index := write_index rb + 1\<rparr>
        in Some (1, if old_state = RT_RINGBUFFER_FULL then rb\<lparr>read_index := write_index rb\<rparr> else rb)
    }"

text \<open>\<open>rt_ringbuffer_getchar\<close>: \<open>None\<close> in the first component if no byte is there.\<close>

definition rt_ringbuffer_getchar :: "rt_ringbuffer \<Rightarrow> (u8 option \<times> rt_ringbuffer) option" where
  "rt_ringbuffer_getchar rb =
    (if rt_ringbuffer_data_len rb = 0 then Some (None, rb)
     else do {
       xs \<leftarrow> buffer_read (uint (read_index rb)) 1 rb;
       Some (Some (hd xs), if uint (read_index rb) = buffer_size rb - 1
                then rb\<lparr>read_mirror := \<not> read_mirror rb, read_index := 0\<rparr>
                else rb\<lparr>read_index := read_index rb + 1\<rparr>)
     })"

definition rt_ringbuffer_reset :: "rt_ringbuffer \<Rightarrow> rt_ringbuffer" where
  "rt_ringbuffer_reset rb =
    rb\<lparr>read_mirror := False, read_index := 0, write_mirror := False, write_index := 0\<rparr>"

text \<open>\<open>mem\<close> and \<open>pool\<close> are what the two allocations return; \<open>rt_ringbuffer_destroy\<close> only frees them.\<close>

definition rt_ringbuffer_create :: "u16 \<Rightarrow> rt_ringbuffer option \<Rightarrow> u8 list option \<Rightarrow> rt_ringbuffer option option" where
  "rt_ringbuffer_create sz mem pool =
    do {
      RT_ASSERT (0 < sz);
      let sz = (ucast (RT_ALIGN_DOWN (ucast sz) 4) :: u16);
      case (mem, pool) of
        (Some rb, Some p) \<Rightarrow> do { rb \<leftarrow> rt_ringbuffer_init p sz rb; Some (Some rb) }
      | _ \<Rightarrow> Some None
    }"

section \<open>The contents of a ring buffer\<close>

definition rb_inv :: "rt_ringbuffer \<Rightarrow> bool" where
  "rb_inv rb \<longleftrightarrow> 0 < buffer_size rb \<and> buffer_size rb \<le> 0x7FFF \<and> int (length (buffer_ptr rb)) = buffer_size rb \<and>
    uint (read_index rb) < buffer_size rb \<and> uint (write_index rb) < buffer_size rb \<and>
    (if read_mirror rb = write_mirror rb then read_index rb \<le> write_index rb else write_index rb \<le> read_index rb)"

definition rb_cap :: "rt_ringbuffer \<Rightarrow> nat" where
  "rb_cap rb = nat (buffer_size rb)"

definition rb_len :: "rt_ringbuffer \<Rightarrow> nat" where
  "rb_len rb = (if read_mirror rb = write_mirror rb then unat (write_index rb) - unat (read_index rb)
     else rb_cap rb - (unat (read_index rb) - unat (write_index rb)))"

definition rb_list :: "rt_ringbuffer \<Rightarrow> u8 list" where
  "rb_list rb = circ (rb_cap rb) (buffer_ptr rb) (unat (read_index rb)) (rb_len rb)"

lemma rb_invD:
  assumes "rb_inv rb"
  shows "0 < rb_cap rb" "rb_cap rb \<le> 0x7FFF" "length (buffer_ptr rb) = rb_cap rb" "buffer_size rb = int (rb_cap rb)"
    "unat (read_index rb) < rb_cap rb" "unat (write_index rb) < rb_cap rb" "rb_len rb \<le> rb_cap rb"
    "read_mirror rb = write_mirror rb \<Longrightarrow> unat (read_index rb) \<le> unat (write_index rb)"
    "read_mirror rb \<noteq> write_mirror rb \<Longrightarrow> unat (write_index rb) \<le> unat (read_index rb)"
proof -
  show c: "0 < rb_cap rb" "rb_cap rb \<le> 0x7FFF" "length (buffer_ptr rb) = rb_cap rb" "buffer_size rb = int (rb_cap rb)"
    using assms by (auto simp: rb_inv_def rb_cap_def)
  have "int (unat (read_index rb)) < int (rb_cap rb)" "int (unat (write_index rb)) < int (rb_cap rb)"
    using assms by (simp_all add: rb_inv_def rb_cap_def)
  then show i: "unat (read_index rb) < rb_cap rb" "unat (write_index rb) < rb_cap rb" by linarith+
  then show "rb_len rb \<le> rb_cap rb" by (auto simp: rb_len_def)
  show "unat (read_index rb) \<le> unat (write_index rb)" if "read_mirror rb = write_mirror rb"
    using assms that by (simp add: rb_inv_def word_le_nat_alt)
  show "unat (write_index rb) \<le> unat (read_index rb)" if "read_mirror rb \<noteq> write_mirror rb"
    using assms that by (simp add: rb_inv_def word_le_nat_alt)
qed

lemma rb_invI:
  assumes "0 < c" "c \<le> 0x7FFF" "length (buffer_ptr rb) = c" "buffer_size rb = int c"
    "unat (read_index rb) < c" "unat (write_index rb) < c"
    "read_mirror rb = write_mirror rb \<Longrightarrow> unat (read_index rb) \<le> unat (write_index rb)"
    "read_mirror rb \<noteq> write_mirror rb \<Longrightarrow> unat (write_index rb) \<le> unat (read_index rb)"
  shows "rb_inv rb" "rb_cap rb = c"
proof -
  have "uint (read_index rb) < int c" "uint (write_index rb) < int c"
    using assms(5,6) by (metis of_nat_less_iff uint_nat)+
  then show "rb_inv rb" using assms by (simp add: rb_inv_def word_le_nat_alt)
  show "rb_cap rb = c" using assms by (simp add: rb_cap_def)
qed

lemma unat_word_of_nat:
  "n < 0x8000 \<Longrightarrow> unat (word_of_nat n :: u32) = n" "n < 0x8000 \<Longrightarrow> unat (word_of_nat n :: 15 word) = n"
  by (simp_all add: unsigned_of_nat take_bit_nat_eq_self)

text \<open>The length and the space that the code computes are those of the contents.\<close>

lemma data_len_ok:
  assumes inv: "rb_inv rb"
  shows "unat (rt_ringbuffer_data_len rb) = rb_len rb"
proof -
  note d = rb_invD [OF inv]
  let ?r = "unat (read_index rb)" and ?w = "unat (write_index rb)"
  have u: "uint (read_index rb) = int ?r" "uint (write_index rb) = int ?w" by simp_all
  have eq: "read_index rb = write_index rb \<longleftrightarrow> ?r = ?w" "write_index rb > read_index rb \<longleftrightarrow> ?r < ?w"
    by (simp_all add: word_unat_eq_iff word_less_nat_alt)
  consider "?r = ?w" "read_mirror rb = write_mirror rb" | "?r = ?w" "read_mirror rb \<noteq> write_mirror rb"
    | "?r < ?w" | "?w < ?r" by linarith
  then show ?thesis
  proof cases
    case 1
    then show ?thesis by (simp add: rt_ringbuffer_data_len_def rt_ringbuffer_status_def eq rb_len_def)
  next
    case 2
    then show ?thesis
      using d(2,4) by (simp add: rt_ringbuffer_data_len_def rt_ringbuffer_status_def eq rb_len_def unat_word_of_nat(1))
  next
    case 3
    then have m: "read_mirror rb = write_mirror rb" using d(9) by fastforce
    have "rt_ringbuffer_data_len rb = word_of_int (uint (write_index rb) - uint (read_index rb))"
      using 3 eq by (simp add: rt_ringbuffer_data_len_def rt_ringbuffer_status_def)
    also have "\<dots> = word_of_int (int (?w - ?r))" unfolding u using 3 by (simp only: of_nat_diff less_imp_le_nat)
    finally have "rt_ringbuffer_data_len rb = word_of_nat (?w - ?r)" by (simp only: of_int_of_nat_eq)
    then show ?thesis using m d(2,6) unat_word_of_nat(1) [of "?w - ?r"] by (simp add: rb_len_def)
  next
    case 4
    then have m: "read_mirror rb \<noteq> write_mirror rb" using d(8) by fastforce
    have "rt_ringbuffer_data_len rb = word_of_int (buffer_size rb - (uint (read_index rb) - uint (write_index rb)))"
      using 4 eq by (simp add: rt_ringbuffer_data_len_def rt_ringbuffer_status_def)
    also have "\<dots> = word_of_int (int (rb_cap rb - (?r - ?w)))"
      unfolding u d(4) using 4 d(5) by (intro arg_cong [of _ _ word_of_int]) linarith
    finally have "rt_ringbuffer_data_len rb = word_of_nat (rb_cap rb - (?r - ?w))" by (simp only: of_int_of_nat_eq)
    then show ?thesis using m d(2) unat_word_of_nat(1) [of "rb_cap rb - (?r - ?w)"] by (simp add: rb_len_def)
  qed
qed

lemma space_len_ok:
  assumes inv: "rb_inv rb"
  shows "unat (rt_ringbuffer_space_len rb) = rb_cap rb - rb_len rb"
    "unat (ucast (rt_ringbuffer_space_len rb) :: u16) = rb_cap rb - rb_len rb"
proof -
  note d = rb_invD [OF inv]
  have c: "unat (word_of_int (buffer_size rb) :: u32) = rb_cap rb" using d(2,4) unat_word_of_nat(1) [of "rb_cap rb"] by simp
  have "rt_ringbuffer_data_len rb \<le> (word_of_int (buffer_size rb) :: u32)"
    using c data_len_ok [OF inv] d(7) by (simp add: word_le_nat_alt)
  then show s: "unat (rt_ringbuffer_space_len rb) = rb_cap rb - rb_len rb"
    unfolding rt_ringbuffer_space_len_def by (simp add: unat_sub c data_len_ok [OF inv])
  have "unat (ucast (rt_ringbuffer_space_len rb) :: u16) = unat (rt_ringbuffer_space_len rb) mod 2 ^ 16"
    by (simp add: unsigned_ucast_eq take_bit_eq_mod)
  then show "unat (ucast (rt_ringbuffer_space_len rb) :: u16) = rb_cap rb - rb_len rb" using s d(2) by simp
qed

section \<open>Copying in and out\<close>

lemma block_read_nat: "a + n \<le> length ptr \<Longrightarrow> block_read ptr (int a) (int n) = Some (take n (drop a ptr))"
  by (simp add: block_read_def flip: of_nat_add)

lemma buffer_write_nat:
  "a + length xs \<le> length (buffer_ptr rb) \<Longrightarrow>
    buffer_write (int a) xs rb = Some (rb\<lparr>buffer_ptr := blit a xs (buffer_ptr rb)\<rparr>)"
  by (simp add: buffer_write_def flip: of_nat_add)

text \<open>The write index advances by \<open>n\<close> positions, and the mirror bit flips when it passes the end.\<close>

definition advance :: "nat \<Rightarrow> rt_ringbuffer \<Rightarrow> rt_ringbuffer" where
  "advance n rb =
    (let w = unat (write_index rb) + n in
     if w < rb_cap rb then rb\<lparr>write_index := word_of_nat w\<rparr>
     else rb\<lparr>write_mirror := \<not> write_mirror rb, write_index := word_of_nat (w - rb_cap rb)\<rparr>)"

lemma copy_in_ok:
  assumes inv: "rb_inv rb" and n: "n \<le> rb_cap rb" "n \<le> length ptr"
  shows "ringbuffer_copy_in ptr (int n) rb =
    Some (rb_cap rb \<le> unat (write_index rb) + n,
      advance n (rb\<lparr>buffer_ptr := circ_write (rb_cap rb) (buffer_ptr rb) (unat (write_index rb)) (take n ptr)\<rparr>))"
proof -
  obtain w where w: "unat (write_index rb) = w" "uint (write_index rb) = int w" using uint_nat by metis
  note d = rb_invD [OF inv, unfolded w(1)]
  let ?c = "rb_cap rb" and ?p = "buffer_ptr rb"
  have cap: "rb_cap (rb\<lparr>buffer_ptr := x\<rparr>) = ?c" for x by (simp add: rb_cap_def)
  show ?thesis
    unfolding w(1)
  proof (cases "w + n < ?c")
    case True
    have "ringbuffer_copy_in ptr (int n) rb = Some (False, rb\<lparr>buffer_ptr := blit w (take n ptr) ?p, write_index := word_of_nat (w + n)\<rparr>)"
      using True n(2) d(3) block_read_nat [of 0 n ptr] buffer_write_nat [of w "take n ptr" rb]
      unfolding ringbuffer_copy_in_def Let_def w(2) d(4) by (auto simp flip: of_nat_add)
    then show "ringbuffer_copy_in ptr (int n) rb = Some (?c \<le> w + n, advance n (rb\<lparr>buffer_ptr := circ_write ?c ?p w (take n ptr)\<rparr>))"
      using True n(2) d(3) blit_circ_write [of w "take n ptr" ?c ?p] by (simp add: advance_def Let_def cap w(1))
  next
    case False
    obtain m where m: "?c = w + m" using le_Suc_ex [OF less_imp_le_nat [OF d(6)]] by blast
    then have "m \<le> n" using False by linarith
    then obtain l where l: "n = m + l" using le_Suc_ex by blast
    have i: "int ?c - int w = int m" "int n - int m = int l" using m l by simp_all
    let ?xs = "take m ptr" and ?ys = "take l (drop m ptr)"
    let ?r1 = "rb\<lparr>buffer_ptr := blit w ?xs ?p\<rparr>"
    have len: "m \<le> length ptr" "m + l \<le> length ptr" "length ?xs = m" "length ?ys = l" "length ?p = w + m" "l \<le> w + m"
      using n l m d(3) by simp_all
    have r1: "block_read ptr 0 (int m) = Some ?xs" "buffer_write (int w) ?xs rb = Some ?r1"
      using block_read_nat [of 0 m ptr] buffer_write_nat [of w ?xs rb] len by simp_all
    have l1: "length (blit w ?xs ?p) = w + m" by (subst length_blit; simp only: len order_refl)
    have r2: "block_read ptr (int m) (int l) = Some ?ys"
      "buffer_write 0 ?ys ?r1 = Some (?r1\<lparr>buffer_ptr := blit 0 ?ys (blit w ?xs ?p)\<rparr>)"
      using block_read_nat [of m l ptr] buffer_write_nat [of 0 ?ys ?r1] len l1 by simp_all
    have "ringbuffer_copy_in ptr (int n) rb = Some (True, ?r1\<lparr>buffer_ptr := blit 0 ?ys (blit w ?xs ?p),
        write_mirror := \<not> write_mirror rb, write_index := word_of_nat l\<rparr>)"
      unfolding ringbuffer_copy_in_def Let_def w(2) d(4) i using r1 r2 l by simp
    moreover have "blit 0 ?ys (blit w ?xs ?p) = circ_write ?c ?p w (take n ptr)"
    proof -
      have "take n ptr = ?xs @ ?ys" unfolding l by (rule take_add)
      moreover have "blit w ?xs ?p = circ_write ?c ?p w ?xs" by (intro blit_circ_write; simp only: len m order_refl)
      moreover have "blit 0 ?ys (circ_write ?c ?p w ?xs) = circ_write ?c (circ_write ?c ?p w ?xs) 0 ?ys"
        using len(4,6) m by (intro blit_circ_write) (linarith, simp add: len)
      moreover have "(w + length ?xs) mod ?c = 0" by (simp only: len m mod_self)
      ultimately show ?thesis using circ_write_append [OF d(6), of ?p ?xs ?ys] by simp
    qed
    moreover have "w + n - ?c = l" using m l by simp
    ultimately show "ringbuffer_copy_in ptr (int n) rb = Some (?c \<le> w + n, advance n (rb\<lparr>buffer_ptr := circ_write ?c ?p w (take n ptr)\<rparr>))"
      using False by (simp add: advance_def Let_def cap w(1))
  qed
qed

text \<open>Advancing the write index over bytes that fit appends them to the contents.\<close>

lemma advance_ok:
  assumes inv: "rb_inv rb" and n: "rb_len rb + n \<le> rb_cap rb" and p: "length p = rb_cap rb"
  shows "rb_inv (advance n (rb\<lparr>buffer_ptr := p\<rparr>))" "rb_cap (advance n (rb\<lparr>buffer_ptr := p\<rparr>)) = rb_cap rb"
    "rb_len (advance n (rb\<lparr>buffer_ptr := p\<rparr>)) = rb_len rb + n"
    "rb_list (advance n (rb\<lparr>buffer_ptr := p\<rparr>)) = circ (rb_cap rb) p (unat (read_index rb)) (rb_len rb + n)"
proof -
  note d = rb_invD [OF inv]
  let ?w = "unat (write_index rb)" and ?r = "unat (read_index rb)" and ?c = "rb_cap rb"
  define rb' where "rb' = advance n (rb\<lparr>buffer_ptr := p\<rparr>)"
  have cap: "rb_cap (rb\<lparr>buffer_ptr := p\<rparr>) = ?c" by (simp add: rb_cap_def)
  have same: "read_index rb' = read_index rb" "read_mirror rb' = read_mirror rb" "buffer_ptr rb' = p" "buffer_size rb' = buffer_size rb"
    by (simp_all add: rb'_def advance_def Let_def)
  have w: "write_index rb' = (if ?w + n < ?c then word_of_nat (?w + n) else word_of_nat (?w + n - ?c))"
    "write_mirror rb' = (if ?w + n < ?c then write_mirror rb else \<not> write_mirror rb)"
    by (simp_all only: rb'_def advance_def Let_def cap split: if_splits) simp_all
  have "?w + n < 0x8000" if "?w + n < ?c" using that d(2) by simp
  moreover have "?w + n - ?c < 0x8000" using d(2,6) n by simp
  ultimately have w: "unat (write_index rb') = (if ?w + n < ?c then ?w + n else ?w + n - ?c)"
    "write_mirror rb' = (if ?w + n < ?c then write_mirror rb else \<not> write_mirror rb)"
    unfolding w by (cases "?w + n < ?c"; simp only: unat_word_of_nat(2) if_True if_False)+
  have m: "read_mirror rb = write_mirror rb \<Longrightarrow> rb_len rb = ?w - ?r" "read_mirror rb \<noteq> write_mirror rb \<Longrightarrow> rb_len rb = ?c - (?r - ?w)"
    by (simp_all add: rb_len_def)
  have wi: "unat (write_index rb') < ?c"
    "read_mirror rb' = write_mirror rb' \<Longrightarrow> ?r \<le> unat (write_index rb')"
    "read_mirror rb' \<noteq> write_mirror rb' \<Longrightarrow> unat (write_index rb') \<le> ?r"
    using w same m n d(5,6,8,9) by (auto split: if_splits)
  have "rb_inv rb'" "rb_cap rb' = ?c"
    by (rule rb_invI [of ?c]; use same wi p d in simp)+
  moreover have "rb_len rb' = rb_len rb + n"
    using w same m n d(5,6,8,9) \<open>rb_cap rb' = ?c\<close> unfolding rb_len_def [of rb'] by (auto split: if_splits)
  ultimately show "rb_inv (advance n (rb\<lparr>buffer_ptr := p\<rparr>))" "rb_cap (advance n (rb\<lparr>buffer_ptr := p\<rparr>)) = rb_cap rb"
    "rb_len (advance n (rb\<lparr>buffer_ptr := p\<rparr>)) = rb_len rb + n"
    "rb_list (advance n (rb\<lparr>buffer_ptr := p\<rparr>)) = circ (rb_cap rb) p (unat (read_index rb)) (rb_len rb + n)"
    using same by (simp_all add: rb'_def [symmetric] rb_list_def)
qed

lemma write_position:
  assumes "rb_inv rb"
  shows "unat (write_index rb) = (unat (read_index rb) + rb_len rb) mod rb_cap rb"
proof -
  note d = rb_invD [OF assms]
  show ?thesis
  proof (cases "read_mirror rb = write_mirror rb")
    case True
    then show ?thesis using d(6,8) by (simp add: rb_len_def)
  next
    case False
    then have "unat (read_index rb) + rb_len rb = unat (write_index rb) + rb_cap rb" using d(5,9) by (simp add: rb_len_def)
    then show ?thesis using d(6) by simp
  qed
qed

section \<open>Single characters\<close>

lemma rb_cap_upd [simp]:
  "rb_cap (rb\<lparr>buffer_ptr := p\<rparr>) = rb_cap rb" "rb_cap (rb\<lparr>write_index := w\<rparr>) = rb_cap rb" "rb_cap (rb\<lparr>read_index := r\<rparr>) = rb_cap rb"
  "rb_cap (rb\<lparr>write_mirror := m\<rparr>) = rb_cap rb" "rb_cap (rb\<lparr>read_mirror := m\<rparr>) = rb_cap rb"
  by (simp_all add: rb_cap_def)

lemma last_index:
  assumes "buffer_size rb = int c" "unat i < c"
  shows "uint i = buffer_size rb - 1 \<longleftrightarrow> \<not> unat i + 1 < c"
proof -
  obtain w where w: "unat i = w" "uint i = int w" using uint_nat by metis
  show ?thesis unfolding w assms(1) using assms(2) [unfolded w] by linarith
qed

lemma advance_one:
  assumes "unat (write_index rb) < rb_cap rb"
  shows "advance 1 rb = (if unat (write_index rb) + 1 < rb_cap rb then rb\<lparr>write_index := write_index rb + 1\<rparr>
    else rb\<lparr>write_mirror := \<not> write_mirror rb, write_index := 0\<rparr>)"
proof -
  have "word_of_nat (unat (write_index rb) + 1) = write_index rb + 1" by simp
  moreover have "unat (write_index rb) + 1 - rb_cap rb = 0" using assms by simp
  ultimately show ?thesis unfolding advance_def Let_def by (simp only:) simp
qed

text \<open>The store of a character at the write index.\<close>

lemma char_write:
  assumes inv: "rb_inv rb"
  shows "buffer_write (uint (write_index rb)) [ch] rb =
    Some (rb\<lparr>buffer_ptr := circ_write (rb_cap rb) (buffer_ptr rb) (unat (write_index rb)) [ch]\<rparr>)"
proof -
  note d = rb_invD [OF inv]
  obtain w where w: "unat (write_index rb) = w" "uint (write_index rb) = int w" using uint_nat by metis
  have "w + length [ch] \<le> rb_cap rb" using d(6) w by simp
  then show ?thesis
    unfolding w using buffer_write_nat [of w "[ch]" rb] blit_circ_write [of w "[ch]" "rb_cap rb" "buffer_ptr rb"] d(3)
    by (simp only:)
qed

lemma putchar_room:
  assumes inv: "rb_inv rb" and room: "rb_len rb < rb_cap rb"
  shows "\<exists>rb'. rt_ringbuffer_putchar ch rb = Some (1, rb') \<and> rb_inv rb' \<and> rb_cap rb' = rb_cap rb \<and> rb_list rb' = rb_list rb @ [ch]"
proof -
  note d = rb_invD [OF inv]
  let ?w = "unat (write_index rb)" and ?c = "rb_cap rb"
  define p where "p = circ_write ?c (buffer_ptr rb) ?w [ch]"
  have "rt_ringbuffer_space_len rb \<noteq> 0" using space_len_ok(1) [OF inv] room by force
  then have "rt_ringbuffer_putchar ch rb = Some (1, advance 1 (rb\<lparr>buffer_ptr := p\<rparr>))"
    using char_write [OF inv, of ch, folded p_def] last_index [OF d(4,6)] advance_one [of "rb\<lparr>buffer_ptr := p\<rparr>"] d(6)
    by (simp add: rt_ringbuffer_putchar_def)
  moreover have "circ ?c p (unat (read_index rb)) (rb_len rb + 1) = rb_list rb @ [ch]"
    using circ_circ_write [of "rb_len rb" "[ch]" ?c "buffer_ptr rb" "unat (read_index rb)"] room d(3) write_position [OF inv]
    by (simp add: rb_list_def p_def)
  moreover have "length p = ?c" using d(3) by (simp add: p_def)
  ultimately show ?thesis
    using advance_ok [OF inv, of 1 p] room by auto
qed

text \<open>The read index advances by \<open>n\<close> positions.\<close>

definition consume :: "nat \<Rightarrow> rt_ringbuffer \<Rightarrow> rt_ringbuffer" where
  "consume n rb =
    (let r = unat (read_index rb) + n in
     if r < rb_cap rb then rb\<lparr>read_index := word_of_nat r\<rparr>
     else rb\<lparr>read_mirror := \<not> read_mirror rb, read_index := word_of_nat (r - rb_cap rb)\<rparr>)"

lemma consume_one:
  assumes "unat (read_index rb) < rb_cap rb"
  shows "consume 1 rb = (if unat (read_index rb) + 1 < rb_cap rb then rb\<lparr>read_index := read_index rb + 1\<rparr>
    else rb\<lparr>read_mirror := \<not> read_mirror rb, read_index := 0\<rparr>)"
proof -
  have "word_of_nat (unat (read_index rb) + 1) = read_index rb + 1" by simp
  moreover have "unat (read_index rb) + 1 - rb_cap rb = 0" using assms by simp
  ultimately show ?thesis unfolding consume_def Let_def by (simp only:) simp
qed

lemma consume_ok:
  assumes inv: "rb_inv rb" and n: "n \<le> rb_len rb"
  shows "rb_inv (consume n rb)" "rb_cap (consume n rb) = rb_cap rb" "rb_list (consume n rb) = drop n (rb_list rb)"
proof -
  note d = rb_invD [OF inv]
  let ?w = "unat (write_index rb)" and ?r = "unat (read_index rb)" and ?c = "rb_cap rb"
  define rb' where "rb' = consume n rb"
  have same: "write_index rb' = write_index rb" "write_mirror rb' = write_mirror rb" "buffer_ptr rb' = buffer_ptr rb"
    "buffer_size rb' = buffer_size rb"
    by (simp_all add: rb'_def consume_def Let_def)
  have r: "read_index rb' = (if ?r + n < ?c then word_of_nat (?r + n) else word_of_nat (?r + n - ?c))"
    "read_mirror rb' = (if ?r + n < ?c then read_mirror rb else \<not> read_mirror rb)"
    by (simp_all only: rb'_def consume_def Let_def split: if_splits) simp_all
  have "?r + n < 0x8000" if "?r + n < ?c" using that d(2) by simp
  moreover have "?r + n - ?c < 0x8000" using d(2,5,7) n by simp
  ultimately have r: "unat (read_index rb') = (if ?r + n < ?c then ?r + n else ?r + n - ?c)"
    "read_mirror rb' = (if ?r + n < ?c then read_mirror rb else \<not> read_mirror rb)"
    unfolding r by (cases "?r + n < ?c"; simp only: unat_word_of_nat(2) if_True if_False)+
  have m: "read_mirror rb = write_mirror rb \<Longrightarrow> rb_len rb = ?w - ?r" "read_mirror rb \<noteq> write_mirror rb \<Longrightarrow> rb_len rb = ?c - (?r - ?w)"
    by (simp_all add: rb_len_def)
  have ri: "unat (read_index rb') < ?c"
    "read_mirror rb' = write_mirror rb' \<Longrightarrow> unat (read_index rb') \<le> ?w"
    "read_mirror rb' \<noteq> write_mirror rb' \<Longrightarrow> ?w \<le> unat (read_index rb')"
    using r same m n d(5,6,8,9) by (auto split: if_splits)
  have i: "rb_inv rb'" "rb_cap rb' = ?c"
    by (rule rb_invI [of ?c]; use same ri d in simp)+
  have l: "rb_len rb' = rb_len rb - n"
    using r same m n d(5,6,8,9) i(2) unfolding rb_len_def [of rb'] by (auto split: if_splits)
  have "unat (read_index rb') = (?r + n) mod ?c" using r(1) d(5,7) n by (auto simp: mod_if)
  moreover have "rb_list rb = circ ?c (buffer_ptr rb) ?r n @ circ ?c (buffer_ptr rb) ((?r + n) mod ?c) (rb_len rb - n)"
    unfolding rb_list_def using circ_add [of ?c "buffer_ptr rb" ?r n "rb_len rb - n"] n by simp
  ultimately have "rb_list rb' = drop n (rb_list rb)" using i(2) l same(3) by (simp add: rb_list_def [of rb'])
  then show "rb_inv (consume n rb)" "rb_cap (consume n rb) = rb_cap rb" "rb_list (consume n rb) = drop n (rb_list rb)"
    using i by (simp_all add: rb'_def)
qed

lemma length_rb_list [simp]: "length (rb_list rb) = rb_len rb"
  by (simp add: rb_list_def)

lemma getchar_some:
  assumes inv: "rb_inv rb" and l: "rb_list rb = ch # cs"
  shows "\<exists>rb'. rt_ringbuffer_getchar rb = Some (Some ch, rb') \<and> rb_inv rb' \<and> rb_cap rb' = rb_cap rb \<and> rb_list rb' = cs"
proof -
  note d = rb_invD [OF inv]
  have n: "1 \<le> rb_len rb" using length_rb_list [of rb] l by simp
  then obtain m where m: "rb_len rb = Suc m" using not0_implies_Suc [of "rb_len rb"] by auto
  then have ch: "ch = buffer_ptr rb ! unat (read_index rb)"
    using l d(5) by (simp add: rb_list_def circ_Suc)
  have "rt_ringbuffer_data_len rb \<noteq> 0" using data_len_ok [OF inv] n by force
  moreover have "\<exists>xs. buffer_read (uint (read_index rb)) 1 rb = Some xs \<and> hd xs = ch"
  proof -
    obtain r where r: "unat (read_index rb) = r" "uint (read_index rb) = int r" using uint_nat by metis
    have "r + 1 \<le> length (buffer_ptr rb)" using d(3,5) r by simp
    from block_read_nat [OF this] show ?thesis
      unfolding buffer_read_def r ch using \<open>r + 1 \<le> _\<close> by (simp add: take_Suc hd_drop_conv_nth)
  qed
  ultimately have "rt_ringbuffer_getchar rb = Some (Some ch, consume 1 rb)"
    using last_index [OF d(4,5)] consume_one [OF d(5)] by (auto simp: rt_ringbuffer_getchar_def)
  then show ?thesis using consume_ok [OF inv n] l by simp
qed

text \<open>A ring buffer is a bounded first-in-first-out store of bytes.\<close>

interpretation rb: bounded_fifo rb_inv rb_cap "\<lambda>_ _. True" rb_list
  "\<lambda>ch rb. map_option snd (rt_ringbuffer_putchar ch rb)"
  "\<lambda>rb. case rt_ringbuffer_getchar rb of Some (Some ch, rb') \<Rightarrow> Some (ch, rb') | _ \<Rightarrow> None"
proof
  show "length (rb_list rb) \<le> rb_cap rb" if "rb_inv rb" for rb using rb_invD(7) [OF that] by simp
  show "\<exists>rb'. map_option snd (rt_ringbuffer_putchar ch rb) = Some rb' \<and> rb_inv rb' \<and> rb_cap rb' = rb_cap rb \<and>
      (\<lambda>_. True) = (\<lambda>_. True) \<and> rb_list rb' = rb_list rb @ [ch]"
    if "rb_inv rb" "True" "length (rb_list rb) < rb_cap rb" for rb ch
    using putchar_room [OF that(1), of ch] that(3) by auto
  show "\<exists>rb'. (case rt_ringbuffer_getchar rb of Some (Some ch, rb') \<Rightarrow> Some (ch, rb') | _ \<Rightarrow> None) = Some (ch, rb') \<and>
      rb_inv rb' \<and> rb_cap rb' = rb_cap rb \<and> (\<lambda>_. True) = (\<lambda>_. True) \<and> rb_list rb' = cs"
    if "rb_inv rb" "rb_list rb = ch # cs" for rb ch cs
    using getchar_some [OF that] by auto
qed

section \<open>Blocks\<close>

lemma u16_min:
  fixes a b :: u16
  shows "unat (if a < b then a else b) = min (unat b) (unat a)"
  by (simp add: word_less_nat_alt min_def)

lemma unat_ucast_u16 [simp]: "unat (ucast (a :: u16) :: u32) = unat a"
  using unat_less_16 [of a] by (simp add: unsigned_ucast_eq take_bit_nat_eq_self)

lemma put_ok:
  assumes inv: "rb_inv rb" and l: "unat len \<le> length ptr"
  shows "\<exists>n rb'. rt_ringbuffer_put ptr len rb = Some (n, rb') \<and> unat n = min (unat len) (rb_cap rb - rb_len rb) \<and>
    rb_inv rb' \<and> rb_cap rb' = rb_cap rb \<and> rb_list rb' = rb_list rb @ take (unat n) ptr"
proof -
  note d = rb_invD [OF inv]
  define sz where "sz = (ucast (rt_ringbuffer_space_len rb) :: u16)"
  have sz: "unat sz = rb_cap rb - rb_len rb" unfolding sz_def by (rule space_len_ok(2) [OF inv])
  show ?thesis
  proof (cases "sz = 0")
    case True
    then show ?thesis using inv sz d(7) by (intro exI [of _ 0] exI [of _ rb]) (simp add: rt_ringbuffer_put_def sz_def)
  next
    case False
    define n where "n = (if sz < len then sz else len)"
    have n: "unat n = min (unat len) (rb_cap rb - rb_len rb)" unfolding n_def using u16_min [of sz len] sz by simp
    define p where "p = circ_write (rb_cap rb) (buffer_ptr rb) (unat (write_index rb)) (take (unat n) ptr)"
    have fit: "rb_len rb + unat n \<le> rb_cap rb" "unat n \<le> rb_cap rb" "unat n \<le> length ptr" using n l d(7) by simp_all
    have p: "length p = rb_cap rb" using d(3) by (simp add: p_def)
    have c: "rt_ringbuffer_put ptr len rb = Some (ucast n, advance (unat n) (rb\<lparr>buffer_ptr := p\<rparr>))"
      using False copy_in_ok [OF inv fit(2,3), folded p_def]
      unfolding rt_ringbuffer_put_def sz_def [symmetric] Let_def n_def [symmetric] by simp
    have "circ (rb_cap rb) p (unat (read_index rb)) (rb_len rb + unat n) = rb_list rb @ take (unat n) ptr"
      using circ_circ_write [of "rb_len rb" "take (unat n) ptr" "rb_cap rb" "buffer_ptr rb" "unat (read_index rb)"]
        fit d(3) write_position [OF inv] by (simp add: rb_list_def p_def)
    moreover have "unat (ucast n :: u32) = unat n" by simp
    ultimately show ?thesis
      using advance_ok [OF inv fit(1) p] c n by (intro exI [of _ "ucast n"] exI [of _ "advance (unat n) (rb\<lparr>buffer_ptr := p\<rparr>)"]) simp
  qed
qed

lemma consume_0: "rb_inv rb \<Longrightarrow> consume 0 rb = rb"
  using rb_invD(5) [of rb] by (simp add: consume_def Let_def)

lemma copy_out_ok:
  assumes inv: "rb_inv rb" and n: "n \<le> rb_len rb"
  shows "(if buffer_size rb - uint (read_index rb) > int n then
      do { xs \<leftarrow> buffer_read (uint (read_index rb)) (int n) rb;
           Some (xs, rb\<lparr>read_index := word_of_int (uint (read_index rb) + int n)\<rparr>) }
    else
      do { xs \<leftarrow> buffer_read (uint (read_index rb)) (buffer_size rb - uint (read_index rb)) rb;
           ys \<leftarrow> buffer_read 0 (int n - (buffer_size rb - uint (read_index rb))) rb;
           Some (xs @ ys, rb\<lparr>read_mirror := \<not> read_mirror rb,
             read_index := word_of_int (int n - (buffer_size rb - uint (read_index rb)))\<rparr>) }) =
    Some (take n (rb_list rb), consume n rb)"
proof -
  obtain r where r: "unat (read_index rb) = r" "uint (read_index rb) = int r" using uint_nat by metis
  note d = rb_invD [OF inv, unfolded r(1)]
  let ?c = "rb_cap rb" and ?p = "buffer_ptr rb"
  have t: "take n (rb_list rb) = circ ?c ?p r n" unfolding rb_list_def r by (rule take_circ [OF n])
  show ?thesis
  proof (cases "r + n < ?c")
    case True
    have "block_read ?p (int r) (int n) = Some (circ ?c ?p r n)"
      using block_read_nat [of r n ?p] circ_linear [of r n ?c ?p] True d(3) by simp
    moreover have "int ?c - int r > int n" using True by linarith
    ultimately show ?thesis
      unfolding t consume_def Let_def r d(4) buffer_read_def using True by (simp flip: of_nat_add)
  next
    case False
    obtain m where m: "?c = r + m" using le_Suc_ex [OF less_imp_le_nat [OF d(5)]] by blast
    then have "m \<le> n" using False by linarith
    then obtain l where l: "n = m + l" using le_Suc_ex by blast
    have i: "int ?c - int r = int m" "int n - int m = int l" using m l by simp_all
    have len: "length ?p = r + m" "l \<le> r + m" using d(3,7) m n l by simp_all
    have "block_read ?p (int r) (int m) = Some (circ ?c ?p r m)"
      using block_read_nat [of r m ?p] circ_linear [of r m ?c ?p] len m by simp
    moreover have "block_read ?p 0 (int l) = Some (circ ?c ?p 0 l)"
      using block_read_nat [of 0 l ?p] circ_linear [of 0 l ?c ?p] len m by simp
    moreover have "circ ?c ?p r n = circ ?c ?p r m @ circ ?c ?p 0 l"
      unfolding l using circ_add [of ?c ?p r m l] m by simp
    moreover have "r + n - ?c = l" using m l by simp
    moreover have "\<not> int m > int n" using l by simp
    ultimately show ?thesis
      unfolding t consume_def Let_def r d(4) buffer_read_def i using False by simp
  qed
qed

lemma get_ok:
  assumes inv: "rb_inv rb"
  shows "rt_ringbuffer_get len rb = Some (take (unat len) (rb_list rb), consume (min (unat len) (rb_len rb)) rb)"
proof -
  note d = rb_invD [OF inv]
  define sz where "sz = rt_ringbuffer_data_len rb"
  have sz: "unat sz = rb_len rb" unfolding sz_def by (rule data_len_ok [OF inv])
  show ?thesis
  proof (cases "sz = 0")
    case True
    then have "rb_len rb = 0" "rb_list rb = []" using sz by (simp_all add: rb_list_def)
    then show ?thesis
      using True consume_0 [OF inv] by (simp add: rt_ringbuffer_get_def sz_def)
  next
    case False
    define n where "n = (if sz < ucast len then ucast sz else len)"
    have "unat (ucast sz :: u16) = rb_len rb" using sz d(2,7) by (simp add: unsigned_ucast_eq take_bit_nat_eq_self)
    moreover have "sz < ucast len \<longleftrightarrow> rb_len rb < unat len" using sz by (simp add: word_less_nat_alt)
    ultimately have n: "unat n = min (unat len) (rb_len rb)" by (simp add: n_def min_def)
    obtain m where m: "unat n = m" "uint n = int m" using uint_nat by metis
    have "m \<le> rb_len rb" using n m(1) by simp
    then have "rt_ringbuffer_get len rb = Some (take (unat n) (rb_list rb), consume (unat n) rb)"
      using False copy_out_ok [OF inv, of m]
      unfolding rt_ringbuffer_get_def Let_def sz_def [symmetric] n_def [symmetric] m by (simp only: if_False)
    moreover have "take (min (unat len) (rb_len rb)) (rb_list rb) = take (unat len) (rb_list rb)"
      by (simp add: min_def)
    ultimately show ?thesis using n by simp
  qed
qed

section \<open>Forced writes\<close>

text \<open>Dropping the \<open>k\<close> oldest bytes and then writing \<open>n\<close> bytes that fill the buffer.\<close>

lemma overwrite_ok:
  assumes inv: "rb_inv rb" and k: "k \<le> rb_len rb" "rb_len rb - k + length xs \<le> rb_cap rb"
  defines "p \<equiv> circ_write (rb_cap rb) (buffer_ptr rb) (unat (write_index rb)) xs"
  shows "rb_inv (advance (length xs) ((consume k rb)\<lparr>buffer_ptr := p\<rparr>))"
    "rb_cap (advance (length xs) ((consume k rb)\<lparr>buffer_ptr := p\<rparr>)) = rb_cap rb"
    "rb_list (advance (length xs) ((consume k rb)\<lparr>buffer_ptr := p\<rparr>)) = drop k (rb_list rb) @ xs"
proof -
  note c = consume_ok [OF inv k(1)]
  let ?r = "consume k rb"
  have l: "rb_len ?r = rb_len rb - k" using c(3) length_rb_list [of ?r] by simp
  have same: "buffer_ptr ?r = buffer_ptr rb" "write_index ?r = write_index rb" by (simp_all add: consume_def Let_def)
  have p: "length p = rb_cap ?r" using rb_invD(3) [OF inv] c(2) by (simp add: p_def)
  have fit: "rb_len ?r + length xs \<le> rb_cap ?r" using k l c(2) by simp
  note a = advance_ok [OF c(1) fit p]
  show "rb_inv (advance (length xs) (?r\<lparr>buffer_ptr := p\<rparr>))" "rb_cap (advance (length xs) (?r\<lparr>buffer_ptr := p\<rparr>)) = rb_cap rb"
    using a c(2) by simp_all
  have "circ (rb_cap rb) p (unat (read_index ?r)) (rb_len ?r + length xs) = rb_list ?r @ xs"
    using circ_circ_write [of "rb_len ?r" xs "rb_cap rb" "buffer_ptr rb" "unat (read_index ?r)"] fit c(2) same
      write_position [OF c(1)] rb_invD(3) [OF inv] by (simp add: rb_list_def p_def)
  then show "rb_list (advance (length xs) (?r\<lparr>buffer_ptr := p\<rparr>)) = drop k (rb_list rb) @ xs" using a(4) c(2,3) by simp
qed

text \<open>The code moves the read index to the write index when it overwrites: that is dropping the oldest bytes,
  provided the mirror bits differed.\<close>

lemma overwrite_read:
  assumes inv: "rb_inv rb" and n: "n \<le> rb_cap rb" "rb_cap rb < rb_len rb + n" and m: "read_mirror rb \<noteq> write_mirror rb"
    and p: "length p = rb_cap rb"
  shows "advance n ((consume (rb_len rb + n - rb_cap rb) rb)\<lparr>buffer_ptr := p\<rparr>) =
    (let rb' = advance n (rb\<lparr>buffer_ptr := p\<rparr>) in
     if rb_cap rb \<le> unat (write_index rb) + n then rb'\<lparr>read_mirror := \<not> read_mirror rb', read_index := write_index rb'\<rparr>
     else rb'\<lparr>read_index := write_index rb'\<rparr>)"
proof -
  note d = rb_invD [OF inv]
  let ?k = "rb_len rb + n - rb_cap rb" and ?w = "unat (write_index rb)" and ?r = "unat (read_index rb)"
  have k: "?r + ?k = ?w + n" using m n d(5,6,9) by (simp add: rb_len_def)
  have c: "consume ?k rb = (if ?w + n < rb_cap rb then rb\<lparr>read_index := word_of_nat (?w + n)\<rparr>
     else rb\<lparr>read_mirror := \<not> read_mirror rb, read_index := word_of_nat (?w + n - rb_cap rb)\<rparr>)"
    unfolding consume_def Let_def k by (rule refl)
  show ?thesis
    unfolding c advance_def Let_def by (cases "?w + n < rb_cap rb") simp_all
qed

lemma put_force_ok:
  fixes len :: u16 and ptr :: "u8 list"
  assumes inv: "rb_inv rb" and l: "unat len \<le> length ptr"
  defines "xs \<equiv> drop (unat len - rb_cap rb) (take (unat len) ptr)"
  shows "\<exists>n rb'. rt_ringbuffer_put_force ptr len rb = Some (n, rb') \<and> unat n = min (unat len) (rb_cap rb) \<and> rb_inv rb' \<and>
    rb_cap rb' = rb_cap rb \<and>
    rb_list rb' = (if rb_len rb + unat n \<le> rb_cap rb then rb_list rb @ xs
      else if read_mirror rb \<noteq> write_mirror rb then drop (rb_len rb + unat n - rb_cap rb) (rb_list rb) @ xs
      else [])"
proof -
  note d = rb_invD [OF inv]
  define over where "over \<longleftrightarrow> uint len > buffer_size rb"
  define n where "n = (if over then word_of_int (buffer_size rb) else len)"
  define q where "q = (if over then drop (nat (uint len - buffer_size rb)) ptr else ptr)"
  obtain ln where ln: "unat len = ln" "uint len = int ln" using uint_nat by metis
  have ov: "over \<longleftrightarrow> rb_cap rb < ln" unfolding over_def ln d(4) by simp
  have "unat (word_of_int (int (rb_cap rb)) :: u16) = rb_cap rb"
    using d(2) by (simp add: unsigned_of_nat take_bit_nat_eq_self)
  then have n: "unat n = min ln (rb_cap rb)" unfolding n_def d(4) using ov ln(1) by (simp add: min_def)
  have q: "take (unat n) q = xs" "unat n \<le> length q" "length xs = unat n"
  proof -
    have nt: "nat (int ln - int (rb_cap rb)) = ln - rb_cap rb" by simp
    show "unat n \<le> length q" using l ov n unfolding q_def ln d(4) nt by auto
    show x: "take (unat n) q = xs"
      unfolding q_def xs_def ln d(4) nt n using ov by (auto simp: drop_take min_def)
    then show "length xs = unat n" using \<open>unat n \<le> length q\<close> by auto
  qed
  define p where "p = circ_write (rb_cap rb) (buffer_ptr rb) (unat (write_index rb)) xs"
  define rb1 where "rb1 = advance (unat n) (rb\<lparr>buffer_ptr := p\<rparr>)"
  have nc: "unat n \<le> rb_cap rb" using n by simp
  have copy: "ringbuffer_copy_in q (uint n) rb = Some (rb_cap rb \<le> unat (write_index rb) + unat n, rb1)"
    using copy_in_ok [OF inv nc q(2)] unfolding q(1) p_def [symmetric] rb1_def [symmetric] by simp
  have sp: "n > ucast (rt_ringbuffer_space_len rb) \<longleftrightarrow> rb_cap rb < rb_len rb + unat n"
    using space_len_ok(2) [OF inv] d(7) by (auto simp: word_less_nat_alt)
  define rb2 where "rb2 = (if rb_cap rb < rb_len rb + unat n then
      (if rb_cap rb \<le> unat (write_index rb) + unat n then rb1\<lparr>read_mirror := \<not> read_mirror rb1, read_index := write_index rb1\<rparr>
       else rb1\<lparr>read_index := write_index rb1\<rparr>) else rb1)"
  have res: "rt_ringbuffer_put_force ptr len rb = Some (ucast n, rb2)"
    unfolding rt_ringbuffer_put_force_def Let_def over_def [symmetric] q_def [symmetric] n_def [symmetric] sp copy
    by (simp add: rb2_def)
  have p: "length p = rb_cap rb" using d(3) by (simp add: p_def)
  have "rb_inv rb2 \<and> rb_cap rb2 = rb_cap rb \<and> rb_list rb2 = (if rb_len rb + unat n \<le> rb_cap rb then rb_list rb @ xs
      else if read_mirror rb \<noteq> write_mirror rb then drop (rb_len rb + unat n - rb_cap rb) (rb_list rb) @ xs else [])"
  proof -
    consider "rb_len rb + unat n \<le> rb_cap rb" | "rb_cap rb < rb_len rb + unat n" "read_mirror rb \<noteq> write_mirror rb"
      | "rb_cap rb < rb_len rb + unat n" "read_mirror rb = write_mirror rb" by linarith
    then show ?thesis
    proof cases
      case 1
      then show ?thesis
        using overwrite_ok [OF inv, of 0 xs] consume_0 [OF inv] q(3) by (simp add: rb2_def rb1_def p_def)
    next
      case 2
      let ?k = "rb_len rb + unat n - rb_cap rb"
      have "?k \<le> rb_len rb" "rb_len rb - ?k + length xs \<le> rb_cap rb" using 2 nc q(3) by simp_all
      note o = overwrite_ok [OF inv this, folded p_def]
      have "rb2 = advance (unat n) ((consume ?k rb)\<lparr>buffer_ptr := p\<rparr>)"
        using overwrite_read [OF inv nc 2(1,2) p] 2(1) by (simp add: rb2_def rb1_def Let_def)
      then show ?thesis using o q(3) 2 by simp
    next
      case 3
      let ?w = "unat (write_index rb)"
      have wrap: "rb_cap rb \<le> ?w + unat n" using 3 d(8) by (simp add: rb_len_def)
      have small: "?w + unat n - rb_cap rb < rb_cap rb" using d(6) nc by simp
      have "unat (word_of_nat (?w + unat n - rb_cap rb) :: 15 word) = ?w + unat n - rb_cap rb"
        using small d(2) by (intro unat_word_of_nat(2)) linarith
      then have w: "unat (write_index rb2) < rb_cap rb" "read_index rb2 = write_index rb2" "read_mirror rb2 = write_mirror rb2"
        "buffer_ptr rb2 = p" "buffer_size rb2 = buffer_size rb"
        using wrap small 3 by (simp_all only: rb2_def rb1_def advance_def Let_def if_True) simp_all
      have "rb_inv rb2" "rb_cap rb2 = rb_cap rb"
        by (rule rb_invI [of "rb_cap rb"]; use w p d in simp)+
      moreover have "rb_list rb2 = []" using w by (simp add: rb_list_def rb_len_def)
      ultimately show ?thesis using 3 by simp
    qed
  qed
  then show ?thesis using res n ln(1) by (intro exI [of _ "ucast n"] exI [of _ rb2]) simp
qed

lemma putchar_force_ok:
  assumes inv: "rb_inv rb"
  shows "\<exists>rb'. rt_ringbuffer_putchar_force ch rb = Some (1, rb') \<and> rb_inv rb' \<and> rb_cap rb' = rb_cap rb \<and>
    rb_list rb' = (if rb_len rb = rb_cap rb then tl (rb_list rb) @ [ch] else rb_list rb @ [ch])"
proof -
  note d = rb_invD [OF inv]
  define p where "p = circ_write (rb_cap rb) (buffer_ptr rb) (unat (write_index rb)) [ch]"
  have p: "length p = rb_cap rb" using d(3) by (simp add: p_def)
  define rb1 where "rb1 = advance 1 (rb\<lparr>buffer_ptr := p\<rparr>)"
  note one = advance_one [of "rb\<lparr>buffer_ptr := p\<rparr>", folded rb1_def]
  have full: "rt_ringbuffer_status rb = RT_RINGBUFFER_FULL \<longleftrightarrow> rb_len rb = rb_cap rb"
    using d(1,5,6,8,9) by (auto simp: rt_ringbuffer_status_def rb_len_def word_unat_eq_iff)
  define rb2 where "rb2 = (if rb_len rb = rb_cap rb then
      (if rb_cap rb \<le> unat (write_index rb) + 1 then rb1\<lparr>read_mirror := \<not> read_mirror rb1, read_index := write_index rb1\<rparr>
       else rb1\<lparr>read_index := write_index rb1\<rparr>) else rb1)"
  have "rt_ringbuffer_putchar_force ch rb = Some (1, rb2)"
    using char_write [OF inv, of ch, folded p_def] last_index [OF d(4,6)] one d(6) full
    by (auto simp: rt_ringbuffer_putchar_force_def rb2_def Let_def)
  moreover have "rb_inv rb2 \<and> rb_cap rb2 = rb_cap rb \<and>
    rb_list rb2 = (if rb_len rb = rb_cap rb then tl (rb_list rb) @ [ch] else rb_list rb @ [ch])"
  proof (cases "rb_len rb = rb_cap rb")
    case True
    have m: "read_mirror rb \<noteq> write_mirror rb"
    proof
      assume "read_mirror rb = write_mirror rb"
      then show False using True d(6) by (simp add: rb_len_def)
    qed
    have "rb2 = advance 1 ((consume 1 rb)\<lparr>buffer_ptr := p\<rparr>)"
      using overwrite_read [OF inv _ _ m p, of 1] True d(1) by (simp add: rb2_def rb1_def Let_def)
    then show ?thesis
      using overwrite_ok [OF inv, of 1 "[ch]", folded p_def] True d(1) by (simp add: drop_Suc)
  next
    case False
    then show ?thesis
      using overwrite_ok [OF inv, of 0 "[ch]", folded p_def] consume_0 [OF inv] d(7) by (simp add: rb2_def rb1_def)
  qed
  ultimately show ?thesis by blast
qed

section \<open>Properties\<close>

definition demo_rb :: rt_ringbuffer where
  "demo_rb = \<lparr>buffer_ptr = [0, 7, 0, 0], read_mirror = False, read_index = 1, write_mirror = False, write_index = 2,
    buffer_size = 4\<rparr>"

lemma demo_rb_facts: "rb_inv demo_rb" "rb_list demo_rb = [7]" "rb_cap demo_rb = 4" "rb_len demo_rb = 1"
  by (simp_all add: demo_rb_def rb_inv_def rb_cap_def rb_len_def rb_list_def circ_def)

text \<open>
  Characters come out of a ring buffer in the order they went in: putting single characters up to the
  capacity and getting them all gives the old contents followed by the new characters, whatever the
  positions of the indices and mirror bits are, and leaves the buffer empty.
\<close>

theorem rb_round_trip:
  assumes "rb_inv rb" "rb_len rb + length cs \<le> rb_cap rb"
  shows "\<exists>rb1 rb2. put_all (\<lambda>ch rb. map_option snd (rt_ringbuffer_putchar ch rb)) cs rb = Some rb1 \<and>
    get_all (\<lambda>rb. case rt_ringbuffer_getchar rb of Some (Some ch, rb') \<Rightarrow> Some (ch, rb') | _ \<Rightarrow> None)
      (rb_len rb + length cs) rb1 = Some (rb_list rb @ cs, rb2) \<and> rb_inv rb2 \<and> rb_list rb2 = []"
  using rb.fifo_round_trip [OF assms(1), of cs] assms(2) by simp

theorem rb_round_trip_witness:
  "\<exists>rb1 rb2. put_all (\<lambda>ch rb. map_option snd (rt_ringbuffer_putchar ch rb)) [1, 2, 3] demo_rb = Some rb1 \<and>
    get_all (\<lambda>rb. case rt_ringbuffer_getchar rb of Some (Some ch, rb') \<Rightarrow> Some (ch, rb') | _ \<Rightarrow> None)
      4 rb1 = Some ([7, 1, 2, 3], rb2) \<and> rb_list rb2 = []"
proof -
  have e: "rb_len demo_rb + length [1, 2, 3 :: u8] = 4" "rb_list demo_rb @ [1, 2, 3] = [7, 1, 2, 3]"
    by (simp_all add: demo_rb_facts)
  have h: "rb_len demo_rb + length [1, 2, 3 :: u8] \<le> rb_cap demo_rb" by (simp add: demo_rb_facts)
  show ?thesis using rb_round_trip [OF demo_rb_facts(1) h] unfolding e by blast
qed

text \<open>
  \<open>rt_ringbuffer_put\<close> appends as many bytes of the block as there is room for, in one or two copies, and
  returns their number: it equals putting the characters one by one until the buffer is full.
  No byte outside the buffer is written and none beyond the block is read.
\<close>

theorem rt_ringbuffer_put_correct:
  assumes "rb_inv rb" "unat len \<le> length ptr"
  shows "\<exists>n rb'. rt_ringbuffer_put ptr len rb = Some (n, rb') \<and> unat n = min (unat len) (rb_cap rb - rb_len rb) \<and>
    rb_inv rb' \<and> rb_list rb' = rb_list rb @ take (unat n) ptr"
  using put_ok [OF assms] by blast

theorem rt_ringbuffer_put_correct_witness:
  "\<exists>n rb'. rt_ringbuffer_put [1, 2, 3, 4] 4 demo_rb = Some (n, rb') \<and> unat n = 3 \<and> rb_inv rb' \<and> rb_list rb' = [7, 1, 2, 3]"
proof -
  obtain n rb' where "rt_ringbuffer_put [1, 2, 3, 4] 4 demo_rb = Some (n, rb')" "unat n = min (unat (4 :: u16)) (rb_cap demo_rb - rb_len demo_rb)"
      "rb_inv rb'" "rb_list rb' = rb_list demo_rb @ take (unat n) [1, 2, 3, 4]"
    using rt_ringbuffer_put_correct [OF demo_rb_facts(1), of 4 "[1, 2, 3, 4]"] by auto
  then show ?thesis by (simp add: demo_rb_facts)
qed

text \<open>
  \<open>rt_ringbuffer_get\<close> delivers the oldest bytes, as many as were asked for or as there are, in order and
  in one or two copies, and removes exactly these from the buffer.
\<close>

theorem rt_ringbuffer_get_correct:
  assumes "rb_inv rb"
  shows "\<exists>rb'. rt_ringbuffer_get len rb = Some (take (unat len) (rb_list rb), rb') \<and> rb_inv rb' \<and>
    rb_list rb' = drop (unat len) (rb_list rb)"
proof -
  have "drop (min (unat len) (rb_len rb)) (rb_list rb) = drop (unat len) (rb_list rb)" by (simp add: min_def)
  then show ?thesis using get_ok [OF assms, of len] consume_ok [OF assms, of "min (unat len) (rb_len rb)"] by simp
qed

theorem rt_ringbuffer_get_correct_witness:
  "\<exists>rb'. rt_ringbuffer_get 3 demo_rb = Some ([7], rb') \<and> rb_inv rb' \<and> rb_list rb' = []"
  using rt_ringbuffer_get_correct [OF demo_rb_facts(1), of 3] by (simp add: demo_rb_facts)

text \<open>
  \<open>rt_ringbuffer_putchar_force\<close> always stores the character, and when the buffer is full it discards exactly
  the oldest one.
\<close>

theorem rt_ringbuffer_putchar_force_correct:
  assumes "rb_inv rb"
  shows "\<exists>rb'. rt_ringbuffer_putchar_force ch rb = Some (1, rb') \<and> rb_inv rb' \<and>
    rb_list rb' = (if rb_len rb = rb_cap rb then tl (rb_list rb) @ [ch] else rb_list rb @ [ch])"
  using putchar_force_ok [OF assms] by blast

theorem rt_ringbuffer_putchar_force_correct_witness:
  "\<exists>rb'. rt_ringbuffer_putchar_force 9 demo_rb = Some (1, rb') \<and> rb_inv rb' \<and> rb_list rb' = [7, 9]"
  using rt_ringbuffer_putchar_force_correct [OF demo_rb_facts(1), of 9] by (simp add: demo_rb_facts)

text \<open>
  C32: What \<open>rt_ringbuffer_put_force\<close> does on every input. With room for the block it appends it (or its last bytes, when the block is
  longer than the buffer). Without, and with different mirror bits, it discards exactly the
  oldest bytes that the new ones displace. Without, and with equal mirror bits, it flips the read mirror as well as
  the write mirror and the buffer becomes empty: the old and the new bytes are lost.
\<close>

theorem rt_ringbuffer_put_force_behaviour:
  assumes "rb_inv rb" "unat len \<le> length ptr"
  shows "\<exists>n rb'. rt_ringbuffer_put_force ptr len rb = Some (n, rb') \<and> unat n = min (unat len) (rb_cap rb) \<and> rb_inv rb' \<and>
    (let xs = drop (unat len - rb_cap rb) (take (unat len) ptr) in
     rb_list rb' = (if rb_len rb + unat n \<le> rb_cap rb then rb_list rb @ xs
      else if read_mirror rb \<noteq> write_mirror rb then drop (rb_len rb + unat n - rb_cap rb) (rb_list rb) @ xs
      else []))"
  using put_force_ok [OF assms] unfolding Let_def by blast

theorem rt_ringbuffer_put_force_behaviour_witness:
  "\<exists>n rb'. rt_ringbuffer_put_force [1, 2, 3, 4] 4 demo_rb = Some (n, rb') \<and> unat n = 4 \<and> rb_list rb' = []"
proof -
  obtain n rb' where "rt_ringbuffer_put_force [1, 2, 3, 4] 4 demo_rb = Some (n, rb')" "unat n = min (unat (4 :: u16)) (rb_cap demo_rb)"
      "rb_list rb' = (if rb_len demo_rb + unat n \<le> rb_cap demo_rb then rb_list demo_rb @ drop (unat (4 :: u16) - rb_cap demo_rb) (take (unat (4 :: u16)) [1, 2, 3, 4])
      else if read_mirror demo_rb \<noteq> write_mirror demo_rb then drop (rb_len demo_rb + unat n - rb_cap demo_rb) (rb_list demo_rb) @
        drop (unat (4 :: u16) - rb_cap demo_rb) (take (unat (4 :: u16)) [1, 2, 3, 4]) else [])"
    using rt_ringbuffer_put_force_behaviour [OF demo_rb_facts(1), of 4 "[1, 2, 3, 4]"] unfolding Let_def by auto
  moreover have "read_mirror demo_rb = write_mirror demo_rb" by (simp add: demo_rb_def)
  ultimately show ?thesis by (simp add: demo_rb_facts)
qed

end
