(* ===== verification/Dev_Serial_Fifo.thy ===== *)
theory Dev_Serial_Fifo
  imports RT_Fifo
begin

text \<open>
  The receive side of the serial driver, \<open>components/drivers/serial/serial.c\<close>: a circular buffer that the interrupt handler (one character
  at a time, or a block written by the DMA controller) fills and \<open>rt_serial_read\<close> empties. When it is full the oldest characters
  are lost. The driver around it is in \<open>Dev_Serial\<close>.
\<close>

section \<open>Operations\<close>

record rt_serial_rx_fifo =
  rx_buffer :: "u8 list"
  rx_put :: u16
  rx_get :: u16
  rx_full :: bool

definition rx_next :: "u16 \<Rightarrow> u16 \<Rightarrow> u16" where
  "rx_next bufsz x = (if x + 1 \<ge> bufsz then 0 else x + 1)"

definition rx_store :: "u16 \<Rightarrow> u8 \<Rightarrow> rt_serial_rx_fifo \<Rightarrow> rt_serial_rx_fifo option" where
  "rx_store bufsz ch f =
    do {
      RT_ASSERT (unat (rx_put f) < length (rx_buffer f));
      let f = f\<lparr>rx_buffer := (rx_buffer f)[unat (rx_put f) := ch]\<rparr>;
      let f = f\<lparr>rx_put := rx_next bufsz (rx_put f)\<rparr>;
      Some (if rx_put f = rx_get f then f\<lparr>rx_get := rx_next bufsz (rx_get f), rx_full := True\<rparr> else f)
    }"

text \<open>The number of characters as the handler of \<open>RT_SERIAL_EVENT_RX_IND\<close> computes it for the callback.\<close>

definition rx_length :: "u16 \<Rightarrow> rt_serial_rx_fifo \<Rightarrow> int" where
  "rx_length bufsz f =
    (if rx_put f \<ge> rx_get f then uint (rx_put f) - uint (rx_get f) else uint bufsz - (uint (rx_get f) - uint (rx_put f)))"

fun serial_int_rx :: "u16 \<Rightarrow> nat \<Rightarrow> rt_serial_rx_fifo \<Rightarrow> (u8 list \<times> rt_serial_rx_fifo) option" where
  "serial_int_rx bufsz 0 f = Some ([], f)"
| "serial_int_rx bufsz (Suc len) f =
    (if rx_get f = rx_put f \<and> \<not> rx_full f then Some ([], f)
     else do {
       RT_ASSERT (unat (rx_get f) < length (rx_buffer f));
       let ch = rx_buffer f ! unat (rx_get f);
       (chs, f) \<leftarrow> serial_int_rx bufsz len (f\<lparr>rx_get := rx_next bufsz (rx_get f), rx_full := False\<rparr>);
       Some (ch # chs, f)
     })"

definition serial_fifo_calc_recved_len :: "u16 \<Rightarrow> rt_serial_rx_fifo \<Rightarrow> nat" where
  "serial_fifo_calc_recved_len bufsz f =
    (if rx_put f = rx_get f then if \<not> rx_full f then 0 else unat bufsz
     else if rx_put f > rx_get f then unat (rx_put f) - unat (rx_get f)
     else unat bufsz - (unat (rx_get f) - unat (rx_put f)))"

definition rt_dma_recv_update_get_index :: "u16 \<Rightarrow> nat \<Rightarrow> rt_serial_rx_fifo \<Rightarrow> rt_serial_rx_fifo option" where
  "rt_dma_recv_update_get_index bufsz len f =
    do {
      RT_ASSERT (len \<le> serial_fifo_calc_recved_len bufsz f);
      let f = (if rx_full f \<and> len \<noteq> 0 then f\<lparr>rx_full := False\<rparr> else f);
      let f = f\<lparr>rx_get := rx_get f + word_of_nat len\<rparr>;
      Some (if rx_get f \<ge> bufsz then f\<lparr>rx_get := rx_get f mod bufsz\<rparr> else f)
    }"

definition rt_dma_recv_update_put_index :: "u16 \<Rightarrow> nat \<Rightarrow> rt_serial_rx_fifo \<Rightarrow> rt_serial_rx_fifo" where
  "rt_dma_recv_update_put_index bufsz len f =
    (let f' = f\<lparr>rx_put := rx_put f + word_of_nat len\<rparr>;
         f = (if rx_get f \<le> rx_put f then
                if rx_put f' \<ge> bufsz then
                  let f' = f'\<lparr>rx_put := rx_put f' mod bufsz\<rparr>
                  in if rx_put f' \<ge> rx_get f' then f'\<lparr>rx_full := True\<rparr> else f'
                else f'
              else
                if rx_put f' \<ge> rx_get f' then
                  let f' = (if rx_put f' \<ge> bufsz then f'\<lparr>rx_put := rx_put f' mod bufsz\<rparr> else f')
                  in f'\<lparr>rx_full := True\<rparr>
                else f')
     in if rx_full f then f\<lparr>rx_get := rx_put f\<rparr> else f)"

text \<open>What the DMA controller does before it raises the interrupt: it writes a block from the put index on.\<close>

definition dma_write :: "u16 \<Rightarrow> u8 list \<Rightarrow> rt_serial_rx_fifo \<Rightarrow> rt_serial_rx_fifo" where
  "dma_write bufsz block f = f\<lparr>rx_buffer := circ_write (unat bufsz) (rx_buffer f) (unat (rx_put f)) block\<rparr>"

text \<open>\<open>_serial_dma_rx\<close> with a receive buffer.\<close>

definition serial_dma_rx :: "u16 \<Rightarrow> nat \<Rightarrow> rt_serial_rx_fifo \<Rightarrow> (u8 list \<times> rt_serial_rx_fifo) option" where
  "serial_dma_rx bufsz len f =
    (let fifo_recved_len = serial_fifo_calc_recved_len bufsz f;
         recv_len = (if len < fifo_recved_len then len else fifo_recved_len);
         get = unat (rx_get f);
         chs = (if get + recv_len < unat bufsz then take recv_len (drop get (rx_buffer f))
                else take (unat bufsz - get) (drop get (rx_buffer f)) @ take (recv_len + get - unat bufsz) (rx_buffer f))
     in do {
       f \<leftarrow> rt_dma_recv_update_get_index bufsz recv_len f;
       Some (chs, f)
     })"

section \<open>A store that forgets\<close>

definition keep :: "nat \<Rightarrow> 'a list \<Rightarrow> 'a list" where
  "keep n xs = drop (length xs - n) xs"

lemma keep_all: "length xs \<le> n \<Longrightarrow> keep n xs = xs"
  by (simp add: keep_def)

lemma keep_keep: "keep n (keep n xs @ ys) = keep n (xs @ ys)"
  by (cases "length xs \<le> n") (auto simp: keep_def add.commute)

text \<open>
  What the receive buffer promises in both modes: it holds the newest \<open>cap\<close> elements of what came in, in order, and reading takes the oldest of
  them. \<open>fits\<close> limits the blocks that may come in at once.
\<close>

locale lossy_fifo =
  fixes inv :: "'s \<Rightarrow> bool" and cap :: nat and contents :: "'s \<Rightarrow> 'a list" and fits :: "'a list \<Rightarrow> bool"
    and put :: "'a list \<Rightarrow> 's \<Rightarrow> 's option" and get :: "nat \<Rightarrow> 's \<Rightarrow> ('a list \<times> 's) option"
  assumes put_law: "inv s \<Longrightarrow> fits xs \<Longrightarrow> \<exists>s'. put xs s = Some s' \<and> inv s' \<and> contents s' = keep cap (contents s @ xs)"
    and get_law: "inv s \<Longrightarrow> \<exists>s'. get n s = Some (take n (contents s), s') \<and> inv s' \<and> contents s' = drop n (contents s)"
begin

lemma put_blocks:
  "inv s \<Longrightarrow> \<forall>xs\<in>set xss. fits xs \<Longrightarrow> contents s = keep cap zs \<Longrightarrow>
    \<exists>s'. put_all put xss s = Some s' \<and> inv s' \<and> contents s' = keep cap (zs @ concat xss)"
proof (induction xss arbitrary: s zs)
  case (Cons xs xss)
  obtain s1 where s1: "put xs s = Some s1" "inv s1" "contents s1 = keep cap (contents s @ xs)"
    using put_law [of s xs] Cons.prems(1,2) by auto
  have "contents s1 = keep cap (zs @ xs)" using s1(3) Cons.prems(3) by (simp add: keep_keep)
  then show ?case using Cons.IH [OF s1(2)] Cons.prems(2) s1(1) by fastforce
qed simp

text \<open>Whatever came in, in blocks of any size, reading gives the newest \<open>cap\<close> elements, and everything if that is not more.\<close>

lemma receive_read:
  assumes "inv s" "contents s = []" "\<forall>xs\<in>set xss. fits xs" "cap \<le> n"
  shows "\<exists>s1 s2. put_all put xss s = Some s1 \<and> get n s1 = Some (keep cap (concat xss), s2) \<and> inv s2 \<and> contents s2 = [] \<and>
    (length (concat xss) \<le> cap \<longrightarrow> keep cap (concat xss) = concat xss)"
proof -
  have "contents s = keep cap []" using assms(2) by (simp add: keep_def)
  then obtain s1 where s1: "put_all put xss s = Some s1" "inv s1" "contents s1 = keep cap (concat xss)"
    using put_blocks [OF assms(1,3), of "[]"] by auto
  have "length (contents s1) \<le> n" using s1(3) assms(4) by (simp add: keep_def)
  then show ?thesis using get_law [OF s1(2), of n] s1 keep_all by fastforce
qed

end

section \<open>The receive buffer\<close>

text \<open>The number of characters, and the characters from the oldest on.\<close>

definition rx_count :: "u16 \<Rightarrow> rt_serial_rx_fifo \<Rightarrow> nat" where
  "rx_count n f = (if rx_put f = rx_get f then if rx_full f then unat n else 0
    else (unat (rx_put f) + unat n - unat (rx_get f)) mod unat n)"

definition rx_list :: "u16 \<Rightarrow> rt_serial_rx_fifo \<Rightarrow> u8 list" where
  "rx_list n f = circ (unat n) (rx_buffer f) (unat (rx_get f)) (rx_count n f)"

definition rx_inv :: "u16 \<Rightarrow> rt_serial_rx_fifo \<Rightarrow> bool" where
  "rx_inv n f \<longleftrightarrow> length (rx_buffer f) = unat n \<and> rx_get f < n \<and> rx_put f < n"

lemma rx_countI:
  assumes "unat (rx_get f) < unat n" "unat (rx_put f) = (unat (rx_get f) + m) mod unat n" "m < unat n \<and> (m = 0 \<longrightarrow> \<not> rx_full f) \<or> m = unat n \<and> rx_full f"
  shows "rx_count n f = m"
proof -
  let ?g = "unat (rx_get f)" and ?p = "unat (rx_put f)" and ?n = "unat n"
  consider "m = 0" | "m = ?n" | "0 < m" "m < ?n" using assms(3) by linarith
  then show ?thesis
  proof cases
    case 1
    then have "?p = ?g" using assms(1,2) by simp
    then show ?thesis using 1 assms(1,3) by (auto simp: rx_count_def word_unat_eq_iff)
  next
    case 2
    then have "?p = ?g" using assms(1,2) by simp
    then show ?thesis using 2 assms(1,3) by (auto simp: rx_count_def word_unat_eq_iff)
  next
    case 3
    have "?p = (if ?g + m < ?n then ?g + m else ?g + m - ?n)" using 3 assms(1,2) by (auto simp: mod_if)
    then show ?thesis using 3 assms(1) by (auto simp: rx_count_def word_unat_eq_iff split: if_splits)
  qed
qed

lemma rx_countD:
  assumes "rx_inv n f"
  shows "unat (rx_put f) = (unat (rx_get f) + rx_count n f) mod unat n" "rx_count n f \<le> unat n"
    "rx_count n f = 0 \<longleftrightarrow> rx_get f = rx_put f \<and> \<not> rx_full f" "rx_count n f = unat n \<longleftrightarrow> rx_get f = rx_put f \<and> rx_full f"
proof -
  let ?g = "unat (rx_get f)" and ?p = "unat (rx_put f)" and ?n = "unat n"
  have i: "?g < ?n" "?p < ?n" using assms by (simp_all add: rx_inv_def word_less_nat_alt)
  consider "?p = ?g" | "?g < ?p" | "?p < ?g" by linarith
  then have "?p = (?g + rx_count n f) mod ?n \<and> rx_count n f \<le> ?n \<and> (rx_count n f = 0 \<longleftrightarrow> rx_get f = rx_put f \<and> \<not> rx_full f) \<and>
      (rx_count n f = ?n \<longleftrightarrow> rx_get f = rx_put f \<and> rx_full f)"
  proof cases
    case 1
    then show ?thesis using i by (auto simp: rx_count_def word_unat_eq_iff)
  next
    case 2
    then have "rx_count n f = ?p - ?g" using i by (auto simp: rx_count_def word_unat_eq_iff mod_if)
    then show ?thesis using 2 i by (auto simp: word_unat_eq_iff)
  next
    case 3
    then have "rx_count n f = ?p + ?n - ?g" using i by (auto simp: rx_count_def word_unat_eq_iff)
    then show ?thesis using 3 i by (auto simp: word_unat_eq_iff)
  qed
  then show "?p = (?g + rx_count n f) mod ?n" "rx_count n f \<le> ?n" "rx_count n f = 0 \<longleftrightarrow> rx_get f = rx_put f \<and> \<not> rx_full f"
    "rx_count n f = ?n \<longleftrightarrow> rx_get f = rx_put f \<and> rx_full f" by blast+
qed

lemma length_rx_list [simp]: "length (rx_list n f) = rx_count n f"
  by (simp add: rx_list_def)

lemma recved_len_count: "rx_inv n f \<Longrightarrow> serial_fifo_calc_recved_len n f = rx_count n f"
  by (auto simp: serial_fifo_calc_recved_len_def rx_count_def rx_inv_def word_less_nat_alt mod_if word_unat_eq_iff)

lemma unat_rx_next: "x < n \<Longrightarrow> unat (rx_next n x) = Suc (unat x) mod unat n"
proof -
  assume "x < n"
  then have x: "unat x < unat n" by (simp add: word_less_nat_alt)
  then have s: "unat (x + 1) = Suc (unat x)" using unat_less_16 [of n] by (simp add: unat_word_ariths)
  show ?thesis using x s by (cases "Suc (unat x) = unat n") (auto simp: rx_next_def word_le_nat_alt)
qed

text \<open>Storing one character: it is appended, and the oldest is lost if there are \<open>n - 1\<close> already.\<close>

lemma rx_store_ok:
  assumes inv: "rx_inv n f" and c: "rx_count n f < unat n" and n: "2 \<le> unat n"
  shows "\<exists>f'. rx_store n ch f = Some f' \<and> rx_inv n f' \<and> rx_count n f' < unat n \<and> rx_list n f' = keep (unat n - 1) (rx_list n f @ [ch])"
proof -
  let ?g = "unat (rx_get f)" and ?p = "unat (rx_put f)" and ?n = "unat n" and ?c = "rx_count n f"
  note d = rx_countD [OF inv]
  have i: "?g < ?n" "?p < ?n" "length (rx_buffer f) = ?n" "rx_put f < n" "rx_get f < n"
    using inv by (simp_all add: rx_inv_def word_less_nat_alt)
  define g where "g = f\<lparr>rx_buffer := (rx_buffer f)[?p := ch], rx_put := rx_next n (rx_put f)\<rparr>"
  define f' where "f' = (if rx_put g = rx_get g then g\<lparr>rx_get := rx_next n (rx_get g), rx_full := True\<rparr> else g)"
  have s: "rx_store n ch f = Some f'" using i by (simp add: rx_store_def f'_def g_def)
  have "rx_put f' = rx_next n (rx_put f)" by (auto simp: f'_def g_def)
  then have p: "unat (rx_put f') = (?g + Suc ?c) mod ?n" using unat_rx_next [OF i(4)] d(1) by (simp add: mod_simps)
  have snoc: "circ ?n (rx_buffer f') ?g (Suc ?c) = rx_list n f @ [ch]"
    using circ_snoc [OF c i(3), of ?g ch] d(1) by (simp add: f'_def g_def rx_list_def)
  have inv': "rx_inv n f'"
    using i unat_rx_next [OF i(4)] unat_rx_next [OF i(5)] n by (auto simp: rx_inv_def f'_def g_def word_less_nat_alt)
  show ?thesis
  proof (cases "Suc ?c = ?n")
    case True
    then have e: "rx_put g = rx_get g" using p i(1) by (simp add: f'_def g_def word_unat_eq_iff split: if_splits)
    have get: "unat (rx_get f') = Suc ?g mod ?n" using e unat_rx_next [OF i(5)] by (simp add: f'_def g_def)
    have "(Suc ?g mod ?n + ?c) mod ?n = (?g + Suc ?c) mod ?n" by (simp add: mod_simps)
    then have c': "rx_count n f' = ?c" using rx_countI [of f' n ?c] get p True n by (simp add: Suc_lessD)
    have "rx_list n f' = tl (rx_list n f @ [ch])"
      unfolding snoc [symmetric] circ_Suc using c' get by (simp add: rx_list_def)
    also have "\<dots> = keep (?n - 1) (rx_list n f @ [ch])"
    proof -
      have "length (rx_list n f @ [ch]) - (?n - 1) = Suc 0" using True by simp
      then show ?thesis by (simp only: keep_def drop_Suc drop_0)
    qed
    finally show ?thesis using s inv' c' c by auto
  next
    case False
    then have lt: "Suc ?c < ?n" using c by simp
    then have "(?g + Suc ?c) mod ?n \<noteq> (?g + 0) mod ?n" using mod_add_neq [of 0 "Suc ?c" ?n ?g] by simp
    then have "rx_put g \<noteq> rx_get g" using p i(1) by (auto simp: f'_def g_def word_unat_eq_iff split: if_splits)
    then have f'g: "f' = g" by (simp add: f'_def)
    then have get: "rx_get f' = rx_get f" by (simp add: g_def)
    have c': "rx_count n f' = Suc ?c" using rx_countI [of f' n "Suc ?c"] get p lt i(1) by simp
    have "rx_list n f' = rx_list n f @ [ch]" using snoc c' get by (simp add: rx_list_def)
    then show ?thesis using s inv' c' lt by (auto simp: keep_all)
  qed
qed

text \<open>Reading one character, in both modes.\<close>

lemma serial_int_rx_ok:
  "rx_inv n f \<Longrightarrow> 0 < unat n \<Longrightarrow> rx_count n f \<le> c \<Longrightarrow>
    \<exists>f'. serial_int_rx n k f = Some (take k (rx_list n f), f') \<and> rx_inv n f' \<and> rx_list n f' = drop k (rx_list n f) \<and> rx_count n f' \<le> c"
proof (induction k arbitrary: f)
  case 0
  then show ?case by simp
next
  case (Suc k)
  note d = rx_countD [OF Suc.prems(1)]
  let ?g = "unat (rx_get f)" and ?n = "unat n"
  have i: "?g < ?n" "length (rx_buffer f) = ?n" "rx_get f < n" using Suc.prems(1) by (simp_all add: rx_inv_def word_less_nat_alt)
  show ?case
  proof (cases "rx_count n f")
    case 0
    then have "rx_list n f = []" by (simp add: rx_list_def)
    then show ?thesis using Suc.prems d(3) 0 by simp
  next
    case (Suc m)
    define f1 where "f1 = f\<lparr>rx_get := rx_next n (rx_get f), rx_full := False\<rparr>"
    have get: "unat (rx_get f1) = Suc ?g mod ?n" using unat_rx_next [OF i(3)] by (simp add: f1_def)
    have inv1: "rx_inv n f1"
      using Suc.prems(1,2) get by (simp add: rx_inv_def f1_def word_less_nat_alt)
    have "(Suc ?g mod ?n + m) mod ?n = (?g + Suc m) mod ?n" by (simp add: mod_simps)
    then have c1: "rx_count n f1 = m"
      using rx_countI [of f1 n m] get d(1,2) Suc Suc.prems(2) by (simp add: f1_def)
    have l: "rx_list n f = rx_buffer f ! ?g # rx_list n f1"
      using circ_Suc [of ?n "rx_buffer f" ?g m] Suc c1 get i(1) by (simp add: rx_list_def f1_def)
    have "\<exists>f'. serial_int_rx n k f1 = Some (take k (rx_list n f1), f') \<and> rx_inv n f' \<and> rx_list n f' = drop k (rx_list n f1) \<and> rx_count n f' \<le> c"
      using Suc.IH [OF inv1] Suc.prems(2,3) c1 Suc by simp
    then show ?thesis using i d(3) Suc l by (auto simp: f1_def)
  qed
qed

text \<open>With interrupts the buffer of \<open>n\<close> bytes keeps \<open>n - 1\<close> characters.\<close>

interpretation int_rx: lossy_fifo "\<lambda>f. rx_inv n f \<and> 2 \<le> unat n \<and> rx_count n f < unat n" "unat n - 1" "rx_list n" "\<lambda>_. True"
  "put_all (rx_store n)" "serial_int_rx n" for n
proof
  show "\<exists>f'. put_all (rx_store n) chs f = Some f' \<and> (rx_inv n f' \<and> 2 \<le> unat n \<and> rx_count n f' < unat n) \<and>
      rx_list n f' = keep (unat n - 1) (rx_list n f @ chs)"
    if "rx_inv n f \<and> 2 \<le> unat n \<and> rx_count n f < unat n" "True" for f chs
    using that(1)
  proof (induction chs arbitrary: f)
    case Nil
    then have "length (rx_list n f) \<le> unat n - 1" by auto
    then show ?case using Nil by (simp add: keep_all)
  next
    case (Cons ch chs)
    obtain f1 where f1: "rx_store n ch f = Some f1" "rx_inv n f1" "rx_count n f1 < unat n"
        "rx_list n f1 = keep (unat n - 1) (rx_list n f @ [ch])"
      using rx_store_ok [of n f ch] Cons.prems by auto
    then obtain f2 where "put_all (rx_store n) chs f1 = Some f2" "rx_inv n f2 \<and> 2 \<le> unat n \<and> rx_count n f2 < unat n"
        "rx_list n f2 = keep (unat n - 1) (rx_list n f1 @ chs)"
      using Cons.IH [of f1] Cons.prems by auto
    then show ?case using f1 by (simp add: keep_keep)
  qed
  show "\<exists>f'. serial_int_rx n k f = Some (take k (rx_list n f), f') \<and> (rx_inv n f' \<and> 2 \<le> unat n \<and> rx_count n f' < unat n) \<and>
      rx_list n f' = drop k (rx_list n f)" if "rx_inv n f \<and> 2 \<le> unat n \<and> rx_count n f < unat n" for k f
    using serial_int_rx_ok [of n f "unat n - 1" k] that by fastforce
qed

text \<open>The put index after a block of the DMA controller, and whether the buffer is full then.\<close>

lemma dma_put_index:
  assumes inv: "rx_inv n f" "rx_full f \<longrightarrow> rx_put f = rx_get f" and l: "len \<le> unat n" "unat n \<le> 0x8000"
  shows "\<exists>g. rt_dma_recv_update_put_index n len f = g \<and> rx_buffer g = rx_buffer f \<and>
    unat (rx_put g) = (unat (rx_put f) + len) mod unat n \<and> rx_full g = (unat n \<le> rx_count n f + len) \<and>
    rx_get g = (if rx_full g then rx_put g else rx_get f)"
proof -
  let ?g = "unat (rx_get f)" and ?p = "unat (rx_put f)" and ?n = "unat n"
  have i: "?g < ?n" "?p < ?n" using inv(1) by (simp_all add: rx_inv_def word_less_nat_alt)
  have u: "unat (rx_put f + word_of_nat len) = ?p + len"
    using i l by (simp add: unat_word_ariths unsigned_of_nat take_bit_nat_eq_self)
  have m: "unat ((rx_put f + word_of_nat len) mod n) = (?p + len) mod ?n" unfolding unat_mod u ..
  have w: "(a + len) mod ?n = (if a + len < ?n then a + len else a + len - ?n)" if "a < ?n" for a using that l by (auto simp: mod_if)
  have c: "rx_count n f = (if ?p = ?g then if rx_full f then ?n else 0 else if ?g < ?p then ?p - ?g else ?p + ?n - ?g)"
    using i by (auto simp: rx_count_def word_unat_eq_iff mod_if)
  have f: "rx_full f \<longrightarrow> ?p = ?g" using inv(2) by auto
  show ?thesis
    using i l f unfolding rt_dma_recv_update_put_index_def Let_def word_le_nat_alt
    by (auto simp: u m w c)
qed

definition dma_inv :: "u16 \<Rightarrow> rt_serial_rx_fifo \<Rightarrow> bool" where
  "dma_inv n f \<longleftrightarrow> rx_inv n f \<and> 0 < unat n \<and> unat n \<le> 0x8000 \<and> (rx_full f \<longrightarrow> rx_put f = rx_get f)"

lemma dma_block_ok:
  assumes inv: "dma_inv n f" and l: "length block \<le> unat n"
  shows "\<exists>f'. rt_dma_recv_update_put_index n (length block) (dma_write n block f) = f' \<and> serial_fifo_calc_recved_len n f' = length (rx_list n f') \<and>
    dma_inv n f' \<and> rx_list n f' = keep (unat n) (rx_list n f @ block)"
proof -
  let ?g = "unat (rx_get f)" and ?p = "unat (rx_put f)" and ?n = "unat n" and ?c = "rx_count n f" and ?l = "length block"
  have i: "rx_inv n f" "0 < ?n" "?n \<le> 0x8000" "rx_full f \<longrightarrow> rx_put f = rx_get f" using inv by (simp_all add: dma_inv_def)
  note d = rx_countD [OF i(1)]
  have len: "length (rx_buffer f) = ?n" using i(1) by (simp add: rx_inv_def)
  define g where "g = f\<lparr>rx_buffer := circ_write ?n (rx_buffer f) ?p block\<rparr>"
  have g: "rx_inv n g" "rx_full g \<longrightarrow> rx_put g = rx_get g" "rx_count n g = ?c"
    using i(1,4) by (simp_all add: g_def rx_inv_def rx_count_def)
  obtain f' where f': "rt_dma_recv_update_put_index n ?l g = f'" "rx_buffer f' = circ_write ?n (rx_buffer f) ?p block"
      "unat (rx_put f') = (?p + ?l) mod ?n" "rx_full f' = (?n \<le> ?c + ?l)" "rx_get f' = (if rx_full f' then rx_put f' else rx_get f)"
    using dma_put_index [OF g(1,2) l i(3)] g(3) by (auto simp: g_def)
  have inv': "rx_inv n f'" using i(1,2) f' len by (auto simp: rx_inv_def word_less_nat_alt)
  then have dma: "dma_inv n f'" using i(2,3) f'(5) by (simp add: dma_inv_def)
  define e where "e = ?c + ?l - ?n"
  have e: "e \<le> ?c" "?c - e + ?l \<le> ?n" using l d(2) by (auto simp: e_def)
  have pe: "((?g + e) + (?c - e)) mod ?n = ?p" using d(1) e(1) by simp
  have w: "circ ?n (rx_buffer f') (?g + e) (?c - e + ?l) = circ ?n (rx_buffer f) (?g + e) (?c - e) @ block"
    using circ_circ_write [OF e(2) len, of "?g + e"] pe f'(2) by simp
  have dr: "circ ?n (rx_buffer f) (?g + e) (?c - e) = drop e (rx_list n f)"
    using circ_add [of ?n "rx_buffer f" ?g e "?c - e"] e(1) by (simp add: rx_list_def circ_mod)
  have get: "unat (rx_get f') = (?g + e) mod ?n"
  proof (cases "?n \<le> ?c + ?l")
    case True
    have "(?p + ?l) mod ?n = (?g + ?c + ?l) mod ?n" using d(1) by (simp add: mod_simps)
    also have "?g + ?c + ?l = (?g + e) + ?n" using True by (simp add: e_def)
    finally show ?thesis using True f' by simp
  next
    case False
    then show ?thesis using f' i(1) by (simp add: e_def rx_inv_def word_less_nat_alt)
  qed
  have "?g + e + (?c - e + ?l) = ?g + ?c + ?l" using e(1) by linarith
  then have "(?g + e + (?c - e + ?l)) mod ?n = (?p + ?l) mod ?n" using d(1) by (simp only: mod_add_left_eq)
  then have put: "unat (rx_put f') = (unat (rx_get f') + (?c - e + ?l)) mod ?n" using f'(3) get by (simp only: mod_add_left_eq)
  have "?c - e + ?l < ?n \<and> (?c - e + ?l = 0 \<longrightarrow> \<not> rx_full f') \<or> ?c - e + ?l = ?n \<and> rx_full f'"
    unfolding f'(4) e_def using l i(2) d(2) by linarith
  then have c': "rx_count n f' = ?c - e + ?l" using rx_countI [OF _ put] get i(2) by simp
  have "rx_list n f' = drop e (rx_list n f) @ block" using w dr c' get by (simp add: rx_list_def circ_mod)
  also have "\<dots> = keep ?n (rx_list n f @ block)" using e(1) by (simp add: keep_def e_def)
  finally show ?thesis
    using f'(1) dma recved_len_count [OF inv'] by (simp add: dma_write_def g_def)
qed

lemma serial_dma_rx_ok:
  assumes inv: "dma_inv n f"
  shows "\<exists>f'. serial_dma_rx n k f = Some (take k (rx_list n f), f') \<and> dma_inv n f' \<and> rx_list n f' = drop k (rx_list n f)"
proof -
  let ?g = "unat (rx_get f)" and ?n = "unat n" and ?c = "rx_count n f" and ?b = "rx_buffer f"
  have i: "rx_inv n f" "0 < ?n" "?n \<le> 0x8000" "rx_full f \<longrightarrow> rx_put f = rx_get f" using inv by (simp_all add: dma_inv_def)
  note d = rx_countD [OF i(1)]
  have len: "length ?b = ?n" "?g < ?n" using i(1) by (simp_all add: rx_inv_def word_less_nat_alt)
  define r where "r = (if k < ?c then k else ?c)"
  have r: "r \<le> ?c" "take k (rx_list n f) = circ ?n ?b ?g r" "r \<le> ?n"
    using d(2) by (auto simp: r_def rx_list_def take_circ)
  have chs: "(if ?g + r < ?n then take r (drop ?g ?b) else take (?n - ?g) (drop ?g ?b) @ take (r + ?g - ?n) ?b) = circ ?n ?b ?g r"
  proof (cases "?g + r < ?n")
    case True
    then show ?thesis using circ_linear [of ?g r ?n ?b] len by simp
  next
    case False
    then have "circ ?n ?b ?g r = circ ?n ?b ?g (?n - ?g) @ circ ?n ?b ((?g + (?n - ?g)) mod ?n) (r + ?g - ?n)"
      using circ_add [of ?n ?b ?g "?n - ?g" "r + ?g - ?n"] len(2) by simp
    moreover have "circ ?n ?b ?g (?n - ?g) = take (?n - ?g) (drop ?g ?b)" using circ_linear [of ?g "?n - ?g" ?n ?b] len by simp
    moreover have "circ ?n ?b 0 (r + ?g - ?n) = take (r + ?g - ?n) ?b" using circ_linear [of 0 "r + ?g - ?n" ?n ?b] len r(3) by simp
    ultimately show ?thesis using False len(2) by simp
  qed
  have u: "unat (rx_get f + word_of_nat r) = ?g + r"
    using i(3) len(2) r(3) by (simp add: unat_word_ariths unsigned_of_nat take_bit_nat_eq_self)
  define f' where "f' = f\<lparr>rx_full := rx_full f \<and> r = 0, rx_get := (if rx_get f + word_of_nat r \<ge> n then (rx_get f + word_of_nat r) mod n
    else rx_get f + word_of_nat r)\<rparr>"
  have get: "unat (rx_get f') = (?g + r) mod ?n"
    using u by (simp add: f'_def word_le_nat_alt unat_mod)
  have upd: "rt_dma_recv_update_get_index n r f = Some f'"
    using r(1) recved_len_count [OF i(1)]
    by (auto simp: rt_dma_recv_update_get_index_def Let_def f'_def intro!: rt_serial_rx_fifo.equality)
  have inv': "rx_inv n f'" using i(1,2) get by (simp add: rx_inv_def f'_def word_less_nat_alt)
  have "(?g + r + (?c - r)) mod ?n = unat (rx_put f)" using r(1) d(1) by simp
  then have put: "unat (rx_put f') = (unat (rx_get f') + (?c - r)) mod ?n" using get by (simp add: f'_def mod_simps)
  have full: "rx_full f' \<longrightarrow> ?c = ?n \<and> r = 0" using d(4) i(4) by (auto simp: f'_def)
  have "?c - r < ?n \<and> (?c - r = 0 \<longrightarrow> \<not> rx_full f') \<or> ?c - r = ?n \<and> rx_full f'"
  proof (cases "?c - r = ?n")
    case True
    then have "r = 0" "?c = ?n" using d(2) r(1) i(2) by linarith+
    then show ?thesis using d(4) by (simp add: f'_def)
  next
    case False
    then show ?thesis using d(2) full i(2) by auto
  qed
  then have c': "rx_count n f' = ?c - r" using rx_countI [OF _ put] get i(2) by simp
  have "rx_list n f' = drop r (rx_list n f)"
    using circ_add [of ?n ?b ?g r "?c - r"] r(1) c' get by (simp add: rx_list_def f'_def)
  moreover have "drop r (rx_list n f) = drop k (rx_list n f)" by (simp add: r_def)
  moreover have "dma_inv n f'"
  proof -
    have "rx_put f' = rx_get f'" if "rx_full f'"
      using that full put get i(2) by (simp add: word_unat_eq_iff)
    then show ?thesis using inv' i(2,3) by (simp add: dma_inv_def)
  qed
  ultimately show ?thesis
    using upd chs r(2) recved_len_count [OF i(1)] by (auto simp: serial_dma_rx_def Let_def r_def [symmetric])
qed

text \<open>With DMA the buffer keeps \<open>n\<close> characters.\<close>

interpretation dma_rx: lossy_fifo "dma_inv n" "unat n" "rx_list n" "\<lambda>block. length block \<le> unat n"
  "\<lambda>block f. Some (rt_dma_recv_update_put_index n (length block) (dma_write n block f))" "serial_dma_rx n" for n
proof
  show "\<exists>f'. Some (rt_dma_recv_update_put_index n (length block) (dma_write n block f)) = Some f' \<and> dma_inv n f' \<and> rx_list n f' = keep (unat n) (rx_list n f @ block)"
    if "dma_inv n f" "length block \<le> unat n" for f block
    using dma_block_ok [OF that] by auto
qed (rule serial_dma_rx_ok)

end
