(* ===== verification/Dev_Device.thy ===== *)
theory Dev_Device
  imports RT_Idle RT_Mempool
begin

text \<open>
  The device layer, \<open>src/device.c\<close>: registration, and the calls of a driver's operations behind a count of the references. The operations of a
  driver are a record of functions, \<open>None\<close> for \<open>RT_NULL\<close>. They act on the device, the kernel and
  a state \<open>'w\<close> of the driver, and a write may suspend the caller. The object header of a device is \<open>OIpc i\<close>; callbacks are
  numbered. The locale \<open>driver\<close> states what the layer relies on and what it promises in return.
\<close>

unbundle bit_operations_syntax

section \<open>Operations\<close>

abbreviation (input) RT_EBUSY :: rt_err_t where "RT_EBUSY \<equiv> 7"

abbreviation (input) RT_DEVICE_FLAG_STANDALONE :: u16 where "RT_DEVICE_FLAG_STANDALONE \<equiv> 0x008"
abbreviation (input) RT_DEVICE_FLAG_ACTIVATED :: u16 where "RT_DEVICE_FLAG_ACTIVATED \<equiv> 0x010"
abbreviation (input) RT_DEVICE_OFLAG_CLOSE :: u16 where "RT_DEVICE_OFLAG_CLOSE \<equiv> 0x000"
abbreviation (input) RT_DEVICE_OFLAG_OPEN :: u16 where "RT_DEVICE_OFLAG_OPEN \<equiv> 0x008"
abbreviation (input) RT_DEVICE_OFLAG_MASK :: u16 where "RT_DEVICE_OFLAG_MASK \<equiv> 0xf0f"

record rt_device =
  dev_type :: int
  dev_flag :: u16
  open_flag :: u16
  ref_count :: u8
  rx_indicate :: "nat option"
  tx_complete :: "nat option"

type_synonym 'w dstate = "rt_device \<times> kernel \<times> 'w"

record ('w, 'p) rt_device_ops =
  dev_init :: "('w dstate \<Rightarrow> (rt_err_t \<times> 'w dstate) option) option"
  dev_open :: "(u16 \<Rightarrow> 'w dstate \<Rightarrow> (rt_err_t \<times> 'w dstate) option) option"
  dev_close :: "('w dstate \<Rightarrow> (rt_err_t \<times> 'w dstate) option) option"
  dev_read :: "(u32 \<Rightarrow> u32 \<Rightarrow> nat \<Rightarrow> 'w dstate \<Rightarrow> (nat \<times> u8 list \<times> 'w dstate) option) option"
  dev_write :: "(u32 \<Rightarrow> u32 \<Rightarrow> u8 list \<Rightarrow> 'w dstate \<Rightarrow> ((nat, 'p) call \<times> 'w dstate) option) option"

definition is_device :: "nat \<Rightarrow> 'w dstate \<Rightarrow> bool" where
  "is_device i s \<longleftrightarrow> rt_object_get_type (OIpc i) (fst (snd s)) = Class_Device"

definition rt_device_find :: "string \<Rightarrow> kernel \<Rightarrow> (oref option \<times> kernel) option" where
  "rt_device_find nam k = rt_object_find nam Class_Device k"

definition rt_device_register :: "nat \<Rightarrow> string \<Rightarrow> u16 \<Rightarrow> 'w dstate \<Rightarrow> (rt_err_t \<times> 'w dstate) option" where
  "rt_device_register i nam flags s =
    (case s of (d, k, w) \<Rightarrow>
       do {
         (found, k) \<leftarrow> rt_device_find nam k;
         if found \<noteq> None then Some (- RT_ERROR, d, k, w)
         else do {
           k \<leftarrow> rt_object_init (OIpc i) Class_Device nam k;
           Some (RT_EOK, d\<lparr>dev_flag := flags, ref_count := 0, open_flag := 0\<rparr>, k, w)
         }
       })"

definition rt_device_unregister :: "nat \<Rightarrow> 'w dstate \<Rightarrow> (rt_err_t \<times> 'w dstate) option" where
  "rt_device_unregister i s =
    (case s of (d, k, w) \<Rightarrow>
       do {
         RT_ASSERT (is_device i s);
         RT_ASSERT (rt_object_is_systemobject (OIpc i) k);
         Some (RT_EOK, d, rt_object_detach (OIpc i) k, w)
       })"

text \<open>\<open>sizeof(struct rt_device)\<close> is 68 in this configuration; the new structure is zero but for its type.\<close>

definition rt_device_create :: "int \<Rightarrow> u32 \<Rightarrow> heap \<Rightarrow> ((nat \<times> rt_device) option \<times> heap) option" where
  "rt_device_create ty attach_size h =
    do {
      (p, h) \<leftarrow> rt_malloc (68 + RT_ALIGN attach_size 4) h;
      Some (if p = 0 then (None, h)
        else (Some (p, \<lparr>dev_type = ty, dev_flag = 0, open_flag = 0, ref_count = 0, rx_indicate = None, tx_complete = None\<rparr>),
              data_zero (p - heap_ptr h) 68 h))
    }"

definition rt_device_destroy :: "nat \<Rightarrow> nat \<Rightarrow> kernel \<times> heap \<Rightarrow> (kernel \<times> heap) option" where
  "rt_device_destroy i p kh =
    (case kh of (k, h) \<Rightarrow>
       do {
         RT_ASSERT (rt_object_get_type (OIpc i) k = Class_Device);
         RT_ASSERT (\<not> rt_object_is_systemobject (OIpc i) k);
         let k = rt_object_detach (OIpc i) k;
         h \<leftarrow> rt_free p h;
         Some (k, h)
       })"

definition activate :: "'w dstate \<Rightarrow> 'w dstate" where
  "activate s = (case s of (d, kw) \<Rightarrow> (d\<lparr>dev_flag := dev_flag d OR RT_DEVICE_FLAG_ACTIVATED\<rparr>, kw))"

definition activated :: "'w dstate \<Rightarrow> bool" where
  "activated s \<longleftrightarrow> dev_flag (fst s) AND RT_DEVICE_FLAG_ACTIVATED \<noteq> 0"

definition rt_device_init :: "('w, 'p) rt_device_ops \<Rightarrow> 'w dstate \<Rightarrow> (rt_err_t \<times> 'w dstate) option" where
  "rt_device_init ops s =
    (case dev_init ops of
       None \<Rightarrow> Some (RT_EOK, s)
     | Some device_init \<Rightarrow>
         if activated s then Some (RT_EOK, s)
         else do {
           (result, s) \<leftarrow> device_init s;
           Some (if result \<noteq> RT_EOK then (result, s) else (result, activate s))
         })"

text \<open>\<open>rt_device_open\<close> initialises the device first, if that has not been done.\<close>

definition open_init :: "('w, 'p) rt_device_ops \<Rightarrow> 'w dstate \<Rightarrow> (rt_err_t \<times> 'w dstate) option" where
  "open_init ops s =
    (if activated s then Some (RT_EOK, s)
     else do {
       (result, s) \<leftarrow> (case dev_init ops of None \<Rightarrow> Some (RT_EOK, s) | Some device_init \<Rightarrow> device_init s);
       Some (if result \<noteq> RT_EOK then (result, s) else (result, activate s))
     })"

definition rt_device_open :: "nat \<Rightarrow> ('w, 'p) rt_device_ops \<Rightarrow> u16 \<Rightarrow> 'w dstate \<Rightarrow> (rt_err_t \<times> 'w dstate) option" where
  "rt_device_open i ops oflag s =
    do {
      RT_ASSERT (is_device i s);
      (result, s) \<leftarrow> open_init ops s;
      if result \<noteq> RT_EOK then Some (result, s)
      else if dev_flag (fst s) AND RT_DEVICE_FLAG_STANDALONE \<noteq> 0 \<and> open_flag (fst s) AND RT_DEVICE_OFLAG_OPEN \<noteq> 0 then Some (- RT_EBUSY, s)
      else do {
        (result, d, kw) \<leftarrow>
          (case dev_open ops of
             Some device_open \<Rightarrow> device_open oflag s
           | None \<Rightarrow> Some (RT_EOK, (fst s)\<lparr>open_flag := oflag AND RT_DEVICE_OFLAG_MASK\<rparr>, snd s));
        if result = RT_EOK \<or> result = - RT_ENOSYS then do {
          let d = d\<lparr>open_flag := open_flag d OR RT_DEVICE_OFLAG_OPEN, ref_count := ref_count d + 1\<rparr>;
          RT_ASSERT (ref_count d \<noteq> 0);
          Some (result, d, kw)
        }
        else Some (result, d, kw)
      }
    }"

definition rt_device_close :: "nat \<Rightarrow> ('w, 'p) rt_device_ops \<Rightarrow> 'w dstate \<Rightarrow> (rt_err_t \<times> 'w dstate) option" where
  "rt_device_close i ops s =
    (case s of (d, kw) \<Rightarrow>
       do {
         RT_ASSERT (is_device i s);
         if ref_count d = 0 then Some (- RT_ERROR, s)
         else
           let d = d\<lparr>ref_count := ref_count d - 1\<rparr>
           in if ref_count d \<noteq> 0 then Some (RT_EOK, d, kw)
              else do {
                (result, d, kw) \<leftarrow> (case dev_close ops of None \<Rightarrow> Some (RT_EOK, d, kw) | Some device_close \<Rightarrow> device_close (d, kw));
                Some (result, if result = RT_EOK \<or> result = - RT_ENOSYS then d\<lparr>open_flag := RT_DEVICE_OFLAG_CLOSE\<rparr> else d, kw)
              }
       })"

text \<open>A call that is refused returns 0 and sets the error number of the caller. A buffer is its address and, for a write, its content; a read returns
  what is stored in it, too.\<close>

definition refuse :: "rt_err_t \<Rightarrow> 'w dstate \<Rightarrow> 'w dstate" where
  "refuse e s = (case s of (d, k, w) \<Rightarrow> (d, rt_set_errno e k, w))"

definition rt_device_read ::
  "nat \<Rightarrow> ('w, 'p) rt_device_ops \<Rightarrow> u32 \<Rightarrow> u32 \<Rightarrow> nat \<Rightarrow> 'w dstate \<Rightarrow> (nat \<times> u8 list \<times> 'w dstate) option" where
  "rt_device_read i ops pos buffer len s =
    do {
      RT_ASSERT (is_device i s);
      if ref_count (fst s) = 0 then Some (0, [], refuse (- RT_ERROR) s)
      else case dev_read ops of
             Some device_read \<Rightarrow> device_read pos buffer len s
           | None \<Rightarrow> Some (0, [], refuse (- RT_ENOSYS) s)
    }"

definition rt_device_write ::
  "nat \<Rightarrow> ('w, 'p) rt_device_ops \<Rightarrow> u32 \<Rightarrow> u32 \<Rightarrow> u8 list \<Rightarrow> 'w dstate \<Rightarrow> ((nat, 'p) call \<times> 'w dstate) option" where
  "rt_device_write i ops pos buffer data s =
    do {
      RT_ASSERT (is_device i s);
      if ref_count (fst s) = 0 then Some (Returned 0, refuse (- RT_ERROR) s)
      else case dev_write ops of
             Some device_write \<Rightarrow> device_write pos buffer data s
           | None \<Rightarrow> Some (Returned 0, refuse (- RT_ENOSYS) s)
    }"

text \<open>\<open>rt_device_control\<close> with the driver's operation as an argument, whose further arguments depend on the command.\<close>

definition rt_device_control ::
  "nat \<Rightarrow> (int \<Rightarrow> 'a \<Rightarrow> 'w dstate \<Rightarrow> (rt_err_t \<times> 'w dstate) option) option \<Rightarrow> int \<Rightarrow> 'a \<Rightarrow> 'w dstate \<Rightarrow> (rt_err_t \<times> 'w dstate) option" where
  "rt_device_control i device_control cmd arg s =
    do {
      RT_ASSERT (is_device i s);
      case device_control of Some f \<Rightarrow> f cmd arg s | None \<Rightarrow> Some (- RT_ENOSYS, s)
    }"

definition rt_device_set_rx_indicate :: "nat \<Rightarrow> nat option \<Rightarrow> 'w dstate \<Rightarrow> (rt_err_t \<times> 'w dstate) option" where
  "rt_device_set_rx_indicate i rx_ind s =
    do { RT_ASSERT (is_device i s); Some (RT_EOK, (fst s)\<lparr>rx_indicate := rx_ind\<rparr>, snd s) }"

definition rt_device_set_tx_complete :: "nat \<Rightarrow> nat option \<Rightarrow> 'w dstate \<Rightarrow> (rt_err_t \<times> 'w dstate) option" where
  "rt_device_set_tx_complete i tx_done s =
    do { RT_ASSERT (is_device i s); Some (RT_EOK, (fst s)\<lparr>tx_complete := tx_done\<rparr>, snd s) }"

text \<open>A sequence of users that open the device, and one of users that close it, with the results.\<close>

fun opens :: "nat \<Rightarrow> ('w, 'p) rt_device_ops \<Rightarrow> u16 list \<Rightarrow> 'w dstate \<Rightarrow> (rt_err_t list \<times> 'w dstate) option" where
  "opens i ops [] s = Some ([], s)"
| "opens i ops (f # fs) s = do { (r, s) \<leftarrow> rt_device_open i ops f s; (rs, s) \<leftarrow> opens i ops fs s; Some (r # rs, s) }"

fun closes :: "nat \<Rightarrow> ('w, 'p) rt_device_ops \<Rightarrow> nat \<Rightarrow> 'w dstate \<Rightarrow> (rt_err_t list \<times> 'w dstate) option" where
  "closes i ops 0 s = Some ([], s)"
| "closes i ops (Suc n) s = do { (r, s) \<leftarrow> rt_device_close i ops s; (rs, s) \<leftarrow> closes i ops n s; Some (r # rs, s) }"

section \<open>What a driver promises\<close>

text \<open>
  \<open>idle\<close> and \<open>ready\<close> are the states of a driver between the last close and the next open, and while the device is open; \<open>mode\<close> are
  the flags with which it is opened, and \<open>room\<close> says that the driver gets the memory for the first open. The driver leaves the count of
  the references to the layer, and none of these depends on it.
\<close>

abbreviation standalone :: "rt_device \<Rightarrow> bool" where
  "standalone d \<equiv> dev_flag d AND RT_DEVICE_FLAG_STANDALONE \<noteq> 0"

locale driver =
  fixes i :: nat and ops :: "('w, 'p) rt_device_ops" and idle ready room :: "'w dstate \<Rightarrow> bool" and mode :: "u16 \<Rightarrow> bool"
  assumes device: "idle s \<or> ready s \<Longrightarrow> is_device i s"
    and init_law: "idle (d, kw) \<Longrightarrow> \<exists>f kw'. dev_init ops = Some f \<and> f (d, kw) = Some (RT_EOK, d, kw') \<and> idle (d, kw') \<and>
      (room (d, kw) \<longrightarrow> room (d, kw'))"
    and open_law: "mode oflag \<Longrightarrow> idle (d, kw) \<and> room (d, kw) \<or> ready (d, kw) \<Longrightarrow>
      \<exists>f d' kw'. dev_open ops = Some f \<and> f oflag (d, kw) = Some (RT_EOK, d', kw') \<and> ready (d', kw') \<and>
        ref_count d' = ref_count d \<and> dev_flag d' = dev_flag d"
    and close_law: "ready (d, kw) \<Longrightarrow> ref_count d = 0 \<Longrightarrow>
      \<exists>f d' kw'. dev_close ops = Some f \<and> f (d, kw) = Some (RT_EOK, d', kw') \<and> idle (d', kw') \<and>
        ref_count d' = 0 \<and> standalone d' = standalone d"
    and frame: "idle (d, kw) \<Longrightarrow> idle (d\<lparr>dev_flag := dev_flag d OR RT_DEVICE_FLAG_ACTIVATED\<rparr>, kw)"
      "room (d, kw) \<Longrightarrow> room (d\<lparr>dev_flag := dev_flag d OR RT_DEVICE_FLAG_ACTIVATED\<rparr>, kw)"
      "idle (d, kw) \<Longrightarrow> idle (d\<lparr>open_flag := RT_DEVICE_OFLAG_CLOSE\<rparr>, kw)"
      "ready (d, kw) \<Longrightarrow> ready (d\<lparr>open_flag := open_flag d OR RT_DEVICE_OFLAG_OPEN, ref_count := n\<rparr>, kw)"
      "ready (d, kw) \<Longrightarrow> ready (d\<lparr>ref_count := n\<rparr>, kw)"
begin

text \<open>A device is open as long as there are references, and its driver is ready then.\<close>

definition dev_inv :: "'w dstate \<Rightarrow> bool" where
  "dev_inv s \<longleftrightarrow>
    (if ref_count (fst s) = 0 then idle s \<and> open_flag (fst s) = RT_DEVICE_OFLAG_CLOSE
     else ready s \<and> activated s \<and> open_flag (fst s) AND RT_DEVICE_OFLAG_OPEN \<noteq> 0)"

lemma open_ok:
  assumes inv: "dev_inv s" and m: "mode oflag" and c: "unat (ref_count (fst s)) < 255" and r: "ref_count (fst s) = 0 \<Longrightarrow> room s"
    and alone: "ref_count (fst s) = 0 \<or> \<not> standalone (fst s)"
  shows "\<exists>s'. rt_device_open i ops oflag s = Some (RT_EOK, s') \<and> dev_inv s' \<and> ready s' \<and>
    unat (ref_count (fst s')) = Suc (unat (ref_count (fst s))) \<and> standalone (fst s') = standalone (fst s)"
proof -
  obtain d kw where s: "s = (d, kw)" by (cases s)
  have dev: "is_device i s" using inv device by (auto simp: dev_inv_def split: if_splits)
  obtain d1 kw1 where s1: "open_init ops s = Some (RT_EOK, d1, kw1)"
      and i1: "idle (d1, kw1) \<and> room (d1, kw1) \<or> ready (d1, kw1)" and act: "dev_flag d1 AND RT_DEVICE_FLAG_ACTIVATED \<noteq> 0"
      and f1: "ref_count d1 = ref_count d" "open_flag d1 = open_flag d" "standalone d1 = standalone d"
  proof (cases "activated s")
    case True
    then show thesis using that [of d kw] inv r s by (auto simp: open_init_def dev_inv_def activated_def split: if_splits)
  next
    case False
    then have z: "idle (d, kw)" "room (d, kw)" using inv r s by (auto simp: dev_inv_def split: if_splits)
    obtain f kw' where f: "dev_init ops = Some f" "f (d, kw) = Some (RT_EOK, d, kw')" "idle (d, kw')" "room (d, kw')"
      using init_law [OF z(1)] z(2) by blast
    have "(dev_flag d OR RT_DEVICE_FLAG_ACTIVATED) AND RT_DEVICE_FLAG_STANDALONE = dev_flag d AND RT_DEVICE_FLAG_STANDALONE"
      "(dev_flag d OR RT_DEVICE_FLAG_ACTIVATED) AND RT_DEVICE_FLAG_ACTIVATED = RT_DEVICE_FLAG_ACTIVATED"
      by (simp_all add: bit.conj_disj_distrib2)
    then show thesis
      using that [of "d\<lparr>dev_flag := dev_flag d OR RT_DEVICE_FLAG_ACTIVATED\<rparr>" kw'] False s f frame(1,2) by (simp add: open_init_def activate_def)
  qed
  obtain f d2 kw2 where f: "dev_open ops = Some f" "f oflag (d1, kw1) = Some (RT_EOK, d2, kw2)" "ready (d2, kw2)"
      "ref_count d2 = ref_count d1" "dev_flag d2 = dev_flag d1"
    using open_law [OF m i1] by blast
  have "\<not> (standalone d1 \<and> open_flag d1 AND RT_DEVICE_OFLAG_OPEN \<noteq> 0)"
    using alone inv s f1 by (auto simp: dev_inv_def)
  moreover have n: "ref_count d + 1 \<noteq> 0" "unat (ref_count d + 1) = Suc (unat (ref_count d))"
    using c s by (auto simp: word_unat_eq_iff unat_word_ariths)
  moreover have "(open_flag d2 OR RT_DEVICE_OFLAG_OPEN) AND RT_DEVICE_OFLAG_OPEN = RT_DEVICE_OFLAG_OPEN"
    by (simp add: bit.conj_disj_distrib2)
  ultimately show ?thesis
    using dev s1 f f1 s act frame(4) [OF f(3)]
    by (cases kw2) (simp add: rt_device_open_def dev_inv_def activated_def Let_def)
qed

text \<open>A standalone device is opened once.\<close>

lemma open_standalone:
  assumes "dev_inv s" "ref_count (fst s) \<noteq> 0" "standalone (fst s)"
  shows "rt_device_open i ops oflag s = Some (- RT_EBUSY, s)"
  using assms device by (simp add: rt_device_open_def open_init_def dev_inv_def)

lemma close_ok:
  assumes inv: "dev_inv s" and c: "ref_count (fst s) \<noteq> 0"
  shows "\<exists>s'. rt_device_close i ops s = Some (RT_EOK, s') \<and> dev_inv s' \<and> Suc (unat (ref_count (fst s'))) = unat (ref_count (fst s)) \<and>
    standalone (fst s') = standalone (fst s)"
proof -
  obtain d kw where s: "s = (d, kw)" by (cases s)
  have r: "ready (d, kw)" "is_device i s" "activated (d, kw)" "open_flag d AND RT_DEVICE_OFLAG_OPEN \<noteq> 0"
    using inv c s device by (auto simp: dev_inv_def)
  have n: "Suc (unat (ref_count d - 1)) = unat (ref_count d)"
    using c s by (simp add: unat_minus_one unat_gt_0)
  have r1: "ready (d\<lparr>ref_count := ref_count d - 1\<rparr>, kw)" by (rule frame(5) [OF r(1)])
  show ?thesis
  proof (cases "ref_count d - 1 = 0")
    case True
    then obtain f d' kw' where f: "dev_close ops = Some f" "f (d\<lparr>ref_count := ref_count d - 1\<rparr>, kw) = Some (RT_EOK, d', kw')"
        "idle (d', kw')" "ref_count d' = 0" "standalone d' = standalone d"
      using close_law [OF r1] by auto
    then show ?thesis using s r n c True frame(3) [OF f(3)] by (simp add: rt_device_close_def dev_inv_def)
  next
    case False
    then show ?thesis using s r n c r1 by (simp add: rt_device_close_def dev_inv_def activated_def)
  qed
qed

lemma close_closed:
  assumes "dev_inv s" "ref_count (fst s) = 0"
  shows "rt_device_close i ops s = Some (- RT_ERROR, s)"
  using assms device by (cases s) (simp add: rt_device_close_def dev_inv_def)

text \<open>Nested users: the device is open until the last of them has closed it.\<close>

lemma opens_ok:
  "dev_inv s \<Longrightarrow> \<forall>f\<in>set fs. mode f \<Longrightarrow> unat (ref_count (fst s)) + length fs \<le> 255 \<Longrightarrow> (ref_count (fst s) = 0 \<Longrightarrow> room s) \<Longrightarrow>
    \<not> standalone (fst s) \<or> ref_count (fst s) = 0 \<and> length fs \<le> 1 \<Longrightarrow>
    \<exists>s'. opens i ops fs s = Some (replicate (length fs) RT_EOK, s') \<and> dev_inv s' \<and> unat (ref_count (fst s')) = unat (ref_count (fst s)) + length fs"
proof (induction fs arbitrary: s)
  case (Cons f fs)
  obtain s1 where s1: "rt_device_open i ops f s = Some (RT_EOK, s1)" "dev_inv s1"
      "unat (ref_count (fst s1)) = Suc (unat (ref_count (fst s)))" "standalone (fst s1) = standalone (fst s)"
    using open_ok [OF Cons.prems(1), of f] Cons.prems(2-5) by auto
  have "ref_count (fst s1) \<noteq> 0" using s1(3) by auto
  moreover have "\<not> standalone (fst s1) \<or> fs = []" using Cons.prems(5) s1(4) by auto
  ultimately obtain s2 where "opens i ops fs s1 = Some (replicate (length fs) RT_EOK, s2)" "dev_inv s2"
      "unat (ref_count (fst s2)) = unat (ref_count (fst s1)) + length fs"
    using Cons.IH [OF s1(2)] Cons.prems(2,3) s1 by (cases fs) auto
  then show ?case using s1 by (cases s2) simp
qed simp

lemma closes_ok:
  "dev_inv s \<Longrightarrow> n \<le> unat (ref_count (fst s)) \<Longrightarrow>
    \<exists>s'. closes i ops n s = Some (replicate n RT_EOK, s') \<and> dev_inv s' \<and> unat (ref_count (fst s')) = unat (ref_count (fst s)) - n"
proof (induction n arbitrary: s)
  case (Suc n)
  then have "ref_count (fst s) \<noteq> 0" by auto
  then obtain s1 where s1: "rt_device_close i ops s = Some (RT_EOK, s1)" "dev_inv s1" "Suc (unat (ref_count (fst s1))) = unat (ref_count (fst s))"
    using close_ok [OF Suc.prems(1)] by blast
  then show ?case using Suc.IH [OF s1(2)] Suc.prems(2) by fastforce
qed simp

lemma nested_users:
  assumes "dev_inv s" "ref_count (fst s) = 0" "room s" "\<forall>f\<in>set fs. mode f" "length fs \<le> 255" "fs \<noteq> []" "\<not> standalone (fst s) \<or> length fs = 1"
  shows "\<exists>s1 s2. opens i ops fs s = Some (replicate (length fs) RT_EOK, s1) \<and> ready s1 \<and> unat (ref_count (fst s1)) = length fs \<and>
    closes i ops (length fs) s1 = Some (replicate (length fs) RT_EOK, s2) \<and> dev_inv s2 \<and> ref_count (fst s2) = 0 \<and> idle s2 \<and>
    rt_device_close i ops s2 = Some (- RT_ERROR, s2)"
proof -
  obtain s1 where s1: "opens i ops fs s = Some (replicate (length fs) RT_EOK, s1)" "dev_inv s1" "unat (ref_count (fst s1)) = length fs"
    using opens_ok [OF assms(1,4)] assms(2,3,5,7) by auto
  obtain s2 where s2: "closes i ops (length fs) s1 = Some (replicate (length fs) RT_EOK, s2)" "dev_inv s2" "unat (ref_count (fst s2)) = 0"
    using closes_ok [OF s1(2), of "length fs"] s1(3) by auto
  have z: "ref_count (fst s1) \<noteq> 0" "ref_count (fst s2) = 0" using s1(3) s2(3) assms(6) by (auto simp: word_unat_eq_iff)
  moreover have "ready s1" "idle s2" using s1(2) s2(2) z by (simp_all add: dev_inv_def)
  ultimately show ?thesis using s1 s2 close_closed [OF s2(2)] by blast
qed

end

section \<open>Registration\<close>

lemma object_find_frame:
  "rt_object_find nam ty k = Some (res, k') \<Longrightarrow> hdr k' = hdr k \<and> containers k' = containers k \<and> interrupt_nest k' = interrupt_nest k"
  by (auto simp: rt_object_find_def Let_def bind_eq_Some_conv rt_enter_critical_def sched_only_def split: option.splits if_splits dest!: exit_critical_only)

text \<open>
  A name is registered once: if a device is found under it, nothing changes; otherwise the device is registered, closed and with its flags, and is found
  under its name from then on.
\<close>

theorem rt_device_register_correct:
  assumes inv: "sched_inv k" "stacks_ok k" "not_in_interrupt k" and nam: "CHR 0x00 \<notin> set nam" and new: "OIpc i \<notin> set (containers k Class_Device)"
  shows "if lookup_name nam Class_Device k \<noteq> None
    then \<exists>k'. rt_device_register i nam flags (d, k, w) = Some (- RT_ERROR, d, k', w) \<and> containers k' = containers k \<and> hdr k' = hdr k
    else \<exists>k'. rt_device_register i nam flags (d, k, w) = Some (RT_EOK, d\<lparr>dev_flag := flags, ref_count := 0, open_flag := 0\<rparr>, k', w) \<and>
      sched_inv k' \<and> stacks_ok k' \<and> lookup_name nam Class_Device k' = Some (OIpc i) \<and> is_device i (d, k', w)"
proof -
  have c: "rt_object_get_information Class_Device = Some Class_Device" by (simp add: rt_object_get_information_def)
  obtain k1 where k1: "rt_device_find nam k = Some (lookup_name nam Class_Device k, k1)" "sched_inv k1" "stacks_ok k1"
    using object_find_ok [OF inv c, of nam] by (auto simp: rt_device_find_def)
  note f = object_find_frame [OF k1(1) [unfolded rt_device_find_def]]
  show ?thesis
  proof (cases "lookup_name nam Class_Device k")
    case (Some r)
    then show ?thesis using k1 f by (auto simp: rt_device_register_def)
  next
    case None
    obtain k2 where k2: "rt_object_init (OIpc i) Class_Device nam k1 = Some k2" "sched_inv k2" "stacks_ok k2"
        "hdr k2 = (hdr k1)(OIpc i := (hdr k1 (OIpc i))\<lparr>o_type := Class_Device OR Class_Static, o_name := rt_strncpy nam 8\<rparr>)"
        "containers k2 = (containers k1)(Class_Device := OIpc i # containers k1 Class_Device)"
      using object_init_ok [OF k1(2,3) c, of "OIpc i" nam] new f by auto
    have "lookup_name nam Class_Device k2 = Some (OIpc i)"
      using k2(4,5) rt_strncmp_copy [OF nam nam] by (simp add: lookup_name_def)
    moreover have "is_device i (d, k2, w)" using k2(4) class_static [OF c] by (simp add: is_device_def rt_object_get_type_def)
    ultimately show ?thesis using None k1(1) k2(1-3) by (simp add: rt_device_register_def)
  qed
qed

theorem rt_device_register_correct_witness:
  "\<exists>k'. rt_device_register 4 ''uart3'' 0x743 (d, demo_kernel, w) = Some (RT_EOK, d\<lparr>dev_flag := 0x743, ref_count := 0, open_flag := 0\<rparr>, k', w) \<and>
    lookup_name ''uart3'' Class_Device k' = Some (OIpc 4)"
  using rt_device_register_correct [where nam = "''uart3''" and i = 4 and flags = "0x743" and d = d and w = w, OF demo_kernel_inv demo_kernel_stacks]
  by (auto simp: not_in_interrupt_def lookup_name_def demo_kernel_def zero_kernel_def)

end
