(* ===== verification/Dev_Serial.thy ===== *)
theory Dev_Serial
  imports Dev_Serial_Fifo Dev_Device Dev_Completion Dev_Dataqueue
begin

text \<open>
  The serial driver, \<open>components/drivers/serial/serial.c\<close>, as a driver of the device layer. The structures behind \<open>serial_rx\<close> and \<open>serial_tx\<close>
  are allocations of the heap, kept with their addresses; a completion and a data queue have the number \<open>c\<close> of the device. The
  function table \<open>rt_uart_ops\<close> of the chip's driver is a parameter that acts on a state \<open>'h\<close> of the hardware. The calls of the
  callbacks are recorded. The POSIX parts are not configured.
\<close>

unbundle bit_operations_syntax

section \<open>Operations\<close>

abbreviation (input) RT_EIO :: rt_err_t where "RT_EIO \<equiv> 8"

abbreviation (input) RT_DEVICE_FLAG_SUSPENDED :: u16 where "RT_DEVICE_FLAG_SUSPENDED \<equiv> 0x020"
abbreviation (input) RT_DEVICE_FLAG_STREAM :: u16 where "RT_DEVICE_FLAG_STREAM \<equiv> 0x040"
abbreviation (input) RT_DEVICE_FLAG_INT_RX :: u16 where "RT_DEVICE_FLAG_INT_RX \<equiv> 0x100"
abbreviation (input) RT_DEVICE_FLAG_DMA_RX :: u16 where "RT_DEVICE_FLAG_DMA_RX \<equiv> 0x200"
abbreviation (input) RT_DEVICE_FLAG_INT_TX :: u16 where "RT_DEVICE_FLAG_INT_TX \<equiv> 0x400"
abbreviation (input) RT_DEVICE_FLAG_DMA_TX :: u16 where "RT_DEVICE_FLAG_DMA_TX \<equiv> 0x800"

abbreviation (input) RT_DEVICE_CTRL_RESUME :: int where "RT_DEVICE_CTRL_RESUME \<equiv> 0x01"
abbreviation (input) RT_DEVICE_CTRL_SUSPEND :: int where "RT_DEVICE_CTRL_SUSPEND \<equiv> 0x02"
abbreviation (input) RT_DEVICE_CTRL_CONFIG :: int where "RT_DEVICE_CTRL_CONFIG \<equiv> 0x03"
abbreviation (input) RT_DEVICE_CTRL_CLOSE :: int where "RT_DEVICE_CTRL_CLOSE \<equiv> 0x04"
abbreviation (input) RT_DEVICE_CTRL_SET_INT :: int where "RT_DEVICE_CTRL_SET_INT \<equiv> 0x10"
abbreviation (input) RT_DEVICE_CTRL_CLR_INT :: int where "RT_DEVICE_CTRL_CLR_INT \<equiv> 0x11"

abbreviation (input) RT_SERIAL_DMA_RX :: int where "RT_SERIAL_DMA_RX \<equiv> 0x01"
abbreviation (input) RT_SERIAL_DMA_TX :: int where "RT_SERIAL_DMA_TX \<equiv> 0x02"

record serial_configure =
  baud_rate :: u32
  data_bits :: "4 word"
  stop_bits :: "2 word"
  parity :: "2 word"
  bit_order :: "1 word"
  invert :: "1 word"
  bufsz :: u16
  reserved :: "6 word"

text \<open>\<open>RT_SERIAL_CONFIG_DEFAULT\<close>.\<close>

definition RT_SERIAL_CONFIG_DEFAULT :: serial_configure where
  "RT_SERIAL_CONFIG_DEFAULT =
    \<lparr>baud_rate = 115200, data_bits = 8, stop_bits = 0, parity = 0, bit_order = 0, invert = 0, bufsz = 64, reserved = 0\<rparr>"

datatype serial_rx_struct = Rx_Fifo rt_serial_rx_fifo | Rx_Dma bool
datatype serial_tx_struct = Tx_Fifo | Tx_Dma bool nat

record 'h serial =
  config :: serial_configure
  serial_rx :: "(nat \<times> serial_rx_struct) option"
  serial_tx :: "(nat \<times> serial_tx_struct) option"
  s_heap :: heap
  s_completions :: completions
  s_queues :: dq_state
  indications :: "(nat \<times> int) list"
  hw :: 'h

text \<open>\<open>putc\<close> and \<open>getc\<close> return an \<open>int\<close>, -1 if the character is refused or there is none.\<close>

record 'h rt_uart_ops =
  configure :: "serial_configure \<Rightarrow> 'h \<Rightarrow> rt_err_t \<times> 'h"
  control :: "int \<Rightarrow> u32 \<Rightarrow> 'h \<Rightarrow> rt_err_t \<times> 'h"
  putc :: "u8 \<Rightarrow> 'h \<Rightarrow> int \<times> 'h"
  getc :: "'h \<Rightarrow> int \<times> 'h"
  dma_transmit :: "u32 \<Rightarrow> u32 \<Rightarrow> int \<Rightarrow> 'h \<Rightarrow> 'h"

abbreviation has :: "u16 \<Rightarrow> u16 \<Rightarrow> bool" where
  "has flags f \<equiv> flags AND f \<noteq> 0"

definition call_control :: "'h rt_uart_ops \<Rightarrow> int \<Rightarrow> u16 \<Rightarrow> 'h serial \<Rightarrow> 'h serial" where
  "call_control u cmd arg w = w\<lparr>hw := snd (control u cmd (ucast arg) (hw w))\<rparr>"

definition rt_serial_init :: "'h rt_uart_ops \<Rightarrow> 'h serial dstate \<Rightarrow> (rt_err_t \<times> 'h serial dstate) option" where
  "rt_serial_init u s =
    (case s of (d, k, w) \<Rightarrow>
       let w = w\<lparr>serial_rx := None, serial_tx := None\<rparr>;
           (result, h) = configure u (config w) (hw w)
       in Some (result, d, k, w\<lparr>hw := h\<rparr>))"

text \<open>\<open>rt_malloc\<close> as it is called here: the code asserts that it succeeds.\<close>

definition serial_malloc :: "u32 \<Rightarrow> 'h serial \<Rightarrow> (nat \<times> 'h serial) option" where
  "serial_malloc n w =
    do {
      (p, h) \<leftarrow> rt_malloc n (s_heap w);
      RT_ASSERT (p \<noteq> 0);
      Some (p, w\<lparr>s_heap := h\<rparr>)
    }"

definition serial_free :: "nat \<Rightarrow> 'h serial \<Rightarrow> 'h serial option" where
  "serial_free p w = do { h \<leftarrow> rt_free p (s_heap w); Some (w\<lparr>s_heap := h\<rparr>) }"

definition empty_fifo :: "u16 \<Rightarrow> rt_serial_rx_fifo" where
  "empty_fifo n = \<lparr>rx_buffer = replicate (unat n) 0, rx_put = 0, rx_get = 0, rx_full = False\<rparr>"

definition add_flag :: "u16 \<Rightarrow> rt_device \<Rightarrow> rt_device" where
  "add_flag f d = d\<lparr>open_flag := open_flag d OR f\<rparr>"

text \<open>\<open>rt_serial_open\<close>: the structures for receiving and for sending. \<open>sizeof(struct rt_serial_rx_fifo)\<close> is 12,
  \<open>sizeof(struct rt_serial_tx_fifo)\<close> 12 and \<open>sizeof(struct rt_serial_tx_dma)\<close> 40.\<close>

definition open_rx :: "'h rt_uart_ops \<Rightarrow> u16 \<Rightarrow> rt_device \<times> 'h serial \<Rightarrow> (rt_device \<times> 'h serial) option" where
  "open_rx u oflag dw =
    (case dw of (d, w) \<Rightarrow>
       let n = bufsz (config w)
       in if serial_rx w = None then
            if has oflag RT_DEVICE_FLAG_INT_RX then
              do {
                (p, w) \<leftarrow> serial_malloc (12 + ucast n) w;
                Some (add_flag RT_DEVICE_FLAG_INT_RX d,
                  call_control u RT_DEVICE_CTRL_SET_INT RT_DEVICE_FLAG_INT_RX (w\<lparr>serial_rx := Some (p, Rx_Fifo (empty_fifo n))\<rparr>))
              }
            else if has oflag RT_DEVICE_FLAG_DMA_RX then
              do {
                w \<leftarrow> (if n = 0 then do { (p, w) \<leftarrow> serial_malloc 4 w; Some (w\<lparr>serial_rx := Some (p, Rx_Dma False)\<rparr>) }
                  else do {
                    (p, w) \<leftarrow> serial_malloc (12 + ucast n) w;
                    Some (call_control u RT_DEVICE_CTRL_CONFIG RT_DEVICE_FLAG_DMA_RX
                      (w\<lparr>serial_rx := Some (p, Rx_Fifo (empty_fifo n))\<rparr>))
                  });
                Some (add_flag RT_DEVICE_FLAG_DMA_RX d, w)
              }
            else Some (d, w\<lparr>serial_rx := None\<rparr>)
          else Some (if has oflag RT_DEVICE_FLAG_INT_RX then add_flag RT_DEVICE_FLAG_INT_RX d
            else if has oflag RT_DEVICE_FLAG_DMA_RX then add_flag RT_DEVICE_FLAG_DMA_RX d else d, w))"

text \<open>The store of the data queue, of eight items of eight bytes, is allocated by \<open>rt_data_queue_init\<close>, whose result is not used.\<close>

definition init_queue :: "nat \<Rightarrow> kernel \<times> 'h serial \<Rightarrow> (nat \<times> kernel \<times> 'h serial) option" where
  "init_queue c kw =
    (case kw of (k, w) \<Rightarrow>
       do {
         (q, h) \<leftarrow> rt_malloc 64 (s_heap w);
         (_, dqs, k) \<leftarrow> rt_data_queue_init c (if q = 0 then None else Some (replicate 8 (0, 0))) 8 4 False (s_queues w, k);
         Some (q, k, w\<lparr>s_heap := h, s_queues := dqs\<rparr>)
       })"

definition open_tx :: "nat \<Rightarrow> 'h rt_uart_ops \<Rightarrow> u16 \<Rightarrow> 'h serial dstate \<Rightarrow> 'h serial dstate option" where
  "open_tx c u oflag s =
    (case s of (d, k, w) \<Rightarrow>
       if serial_tx w = None then
         if has oflag RT_DEVICE_FLAG_INT_TX then
           do {
             (p, w) \<leftarrow> serial_malloc 12 w;
             let (cs, k) = rt_completion_init c (s_completions w, k);
             Some (add_flag RT_DEVICE_FLAG_INT_TX d, k,
               call_control u RT_DEVICE_CTRL_SET_INT RT_DEVICE_FLAG_INT_TX (w\<lparr>s_completions := cs, serial_tx := Some (p, Tx_Fifo)\<rparr>))
           }
         else if has oflag RT_DEVICE_FLAG_DMA_TX then
           do {
             (p, w) \<leftarrow> serial_malloc 40 w;
             (q, k, w) \<leftarrow> init_queue c (k, w);
             Some (add_flag RT_DEVICE_FLAG_DMA_TX d, k,
               call_control u RT_DEVICE_CTRL_CONFIG RT_DEVICE_FLAG_DMA_TX (w\<lparr>serial_tx := Some (p, Tx_Dma False q)\<rparr>))
           }
         else Some (d, k, w\<lparr>serial_tx := None\<rparr>)
       else Some (if has oflag RT_DEVICE_FLAG_INT_TX then add_flag RT_DEVICE_FLAG_INT_TX d
         else if has oflag RT_DEVICE_FLAG_DMA_TX then add_flag RT_DEVICE_FLAG_DMA_TX d else d, k, w))"

definition lacks :: "u16 \<Rightarrow> rt_device \<Rightarrow> u16 \<Rightarrow> bool" where
  "lacks oflag d f \<longleftrightarrow> has oflag f \<and> \<not> has (dev_flag d) f"

definition rt_serial_open :: "nat \<Rightarrow> 'h rt_uart_ops \<Rightarrow> u16 \<Rightarrow> 'h serial dstate \<Rightarrow> (rt_err_t \<times> 'h serial dstate) option" where
  "rt_serial_open c u oflag s =
    (case s of (d, k, w) \<Rightarrow>
       if lacks oflag d RT_DEVICE_FLAG_DMA_RX \<or> lacks oflag d RT_DEVICE_FLAG_DMA_TX \<or>
          lacks oflag d RT_DEVICE_FLAG_INT_RX \<or> lacks oflag d RT_DEVICE_FLAG_INT_TX then Some (- RT_EIO, s)
       else do {
         let stream_flag = (if has oflag RT_DEVICE_FLAG_STREAM \<or> has (open_flag d) RT_DEVICE_FLAG_STREAM then RT_DEVICE_FLAG_STREAM else 0);
         let d = d\<lparr>open_flag := oflag AND 0xff\<rparr>;
         (d, w) \<leftarrow> open_rx u oflag (d, w);
         (d, k, w) \<leftarrow> open_tx c u oflag (d, k, w);
         Some (RT_EOK, add_flag stream_flag d, k, w)
       })"

definition del_flag :: "u16 \<Rightarrow> rt_device \<Rightarrow> rt_device" where
  "del_flag f d = d\<lparr>open_flag := open_flag d AND NOT f\<rparr>"

definition close_rx :: "'h rt_uart_ops \<Rightarrow> rt_device \<times> 'h serial \<Rightarrow> (rt_device \<times> 'h serial) option" where
  "close_rx u dw =
    (case dw of (d, w) \<Rightarrow>
       if has (open_flag d) RT_DEVICE_FLAG_INT_RX then
         do {
           (p, _) \<leftarrow> serial_rx w;
           w \<leftarrow> serial_free p w;
           Some (del_flag RT_DEVICE_FLAG_INT_RX d, call_control u RT_DEVICE_CTRL_CLR_INT RT_DEVICE_FLAG_INT_RX (w\<lparr>serial_rx := None\<rparr>))
         }
       else if has (open_flag d) RT_DEVICE_FLAG_DMA_RX then
         do {
           (p, _) \<leftarrow> serial_rx w;
           w \<leftarrow> serial_free p w;
           Some (del_flag RT_DEVICE_FLAG_DMA_RX d, call_control u RT_DEVICE_CTRL_CLR_INT RT_DEVICE_FLAG_DMA_RX (w\<lparr>serial_rx := None\<rparr>))
         }
       else Some (d, w))"

text \<open>A structure of the other mode has no data queue.\<close>

definition close_tx :: "nat \<Rightarrow> 'h rt_uart_ops \<Rightarrow> 'h serial dstate \<Rightarrow> 'h serial dstate option" where
  "close_tx c u s =
    (case s of (d, k, w) \<Rightarrow>
       if has (open_flag d) RT_DEVICE_FLAG_INT_TX then
         do {
           (p, _) \<leftarrow> serial_tx w;
           w \<leftarrow> serial_free p w;
           Some (del_flag RT_DEVICE_FLAG_INT_TX d, k,
             call_control u RT_DEVICE_CTRL_CLR_INT RT_DEVICE_FLAG_INT_TX (w\<lparr>serial_tx := None\<rparr>))
         }
       else if has (open_flag d) RT_DEVICE_FLAG_DMA_TX then
         do {
           (p, tx) \<leftarrow> serial_tx w;
           q \<leftarrow> (case tx of Tx_Dma _ q \<Rightarrow> Some q | Tx_Fifo \<Rightarrow> None);
           (_, dqs, k) \<leftarrow> rt_data_queue_deinit c (s_queues w, k);
           w \<leftarrow> serial_free q (w\<lparr>s_queues := dqs\<rparr>);
           w \<leftarrow> serial_free p w;
           Some (del_flag RT_DEVICE_FLAG_DMA_TX d, k,
             call_control u RT_DEVICE_CTRL_CLR_INT RT_DEVICE_FLAG_DMA_TX (w\<lparr>serial_tx := None\<rparr>))
         }
       else Some s)"

definition rt_serial_close :: "nat \<Rightarrow> 'h rt_uart_ops \<Rightarrow> 'h serial dstate \<Rightarrow> (rt_err_t \<times> 'h serial dstate) option" where
  "rt_serial_close c u s =
    (case s of (d, k, w) \<Rightarrow>
       if ref_count d > 1 then Some (RT_EOK, s)
       else do {
         (d, w) \<leftarrow> close_rx u (d, w);
         (d, k, w) \<leftarrow> close_tx c u (d, k, w);
         Some (RT_EOK, d\<lparr>dev_flag := dev_flag d AND NOT RT_DEVICE_FLAG_ACTIVATED\<rparr>, k, call_control u RT_DEVICE_CTRL_CLOSE 0 w)
       })"

fun serial_poll_rx :: "'h rt_uart_ops \<Rightarrow> bool \<Rightarrow> nat \<Rightarrow> 'h \<Rightarrow> u8 list \<times> 'h" where
  "serial_poll_rx u stream 0 h = ([], h)"
| "serial_poll_rx u stream (Suc len) h =
    (case getc u h of (ch, h) \<Rightarrow>
       if ch = -1 then ([], h)
       else if stream \<and> ch = 10 then ([word_of_int ch], h)
       else case serial_poll_rx u stream len h of (chs, h) \<Rightarrow> (word_of_int ch # chs, h))"

text \<open>A receive without a buffer: the DMA controller gets the caller's buffer, unless it is still busy.\<close>

definition serial_dma_rx_direct :: "'h rt_uart_ops \<Rightarrow> u32 \<Rightarrow> nat \<Rightarrow> kernel \<times> 'h serial \<Rightarrow> (nat \<times> kernel \<times> 'h serial) option" where
  "serial_dma_rx_direct u buffer len kw =
    (case kw of (k, w) \<Rightarrow>
       case serial_rx w of
         Some (p, Rx_Dma act) \<Rightarrow>
           Some (if act then (0, rt_set_errno (- RT_EBUSY) k, w)
             else (len, k, w\<lparr>serial_rx := Some (p, Rx_Dma True), hw := dma_transmit u buffer (word_of_nat len) RT_SERIAL_DMA_RX (hw w)\<rparr>))
       | _ \<Rightarrow> None)"

definition rt_serial_read :: "'h rt_uart_ops \<Rightarrow> u32 \<Rightarrow> u32 \<Rightarrow> nat \<Rightarrow> 'h serial dstate \<Rightarrow> (nat \<times> u8 list \<times> 'h serial dstate) option" where
  "rt_serial_read u pos buffer len s =
    (case s of (d, k, w) \<Rightarrow>
       let n = bufsz (config w)
       in if len = 0 then Some (0, [], s)
          else if has (open_flag d) RT_DEVICE_FLAG_INT_RX then
            case serial_rx w of
              Some (p, Rx_Fifo f) \<Rightarrow>
                do { (chs, f) \<leftarrow> serial_int_rx n len f; Some (length chs, chs, d, k, w\<lparr>serial_rx := Some (p, Rx_Fifo f)\<rparr>) }
            | _ \<Rightarrow> None
          else if has (open_flag d) RT_DEVICE_FLAG_DMA_RX then
            if n = 0 then do { (m, k, w) \<leftarrow> serial_dma_rx_direct u buffer len (k, w); Some (m, [], d, k, w) }
            else case serial_rx w of
              Some (p, Rx_Fifo f) \<Rightarrow>
                do { (chs, f) \<leftarrow> serial_dma_rx n len f; Some (length chs, chs, d, k, w\<lparr>serial_rx := Some (p, Rx_Fifo f)\<rparr>) }
            | _ \<Rightarrow> None
          else
            case serial_poll_rx u (has (open_flag d) RT_DEVICE_FLAG_STREAM) len (hw w) of
              (chs, h) \<Rightarrow> Some (length chs, chs, d, k, w\<lparr>hw := h\<rparr>))"

text \<open>\<open>serial_tx_char\<close> is the body of the loops that send: a line feed is sent with a carriage return before it in stream mode. It tells whether the
  character was accepted; the polling loop does not look at it.\<close>

definition serial_tx_char :: "'h rt_uart_ops \<Rightarrow> bool \<Rightarrow> u8 \<Rightarrow> 'h \<Rightarrow> bool \<times> 'h" where
  "serial_tx_char u stream ch h =
    (case (if ch = 10 \<and> stream then putc u 13 h else (0, h)) of (r, h) \<Rightarrow>
       if r = -1 then (False, h) else case putc u ch h of (r, h) \<Rightarrow> (r \<noteq> -1, h))"

fun serial_poll_tx :: "'h rt_uart_ops \<Rightarrow> bool \<Rightarrow> u8 list \<Rightarrow> 'h \<Rightarrow> 'h" where
  "serial_poll_tx u stream [] h = h"
| "serial_poll_tx u stream (ch # data) h =
    (let h = (if ch = 10 \<and> stream then snd (putc u 13 h) else h)
     in serial_poll_tx u stream data (snd (putc u ch h)))"

text \<open>What a suspended write has to know: the number of characters in all and those not sent, or the arguments of \<open>rt_data_queue_push\<close>.\<close>

datatype tx_pending = Tx_Wait tid nat "u8 list" | Tx_Push "tid \<times> data_item \<times> u32"

definition wait_tx :: "nat \<Rightarrow> 'h serial dstate \<Rightarrow> ((rt_err_t, tid) call \<times> 'h serial dstate) option" where
  "wait_tx c s =
    (case s of (d, k, w) \<Rightarrow>
       do {
         RT_ASSERT (map_option snd (serial_tx w) = Some Tx_Fifo);
         (r, cs, k) \<leftarrow> rt_completion_wait c (-1) (s_completions w, k);
         Some (r, d, k, w\<lparr>s_completions := cs\<rparr>)
       })"

partial_function (option) serial_int_tx ::
  "nat \<Rightarrow> 'h rt_uart_ops \<Rightarrow> nat \<Rightarrow> u8 list \<Rightarrow> 'h serial dstate \<Rightarrow> ((nat, tx_pending) call \<times> 'h serial dstate) option" where
  "serial_int_tx c u len data s =
    (case s of (d, k, w) \<Rightarrow>
       case data of
         [] \<Rightarrow> Some (Returned len, s)
       | ch # rest \<Rightarrow>
           (case serial_tx_char u (has (open_flag d) RT_DEVICE_FLAG_STREAM) ch (hw w) of (ok, h) \<Rightarrow>
              if ok then serial_int_tx c u len rest (d, k, w\<lparr>hw := h\<rparr>)
              else do {
                (r, s) \<leftarrow> wait_tx c (d, k, w\<lparr>hw := h\<rparr>);
                (case r of Suspended t \<Rightarrow> Some (Suspended (Tx_Wait t len data), s) | Returned _ \<Rightarrow> serial_int_tx c u len data s)
              }))"

text \<open>\<open>_serial_dma_tx\<close>: the buffer is queued, and the transfer of this buffer is started unless one is running. Interrupts are enabled between the
  two.\<close>

definition dma_tx_start :: "'h rt_uart_ops \<Rightarrow> u32 \<Rightarrow> u32 \<Rightarrow> 'h serial \<Rightarrow> 'h serial option" where
  "dma_tx_start u buffer len w =
    (case serial_tx w of
       Some (p, Tx_Dma act q) \<Rightarrow>
         Some (if act then w
           else w\<lparr>serial_tx := Some (p, Tx_Dma True q), hw := dma_transmit u buffer len RT_SERIAL_DMA_TX (hw w)\<rparr>)
     | _ \<Rightarrow> None)"

definition dma_tx_pushed ::
  "'h rt_uart_ops \<Rightarrow> data_item \<Rightarrow> (rt_err_t, tid \<times> data_item \<times> u32) call \<times> 'h serial dstate \<Rightarrow>
    ((nat, tx_pending) call \<times> 'h serial dstate) option" where
  "dma_tx_pushed u x rs =
    (case rs of (r, d, k, w) \<Rightarrow>
       case r of
         Suspended p \<Rightarrow> Some (Suspended (Tx_Push p), d, k, w)
       | Returned result \<Rightarrow>
           if result = RT_EOK then do { w \<leftarrow> dma_tx_start u (fst x) (snd x) w; Some (Returned (unat (snd x)), d, k, w) }
           else Some (Returned 0, d, rt_set_errno result k, w))"

definition serial_dma_tx ::
  "nat \<Rightarrow> 'h rt_uart_ops \<Rightarrow> u32 \<Rightarrow> u32 \<Rightarrow> 'h serial dstate \<Rightarrow> ((nat, tx_pending) call \<times> 'h serial dstate) option" where
  "serial_dma_tx c u buffer len s =
    (case s of (d, k, w) \<Rightarrow>
       do {
         (r, dqs, k) \<leftarrow> rt_data_queue_push c (buffer, len) (-1) (s_queues w, k);
         dma_tx_pushed u (buffer, len) (r, d, k, w\<lparr>s_queues := dqs\<rparr>)
       })"

definition rt_serial_write ::
  "nat \<Rightarrow> 'h rt_uart_ops \<Rightarrow> u32 \<Rightarrow> u32 \<Rightarrow> u8 list \<Rightarrow> 'h serial dstate \<Rightarrow> ((nat, tx_pending) call \<times> 'h serial dstate) option" where
  "rt_serial_write c u pos buffer data s =
    (case s of (d, k, w) \<Rightarrow>
       if data = [] then Some (Returned 0, s)
       else if has (open_flag d) RT_DEVICE_FLAG_INT_TX then
         do { RT_ASSERT (serial_tx w \<noteq> None); serial_int_tx c u (length data) data s }
       else if has (open_flag d) RT_DEVICE_FLAG_DMA_TX then serial_dma_tx c u buffer (word_of_nat (length data)) s
       else Some (Returned (length data), d, k, w\<lparr>hw := serial_poll_tx u (has (open_flag d) RT_DEVICE_FLAG_STREAM) data (hw w)\<rparr>))"

text \<open>A suspended write goes on when its thread runs again.\<close>

definition rt_serial_write_resumed ::
  "nat \<Rightarrow> 'h rt_uart_ops \<Rightarrow> tx_pending \<Rightarrow> 'h serial dstate \<Rightarrow> ((nat, tx_pending) call \<times> 'h serial dstate) option" where
  "rt_serial_write_resumed c u p s =
    (case s of (d, k, w) \<Rightarrow>
       case p of
         Tx_Wait t len data \<Rightarrow>
           (case rt_completion_wait_resumed c t (s_completions w, k) of (_, cs, k) \<Rightarrow>
              serial_int_tx c u len data (d, k, w\<lparr>s_completions := cs\<rparr>))
       | Tx_Push (t, x, timeout) \<Rightarrow>
           do {
             (r, dqs, k) \<leftarrow> rt_data_queue_push_resumed c (t, x, timeout) (s_queues w, k);
             dma_tx_pushed u x (r, d, k, w\<lparr>s_queues := dqs\<rparr>)
           })"

text \<open>\<open>RT_SERIAL_EVENT_RX_IND\<close>: the characters that the device holds are stored, and the callback is told how many there are, if any.\<close>

partial_function (option) isr_drain :: "'h rt_uart_ops \<Rightarrow> u16 \<Rightarrow> rt_serial_rx_fifo \<times> 'h \<Rightarrow> (rt_serial_rx_fifo \<times> 'h) option" where
  "isr_drain u n fh =
    (case fh of (f, h) \<Rightarrow>
       case getc u h of (ch, h) \<Rightarrow>
         if ch = -1 then Some (f, h) else do { f \<leftarrow> rx_store n (word_of_int ch) f; isr_drain u n (f, h) })"

definition indicate :: "nat option \<Rightarrow> int \<Rightarrow> 'h serial \<Rightarrow> 'h serial" where
  "indicate callback arg w = (case callback of None \<Rightarrow> w | Some cb \<Rightarrow> w\<lparr>indications := indications w @ [(cb, arg)]\<rparr>)"

definition isr_rx_ind :: "'h rt_uart_ops \<Rightarrow> 'h serial dstate \<Rightarrow> 'h serial dstate option" where
  "isr_rx_ind u s =
    (case s of (d, k, w) \<Rightarrow>
       case serial_rx w of
         Some (p, Rx_Fifo f) \<Rightarrow>
           do {
             let n = bufsz (config w);
             (f, h) \<leftarrow> isr_drain u n (f, hw w);
             let w = w\<lparr>serial_rx := Some (p, Rx_Fifo f), hw := h\<rparr>;
             Some (d, k, if rx_length n f \<noteq> 0 then indicate (rx_indicate d) (rx_length n f) w else w)
           }
       | _ \<Rightarrow> None)"

definition isr_tx_done :: "nat \<Rightarrow> 'h serial dstate \<Rightarrow> 'h serial dstate option" where
  "isr_tx_done c s =
    (case s of (d, k, w) \<Rightarrow>
       do {
         RT_ASSERT (map_option snd (serial_tx w) = Some Tx_Fifo);
         (cs, k) \<leftarrow> rt_completion_done c (s_completions w, k);
         Some (d, k, w\<lparr>s_completions := cs\<rparr>)
       })"

text \<open>\<open>RT_SERIAL_EVENT_TX_DMADONE\<close>: the buffer that was sent leaves the queue, and the next one is sent. Without a buffer in the queue the callback
  gets a pointer that was never set.\<close>

definition isr_tx_dmadone :: "nat \<Rightarrow> 'h rt_uart_ops \<Rightarrow> 'h serial dstate \<Rightarrow> 'h serial dstate option" where
  "isr_tx_dmadone c u s =
    (case s of (d, k, w) \<Rightarrow>
       case serial_tx w of
         Some (p, Tx_Dma _ q) \<Rightarrow>
           do {
             (r, dqs, k) \<leftarrow> rt_data_queue_pop c 0 (s_queues w, k);
             last \<leftarrow> (case r of Returned (_, x) \<Rightarrow> Some (map_option fst x) | Suspended _ \<Rightarrow> None);
             (result, data) \<leftarrow> rt_data_queue_peek (queues dqs c);
             let w = w\<lparr>s_queues := dqs\<rparr>;
             let w = (case data of
               Some (data_ptr, data_size) \<Rightarrow>
                 w\<lparr>serial_tx := Some (p, Tx_Dma True q), hw := dma_transmit u data_ptr data_size RT_SERIAL_DMA_TX (hw w)\<rparr>
             | None \<Rightarrow> w\<lparr>serial_tx := Some (p, Tx_Dma False q)\<rparr>);
             if tx_complete d = None then Some (d, k, w)
             else do { last_data_ptr \<leftarrow> last; Some (d, k, indicate (tx_complete d) (uint last_data_ptr) w) }
           }
       | _ \<Rightarrow> None)"

definition isr_rx_dmadone :: "nat \<Rightarrow> 'h serial dstate \<Rightarrow> 'h serial dstate option" where
  "isr_rx_dmadone len s =
    (case s of (d, k, w) \<Rightarrow>
       let n = bufsz (config w)
       in case serial_rx w of
            Some (p, Rx_Dma _) \<Rightarrow>
              do {
                RT_ASSERT (n = 0);
                RT_ASSERT (rx_indicate d \<noteq> None);
                Some (d, k, (indicate (rx_indicate d) (int len) w)\<lparr>serial_rx := Some (p, Rx_Dma False)\<rparr>)
              }
          | Some (p, Rx_Fifo f) \<Rightarrow>
              do {
                RT_ASSERT (n \<noteq> 0);
                let f = rt_dma_recv_update_put_index n len f;
                Some (d, k, indicate (rx_indicate d) (int (serial_fifo_calc_recved_len n f)) (w\<lparr>serial_rx := Some (p, Rx_Fifo f)\<rparr>))
              }
          | None \<Rightarrow> None)"

definition rt_hw_serial_isr :: "nat \<Rightarrow> 'h rt_uart_ops \<Rightarrow> u32 \<Rightarrow> 'h serial dstate \<Rightarrow> 'h serial dstate option" where
  "rt_hw_serial_isr c u event s =
    (let ev = event AND 0xff
     in if ev = 1 then isr_rx_ind u s
        else if ev = 2 then isr_tx_done c s
        else if ev = 4 then isr_tx_dmadone c u s
        else if ev = 3 then isr_rx_dmadone (unat (drop_bit 8 event)) s
        else Some s)"

text \<open>The argument of a command is a pointer to a configuration, or something for the chip's driver.\<close>

datatype ctrl_arg = Arg_Config "serial_configure option" | Arg_Word u32

definition rt_serial_control :: "'h rt_uart_ops \<Rightarrow> int \<Rightarrow> ctrl_arg \<Rightarrow> 'h serial dstate \<Rightarrow> (rt_err_t \<times> 'h serial dstate) option" where
  "rt_serial_control u cmd args s =
    (case s of (d, k, w) \<Rightarrow>
       if cmd = RT_DEVICE_CTRL_SUSPEND then Some (RT_EOK, d\<lparr>dev_flag := dev_flag d OR RT_DEVICE_FLAG_SUSPENDED\<rparr>, k, w)
       else if cmd = RT_DEVICE_CTRL_RESUME then Some (RT_EOK, d\<lparr>dev_flag := dev_flag d AND NOT RT_DEVICE_FLAG_SUSPENDED\<rparr>, k, w)
       else if cmd = RT_DEVICE_CTRL_CONFIG then
         case args of
           Arg_Config None \<Rightarrow> Some (RT_EOK, s)
         | Arg_Config (Some cfg) \<Rightarrow>
             if bufsz cfg \<noteq> bufsz (config w) \<and> ref_count d \<noteq> 0 then Some (RT_EBUSY, s)
             else
               let w = w\<lparr>config := cfg\<rparr>
               in Some (RT_EOK, d, k, if ref_count d \<noteq> 0 then w\<lparr>hw := snd (configure u cfg (hw w))\<rparr> else w)
         | Arg_Word _ \<Rightarrow> None
       else
         case args of
           Arg_Word a \<Rightarrow> (case control u cmd a (hw w) of (ret, h) \<Rightarrow> Some (ret, d, k, w\<lparr>hw := h\<rparr>))
         | Arg_Config _ \<Rightarrow> None)"

definition serial_ops :: "nat \<Rightarrow> 'h rt_uart_ops \<Rightarrow> ('h serial, tx_pending) rt_device_ops" where
  "serial_ops c u =
    \<lparr>dev_init = Some (rt_serial_init u), dev_open = Some (rt_serial_open c u), dev_close = Some (rt_serial_close c u),
     dev_read = Some (rt_serial_read u), dev_write = Some (rt_serial_write c u)\<rparr>"

text \<open>The operations that the code stores in the device are \<open>serial_ops c u\<close> and \<open>rt_serial_control u\<close>.\<close>

definition rt_hw_serial_register :: "nat \<Rightarrow> string \<Rightarrow> u32 \<Rightarrow> 'h serial dstate \<Rightarrow> (rt_err_t \<times> 'h serial dstate) option" where
  "rt_hw_serial_register i nam flags s =
    (case s of (d, kw) \<Rightarrow> rt_device_register i nam (ucast flags) (d\<lparr>dev_type := 0, rx_indicate := None, tx_complete := None\<rparr>, kw))"

end
