(* ===== verification/Dev_Serial_Open.thy ===== *)
theory Dev_Serial_Open
  imports Dev_Serial
begin

text \<open>
  Opening and closing a serial device: the driver keeps the contract \<open>driver\<close> of the device layer as long as all users open the device in the same
  mode, and its memory goes back to the heap with the last close. A user that opens it in another mode makes it lose its buffer.
\<close>

unbundle bit_operations_syntax

section \<open>Memory of the driver\<close>

text \<open>The heap holds the allocations \<open>R\<close> of others, and those at the addresses \<open>ps\<close>.\<close>

definition owns :: "heap \<Rightarrow> nat list \<Rightarrow> (nat \<times> nat) set \<Rightarrow> bool" where
  "owns h ps R \<longleftrightarrow> heap_inv h \<and> distinct ps \<and> set ps \<subseteq> fst ` set (live h) \<and> {b \<in> set (live h). fst b \<notin> set ps} = R"

lemma owns_Nil: "owns h [] R \<longleftrightarrow> heap_inv h \<and> set (live h) = R"
  by (auto simp: owns_def)

lemma owns_perm: "set qs = set ps \<Longrightarrow> length qs = length ps \<Longrightarrow> owns h ps R \<Longrightarrow> owns h qs R"
  by (auto simp: owns_def card_distinct distinct_card)

lemma owns_free: "owns h (p # ps) R \<Longrightarrow> \<exists>h'. rt_free p h = Some h' \<and> owns h' ps R"
proof -
  assume a: "owns h (p # ps) R"
  then have "heap_inv h" "p \<in> fst ` set (live h)" by (auto simp: owns_def)
  from free_address [OF this] obtain h' where h': "rt_free p h = Some h'" "heap_inv h'" "set (live h') = {b \<in> set (live h). fst b \<noteq> p}"
    by blast
  have "set ps \<subseteq> fst ` set (live h')"
  proof
    fix q assume q: "q \<in> set ps"
    then obtain n where "(q, n) \<in> set (live h)" using a by (fastforce simp: owns_def)
    moreover have "q \<noteq> p" using a q by (auto simp: owns_def)
    ultimately have "(q, n) \<in> set (live h')" using h'(3) by simp
    then show "q \<in> fst ` set (live h')" by force
  qed
  then show ?thesis using a h' by (auto simp: owns_def)
qed

lemma owns_malloc:
  assumes a: "owns h ps R" and n: "request_ok n" and m: "rt_malloc n h = Some (p, h')" "p \<noteq> 0"
  shows "owns h' (p # ps) R"
proof -
  obtain k where p: "p \<notin> fst ` set (live h)" "set (live h') = insert (p, k) (set (live h))" "heap_inv h'"
    using malloc_live [of h n] a n m by (auto simp: owns_def)
  moreover have "{b \<in> set (live h'). fst b \<notin> set (p # ps)} = {b \<in> set (live h). fst b \<notin> set ps}"
    using p(1,2) by force
  ultimately show ?thesis using a by (auto simp: owns_def)
qed

text \<open>A sequence of allocations that succeeds.\<close>

fun mallocs :: "u32 list \<Rightarrow> heap \<Rightarrow> (nat list \<times> heap) option" where
  "mallocs [] h = Some ([], h)"
| "mallocs (n # ns) h = do { (p, h) \<leftarrow> rt_malloc n h; RT_ASSERT (p \<noteq> 0); (ps, h) \<leftarrow> mallocs ns h; Some (p # ps, h) }"

lemma owns_mallocs: "mallocs ns h = Some (qs, h') \<Longrightarrow> owns h ps R \<Longrightarrow> \<forall>n\<in>set ns. request_ok n \<Longrightarrow> owns h' (qs @ ps) R"
proof (induction ns arbitrary: h ps qs)
  case (Cons n ns)
  obtain p h1 qs1 where m: "rt_malloc n h = Some (p, h1)" "p \<noteq> 0" "mallocs ns h1 = Some (qs1, h')" "qs = p # qs1"
    using Cons.prems(1) by (auto simp: bind_eq_Some_conv RT_ASSERT_def split: if_splits)
  have "owns h1 (p # ps) R" using owns_malloc [OF Cons.prems(2) _ m(1,2)] Cons.prems(3) by simp
  then have "owns h' (qs1 @ p # ps) R" using Cons.IH [OF m(3)] Cons.prems(3) by simp
  then show ?case unfolding m(4) by (rule owns_perm [rotated 2]) auto
qed simp

lemma mallocs_append:
  "mallocs (ns @ ms) h = Some (rs, h2) \<Longrightarrow> \<exists>ps h1 qs. mallocs ns h = Some (ps, h1) \<and> mallocs ms h1 = Some (qs, h2) \<and> rs = ps @ qs"
proof (induction ns arbitrary: h rs)
  case (Cons n ns)
  obtain p h1 rs1 where m: "rt_malloc n h = Some (p, h1)" "p \<noteq> 0" "mallocs (ns @ ms) h1 = Some (rs1, h2)" "rs = p # rs1"
    using Cons.prems by (auto simp: bind_eq_Some_conv RT_ASSERT_def split: if_splits)
  obtain ps h3 qs where "mallocs ns h1 = Some (ps, h3)" "mallocs ms h3 = Some (qs, h2)" "rs1 = ps @ qs" using Cons.IH [OF m(3)] by blast
  then show ?case using m by (intro exI [of _ "p # ps"]) simp
qed simp

section \<open>Modes\<close>

text \<open>The flags in \<open>open_flag\<close> that stand for a mode, and the memory it takes.\<close>

definition rx_flag :: "u16 \<Rightarrow> u16" where
  "rx_flag m = (if has m RT_DEVICE_FLAG_INT_RX then RT_DEVICE_FLAG_INT_RX else if has m RT_DEVICE_FLAG_DMA_RX then RT_DEVICE_FLAG_DMA_RX else 0)"

definition tx_flag :: "u16 \<Rightarrow> u16" where
  "tx_flag m = (if has m RT_DEVICE_FLAG_INT_TX then RT_DEVICE_FLAG_INT_TX else if has m RT_DEVICE_FLAG_DMA_TX then RT_DEVICE_FLAG_DMA_TX else 0)"

definition rx_needs :: "u16 \<Rightarrow> u16 \<Rightarrow> u32 list" where
  "rx_needs m n = (if rx_flag m = 0 then [] else if rx_flag m = RT_DEVICE_FLAG_DMA_RX \<and> n = 0 then [4] else [12 + ucast n])"

definition tx_needs :: "u16 \<Rightarrow> u32 list" where
  "tx_needs m = (if tx_flag m = 0 then [] else if tx_flag m = RT_DEVICE_FLAG_INT_TX then [12] else [40, 64])"

lemma mode_has:
  assumes "oflag AND 0xf00 = m"
  shows "has oflag RT_DEVICE_FLAG_INT_RX = has m RT_DEVICE_FLAG_INT_RX" "has oflag RT_DEVICE_FLAG_DMA_RX = has m RT_DEVICE_FLAG_DMA_RX"
    "has oflag RT_DEVICE_FLAG_INT_TX = has m RT_DEVICE_FLAG_INT_TX" "has oflag RT_DEVICE_FLAG_DMA_TX = has m RT_DEVICE_FLAG_DMA_TX"
  by (simp_all add: and.assoc flip: assms)

lemma flags_has:
  assumes "x AND 0x300 = rx_flag m" "x AND 0xc00 = tx_flag m"
  shows "has x RT_DEVICE_FLAG_INT_RX \<longleftrightarrow> has m RT_DEVICE_FLAG_INT_RX"
    "has x RT_DEVICE_FLAG_DMA_RX \<longleftrightarrow> \<not> has m RT_DEVICE_FLAG_INT_RX \<and> has m RT_DEVICE_FLAG_DMA_RX"
    "has x RT_DEVICE_FLAG_INT_TX \<longleftrightarrow> has m RT_DEVICE_FLAG_INT_TX"
    "has x RT_DEVICE_FLAG_DMA_TX \<longleftrightarrow> \<not> has m RT_DEVICE_FLAG_INT_TX \<and> has m RT_DEVICE_FLAG_DMA_TX"
proof -
  have "x AND 0x100 = rx_flag m AND 0x100" "x AND 0x200 = rx_flag m AND 0x200"
    "x AND 0x400 = tx_flag m AND 0x400" "x AND 0x800 = tx_flag m AND 0x800"
    by (simp_all add: and.assoc flip: assms)
  then show "has x RT_DEVICE_FLAG_INT_RX \<longleftrightarrow> has m RT_DEVICE_FLAG_INT_RX"
    "has x RT_DEVICE_FLAG_DMA_RX \<longleftrightarrow> \<not> has m RT_DEVICE_FLAG_INT_RX \<and> has m RT_DEVICE_FLAG_DMA_RX"
    "has x RT_DEVICE_FLAG_INT_TX \<longleftrightarrow> has m RT_DEVICE_FLAG_INT_TX"
    "has x RT_DEVICE_FLAG_DMA_TX \<longleftrightarrow> \<not> has m RT_DEVICE_FLAG_INT_TX \<and> has m RT_DEVICE_FLAG_DMA_TX"
    by (auto simp: rx_flag_def tx_flag_def)
qed

text \<open>The flags after \<open>rt_serial_open\<close>.\<close>

lemma open_flags:
  assumes "st = RT_DEVICE_FLAG_STREAM \<or> st = 0"
  shows "((oflag AND 0xff) OR rx_flag m OR tx_flag m OR st) AND 0x300 = rx_flag m"
    "((oflag AND 0xff) OR rx_flag m OR tx_flag m OR st) AND 0xc00 = tx_flag m"
  using assms by (auto simp: rx_flag_def tx_flag_def bit.conj_disj_distrib2 and.assoc)

section \<open>States of the driver\<close>

definition quiet :: "nat \<Rightarrow> kernel \<Rightarrow> bool" where
  "quiet c k \<longleftrightarrow> tlists k (Suspend c) = [] \<and> tlists k (Sender c) = []"

definition caps :: "u16 \<Rightarrow> rt_device \<Rightarrow> bool" where
  "caps m d \<longleftrightarrow> (\<forall>f\<in>{RT_DEVICE_FLAG_INT_RX, RT_DEVICE_FLAG_DMA_RX, RT_DEVICE_FLAG_INT_TX, RT_DEVICE_FLAG_DMA_TX}. \<not> lacks m d f)"

definition rx_owned :: "'h serial \<Rightarrow> nat list" where
  "rx_owned w = (case serial_rx w of None \<Rightarrow> [] | Some (p, _) \<Rightarrow> [p])"

definition tx_owned :: "'h serial \<Rightarrow> nat list" where
  "tx_owned w = (case serial_tx w of None \<Rightarrow> [] | Some (p, Tx_Fifo) \<Rightarrow> [p] | Some (p, Tx_Dma _ q) \<Rightarrow> [q, p])"

definition rx_struct :: "u16 \<Rightarrow> 'h serial \<Rightarrow> bool" where
  "rx_struct m w \<longleftrightarrow>
    (if rx_flag m = 0 then serial_rx w = None
     else case serial_rx w of
            None \<Rightarrow> False
          | Some (_, Rx_Dma _) \<Rightarrow> rx_flag m = RT_DEVICE_FLAG_DMA_RX \<and> bufsz (config w) = 0
          | Some (_, Rx_Fifo f) \<Rightarrow> 0 < bufsz (config w) \<longrightarrow> rx_inv (bufsz (config w)) f)"

definition tx_struct :: "nat \<Rightarrow> u16 \<Rightarrow> 'h serial \<Rightarrow> bool" where
  "tx_struct c m w \<longleftrightarrow>
    (case serial_tx w of
       None \<Rightarrow> tx_flag m = 0
     | Some (_, Tx_Fifo) \<Rightarrow> tx_flag m = RT_DEVICE_FLAG_INT_TX
     | Some (_, Tx_Dma _ _) \<Rightarrow> tx_flag m = RT_DEVICE_FLAG_DMA_TX \<and> dq_inv (queues (s_queues w) c))"

text \<open>Between the users: the driver has no memory, and nobody waits. With users: the structures of the mode, in memory of the driver.\<close>

definition serial_idle :: "nat \<Rightarrow> nat \<Rightarrow> u16 \<Rightarrow> (nat \<times> nat) set \<Rightarrow> 'h serial dstate \<Rightarrow> bool" where
  "serial_idle c i m R s \<longleftrightarrow>
    (case s of (d, k, w) \<Rightarrow> is_device i s \<and> kinv k \<and> cur k \<noteq> None \<and> caps m d \<and> quiet c k \<and>
       serial_rx w = None \<and> serial_tx w = None \<and> owns (s_heap w) [] R)"

definition serial_ready :: "nat \<Rightarrow> nat \<Rightarrow> u16 \<Rightarrow> (nat \<times> nat) set \<Rightarrow> 'h serial dstate \<Rightarrow> bool" where
  "serial_ready c i m R s \<longleftrightarrow>
    (case s of (d, k, w) \<Rightarrow> is_device i s \<and> kinv k \<and> cur k \<noteq> None \<and> caps m d \<and> (tx_flag m \<noteq> RT_DEVICE_FLAG_DMA_TX \<longrightarrow> quiet c k) \<and>
       open_flag d AND 0x300 = rx_flag m \<and> open_flag d AND 0xc00 = tx_flag m \<and> rx_struct m w \<and> tx_struct c m w \<and>
       owns (s_heap w) (rx_owned w @ tx_owned w) R)"

definition serial_room :: "u16 \<Rightarrow> 'h serial dstate \<Rightarrow> bool" where
  "serial_room m s \<longleftrightarrow> (case s of (d, k, w) \<Rightarrow> mallocs (rx_needs m (bufsz (config w)) @ tx_needs m) (s_heap w) \<noteq> None)"

section \<open>Opening\<close>

lemma empty_fifo_inv: "0 < n \<Longrightarrow> rx_inv n (empty_fifo n) \<and> rx_list n (empty_fifo n) = []"
  by (simp add: empty_fifo_def rx_inv_def rx_list_def rx_count_def circ_def)

lemma open_rx_first:
  assumes m: "oflag AND 0xf00 = m" and w: "serial_rx w = None"
    and a: "mallocs (rx_needs m (bufsz (config w))) (s_heap w) = Some (qs, h')"
  shows "\<exists>w'. open_rx u oflag (d, w) = Some (add_flag (rx_flag m) d, w') \<and> rx_struct m w' \<and> rx_owned w' = qs \<and> s_heap w' = h' \<and>
    serial_tx w' = serial_tx w \<and> s_queues w' = s_queues w \<and> s_completions w' = s_completions w \<and> config w' = config w"
proof -
  note h = mode_has [OF m]
  show ?thesis
  proof (cases "rx_flag m = 0")
    case True
    then show ?thesis
      using a w h by (auto simp: open_rx_def rx_flag_def rx_needs_def rx_struct_def rx_owned_def add_flag_def split: if_splits)
  next
    case False
    define n where "n = (if rx_flag m = RT_DEVICE_FLAG_DMA_RX \<and> bufsz (config w) = 0 then 4 else 12 + ucast (bufsz (config w)) :: u32)"
    have "rx_needs m (bufsz (config w)) = [n]" using False by (auto simp: rx_needs_def n_def)
    then obtain p where p: "qs = [p]" "serial_malloc n w = Some (p, w\<lparr>s_heap := h'\<rparr>)"
      using a by (auto simp: serial_malloc_def bind_eq_Some_conv split: if_splits)
    then show ?thesis
      using False w h empty_fifo_inv [of "bufsz (config w)"]
      by (auto simp: open_rx_def rx_flag_def rx_struct_def rx_owned_def add_flag_def call_control_def n_def split: if_splits)
  qed
qed

lemma open_rx_again:
  assumes m: "oflag AND 0xf00 = m" and r: "rx_struct m w"
  shows "open_rx u oflag (d, w) = Some (add_flag (rx_flag m) d, w)"
  using r mode_has [OF m] unfolding rx_struct_def rx_flag_def open_rx_def
  by (auto simp: add_flag_def split: if_splits option.splits)

lemma quiet_idem:
  assumes "quiet c k"
  shows "k\<lparr>tlists := (tlists k)(Suspend c := [])\<rparr> = k" "k\<lparr>tlists := (tlists k)(Sender c := [], Suspend c := [])\<rparr> = k"
  using assms by (simp_all add: quiet_def fun_upd_idem)

lemma init_queue_ok:
  assumes q: "quiet c k" and a: "rt_malloc 64 (s_heap w) = Some (p, h)" "p \<noteq> 0"
  shows "\<exists>dqs. init_queue c (k, w) = Some (p, k, w\<lparr>s_heap := h, s_queues := dqs\<rparr>) \<and> dq_inv (queues dqs c)"
proof -
  define q0 where "q0 = (queues (s_queues w) c)\<lparr>evt_notify := False, dq_magic := DATAQUEUE_MAGIC, dq_size := 8, lwm := 4, get_index := 0, put_index := 0,
    is_empty := True, is_full := False, dq_items := replicate 8 (0, 0)\<rparr>"
  have "init_queue c (k, w) = Some (p, k, w\<lparr>s_heap := h, s_queues := upd_dq c (\<lambda>_. q0) (s_queues w)\<rparr>)"
    using a quiet_idem(2) [OF q] by (simp add: init_queue_def rt_data_queue_init_def Let_def upd_dq_def dq_clear_def q0_def)
  moreover have "dq_inv q0" by (simp add: dq_inv_def q0_def)
  ultimately show ?thesis by (auto simp: upd_dq_def)
qed

lemma open_tx_first:
  assumes m: "oflag AND 0xf00 = m" and w: "serial_tx w = None" and q: "quiet c k" and a: "mallocs (tx_needs m) (s_heap w) = Some (qs, h')"
  shows "\<exists>w'. open_tx c u oflag (d, k, w) = Some (add_flag (tx_flag m) d, k, w') \<and> tx_struct c m w' \<and> set (tx_owned w') = set qs \<and>
    length (tx_owned w') = length qs \<and> s_heap w' = h' \<and> serial_rx w' = serial_rx w \<and> config w' = config w"
proof -
  note h = mode_has [OF m]
  consider "tx_flag m = 0" | "has m RT_DEVICE_FLAG_INT_TX" | "\<not> has m RT_DEVICE_FLAG_INT_TX" "has m RT_DEVICE_FLAG_DMA_TX"
    unfolding tx_flag_def by argo
  then show ?thesis
  proof cases
    case 1
    then show ?thesis
      using a w h by (auto simp: open_tx_def tx_flag_def tx_needs_def tx_struct_def tx_owned_def add_flag_def split: if_splits)
  next
    case 2
    then obtain p where p: "qs = [p]" "serial_malloc 12 w = Some (p, w\<lparr>s_heap := h'\<rparr>)"
      using a by (auto simp: tx_needs_def tx_flag_def serial_malloc_def bind_eq_Some_conv split: if_splits)
    then show ?thesis
      using 2 w h quiet_idem(1) [OF q]
      by (auto simp: open_tx_def tx_flag_def tx_struct_def tx_owned_def call_control_def rt_completion_init_def)
  next
    case 3
    then obtain p h1 r where p: "qs = [p, r]" "serial_malloc 40 w = Some (p, w\<lparr>s_heap := h1\<rparr>)" "rt_malloc 64 h1 = Some (r, h')" "r \<noteq> 0"
      using a by (auto simp: tx_needs_def tx_flag_def serial_malloc_def bind_eq_Some_conv RT_ASSERT_def split: if_splits)
    then obtain dqs where "init_queue c (k, w\<lparr>s_heap := h1\<rparr>) = Some (r, k, w\<lparr>s_heap := h', s_queues := dqs\<rparr>)" "dq_inv (queues dqs c)"
      using init_queue_ok [OF q, of "w\<lparr>s_heap := h1\<rparr>" r h'] by auto
    then show ?thesis
      using 3 p w h by (auto simp: open_tx_def tx_flag_def tx_struct_def tx_owned_def call_control_def)
  qed
qed

lemma open_tx_again:
  assumes m: "oflag AND 0xf00 = m" and r: "tx_struct c m w"
  shows "open_tx c u oflag (d, k, w) = Some (add_flag (tx_flag m) d, k, w)"
  using r mode_has [OF m] unfolding tx_struct_def tx_flag_def open_tx_def
  by (auto simp: add_flag_def split: if_splits option.splits serial_tx_struct.splits)

lemma needs_ok: "\<forall>x\<in>set (rx_needs m n @ tx_needs m). request_ok x"
proof -
  have "unat (ucast n :: u32) = unat n" by (simp add: unsigned_ucast_eq take_bit_nat_eq_self_iff order_less_le_trans [OF unat_less_16])
  then have "unat (12 + ucast n :: u32) = 12 + unat n" using unat_less_16 [of n] by (simp add: unat_word_ariths)
  then have "request_ok (12 + ucast n)" using unat_less_16 [of n] by (auto simp: request_ok_def word_unat_eq_iff)
  then show ?thesis by (auto simp: rx_needs_def tx_needs_def request_ok_def)
qed

text \<open>The whole of \<open>rt_serial_open\<close>, for the first user and for further ones.\<close>

lemma serial_open_struct:
  assumes m: "oflag AND 0xf00 = m" and s: "serial_idle c i m R (d, k, w) \<and> serial_room m (d, k, w) \<or> serial_ready c i m R (d, k, w)"
  shows "\<exists>d1 w1 w'. open_rx u oflag (d\<lparr>open_flag := oflag AND 0xff\<rparr>, w) = Some (d1, w1) \<and> d1 = add_flag (rx_flag m) (d\<lparr>open_flag := oflag AND 0xff\<rparr>) \<and>
    open_tx c u oflag (d1, k, w1) = Some (add_flag (tx_flag m) d1, k, w') \<and> rx_struct m w' \<and> tx_struct c m w' \<and>
    owns (s_heap w') (rx_owned w' @ tx_owned w') R"
proof -
  let ?d = "d\<lparr>open_flag := oflag AND 0xff\<rparr>"
  from s show ?thesis
  proof
    assume a: "serial_idle c i m R (d, k, w) \<and> serial_room m (d, k, w)"
    then have i: "serial_rx w = None" "serial_tx w = None" "quiet c k" "owns (s_heap w) [] R" by (simp_all add: serial_idle_def)
    obtain rs h2 where al: "mallocs (rx_needs m (bufsz (config w)) @ tx_needs m) (s_heap w) = Some (rs, h2)"
      using a by (auto simp: serial_room_def)
    then obtain ps h1 qs where al2: "mallocs (rx_needs m (bufsz (config w))) (s_heap w) = Some (ps, h1)" "mallocs (tx_needs m) h1 = Some (qs, h2)"
        "rs = ps @ qs"
      using mallocs_append by blast
    have o2: "owns h2 (ps @ qs) R" using owns_mallocs [OF al i(4) needs_ok] al2(3) by simp
    obtain w1 where w1: "open_rx u oflag (?d, w) = Some (add_flag (rx_flag m) ?d, w1)" "rx_struct m w1" "rx_owned w1 = ps" "s_heap w1 = h1"
        "serial_tx w1 = serial_tx w" "config w1 = config w"
      using open_rx_first [OF m i(1) al2(1), of u ?d] by blast
    obtain w2 where w2: "open_tx c u oflag (add_flag (rx_flag m) ?d, k, w1) = Some (add_flag (tx_flag m) (add_flag (rx_flag m) ?d), k, w2)"
        "tx_struct c m w2" "set (tx_owned w2) = set qs" "length (tx_owned w2) = length qs" "s_heap w2 = h2" "serial_rx w2 = serial_rx w1"
        "config w2 = config w1"
      using open_tx_first [OF m, of w1 c k qs h2 u "add_flag (rx_flag m) ?d"] i(2,3) w1(4,5) al2(2) by auto
    have "rx_struct m w2" "rx_owned w2 = ps" using w1(2,3) unfolding rx_struct_def rx_owned_def w2(6,7) by simp_all
    moreover have "owns h2 (ps @ tx_owned w2) R" by (rule owns_perm [OF _ _ o2]) (simp_all add: w2)
    ultimately show ?thesis using w1(1) w2 by auto
  next
    assume "serial_ready c i m R (d, k, w)"
    then have "rx_struct m w" "tx_struct c m w" "owns (s_heap w) (rx_owned w @ tx_owned w) R" by (simp_all add: serial_ready_def)
    then show ?thesis using open_rx_again [OF m, of w u ?d] open_tx_again [OF m, of c w u "add_flag (rx_flag m) ?d" k] by auto
  qed
qed

lemma serial_open_ok:
  assumes m: "oflag AND 0xf00 = m" and s: "serial_idle c i m R (d, k, w) \<and> serial_room m (d, k, w) \<or> serial_ready c i m R (d, k, w)"
  shows "\<exists>d' w'. rt_serial_open c u oflag (d, k, w) = Some (RT_EOK, d', k, w') \<and> serial_ready c i m R (d', k, w') \<and>
    ref_count d' = ref_count d \<and> dev_flag d' = dev_flag d"
proof -
  let ?d = "d\<lparr>open_flag := oflag AND 0xff\<rparr>"
  define st where "st = (if has oflag RT_DEVICE_FLAG_STREAM \<or> has (open_flag d) RT_DEVICE_FLAG_STREAM then RT_DEVICE_FLAG_STREAM else 0)"
  obtain w1 w' where w': "open_rx u oflag (?d, w) = Some (add_flag (rx_flag m) ?d, w1)"
      "open_tx c u oflag (add_flag (rx_flag m) ?d, k, w1) = Some (add_flag (tx_flag m) (add_flag (rx_flag m) ?d), k, w')"
      "rx_struct m w'" "tx_struct c m w'" "owns (s_heap w') (rx_owned w' @ tx_owned w') R"
    using serial_open_struct [OF m s, of u] by auto
  define d' where "d' = add_flag st (add_flag (tx_flag m) (add_flag (rx_flag m) ?d))"
  have e: "is_device i (d, k, w)" "kinv k" "cur k \<noteq> None" "caps m d" "tx_flag m \<noteq> RT_DEVICE_FLAG_DMA_TX \<longrightarrow> quiet c k"
    using s by (auto simp: serial_idle_def serial_ready_def)
  have "\<not> lacks oflag d f" if "f \<in> {RT_DEVICE_FLAG_INT_RX, RT_DEVICE_FLAG_DMA_RX, RT_DEVICE_FLAG_INT_TX, RT_DEVICE_FLAG_DMA_TX}" for f
    using e(4) that mode_has [OF m] by (auto simp: caps_def lacks_def)
  then have "rt_serial_open c u oflag (d, k, w) = Some (RT_EOK, d', k, w')"
    using w'(1,2) by (simp add: rt_serial_open_def d'_def st_def)
  moreover have "open_flag d' = (oflag AND 0xff) OR rx_flag m OR tx_flag m OR st" by (simp add: d'_def add_flag_def or.assoc)
  then have "open_flag d' AND 0x300 = rx_flag m" "open_flag d' AND 0xc00 = tx_flag m"
    using open_flags [of st oflag m] by (auto simp: st_def)
  moreover have "ref_count d' = ref_count d" "dev_flag d' = dev_flag d" by (simp_all add: d'_def add_flag_def)
  ultimately show ?thesis using e w' by (simp add: serial_ready_def is_device_def caps_def lacks_def)
qed

section \<open>Closing\<close>

text \<open>\<open>rt_data_queue_deinit\<close>, with what it leaves alone.\<close>

lemma queue_deinit_ok:
  assumes inv: "kinv k" and c: "cur k \<noteq> None" and q: "dq_inv (queues dqs i)"
  shows "\<exists>dqs' k'. rt_data_queue_deinit i (dqs, k) = Some (RT_EOK, dqs', k') \<and> kinv k' \<and> cur k' \<noteq> None \<and> quiet i k' \<and>
    (\<forall>j. hdr k' (OIpc j) = hdr k (OIpc j))"
proof -
  let ?k = "rt_enter_critical k"
  have e: "kinv ?k" "cur ?k = cur k" "hdr ?k = hdr k" using inv by (simp_all add: rt_enter_critical_def)
  obtain k1 k2 where k2: "rt_ipc_list_resume_all (Suspend i) ?k = Some k1" "rt_ipc_list_resume_all (Sender i) k1 = Some k2"
      "kinv k2" "cur k2 = cur k" "data_frame ?k k2" "tlists k2 (Suspend i) = []" "tlists k2 (Sender i) = []"
    using resume_both_ok [OF e(1), of i] unfolding e(2) by blast
  obtain k3 where k3: "rt_exit_critical k2 = Some k3" "kinv k3" "waits k3 = waits k2" "cur k3 \<noteq> None"
    using exit_critical_kinv [OF k2(3)] k2(4) c by auto
  obtain k4 where k4: "rt_schedule k3 = Some k4" "kinv k4" "sched_only k3 k4" "waits k4 = waits k3" "cur k4 \<noteq> None"
    using rt_schedule_kinv [OF k3(2,4)] by blast
  have "hdr k4 = hdr k2" using exit_critical_only [OF k3(1)] k4(3) by (simp add: sched_only_def)
  then have h: "\<forall>j. hdr k4 (OIpc j) = hdr k (OIpc j)" using k2(5) e(3) by (simp add: data_frame_def)
  have "quiet i k4"
    using waits_tlists [OF k4(4), of "Suspend i"] waits_tlists [OF k4(4), of "Sender i"]
      waits_tlists [OF k3(3), of "Suspend i"] waits_tlists [OF k3(3), of "Sender i"] k2(6,7) by (simp add: quiet_def)
  then show ?thesis
    using q k2(1,2) k3(1) k4(1,2,5) h by (simp add: rt_data_queue_deinit_def rt_data_queue_reset_def dq_inv_def)
qed

lemma close_rx_ok:
  assumes r: "rx_struct m w" and f: "open_flag d AND 0x300 = rx_flag m" and o: "owns (s_heap w) (rx_owned w @ ps) R"
  shows "\<exists>d' w'. close_rx u (d, w) = Some (d', w') \<and> serial_rx w' = None \<and> owns (s_heap w') ps R \<and> serial_tx w' = serial_tx w \<and>
    s_queues w' = s_queues w \<and> open_flag d' AND 0xc00 = open_flag d AND 0xc00 \<and> dev_flag d' = dev_flag d \<and> ref_count d' = ref_count d"
proof -
  have h: "has (open_flag d) RT_DEVICE_FLAG_INT_RX \<longleftrightarrow> rx_flag m = RT_DEVICE_FLAG_INT_RX"
    "has (open_flag d) RT_DEVICE_FLAG_DMA_RX \<longleftrightarrow> rx_flag m = RT_DEVICE_FLAG_DMA_RX"
  proof -
    have "open_flag d AND 0x100 = rx_flag m AND 0x100" "open_flag d AND 0x200 = rx_flag m AND 0x200"
      by (simp_all add: and.assoc flip: f)
    then show "has (open_flag d) RT_DEVICE_FLAG_INT_RX \<longleftrightarrow> rx_flag m = RT_DEVICE_FLAG_INT_RX"
      "has (open_flag d) RT_DEVICE_FLAG_DMA_RX \<longleftrightarrow> rx_flag m = RT_DEVICE_FLAG_DMA_RX" by (auto simp: rx_flag_def)
  qed
  show ?thesis
  proof (cases "rx_flag m = 0")
    case True
    then show ?thesis using h r o by (auto simp: close_rx_def rx_struct_def rx_owned_def)
  next
    case False
    then obtain p x where p: "serial_rx w = Some (p, x)" using r by (auto simp: rx_struct_def split: option.splits)
    then obtain h' where h': "rt_free p (s_heap w) = Some h'" "owns h' ps R" using o owns_free [of "s_heap w" p ps R] by (auto simp: rx_owned_def)
    have b: "(open_flag d AND NOT 0x100) AND 0xc00 = open_flag d AND 0xc00" "(open_flag d AND NOT 0x200) AND 0xc00 = open_flag d AND 0xc00"
      by (simp_all add: and.assoc)
    have "rx_flag m = RT_DEVICE_FLAG_INT_RX \<or> rx_flag m = RT_DEVICE_FLAG_DMA_RX" using False by (auto simp: rx_flag_def split: if_splits)
    then show ?thesis
      using False h p h' b by (auto simp: close_rx_def serial_free_def del_flag_def call_control_def)
  qed
qed

lemma close_tx_ok:
  assumes t: "tx_struct c m w" and f: "open_flag d AND 0xc00 = tx_flag m" and o: "owns (s_heap w) (tx_owned w) R"
    and k: "kinv k" "cur k \<noteq> None" "tx_flag m \<noteq> RT_DEVICE_FLAG_DMA_TX \<longrightarrow> quiet c k"
  shows "\<exists>d' k' w'. close_tx c u (d, k, w) = Some (d', k', w') \<and> serial_tx w' = None \<and> serial_rx w' = serial_rx w \<and> owns (s_heap w') [] R \<and>
    kinv k' \<and> cur k' \<noteq> None \<and> quiet c k' \<and> (\<forall>j. hdr k' (OIpc j) = hdr k (OIpc j)) \<and>
    dev_flag d' = dev_flag d \<and> ref_count d' = ref_count d"
proof -
  have h: "has (open_flag d) RT_DEVICE_FLAG_INT_TX \<longleftrightarrow> tx_flag m = RT_DEVICE_FLAG_INT_TX"
    "has (open_flag d) RT_DEVICE_FLAG_DMA_TX \<longleftrightarrow> tx_flag m = RT_DEVICE_FLAG_DMA_TX"
  proof -
    have "open_flag d AND 0x400 = tx_flag m AND 0x400" "open_flag d AND 0x800 = tx_flag m AND 0x800"
      by (simp_all add: and.assoc flip: f)
    then show "has (open_flag d) RT_DEVICE_FLAG_INT_TX \<longleftrightarrow> tx_flag m = RT_DEVICE_FLAG_INT_TX"
      "has (open_flag d) RT_DEVICE_FLAG_DMA_TX \<longleftrightarrow> tx_flag m = RT_DEVICE_FLAG_DMA_TX" by (auto simp: tx_flag_def)
  qed
  consider "serial_tx w = None" "tx_flag m = 0" | p where "serial_tx w = Some (p, Tx_Fifo)" "tx_flag m = RT_DEVICE_FLAG_INT_TX"
    | p a q where "serial_tx w = Some (p, Tx_Dma a q)" "tx_flag m = RT_DEVICE_FLAG_DMA_TX" "dq_inv (queues (s_queues w) c)"
    using t by (auto simp: tx_struct_def split: option.splits serial_tx_struct.splits)
  then show ?thesis
  proof cases
    case 1
    then show ?thesis using h o k by (simp add: close_tx_def tx_owned_def)
  next
    case 2
    then obtain h' where "rt_free p (s_heap w) = Some h'" "owns h' [] R" using o owns_free [of "s_heap w" p "[]" R] by (auto simp: tx_owned_def)
    then show ?thesis using 2 h k by (simp add: close_tx_def serial_free_def del_flag_def call_control_def)
  next
    case 3
    obtain h1 where h1: "rt_free q (s_heap w) = Some h1" "owns h1 [p] R" using o 3 owns_free [of "s_heap w" q "[p]" R] by (auto simp: tx_owned_def)
    obtain h2 where h2: "rt_free p h1 = Some h2" "owns h2 [] R" using owns_free [OF h1(2)] by blast
    obtain dqs' k' where d: "rt_data_queue_deinit c (s_queues w, k) = Some (RT_EOK, dqs', k')" "kinv k'" "cur k' \<noteq> None" "quiet c k'"
        "\<forall>j. hdr k' (OIpc j) = hdr k (OIpc j)"
      using queue_deinit_ok [OF k(1,2) 3(3)] by blast
    show ?thesis using 3 h h1(1) h2 d by (simp add: close_tx_def serial_free_def del_flag_def call_control_def)
  qed
qed

lemma serial_close_ok:
  assumes s: "serial_ready c i m R (d, k, w)" and r: "ref_count d = 0"
  shows "\<exists>d' k' w'. rt_serial_close c u (d, k, w) = Some (RT_EOK, d', k', w') \<and> serial_idle c i m R (d', k', w') \<and>
    ref_count d' = 0 \<and> standalone d' = standalone d"
proof -
  note g = s [unfolded serial_ready_def, simplified]
  obtain d1 w1 where 1: "close_rx u (d, w) = Some (d1, w1)" "serial_rx w1 = None" "owns (s_heap w1) (tx_owned w) R" "serial_tx w1 = serial_tx w"
      "s_queues w1 = s_queues w" "open_flag d1 AND 0xc00 = tx_flag m" "dev_flag d1 = dev_flag d" "ref_count d1 = ref_count d"
    using close_rx_ok [of m w d "tx_owned w" R u] g by auto
  have "tx_struct c m w1" "tx_owned w1 = tx_owned w" using g unfolding tx_struct_def tx_owned_def 1(4,5) by blast+
  then obtain d2 k2 w2 where 2: "close_tx c u (d1, k, w1) = Some (d2, k2, w2)" "serial_tx w2 = None" "serial_rx w2 = None" "owns (s_heap w2) [] R"
      "kinv k2" "cur k2 \<noteq> None" "quiet c k2" "\<forall>j. hdr k2 (OIpc j) = hdr k (OIpc j)" "dev_flag d2 = dev_flag d1" "ref_count d2 = ref_count d1"
    using close_tx_ok [of c m w1 d1 R k u] g 1 by auto
  have b: "(x AND NOT RT_DEVICE_FLAG_ACTIVATED) AND y = x AND y" if "y \<in> {0x008, 0x100, 0x200, 0x400, 0x800}" for x y :: u16
    using that by (auto simp: and.assoc)
  have "caps m (d2\<lparr>dev_flag := dev_flag d2 AND NOT RT_DEVICE_FLAG_ACTIVATED\<rparr>)"
    using g 1(7) 2(9) b by (auto simp: caps_def lacks_def)
  then show ?thesis
    using 1 2 g r b by (simp add: rt_serial_close_def serial_idle_def is_device_def rt_object_get_type_def call_control_def)
qed

section \<open>The contract\<close>

text \<open>The chip's driver configures the hardware without an error.\<close>

definition configures :: "'h rt_uart_ops \<Rightarrow> bool" where
  "configures u \<longleftrightarrow> (\<forall>cfg h. fst (configure u cfg h) = RT_EOK)"

lemma serial_init_ok:
  assumes u: "configures u" and s: "serial_idle c i m R (d, k, w)"
  shows "\<exists>w'. rt_serial_init u (d, k, w) = Some (RT_EOK, d, k, w') \<and> serial_idle c i m R (d, k, w') \<and>
    (serial_room m (d, k, w) \<longrightarrow> serial_room m (d, k, w'))"
proof -
  obtain h where h: "configure u (config w) (hw w) = (RT_EOK, h)"
    using u by (metis configures_def prod.collapse)
  then show ?thesis using s by (auto simp: rt_serial_init_def serial_idle_def serial_room_def is_device_def)
qed

lemma ready_flag: "(x OR RT_DEVICE_OFLAG_OPEN) AND 0x300 = x AND 0x300" "(x OR RT_DEVICE_OFLAG_OPEN) AND 0xc00 = x AND 0xc00" for x :: u16
  by (simp_all add: bit.conj_disj_distrib2)

lemma caps_activated: "caps m (d\<lparr>dev_flag := dev_flag d OR RT_DEVICE_FLAG_ACTIVATED\<rparr>) = caps m d"
  by (simp add: caps_def lacks_def bit.conj_disj_distrib2)

lemma caps_frame [simp]: "caps m (d\<lparr>open_flag := f\<rparr>) = caps m d" "caps m (d\<lparr>ref_count := n\<rparr>) = caps m d"
  by (simp_all add: caps_def lacks_def)

interpretation serial: driver i "serial_ops c u" "\<lambda>s. configures u \<and> serial_idle c i m R s" "\<lambda>s. configures u \<and> serial_ready c i m R s"
  "serial_room m" "\<lambda>oflag. oflag AND 0xf00 = m" for i c u m R
proof
  show "is_device i s" if "configures u \<and> serial_idle c i m R s \<or> configures u \<and> serial_ready c i m R s" for s
    using that by (auto simp: serial_idle_def serial_ready_def)
  show "\<exists>f kw'. dev_init (serial_ops c u) = Some f \<and> f (d, kw) = Some (RT_EOK, d, kw') \<and> (configures u \<and> serial_idle c i m R (d, kw')) \<and>
      (serial_room m (d, kw) \<longrightarrow> serial_room m (d, kw'))" if "configures u \<and> serial_idle c i m R (d, kw)" for d kw
    using serial_init_ok [of u c i m R d "fst kw" "snd kw"] that by (auto simp: serial_ops_def)
  show "\<exists>f d' kw'. dev_open (serial_ops c u) = Some f \<and> f oflag (d, kw) = Some (RT_EOK, d', kw') \<and> (configures u \<and> serial_ready c i m R (d', kw')) \<and>
      ref_count d' = ref_count d \<and> dev_flag d' = dev_flag d"
    if "oflag AND 0xf00 = m" "(configures u \<and> serial_idle c i m R (d, kw)) \<and> serial_room m (d, kw) \<or> configures u \<and> serial_ready c i m R (d, kw)" for oflag d kw
    using serial_open_ok [OF that(1), of c i R d "fst kw" "snd kw" u] that(2) by (auto simp: serial_ops_def)
  show "\<exists>f d' kw'. dev_close (serial_ops c u) = Some f \<and> f (d, kw) = Some (RT_EOK, d', kw') \<and> (configures u \<and> serial_idle c i m R (d', kw')) \<and>
      ref_count d' = 0 \<and> standalone d' = standalone d" if "configures u \<and> serial_ready c i m R (d, kw)" "ref_count d = 0" for d kw
    using serial_close_ok [of c i m R d "fst kw" "snd kw" u] that by (auto simp: serial_ops_def)
qed (auto simp: serial_idle_def serial_ready_def serial_room_def caps_activated is_device_def ready_flag)

text \<open>
  C27: Serial devices and their users. If all users open the device with the same receive and send mode, each of up to 255 opens
  succeeds, and while one user is left the device has the receive and send structures of that mode; after as many closes the driver is idle, all its
  memory is back in the heap, and a further close is refused.
\<close>

theorem serial_nested_users:
  assumes "configures u" "serial_idle c i m R (d, k, w)" "ref_count d = 0" "open_flag d = RT_DEVICE_OFLAG_CLOSE" "serial_room m (d, k, w)"
    and "\<forall>f\<in>set fs. f AND 0xf00 = m" "fs \<noteq> []" "length fs \<le> 255" "\<not> standalone d"
  shows "\<exists>s1 s2. opens i (serial_ops c u) fs (d, k, w) = Some (replicate (length fs) RT_EOK, s1) \<and> serial_ready c i m R s1 \<and>
    unat (ref_count (fst s1)) = length fs \<and>
    closes i (serial_ops c u) (length fs) s1 = Some (replicate (length fs) RT_EOK, s2) \<and> serial_idle c i m R s2 \<and> ref_count (fst s2) = 0 \<and>
    set (live (s_heap (snd (snd s2)))) = set (live (s_heap w)) \<and> rt_device_close i (serial_ops c u) s2 = Some (- RT_ERROR, s2)"
proof -
  have inv: "serial.dev_inv u c i m R (d, k, w)"
    unfolding serial.dev_inv_def using assms(1-4) by simp
  have R: "set (live (s_heap (snd (snd s)))) = R" if "serial_idle c i m R s" for s
    using that by (auto simp: serial_idle_def owns_Nil split: prod.splits)
  show ?thesis
    using serial.nested_users [OF inv, of fs] assms(3,5-9) R R [OF assms(2)] by fastforce
qed

text \<open>
  C28: A user that opens the device without a mode, while another one has it open for receiving with interrupts, makes the driver lose its
  buffer: the open succeeds and clears the mode in \<open>open_flag\<close>, so the last close frees nothing, and the next \<open>rt_serial_init\<close> forgets the address.
  The memory stays allocated.
\<close>

theorem serial_mode_change_leaks:
  assumes r: "serial_ready c i m R (d, k, w)" and m: "has m RT_DEVICE_FLAG_INT_RX" and oflag: "oflag AND 0xf00 = 0"
  shows "\<exists>d1 d2 w2 p f. rt_serial_open c u oflag (d, k, w) = Some (RT_EOK, d1, k, w) \<and>
    rt_serial_close c u (d1\<lparr>ref_count := 0\<rparr>, k, w) = Some (RT_EOK, d2, k, w2) \<and> serial_rx w2 = Some (p, Rx_Fifo f) \<and> s_heap w2 = s_heap w \<and>
    (\<exists>e d3 w3. rt_serial_init u (d2, k, w2) = Some (e, d3, k, w3) \<and> serial_rx w3 = None \<and> s_heap w3 = s_heap w \<and> p \<in> fst ` set (live (s_heap w3)))"
proof -
  have fl: "rx_flag m = RT_DEVICE_FLAG_INT_RX" using m by (simp add: rx_flag_def)
  obtain p f where p: "serial_rx w = Some (p, Rx_Fifo f)" "p \<in> fst ` set (live (s_heap w))"
    using r fl by (auto simp: serial_ready_def rx_struct_def rx_owned_def owns_def split: option.splits serial_rx_struct.splits)
  have z: "\<not> has oflag f" if "f \<in> {RT_DEVICE_FLAG_INT_RX, RT_DEVICE_FLAG_DMA_RX, RT_DEVICE_FLAG_INT_TX, RT_DEVICE_FLAG_DMA_TX}" for f
    using that mode_has [OF oflag] by auto
  have no: "open_rx u oflag (e, w) = Some (e, w)" "open_tx c u oflag (e, k, w) = Some (e, k, w)" for e
    using z p(1) by (simp_all add: open_rx_def open_tx_def)
  define st where "st = (if has oflag RT_DEVICE_FLAG_STREAM \<or> has (open_flag d) RT_DEVICE_FLAG_STREAM then RT_DEVICE_FLAG_STREAM else 0)"
  define d1 where "d1 = add_flag st (d\<lparr>open_flag := oflag AND 0xff\<rparr>)"
  have "rt_serial_open c u oflag (d, k, w) = Some (RT_EOK, d1, k, w)"
    using z no by (simp add: rt_serial_open_def lacks_def d1_def st_def)
  moreover have "\<not> has (open_flag d1) f" if "f \<in> {RT_DEVICE_FLAG_INT_RX, RT_DEVICE_FLAG_DMA_RX, RT_DEVICE_FLAG_INT_TX, RT_DEVICE_FLAG_DMA_TX}" for f
    using that by (auto simp: d1_def add_flag_def st_def bit.conj_disj_distrib2 and.assoc)
  then have "rt_serial_close c u (d1\<lparr>ref_count := 0\<rparr>, k, w) = Some (RT_EOK,
      d1\<lparr>ref_count := 0, dev_flag := dev_flag d1 AND NOT RT_DEVICE_FLAG_ACTIVATED\<rparr>, k, call_control u RT_DEVICE_CTRL_CLOSE 0 w)"
    by (simp add: rt_serial_close_def close_rx_def close_tx_def)
  ultimately show ?thesis using p by (auto simp: call_control_def rt_serial_init_def split: prod.splits)
qed

section \<open>A device\<close>

text \<open>A chip that accepts every character, with the characters to be received and those sent.\<close>

definition demo_uart :: "(u8 list \<times> u8 list) rt_uart_ops" where
  "demo_uart = \<lparr>configure = (\<lambda>_ h. (0, h)), control = (\<lambda>_ _ h. (0, h)), putc = (\<lambda>ch (i, out). (1, (i, out @ [ch]))),
    getc = (\<lambda>(i, out). case i of [] \<Rightarrow> (-1, ([], out)) | ch # i \<Rightarrow> (uint ch, (i, out))), dma_transmit = (\<lambda>_ _ _ h. h)\<rparr>"

definition demo_serial :: "(u8 list \<times> u8 list) serial" where
  "demo_serial = \<lparr>config = RT_SERIAL_CONFIG_DEFAULT\<lparr>bufsz := 16\<rparr>, serial_rx = None, serial_tx = None, s_heap = heap1, s_completions = (\<lambda>_. 0),
    s_queues = demo_queue_state, indications = [], hw = ([1, 2, 3], [])\<rparr>"

definition demo_dev :: rt_device where
  "demo_dev = \<lparr>dev_type = 0, dev_flag = 0x743, open_flag = 0, ref_count = 0, rx_indicate = Some 5, tx_complete = None\<rparr>"

abbreviation "demo_sdev \<equiv> (demo_dev, demo_ipc Class_Device, demo_serial)"

lemma demo_facts:
  "configures demo_uart" "serial_idle 2 1 0x100 (set (live heap1)) demo_sdev" "serial_room 0x100 demo_sdev"
  "ref_count demo_dev = 0" "open_flag demo_dev = RT_DEVICE_OFLAG_CLOSE" "\<not> standalone demo_dev"
proof -
  show "configures demo_uart" by (simp add: configures_def demo_uart_def)
  have "mallocs [28] heap1 \<noteq> None" by code_simp
  then show "serial_room 0x100 demo_sdev"
    by (simp add: serial_room_def demo_serial_def rx_needs_def tx_needs_def rx_flag_def tx_flag_def RT_SERIAL_CONFIG_DEFAULT_def)
  show "serial_idle 2 1 0x100 (set (live heap1)) demo_sdev"
    using heap1_inv demo_ipc_kinv [of Class_Device]
    by (simp add: serial_idle_def demo_serial_def owns_Nil quiet_def is_device_def rt_object_get_type_def caps_def lacks_def demo_dev_def
        demo_kernel_def zero_kernel_def)
qed (simp_all add: demo_dev_def)

theorem serial_nested_users_witness:
  "\<exists>s1 s2. opens 1 (serial_ops 2 demo_uart) [0x103, 0x143] demo_sdev = Some ([0, 0], s1) \<and>
    closes 1 (serial_ops 2 demo_uart) (Suc (Suc 0)) s1 = Some ([0, 0], s2) \<and> set (live (s_heap (snd (snd s2)))) = set (live heap1)"
proof -
  have l: "length [0x103 :: u16, 0x143] = Suc (Suc 0)" "s_heap demo_serial = heap1" by (simp_all add: demo_serial_def)
  have "\<forall>f\<in>set [0x103 :: u16, 0x143]. f AND 0xf00 = 0x100" "[0x103 :: u16, 0x143] \<noteq> []" "length [0x103 :: u16, 0x143] \<le> 255" by simp_all
  from serial_nested_users [OF demo_facts(1,2,4,5,3) this demo_facts(6)] show ?thesis
    unfolding l replicate.simps by blast
qed

theorem serial_mode_change_leaks_witness:
  "\<exists>d w d1 d2 w2 p f. serial_ready 2 1 0x100 (set (live heap1)) (d, demo_ipc Class_Device, w) \<and>
    rt_serial_open 2 demo_uart 0x003 (d, demo_ipc Class_Device, w) = Some (RT_EOK, d1, demo_ipc Class_Device, w) \<and>
    rt_serial_close 2 demo_uart (d1\<lparr>ref_count := 0\<rparr>, demo_ipc Class_Device, w) = Some (RT_EOK, d2, demo_ipc Class_Device, w2) \<and>
    serial_rx w2 = Some (p, Rx_Fifo f)"
proof -
  have "(0x103 :: u16) AND 0xf00 = 0x100" by simp
  from serial_open_ok [OF this, of 2 1 "set (live heap1)" demo_dev "demo_ipc Class_Device" demo_serial demo_uart]
  obtain d and w :: "(u8 list \<times> u8 list) serial" where s: "serial_ready 2 1 0x100 (set (live heap1)) (d, demo_ipc Class_Device, w)" using demo_facts(2,3) by blast
  have "has (0x100 :: u16) RT_DEVICE_FLAG_INT_RX" "(0x003 :: u16) AND 0xf00 = 0" by simp_all
  from serial_mode_change_leaks [OF s this, of demo_uart] s show ?thesis by blast
qed

end
