(* ===== verification/Dev_Serial_Data.thy ===== *)
theory Dev_Serial_Data
  imports Dev_Serial_Open
begin

text \<open>
  What goes through an open serial device: characters received by the interrupt handler or by the DMA controller and read by a thread, characters sent by a
  thread, and buffers queued for the DMA controller.
\<close>

unbundle bit_operations_syntax

section \<open>Receiving\<close>

text \<open>The chip holds the characters \<open>chs\<close>.\<close>

fun yields :: "'h rt_uart_ops \<Rightarrow> u8 list \<Rightarrow> 'h \<Rightarrow> 'h \<Rightarrow> bool" where
  "yields u [] h h' \<longleftrightarrow> getc u h = (-1, h')"
| "yields u (ch # chs) h h' \<longleftrightarrow> (case getc u h of (r, h1) \<Rightarrow> r = uint ch \<and> yields u chs h1 h')"

lemma isr_drain_ok:
  "yields u chs h h' \<Longrightarrow> put_all (rx_store n) chs f = Some f' \<Longrightarrow> isr_drain u n (f, h) = Some (f', h')"
proof (induction chs arbitrary: f h)
  case Nil
  then show ?case by (subst isr_drain.simps) simp
next
  case (Cons ch chs)
  obtain h1 where h1: "getc u h = (uint ch, h1)" "yields u chs h1 h'" using Cons.prems(1) by (auto split: prod.splits)
  obtain f1 where f1: "rx_store n ch f = Some f1" "put_all (rx_store n) chs f1 = Some f'"
    using Cons.prems(2) by (auto simp: bind_eq_Some_conv)
  have "uint ch \<noteq> -1" using uint_ge_0 [of ch] by linarith
  then show ?case using Cons.IH [OF h1(2) f1(2)] h1(1) f1(1) by (subst isr_drain.simps) simp
qed

lemma rx_length_count: "rx_inv n f \<Longrightarrow> rx_count n f < unat n \<Longrightarrow> rx_length n f = int (rx_count n f)"
proof -
  assume a: "rx_inv n f" "rx_count n f < unat n"
  have i: "unat (rx_get f) < unat n" "unat (rx_put f) < unat n" using a(1) by (simp_all add: rx_inv_def word_less_nat_alt)
  have u: "uint (rx_get f) = int (unat (rx_get f))" "uint (rx_put f) = int (unat (rx_put f))" "uint n = int (unat n)" by simp_all
  show ?thesis
    using a(2) i unfolding rx_length_def rx_count_def u word_le_nat_alt word_unat_eq_iff by (auto simp: mod_if simp del: uint_nat of_nat_unat)
qed

text \<open>What the callback of a device is told about the characters in the buffer.\<close>

definition told :: "nat option \<Rightarrow> nat \<Rightarrow> (nat \<times> int) list" where
  "told callback n = (case callback of None \<Rightarrow> [] | Some cb \<Rightarrow> [(cb, int n)])"

lemma indications_indicate [simp]: "indications (indicate cb (int n) w) = indications w @ told cb n"
  by (simp add: indicate_def told_def split: option.split)

lemma indicate_frame [simp]:
  "serial_rx (indicate cb x w) = serial_rx w" "serial_tx (indicate cb x w) = serial_tx w" "hw (indicate cb x w) = hw w"
  "config (indicate cb x w) = config w" "s_queues (indicate cb x w) = s_queues w" "s_heap (indicate cb x w) = s_heap w"
  by (simp_all add: indicate_def split: option.splits)

text \<open>
  C29: Receiving with interrupts. The handler takes all characters that the chip holds; the buffer of \<open>n\<close> bytes then holds the newest
  \<open>n - 1\<close> of all characters not yet read, in order, and the callback is told their number if there are any. A read returns the oldest of
  them, as many as it asks for or as there are, and leaves the others.
\<close>

theorem serial_int_receive:
  assumes mode: "has (open_flag d) RT_DEVICE_FLAG_INT_RX" and rx: "serial_rx w = Some (p, Rx_Fifo f)" and n: "bufsz (config w) = n" "2 \<le> unat n"
    and inv: "rx_inv n f" "rx_count n f < unat n" and chs: "yields u chs (hw w) h'"
  shows "\<exists>w' f'. rt_hw_serial_isr c u 1 (d, k, w) = Some (d, k, w') \<and> serial_rx w' = Some (p, Rx_Fifo f') \<and> hw w' = h' \<and>
    rx_list n f' = keep (unat n - 1) (rx_list n f @ chs) \<and>
    indications w' = indications w @ (if rx_list n f' = [] then [] else told (rx_indicate d) (length (rx_list n f'))) \<and>
    (\<forall>pos buffer len. \<exists>w'' f''. rt_serial_read u pos buffer len (d, k, w') = Some (min len (length (rx_list n f')), take len (rx_list n f'), d, k, w'') \<and>
      serial_rx w'' = Some (p, Rx_Fifo f'') \<and> rx_inv n f'' \<and> rx_count n f'' < unat n \<and> rx_list n f'' = drop len (rx_list n f'))"
proof -
  obtain f' where f': "put_all (rx_store n) chs f = Some f'" "rx_inv n f'" "rx_count n f' < unat n" "rx_list n f' = keep (unat n - 1) (rx_list n f @ chs)"
    using int_rx.put_law [of n f chs] inv n(2) by auto
  define w1 where "w1 = w\<lparr>serial_rx := Some (p, Rx_Fifo f'), hw := h'\<rparr>"
  define w' where "w' = (if rx_length n f' \<noteq> 0 then indicate (rx_indicate d) (rx_length n f') w1 else w1)"
  have "isr_rx_ind u (d, k, w) = Some (d, k, w')"
    using isr_drain_ok [OF chs f'(1)] rx n(1) by (simp add: isr_rx_ind_def w'_def w1_def)
  then have isr: "rt_hw_serial_isr c u 1 (d, k, w) = Some (d, k, w')" by (simp add: rt_hw_serial_isr_def)
  have s: "serial_rx w' = Some (p, Rx_Fifo f')" "config w' = config w" "hw w' = h'" by (simp_all add: w'_def w1_def)
  have ind: "indications w' = indications w @ (if rx_list n f' = [] then [] else told (rx_indicate d) (length (rx_list n f')))"
  proof -
    have "rx_list n f' = [] \<longleftrightarrow> rx_count n f' = 0" using length_rx_list [of n f'] by (metis length_0_conv)
    then show ?thesis using rx_length_count [OF f'(2,3)] by (simp add: w'_def w1_def)
  qed
  have "\<exists>w'' f''. rt_serial_read u pos buffer len (d, k, w') = Some (min len (length (rx_list n f')), take len (rx_list n f'), d, k, w'') \<and>
      serial_rx w'' = Some (p, Rx_Fifo f'') \<and> rx_inv n f'' \<and> rx_count n f'' < unat n \<and> rx_list n f'' = drop len (rx_list n f')" for pos buffer len
  proof (cases "len = 0")
    case True
    then show ?thesis using s f' by (simp add: rt_serial_read_def)
  next
    case False
    obtain f'' where "serial_int_rx n len f' = Some (take len (rx_list n f'), f'')" "rx_inv n f''" "rx_count n f'' < unat n" "rx_list n f'' = drop len (rx_list n f')"
      using int_rx.get_law [of n f' len] f'(2,3) n(2) by auto
    then show ?thesis using False s n(1) mode by (simp add: rt_serial_read_def)
  qed
  then show ?thesis using isr s ind f'(4) by blast
qed

lemma isr_event:
  assumes "len \<le> 0x8000"
  shows "(word_of_nat (3 + 256 * len) :: u32) AND 0xff = 3" "unat (drop_bit 8 (word_of_nat (3 + 256 * len) :: u32)) = len"
proof -
  have x: "unat (word_of_nat x :: u32) = x" if "x < 2 ^ 32" for x using that by (simp add: unsigned_of_nat take_bit_nat_eq_self)
  have u: "unat (word_of_nat (3 + 256 * len) :: u32) = 3 + 256 * len" by (rule x) (use assms in simp)
  have "unat ((word_of_nat (3 + 256 * len) :: u32) AND mask 8) = 3"
    unfolding take_bit_eq_mask [symmetric] unsigned_take_bit_eq u by (simp add: take_bit_eq_mod)
  then show "(word_of_nat (3 + 256 * len) :: u32) AND 0xff = 3" by (simp add: mask_eq_decr_exp word_unat_eq_iff)
  show "unat (drop_bit 8 (word_of_nat (3 + 256 * len) :: u32)) = len"
    unfolding unsigned_drop_bit_eq u using assms by (simp add: drop_bit_eq_div take_bit_nat_eq_self)
qed

text \<open>
  Receiving with DMA. When the controller has written a block of at most \<open>n\<close> characters, the interrupt adds it: the buffer then holds the
  newest \<open>n\<close> of all characters not yet read, in order, and the callback is told their number. A read returns the oldest of them and leaves the
  others.
\<close>

theorem serial_dma_receive:
  assumes mode: "\<not> has (open_flag d) RT_DEVICE_FLAG_INT_RX" "has (open_flag d) RT_DEVICE_FLAG_DMA_RX"
    and rx: "serial_rx w = Some (p, Rx_Fifo (dma_write n block f))" and n: "bufsz (config w) = n"
    and inv: "dma_inv n f" and l: "length block \<le> unat n"
  shows "\<exists>w' f'. rt_hw_serial_isr c u (word_of_nat (3 + 256 * length block)) (d, k, w) = Some (d, k, w') \<and> serial_rx w' = Some (p, Rx_Fifo f') \<and>
    rx_list n f' = keep (unat n) (rx_list n f @ block) \<and> indications w' = indications w @ told (rx_indicate d) (length (rx_list n f')) \<and>
    (\<forall>pos buffer len. \<exists>w'' f''. rt_serial_read u pos buffer len (d, k, w') = Some (min len (length (rx_list n f')), take len (rx_list n f'), d, k, w'') \<and>
      serial_rx w'' = Some (p, Rx_Fifo f'') \<and> dma_inv n f'' \<and> rx_list n f'' = drop len (rx_list n f'))"
proof -
  obtain f' where f': "rt_dma_recv_update_put_index n (length block) (dma_write n block f) = f'" "serial_fifo_calc_recved_len n f' = length (rx_list n f')"
      "dma_inv n f'" "rx_list n f' = keep (unat n) (rx_list n f @ block)"
    using dma_block_ok [OF inv l] by blast
  have n0: "n \<noteq> 0" "length block \<le> 0x8000" using inv l by (auto simp: dma_inv_def)
  define w' where "w' = indicate (rx_indicate d) (int (length (rx_list n f'))) (w\<lparr>serial_rx := Some (p, Rx_Fifo f')\<rparr>)"
  have "isr_rx_dmadone (length block) (d, k, w) = Some (d, k, w')"
    using rx n n0(1) f'(1,2) by (simp add: isr_rx_dmadone_def w'_def Let_def)
  then have isr: "rt_hw_serial_isr c u (word_of_nat (3 + 256 * length block)) (d, k, w) = Some (d, k, w')"
    unfolding rt_hw_serial_isr_def isr_event [OF n0(2)] by simp
  have s: "serial_rx w' = Some (p, Rx_Fifo f')" "config w' = config w" by (simp_all add: w'_def)
  have "\<exists>w'' f''. rt_serial_read u pos buffer len (d, k, w') = Some (min len (length (rx_list n f')), take len (rx_list n f'), d, k, w'') \<and>
      serial_rx w'' = Some (p, Rx_Fifo f'') \<and> dma_inv n f'' \<and> rx_list n f'' = drop len (rx_list n f')" for pos buffer len
  proof (cases "len = 0")
    case True
    then show ?thesis using s f' by (simp add: rt_serial_read_def)
  next
    case False
    obtain f'' where "serial_dma_rx n len f' = Some (take len (rx_list n f'), f'')" "dma_inv n f''" "rx_list n f'' = drop len (rx_list n f')"
      using dma_rx.get_law [OF f'(3), of len] by blast
    then show ?thesis using False s n n0(1) mode by (simp add: rt_serial_read_def)
  qed
  then show ?thesis using isr s f'(4) by (intro exI [of _ w'] exI [of _ f']) (simp add: w'_def)
qed

section \<open>Sending with interrupts\<close>

text \<open>\<open>sent h\<close> are the characters that the chip has accepted so far; a refused character is not sent.\<close>

definition sends :: "'h rt_uart_ops \<Rightarrow> ('h \<Rightarrow> u8 list) \<Rightarrow> bool" where
  "sends u sent \<longleftrightarrow> (\<forall>ch h. case putc u ch h of (r, h') \<Rightarrow> sent h' = (if r = -1 then sent h else sent h @ [ch]))"

text \<open>A thread that may wait for the completion of the device.\<close>

definition can_wait :: "nat \<Rightarrow> tid \<Rightarrow> 'h serial dstate \<Rightarrow> bool" where
  "can_wait c t s \<longleftrightarrow>
    (case s of (d, k, w) \<Rightarrow> kinv k \<and> thread_calls t k \<and> tlists k (Suspend c) = [] \<and> map_option snd (serial_tx w) = Some Tx_Fifo)"

definition waits_with :: "nat \<Rightarrow> tid \<Rightarrow> 'h serial dstate \<Rightarrow> bool" where
  "waits_with c t s \<longleftrightarrow>
    (case s of (d, k, w) \<Rightarrow> kinv k \<and> tlists k (Suspend c) = [t] \<and> stat_of (threads k t) = RT_THREAD_SUSPEND)"

lemma wait_tx_ok:
  assumes "can_wait c t (d, k, w)"
  shows "if s_completions w c = RT_COMPLETED then
      wait_tx c (d, k, w) = Some (Returned RT_EOK, d, k, w\<lparr>s_completions := (s_completions w)(c := RT_UNCOMPLETED)\<rparr>)
    else \<exists>k'. wait_tx c (d, k, w) = Some (Suspended t, d, k', w) \<and> waits_with c t (d, k', w)"
proof -
  have "sint (-1 :: u32) < 0x7FFFFFFF" "(-1 :: u32) \<noteq> 0" by simp_all
  then show ?thesis
    using rt_completion_wait_correct [of k t "s_completions w" c "-1"] assms
    by (auto simp: can_wait_def waits_with_def wait_tx_def)
qed

text \<open>One character in plain mode.\<close>

lemma tx_char_plain:
  assumes "sends u sent"
  shows "\<exists>ok h'. serial_tx_char u False ch h = (ok, h') \<and> sent h' = (if ok then sent h @ [ch] else sent h)"
proof -
  obtain r h' where r: "putc u ch h = (r, h')" by (cases "putc u ch h")
  have "case putc u ch h of (r, h') \<Rightarrow> sent h' = (if r = -1 then sent h else sent h @ [ch])"
    using spec [where x = h, OF spec [where x = ch, OF assms [unfolded sends_def]]] .
  then show ?thesis using r by (simp add: serial_tx_char_def)
qed

text \<open>How the loop goes on with a character that is not accepted.\<close>

lemma int_tx_Cons:
  "serial_int_tx c u len (ch # rest) (d, k, w) =
    (case serial_tx_char u (has (open_flag d) RT_DEVICE_FLAG_STREAM) ch (hw w) of (ok, h) \<Rightarrow>
       if ok then serial_int_tx c u len rest (d, k, w\<lparr>hw := h\<rparr>)
       else do {
         (r, s) \<leftarrow> wait_tx c (d, k, w\<lparr>hw := h\<rparr>);
         (case r of Suspended t \<Rightarrow> Some (Suspended (Tx_Wait t len (ch # rest)), s) | Returned _ \<Rightarrow> serial_int_tx c u len (ch # rest) s)
       })"
  by (subst serial_int_tx.simps) (simp only: prod.case list.case)

definition tx_progress ::
  "nat \<Rightarrow> tid \<Rightarrow> ('h \<Rightarrow> u8 list) \<Rightarrow> nat \<Rightarrow> u8 list \<Rightarrow> 'h serial dstate \<Rightarrow> ((nat, tx_pending) call \<times> 'h serial dstate) option \<Rightarrow> bool" where
  "tx_progress c t sent len data s res \<longleftrightarrow>
    (\<exists>r s'. res = Some (r, s') \<and>
      (case r of
         Returned n \<Rightarrow> n = len \<and> sent (hw (snd (snd s'))) = sent (hw (snd (snd s))) @ data
       | Suspended x \<Rightarrow> \<exists>done rest. x = Tx_Wait t len rest \<and> data = done @ rest \<and> rest \<noteq> [] \<and>
           sent (hw (snd (snd s'))) = sent (hw (snd (snd s))) @ done \<and> waits_with c t s'))"

lemma tx_progress_cong:
  "sent (hw (snd (snd s'))) = sent (hw (snd (snd s))) \<Longrightarrow> tx_progress c t sent len data s' res = tx_progress c t sent len data s res"
  by (simp only: tx_progress_def)

lemma serial_int_tx_plain:
  assumes u: "sends u sent"
  shows "can_wait c t (d, k, w) \<Longrightarrow> \<not> has (open_flag d) RT_DEVICE_FLAG_STREAM \<Longrightarrow>
    tx_progress c t sent len data (d, k, w) (serial_int_tx c u len data (d, k, w))"
proof (induction data arbitrary: w)
  case Nil
  then show ?case by (subst serial_int_tx.simps) (simp add: tx_progress_def)
next
  case (Cons ch rest)
  note nostream = Cons.prems(2)
  have sent1: "tx_progress c t sent len (ch # rest) (d, k, w) (serial_int_tx c u len rest (d, k, w\<lparr>hw := h\<rparr>))"
    if "can_wait c t (d, k, w)" "sent h = sent (hw w) @ [ch]" for w h
  proof -
    have "can_wait c t (d, k, w\<lparr>hw := h\<rparr>)" using that(1) by (simp add: can_wait_def)
    then show ?thesis
      using Cons.IH [of "w\<lparr>hw := h\<rparr>"] nostream that(2) unfolding tx_progress_def
      by (fastforce split: call.splits)
  qed
  have refused: "tx_progress c t sent len (ch # rest) (d, k, w) (serial_int_tx c u len (ch # rest) (d, k, w))"
    if cw: "can_wait c t (d, k, w)" and un: "s_completions w c \<noteq> RT_COMPLETED" for w
  proof -
    obtain ok h where h: "serial_tx_char u False ch (hw w) = (ok, h)" "sent h = (if ok then sent (hw w) @ [ch] else sent (hw w))"
      using tx_char_plain [OF u] by blast
    show ?thesis
    proof (cases ok)
      case True
      then show ?thesis using sent1 [OF cw] h nostream by (simp add: int_tx_Cons)
    next
      case False
      have "can_wait c t (d, k, w\<lparr>hw := h\<rparr>)" using cw by (simp add: can_wait_def)
      from wait_tx_ok [OF this] un obtain k' where k': "wait_tx c (d, k, w\<lparr>hw := h\<rparr>) = Some (Suspended t, d, k', w\<lparr>hw := h\<rparr>)"
          "waits_with c t (d, k', w\<lparr>hw := h\<rparr>)" by auto
      then show ?thesis using h False nostream by (simp add: int_tx_Cons tx_progress_def)
    qed
  qed
  show ?case
  proof (cases "s_completions w c = RT_COMPLETED")
    case False
    then show ?thesis using refused Cons.prems(1) by blast
  next
    case True
    obtain ok h where h: "serial_tx_char u False ch (hw w) = (ok, h)" "sent h = (if ok then sent (hw w) @ [ch] else sent (hw w))"
      using tx_char_plain [OF u] by blast
    show ?thesis
    proof (cases ok)
      case ok: True
      then show ?thesis using sent1 [OF Cons.prems(1)] h nostream by (simp add: int_tx_Cons)
    next
      case no: False
      let ?w = "w\<lparr>hw := h\<rparr>"
      let ?w2 = "?w\<lparr>s_completions := (s_completions w)(c := RT_UNCOMPLETED)\<rparr>"
      have cw: "can_wait c t (d, k, ?w)" using Cons.prems(1) by (simp add: can_wait_def)
      from wait_tx_ok [OF this] True have "wait_tx c (d, k, ?w) = Some (Returned RT_EOK, d, k, ?w2)" by simp
      then have "serial_int_tx c u len (ch # rest) (d, k, w) = serial_int_tx c u len (ch # rest) (d, k, ?w2)"
        using h no nostream int_tx_Cons [of c u len ch rest d k w] by simp
      moreover have "can_wait c t (d, k, ?w2)" using cw by (simp add: can_wait_def)
      then have "tx_progress c t sent len (ch # rest) (d, k, ?w2) (serial_int_tx c u len (ch # rest) (d, k, ?w2))" by (rule refused) simp
      ultimately show ?thesis using h no tx_progress_cong [of sent "(d, k, ?w2)" "(d, k, w)"] by simp
    qed
  qed
qed

text \<open>
  Sending with interrupts, without stream mode. The write returns, and either all characters were sent, in order and once each, and it
  returns their number; or the chip refused one, and the caller waits for the completion of the device with the rest of the characters, while exactly those before were
  sent. When the interrupt comes and the thread runs again, the same holds for the rest.
\<close>

theorem serial_int_write:
  assumes u: "sends u sent" and mode: "has (open_flag d) RT_DEVICE_FLAG_INT_TX" "\<not> has (open_flag d) RT_DEVICE_FLAG_STREAM"
    and w: "can_wait c t (d, k, w)" and data: "data \<noteq> []"
  shows "tx_progress c t sent (length data) data (d, k, w) (rt_serial_write c u pos buffer data (d, k, w)) \<and>
    tx_progress c t sent n data (d, k, w) (rt_serial_write_resumed c u (Tx_Wait t n data) (d, k, w))"
proof -
  have "serial_tx w \<noteq> None" using w by (auto simp: can_wait_def)
  then have "rt_serial_write c u pos buffer data (d, k, w) = serial_int_tx c u (length data) data (d, k, w)"
    using mode(1) data by (simp add: rt_serial_write_def)
  moreover define w' where "w' = w\<lparr>s_completions := (s_completions w)(c := RT_UNCOMPLETED)\<rparr>"
  moreover have "rt_serial_write_resumed c u (Tx_Wait t n data) (d, k, w) = serial_int_tx c u n data (d, k, w')"
    by (simp add: rt_serial_write_resumed_def rt_completion_wait_resumed_def w'_def)
  moreover have "can_wait c t (d, k, w')" using w by (simp add: can_wait_def w'_def)
  from serial_int_tx_plain [OF u this mode(2)] have "tx_progress c t sent n data (d, k, w) (serial_int_tx c u n data (d, k, w'))"
    using tx_progress_cong [of sent "(d, k, w')" "(d, k, w)"] by (simp add: w'_def)
  ultimately show ?thesis using serial_int_tx_plain [OF u w mode(2)] by simp
qed

text \<open>
  In stream mode a line feed is sent behind a carriage return. If the chip accepts the carriage return and refuses the line feed, the loop starts
  again with the carriage return when the interrupt has come, which is then sent twice.
\<close>

lemma serial_stream_repeats_cr:
  assumes u: "sends u sent" and h: "putc u 13 h = (a, h1)" "a \<noteq> -1" "putc u 10 h1 = (-1, h2)" "putc u 13 h3 = (b, h4)" "b \<noteq> -1" "putc u 10 h4 = (e, h5)" "e \<noteq> -1"
    and same: "sent h3 = sent h2"
  shows "serial_tx_char u True 10 h = (False, h2) \<and> serial_tx_char u True 10 h3 = (True, h5) \<and> sent h5 = sent h @ [13, 13, 10]"
proof -
  have "sent h1 = sent h @ [13]" "sent h2 = sent h1" "sent h4 = sent h3 @ [13]" "sent h5 = sent h4 @ [10]"
    using spec [where x = h, OF spec [where x = 13, OF u [unfolded sends_def]]] spec [where x = h1, OF spec [where x = 10, OF u [unfolded sends_def]]]
      spec [where x = h3, OF spec [where x = 13, OF u [unfolded sends_def]]] spec [where x = h4, OF spec [where x = 10, OF u [unfolded sends_def]]] h
    by simp_all
  then show ?thesis using h same by (simp add: serial_tx_char_def)
qed

text \<open>The polling loop, with a chip that waits until it can take a character: every line feed has its carriage return.\<close>

fun with_cr :: "bool \<Rightarrow> u8 list \<Rightarrow> u8 list" where
  "with_cr stream [] = []"
| "with_cr stream (ch # data) = (if stream \<and> ch = 10 then [13, ch] else [ch]) @ with_cr stream data"

lemma serial_poll_tx_sends:
  assumes u: "\<forall>ch h. sent (snd (putc u ch h)) = sent h @ [ch]"
  shows "sent (serial_poll_tx u stream data h) = sent h @ with_cr stream data"
  using u by (induction data arbitrary: h) (simp_all add: Let_def)

section \<open>Sending with DMA\<close>

text \<open>\<open>xfers h\<close> are the transfers that the controller was told to start so far.\<close>

definition dma_logs :: "'h rt_uart_ops \<Rightarrow> ('h \<Rightarrow> data_item list) \<Rightarrow> bool" where
  "dma_logs u xfers \<longleftrightarrow> (\<forall>a n h. xfers (dma_transmit u a n RT_SERIAL_DMA_TX h) = xfers h @ [(a, n)])"

text \<open>The state of the send side: the buffers in the queue, whether a transfer is marked as running, and the transfers so far.\<close>

definition dma_tx_rep ::
  "nat \<Rightarrow> ('h \<Rightarrow> data_item list) \<Rightarrow> data_item list \<Rightarrow> bool \<Rightarrow> data_item list \<Rightarrow> 'h serial dstate \<Rightarrow> bool" where
  "dma_tx_rep c xfers log act items s \<longleftrightarrow>
    (case s of (d, k, w) \<Rightarrow> kinv k \<and> cur k \<noteq> None \<and> dq_inv (queues (s_queues w) c) \<and> dq_list (queues (s_queues w) c) = items \<and>
       (\<exists>p q. serial_tx w = Some (p, Tx_Dma act q)) \<and> xfers (hw w) = log)"

abbreviation tx_queue_size :: "nat \<Rightarrow> 'h serial dstate \<Rightarrow> nat" where
  "tx_queue_size c s \<equiv> unat (dq_size (queues (s_queues (snd (snd s))) c))"

text \<open>\<open>rt_data_queue_peek\<close> shows the oldest item.\<close>

lemma peek_ok:
  assumes "dq_inv q"
  shows "rt_data_queue_peek q = Some (if dq_list q = [] then (- RT_EEMPTY, None) else (RT_EOK, Some (hd (dq_list q))))"
proof (cases "dq_list q")
  case Nil
  then show ?thesis using assms dq_list_facts(2) [OF assms] by (simp add: rt_data_queue_peek_def dq_inv_def)
next
  case (Cons x xs)
  obtain q' where "dq_get q = Some (x, q')" using dq_get_ok [OF assms Cons] by blast
  then have "unat (get_index q) < length (dq_items q)" "x = dq_items q ! unat (get_index q)"
    by (auto simp: dq_get_def Let_def bind_eq_Some_conv RT_ASSERT_def split: if_splits)
  then show ?thesis using assms Cons dq_list_facts(2) [OF assms] by (simp add: rt_data_queue_peek_def dq_inv_def)
qed

lemma dma_push_rep:
  assumes r: "dma_tx_rep c xfers log act items (d, k, w)" and room: "length items < tx_queue_size c (d, k, w)"
  shows "\<exists>dqs k'. rt_data_queue_push c x (-1) (s_queues w, k) = Some (Returned RT_EOK, dqs, k') \<and>
    dma_tx_rep c xfers log act (items @ [x]) (d, k', w\<lparr>s_queues := dqs\<rparr>) \<and> dq_size (queues dqs c) = dq_size (queues (s_queues w) c)"
proof -
  have i: "kinv k" "cur k \<noteq> None" "dq_inv (queues (s_queues w) c)" "dq_list (queues (s_queues w) c) = items"
    using r by (simp_all add: dma_tx_rep_def)
  have full: "\<not> is_full (queues (s_queues w) c)" using dq_list_facts(3) [OF i(3)] i(4) room by simp
  have m: "dq_magic (queues (s_queues w) c) = DATAQUEUE_MAGIC" using i(3) by (simp add: dq_inv_def)
  obtain dqs k' where "push_loop c (rt_thread_self k) x (-1) (s_queues w, k) = Some (Returned RT_EOK, dqs, k')" "kinv k'" "cur k' \<noteq> None"
      "dq_inv (queues dqs c)" "dq_list (queues dqs c) = items @ [x]" "dq_size (queues dqs c) = dq_size (queues (s_queues w) c)"
    using push_room [OF i(1-3) full, of "rt_thread_self k" x "-1"] i(4) by blast
  then show ?thesis using r m by (auto simp: rt_data_queue_push_def dma_tx_rep_def)
qed

lemma dma_start_rep:
  assumes u: "dma_logs u xfers" and r: "dma_tx_rep c xfers log act items (d, k, w)"
  shows "\<exists>w'. dma_tx_start u a n w = Some w' \<and> dma_tx_rep c xfers (if act then log else log @ [(a, n)]) True items (d, k, w') \<and>
    s_queues w' = s_queues w"
  using u r by (auto simp: dma_tx_rep_def dma_tx_start_def dma_logs_def)

lemma dma_done_rep:
  assumes u: "dma_logs u xfers" and r: "dma_tx_rep c xfers log act (x # xs) (d, k, w)"
  shows "\<exists>k' w'. rt_hw_serial_isr c u 4 (d, k, w) = Some (d, k', w') \<and> dma_tx_rep c xfers (log @ take 1 xs) (xs \<noteq> []) xs (d, k', w') \<and>
    indications w' = indications w @ told (tx_complete d) (unat (fst x)) \<and> tx_queue_size c (d, k', w') = tx_queue_size c (d, k, w)"
proof -
  obtain p q where i: "kinv k" "cur k \<noteq> None" "dq_inv (queues (s_queues w) c)" "dq_list (queues (s_queues w) c) = x # xs"
      "serial_tx w = Some (p, Tx_Dma act q)" "xfers (hw w) = log"
    using r by (auto simp: dma_tx_rep_def)
  have m: "dq_magic (queues (s_queues w) c) = DATAQUEUE_MAGIC" using i(3) by (simp add: dq_inv_def)
  obtain dqs k' where pop: "pop_loop c (rt_thread_self k) 0 (s_queues w, k) = Some (Returned (RT_EOK, Some x), dqs, k')" "kinv k'" "cur k' \<noteq> None"
      "dq_inv (queues dqs c)" "dq_list (queues dqs c) = xs" "dq_size (queues dqs c) = dq_size (queues (s_queues w) c)"
    using pop_some [OF i(1-4)] by blast
  have peek: "rt_data_queue_peek (queues dqs c) =
      Some (if xs = [] then (- RT_EEMPTY, None) else (RT_EOK, Some (hd xs)))"
    using peek_ok [OF pop(4)] pop(5) by simp
  define w1 where "w1 = w\<lparr>s_queues := dqs\<rparr>"
  define w2 where "w2 = (case xs of [] \<Rightarrow> w1\<lparr>serial_tx := Some (p, Tx_Dma False q)\<rparr>
    | y # _ \<Rightarrow> w1\<lparr>serial_tx := Some (p, Tx_Dma True q), hw := dma_transmit u (fst y) (snd y) RT_SERIAL_DMA_TX (hw w1)\<rparr>)"
  define w' where "w' = indicate (tx_complete d) (int (unat (fst x))) w2"
  have "isr_tx_dmadone c u (d, k, w) = Some (d, k', w')"
    using i(5) m pop(1) peek
    by (cases xs) (auto simp: isr_tx_dmadone_def rt_data_queue_pop_def w'_def w2_def w1_def indicate_def Let_def split: option.splits prod.splits)
  then have "rt_hw_serial_isr c u 4 (d, k, w) = Some (d, k', w')" by (simp add: rt_hw_serial_isr_def)
  moreover have "dma_tx_rep c xfers (log @ take 1 xs) (xs \<noteq> []) xs (d, k', w')"
    using u i(6) pop by (cases xs) (auto simp: dma_tx_rep_def w'_def w2_def w1_def dma_logs_def)
  moreover have "indications w2 = indications w" "s_queues w2 = dqs" by (cases xs; simp add: w2_def w1_def)+
  then have "indications w' = indications w @ told (tx_complete d) (unat (fst x))" "s_queues w' = dqs" by (simp_all add: w'_def del: of_nat_unat)
  ultimately show ?thesis using pop(6) by auto
qed

text \<open>
  C30: Sending with DMA by one thread at a time: the transfers that were started are those that are done and the one of the oldest buffer in the queue, and a
  transfer is marked as running if and only if there is a buffer. A write with room in the queue appends its buffer and returns its length, and the
  interrupt at the end of a transfer removes the oldest buffer and starts the transfer of the next; both keep this. So the buffers are sent in the order of the
  writes, each once.
\<close>

theorem serial_dma_write:
  assumes u: "dma_logs u xfers" and mode: "\<not> has (open_flag d) RT_DEVICE_FLAG_INT_TX" "has (open_flag d) RT_DEVICE_FLAG_DMA_TX"
    and r: "dma_tx_rep c xfers (sent @ take 1 items) (items \<noteq> []) items (d, k, w)"
  shows "(data \<noteq> [] \<and> length data < 2 ^ 32 \<and> length items < tx_queue_size c (d, k, w) \<longrightarrow>
      (\<exists>k' w'. rt_serial_write c u pos buffer data (d, k, w) = Some (Returned (length data), d, k', w') \<and>
        (let items' = items @ [(buffer, word_of_nat (length data))] in dma_tx_rep c xfers (sent @ take 1 items') (items' \<noteq> []) items' (d, k', w')))) \<and>
    (\<forall>x xs. items = x # xs \<longrightarrow>
      (\<exists>k' w'. rt_hw_serial_isr c u 4 (d, k, w) = Some (d, k', w') \<and> dma_tx_rep c xfers ((sent @ [x]) @ take 1 xs) (xs \<noteq> []) xs (d, k', w') \<and>
        indications w' = indications w @ told (tx_complete d) (unat (fst x))))"
proof (intro conjI impI allI)
  fix x xs assume l: "items = x # xs"
  then show "\<exists>k' w'. rt_hw_serial_isr c u 4 (d, k, w) = Some (d, k', w') \<and> dma_tx_rep c xfers ((sent @ [x]) @ take 1 xs) (xs \<noteq> []) xs (d, k', w') \<and>
      indications w' = indications w @ told (tx_complete d) (unat (fst x))"
    using dma_done_rep [OF u, of c "sent @ [x]" True x xs d k w] r by auto
next
  assume a: "data \<noteq> [] \<and> length data < 2 ^ 32 \<and> length items < tx_queue_size c (d, k, w)"
  let ?n = "word_of_nat (length data) :: u32"
  have n: "unat ?n = length data" using a by (simp add: unsigned_of_nat take_bit_nat_eq_self)
  obtain dqs k' where p: "rt_data_queue_push c (buffer, ?n) (-1) (s_queues w, k) = Some (Returned RT_EOK, dqs, k')"
      "dma_tx_rep c xfers (sent @ take 1 items) (items \<noteq> []) (items @ [(buffer, ?n)]) (d, k', w\<lparr>s_queues := dqs\<rparr>)"
    using dma_push_rep [OF r, of "(buffer, ?n)"] a by blast
  obtain w' where w': "dma_tx_start u buffer ?n (w\<lparr>s_queues := dqs\<rparr>) = Some w'"
      "dma_tx_rep c xfers (if items \<noteq> [] then sent @ take 1 items else (sent @ take 1 items) @ [(buffer, ?n)]) True (items @ [(buffer, ?n)]) (d, k', w')"
    using dma_start_rep [OF u p(2), of buffer ?n] by blast
  have "rt_serial_write c u pos buffer data (d, k, w) = Some (Returned (length data), d, k', w')"
    using a mode p(1) w'(1) n by (simp add: rt_serial_write_def serial_dma_tx_def dma_tx_pushed_def)
  moreover have "take 1 (items @ [(buffer, ?n)]) = (if items \<noteq> [] then take 1 items else [(buffer, ?n)])" by (cases items) auto
  then have "dma_tx_rep c xfers (sent @ take 1 (items @ [(buffer, ?n)])) (items @ [(buffer, ?n)] \<noteq> []) (items @ [(buffer, ?n)]) (d, k', w')"
    using w'(2) by (cases items) simp_all
  ultimately show "\<exists>k' w'. rt_serial_write c u pos buffer data (d, k, w) = Some (Returned (length data), d, k', w') \<and>
      (let items' = items @ [(buffer, ?n)] in dma_tx_rep c xfers (sent @ take 1 items') (items' \<noteq> []) items' (d, k', w'))"
    unfolding Let_def by blast
qed

text \<open>
  C31: Two threads that send with DMA at the same time. \<open>_serial_dma_tx\<close> queues the buffer and starts the transfer in two steps with interrupts enabled between
  them. If a second thread sends its buffer \<open>y\<close> between the two steps of the first with \<open>x\<close>, the controller is told to send \<open>y\<close> while \<open>x\<close> is
  the oldest buffer; the interrupts at the end of the transfers remove \<open>x\<close>, send \<open>y\<close> again and remove it. Both writes return their length,
  but \<open>x\<close> is never sent.
\<close>

theorem serial_dma_write_race:
  assumes u: "dma_logs u xfers" and r: "dma_tx_rep c xfers sent False [] (d, k, w)" and room: "2 \<le> tx_queue_size c (d, k, w)"
  shows "\<exists>dqs k1 k2 w2 k3 w3 w4. rt_data_queue_push c x (-1) (s_queues w, k) = Some (Returned RT_EOK, dqs, k1) \<and>
    serial_dma_tx c u (fst y) (snd y) (d, k1, w\<lparr>s_queues := dqs\<rparr>) = Some (Returned (unat (snd y)), d, k2, w2) \<and>
    dma_tx_pushed u x (Returned RT_EOK, d, k2, w2) = Some (Returned (unat (snd x)), d, k2, w2) \<and>
    rt_hw_serial_isr c u 4 (d, k2, w2) = Some (d, k3, w3) \<and> (\<exists>k4. rt_hw_serial_isr c u 4 (d, k3, w3) = Some (d, k4, w4) \<and>
    dma_tx_rep c xfers (sent @ [y, y]) False [] (d, k4, w4))"
proof -
  have r0: "0 < tx_queue_size c (d, k, w)" using room by simp
  obtain dqs k1 where p1: "rt_data_queue_push c x (-1) (s_queues w, k) = Some (Returned RT_EOK, dqs, k1)"
      "dma_tx_rep c xfers sent False [x] (d, k1, w\<lparr>s_queues := dqs\<rparr>)" "dq_size (queues dqs c) = dq_size (queues (s_queues w) c)"
    using dma_push_rep [OF r, of x] r0 by auto
  obtain dqs2 k2 where p2: "rt_data_queue_push c y (-1) (dqs, k1) = Some (Returned RT_EOK, dqs2, k2)"
      "dma_tx_rep c xfers sent False [x, y] (d, k2, w\<lparr>s_queues := dqs2\<rparr>)"
    using dma_push_rep [OF p1(2), of y] room p1(3) by auto
  obtain w2 where w2: "dma_tx_start u (fst y) (snd y) (w\<lparr>s_queues := dqs2\<rparr>) = Some w2" "dma_tx_rep c xfers (sent @ [y]) True [x, y] (d, k2, w2)"
    using dma_start_rep [OF u p2(2), of "fst y" "snd y"] by auto
  have y: "serial_dma_tx c u (fst y) (snd y) (d, k1, w\<lparr>s_queues := dqs\<rparr>) = Some (Returned (unat (snd y)), d, k2, w2)"
    using p2(1) w2(1) by (simp add: serial_dma_tx_def dma_tx_pushed_def)
  have "dma_tx_start u (fst x) (snd x) w2 = Some w2" using w2(2) by (auto simp: dma_tx_rep_def dma_tx_start_def)
  then have x: "dma_tx_pushed u x (Returned RT_EOK, d, k2, w2) = Some (Returned (unat (snd x)), d, k2, w2)" by (simp add: dma_tx_pushed_def)
  obtain k3 w3 where i1: "rt_hw_serial_isr c u 4 (d, k2, w2) = Some (d, k3, w3)" "dma_tx_rep c xfers (sent @ [y, y]) True [y] (d, k3, w3)"
    using dma_done_rep [OF u w2(2)] by auto
  obtain k4 w4 where "rt_hw_serial_isr c u 4 (d, k3, w3) = Some (d, k4, w4)" "dma_tx_rep c xfers (sent @ [y, y]) False [] (d, k4, w4)"
    using dma_done_rep [OF u i1(2)] by auto
  then show ?thesis using p1(1) y x i1(1) by blast
qed

section \<open>A device at work\<close>

lemma demo_uart_facts: "sends demo_uart snd" "yields demo_uart [1, 2, 3] ([1, 2, 3], []) ([], [])"
  by (auto simp: sends_def demo_uart_def)

theorem serial_int_receive_witness:
  "\<exists>w' f' w''. rt_hw_serial_isr 2 demo_uart 1 (demo_dev\<lparr>open_flag := 0x10B\<rparr>, demo_ipc Class_Device, demo_serial\<lparr>serial_rx := Some (7, Rx_Fifo (empty_fifo 16))\<rparr>) =
      Some (demo_dev\<lparr>open_flag := 0x10B\<rparr>, demo_ipc Class_Device, w') \<and> serial_rx w' = Some (7, Rx_Fifo f') \<and> rx_list 16 f' = [1, 2, 3] \<and> indications w' = [(5, 3)] \<and>
    rt_serial_read demo_uart 0 0 2 (demo_dev\<lparr>open_flag := 0x10B\<rparr>, demo_ipc Class_Device, w') =
      Some (2, [1, 2], demo_dev\<lparr>open_flag := 0x10B\<rparr>, demo_ipc Class_Device, w'')"
proof -
  define d where "d = demo_dev\<lparr>open_flag := 0x10B\<rparr>"
  define w where "w = demo_serial\<lparr>serial_rx := Some (7, Rx_Fifo (empty_fifo 16))\<rparr>"
  have e: "rx_inv 16 (empty_fifo 16)" "rx_list 16 (empty_fifo 16) = []" using empty_fifo_inv [of 16] by simp_all
  have a: "has (open_flag d) RT_DEVICE_FLAG_INT_RX" "serial_rx w = Some (7, Rx_Fifo (empty_fifo 16))" "bufsz (config w) = 16" "2 \<le> unat (16 :: u16)"
      "rx_count 16 (empty_fifo 16) < unat (16 :: u16)" "yields demo_uart [1, 2, 3] (hw w) ([], [])" "rx_indicate d = Some 5" "indications w = []"
    using demo_uart_facts(2) length_rx_list [of 16 "empty_fifo 16"] e(2)
    by (simp_all add: d_def w_def demo_serial_def demo_dev_def RT_SERIAL_CONFIG_DEFAULT_def)
  from serial_int_receive [OF a(1-4) e(1) a(5,6), of 2 "demo_ipc Class_Device"]
  obtain w' f' where w': "rt_hw_serial_isr 2 demo_uart 1 (d, demo_ipc Class_Device, w) = Some (d, demo_ipc Class_Device, w')" "serial_rx w' = Some (7, Rx_Fifo f')"
      "rx_list 16 f' = keep (unat (16 :: u16) - 1) (rx_list 16 (empty_fifo 16) @ [1, 2, 3])"
      "indications w' = indications w @ (if rx_list 16 f' = [] then [] else told (rx_indicate d) (length (rx_list 16 f')))"
      "\<forall>pos buffer len. \<exists>w'' f''. rt_serial_read demo_uart pos buffer len (d, demo_ipc Class_Device, w') =
        Some (min len (length (rx_list 16 f')), take len (rx_list 16 f'), d, demo_ipc Class_Device, w'') \<and>
        serial_rx w'' = Some (7, Rx_Fifo f'') \<and> rx_inv 16 f'' \<and> rx_count 16 f'' < unat (16 :: u16) \<and> rx_list 16 f'' = drop len (rx_list 16 f')"
    by blast
  have l: "rx_list 16 f' = [1, 2, 3]" using w'(3) e(2) by (simp add: keep_def)
  obtain w'' where "rt_serial_read demo_uart 0 0 2 (d, demo_ipc Class_Device, w') = Some (2, [1, 2], d, demo_ipc Class_Device, w'')"
    using w'(5) [rule_format, of 0 0 2] unfolding l by auto
  then show ?thesis using w'(1,2,4) l a(7,8) unfolding d_def w_def by (auto simp: told_def)
qed

theorem serial_dma_receive_witness:
  "\<exists>w' f'. rt_hw_serial_isr 2 demo_uart (word_of_nat (3 + 256 * length [1 :: u8, 2, 3, 4])) (demo_dev\<lparr>open_flag := 0x20B\<rparr>, demo_ipc Class_Device,
      demo_serial\<lparr>config := RT_SERIAL_CONFIG_DEFAULT\<lparr>bufsz := 4\<rparr>, serial_rx := Some (7, Rx_Fifo (dma_write 4 [1, 2, 3, 4] (empty_fifo 4)))\<rparr>) =
      Some (demo_dev\<lparr>open_flag := 0x20B\<rparr>, demo_ipc Class_Device, w') \<and> serial_rx w' = Some (7, Rx_Fifo f') \<and> rx_list 4 f' = [1, 2, 3, 4]"
proof -
  define d where "d = demo_dev\<lparr>open_flag := 0x20B\<rparr>"
  define w where "w = demo_serial\<lparr>config := RT_SERIAL_CONFIG_DEFAULT\<lparr>bufsz := 4\<rparr>, serial_rx := Some (7, Rx_Fifo (dma_write 4 [1, 2, 3, 4] (empty_fifo 4)))\<rparr>"
  have e: "dma_inv 4 (empty_fifo 4)" "rx_list 4 (empty_fifo 4) = []" using empty_fifo_inv [of 4] by (simp_all add: dma_inv_def empty_fifo_def)
  have a: "\<not> has (open_flag d) RT_DEVICE_FLAG_INT_RX" "has (open_flag d) RT_DEVICE_FLAG_DMA_RX"
      "serial_rx w = Some (7, Rx_Fifo (dma_write 4 [1, 2, 3, 4] (empty_fifo 4)))" "bufsz (config w) = 4" "length [1 :: u8, 2, 3, 4] \<le> unat (4 :: u16)"
    by (simp_all add: d_def w_def)
  from serial_dma_receive [OF a(1-4) e(1) a(5), of 2 demo_uart "demo_ipc Class_Device"] e(2)
  show ?thesis unfolding d_def w_def by (auto simp: keep_def)
qed

theorem serial_int_write_witness:
  "tx_progress 2 0 snd (Suc (Suc (Suc 0))) [4, 5, 6] (demo_dev\<lparr>open_flag := 0x40B\<rparr>, demo_ipc Class_Device, demo_serial\<lparr>serial_tx := Some (7, Tx_Fifo)\<rparr>)
    (rt_serial_write 2 demo_uart 0 0 [4, 5, 6] (demo_dev\<lparr>open_flag := 0x40B\<rparr>, demo_ipc Class_Device, demo_serial\<lparr>serial_tx := Some (7, Tx_Fifo)\<rparr>))"
proof -
  have "can_wait 2 0 (demo_dev\<lparr>open_flag := 0x40B\<rparr>, demo_ipc Class_Device, demo_serial\<lparr>serial_tx := Some (7, Tx_Fifo)\<rparr>)"
    using demo_ipc_kinv [of Class_Device] demo_ipc_calls [of Class_Device] by (simp add: can_wait_def demo_kernel_def zero_kernel_def)
  from serial_int_write [OF demo_uart_facts(1) _ _ this, of "[4, 5, 6]" 0 0] show ?thesis by simp
qed

text \<open>A chip that records the transfers.\<close>

definition demo_dma :: "data_item list rt_uart_ops" where
  "demo_dma = \<lparr>configure = (\<lambda>_ h. (0, h)), control = (\<lambda>_ _ h. (0, h)), putc = (\<lambda>_ h. (-1, h)), getc = (\<lambda>h. (-1, h)),
    dma_transmit = (\<lambda>a n _ h. h @ [(a, n)])\<rparr>"

definition demo_dma_serial :: "data_item list serial" where
  "demo_dma_serial = \<lparr>config = RT_SERIAL_CONFIG_DEFAULT, serial_rx = None, serial_tx = Some (100, Tx_Dma False 200), s_heap = heap1, s_completions = (\<lambda>_. 0),
    s_queues = demo_queue_state, indications = [], hw = []\<rparr>"

lemma demo_dma_facts:
  "dma_logs demo_dma id" "dma_tx_rep 0 id [] False [] (demo_dev\<lparr>open_flag := 0x80B\<rparr>, demo_ipc Class_Device, demo_dma_serial)"
  "tx_queue_size 0 (demo_dev\<lparr>open_flag := 0x80B\<rparr>, demo_ipc Class_Device, demo_dma_serial) = 2"
  using demo_ipc_kinv [of Class_Device] demo_queue_state_facts
  by (simp_all add: dma_logs_def demo_dma_def dma_tx_rep_def demo_dma_serial_def)

theorem serial_dma_write_witness:
  "\<exists>k' w'. rt_serial_write 0 demo_dma 0 0x20001000 [1, 2, 3] (demo_dev\<lparr>open_flag := 0x80B\<rparr>, demo_ipc Class_Device, demo_dma_serial) =
      Some (Returned 3, demo_dev\<lparr>open_flag := 0x80B\<rparr>, k', w') \<and> hw w' = [(0x20001000, 3)]"
proof -
  have m: "\<not> has (open_flag (demo_dev\<lparr>open_flag := 0x80B\<rparr>)) RT_DEVICE_FLAG_INT_TX" "has (open_flag (demo_dev\<lparr>open_flag := 0x80B\<rparr>)) RT_DEVICE_FLAG_DMA_TX"
    by simp_all
  have r: "dma_tx_rep 0 id ([] @ take 1 []) ([] \<noteq> ([] :: data_item list)) [] (demo_dev\<lparr>open_flag := 0x80B\<rparr>, demo_ipc Class_Device, demo_dma_serial)"
    using demo_dma_facts(2) by simp
  from serial_dma_write [where data = "[1, 2, 3]" and pos = 0 and buffer = "0x20001000", OF demo_dma_facts(1) m r] demo_dma_facts(3)
  show ?thesis by (auto simp: dma_tx_rep_def Let_def)
qed

theorem serial_dma_write_race_witness:
  "\<exists>k3 w3 k4 w4. rt_hw_serial_isr 0 demo_dma 4 (demo_dev\<lparr>open_flag := 0x80B\<rparr>, k3, w3) = Some (demo_dev\<lparr>open_flag := 0x80B\<rparr>, k4, w4) \<and> hw w4 = [(2, 20), (2, 20)]"
  using serial_dma_write_race [OF demo_dma_facts(1,2), of "(1, 10)" "(2, 20)"] demo_dma_facts(3) by (auto simp: dma_tx_rep_def)

end
