(* ===== verification/Dev_I2C.thy ===== *)
theory Dev_I2C
  imports RT_State
begin

text \<open>
  The I2C master in software, \<open>components/drivers/i2c/i2c-bit-ops.c\<close>, on which the display hangs. The functions that drive and read the two lines are a record, as in
  the code, together with the clock of the kernel that the driver waits on. What the slave does is part of the state \<open>'h\<close>. The messages
  that the code logs are left out.

  The correctness theorems compare the changes of the lines with what a bus monitor sees, which knows only the rules of the bus: the data line is sampled when the
  clock rises, and a change of the data line while the clock is high is a start or a stop.
\<close>

unbundle bit_operations_syntax

section \<open>Operations\<close>

abbreviation (input) RT_EIO :: rt_err_t where "RT_EIO \<equiv> 8"
abbreviation (input) RT_I2C_RD :: u16 where "RT_I2C_RD \<equiv> 0x01"
abbreviation (input) RT_I2C_ADDR_10BIT :: u16 where "RT_I2C_ADDR_10BIT \<equiv> 0x04"
abbreviation (input) RT_I2C_NO_START :: u16 where "RT_I2C_NO_START \<equiv> 0x10"
abbreviation (input) RT_I2C_IGNORE_NACK :: u16 where "RT_I2C_IGNORE_NACK \<equiv> 0x20"
abbreviation (input) RT_I2C_NO_READ_ACK :: u16 where "RT_I2C_NO_READ_ACK \<equiv> 0x40"
abbreviation (input) RT_I2C_NO_STOP :: u16 where "RT_I2C_NO_STOP \<equiv> 0x80"

record 'h rt_i2c_bit_ops =
  set_sda :: "bool \<Rightarrow> 'h \<Rightarrow> 'h"
  set_scl :: "bool \<Rightarrow> 'h \<Rightarrow> 'h"
  get_sda :: "'h \<Rightarrow> bool \<times> 'h"
  get_scl :: "('h \<Rightarrow> bool \<times> 'h) option"
  udelay :: "u32 \<Rightarrow> 'h \<Rightarrow> 'h option" \<comment> \<open>busy waiting, which may not end\<close>
  delay_us :: u32
  i2c_timeout :: u32
  tick_get :: "'h \<Rightarrow> u32" \<comment> \<open>\<open>rt_tick_get\<close>\<close>
  thread_delay :: "u32 \<Rightarrow> 'h \<Rightarrow> 'h" \<comment> \<open>\<open>rt_thread_delay\<close>\<close>

record rt_i2c_msg =
  i2c_addr :: u16
  i2c_flags :: u16
  i2c_buf :: "u8 list" \<comment> \<open>what is sent, or the buffer for what is received\<close>

definition i2c_delay :: "'h rt_i2c_bit_ops \<Rightarrow> 'h \<Rightarrow> 'h option" where
  "i2c_delay ops h = udelay ops (drop_bit 1 (delay_us ops + 1)) h"

definition i2c_delay2 :: "'h rt_i2c_bit_ops \<Rightarrow> 'h \<Rightarrow> 'h option" where
  "i2c_delay2 ops h = udelay ops (delay_us ops) h"

partial_function (option) scl_wait :: "'h rt_i2c_bit_ops \<Rightarrow> ('h \<Rightarrow> bool \<times> 'h) \<Rightarrow> u32 \<Rightarrow> 'h \<Rightarrow> (rt_err_t \<times> 'h) option" where
  "scl_wait ops get start h =
    (case get h of (high, h) \<Rightarrow>
       if high then Some (RT_EOK, h)
       else if tick_get ops h - start > i2c_timeout ops then Some (- RT_ETIMEOUT, h)
       else scl_wait ops get start (thread_delay ops (drop_bit 1 (i2c_timeout ops + 1)) h))"

definition SCL_H :: "'h rt_i2c_bit_ops \<Rightarrow> 'h \<Rightarrow> (rt_err_t \<times> 'h) option" where
  "SCL_H ops h =
    (let h = set_scl ops True h
     in case get_scl ops of
          None \<Rightarrow> do { h \<leftarrow> i2c_delay ops h; Some (RT_EOK, h) }
        | Some get \<Rightarrow>
            do {
              (r, h) \<leftarrow> scl_wait ops get (tick_get ops h) h;
              if r = RT_EOK then do { h \<leftarrow> i2c_delay ops h; Some (RT_EOK, h) } else Some (r, h)
            })"

definition i2c_start :: "'h rt_i2c_bit_ops \<Rightarrow> 'h \<Rightarrow> 'h option" where
  "i2c_start ops h = do { h \<leftarrow> i2c_delay ops (set_sda ops False h); Some (set_scl ops False h) }"

definition i2c_restart :: "'h rt_i2c_bit_ops \<Rightarrow> 'h \<Rightarrow> 'h option" where
  "i2c_restart ops h =
    do {
      (_, h) \<leftarrow> SCL_H ops (set_sda ops True h);
      h \<leftarrow> i2c_delay ops h;
      h \<leftarrow> i2c_delay ops (set_sda ops False h);
      Some (set_scl ops False h)
    }"

definition i2c_stop :: "'h rt_i2c_bit_ops \<Rightarrow> 'h \<Rightarrow> 'h option" where
  "i2c_stop ops h =
    do {
      h \<leftarrow> i2c_delay ops (set_sda ops False h);
      (_, h) \<leftarrow> SCL_H ops h;
      h \<leftarrow> i2c_delay ops h;
      i2c_delay2 ops (set_sda ops True h)
    }"

definition i2c_waitack :: "'h rt_i2c_bit_ops \<Rightarrow> 'h \<Rightarrow> (int \<times> 'h) option" where
  "i2c_waitack ops h =
    do {
      h \<leftarrow> i2c_delay ops (set_sda ops True h);
      (r, h) \<leftarrow> SCL_H ops h;
      if r < 0 then Some (- RT_ETIMEOUT, h)
      else case get_sda ops h of (high, h) \<Rightarrow> Some (if high then 0 else 1, set_scl ops False h)
    }"

text \<open>The bits below \<open>i\<close>, the highest first; the result tells whether the clock went high for all of them.\<close>

fun write_bits :: "'h rt_i2c_bit_ops \<Rightarrow> u8 \<Rightarrow> nat \<Rightarrow> 'h \<Rightarrow> (bool \<times> 'h) option" where
  "write_bits ops data 0 h = Some (True, h)"
| "write_bits ops data (Suc i) h =
    do {
      h \<leftarrow> i2c_delay ops (set_sda ops (bit data i) (set_scl ops False h));
      (r, h) \<leftarrow> SCL_H ops h;
      if r < 0 then Some (False, h) else write_bits ops data i h
    }"

definition i2c_writeb :: "'h rt_i2c_bit_ops \<Rightarrow> u8 \<Rightarrow> 'h \<Rightarrow> (int \<times> 'h) option" where
  "i2c_writeb ops data h =
    do {
      (ok, h) \<leftarrow> write_bits ops data 8 h;
      if ok then do { h \<leftarrow> i2c_delay ops (set_scl ops False h); i2c_waitack ops h } else Some (- RT_ETIMEOUT, h)
    }"

fun read_bits :: "'h rt_i2c_bit_ops \<Rightarrow> nat \<Rightarrow> u8 \<Rightarrow> 'h \<Rightarrow> (int \<times> 'h) option" where
  "read_bits ops 0 data h = Some (uint data, h)"
| "read_bits ops (Suc n) data h =
    do {
      let data = push_bit 1 data;
      (r, h) \<leftarrow> SCL_H ops h;
      if r < 0 then Some (- RT_ETIMEOUT, h)
      else case get_sda ops h of (high, h) \<Rightarrow>
        do { h \<leftarrow> i2c_delay2 ops (set_scl ops False h); read_bits ops n (if high then data OR 1 else data) h }
    }"

definition i2c_readb :: "'h rt_i2c_bit_ops \<Rightarrow> 'h \<Rightarrow> (int \<times> 'h) option" where
  "i2c_readb ops h = do { h \<leftarrow> i2c_delay ops (set_sda ops True h); read_bits ops 8 0 h }"

text \<open>The number of bytes sent, 0 if the slave refuses one, or an error.\<close>

fun i2c_send_bytes :: "'h rt_i2c_bit_ops \<Rightarrow> bool \<Rightarrow> nat \<Rightarrow> u8 list \<Rightarrow> 'h \<Rightarrow> (int \<times> 'h) option" where
  "i2c_send_bytes ops ignore_nack bytes [] h = Some (int bytes, h)"
| "i2c_send_bytes ops ignore_nack bytes (b # bs) h =
    do {
      (ret, h) \<leftarrow> i2c_writeb ops b h;
      if ret > 0 \<or> ignore_nack \<and> ret = 0 then i2c_send_bytes ops ignore_nack (Suc bytes) bs h
      else Some (if ret = 0 then 0 else ret, h)
    }"

definition i2c_send_ack_or_nack :: "'h rt_i2c_bit_ops \<Rightarrow> bool \<Rightarrow> 'h \<Rightarrow> (rt_err_t \<times> 'h) option" where
  "i2c_send_ack_or_nack ops ack h =
    do {
      h \<leftarrow> i2c_delay ops (if ack then set_sda ops False h else h);
      (r, h) \<leftarrow> SCL_H ops h;
      Some (if r < 0 then (- RT_ETIMEOUT, h) else (RT_EOK, set_scl ops False h))
    }"

text \<open>The number of bytes received or an error, and the bytes stored in the buffer.\<close>

fun i2c_recv_bytes :: "'h rt_i2c_bit_ops \<Rightarrow> bool \<Rightarrow> nat \<Rightarrow> nat \<Rightarrow> 'h \<Rightarrow> (int \<times> u8 list \<times> 'h) option" where
  "i2c_recv_bytes ops no_ack bytes 0 h = Some (int bytes, [], h)"
| "i2c_recv_bytes ops no_ack bytes (Suc count) h =
    do {
      (val, h) \<leftarrow> i2c_readb ops h;
      if val < 0 then Some (int bytes, [], h)
      else do {
        (r, h) \<leftarrow> (if no_ack then Some (RT_EOK, h) else i2c_send_ack_or_nack ops (count \<noteq> 0) h);
        if r < 0 then Some (r, [word_of_int val], h)
        else do { (ret, bs, h) \<leftarrow> i2c_recv_bytes ops no_ack (Suc bytes) count h; Some (ret, word_of_int val # bs, h) }
      }
    }"

text \<open>\<open>i2c_send_address\<close> with \<open>n\<close> tries left after this one.\<close>

fun i2c_send_address :: "'h rt_i2c_bit_ops \<Rightarrow> u8 \<Rightarrow> nat \<Rightarrow> 'h \<Rightarrow> (int \<times> 'h) option" where
  "i2c_send_address ops addr 0 h = i2c_writeb ops addr h"
| "i2c_send_address ops addr (Suc n) h =
    do {
      (ret, h) \<leftarrow> i2c_writeb ops addr h;
      if ret = 1 then Some (ret, h)
      else do { h \<leftarrow> i2c_stop ops h; h \<leftarrow> i2c_delay2 ops h; h \<leftarrow> i2c_start ops h; i2c_send_address ops addr n h }
    }"

definition i2c_bit_send_address :: "'h rt_i2c_bit_ops \<Rightarrow> nat \<Rightarrow> rt_i2c_msg \<Rightarrow> 'h \<Rightarrow> (rt_err_t \<times> 'h) option" where
  "i2c_bit_send_address ops bus_retries msg h =
    (let flags = i2c_flags msg;
         ignore_nack = (flags AND RT_I2C_IGNORE_NACK \<noteq> 0);
         retries = (if ignore_nack then 0 else bus_retries)
     in if flags AND RT_I2C_ADDR_10BIT \<noteq> 0 then
          let addr1 = 0xf0 OR ucast (drop_bit 7 (i2c_addr msg) AND 0x06);
              addr2 = ucast (i2c_addr msg AND 0xff)
          in do {
            (ret, h) \<leftarrow> i2c_send_address ops addr1 retries h;
            if ret \<noteq> 1 \<and> \<not> ignore_nack then Some (- RT_EIO, h)
            else do {
              (ret, h) \<leftarrow> i2c_writeb ops addr2 h;
              if ret \<noteq> 1 \<and> \<not> ignore_nack then Some (- RT_EIO, h)
              else if flags AND RT_I2C_RD \<noteq> 0 then
                do {
                  h \<leftarrow> i2c_restart ops h;
                  (ret, h) \<leftarrow> i2c_send_address ops (addr1 OR 1) retries h;
                  Some (if ret \<noteq> 1 \<and> \<not> ignore_nack then - RT_EIO else RT_EOK, h)
                }
              else Some (RT_EOK, h)
            }
          }
        else
          let addr1 = ucast (push_bit 1 (i2c_addr msg));
              addr1 = (if flags AND RT_I2C_RD \<noteq> 0 then addr1 OR 1 else addr1)
          in do {
            (ret, h) \<leftarrow> i2c_send_address ops addr1 retries h;
            Some (if ret \<noteq> 1 \<and> \<not> ignore_nack then - RT_EIO else RT_EOK, h)
          })"

text \<open>One message; \<open>True\<close> says that the loop goes on. The message comes back with what was received.\<close>

definition i2c_xfer_msg :: "'h rt_i2c_bit_ops \<Rightarrow> nat \<Rightarrow> bool \<Rightarrow> rt_i2c_msg \<Rightarrow> 'h \<Rightarrow> (bool \<times> int \<times> rt_i2c_msg \<times> 'h) option" where
  "i2c_xfer_msg ops bus_retries first msg h =
    (let flags = i2c_flags msg;
         ignore_nack = (flags AND RT_I2C_IGNORE_NACK \<noteq> 0);
         len = length (i2c_buf msg)
     in do {
       (ret, h) \<leftarrow>
         (if flags AND RT_I2C_NO_START \<noteq> 0 then Some (RT_EOK, h)
          else do {
            h \<leftarrow> (if first then i2c_start ops h else i2c_restart ops h);
            i2c_bit_send_address ops bus_retries msg h
          });
       if ret \<noteq> RT_EOK \<and> \<not> ignore_nack then Some (False, ret, msg, h)
       else if flags AND RT_I2C_RD \<noteq> 0 then
         do {
           (ret, bs, h) \<leftarrow> i2c_recv_bytes ops (flags AND RT_I2C_NO_READ_ACK \<noteq> 0) 0 len h;
           let msg = msg\<lparr>i2c_buf := bs @ drop (length bs) (i2c_buf msg)\<rparr>;
           Some (if ret < int len then (False, if ret \<ge> 0 then - RT_EIO else ret, msg, h) else (True, ret, msg, h))
         }
       else
         do {
           (ret, h) \<leftarrow> i2c_send_bytes ops ignore_nack 0 (i2c_buf msg) h;
           Some (if ret < int len then (False, if ret \<ge> 0 then - RT_ERROR else ret, msg, h) else (True, ret, msg, h))
         }
     })"

text \<open>The messages from number \<open>i\<close> on; the result contains the last message that was looked at.\<close>

fun xfer_loop :: "'h rt_i2c_bit_ops \<Rightarrow> nat \<Rightarrow> nat \<Rightarrow> rt_i2c_msg list \<Rightarrow> 'h \<Rightarrow> (int \<times> rt_i2c_msg option \<times> rt_i2c_msg list \<times> 'h) option" where
  "xfer_loop ops bus_retries i [] h = Some (int i, None, [], h)"
| "xfer_loop ops bus_retries i (msg # msgs) h =
    do {
      (go, ret, msg, h) \<leftarrow> i2c_xfer_msg ops bus_retries (i = 0) msg h;
      if go then do {
        (ret, last_msg, ms, h) \<leftarrow> xfer_loop ops bus_retries (Suc i) msgs h;
        Some (ret, if last_msg = None then Some msg else last_msg, msg # ms, h)
      }
      else Some (ret, Some msg, msg # msgs, h)
    }"

text \<open>Without a message the code looks at the flags of a message through a pointer that was never set.\<close>

definition i2c_bit_xfer :: "'h rt_i2c_bit_ops \<Rightarrow> nat \<Rightarrow> rt_i2c_msg list \<Rightarrow> 'h \<Rightarrow> (int \<times> rt_i2c_msg list \<times> 'h) option" where
  "i2c_bit_xfer ops bus_retries msgs h =
    do {
      (ret, last_msg, ms, h) \<leftarrow> xfer_loop ops bus_retries 0 msgs h;
      msg \<leftarrow> last_msg;
      h \<leftarrow> (if i2c_flags msg AND RT_I2C_NO_STOP = 0 then i2c_stop ops h else Some h);
      Some (ret, ms, h)
    }"

end
