(* ===== verification/Dev_I2C_Wire.thy ===== *)
theory Dev_I2C_Wire
  imports Dev_I2C
begin

text \<open>
  What the functions of \<^theory_text>\<open>Dev_I2C\<close> do to the two lines, read off by a bus monitor that knows the rules of the bus and nothing of the driver: a bit is what the
  data line carries while the clock is high, unless the line moves meanwhile, which is a start or a stop condition.
\<close>

section \<open>The wires\<close>

text \<open>The master drives a line or lets it go high, or it looks at the data line and finds what the slave makes of it.\<close>

datatype wire_event = SDA bool | SCL bool | Got bool

text \<open>
  The environment of the driver: \<open>log\<close> is what happened on the lines, \<open>ans\<close> what the slave will put on the data line each time that the master looks. The slave does not
  stretch the clock, and a delay ends.
\<close>

definition wired :: "'h rt_i2c_bit_ops \<Rightarrow> ('h \<Rightarrow> wire_event list) \<Rightarrow> ('h \<Rightarrow> bool list) \<Rightarrow> bool" where
  "wired ops log ans \<longleftrightarrow>
    (\<forall>v h. log (set_sda ops v h) = log h @ [SDA v] \<and> ans (set_sda ops v h) = ans h) \<and>
    (\<forall>v h. log (set_scl ops v h) = log h @ [SCL v] \<and> ans (set_scl ops v h) = ans h) \<and>
    (\<forall>n h. \<exists>h'. udelay ops n h = Some h' \<and> log h' = log h \<and> ans h' = ans h) \<and>
    (\<forall>a as h. ans h = a # as \<longrightarrow>
      (\<exists>h'. get_sda ops h = (a, h') \<and> log h' = log h @ [Got a] \<and> ans h' = as)) \<and>
    (\<forall>get es h. get_scl ops = Some get \<longrightarrow> log h = es @ [SCL True] \<longrightarrow>
      (\<exists>h'. get h = (True, h') \<and> log h' = log h \<and> ans h' = ans h))"

definition slept :: "'h rt_i2c_bit_ops \<Rightarrow> u32 \<Rightarrow> 'h \<Rightarrow> 'h" where
  "slept ops n h = the (udelay ops n h)"

definition risen :: "'h rt_i2c_bit_ops \<Rightarrow> 'h \<Rightarrow> 'h" where
  "risen ops h = snd (the (SCL_H ops h))"

lemma wired_lines:
  assumes "wired ops log ans"
  shows "log (set_sda ops v h) = log h @ [SDA v]" "ans (set_sda ops v h) = ans h"
    and "log (set_scl ops v h) = log h @ [SCL v]" "ans (set_scl ops v h) = ans h"
  using assms by (simp_all add: wired_def)

lemma wired_delay:
  assumes "wired ops log ans"
  shows "udelay ops n h = Some (slept ops n h)" "log (slept ops n h) = log h" "ans (slept ops n h) = ans h"
proof -
  obtain h' where "udelay ops n h = Some h'" "log h' = log h" "ans h' = ans h"
    using assms unfolding wired_def by meson
  then show "udelay ops n h = Some (slept ops n h)" "log (slept ops n h) = log h" "ans (slept ops n h) = ans h"
    by (simp_all add: slept_def)
qed

lemma wired_look:
  assumes "wired ops log ans" "ans h = a # as"
  obtains h' where "get_sda ops h = (a, h')" "log h' = log h @ [Got a]" "ans h' = as"
  using assms unfolding wired_def by metis

lemma wired_clock:
  assumes "wired ops log ans"
  shows "SCL_H ops h = Some (RT_EOK, risen ops h)" "log (risen ops h) = log h @ [SCL True]" "ans (risen ops h) = ans h"
proof -
  have "\<exists>h'. SCL_H ops h = Some (RT_EOK, h') \<and> log h' = log h @ [SCL True] \<and> ans h' = ans h"
  proof (cases "get_scl ops")
    case None
    then show ?thesis
      using assms by (simp add: SCL_H_def i2c_delay_def wired_delay wired_lines)
  next
    case (Some get)
    moreover obtain h' where "get (set_scl ops True h) = (True, h')" "log h' = log h @ [SCL True]" "ans h' = ans h"
      using assms Some wired_lines(3,4) [OF assms, of True h] unfolding wired_def by metis
    ultimately show ?thesis
      using assms by (simp add: SCL_H_def i2c_delay_def scl_wait.simps wired_delay)
  qed
  then show "SCL_H ops h = Some (RT_EOK, risen ops h)" "log (risen ops h) = log h @ [SCL True]" "ans (risen ops h) = ans h"
    by (auto simp: risen_def)
qed

lemmas wires = wired_lines wired_delay wired_clock i2c_delay_def i2c_delay2_def

text \<open>An environment that keeps the log and the answers on two tapes.\<close>

definition tape :: "(wire_event list \<times> bool list) rt_i2c_bit_ops" where
  "tape =
    \<lparr>set_sda = (\<lambda>v (l, a). (l @ [SDA v], a)),
     set_scl = (\<lambda>v (l, a). (l @ [SCL v], a)),
     get_sda = (\<lambda>(l, a). case a of [] \<Rightarrow> (True, (l, a)) | x # xs \<Rightarrow> (x, (l @ [Got x], xs))),
     get_scl = Some (\<lambda>(l, a). (SCL True \<in> set l, (l, a))),
     udelay = (\<lambda>_. Some),
     delay_us = 1,
     i2c_timeout = 100,
     tick_get = (\<lambda>_. 0),
     thread_delay = (\<lambda>_ h. h)\<rparr>"

lemma wired_tape: "wired tape fst snd"
  by (auto simp: wired_def tape_def)

section \<open>Start, stop and bytes on the wires\<close>

definition byte_out :: "u8 \<Rightarrow> bool \<Rightarrow> wire_event list" where
  "byte_out b a =
    concat (map (\<lambda>i. [SCL False, SDA (bit b i), SCL True]) (rev [0..<8])) @ [SCL False, SDA True, SCL True, Got a, SCL False]"

definition bits_of :: "u8 \<Rightarrow> bool list" where
  "bits_of b = map (bit b) (rev [0..<8])"

definition byte_in :: "u8 \<Rightarrow> wire_event list" where
  "byte_in b = SDA True # concat (map (\<lambda>a. [SCL True, Got a, SCL False]) (bits_of b))"

abbreviation start_out :: "wire_event list" where "start_out \<equiv> [SDA False, SCL False]"
abbreviation restart_out :: "wire_event list" where "restart_out \<equiv> [SDA True, SCL True, SDA False, SCL False]"
abbreviation stop_out :: "wire_event list" where "stop_out \<equiv> [SDA False, SCL True, SDA True]"

definition ack_out :: "bool \<Rightarrow> wire_event list" where
  "ack_out ack = (if ack then [SDA False] else []) @ [SCL True, SCL False]"

lemma i2c_start_wires:
  assumes "wired ops log ans"
  shows "\<exists>h'. i2c_start ops h = Some h' \<and> log h' = log h @ start_out \<and> ans h' = ans h"
  using assms by (simp add: i2c_start_def wires)

lemma i2c_restart_wires:
  assumes "wired ops log ans"
  shows "\<exists>h'. i2c_restart ops h = Some h' \<and> log h' = log h @ restart_out \<and> ans h' = ans h"
  using assms by (simp add: i2c_restart_def wires)

lemma i2c_stop_wires:
  assumes "wired ops log ans"
  shows "\<exists>h'. i2c_stop ops h = Some h' \<and> log h' = log h @ stop_out \<and> ans h' = ans h"
  using assms by (simp add: i2c_stop_def wires)

lemma i2c_send_ack_or_nack_wires:
  assumes "wired ops log ans"
  shows "\<exists>h'. i2c_send_ack_or_nack ops ack h = Some (RT_EOK, h') \<and> log h' = log h @ ack_out ack \<and> ans h' = ans h"
  using assms by (simp add: i2c_send_ack_or_nack_def ack_out_def wires)

lemma write_bits_wires:
  assumes "wired ops log ans"
  shows "\<exists>h'. write_bits ops b n h = Some (True, h') \<and> ans h' = ans h \<and>
    log h' = log h @ concat (map (\<lambda>i. [SCL False, SDA (bit b i), SCL True]) (rev [0..<n]))"
proof (induction n arbitrary: h)
  case (Suc n)
  show ?case
    using assms Suc.IH [of "risen ops (slept ops (drop_bit 1 (delay_us ops + 1)) (set_sda ops (bit b n) (set_scl ops False h)))"]
    by (auto simp: wires)
qed simp

lemma i2c_writeb_wires:
  assumes w: "wired ops log ans" and "ans h = a # as"
  shows "\<exists>h'. i2c_writeb ops b h = Some (if a then 0 else 1, h') \<and> log h' = log h @ byte_out b a \<and> ans h' = as"
proof -
  obtain h1 where h1: "write_bits ops b 8 h = Some (True, h1)" "ans h1 = a # as"
    "log h1 = log h @ concat (map (\<lambda>i. [SCL False, SDA (bit b i), SCL True]) (rev [0..<8]))"
    using write_bits_wires [OF w, of b 8 h] assms(2) by auto
  define s where "s = risen ops (slept ops (drop_bit 1 (delay_us ops + 1)) (set_sda ops True
    (slept ops (drop_bit 1 (delay_us ops + 1)) (set_scl ops False h1))))"
  have s: "ans s = a # as" "log s = log h1 @ [SCL False, SDA True, SCL True]"
    using w h1 by (simp_all add: s_def wires)
  obtain h2 where h2: "get_sda ops s = (a, h2)" "log h2 = log s @ [Got a]" "ans h2 = as"
    using wired_look [OF w s(1)] .
  have "i2c_writeb ops b h = Some (if a then 0 else 1, set_scl ops False h2)"
    using w h1(1) h2(1) by (simp add: i2c_writeb_def i2c_waitack_def wires s_def)
  then show ?thesis
    using w h1 h2 s by (auto simp: byte_out_def wired_lines simp del: upt_rec_numeral)
qed

lemma shift_in_bit:
  fixes d b :: u8
  shows "push_bit n (if bit b n then push_bit 1 d OR 1 else push_bit 1 d) OR take_bit n b = push_bit (Suc n) d OR take_bit (Suc n) b"
  by (rule bit_word_eqI) (auto simp: bit_simps less_Suc_eq le_less Suc_le_eq)

lemma read_bits_wires:
  assumes w: "wired ops log ans" and "ans h = map (bit b) (rev [0..<n]) @ rest"
  shows "\<exists>h'. read_bits ops n d h = Some (uint (push_bit n d OR take_bit n b), h') \<and> ans h' = rest \<and>
    log h' = log h @ concat (map (\<lambda>a. [SCL True, Got a, SCL False]) (map (bit b) (rev [0..<n])))"
  using assms(2)
proof (induction n arbitrary: h d)
  case (Suc n)
  have s: "ans (risen ops h) = bit b n # map (bit b) (rev [0..<n]) @ rest"
    using w Suc.prems by (simp add: wires)
  obtain h1 where h1: "get_sda ops (risen ops h) = (bit b n, h1)" "log h1 = log (risen ops h) @ [Got (bit b n)]"
    "ans h1 = map (bit b) (rev [0..<n]) @ rest"
    using wired_look [OF w s] .
  define h2 where "h2 = slept ops (delay_us ops) (set_scl ops False h1)"
  have h2: "ans h2 = map (bit b) (rev [0..<n]) @ rest" "log h2 = log h @ [SCL True, Got (bit b n), SCL False]"
    using w h1 by (simp_all add: h2_def wires)
  have "read_bits ops (Suc n) d h = read_bits ops n (if bit b n then push_bit 1 d OR 1 else push_bit 1 d) h2"
    using w h1(1) by (simp add: wires h2_def)
  then show ?case
    using Suc.IH [OF h2(1), of "if bit b n then push_bit 1 d OR 1 else push_bit 1 d"] h2(2)
    by (simp add: shift_in_bit del: push_bit_Suc take_bit_Suc)
qed simp

lemma i2c_readb_wires:
  assumes w: "wired ops log ans" and "ans h = bits_of b @ rest"
  shows "\<exists>h'. i2c_readb ops h = Some (uint b, h') \<and> log h' = log h @ byte_in b \<and> ans h' = rest"
proof -
  have "take_bit 8 b = b"
    by (rule bit_word_eqI) (simp add: bit_simps)
  then show ?thesis
    using w assms(2) read_bits_wires [OF w, of "slept ops (drop_bit 1 (delay_us ops + 1)) (set_sda ops True h)" b 8 rest 0]
    by (auto simp: i2c_readb_def byte_in_def bits_of_def wires simp del: upt_rec_numeral)
qed

section \<open>Messages on the wires\<close>

text \<open>How many of the bytes go out: all that are acknowledged and the first that is not.\<close>

definition tried :: "bool list \<Rightarrow> nat" where
  "tried acks = Suc (length (takeWhile Not acks))"

lemma i2c_send_bytes_wires:
  assumes w: "wired ops log ans" and "ans h = acks @ rest" "length acks = length bs"
  shows "\<exists>h'. i2c_send_bytes ops False n bs h = Some (if True \<in> set acks then 0 else int (n + length bs), h') \<and>
    log h' = log h @ concat (map2 byte_out (take (tried acks) bs) acks) \<and> ans h' = drop (tried acks) acks @ rest"
  using assms(2,3)
proof (induction bs arbitrary: acks n h)
  case (Cons b bs)
  then obtain a as where acks: "acks = a # as" and len: "length as = length bs"
    by (cases acks) auto
  obtain h1 where h1: "i2c_writeb ops b h = Some (if a then 0 else 1, h1)" "log h1 = log h @ byte_out b a" "ans h1 = as @ rest"
    using i2c_writeb_wires [OF w, of h a "as @ rest" b] Cons.prems acks by auto
  show ?case
  proof (cases a)
    case True
    then show ?thesis
      using h1 acks by (simp add: tried_def)
  next
    case False
    then show ?thesis
      using h1 acks Cons.IH [OF h1(3) len, of "Suc n"] by (auto simp: tried_def)
  qed
qed simp

lemma i2c_recv_bytes_wires:
  assumes w: "wired ops log ans" and "ans h = concat (map bits_of bs) @ rest"
  shows "\<exists>h'. i2c_recv_bytes ops False n (length bs) h = Some (int (n + length bs), bs, h') \<and> ans h' = rest \<and>
    log h' = log h @ concat (map2 (\<lambda>b k. byte_in b @ ack_out (0 < k)) bs (rev [0..<length bs]))"
  using assms(2)
proof (induction bs arbitrary: n h)
  case (Cons b bs)
  obtain h1 where h1: "i2c_readb ops h = Some (uint b, h1)" "log h1 = log h @ byte_in b" "ans h1 = concat (map bits_of bs) @ rest"
    using i2c_readb_wires [OF w, of h b] Cons.prems by auto
  obtain h2 where h2: "i2c_send_ack_or_nack ops (length bs \<noteq> 0) h1 = Some (RT_EOK, h2)" "log h2 = log h1 @ ack_out (length bs \<noteq> 0)"
    "ans h2 = ans h1"
    using i2c_send_ack_or_nack_wires [OF w, of "length bs \<noteq> 0" h1] by auto
  show ?case
    using h1 h2 Cons.IH [of h2 "Suc n"] by auto
qed simp

text \<open>The address is repeated, each time after a stop and a start, while the slave refuses it.\<close>

definition polls_out :: "u8 \<Rightarrow> nat \<Rightarrow> wire_event list" where
  "polls_out b j = concat (replicate j (byte_out b True @ stop_out @ start_out))"

lemma i2c_send_address_poll:
  assumes w: "wired ops log ans" and "ans h = True # as"
  shows "\<exists>h'. i2c_send_address ops b (Suc n) h = i2c_send_address ops b n h' \<and>
    log h' = log h @ byte_out b True @ stop_out @ start_out \<and> ans h' = as"
proof -
  obtain h1 where h1: "i2c_writeb ops b h = Some (0, h1)" "log h1 = log h @ byte_out b True" "ans h1 = as"
    using i2c_writeb_wires [OF w assms(2), of b] by auto
  obtain h2 where h2: "i2c_stop ops h1 = Some h2" "log h2 = log h1 @ stop_out" "ans h2 = ans h1"
    using i2c_stop_wires [OF w] by blast
  obtain h3 where h3: "i2c_start ops (slept ops (delay_us ops) h2) = Some h3" "log h3 = log h2 @ start_out" "ans h3 = ans h2"
    using i2c_start_wires [OF w, of "slept ops (delay_us ops) h2"] w by (auto simp: wires)
  show ?thesis
    using h1 h2 h3 w by (auto simp: wires)
qed

lemma i2c_send_address_wires:
  assumes w: "wired ops log ans" and "ans h = replicate j True @ False # rest" "j \<le> n"
  shows "\<exists>h'. i2c_send_address ops b n h = Some (1, h') \<and> log h' = log h @ polls_out b j @ byte_out b False \<and> ans h' = rest"
  using assms(2,3)
proof (induction j arbitrary: h n)
  case 0
  then show ?case
    using i2c_writeb_wires [OF w, of h False rest b] by (cases n) (auto simp: polls_out_def)
next
  case (Suc j)
  then obtain m where m: "n = Suc m" "j \<le> m"
    by (cases n) auto
  obtain h1 where "i2c_send_address ops b n h = i2c_send_address ops b m h1" "ans h1 = replicate j True @ False # rest"
    "log h1 = log h @ byte_out b True @ stop_out @ start_out"
    using i2c_send_address_poll [OF w, of h "replicate j True @ False # rest" b m] Suc.prems m(1)
    by (auto simp del: i2c_send_address.simps)
  then show ?case
    using Suc.IH [of h1 m] m by (auto simp: polls_out_def simp del: i2c_send_address.simps)
qed

lemma i2c_send_address_refused:
  assumes w: "wired ops log ans" and "ans h = replicate (Suc n) True @ rest"
  shows "\<exists>h'. i2c_send_address ops b n h = Some (0, h') \<and> log h' = log h @ polls_out b n @ byte_out b True \<and> ans h' = rest"
  using assms(2)
proof (induction n arbitrary: h)
  case 0
  then show ?case
    using i2c_writeb_wires [OF w, of h True rest b] by (auto simp: polls_out_def)
next
  case (Suc n)
  obtain h1 where "i2c_send_address ops b (Suc n) h = i2c_send_address ops b n h1" "ans h1 = replicate (Suc n) True @ rest"
    "log h1 = log h @ byte_out b True @ stop_out @ start_out"
    using i2c_send_address_poll [OF w, of h "replicate (Suc n) True @ rest" b n] Suc.prems
    by (auto simp del: i2c_send_address.simps)
  then show ?case
    using Suc.IH [of h1] by (auto simp: polls_out_def simp del: i2c_send_address.simps)
qed

section \<open>The bus monitor\<close>

text \<open>The data line as last seen, and the clock: when it is high, the bit that was there when it rose, unless a start or a stop has come.\<close>

datatype clock = Low | High "bool option"

datatype bus_symbol = Start | Stop | Bit bool

fun see :: "bool \<times> clock \<Rightarrow> wire_event \<Rightarrow> bus_symbol list \<times> bool \<times> clock" where
  "see (d, Low) (SDA v) = ([], v, Low)"
| "see (d, High p) (SDA v) = (if v = d then ([], d, High p) else ([if v then Stop else Start], v, High None))"
| "see (d, Low) (SCL v) = ([], d, if v then High (Some d) else Low)"
| "see (d, High p) (SCL v) = (if v then ([], d, High p) else (case p of None \<Rightarrow> [] | Some b \<Rightarrow> [Bit b], d, Low))"
| "see (d, High (Some b)) (Got a) = ([], d, High (Some (d \<and> a)))"
| "see s (Got a) = ([], s)"

fun watch :: "bool \<times> clock \<Rightarrow> wire_event list \<Rightarrow> bus_symbol list \<times> bool \<times> clock" where
  "watch s [] = ([], s)"
| "watch s (e # es) = (case see s e of (syms, s') \<Rightarrow> case watch s' es of (syms', s'') \<Rightarrow> (syms @ syms', s''))"

abbreviation idle_bus :: "bool \<times> clock" where "idle_bus \<equiv> (True, High None)"

lemma watch_append [simp]:
  "watch s (xs @ ys) = (case watch s xs of (syms, s') \<Rightarrow> case watch s' ys of (syms', s'') \<Rightarrow> (syms @ syms', s''))"
  by (induction s xs rule: watch.induct) (auto split: prod.splits)

text \<open>A byte on the bus is its bits, the highest first, and the bit that acknowledges it, which is low.\<close>

definition frame :: "u8 \<Rightarrow> bool \<Rightarrow> bus_symbol list" where
  "frame b nack = map Bit (bits_of b) @ [Bit nack]"

lemma watch_byte_out [simp]: "watch (d, Low) (byte_out b a) = (frame b a, True, Low)"
  by (simp add: byte_out_def frame_def bits_of_def upt_rec [of _ 8])

lemma watch_bits_in:
  "watch (True, Low) (concat (map (\<lambda>a. [SCL True, Got a, SCL False]) bs)) = (map Bit bs, True, Low)"
  by (induction bs) auto

lemma watch_byte_in [simp]: "watch (d, Low) (byte_in b) = (map Bit (bits_of b), True, Low)"
  by (simp add: byte_in_def watch_bits_in)

lemma watch_ack_out [simp]: "watch (True, Low) (ack_out ack) = ([Bit (\<not> ack)], \<not> ack, Low)"
  by (simp add: ack_out_def)

lemma watch_bytes_out [simp]:
  "watch (d, Low) (concat (map2 byte_out bs as)) = (concat (map2 frame bs as), d \<or> bs \<noteq> [] \<and> as \<noteq> [], Low)"
  by (induction bs as arbitrary: d rule: list_induct2') auto

lemma watch_acked_out [simp]:
  "watch (True, Low) (concat (map (\<lambda>b. byte_out b False) bs)) = (concat (map (\<lambda>b. frame b False) bs), True, Low)"
  by (induction bs) auto

lemma watch_bytes_in [simp]:
  "watch (d, Low) (concat (map2 (\<lambda>b k. byte_in b @ ack_out (0 < k)) bs (rev [0..<length bs]))) =
    (concat (map2 (\<lambda>b k. frame b (k = 0)) bs (rev [0..<length bs])), d \<or> bs \<noteq> [], Low)"
  by (induction bs arbitrary: d) (auto simp: frame_def)

lemma watch_polls_out [simp]:
  "watch (d, Low) (polls_out b j) = (concat (replicate j (frame b True @ [Stop, Start])), d \<and> j = 0, Low)"
  by (induction j arbitrary: d) (auto simp: polls_out_def)

section \<open>Transfers\<close>

definition addr_byte :: "u16 \<Rightarrow> bool \<Rightarrow> u8" where
  "addr_byte a rd = (if rd then ucast (push_bit 1 a) OR 1 else ucast (push_bit 1 a))"

abbreviation write_msg :: "u16 \<Rightarrow> u8 list \<Rightarrow> rt_i2c_msg" where
  "write_msg a bs \<equiv> \<lparr>i2c_addr = a, i2c_flags = 0, i2c_buf = bs\<rparr>"
abbreviation read_msg :: "u16 \<Rightarrow> u8 list \<Rightarrow> rt_i2c_msg" where
  "read_msg a bs \<equiv> \<lparr>i2c_addr = a, i2c_flags = RT_I2C_RD, i2c_buf = bs\<rparr>"

definition begin_out :: "bool \<Rightarrow> wire_event list" where
  "begin_out first = (if first then start_out else restart_out)"

lemma begin_out_wires:
  assumes "wired ops log ans"
  shows "\<exists>h'. (if first then i2c_start ops h else i2c_restart ops h) = Some h' \<and> log h' = log h @ begin_out first \<and> ans h' = ans h"
  using i2c_start_wires [OF assms] i2c_restart_wires [OF assms] by (auto simp: begin_out_def)

lemma xfer_address_wires:
  assumes w: "wired ops log ans" and "ans h = replicate j True @ False # rest" "j \<le> retries"
    and "i2c_flags m = (if rd then RT_I2C_RD else 0)"
  shows "\<exists>h'. do { h \<leftarrow> (if first then i2c_start ops h else i2c_restart ops h); i2c_bit_send_address ops retries m h } = Some (RT_EOK, h') \<and>
    log h' = log h @ begin_out first @ polls_out (addr_byte (i2c_addr m) rd) j @ byte_out (addr_byte (i2c_addr m) rd) False \<and> ans h' = rest"
proof -
  obtain h1 where h1: "(if first then i2c_start ops h else i2c_restart ops h) = Some h1" "log h1 = log h @ begin_out first" "ans h1 = ans h"
    using begin_out_wires [OF w] by blast
  obtain h2 where "i2c_send_address ops (addr_byte (i2c_addr m) rd) retries h1 = Some (1, h2)" "ans h2 = rest"
    "log h2 = log h1 @ polls_out (addr_byte (i2c_addr m) rd) j @ byte_out (addr_byte (i2c_addr m) rd) False"
    using i2c_send_address_wires [OF w, of h1 j rest retries] assms(2,3) h1(3) by auto
  then show ?thesis
    using h1 assms(4) by (cases rd) (auto simp: i2c_bit_send_address_def addr_byte_def Let_def)
qed

lemma xfer_write_wires:
  assumes w: "wired ops log ans" and ans: "ans h = replicate j True @ False # acks @ rest" "j \<le> retries" "length acks = length bs"
  shows "\<exists>h'. i2c_xfer_msg ops retries first (write_msg a bs) h =
      Some (True \<notin> set acks, if True \<in> set acks then - RT_ERROR else int (length bs), write_msg a bs, h') \<and>
    log h' = log h @ begin_out first @ polls_out (addr_byte a False) j @ byte_out (addr_byte a False) False @
      concat (map2 byte_out (take (tried acks) bs) acks) \<and>
    ans h' = drop (tried acks) acks @ rest"
proof -
  obtain h1 where h1: "do { h \<leftarrow> (if first then i2c_start ops h else i2c_restart ops h); i2c_bit_send_address ops retries (write_msg a bs) h } = Some (RT_EOK, h1)"
    "log h1 = log h @ begin_out first @ polls_out (addr_byte a False) j @ byte_out (addr_byte a False) False" "ans h1 = acks @ rest"
    using xfer_address_wires [OF w ans(1,2), of "write_msg a bs" False first] by auto
  obtain h2 where h2: "i2c_send_bytes ops False 0 bs h1 = Some (if True \<in> set acks then 0 else int (length bs), h2)"
    "log h2 = log h1 @ concat (map2 byte_out (take (tried acks) bs) acks)" "ans h2 = drop (tried acks) acks @ rest"
    using i2c_send_bytes_wires [OF w h1(3) ans(3), of 0] by auto
  have "True \<in> set acks \<Longrightarrow> 0 < length bs"
    using ans(3) by (cases acks) auto
  then show ?thesis
    using h1 h2 by (auto simp: i2c_xfer_msg_def Let_def)
qed

lemma xfer_read_wires:
  assumes w: "wired ops log ans" and ans: "ans h = replicate j True @ False # concat (map bits_of bs) @ rest" "j \<le> retries" "length old = length bs"
  shows "\<exists>h'. i2c_xfer_msg ops retries first (read_msg a old) h = Some (True, int (length bs), read_msg a bs, h') \<and>
    log h' = log h @ begin_out first @ polls_out (addr_byte a True) j @ byte_out (addr_byte a True) False @
      concat (map2 (\<lambda>b k. byte_in b @ ack_out (0 < k)) bs (rev [0..<length bs])) \<and>
    ans h' = rest"
proof -
  obtain h1 where h1: "do { h \<leftarrow> (if first then i2c_start ops h else i2c_restart ops h); i2c_bit_send_address ops retries (read_msg a old) h } = Some (RT_EOK, h1)"
    "log h1 = log h @ begin_out first @ polls_out (addr_byte a True) j @ byte_out (addr_byte a True) False" "ans h1 = concat (map bits_of bs) @ rest"
    using xfer_address_wires [OF w ans(1,2), of "read_msg a old" True first] by auto
  obtain h2 where "i2c_recv_bytes ops False 0 (length bs) h1 = Some (int (length bs), bs, h2)"
    "log h2 = log h1 @ concat (map2 (\<lambda>b k. byte_in b @ ack_out (0 < k)) bs (rev [0..<length bs]))" "ans h2 = rest"
    using i2c_recv_bytes_wires [OF w h1(3), of 0] by auto
  then show ?thesis
    using h1 ans(3) by (auto simp: i2c_xfer_msg_def Let_def)
qed

section \<open>Conversations\<close>

text \<open>
  What goes over the bus for a message when the slave acknowledges everything, in terms of the message after the transfer, when the buffer holds what was received. The
  master acknowledges each byte it reads but the last. \<open>replies\<close> is what the slave puts on the data line.
\<close>

abbreviation rd :: "rt_i2c_msg \<Rightarrow> bool" where "rd m \<equiv> i2c_flags m = RT_I2C_RD"

definition plain :: "rt_i2c_msg \<Rightarrow> bool" where
  "plain m \<longleftrightarrow> i2c_flags m = 0 \<or> rd m"

definition talk :: "rt_i2c_msg \<Rightarrow> bus_symbol list" where
  "talk m = Start # frame (addr_byte (i2c_addr m) (rd m)) False @
    (if rd m then concat (map2 (\<lambda>b k. frame b (k = 0)) (i2c_buf m) (rev [0..<length (i2c_buf m)]))
     else concat (map (\<lambda>b. frame b False) (i2c_buf m)))"

definition replies :: "rt_i2c_msg \<Rightarrow> bool list" where
  "replies m = False # (if rd m then concat (map bits_of (i2c_buf m)) else replicate (length (i2c_buf m)) False)"

definition filled :: "rt_i2c_msg \<Rightarrow> rt_i2c_msg \<Rightarrow> bool" where
  "filled m m' \<longleftrightarrow> plain m \<and> i2c_addr m' = i2c_addr m \<and> i2c_flags m' = i2c_flags m \<and>
    length (i2c_buf m') = length (i2c_buf m) \<and> (\<not> rd m \<longrightarrow> i2c_buf m' = i2c_buf m)"

text \<open>The bus before message number \<open>i\<close>.\<close>

definition bus_at :: "nat \<Rightarrow> bool \<times> clock \<Rightarrow> bool" where
  "bus_at i s \<longleftrightarrow> (if i = 0 then s = idle_bus else snd s = Low)"

lemma watch_begin_out: "bus_at i s \<Longrightarrow> watch s (begin_out (i = 0)) = ([Start], False, Low)"
  by (cases s) (auto simp: bus_at_def begin_out_def)

lemma watch_stop_out: "watch (d, Low) stop_out = ([Stop], idle_bus)"
  by simp

lemma all_acked: "tried (replicate n False) = Suc n" "map2 f bs (replicate (length bs) False) = map (\<lambda>b. f b False) bs"
  by (induction n) (auto simp: tried_def, induction bs, auto)

lemma xfer_msg_talk:
  assumes w: "wired ops log ans" and m: "filled m m'" and ans: "ans h = replies m' @ rest"
  shows "\<exists>h' es ret. i2c_xfer_msg ops retries (i = 0) m h = Some (True, ret, m', h') \<and> log h' = log h @ es \<and> ans h' = rest \<and>
    (\<forall>s. bus_at i s \<longrightarrow> (\<exists>d. watch s es = (talk m', d, Low)))"
proof (cases "rd m")
  case True
  then have eq: "m = read_msg (i2c_addr m) (i2c_buf m)" "m' = read_msg (i2c_addr m) (i2c_buf m')"
    using m by (auto simp: filled_def)
  have "rd m'" "i2c_addr m' = i2c_addr m"
    using m True by (simp_all add: filled_def)
  have "ans h = replicate 0 True @ False # concat (map bits_of (i2c_buf m')) @ rest"
    using ans \<open>rd m'\<close> by (simp add: replies_def)
  moreover have "length (i2c_buf m) = length (i2c_buf m')"
    using m by (simp add: filled_def)
  ultimately show ?thesis
    using xfer_read_wires [OF w _ le0, of h "i2c_buf m'" rest "i2c_buf m" retries "i = 0" "i2c_addr m"] eq
      \<open>rd m'\<close> \<open>i2c_addr m' = i2c_addr m\<close>
    by (auto simp: watch_begin_out talk_def polls_out_def)
next
  case False
  then have eq: "m = write_msg (i2c_addr m) (i2c_buf m)" "m' = m"
    using m by (auto simp: filled_def plain_def)
  have "ans h = replicate 0 True @ False # replicate (length (i2c_buf m)) False @ rest"
    using ans eq False by (simp add: replies_def)
  then show ?thesis
    using xfer_write_wires [OF w _ le0, of h "replicate (length (i2c_buf m)) False" rest "i2c_buf m" retries "i = 0" "i2c_addr m"] eq False
    by (auto simp: watch_begin_out talk_def polls_out_def all_acked)
qed

lemma xfer_loop_talk:
  assumes w: "wired ops log ans" and "list_all2 filled ms ms'" and "ans h = concat (map replies ms') @ rest"
  shows "\<exists>h' es. xfer_loop ops retries i ms h = Some (int (i + length ms), if ms = [] then None else Some (last ms'), ms', h') \<and>
    log h' = log h @ es \<and> ans h' = rest \<and>
    (\<forall>s. bus_at i s \<longrightarrow> (\<exists>s'. bus_at (i + length ms) s' \<and> watch s es = (concat (map talk ms'), s')))"
  using assms(2,3)
proof (induction ms arbitrary: ms' i h)
  case (Cons m ms)
  then obtain m' ns where ms': "ms' = m' # ns" "filled m m'" "list_all2 filled ms ns"
    by (auto simp: list_all2_Cons1)
  obtain h1 es ret where h1: "i2c_xfer_msg ops retries (i = 0) m h = Some (True, ret, m', h1)" "log h1 = log h @ es"
    "ans h1 = concat (map replies ns) @ rest" "\<And>s. bus_at i s \<Longrightarrow> \<exists>d. watch s es = (talk m', d, Low)"
    using xfer_msg_talk [OF w ms'(2), of h "concat (map replies ns) @ rest" retries i] Cons.prems ms'(1) by auto
  obtain h2 fs where h2: "xfer_loop ops retries (Suc i) ms h1 =
      Some (int (Suc i + length ms), if ms = [] then None else Some (last ns), ns, h2)"
    "log h2 = log h1 @ fs" "ans h2 = rest"
    "\<And>s. bus_at (Suc i) s \<Longrightarrow> \<exists>s'. bus_at (Suc i + length ms) s' \<and> watch s fs = (concat (map talk ns), s')"
    using Cons.IH [OF ms'(3) h1(3), of "Suc i"] by auto
  have "\<exists>s'. bus_at (i + length (m # ms)) s' \<and> watch s (es @ fs) = (concat (map talk ms'), s')" if "bus_at i s" for s
  proof -
    obtain d where d: "watch s es = (talk m', d, Low)"
      using h1(4) \<open>bus_at i s\<close> by blast
    show ?thesis
      using d h2(4) [of "(d, Low)"] ms'(1) by (auto simp: bus_at_def)
  qed
  moreover have "ms = [] \<longleftrightarrow> ns = []"
    using ms'(3) by auto
  ultimately show ?case
    using h1 h2 ms'(1) by auto
qed simp

text \<open>
  C33: When the slave acknowledges, a transfer puts on the bus exactly the messages in their order, each after a start, and a stop at the end; the bus is then idle. It
  returns the number of messages, and the buffers of the messages that read hold the bytes the slave sent.
\<close>

theorem i2c_conversation:
  assumes "wired ops log ans" and "list_all2 filled ms ms'" and "ms \<noteq> []" and "ans h = concat (map replies ms') @ rest"
  shows "\<exists>h' es. i2c_bit_xfer ops retries ms h = Some (int (length ms), ms', h') \<and> ans h' = rest \<and>
    log h' = log h @ es \<and> watch idle_bus es = (concat (map talk ms') @ [Stop], idle_bus)"
proof -
  obtain h1 es where h1: "xfer_loop ops retries 0 ms h = Some (int (length ms), Some (last ms'), ms', h1)" "log h1 = log h @ es" "ans h1 = rest"
    and "\<And>s. bus_at 0 s \<Longrightarrow> \<exists>s'. bus_at (length ms) s' \<and> watch s es = (concat (map talk ms'), s')"
    using xfer_loop_talk [OF assms(1,2,4), of retries 0] assms(3) by auto
  then obtain d where d: "watch idle_bus es = (concat (map talk ms'), d, Low)"
    using assms(3) unfolding bus_at_def by (metis length_0_conv prod.collapse)
  obtain h2 where h2: "i2c_stop ops h1 = Some h2" "log h2 = log h1 @ stop_out" "ans h2 = ans h1"
    using i2c_stop_wires [OF assms(1)] by blast
  have "filled (last ms) (last ms')"
    using assms(2,3) by (metis last_conv_nth length_greater_0_conv list_all2_conv_all_nth diff_less zero_less_one)
  then have "i2c_flags (last ms') AND RT_I2C_NO_STOP = 0"
    by (auto simp: filled_def plain_def)
  then show ?thesis
    using h1 h2 d by (auto simp: i2c_bit_xfer_def)
qed

theorem i2c_conversation_witness:
  "\<exists>h' es. i2c_bit_xfer tape 0 [write_msg 0x3C [0x10], read_msg 0x3C [0, 0]]
      ([], concat (map replies [write_msg 0x3C [0x10], read_msg 0x3C [0xA5, 0x0F]])) =
        Some (2, [write_msg 0x3C [0x10], read_msg 0x3C [0xA5, 0x0F]], h') \<and>
    snd h' = [] \<and> fst h' = es \<and>
    watch idle_bus es = (concat (map talk [write_msg 0x3C [0x10], read_msg 0x3C [0xA5, 0x0F]]) @ [Stop], idle_bus)"
  using i2c_conversation [OF wired_tape, of "[write_msg 0x3C [0x10], read_msg 0x3C [0, 0]]"
      "[write_msg 0x3C [0x10], read_msg 0x3C [0xA5, 0x0F]]"
      "([], concat (map replies [write_msg 0x3C [0x10], read_msg 0x3C [0xA5, 0x0F]]))" "[]" 0]
  by (simp add: filled_def plain_def)

text \<open>Without a slave at the address, or with one that stays busy, the driver gives up after its retries.\<close>

lemma xfer_refused_wires:
  assumes w: "wired ops log ans" and "plain m" and ans: "ans h = replicate (Suc retries) True @ rest"
  shows "\<exists>h'. i2c_bit_xfer ops retries (m # ms) h = Some (- RT_EIO, m # ms, h') \<and> ans h' = rest \<and>
    log h' = log h @ start_out @ polls_out (addr_byte (i2c_addr m) (rd m)) retries @ byte_out (addr_byte (i2c_addr m) (rd m)) True @ stop_out"
proof -
  obtain h1 where h1: "i2c_start ops h = Some h1" "log h1 = log h @ start_out" "ans h1 = ans h"
    using i2c_start_wires [OF w] by blast
  obtain h2 where h2: "i2c_send_address ops (addr_byte (i2c_addr m) (rd m)) retries h1 = Some (0, h2)" "ans h2 = rest"
    "log h2 = log h1 @ polls_out (addr_byte (i2c_addr m) (rd m)) retries @ byte_out (addr_byte (i2c_addr m) (rd m)) True"
    using i2c_send_address_refused [OF w, of h1 retries rest] ans h1(3) by auto
  obtain h3 where h3: "i2c_stop ops h2 = Some h3" "log h3 = log h2 @ stop_out" "ans h3 = ans h2"
    using i2c_stop_wires [OF w] by blast
  have "i2c_bit_send_address ops retries m h1 = Some (- RT_EIO, h2)" "i2c_flags m AND RT_I2C_NO_STOP = 0"
    using h2(1) \<open>plain m\<close> by (auto simp: plain_def i2c_bit_send_address_def addr_byte_def Let_def)
  then show ?thesis
    using h1 h2 h3 \<open>plain m\<close> by (auto simp: plain_def i2c_bit_xfer_def i2c_xfer_msg_def Let_def)
qed

text \<open>What the bus shows of a message whose slave is busy for \<open>j\<close> tries.\<close>

definition polled :: "u8 \<Rightarrow> nat \<Rightarrow> bus_symbol list" where
  "polled b j = Start # concat (replicate j (frame b True @ [Stop, Start]))"

text \<open>
  A slave that is busy is asked again, one that is not there is given up with \<open>RT_EIO\<close>, and after a byte that it refuses no further byte is sent. In each case the bus
  is released.
\<close>

theorem i2c_write_refused:
  assumes w: "wired ops log ans" and "length acks = length bs" and "True \<in> set acks" and "j \<le> retries"
    and ans: "ans h = (if busy then replicate (Suc retries) True else replicate j True @ False # acks) @ rest"
  shows "\<exists>h' es. i2c_bit_xfer ops retries [write_msg a bs] h = Some (if busy then - RT_EIO else - RT_ERROR, [write_msg a bs], h') \<and>
    log h' = log h @ es \<and>
    watch idle_bus es =
      ((if busy then polled (addr_byte a False) retries @ frame (addr_byte a False) True
        else polled (addr_byte a False) j @ frame (addr_byte a False) False @ concat (map2 frame (take (tried acks) bs) acks)) @ [Stop],
       idle_bus)"
proof (cases busy)
  case True
  then show ?thesis
    using xfer_refused_wires [OF w, of "write_msg a bs" h retries rest "[]"] ans by (auto simp: plain_def polled_def)
next
  case False
  obtain h1 where h1: "i2c_xfer_msg ops retries True (write_msg a bs) h = Some (False, - RT_ERROR, write_msg a bs, h1)"
    "log h1 = log h @ start_out @ polls_out (addr_byte a False) j @ byte_out (addr_byte a False) False @ concat (map2 byte_out (take (tried acks) bs) acks)"
    using xfer_write_wires [OF w, of h j acks rest retries bs True a] assms(2-4) ans False by (auto simp: begin_out_def)
  obtain h2 where "i2c_stop ops h1 = Some h2" "log h2 = log h1 @ stop_out"
    using i2c_stop_wires [OF w] by blast
  then show ?thesis
    using h1 False by (auto simp: i2c_bit_xfer_def polled_def)
qed

theorem i2c_write_refused_witness:
  "\<exists>h' es. i2c_bit_xfer tape 2 [write_msg 0x3C [0x10, 0x20]] ([], [True, False, True, False]) = Some (- RT_ERROR, [write_msg 0x3C [0x10, 0x20]], h') \<and>
    fst h' = es \<and> watch idle_bus es = (polled 0x78 1 @ frame 0x78 False @ frame 0x10 True @ [Stop], idle_bus)"
  using i2c_write_refused [OF wired_tape, of "[True, False]" "[0x10, 0x20]" 1 2 "([], [True, False, True, False])" False "[]" "0x3C"]
  by (simp add: tried_def addr_byte_def)

section \<open>A slave that holds the clock\<close>

text \<open>Waiting for the clock ends as the kernel's clock goes on, with a timeout if the line stays low. A timeout of 0 would wait for ever.\<close>

lemma scl_wait_returns:
  assumes tick: "\<And>n h. tick_get ops (thread_delay ops n h) = tick_get ops h + n" "\<And>h. tick_get ops (snd (get h)) = tick_get ops h"
    and timeout: "0 < unat (i2c_timeout ops)" "unat (i2c_timeout ops) < 2 ^ 31"
  shows "\<exists>r h'. scl_wait ops get start h = Some (r, h') \<and> (r = RT_EOK \<or> r = - RT_ETIMEOUT) \<and> ((\<forall>h. \<not> fst (get h)) \<longrightarrow> r = - RT_ETIMEOUT)"
proof (induction "Suc (unat (i2c_timeout ops)) - unat (tick_get ops h - start)" arbitrary: h rule: less_induct)
  case less
  obtain high h1 where h1: "get h = (high, h1)" "tick_get ops h1 = tick_get ops h"
    using tick(2) [of h] by (cases "get h") auto
  define e where "e = tick_get ops h - start"
  define d :: u32 where "d = drop_bit 1 (i2c_timeout ops + 1)"
  show ?case
  proof (cases "high \<or> i2c_timeout ops < e")
    case True
    moreover have "high \<Longrightarrow> \<exists>h. fst (get h)"
      using h1(1) by (metis fst_conv)
    ultimately show ?thesis
      using h1 by (subst (1) scl_wait.simps) (auto simp: e_def)
  next
    case False
    have "unat (i2c_timeout ops + 1) = unat (i2c_timeout ops) + 1"
      using timeout(2) by (simp add: unat_word_ariths take_bit_nat_eq_self)
    then have d: "unat d = (unat (i2c_timeout ops) + 1) div 2"
      by (simp add: d_def drop_bit_eq_div unat_div)
    have e: "unat e \<le> unat (i2c_timeout ops)"
      using False by (simp add: word_le_nat_alt not_less)
    have "unat (e + d) = unat e + unat d"
      using e d timeout(2) by (simp add: unat_word_ariths take_bit_nat_eq_self)
    moreover have "tick_get ops (thread_delay ops d h1) - start = e + d"
      using tick(1) h1(2) by (simp add: e_def)
    ultimately have "Suc (unat (i2c_timeout ops)) - unat (tick_get ops (thread_delay ops d h1) - start) <
        Suc (unat (i2c_timeout ops)) - unat (tick_get ops h - start)"
      using d timeout(1) e by (simp add: e_def [symmetric])
    from less.hyps [OF this] show ?thesis
      using False h1 by (subst (1) scl_wait.simps) (auto simp: e_def d_def)
  qed
qed

end
