(* ===== verification/Dev_Soft_I2C.thy ===== *)
theory Dev_Soft_I2C
  imports Dev_I2C_Wire
begin

text \<open>
  The board's part of the I2C bus, \<open>drivers/drv_soft_i2c.c\<close>: the two lines are pins, and a delay is counted on the SysTick. The pins, the SysTick and the clock of the
  kernel are a parameter; what they do is stated where it is used.
\<close>

section \<open>Operations\<close>

record 'h board =
  rt_pin_write :: "u8 \<Rightarrow> bool \<Rightarrow> 'h \<Rightarrow> 'h"
  rt_pin_read :: "u8 \<Rightarrow> 'h \<Rightarrow> bool \<times> 'h"
  systick_LOAD :: "'h \<Rightarrow> u32"
  systick_VAL :: "'h \<Rightarrow> u32 \<times> 'h"
  board_tick_get :: "'h \<Rightarrow> u32" \<comment> \<open>\<open>rt_tick_get\<close>\<close>
  board_thread_delay :: "u32 \<Rightarrow> 'h \<Rightarrow> 'h" \<comment> \<open>\<open>rt_thread_delay\<close>\<close>

record stm32_soft_i2c_config =
  cfg_scl :: u8
  cfg_sda :: u8

definition stm32_set_sda :: "'h board \<Rightarrow> stm32_soft_i2c_config \<Rightarrow> bool \<Rightarrow> 'h \<Rightarrow> 'h" where
  "stm32_set_sda hw cfg state h = (if state then rt_pin_write hw (cfg_sda cfg) True h else rt_pin_write hw (cfg_sda cfg) False h)"

definition stm32_set_scl :: "'h board \<Rightarrow> stm32_soft_i2c_config \<Rightarrow> bool \<Rightarrow> 'h \<Rightarrow> 'h" where
  "stm32_set_scl hw cfg state h = (if state then rt_pin_write hw (cfg_scl cfg) True h else rt_pin_write hw (cfg_scl cfg) False h)"

definition stm32_get_sda :: "'h board \<Rightarrow> stm32_soft_i2c_config \<Rightarrow> 'h \<Rightarrow> bool \<times> 'h" where
  "stm32_get_sda hw cfg h = rt_pin_read hw (cfg_sda cfg) h"

definition stm32_get_scl :: "'h board \<Rightarrow> stm32_soft_i2c_config \<Rightarrow> 'h \<Rightarrow> bool \<times> 'h" where
  "stm32_get_scl hw cfg h = rt_pin_read hw (cfg_scl cfg) h"

text \<open>The counter runs down from \<open>reload\<close>; the loop reads it until \<open>tcnt\<close> counts are over.\<close>

partial_function (option) udelay_loop :: "'h board \<Rightarrow> u32 \<Rightarrow> u32 \<Rightarrow> u32 \<Rightarrow> u32 \<Rightarrow> 'h \<Rightarrow> 'h option" where
  "udelay_loop hw reload ticks told tcnt h =
    (case systick_VAL hw h of (tnow, h) \<Rightarrow>
       if tnow \<noteq> told then
         let tcnt = tcnt + (if tnow < told then told - tnow else reload - tnow + told)
         in if ticks \<le> tcnt then Some h else udelay_loop hw reload ticks tnow tcnt h
       else udelay_loop hw reload ticks told tcnt h)"

definition stm32_udelay :: "'h board \<Rightarrow> u32 \<Rightarrow> 'h \<Rightarrow> 'h option" where
  "stm32_udelay hw us h =
    (let reload = systick_LOAD hw h;
         ticks = us * reload div (1000000 div 1000)
     in case systick_VAL hw h of (told, h) \<Rightarrow> udelay_loop hw reload ticks told 0 h)"

definition stm32_bit_ops :: "'h board \<Rightarrow> stm32_soft_i2c_config \<Rightarrow> 'h rt_i2c_bit_ops" where
  "stm32_bit_ops hw cfg =
    \<lparr>set_sda = stm32_set_sda hw cfg,
     set_scl = stm32_set_scl hw cfg,
     get_sda = stm32_get_sda hw cfg,
     get_scl = Some (stm32_get_scl hw cfg),
     udelay = stm32_udelay hw,
     delay_us = 1,
     i2c_timeout = 100,
     tick_get = board_tick_get hw,
     thread_delay = board_thread_delay hw\<rparr>"

fun unlock_pulses :: "'h board \<Rightarrow> stm32_soft_i2c_config \<Rightarrow> nat \<Rightarrow> 'h \<Rightarrow> 'h option" where
  "unlock_pulses hw cfg 0 h = Some h"
| "unlock_pulses hw cfg (Suc n) h =
    do {
      h \<leftarrow> stm32_udelay hw 100 (rt_pin_write hw (cfg_scl cfg) True h);
      h \<leftarrow> stm32_udelay hw 100 (rt_pin_write hw (cfg_scl cfg) False h);
      unlock_pulses hw cfg n h
    }"

definition stm32_i2c_bus_unlock :: "'h board \<Rightarrow> stm32_soft_i2c_config \<Rightarrow> 'h \<Rightarrow> (rt_err_t \<times> 'h) option" where
  "stm32_i2c_bus_unlock hw cfg h =
    (case rt_pin_read hw (cfg_sda cfg) h of (high, h) \<Rightarrow>
       do {
         h \<leftarrow> (if \<not> high then unlock_pulses hw cfg 9 h else Some h);
         case rt_pin_read hw (cfg_sda cfg) h of (high, h) \<Rightarrow> Some (if \<not> high then - RT_ERROR else RT_EOK, h)
       })"

section \<open>The delay\<close>

text \<open>
  The SysTick runs down from \<open>R\<close> to 0 and starts again; \<open>t\<close> is the number of its steps so far, and a reading takes at least one step and less than a round. The register
  has 24 bits.
\<close>

definition tick_value :: "nat \<Rightarrow> nat \<Rightarrow> nat" where
  "tick_value r n = r - n mod Suc r"

definition systick_runs :: "'h board \<Rightarrow> u32 \<Rightarrow> ('h \<Rightarrow> nat) \<Rightarrow> bool" where
  "systick_runs hw R t \<longleftrightarrow> 0 < unat R \<and> unat R < 2 ^ 24 \<and>
    (\<forall>h. systick_LOAD hw h = R \<and>
      (\<exists>h'. systick_VAL hw h = (of_nat (tick_value (unat R) (t h')), h') \<and> t h < t h' \<and> t h' \<le> t h + unat R))"

definition counted :: "u32 \<Rightarrow> u32 \<Rightarrow> u32 \<Rightarrow> u32" where
  "counted R told tnow = (if tnow < told then told - tnow else R - tnow + told)"

lemma tick_value_le [simp]: "tick_value r n \<le> r"
  by (simp add: tick_value_def)

text \<open>A reading counts what has passed, or one less when the counter has started again.\<close>

lemma elapsed_mod:
  fixes a b r :: nat
  assumes "a < b" "b \<le> a + r"
  shows "(a mod Suc r < b mod Suc r \<and> b mod Suc r - a mod Suc r = b - a) \<or>
    (b mod Suc r < a mod Suc r \<and> b mod Suc r + (r - a mod Suc r) + 1 = b - a)"
proof -
  obtain d where d: "b = a + d" "0 < d" "d \<le> r"
    using assms by (metis add_diff_inverse_nat add_le_cancel_left less_imp_add_positive nat_add_left_cancel_le)
  define x where "x = a mod Suc r"
  have x: "x \<le> r" "b mod Suc r = (x + d) mod Suc r"
    using d(1) by (auto simp: x_def mod_add_left_eq less_Suc_eq_le [symmetric])
  show ?thesis
  proof (cases "x + d \<le> r")
    case True
    then show ?thesis
      using d x by (simp add: x_def [symmetric])
  next
    case False
    then have "(x + d) mod Suc r = x + d - Suc r"
      using d(3) x(1) by (simp add: mod_if)
    then show ?thesis
      using False d x by (simp add: x_def [symmetric])
  qed
qed

lemma counted_elapsed:
  assumes "a < b" "b \<le> a + unat R" "unat R < 2 ^ 24"
    and "told = of_nat (tick_value (unat R) a)" "tnow = of_nat (tick_value (unat R) b)"
  shows "tnow \<noteq> told"
    and "unat (counted R told tnow) \<le> b - a" "b - a \<le> unat (counted R told tnow) + 1" "unat (counted R told tnow) \<le> unat R"
    and "unat (counted R told tnow) = 0 \<Longrightarrow> a mod Suc (unat R) = unat R \<and> b mod Suc (unat R) \<noteq> unat R \<or> unat R = 0"
proof -
  define r x y where "r = unat R" "x = tick_value r a" "y = tick_value r b"
  have R: "R = of_nat r"
    by (simp add: r_x_y_def(1))
  have le: "x \<le> r" "y \<le> r" "r < 2 ^ 24"
    using assms(3) by (simp_all add: r_x_y_def)
  have un: "unat (of_nat n :: u32) = n" if "n \<le> 2 * r" for n
    using that le(3) by (simp add: unat_of_nat take_bit_nat_eq_self)
  have told: "told = of_nat x" "tnow = of_nat y"
    using assms(4,5) by (simp_all add: r_x_y_def)
  have less: "tnow < told \<longleftrightarrow> y < x"
    using un [of x] un [of y] le told by (simp add: word_less_nat_alt)
  have c: "unat (counted R told tnow) = (if y < x then x - y else r - y + x)"
  proof (cases "y < x")
    case True
    then have "told - tnow = of_nat (x - y)"
      using told by (simp add: of_nat_diff)
    then show ?thesis
      using True less un [of "x - y"] le by (simp add: counted_def)
  next
    case False
    have "R - tnow + told = of_nat (r - y + x)"
      using told R le by (simp add: of_nat_diff)
    then show ?thesis
      using False less un [of "r - y + x"] le by (simp add: counted_def)
  qed
  have m: "a mod Suc r = r - x" "b mod Suc r = r - y"
    using mod_less_divisor [of "Suc r" a] mod_less_divisor [of "Suc r" b] unfolding r_x_y_def(2,3) tick_value_def by auto
  have ab: "(y < x \<and> x - y = b - a) \<or> (x < y \<and> r - y + x + 1 = b - a)"
    using elapsed_mod [of a b r] assms(1,2) le unfolding m r_x_y_def(1) [symmetric] by auto
  show "tnow \<noteq> told"
    using ab un [of x] un [of y] le told by auto
  show "unat (counted R told tnow) \<le> b - a" "b - a \<le> unat (counted R told tnow) + 1" "unat (counted R told tnow) \<le> unat R"
    using c ab m le by (auto simp: r_x_y_def(1) [symmetric])
  show "unat (counted R told tnow) = 0 \<Longrightarrow> a mod Suc (unat R) = unat R \<and> b mod Suc (unat R) \<noteq> unat R \<or> unat R = 0"
    using c ab m le by (auto simp: r_x_y_def(1) [symmetric] split: if_splits)
qed

text \<open>The loop ends, and not before the counts are over; \<open>P\<close> is whatever the SysTick has no part in.\<close>

lemma udelay_loop_ends:
  assumes sys: "systick_runs hw R t" and P: "\<And>h. P (snd (systick_VAL hw h)) = P h"
    and "told = of_nat (tick_value (unat R) (t h))" and "unat ticks + unat R < 2 ^ 32" and "tcnt \<le> ticks"
  shows "\<exists>h'. udelay_loop hw R ticks told tcnt h = Some h' \<and> P h' = P h \<and> unat ticks + t h \<le> unat tcnt + t h'"
  using assms(3-)
proof (induction "2 * (unat ticks - unat tcnt) + (if t h mod Suc (unat R) = unat R then 1 else 0)" arbitrary: h tcnt told rule: less_induct)
  case less
  obtain h1 where h1: "systick_VAL hw h = (of_nat (tick_value (unat R) (t h1)), h1)" "t h < t h1" "t h1 \<le> t h + unat R"
    using sys unfolding systick_runs_def by blast
  define tnow where "tnow = (of_nat (tick_value (unat R) (t h1)) :: u32)"
  have "unat R < 2 ^ 24" "0 < unat R"
    using sys by (simp_all add: systick_runs_def)
  note c = counted_elapsed [OF h1(2,3) \<open>unat R < 2 ^ 24\<close> less.prems(1) tnow_def]
  define tcnt' where "tcnt' = tcnt + counted R told tnow"
  have "unat tcnt + unat (counted R told tnow) < 2 ^ 32"
    using less.prems(2,3) c(4) by (simp add: word_le_nat_alt)
  then have u: "unat tcnt' = unat tcnt + unat (counted R told tnow)"
    by (simp add: tcnt'_def unat_word_ariths take_bit_nat_eq_self)
  have step: "udelay_loop hw R ticks told tcnt h = (if ticks \<le> tcnt' then Some h1 else udelay_loop hw R ticks tnow tcnt' h1)"
    using c(1) h1(1) by (subst udelay_loop.simps) (simp add: tnow_def [symmetric] tcnt'_def counted_def)
  have P1: "P h1 = P h"
    using P [of h] h1(1) by simp
  show ?case
  proof (cases "ticks \<le> tcnt'")
    case True
    then show ?thesis
      using step P1 u c(2) h1(2) by (auto simp: word_le_nat_alt)
  next
    case False
    then have "unat tcnt' < unat ticks"
      by (simp add: word_le_nat_alt)
    then have "2 * (unat ticks - unat tcnt') + (if t h1 mod Suc (unat R) = unat R then 1 else 0) <
        2 * (unat ticks - unat tcnt) + (if t h mod Suc (unat R) = unat R then 1 else (0 :: nat))"
      using u c(5) \<open>0 < unat R\<close> by (cases "unat (counted R told tnow)") auto
    then obtain h' where "udelay_loop hw R ticks tnow tcnt' h1 = Some h'" "P h' = P h1" "unat ticks + t h1 \<le> unat tcnt' + t h'"
      using less.hyps [of tcnt' h1 tnow] less.prems(2) \<open>unat tcnt' < unat ticks\<close> tnow_def
      by (auto simp: word_le_nat_alt)
    then show ?thesis
      using step False P1 u c(2) h1(2) by auto
  qed
qed

text \<open>
  \<open>stm32_udelay\<close> returns, and the SysTick has counted the time asked for: \<open>R\<close> is one less than the steps of a millisecond.
\<close>

lemma stm32_udelay_returns:
  assumes sys: "systick_runs hw R t" and P: "\<And>h. P (snd (systick_VAL hw h)) = P h"
  shows "\<exists>h'. stm32_udelay hw us h = Some h' \<and> P h' = P h \<and>
    (unat us * unat R < 2 ^ 32 \<longrightarrow> t h + unat us * unat R div 1000 \<le> t h')"
proof -
  obtain h1 where h1: "systick_VAL hw h = (of_nat (tick_value (unat R) (t h1)), h1)" "t h < t h1"
    using sys unfolding systick_runs_def by blast
  define ticks where "ticks = us * R div (1000000 div 1000)"
  have "unat ticks = unat (us * R) div 1000"
    by (simp add: ticks_def unat_div)
  moreover have "unat (us * R) div 1000 < 4294968"
    using unat_less_32 [of "us * R"] by (simp add: div_less_iff_less_mult)
  ultimately have "unat ticks + unat R < 2 ^ 32"
    using sys by (simp add: systick_runs_def)
  then obtain h' where h': "udelay_loop hw R ticks (of_nat (tick_value (unat R) (t h1))) 0 h1 = Some h'" "P h' = P h1" "unat ticks + t h1 \<le> t h'"
    using udelay_loop_ends [where P = P, OF sys P, of _ h1 ticks 0] by auto
  have "stm32_udelay hw us h = Some h'"
    using sys h1(1) h'(1) by (simp add: stm32_udelay_def ticks_def systick_runs_def Let_def)
  moreover have "unat ticks = unat us * unat R div 1000" if "unat us * unat R < 2 ^ 32"
    using that \<open>unat ticks = unat (us * R) div 1000\<close> by (simp add: unat_word_ariths take_bit_nat_eq_self)
  ultimately show ?thesis
    using h' h1 P [of h] by auto
qed

section \<open>The board as a bus\<close>

text \<open>The two pins are the two lines, the pin of the clock reads high when it has just been let go, and the SysTick runs beside them.\<close>

definition wired_board ::
  "'h board \<Rightarrow> stm32_soft_i2c_config \<Rightarrow> u32 \<Rightarrow> ('h \<Rightarrow> nat) \<Rightarrow> ('h \<Rightarrow> wire_event list) \<Rightarrow> ('h \<Rightarrow> bool list) \<Rightarrow> bool" where
  "wired_board hw cfg R t log ans \<longleftrightarrow>
    systick_runs hw R t \<and> (\<forall>h. log (snd (systick_VAL hw h)) = log h \<and> ans (snd (systick_VAL hw h)) = ans h) \<and>
    (\<forall>v h. log (rt_pin_write hw (cfg_sda cfg) v h) = log h @ [SDA v] \<and> ans (rt_pin_write hw (cfg_sda cfg) v h) = ans h) \<and>
    (\<forall>v h. log (rt_pin_write hw (cfg_scl cfg) v h) = log h @ [SCL v] \<and> ans (rt_pin_write hw (cfg_scl cfg) v h) = ans h) \<and>
    (\<forall>a as h. ans h = a # as \<longrightarrow>
      (\<exists>h'. rt_pin_read hw (cfg_sda cfg) h = (a, h') \<and> log h' = log h @ [Got a] \<and> ans h' = as)) \<and>
    (\<forall>es h. log h = es @ [SCL True] \<longrightarrow>
      (\<exists>h'. rt_pin_read hw (cfg_scl cfg) h = (True, h') \<and> log h' = log h \<and> ans h' = ans h))"

lemma wired_board_delay:
  assumes "wired_board hw cfg R t log ans"
  shows "\<exists>h'. stm32_udelay hw us h = Some h' \<and> log h' = log h \<and> ans h' = ans h"
proof -
  have "systick_runs hw R t" "\<And>h. (\<lambda>h. (log h, ans h)) (snd (systick_VAL hw h)) = (\<lambda>h. (log h, ans h)) h"
    using assms by (simp_all add: wired_board_def)
  from stm32_udelay_returns [where P = "\<lambda>h. (log h, ans h)", OF this] show ?thesis
    by auto
qed

lemma stm32_wired:
  assumes "wired_board hw cfg R t log ans"
  shows "wired (stm32_bit_ops hw cfg) log ans"
  using assms wired_board_delay [OF assms]
  by (simp add: wired_def stm32_bit_ops_def wired_board_def stm32_set_sda_def stm32_set_scl_def stm32_get_sda_def stm32_get_scl_def)

lemma unlock_pulses_wires:
  assumes w: "wired_board hw cfg R t log ans"
  shows "\<exists>h'. unlock_pulses hw cfg n h = Some h' \<and> ans h' = ans h \<and> log h' = log h @ concat (replicate n [SCL True, SCL False])"
proof (induction n arbitrary: h)
  case (Suc n)
  let ?up = "rt_pin_write hw (cfg_scl cfg) True" and ?down = "rt_pin_write hw (cfg_scl cfg) False"
  obtain h1 where h1: "stm32_udelay hw 100 (?up h) = Some h1" "log h1 = log (?up h)" "ans h1 = ans (?up h)"
    using wired_board_delay [OF w] by blast
  obtain h2 where h2: "stm32_udelay hw 100 (?down h1) = Some h2" "log h2 = log (?down h1)" "ans h2 = ans (?down h1)"
    using wired_board_delay [OF w] by blast
  show ?case
    using h1 h2 Suc.IH [of h2] w by (auto simp: wired_board_def)
qed simp

lemma stm32_i2c_bus_unlock_wires:
  assumes w: "wired_board hw cfg R t log ans" and "ans h = False # free # rest"
  shows "\<exists>h'. stm32_i2c_bus_unlock hw cfg h = Some (if free then RT_EOK else - RT_ERROR, h') \<and> ans h' = rest \<and>
    log h' = log h @ Got False # concat (replicate 9 [SCL True, SCL False]) @ [Got free]"
proof -
  have look: "\<exists>h'. rt_pin_read hw (cfg_sda cfg) h = (a, h') \<and> log h' = log h @ [Got a] \<and> ans h' = as" if "ans h = a # as" for h a as
    using w that by (simp add: wired_board_def)
  obtain h1 where h1: "rt_pin_read hw (cfg_sda cfg) h = (False, h1)" "log h1 = log h @ [Got False]" "ans h1 = free # rest"
    using look [OF assms(2)] by blast
  obtain h2 where h2: "unlock_pulses hw cfg 9 h1 = Some h2" "ans h2 = free # rest"
    "log h2 = log h1 @ concat (replicate 9 [SCL True, SCL False])"
    using unlock_pulses_wires [OF w, of 9 h1] h1(3) by auto
  obtain h3 where "rt_pin_read hw (cfg_sda cfg) h2 = (free, h3)" "log h3 = log h2 @ [Got free]" "ans h3 = rest"
    using look [OF h2(2)] by blast
  then show ?thesis
    using h1 h2 by (auto simp: stm32_i2c_bus_unlock_def)
qed

text \<open>
  C34: Freeing a bus that a slave holds leaves the clock low. The next transfer then pulls the data line under a low clock, which is no start: what the bus shows of it is an
  address without a start and a stop, the slave cannot answer, and, as no bus is ever given retries, the transfer fails.
\<close>

theorem bus_unlock_loses_start:
  assumes w: "wired_board hw cfg R t log ans" and "ans h = False # free # True # rest" and "plain m"
  shows "\<exists>h1 h2 es fs. stm32_i2c_bus_unlock hw cfg h = Some (if free then RT_EOK else - RT_ERROR, h1) \<and> log h1 = log h @ es \<and>
    i2c_bit_xfer (stm32_bit_ops hw cfg) 0 (m # ms) h1 = Some (- RT_EIO, m # ms, h2) \<and> log h2 = log h1 @ fs \<and>
    watch (snd (watch idle_bus es)) fs = (frame (addr_byte (i2c_addr m) (rd m)) True @ [Stop], idle_bus)"
proof -
  obtain h1 where h1: "stm32_i2c_bus_unlock hw cfg h = Some (if free then RT_EOK else - RT_ERROR, h1)" "ans h1 = replicate (Suc 0) True @ rest"
    "log h1 = log h @ Got False # concat (replicate 9 [SCL True, SCL False]) @ [Got free]"
    using stm32_i2c_bus_unlock_wires [OF w, of h free "True # rest"] assms(2) by auto
  obtain h2 where h2: "i2c_bit_xfer (stm32_bit_ops hw cfg) 0 (m # ms) h1 = Some (- RT_EIO, m # ms, h2)"
    "log h2 = log h1 @ start_out @ polls_out (addr_byte (i2c_addr m) (rd m)) 0 @ byte_out (addr_byte (i2c_addr m) (rd m)) True @ stop_out"
    using xfer_refused_wires [OF stm32_wired [OF w] \<open>plain m\<close> h1(2)] by blast
  have "snd (watch idle_bus (Got False # concat (replicate 9 [SCL True, SCL False]) @ [Got free])) = (True, Low)"
    by (simp add: numeral_eq_Suc)
  then show ?thesis
    using h1 h2 by (fastforce simp: polls_out_def)
qed

text \<open>A board on which each reading of the SysTick takes one step, with pin 1 for the clock.\<close>

definition bench :: "(wire_event list \<times> bool list \<times> nat) board" where
  "bench =
    \<lparr>rt_pin_write = (\<lambda>pin v (l, a, n). (l @ [if pin = 1 then SCL v else SDA v], a, n)),
     rt_pin_read = (\<lambda>pin (l, a, n).
       if pin = 1 then (SCL True \<in> set l, (l, a, n))
       else case a of [] \<Rightarrow> (True, (l, a, n)) | x # xs \<Rightarrow> (x, (l @ [Got x], xs, n))),
     systick_LOAD = (\<lambda>_. 71999),
     systick_VAL = (\<lambda>(l, a, n). (of_nat (tick_value 71999 (Suc n)), (l, a, Suc n))),
     board_tick_get = (\<lambda>_. 0),
     board_thread_delay = (\<lambda>_ h. h)\<rparr>"

lemma systick_bench: "systick_runs bench 71999 (\<lambda>(l, a, n). n)"
  by (auto simp: systick_runs_def bench_def)

lemma wired_bench: "wired_board bench \<lparr>cfg_scl = 1, cfg_sda = 2\<rparr> 71999 (\<lambda>(l, a, n). n) (\<lambda>(l, a, n). l) (\<lambda>(l, a, n). a)"
  using systick_bench by (auto simp: wired_board_def) (auto simp: bench_def)

text \<open>The delays of the driver, 1 and 100 microseconds, last at least that long on the 72 MHz board.\<close>

theorem stm32_udelay_waits:
  assumes "systick_runs hw 71999 t" and "us \<le> 59653"
  shows "\<exists>h'. stm32_udelay hw us h = Some h' \<and> t h + unat us * 71999 div 1000 \<le> t h'"
proof -
  have "unat us * unat (71999 :: u32) < 2 ^ 32"
    using assms(2) by (simp add: word_le_nat_alt)
  then show ?thesis
    using stm32_udelay_returns [OF assms(1), of "\<lambda>_. ()" us h] by auto
qed

theorem stm32_udelay_waits_witness: "\<exists>h'. stm32_udelay bench 100 ([], [], 5) = Some h' \<and> 5 + 7199 \<le> (\<lambda>(l, a, n). n) h'"
  using stm32_udelay_waits [OF systick_bench, of 100 "([], [], 5)"] by simp

theorem bus_unlock_loses_start_witness:
  "\<exists>h1 h2 es fs. stm32_i2c_bus_unlock bench \<lparr>cfg_scl = 1, cfg_sda = 2\<rparr> ([], [False, True, True], 0) = Some (RT_EOK, h1) \<and> fst h1 = es \<and>
    i2c_bit_xfer (stm32_bit_ops bench \<lparr>cfg_scl = 1, cfg_sda = 2\<rparr>) 0 [write_msg 0x3C [0xAE]] h1 = Some (- RT_EIO, [write_msg 0x3C [0xAE]], h2) \<and>
    fst h2 = fst h1 @ fs \<and> watch (snd (watch idle_bus es)) fs = (frame 0x78 True @ [Stop], idle_bus)"
  using bus_unlock_loses_start [OF wired_bench, of "([], [False, True, True], 0)" True "[]" "write_msg 0x3C [0xAE]" "[]"]
  by (simp add: plain_def addr_byte_def case_prod_unfold)

end
