(* ===== verification/Finsh_Msh.thy ===== *)
theory Finsh_Msh
  imports RT_Printf RT_Object "HOL-Library.Sublist"
begin

text \<open>
  The commands of the shell, \<open>components/finsh/msh.c\<close> in its configuration without file system: splitting a line into arguments, finding and running a command, and
  completing its name. The line is a buffer of characters with its bounds, a pointer into it a position; \<open>None\<close> is an access outside the buffer. A command is a
  function of its arguments and of a state \<open>'w\<close> with a result and the text it prints; what a function here prints is the text of \<^const>\<open>format_text\<close>, of which
  \<open>rt_kprintf\<close> passes on what its buffer \<open>rt_log_buf\<close> holds: the text, or its first 254 characters and their terminator when it is longer.
\<close>

section \<open>Buffers and strings\<close>

abbreviation NUL :: char where "NUL \<equiv> CHR 0x00"

definition buf_get :: "string \<Rightarrow> nat \<Rightarrow> char option" where
  "buf_get b i = (if i < length b then Some (b ! i) else None)"

definition buf_set :: "string \<Rightarrow> nat \<Rightarrow> char \<Rightarrow> string option" where
  "buf_set b i c = (if i < length b then Some (b[i := c]) else None)"

text \<open>The string at a position, up to its terminator.\<close>

definition c_str :: "string \<Rightarrow> nat \<Rightarrow> string option" where
  "c_str b i = (if NUL \<in> set (drop i b) then Some (takeWhile (\<lambda>c. c \<noteq> NUL) (drop i b)) else None)"

fun c_strs :: "string \<Rightarrow> nat list \<Rightarrow> string list option" where
  "c_strs b [] = Some []"
| "c_strs b (i # is) = do { s \<leftarrow> c_str b i; ss \<leftarrow> c_strs b is; Some (s # ss) }"

text \<open>\<open>strncmp\<close> finds two strings equal.\<close>

definition strncmp_eq :: "string \<Rightarrow> string \<Rightarrow> nat \<Rightarrow> bool" where
  "strncmp_eq s t n \<longleftrightarrow> take n s = take n t"

text \<open>What \<open>rt_kprintf\<close> writes to the console device. It formats into 255 bytes and writes at most 255 bytes, so that a text of 255
  characters or more is written as its first 254 characters and a NUL (lemma \<open>kprintf_device\<close> below).\<close>

definition log_buf :: "string \<Rightarrow> string" where
  "log_buf t = (if length t < 255 then t else take 254 t @ [NUL])"

definition kprintf :: "string \<Rightarrow> arg list \<Rightarrow> string option" where
  "kprintf fmt args = map_option log_buf (format_text fmt args)"

section \<open>Splitting a line\<close>

abbreviation (input) FINSH_ARG_MAX :: nat where "FINSH_ARG_MAX \<equiv> 10"

definition blank :: "char \<Rightarrow> bool" where
  "blank c \<longleftrightarrow> c = CHR '' '' \<or> c = CHR 0x09"

text \<open>The loops of \<open>msh_split\<close> on the buffer \<open>b\<close> with the command at \<open>cmd\<close>; \<open>pos\<close> is the position in the command.\<close>

partial_function (option) skip_blanks :: "string \<Rightarrow> nat \<Rightarrow> nat \<Rightarrow> nat \<Rightarrow> (string \<times> nat) option" where
  "skip_blanks b cmd len pos =
    do {
      c \<leftarrow> buf_get b (cmd + pos);
      if blank c \<and> pos < len then do { b \<leftarrow> buf_set b (cmd + pos) NUL; skip_blanks b cmd len (pos + 1) }
      else Some (b, pos)
    }"

partial_function (option) skip_string :: "string \<Rightarrow> nat \<Rightarrow> nat \<Rightarrow> nat \<Rightarrow> nat option" where
  "skip_string b cmd len pos =
    do {
      c \<leftarrow> buf_get b (cmd + pos);
      if c \<noteq> CHR ''\"'' \<and> pos < len then
        if c = CHR 0x5C then
          do { d \<leftarrow> buf_get b (cmd + pos + 1); skip_string b cmd len (if d = CHR ''\"'' then pos + 2 else pos + 1) }
        else skip_string b cmd len (pos + 1)
      else Some pos
    }"

partial_function (option) skip_word :: "string \<Rightarrow> nat \<Rightarrow> nat \<Rightarrow> nat \<Rightarrow> nat option" where
  "skip_word b cmd len pos =
    do {
      c \<leftarrow> buf_get b (cmd + pos);
      if \<not> blank c \<and> pos < len then skip_word b cmd len (pos + 1) else Some pos
    }"

fun print_args :: "string list \<Rightarrow> string option" where
  "print_args [] = kprintf ''\<newline>'' []"
| "print_args (s # ss) = do { t \<leftarrow> kprintf ''%s '' [AStr (Some s)]; u \<leftarrow> print_args ss; Some (t @ u) }"

definition too_many :: "string \<Rightarrow> nat list \<Rightarrow> string option" where
  "too_many b argv =
    do {
      t \<leftarrow> kprintf ''Too many args ! We only Use:\<newline>'' [];
      ss \<leftarrow> c_strs b argv;
      u \<leftarrow> print_args ss;
      Some (t @ u)
    }"

text \<open>One argument: the buffer, the argument and the position behind it.\<close>

definition next_arg :: "string \<Rightarrow> nat \<Rightarrow> nat \<Rightarrow> nat \<Rightarrow> (string \<times> nat \<times> nat) option" where
  "next_arg b cmd len pos =
    do {
      c \<leftarrow> buf_get b (cmd + pos);
      if c = CHR ''\"'' then
        do {
          p \<leftarrow> skip_string b cmd len (pos + 1);
          if p \<ge> len then Some (b, cmd + pos + 1, p)
          else do { b \<leftarrow> buf_set b (cmd + p) NUL; Some (b, cmd + pos + 1, p + 1) }
        }
      else do { p \<leftarrow> skip_word b cmd len pos; Some (b, cmd + pos, p) }
    }"

text \<open>The buffer with the terminators in place, the arguments and what was printed.\<close>

partial_function (option) split_loop :: "string \<Rightarrow> nat \<Rightarrow> nat \<Rightarrow> nat \<Rightarrow> nat list \<Rightarrow> (string \<times> nat list \<times> string) option" where
  "split_loop b cmd len pos argv =
    (if \<not> pos < len then Some (b, argv, [])
     else do {
       (b, pos) \<leftarrow> skip_blanks b cmd len pos;
       if length argv \<ge> FINSH_ARG_MAX then do { t \<leftarrow> too_many b argv; Some (b, argv, t) }
       else if pos \<ge> len then Some (b, argv, [])
       else do { (b, arg, pos) \<leftarrow> next_arg b cmd len pos; split_loop b cmd len pos (argv @ [arg]) }
     })"

definition msh_split :: "string \<Rightarrow> nat \<Rightarrow> nat \<Rightarrow> (string \<times> nat list \<times> string) option" where
  "msh_split b cmd len = split_loop b cmd len 0 []"

section \<open>Commands\<close>

record 'w finsh_syscall =
  call_name :: string
  call_desc :: string
  call_func :: "string list \<Rightarrow> 'w \<Rightarrow> int \<times> string \<times> 'w"

abbreviation (input) cmd_prefix :: string where "cmd_prefix \<equiv> ''__cmd_''"

fun help_loop :: "'w finsh_syscall list \<Rightarrow> string option" where
  "help_loop [] = Some []"
| "help_loop (c # cs) =
    (if \<not> strncmp_eq (call_name c) cmd_prefix 6 then help_loop cs
     else do {
       t \<leftarrow> kprintf ''%-16s - %s\<newline>'' [AStr (Some (drop 6 (call_name c))), AStr (Some (call_desc c))];
       u \<leftarrow> help_loop cs;
       Some (t @ u)
     })"

definition msh_help :: "'w finsh_syscall list \<Rightarrow> string option" where
  "msh_help table =
    do {
      s \<leftarrow> kprintf ''RT-Thread shell commands:\<newline>'' [];
      t \<leftarrow> help_loop table;
      u \<leftarrow> kprintf ''\<newline>'' [];
      Some (s @ t @ u)
    }"

text \<open>\<open>s\<close> is the string that begins the command line; the result is the command, if there is one.\<close>

fun msh_get_cmd :: "'w finsh_syscall list \<Rightarrow> string \<Rightarrow> nat \<Rightarrow> 'w finsh_syscall option option" where
  "msh_get_cmd [] s n = Some None"
| "msh_get_cmd (c # cs) s n =
    (if \<not> strncmp_eq (call_name c) cmd_prefix 6 then msh_get_cmd cs s n
     else if strncmp_eq (drop 6 (call_name c)) s n then
       do { x \<leftarrow> buf_get (call_name c @ [NUL]) (6 + n); if x = NUL then Some (Some c) else msh_get_cmd cs s n }
     else msh_get_cmd cs s n)"

text \<open>The result of a command, or \<open>None\<close> for \<open>-RT_ERROR\<close>; with the buffer, the text printed and the state.\<close>

definition msh_exec_cmd :: "'w finsh_syscall list \<Rightarrow> string \<Rightarrow> nat \<Rightarrow> nat \<Rightarrow> 'w \<Rightarrow> (int option \<times> string \<times> string \<times> 'w) option" where
  "msh_exec_cmd table b cmd len w =
    do {
      cmd0_size \<leftarrow> skip_word b cmd len 0;
      if cmd0_size = 0 then Some (None, b, [], w)
      else do {
        f \<leftarrow> msh_get_cmd table (takeWhile (\<lambda>c. c \<noteq> NUL) (take cmd0_size (drop cmd b))) cmd0_size;
        case f of
          None \<Rightarrow> Some (None, b, [], w)
        | Some f \<Rightarrow>
            do {
              (b, argv, t) \<leftarrow> msh_split b cmd len;
              if argv = [] then Some (None, b, t, w)
              else do {
                args \<leftarrow> c_strs b argv;
                let (ret, u, w) = call_func f args w;
                Some (Some ret, b, t @ u, w)
              }
            }
      }
    }"

text \<open>The length is an unsigned 32-bit number, which the loop counts down without looking at it.\<close>

partial_function (option) strim :: "string \<Rightarrow> nat \<Rightarrow> nat \<Rightarrow> (nat \<times> nat) option" where
  "strim b cmd len =
    do {
      c \<leftarrow> buf_get b cmd;
      if blank c then strim b (cmd + 1) (if len = 0 then 2 ^ 32 - 1 else len - 1) else Some (cmd, len)
    }"

definition msh_exec :: "'w finsh_syscall list \<Rightarrow> string \<Rightarrow> nat \<Rightarrow> 'w \<Rightarrow> (int \<times> string \<times> string \<times> 'w) option" where
  "msh_exec table b len w =
    do {
      (cmd, len) \<leftarrow> strim b 0 len;
      if len = 0 then Some (0, b, [], w)
      else do {
        (r, b, t, w) \<leftarrow> msh_exec_cmd table b cmd len w;
        case r of
          Some ret \<Rightarrow> Some (ret, b, t, w)
        | None \<Rightarrow>
            do {
              s \<leftarrow> c_str b cmd;
              let name = takeWhile (\<lambda>c. c \<noteq> CHR '' '') s;
              b \<leftarrow> buf_set b (cmd + length name) NUL;
              u \<leftarrow> kprintf ''%s: command not found.\<newline>'' [AStr (Some name)];
              Some (- 1, b, t @ u, w)
            }
      }
    }"

section \<open>Completion\<close>

fun str_common :: "string \<Rightarrow> string \<Rightarrow> nat" where
  "str_common (c # s) (d # t) = (if c = d then Suc (str_common s t) else 0)"
| "str_common s t = 0"

text \<open>The name found first, the length that all names found have in common, and the names as they are printed.\<close>

fun complete_loop :: "'w finsh_syscall list \<Rightarrow> string \<Rightarrow> string option \<Rightarrow> nat \<Rightarrow> (string option \<times> nat \<times> string) option" where
  "complete_loop [] pre name_ptr min_length = Some (name_ptr, min_length, [])"
| "complete_loop (c # cs) pre name_ptr min_length =
    (if \<not> strncmp_eq (call_name c) cmd_prefix 6 then complete_loop cs pre name_ptr min_length
     else
       let cmd_name = drop 6 (call_name c)
       in if \<not> strncmp_eq pre cmd_name (length pre) then complete_loop cs pre name_ptr min_length
          else
            let (name, min_length) =
                  (if min_length = 0 then (cmd_name, length cmd_name) else (case name_ptr of None \<Rightarrow> cmd_name | Some name \<Rightarrow> name, min_length));
                len = str_common name cmd_name
            in do {
              t \<leftarrow> kprintf ''%s\<newline>'' [AStr (Some cmd_name)];
              (p, n, u) \<leftarrow> complete_loop cs pre (Some name) (if len < min_length then len else min_length);
              Some (p, n, t @ u)
            })"

text \<open>The buffer with the completed name, and what is printed.\<close>

definition msh_auto_complete :: "'w finsh_syscall list \<Rightarrow> string \<Rightarrow> (string \<times> string) option" where
  "msh_auto_complete table b =
    do {
      pre \<leftarrow> c_str b 0;
      if pre = [] then do { t \<leftarrow> msh_help table; Some (b, t) }
      else do {
        (name_ptr, n, t) \<leftarrow> complete_loop table pre None 0;
        case name_ptr of
          None \<Rightarrow> Some (b, t)
        | Some name \<Rightarrow> if n \<le> length b then Some (rt_strncpy name n @ drop n b, t) else None
      }
    }"

section \<open>What is printed\<close>

lemma format_text_plain: "CHR ''%'' \<notin> set s \<Longrightarrow> format_text s args = Some s"
  by (induction s) auto

lemma directive_text_s: "directive_text (CHR ''s'' # fmt) (AStr (Some s) # args) = Some (s, fmt, args)"
  by (simp add: directive_text_def parse_width_def parse_precision_def parse_qualifier_def is_digit_def string_text_def)

lemma format_text_s: "format_text (CHR ''%'' # CHR ''s'' # fmt) (AStr (Some s) # args) = map_option ((@) s) (format_text fmt args)"
  by (simp add: directive_text_s)

lemma log_buf_short [simp]: "length t \<le> 254 \<Longrightarrow> log_buf t = t"
  by (simp add: log_buf_def)

lemma kprintf_s [simp]:
  "CHR ''%'' \<notin> set fmt \<Longrightarrow> kprintf (CHR ''%'' # CHR ''s'' # fmt) [AStr (Some s)] = Some (log_buf (s @ fmt))"
  by (simp add: kprintf_def format_text_s format_text_plain del: format_text.simps)

lemma kprintf_plain [simp]: "CHR ''%'' \<notin> set s \<Longrightarrow> kprintf s args = Some (log_buf s)"
  by (simp add: kprintf_def format_text_plain)

text \<open>The bytes written to the device are those of the buffer of \<open>rt_kprintf\<close> (theory \<open>RT_Printf\<close>).\<close>

lemma kprintf_device:
  assumes t: "format_text fmt args = Some t" and l: "unat buf + 255 < 2 ^ 32" "unat buf + length t < 2 ^ 32"
  shows "\<exists>u m'. kprintf fmt args = Some u \<and> rt_kprintf True buf fmt args m = Some (Device_write (word_of_nat (length u)), m') \<and>
    bytes_at m' buf (length u) = u"
proof -
  let ?m = "printed buf 255 t m"
  have "\<not> buf + 255 < buf"
    using unat_step [of buf 255] l(1) by (simp add: word_less_nat_alt)
  then have v: "rt_vsnprintf buf 255 fmt args m = Some (word_of_nat (length t), ?m)"
    using vsnprintf_printed [OF t l(2), of 255 m] by simp
  have u: "unat (word_of_nat (length t) :: u32) = length t"
    using l(2) by (simp add: unsigned_of_nat take_bit_nat_eq_self)
  have c: "?m (buf + word_of_nat i) = t ! i" if "i < min (length t) 254" for i
    using printed_at(1) [OF l(1), of i t m] that by simp
  have n: "?m (buf + word_of_nat (min (length t) 254)) = NUL"
    using printed_at(2) [OF l(1), of t m] by simp
  have "bytes_at ?m buf (length (log_buf t)) = log_buf t"
  proof (rule nth_equalityI)
    fix i assume "i < length (bytes_at ?m buf (length (log_buf t)))"
    then have i: "i < length (log_buf t)"
      by (simp add: bytes_at_def)
    have "?m (buf + word_of_nat i) = log_buf t ! i"
    proof (cases "i < min (length t) 254")
      case False
      then have "255 \<le> length t" "i = 254"
        using i by (auto simp: log_buf_def split: if_splits)
      then show ?thesis
        using n by (simp add: log_buf_def nth_append)
    qed (use c in \<open>auto simp: log_buf_def nth_append\<close>)
    then show "bytes_at ?m buf (length (log_buf t)) ! i = log_buf t ! i"
      using i by (simp add: bytes_at_def)
  qed (simp add: bytes_at_def)
  moreover have "rt_kprintf True buf fmt args m = Some (Device_write (word_of_nat (length (log_buf t))), ?m)"
    using v u by (auto simp: rt_kprintf_def log_buf_def word_less_nat_alt word_unat_eq_iff)
  ultimately show ?thesis
    using t by (simp add: kprintf_def)
qed

lemma print_args_total: "\<exists>t. print_args ss = Some t"
  by (induction ss) auto

section \<open>Splitting is taking tokens\<close>

lemma c_str_at: "NUL \<notin> set w \<Longrightarrow> length xs = i \<Longrightarrow> c_str (xs @ w @ NUL # ys) i = Some w"
  by (induction w) (auto simp: c_str_def)

lemma c_strs_append: "c_strs b (is @ js) = do { ss \<leftarrow> c_strs b is; ts \<leftarrow> c_strs b js; Some (ss @ ts) }"
  by (induction "is") (auto split: bind_split simp: option.case_eq_if)

lemma buf_at [simp]: "length xs = i \<Longrightarrow> buf_get (xs @ c # ys) i = Some c" "length xs = i \<Longrightarrow> buf_set (xs @ c # ys) i d = Some (xs @ d # ys)"
  by (auto simp: buf_get_def buf_set_def nth_append list_update_append)

lemma skip_word_eq:
  assumes "list_all (\<lambda>c. \<not> blank c) w" "length xs = cmd + pos" "pos + length w \<le> len" "blank y \<or> pos + length w = len"
  shows "skip_word (xs @ w @ y # zs) cmd len pos = Some (pos + length w)"
  using assms
proof (induction w arbitrary: xs pos)
  case Nil
  then show ?case
    by (subst skip_word.simps) auto
next
  case (Cons c w)
  then show ?case
    using Cons.IH [of "xs @ [c]" "pos + 1"] by (subst skip_word.simps) auto
qed

lemma skip_blanks_eq:
  assumes "list_all blank w" "length xs = cmd + pos" "pos + length w \<le> len" "\<not> blank y \<or> pos + length w = len"
  shows "skip_blanks (xs @ w @ y # zs) cmd len pos = Some (xs @ replicate (length w) NUL @ y # zs, pos + length w)"
  using assms
proof (induction w arbitrary: xs pos)
  case Nil
  then show ?case
    by (subst skip_blanks.simps) auto
next
  case (Cons c w)
  then show ?case
    using Cons.IH [of "xs @ [NUL]" "pos + 1"] by (subst skip_blanks.simps) auto
qed

text \<open>A string up to its closing quote, if there is one, and what follows; a quote behind a backslash does not close it.\<close>

fun close_string :: "string \<Rightarrow> string \<times> string option" where
  "close_string [] = ([], None)"
| "close_string [c] = (if c = CHR ''\"'' then ([], Some []) else ([c], None))"
| "close_string (c # d # ds) =
    (if c = CHR ''\"'' then ([], Some (d # ds))
     else if c = CHR 0x5C \<and> d = CHR ''\"'' then (c # d # fst (close_string ds), snd (close_string ds))
     else (c # fst (close_string (d # ds)), snd (close_string (d # ds))))"

lemma close_string_parts:
  "s = fst (close_string s) @ (case snd (close_string s) of None \<Rightarrow> [] | Some r \<Rightarrow> CHR ''\"'' # r)"
  by (induction s rule: close_string.induct) simp_all

lemma skip_string_eq:
  assumes "length xs = cmd + pos" "pos + length s = len" "NUL \<notin> set s"
  shows "skip_string (xs @ s @ NUL # zs) cmd len pos = Some (pos + length (fst (close_string s)))"
  using assms
proof (induction s arbitrary: xs pos rule: close_string.induct)
  case 1
  then show ?case
    by (subst skip_string.simps) simp
next
  case (2 c)
  have d: "buf_get (xs @ c # NUL # zs) (Suc (cmd + pos)) = Some NUL"
    using 2 buf_at(1) [of "xs @ [c]" "Suc (cmd + pos)" NUL zs] by simp
  then have "skip_string (xs @ c # NUL # zs) cmd len len = Some len"
    using 2 by (subst skip_string.simps) auto
  then show ?case
    using 2 d by (subst skip_string.simps) auto
next
  case (3 c d ds)
  have d: "buf_get (xs @ c # d # ds @ NUL # zs) (cmd + pos + 1) = Some d"
    using "3.prems" buf_at(1) [of "xs @ [c]" "cmd + pos + 1" d "ds @ NUL # zs"] by simp
  consider "c = CHR ''\"''" | "c \<noteq> CHR ''\"''" "c = CHR 0x5C \<and> d = CHR ''\"''" | "c \<noteq> CHR ''\"''" "\<not> (c = CHR 0x5C \<and> d = CHR ''\"'')"
    by blast
  then show ?case
  proof cases
    case 1
    then show ?thesis
      using "3.prems" by (subst skip_string.simps) simp
  next
    case 2
    then show ?thesis
      using "3.IH"(1) [OF 2, of "xs @ [c, d]" "pos + 2"] "3.prems" d by (subst skip_string.simps) simp
  next
    case 3
    then show ?thesis
      using "3.IH"(3) [OF 3, of "xs @ [c]" "pos + 1"] "3.prems" d by (subst skip_string.simps) auto
  qed
qed

text \<open>The arguments of a line: words, and strings in quotes, which may contain blanks.\<close>

function tokens :: "string \<Rightarrow> string list" where
  "tokens [] = []"
| "tokens (c # cs) =
    (if blank c then tokens cs
     else if c = CHR ''\"'' then
       fst (close_string cs) # (case snd (close_string cs) of None \<Rightarrow> [] | Some r \<Rightarrow> tokens r)
     else takeWhile (\<lambda>c. \<not> blank c) (c # cs) # tokens (dropWhile (\<lambda>c. \<not> blank c) (c # cs)))"
  by pat_completeness auto
termination
proof (relation "measure length", goal_cases)
  case (3 c cs r)
  then show ?case
    using close_string_parts [of cs] by (metis (no_types, lifting) in_measure length_Cons length_append less_Suc_eq_le not_add_less2 not_le option.simps(5) trans_le_add2 add_Suc_right less_SucI)
next
  case (4 c cs)
  then show ?case
    by (simp add: length_dropWhile_le less_Suc_eq_le)
qed auto

lemma tokens_blanks: "list_all blank w \<Longrightarrow> tokens (w @ s) = tokens s"
  by (induction w) auto

lemma tokens_word:
  assumes "w \<noteq> []" "list_all (\<lambda>c. \<not> blank c) w" "hd w \<noteq> CHR ''\"''" "s = [] \<or> blank (hd s)"
  shows "tokens (w @ s) = w # tokens s"
proof -
  obtain c cs where w: "w = c # cs"
    using assms(1) by (cases w) auto
  have "takeWhile (\<lambda>c. \<not> blank c) (w @ s) = w" "dropWhile (\<lambda>c. \<not> blank c) (w @ s) = s"
    using assms(2,4) by (auto simp: list_all_iff takeWhile_append dropWhile_append) (cases s; simp)+
  then show ?thesis
    using assms w by simp
qed

text \<open>
  The arguments so far, in the part of the buffer that the loop has left behind. The last of them may still lack its terminator, which stands where the rest of the line
  ends or begins with a blank.
\<close>

definition args_done :: "string \<Rightarrow> string \<Rightarrow> nat list \<Rightarrow> string list \<Rightarrow> bool" where
  "args_done xs s argv args \<longleftrightarrow>
    (\<forall>ys. (s = [] \<or> blank (hd s) \<longrightarrow> ys \<noteq> [] \<and> hd ys = NUL) \<longrightarrow> c_strs (xs @ ys) argv = Some args)"

lemma args_doneD: "args_done xs s argv args \<Longrightarrow> s \<noteq> [] \<Longrightarrow> \<not> blank (hd s) \<Longrightarrow> c_strs (xs @ ys) argv = Some args"
  by (simp add: args_done_def)

lemma args_done_end: "args_done xs s argv args \<Longrightarrow> s = [] \<or> blank (hd s) \<Longrightarrow> c_strs (xs @ NUL # ys) argv = Some args"
  by (simp add: args_done_def)

lemma args_done_blanks:
  assumes "args_done xs (w @ s) argv args" "list_all blank w" "w \<noteq> [] \<or> s \<noteq> [] \<and> \<not> blank (hd s)"
  shows "c_strs (xs @ replicate (length w) NUL @ ys) argv = Some args"
  using assms by (cases w) (auto simp: args_done_def)

lemma args_done_string:
  assumes "\<And>ys. c_strs (xs @ ys) argv = Some args" "NUL \<notin> set t"
  shows "args_done (xs @ CHR ''\"'' # t @ [NUL]) s (argv @ [Suc (length xs)]) (args @ [t])"
  using assms(1) c_str_at [OF assms(2), of "xs @ [CHR ''\"'']" "Suc (length xs)"]
  by (simp add: args_done_def c_strs_append)

lemma args_done_word:
  assumes "\<And>ys. c_strs (xs @ ys) argv = Some args" "NUL \<notin> set w" "s = [] \<or> blank (hd s)"
  shows "args_done (xs @ w) s (argv @ [length xs]) (args @ [w])"
  unfolding args_done_def
proof (intro allI impI)
  fix ys assume "s = [] \<or> blank (hd s) \<longrightarrow> ys \<noteq> [] \<and> hd ys = NUL"
  then obtain zs where "ys = NUL # zs"
    using assms(3) by (cases ys) auto
  then show "c_strs ((xs @ w) @ ys) (argv @ [length xs]) = Some (args @ [w])"
    using assms(1) [of "w @ NUL # zs"] c_str_at [OF assms(2) refl, of xs zs] by (simp add: c_strs_append)
qed

lemma take_arg:
  assumes "length xs = cmd + pos" "pos + length r = len" "NUL \<notin> set r" "r = c # cs" "\<not> blank c"
    and kept: "\<And>ys. c_strs (xs @ ys) argv = Some args"
  shows "\<exists>xs2 s2 a i. next_arg (xs @ r @ NUL # zs) cmd len pos = Some (xs @ xs2 @ s2 @ NUL # zs, i, len - length s2) \<and>
    length xs2 + length s2 = length r \<and> length s2 < length r \<and> set s2 \<subseteq> set r \<and>
    args_done (xs @ xs2) s2 (argv @ [i]) (args @ [a]) \<and> tokens r = a # tokens s2"
proof (cases "c = CHR ''\"''")
  case True
  define t where "t = fst (close_string cs)"
  have skip: "skip_string (xs @ r @ NUL # zs) cmd len (pos + 1) = Some (pos + 1 + length t)"
    using skip_string_eq [of "xs @ [c]" cmd "pos + 1" cs len zs] assms(1-4) by (simp add: t_def)
  show ?thesis
  proof (cases "snd (close_string cs)")
    case None
    then have cs: "t = cs"
      using close_string_parts [of cs] by (simp add: t_def)
    have "args_done (xs @ r) [] (argv @ [Suc (length xs)]) (args @ [cs])"
      using args_done_word [of "xs @ [c]" argv args cs "[]"] kept [of "c # _"] assms(3,4) by simp
    moreover have "tokens r = [cs]"
      using True None cs assms(4,5) by (simp add: t_def [symmetric])
    moreover have "next_arg (xs @ r @ NUL # zs) cmd len pos = Some (xs @ r @ [] @ NUL # zs, Suc (length xs), len - length [])"
      using True skip assms(1,2,4) cs by (simp add: next_arg_def)
    ultimately show ?thesis
      using assms(4) by (metis add.right_neutral empty_iff length_greater_0_conv list.size(3) set_empty subsetI tokens.simps(1) list.distinct(1))
  next
    case (Some q)
    then have cs: "cs = t @ CHR ''\"'' # q"
      using close_string_parts [of cs] by (simp add: t_def)
    have "args_done (xs @ c # t @ [NUL]) q (argv @ [Suc (length xs)]) (args @ [t])"
      using args_done_string [OF kept, of t q] True assms(3,4) cs by simp
    moreover have "tokens r = t # tokens q"
      using True Some assms(4,5) by (simp add: t_def)
    moreover have "buf_set (xs @ r @ NUL # zs) (cmd + (pos + 1 + length t)) NUL = Some (xs @ c # t @ NUL # q @ NUL # zs)"
      using buf_at(2) [of "xs @ c # t" "cmd + (pos + 1 + length t)" "CHR ''\"''" "q @ NUL # zs"] assms(1,4) cs by simp
    then have "next_arg (xs @ r @ NUL # zs) cmd len pos = Some (xs @ (c # t @ [NUL]) @ q @ NUL # zs, Suc (length xs), len - length q)"
      using True skip assms(1,2,4) cs by (simp add: next_arg_def)
    ultimately show ?thesis
      using assms(4) cs by (intro exI [of _ "c # t @ [NUL]"] exI [of _ q] exI [of _ t] exI [of _ "Suc (length xs)"]) auto
  qed
next
  case False
  define w q where "w = takeWhile (\<lambda>c. \<not> blank c) r" and "q = dropWhile (\<lambda>c. \<not> blank c) r"
  have q: "q = [] \<or> blank (hd q)"
    using hd_dropWhile [of "\<lambda>c. \<not> blank c" r] by (auto simp: q_def)
  have r: "r = w @ q" "w \<noteq> []"
    using assms(4,5) by (auto simp: w_def q_def)
  obtain y ys where y: "q @ NUL # zs = y # ys"
    by (cases q) auto
  then have "blank y \<or> pos + length w = len"
    using q r(1) assms(2) by (cases q) auto
  moreover have "list_all (\<lambda>c. \<not> blank c) w"
    by (auto simp: w_def list_all_iff dest: set_takeWhileD)
  ultimately have "skip_word (xs @ w @ y # ys) cmd len pos = Some (pos + length w)"
    using skip_word_eq [of w xs cmd pos len y ys] assms(1,2) r(1) by simp
  then have "next_arg (xs @ r @ NUL # zs) cmd len pos = Some (xs @ w @ q @ NUL # zs, length xs, len - length q)"
  proof -
    have "buf_get (xs @ r @ NUL # zs) (cmd + pos) = Some c"
      using assms(1,4) by simp
    moreover have "xs @ r @ NUL # zs = xs @ w @ y # ys" "pos + length w = len - length q"
      using r(1) y assms(2) by simp_all
    ultimately show ?thesis
      using False \<open>skip_word (xs @ w @ y # ys) cmd len pos = Some (pos + length w)\<close> assms(1) y by (simp add: next_arg_def)
  qed
  moreover have "args_done (xs @ w) q (argv @ [length xs]) (args @ [w])"
    using args_done_word [OF kept, of w q] q assms(3) r(1) by auto
  moreover have "tokens r = w # tokens q"
    using False assms(4,5) by (simp add: w_def q_def)
  ultimately show ?thesis
    using r by (intro exI [of _ w] exI [of _ q] exI [of _ w] exI [of _ "length xs"]) auto
qed

lemma split_loop_tokens:
  assumes "length xs = cmd + pos" "pos + length s = len" "NUL \<notin> set s" "length argv = length args" "length args \<le> 10"
    and "args_done xs s argv args"
  shows "\<exists>ys argv' t. split_loop (xs @ s @ NUL # zs) cmd len pos argv = Some (xs @ ys @ NUL # zs, argv', t) \<and> length ys = length s \<and>
    c_strs (xs @ ys @ NUL # zs) argv' = Some (take 10 (args @ tokens s))"
  using assms
proof (induction "length s" arbitrary: xs s pos argv args rule: less_induct)
  case less
  define w r where "w = takeWhile blank s" and "r = dropWhile blank s"
  have s: "s = w @ r" "list_all blank w" "r = [] \<or> \<not> blank (hd r)"
    using hd_dropWhile [of blank s] by (auto simp: w_def r_def list_all_iff dest: set_takeWhileD)
  define xs1 pos1 where "xs1 = xs @ replicate (length w) NUL" and "pos1 = pos + length w"
  have l1: "length xs1 = cmd + pos1" "pos1 + length r = len" "NUL \<notin> set r"
    using less.prems s by (auto simp: xs1_def pos1_def)
  have blanks: "skip_blanks (xs @ s @ NUL # zs) cmd len pos = Some (xs1 @ r @ NUL # zs, pos1)"
  proof -
    obtain y ys where y: "r @ NUL # zs = y # ys"
      by (cases r) auto
    then have "\<not> blank y \<or> pos + length w = len"
      using s(3) l1(2) by (cases r) (auto simp: pos1_def)
    then show ?thesis
      using skip_blanks_eq [OF s(2) less.prems(1), of len y ys] less.prems(2) y s(1) by (simp add: xs1_def pos1_def)
  qed
  have tok: "tokens s = tokens r"
    using s(1,2) by (simp add: tokens_blanks)
  show ?case
  proof (cases "s = []")
    case True
    then show ?thesis
      using less.prems args_done_end [OF less.prems(6), of zs] by (subst split_loop.simps) simp
  next
    case False
    then have kept: "c_strs (xs1 @ ys) argv = Some args" for ys
      using args_done_blanks [of xs w r argv args ys] less.prems(6) s by (cases w) (auto simp: xs1_def)
    have pos: "pos < len"
      using False less.prems(2) by (cases s) auto
    show ?thesis
    proof (cases "10 \<le> length argv \<or> r = []")
      case True
      obtain t u where "too_many (xs1 @ r @ NUL # zs) argv = Some t" "u = (if 10 \<le> length argv then t else [])"
        using kept [of "r @ NUL # zs"] print_args_total [of args] by (auto simp: too_many_def)
      moreover have "r = [] \<Longrightarrow> pos1 = len"
        using l1(2) by simp
      ultimately have "split_loop (xs @ s @ NUL # zs) cmd len pos argv = Some (xs1 @ r @ NUL # zs, argv, u)"
        using True pos blanks by (subst split_loop.simps) auto
      moreover have "take 10 (args @ tokens s) = args"
        using True less.prems(4,5) tok by auto
      ultimately show ?thesis
        using kept [of "r @ NUL # zs"] s(1) by (auto simp: xs1_def)
    next
      case False
      then obtain c cs where r: "r = c # cs" "\<not> blank c"
        using s(3) by (cases r) auto
      have "pos1 < len"
        using l1(2) r by simp
      obtain xs2 s2 a i where arg: "next_arg (xs1 @ r @ NUL # zs) cmd len pos1 = Some (xs1 @ xs2 @ s2 @ NUL # zs, i, len - length s2)"
        "length xs2 + length s2 = length r" "length s2 < length r" "set s2 \<subseteq> set r" "args_done (xs1 @ xs2) s2 (argv @ [i]) (args @ [a])" "tokens r = a # tokens s2"
        using take_arg [OF l1 r kept, of zs] by blast
      have step: "split_loop (xs @ s @ NUL # zs) cmd len pos argv = split_loop ((xs1 @ xs2) @ s2 @ NUL # zs) cmd len (len - length s2) (argv @ [i])"
        using False pos \<open>pos1 < len\<close> blanks arg(1) by (subst split_loop.simps) simp
      have "length s2 < length s"
        using arg(3) s(1) by simp
      moreover have "length (xs1 @ xs2) = cmd + (len - length s2)" "len - length s2 + length s2 = len" "NUL \<notin> set s2"
        using arg(2-4) l1 by auto
      ultimately obtain ys argv' t where "split_loop ((xs1 @ xs2) @ s2 @ NUL # zs) cmd len (len - length s2) (argv @ [i]) = Some ((xs1 @ xs2) @ ys @ NUL # zs, argv', t)"
        "length ys = length s2" "c_strs ((xs1 @ xs2) @ ys @ NUL # zs) argv' = Some (take 10 ((args @ [a]) @ tokens s2))"
        using less.hyps [of s2 "xs1 @ xs2" "len - length s2" "argv @ [i]" "args @ [a]"] arg(5) less.prems(4,5) False by auto
      then show ?thesis
        using step arg(2,6) tok s(1) by (auto simp: xs1_def intro!: exI [of _ "replicate (length w) NUL @ xs2 @ ys"])
    qed
  qed
qed

lemma msh_split_tokens:
  assumes "NUL \<notin> set s"
  shows "\<exists>ys argv t. msh_split (pre @ s @ NUL # post) (length pre) (length s) = Some (pre @ ys @ NUL # post, argv, t) \<and> length ys = length s \<and>
    c_strs (pre @ ys @ NUL # post) argv = Some (take 10 (tokens s))"
  unfolding msh_split_def using split_loop_tokens [of pre "length pre" 0 s "length s" "[]" "[]" post] assms by (simp add: args_done_def)

text \<open>How words are written on a line: with a blank between them, and in quotes if they contain a blank or nothing at all.\<close>

definition quote :: "string \<Rightarrow> string" where
  "quote w = (if w = [] \<or> (\<exists>c\<in>set w. blank c) then CHR ''\"'' # w @ ''\"'' else w)"

fun command_line :: "string list \<Rightarrow> string" where
  "command_line [] = []"
| "command_line [w] = quote w"
| "command_line (w # v # ws) = quote w @ CHR '' '' # command_line (v # ws)"

definition proper_word :: "string \<Rightarrow> bool" where
  "proper_word w \<longleftrightarrow> NUL \<notin> set w \<and> CHR ''\"'' \<notin> set w \<and> (w = [] \<or> last w \<noteq> CHR 0x5C)"

lemma close_string_quote: "CHR ''\"'' \<notin> set w \<Longrightarrow> w = [] \<or> last w \<noteq> CHR 0x5C \<Longrightarrow> close_string (w @ CHR ''\"'' # r) = (w, Some r)"
proof (induction w rule: close_string.induct)
  case 1
  then show ?case by (cases r) auto
next
  case (2 c)
  then show ?case by (cases r) auto
qed auto

lemma tokens_quote:
  assumes "proper_word w" "s = [] \<or> blank (hd s)"
  shows "tokens (quote w @ s) = w # tokens s"
proof (cases "w = [] \<or> (\<exists>c\<in>set w. blank c)")
  case True
  then show ?thesis
    using assms close_string_quote [of w s] by (simp add: quote_def proper_word_def blank_def)
next
  case False
  then have "hd w \<noteq> CHR ''\"''"
    using assms(1) by (cases w) (auto simp: proper_word_def)
  then show ?thesis
    using False assms(2) tokens_word [of w s] by (simp add: quote_def list_all_iff)
qed

lemma tokens_command_line: "list_all proper_word ws \<Longrightarrow> tokens (command_line ws) = ws"
proof (induction ws rule: command_line.induct)
  case (2 w)
  then show ?case using tokens_quote [of w "[]"] by simp
next
  case (3 w v ws)
  then show ?case using tokens_quote [of w "CHR '' '' # command_line (v # ws)"] by (simp add: blank_def)
qed simp

lemma command_line_no_NUL: "list_all proper_word ws \<Longrightarrow> NUL \<notin> set (command_line ws)"
  by (induction ws rule: command_line.induct) (auto simp: quote_def proper_word_def)

text \<open>
  Splitting finds the words again that a line was written with, and the buffer stays within its bounds.
\<close>

theorem msh_split_round_trip:
  assumes "list_all proper_word ws" "length ws \<le> 10"
  shows "\<exists>b argv t. msh_split (pre @ command_line ws @ NUL # post) (length pre) (length (command_line ws)) = Some (b, argv, t) \<and>
    c_strs b argv = Some ws \<and> length b = length (pre @ command_line ws @ NUL # post)"
  using msh_split_tokens [OF command_line_no_NUL [OF assms(1)], of pre post] tokens_command_line [OF assms(1)] assms(2) by fastforce

theorem msh_split_round_trip_witness:
  "\<exists>b argv t. msh_split (command_line [''say'', ''hello world'', [], ''1''] @ [NUL]) 0 (length (command_line [''say'', ''hello world'', [], ''1''])) =
      Some (b, argv, t) \<and>
    c_strs b argv = Some [''say'', ''hello world'', [], ''1'']"
  using msh_split_round_trip [of "[''say'', ''hello world'', [], ''1'']" "[]" "[]"]
  by (simp add: proper_word_def quote_def blank_def) blast

section \<open>Running a command\<close>

definition find_command :: "'w finsh_syscall list \<Rightarrow> string \<Rightarrow> 'w finsh_syscall option" where
  "find_command table name = find (\<lambda>c. call_name c = cmd_prefix @ name) table"

definition proper_table :: "'w finsh_syscall list \<Rightarrow> bool" where
  "proper_table table \<longleftrightarrow> list_all (\<lambda>c. NUL \<notin> set (call_name c)) table"

lemma is_command: "strncmp_eq name cmd_prefix 6 \<longleftrightarrow> (\<exists>n. name = cmd_prefix @ n)"
  by (auto simp: strncmp_eq_def intro: exI [of _ "drop 6 name"]) (metis append_take_drop_id append_Cons append_Nil)

lemma msh_get_cmd_find:
  assumes "proper_table table" "NUL \<notin> set s"
  shows "msh_get_cmd table s (length s) = Some (find_command table s)"
  using assms(1)
proof (induction table)
  case (Cons c cs)
  then have IH: "msh_get_cmd cs s (length s) = Some (find_command cs s)" and c: "NUL \<notin> set (call_name c)"
    by (auto simp: proper_table_def)
  show ?case
  proof (cases "\<exists>n. call_name c = cmd_prefix @ s @ n")
    case True
    then obtain n where n: "call_name c = cmd_prefix @ s @ n"
      by blast
    have "buf_get (call_name c @ [NUL]) (6 + length s) = Some (if n = [] then NUL else hd n)"
      using n by (cases n) (auto simp: buf_get_def nth_append)
    moreover have "n \<noteq> [] \<Longrightarrow> hd n \<noteq> NUL"
      using n c by (cases n) auto
    ultimately show ?thesis
      using n IH by (auto simp: find_command_def strncmp_eq_def)
  next
    case False
    then have no: "call_name c \<noteq> cmd_prefix @ s" "\<not> (strncmp_eq (call_name c) cmd_prefix 6 \<and> strncmp_eq (drop 6 (call_name c)) s (length s))"
      unfolding is_command by (auto simp: strncmp_eq_def) (metis append_take_drop_id)+
    then show ?thesis
      using IH by (auto simp: find_command_def)
  qed
qed (simp add: find_command_def)

lemma strim_eq:
  assumes "list_all blank w" "s = [] \<or> \<not> blank (hd s)" "length xs = cmd"
  shows "strim (xs @ w @ s @ NUL # zs) cmd (length w + length s) = Some (cmd + length w, length s)"
  using assms(1,3)
proof (induction w arbitrary: xs cmd)
  case Nil
  have "\<not> blank NUL"
    by (simp add: blank_def)
  then show ?case
    using assms(2) Nil by (subst strim.simps) (cases s; simp)
next
  case (Cons c w)
  then show ?case
    using Cons.IH [of "xs @ [c]" "Suc cmd"] by (subst strim.simps) simp
qed

text \<open>What a line does: the first word names the command, which gets the first ten words and strings.\<close>

definition run_line :: "'w finsh_syscall list \<Rightarrow> string \<Rightarrow> 'w \<Rightarrow> int \<times> string \<times> 'w" where
  "run_line table s w =
    (let s = dropWhile blank s
     in if s = [] then (0, [], w)
        else case find_command table (takeWhile (\<lambda>c. \<not> blank c) s) of
          Some c \<Rightarrow> call_func c (take 10 (tokens s)) w
        | None \<Rightarrow> (- 1, log_buf (takeWhile (\<lambda>c. c \<noteq> CHR '' '') s @ '': command not found.\<newline>''), w))"

lemma tokens_not_Nil: "s \<noteq> [] \<Longrightarrow> \<not> blank (hd s) \<Longrightarrow> tokens s \<noteq> []"
  by (cases s) auto

lemma c_strs_length: "c_strs b is = Some ss \<Longrightarrow> length ss = length is"
  by (induction "is" arbitrary: ss) (auto split: bind_splits)

lemma msh_exec_cmd_eq:
  assumes "proper_table table" "NUL \<notin> set s" "s \<noteq> []" "\<not> blank (hd s)"
  defines "name \<equiv> takeWhile (\<lambda>c. \<not> blank c) s"
  shows "\<exists>ys t. length ys = length s \<and> msh_exec_cmd table (xs @ s @ NUL # zs) (length xs) (length s) w =
    Some (case find_command table name of
        None \<Rightarrow> (None, xs @ s @ NUL # zs, [], w)
      | Some c \<Rightarrow> (case call_func c (take 10 (tokens s)) w of (ret, u, w) \<Rightarrow> (Some ret, xs @ ys @ NUL # zs, t @ u, w)))"
proof -
  define q where "q = dropWhile (\<lambda>c. \<not> blank c) s"
  have s: "s = name @ q" "name \<noteq> []" "list_all (\<lambda>c. \<not> blank c) name"
    using assms(3,4) by (auto simp: name_def q_def list_all_iff dest: set_takeWhileD) (cases s; simp)
  obtain y ys where y: "q @ NUL # zs = y # ys"
    by (cases q) auto
  have "q = [] \<or> blank (hd q)"
    using hd_dropWhile [of "\<lambda>c. \<not> blank c" s] by (auto simp: q_def)
  then have "blank y \<or> length name = length s"
    using y arg_cong [OF s(1), of length] by (cases q) auto
  then have size0: "skip_word (xs @ s @ NUL # zs) (length xs) (length s) 0 = Some (length name)"
    using skip_word_eq [OF s(3), of xs "length xs" 0 "length s" y ys] s(1) y by simp
  have tw: "takeWhile (\<lambda>c. c \<noteq> NUL) (take (length name) (drop (length xs) (xs @ s @ NUL # zs))) = name"
    using s(1) assms(2) by (simp add: takeWhile_eq_all_conv) auto
  have cmd: "msh_get_cmd table (takeWhile (\<lambda>c. c \<noteq> NUL) (take (length name) (drop (length xs) (xs @ s @ NUL # zs)))) (length name) =
      Some (find_command table name)"
    unfolding tw using msh_get_cmd_find [OF assms(1), of name] s(1) assms(2) by simp
  obtain vs argv t where split: "msh_split (xs @ s @ NUL # zs) (length xs) (length s) = Some (xs @ vs @ NUL # zs, argv, t)" "length vs = length s"
    "c_strs (xs @ vs @ NUL # zs) argv = Some (take 10 (tokens s))"
    using msh_split_tokens [OF assms(2), of xs zs] by blast
  have "argv \<noteq> []"
    using c_strs_length [OF split(3)] tokens_not_Nil [OF assms(3,4)] by (cases "tokens s") auto
  then have "msh_exec_cmd table (xs @ s @ NUL # zs) (length xs) (length s) w =
    Some (case find_command table name of
        None \<Rightarrow> (None, xs @ s @ NUL # zs, [], w)
      | Some c \<Rightarrow> (case call_func c (take 10 (tokens s)) w of (ret, u, w) \<Rightarrow> (Some ret, xs @ vs @ NUL # zs, t @ u, w)))"
    using size0 cmd split s(2) by (simp add: msh_exec_cmd_def Let_def split: option.split prod.split)
  then show ?thesis
    using split(2) by blast
qed

lemma msh_exec_eq:
  assumes "proper_table table" "NUL \<notin> set s"
  shows "\<exists>b t. msh_exec table (s @ NUL # post) (length s) w =
      (case run_line table s w of (ret, u, w) \<Rightarrow> Some (ret, b, t @ u, w)) \<and> length b = length (s @ NUL # post)"
proof -
  define v r where "v = takeWhile blank s" and "r = dropWhile blank s"
  have s: "s = v @ r" "list_all blank v" "r = [] \<or> \<not> blank (hd r)"
    using hd_dropWhile [of blank s] by (auto simp: v_def r_def list_all_iff dest: set_takeWhileD)
  have strim: "strim (s @ NUL # post) 0 (length s) = Some (length v, length r)"
    using strim_eq [OF s(2,3), of "[]" 0 post] s(1) by simp
  show ?thesis
  proof (cases "r = []")
    case True
    then have "run_line table s w = (0, [], w)" "msh_exec table (s @ NUL # post) (length s) w = Some (0, s @ NUL # post, [], w)"
      using strim by (simp_all add: msh_exec_def run_line_def r_def [symmetric])
    then show ?thesis
      by simp
  next
    case False
    then have "\<not> blank (hd r)" "NUL \<notin> set r"
      using s assms(2) by auto
    from msh_exec_cmd_eq [OF assms(1) this(2) False this(1), of v post w] obtain ys t where l: "length ys = length r" and
      exec: "msh_exec_cmd table (v @ r @ NUL # post) (length v) (length r) w =
        Some (case find_command table (takeWhile (\<lambda>c. \<not> blank c) r) of
            None \<Rightarrow> (None, v @ r @ NUL # post, [], w)
          | Some c \<Rightarrow> (case call_func c (take 10 (tokens r)) w of (ret, u, w) \<Rightarrow> (Some ret, v @ ys @ NUL # post, t @ u, w)))"
      by blast
    have str: "c_str (v @ r @ NUL # post) (length v) = Some r"
      using c_str_at [OF \<open>NUL \<notin> set r\<close> refl] .
    have b: "s @ NUL # post = v @ r @ NUL # post"
      using s(1) by simp
    show ?thesis
    proof (cases "find_command table (takeWhile (\<lambda>c. \<not> blank c) r)")
      case None
      define name b' where "name = takeWhile (\<lambda>c. c \<noteq> CHR '' '') r" and "b' = (s @ NUL # post)[length v + length name := NUL]"
      have "length name \<le> length r"
        unfolding name_def by (rule length_takeWhile_le)
      then have "buf_set (s @ NUL # post) (length v + length name) NUL = Some b'"
        unfolding b'_def buf_set_def using s(1) by simp
      then have "msh_exec table (s @ NUL # post) (length s) w = Some (- 1, b', log_buf (name @ '': command not found.\<newline>''), w)"
        using strim exec str None False unfolding msh_exec_def b by (simp add: name_def [symmetric] Let_def)
      moreover have "run_line table s w = (- 1, log_buf (name @ '': command not found.\<newline>''), w)"
        using None False by (simp add: run_line_def r_def [symmetric] name_def Let_def)
      ultimately show ?thesis
        by (auto simp: b'_def intro: exI [of _ "[]"])
    next
      case (Some c)
      obtain ret u w' where call: "call_func c (take 10 (tokens r)) w = (ret, u, w')"
        by (metis prod_cases3)
      have "msh_exec table (s @ NUL # post) (length s) w = Some (ret, v @ ys @ NUL # post, t @ u, w')"
        using strim exec Some call False unfolding msh_exec_def b by simp
      moreover have "run_line table s w = (ret, u, w')"
        using Some call False by (simp add: run_line_def r_def [symmetric] Let_def)
      ultimately show ?thesis
        using l s(1) by auto
    qed
  qed
qed

text \<open>
  C36: The shell runs the command that the first word of a line names, with the words and strings of the line as its arguments, or says that there is none; whatever the line
  is, it stays within the buffer.
\<close>

theorem msh_exec_runs_line:
  assumes "proper_table table" "NUL \<notin> set s"
  shows "\<exists>b t. msh_exec table (s @ NUL # post) (length s) w =
      (case run_line table s w of (ret, u, w) \<Rightarrow> Some (ret, b, t @ u, w)) \<and> length b = length (s @ NUL # post)"
  using assms by (rule msh_exec_eq)

text \<open>A command that counts its arguments and says the second.\<close>

definition say_table :: "nat finsh_syscall list" where
  "say_table = [\<lparr>call_name = ''__cmd_say'', call_desc = ''speak'', call_func = (\<lambda>args n. (int (length args), args ! 1, Suc n))\<rparr>]"

theorem msh_exec_runs_line_witness:
  "\<exists>b t. msh_exec say_table (''  say \"hello world\" 1'' @ NUL # []) (length ''  say \"hello world\" 1'') 7 = Some (3, b, t @ ''hello world'', 8)"
  using msh_exec_runs_line [of say_table "''  say \"hello world\" 1''" "[]" 7]
  by (simp add: say_table_def proper_table_def run_line_def find_command_def blank_def Let_def) blast

section \<open>Completing a name\<close>

definition matches :: "'w finsh_syscall list \<Rightarrow> string \<Rightarrow> string list" where
  "matches table p = filter (prefix p) (map (\<lambda>c. drop 6 (call_name c)) (filter (\<lambda>c. prefix cmd_prefix (call_name c)) table))"

lemma strncmp_prefix: "strncmp_eq p s (length p) \<longleftrightarrow> prefix p s"
  by (auto simp: strncmp_eq_def prefix_def) (metis append_take_drop_id)

lemma strncmp_cmd_prefix: "strncmp_eq s cmd_prefix 6 \<longleftrightarrow> prefix cmd_prefix s"
  unfolding is_command by (auto simp: prefix_def)

lemma str_common_prefix: "prefix (take n s) t \<longleftrightarrow> min n (length s) \<le> str_common s t"
  by (induction s t arbitrary: n rule: str_common.induct) (auto simp: take_Cons split: nat.splits, auto simp: min_def split: if_splits)

lemma str_common_le: "str_common s t \<le> length s"
  by (induction s t rule: str_common.induct) auto

lemma matches_Cons:
  "matches (c # cs) p = (if prefix cmd_prefix (call_name c) \<and> prefix p (drop 6 (call_name c)) then drop 6 (call_name c) # matches cs p else matches cs p)"
  by (simp add: matches_def)

lemma complete_loop_rest:
  assumes "p \<noteq> []" "prefix p (take n name)" "n \<le> length name"
  shows "\<exists>k t. complete_loop cs p (Some name) n = Some (Some name, k, t) \<and> k \<le> n \<and> prefix p (take k name) \<and>
    (\<forall>q. prefix q (take k name) \<longleftrightarrow> prefix q (take n name) \<and> (\<forall>m\<in>set (matches cs p). prefix q m))"
  using assms(2,3)
proof (induction cs arbitrary: n)
  case (Cons c cs)
  define m where "m = drop 6 (call_name c)"
  show ?case
  proof (cases "prefix cmd_prefix (call_name c) \<and> prefix p m")
    case True
    define n' where "n' = (if str_common name m < n then str_common name m else n)"
    have n: "n \<noteq> 0"
      using assms(1) Cons.prems(1) by (cases n) auto
    have n': "prefix q (take n' name) \<longleftrightarrow> prefix q (take n name) \<and> prefix q m" for q
    proof
      assume q: "prefix q (take n' name)"
      moreover have "prefix (take n' name) (take n name)" "prefix (take n' name) m"
        using str_common_prefix [of n' name m] by (auto simp: n'_def take_is_prefix intro: prefix_order.trans) (metis le_less linorder_not_less take_is_prefix take_take min.absorb1)
      ultimately show "prefix q (take n name) \<and> prefix q m"
        by (blast intro: prefix_order.trans)
    next
      assume "prefix q (take n name) \<and> prefix q m"
      then have q: "q = take (length q) name" "length q \<le> n" "length q \<le> length name" "prefix q m"
        by (auto simp: prefix_def take_Suc) (metis append_eq_conv_conj length_append length_take min.cobounded1 min.cobounded2 take_take min.absorb1 le_add1 le_trans)+
      then have "length q \<le> str_common name m"
        using str_common_prefix [of "length q" name m] by simp
      then have "length q \<le> n'"
        using q(2) by (simp add: n'_def)
      then show "prefix q (take n' name)"
        using q(1,3) by (metis take_is_prefix take_take min.absorb1)
    qed
    have "prefix p (take n' name)" "n' \<le> length name"
      using n' Cons.prems True by (auto simp: n'_def)
    from Cons.IH [OF this] obtain k t where "complete_loop cs p (Some name) n' = Some (Some name, k, t)" "k \<le> n'" "prefix p (take k name)"
      "\<And>q. prefix q (take k name) \<longleftrightarrow> prefix q (take n' name) \<and> (\<forall>m\<in>set (matches cs p). prefix q m)"
      by blast
    moreover have "k \<le> n"
      using \<open>k \<le> n'\<close> by (simp add: n'_def split: if_splits)
    moreover have "complete_loop (c # cs) p (Some name) n = Some (Some name, k, log_buf (m @ ''\<newline>'') @ t)"
      using True n \<open>complete_loop cs p (Some name) n' = Some (Some name, k, t)\<close>
      by (cases "str_common name m < n") (simp_all add: strncmp_cmd_prefix strncmp_prefix m_def [symmetric] n'_def Let_def)
    ultimately show ?thesis
      using True n' by (auto simp: matches_Cons m_def [symmetric])
  next
    case False
    then show ?thesis
      using Cons by (auto simp: strncmp_cmd_prefix strncmp_prefix matches_Cons m_def [symmetric] Let_def)
  qed
qed (simp add: matches_def)

lemma complete_loop_common:
  assumes "p \<noteq> []"
  shows "\<exists>t. if matches cs p = [] then complete_loop cs p None 0 = Some (None, 0, t)
    else \<exists>name k. complete_loop cs p None 0 = Some (Some name, k, t) \<and> name \<in> set (matches cs p) \<and> k \<le> length name \<and> prefix p (take k name) \<and>
      (\<forall>q. prefix q (take k name) \<longleftrightarrow> (\<forall>m\<in>set (matches cs p). prefix q m))"
proof (induction cs)
  case (Cons c cs)
  define m where "m = drop 6 (call_name c)"
  show ?case
  proof (cases "prefix cmd_prefix (call_name c) \<and> prefix p m")
    case True
    have "str_common m m = length m"
      using str_common_prefix [of "length m" m m] str_common_le [of m m] by simp
    moreover obtain k t where "complete_loop cs p (Some m) (length m) = Some (Some m, k, t)" "k \<le> length m" "prefix p (take k m)"
      "\<And>q. prefix q (take k m) \<longleftrightarrow> prefix q m \<and> (\<forall>m\<in>set (matches cs p). prefix q m)"
      using complete_loop_rest [OF assms, of "length m" m cs] True by auto
    ultimately show ?thesis
      using True by (auto simp: strncmp_cmd_prefix strncmp_prefix matches_Cons m_def [symmetric] Let_def)
  next
    case False
    then show ?thesis
      using Cons by (auto simp: strncmp_cmd_prefix strncmp_prefix matches_Cons m_def [symmetric] Let_def)
  qed
qed (simp add: matches_def)

lemma strncpy_take: "NUL \<notin> set s \<Longrightarrow> n \<le> length s \<Longrightarrow> rt_strncpy s n = take n s"
  by (induction s n rule: rt_strncpy.induct) auto

lemma msh_auto_complete_eq:
  assumes "proper_table table" "p \<noteq> []" "NUL \<notin> set p" and "\<And>m. m \<in> set (matches table p) \<Longrightarrow> length m \<le> length p + length post"
  shows "\<exists>q t. msh_auto_complete table (p @ NUL # post) = Some (q @ drop (length q) (p @ NUL # post), t) \<and>
    (if matches table p = [] then q = p else prefix p q \<and> (\<forall>r. prefix r q \<longleftrightarrow> (\<forall>m\<in>set (matches table p). prefix r m)))"
proof -
  have str: "c_str (p @ NUL # post) 0 = Some p"
    using c_str_at [OF assms(3), of "[]" 0 post] by simp
  show ?thesis
  proof (cases "matches table p = []")
    case True
    then show ?thesis
      using complete_loop_common [OF assms(2), of table] str assms(2)
      by (auto simp: msh_auto_complete_def)
  next
    case False
    then obtain t name k where loop: "complete_loop table p None 0 = Some (Some name, k, t)" "name \<in> set (matches table p)" "k \<le> length name"
      "prefix p (take k name)" "\<And>r. prefix r (take k name) \<longleftrightarrow> (\<forall>m\<in>set (matches table p). prefix r m)"
      using complete_loop_common [OF assms(2), of table] by auto
    have "NUL \<notin> set name"
      using loop(2) assms(1) by (auto simp: matches_def proper_table_def list_all_iff dest: in_set_dropD)
    moreover have "k \<le> length (p @ NUL # post)"
      using assms(4) [OF loop(2)] loop(3) by simp
    ultimately have "msh_auto_complete table (p @ NUL # post) = Some (take k name @ drop (length (take k name)) (p @ NUL # post), t)"
      using loop(1,3) str assms(2) by (simp add: msh_auto_complete_def strncpy_take)
    then show ?thesis
      using False loop(4,5) by (intro exI [of _ "take k name"] exI [of _ t]) simp
  qed
qed

text \<open>
  The tab key extends what was typed to the longest beginning that all the commands have in common that begin with it, and leaves it alone if there is none.
\<close>

theorem msh_auto_complete_correct:
  assumes "proper_table table" "p \<noteq> []" "NUL \<notin> set p" and "\<And>m. m \<in> set (matches table p) \<Longrightarrow> length m \<le> length p + length post"
  shows "\<exists>q t. msh_auto_complete table (p @ NUL # post) = Some (q @ drop (length q) (p @ NUL # post), t) \<and>
    (if matches table p = [] then q = p else prefix p q \<and> (\<forall>r. prefix r q \<longleftrightarrow> (\<forall>m\<in>set (matches table p). prefix r m)))"
  using assms by (rule msh_auto_complete_eq)

theorem msh_auto_complete_correct_witness:
  "\<exists>q t. msh_auto_complete say_table (''sa'' @ NUL # replicate 10 NUL) = Some (q @ drop (length q) (''sa'' @ NUL # replicate 10 NUL), t) \<and> q = ''say''"
proof -
  have m: "matches say_table ''sa'' = [''say'']"
    by (simp add: matches_def say_table_def)
  have "\<exists>q t. msh_auto_complete say_table (''sa'' @ NUL # replicate 10 NUL) = Some (q @ drop (length q) (''sa'' @ NUL # replicate 10 NUL), t) \<and>
    (\<forall>r. prefix r q \<longleftrightarrow> prefix r ''say'')"
    using msh_auto_complete_correct [of say_table "''sa''" "replicate 10 NUL"] unfolding m by (simp add: say_table_def proper_table_def) blast
  then show ?thesis
    by (metis prefix_order.antisym prefix_order.refl)
qed

text \<open>What the completion makes of a line.\<close>

fun common :: "string list \<Rightarrow> string" where
  "common [] = []"
| "common [m] = m"
| "common (m # n # ms) = longest_common_prefix m (common (n # ms))"

definition complete :: "'w finsh_syscall list \<Rightarrow> string \<Rightarrow> string" where
  "complete table l = (if l = [] \<or> matches table l = [] then l else common (matches table l))"

lemma prefix_common: "ms \<noteq> [] \<Longrightarrow> prefix r (common ms) \<longleftrightarrow> (\<forall>m\<in>set ms. prefix r m)"
proof (induction ms rule: common.induct)
  case (3 m n ms)
  then show ?case
    using longest_common_prefix_prefix1 [of m "common (n # ms)"] longest_common_prefix_prefix2 [of m "common (n # ms)"]
      longest_common_prefix_max_prefix [of r m "common (n # ms)"] by (auto intro: prefix_order.trans)
qed simp_all

lemma kprintf_help: "\<exists>t. kprintf ''%-16s - %s\<newline>'' [AStr (Some a), AStr (Some b)] = Some t"
  by (simp add: kprintf_def directive_text_def parse_width_def parse_precision_def parse_qualifier_def is_digit_def skip_atoi.simps)

lemma help_loop_total: "\<exists>t. help_loop table = Some t"
proof (induction table)
  case (Cons c cs)
  then show ?case
    using kprintf_help [of "drop 6 (call_name c)" "call_desc c"] by auto
qed simp

lemma msh_help_total: "\<exists>t. msh_help table = Some t"
  using help_loop_total [of table] by (auto simp: msh_help_def)

lemma msh_auto_complete_total:
  assumes "proper_table table" "NUL \<notin> set l" and "\<And>m. m \<in> set (matches table l) \<Longrightarrow> length m \<le> length l + length post"
  shows "\<exists>t. msh_auto_complete table (l @ NUL # post) = Some (complete table l @ drop (length (complete table l)) (l @ NUL # post), t)"
proof (cases "l = []")
  case True
  then show ?thesis
    using msh_help_total [of table] c_str_at [of "[]" "[]" 0 post] by (auto simp: msh_auto_complete_def complete_def)
next
  case False
  obtain q t where q: "msh_auto_complete table (l @ NUL # post) = Some (q @ drop (length q) (l @ NUL # post), t)"
    "if matches table l = [] then q = l else prefix l q \<and> (\<forall>r. prefix r q \<longleftrightarrow> (\<forall>m\<in>set (matches table l). prefix r m))"
    using msh_auto_complete_eq [OF assms(1) False assms(2,3)] by blast
  have "q = complete table l"
  proof (cases "matches table l = []")
    case False
    then have "prefix r q \<longleftrightarrow> prefix r (common (matches table l))" for r
      using q(2) prefix_common [OF False] by simp
    then have "q = common (matches table l)"
      by (meson prefix_order.antisym prefix_order.refl)
    then show ?thesis
      using False \<open>l \<noteq> []\<close> by (simp add: complete_def)
  qed (use q(2) in \<open>simp add: complete_def\<close>)
  then show ?thesis
    using q(1) by blast
qed

lemma prefix_complete: "prefix l (complete table l)"
  by (auto simp: complete_def prefix_common) (simp add: matches_def)

end
