(* ===== verification/Finsh_Shell.thy ===== *)
theory Finsh_Shell
  imports Finsh_Msh
begin

text \<open>
  The line editor of the shell, \<open>components/finsh/shell.c\<close> in its configuration (only the module shell, with history, without password): what the shell thread does with
  each character that it reads. What it prints is collected in the state. \<open>None\<close> is an access outside the buffer of the line or of the history.
\<close>

section \<open>State\<close>

abbreviation (input) FINSH_CMD_SIZE :: nat where "FINSH_CMD_SIZE \<equiv> 80"
abbreviation (input) FINSH_HISTORY_LINES :: nat where "FINSH_HISTORY_LINES \<equiv> 5"
abbreviation BS :: char where "BS \<equiv> CHR 0x08"
abbreviation ESC :: char where "ESC \<equiv> CHR 0x1B"

datatype input_stat = WAIT_NORMAL | WAIT_SPEC_KEY | WAIT_FUNC_KEY

record finsh_shell =
  stat :: input_stat
  echo_mode :: bool \<comment> \<open>one bit\<close>
  prompt_mode :: bool \<comment> \<open>one bit\<close>
  current_history :: u16
  history_count :: u16
  cmd_history :: "string list"
  line :: string
  line_position :: u16
  line_curpos :: u16
  prompt_custom :: "string option" \<comment> \<open>\<open>finsh_prompt_custom\<close>\<close>
  printed_text :: string

text \<open>The structure comes zeroed from the heap; then \<open>finsh_system_init\<close> and \<open>finsh_thread_entry\<close> set the two modes.\<close>

definition finsh_start :: finsh_shell where
  "finsh_start =
    \<lparr>stat = WAIT_NORMAL, echo_mode = True, prompt_mode = True, current_history = 0, history_count = 0,
     cmd_history = replicate FINSH_HISTORY_LINES (replicate FINSH_CMD_SIZE NUL), line = replicate (FINSH_CMD_SIZE + 1) NUL,
     line_position = 0, line_curpos = 0, prompt_custom = None, printed_text = []\<rparr>"

definition finsh_set_echo :: "u32 \<Rightarrow> finsh_shell \<Rightarrow> finsh_shell" where
  "finsh_set_echo echo s = s\<lparr>echo_mode := bit echo 0\<rparr>"

definition finsh_get_echo :: "finsh_shell \<Rightarrow> u32" where
  "finsh_get_echo s = of_bool (echo_mode s)"

definition finsh_set_prompt_mode :: "u32 \<Rightarrow> finsh_shell \<Rightarrow> finsh_shell" where
  "finsh_set_prompt_mode mode s = s\<lparr>prompt_mode := bit mode 0\<rparr>"

definition finsh_get_prompt_mode :: "finsh_shell \<Rightarrow> u32" where
  "finsh_get_prompt_mode s = of_bool (prompt_mode s)"

text \<open>\<open>room\<close> says whether there is memory for the copy.\<close>

definition finsh_set_prompt :: "string option \<Rightarrow> bool \<Rightarrow> finsh_shell \<Rightarrow> finsh_shell" where
  "finsh_set_prompt p room s =
    (let s = s\<lparr>prompt_custom := None\<rparr>
     in case p of None \<Rightarrow> s | Some p \<Rightarrow> if room then s\<lparr>prompt_custom := Some p\<rparr> else s)"

definition finsh_get_prompt :: "finsh_shell \<Rightarrow> string" where
  "finsh_get_prompt s =
    (if \<not> prompt_mode s then []
     else case prompt_custom s of Some p \<Rightarrow> take 256 p | None \<Rightarrow> ''msh '' @ ''>'')"

definition print :: "string \<Rightarrow> arg list \<Rightarrow> finsh_shell \<Rightarrow> finsh_shell option" where
  "print fmt args s = do { t \<leftarrow> kprintf fmt args; Some (s\<lparr>printed_text := printed_text s @ t\<rparr>) }"

fun print_back :: "nat \<Rightarrow> finsh_shell \<Rightarrow> finsh_shell option" where
  "print_back 0 s = Some s"
| "print_back (Suc n) s = do { s \<leftarrow> print [BS] [] s; print_back n s }"

text \<open>The prompt is a format of its own when it stands alone.\<close>

definition print_prompt :: "finsh_shell \<Rightarrow> finsh_shell option" where
  "print_prompt s = print (finsh_get_prompt s) [] s"

definition print_prompt_line :: "finsh_shell \<Rightarrow> finsh_shell option" where
  "print_prompt_line s = do { l \<leftarrow> c_str (line s) 0; print ''%s%s'' [AStr (Some (finsh_get_prompt s)), AStr (Some l)] s }"

text \<open>The modes keep the lowest bit only. A prompt with a percent sign asks for arguments that are not there.\<close>

lemma prompt_mode_2: "finsh_get_prompt_mode (finsh_set_prompt_mode 2 s) = 0"
  by (simp add: finsh_get_prompt_mode_def finsh_set_prompt_mode_def bit_iff_odd)

lemma echo_3: "finsh_get_echo (finsh_set_echo 3 s) = 1"
  by (simp add: finsh_get_echo_def finsh_set_echo_def bit_iff_odd)

lemma prompt_is_format: "prompt_mode s \<Longrightarrow> print_prompt (finsh_set_prompt (Some ''100%s>'') True s) = None"
  by (simp add: print_prompt_def finsh_get_prompt_def finsh_set_prompt_def print_def kprintf_def directive_text_def parse_width_def
      parse_precision_def parse_qualifier_def is_digit_def)

text \<open>\<open>rt_memmove\<close> inside the line.\<close>

definition line_move :: "nat \<Rightarrow> nat \<Rightarrow> nat \<Rightarrow> string \<Rightarrow> string option" where
  "line_move dst src n b =
    (if dst + n \<le> length b \<and> src + n \<le> length b then Some (take dst b @ take n (drop src b) @ drop (dst + n) b) else None)"

section \<open>History\<close>

definition shell_handle_history :: "finsh_shell \<Rightarrow> finsh_shell option" where
  "shell_handle_history s = do { s \<leftarrow> print (ESC # ''[2K'' @ [CHR 0x0D]) [] s; print_prompt_line s }"

definition history_entry :: "finsh_shell \<Rightarrow> string option" where
  "history_entry s =
    (let n = unat (line_position s) in if n \<le> FINSH_CMD_SIZE then Some (take n (line s) @ replicate (FINSH_CMD_SIZE - n) NUL) else None)"

definition shell_push_history :: "finsh_shell \<Rightarrow> finsh_shell option" where
  "shell_push_history s =
    do {
      s \<leftarrow>
        (if line_position s \<noteq> 0 then
           if history_count s \<ge> 5 then
             if cmd_history s ! (FINSH_HISTORY_LINES - 1) \<noteq> take FINSH_CMD_SIZE (line s) then
               do {
                 e \<leftarrow> history_entry s;
                 Some (s\<lparr>cmd_history := tl (cmd_history s) @ [e], history_count := 5\<rparr>)
               }
             else Some s
           else
             if history_count s = 0 \<or> cmd_history s ! (unat (history_count s) - 1) \<noteq> take FINSH_CMD_SIZE (line s) then
               do {
                 e \<leftarrow> history_entry s;
                 Some (s\<lparr>cmd_history := (cmd_history s)[unat (history_count s) := e], history_count := history_count s + 1\<rparr>)
               }
             else Some s
         else Some s);
      Some (s\<lparr>current_history := history_count s\<rparr>)
    }"

text \<open>The line from entry \<open>current_history\<close> of the history.\<close>

definition load_history :: "finsh_shell \<Rightarrow> finsh_shell option" where
  "load_history s =
    (let i = unat (current_history s)
     in if i < length (cmd_history s) then
          do {
            let s = s\<lparr>line := cmd_history s ! i @ drop FINSH_CMD_SIZE (line s)\<rparr>;
            l \<leftarrow> c_str (line s) 0;
            shell_handle_history (s\<lparr>line_position := of_nat (length l), line_curpos := of_nat (length l)\<rparr>)
          }
        else None)"

definition key_up :: "finsh_shell \<Rightarrow> finsh_shell option" where
  "key_up s =
    (if current_history s > 0 then load_history (s\<lparr>current_history := current_history s - 1\<rparr>)
     else Some (s\<lparr>current_history := 0\<rparr>))"

definition key_down :: "finsh_shell \<Rightarrow> finsh_shell option" where
  "key_down s =
    (if int (unat (current_history s)) < int (unat (history_count s)) - 1 then load_history (s\<lparr>current_history := current_history s + 1\<rparr>)
     else if history_count s \<noteq> 0 then load_history (s\<lparr>current_history := history_count s - 1\<rparr>)
     else Some s)"

section \<open>Editing\<close>

definition key_left :: "finsh_shell \<Rightarrow> finsh_shell option" where
  "key_left s =
    (if line_curpos s \<noteq> 0 then do { s \<leftarrow> print [BS] [] s; Some (s\<lparr>line_curpos := line_curpos s - 1\<rparr>) } else Some s)"

definition key_right :: "finsh_shell \<Rightarrow> finsh_shell option" where
  "key_right s =
    (if line_curpos s < line_position s then
       do {
         c \<leftarrow> buf_get (line s) (unat (line_curpos s));
         s \<leftarrow> print ''%c'' [AInt (of_char c)] s;
         Some (s\<lparr>line_curpos := line_curpos s + 1\<rparr>)
       }
     else Some s)"

definition shell_auto_complete :: "'w finsh_syscall list \<Rightarrow> finsh_shell \<Rightarrow> finsh_shell option" where
  "shell_auto_complete table s =
    do {
      s \<leftarrow> print ''\<newline>'' [] s;
      (b, t) \<leftarrow> msh_auto_complete table (line s);
      print_prompt_line (s\<lparr>line := b, printed_text := printed_text s @ t\<rparr>)
    }"

definition key_tab :: "'w finsh_syscall list \<Rightarrow> finsh_shell \<Rightarrow> finsh_shell option" where
  "key_tab table s =
    do {
      s \<leftarrow> print_back (unat (line_curpos s)) s;
      s \<leftarrow> shell_auto_complete table s;
      l \<leftarrow> c_str (line s) 0;
      Some (s\<lparr>line_position := of_nat (length l), line_curpos := of_nat (length l)\<rparr>)
    }"

definition key_backspace :: "finsh_shell \<Rightarrow> finsh_shell option" where
  "key_backspace s =
    (if line_curpos s = 0 then Some s
     else
       let s = s\<lparr>line_position := line_position s - 1, line_curpos := line_curpos s - 1\<rparr>;
           pos = unat (line_position s); cur = unat (line_curpos s)
       in if line_position s > line_curpos s then
            do {
              b \<leftarrow> line_move cur (cur + 1) (pos - cur) (line s);
              b \<leftarrow> buf_set b pos NUL;
              l \<leftarrow> c_str b cur;
              s \<leftarrow> print ([BS] @ ''%s  '' @ [BS]) [AStr (Some l)] (s\<lparr>line := b\<rparr>);
              print_back (pos + 1 - cur) s
            }
          else
            do {
              s \<leftarrow> print [BS, CHR '' '', BS] [] s;
              b \<leftarrow> buf_set (line s) pos NUL;
              Some (s\<lparr>line := b\<rparr>)
            })"

definition key_enter :: "'w finsh_syscall list \<Rightarrow> finsh_shell \<Rightarrow> 'w \<Rightarrow> (finsh_shell \<times> 'w) option" where
  "key_enter table s w =
    do {
      s \<leftarrow> shell_push_history s;
      s \<leftarrow> (if echo_mode s then print ''\<newline>'' [] s else Some s);
      (ret, b, t, w) \<leftarrow> msh_exec table (line s) (unat (line_position s)) w;
      s \<leftarrow> print_prompt (s\<lparr>line := b, printed_text := printed_text s @ t\<rparr>);
      Some (s\<lparr>line := replicate (FINSH_CMD_SIZE + 1) NUL, line_curpos := 0, line_position := 0\<rparr>, w)
    }"

definition key_normal :: "char \<Rightarrow> finsh_shell \<Rightarrow> finsh_shell option" where
  "key_normal ch s =
    do {
      let s = (if line_position s \<ge> 80 then s\<lparr>line_position := 0\<rparr> else s);
      let pos = unat (line_position s);
      let cur = unat (line_curpos s);
      s \<leftarrow>
        (if line_curpos s < line_position s then
           do {
             b \<leftarrow> line_move (cur + 1) cur (pos - cur) (line s);
             b \<leftarrow> buf_set b cur ch;
             let s = s\<lparr>line := b\<rparr>;
             l \<leftarrow> c_str b cur;
             s \<leftarrow> (if echo_mode s then print ''%s'' [AStr (Some l)] s else Some s);
             print_back (pos - cur) s
           }
         else
           do {
             b \<leftarrow> buf_set (line s) pos ch;
             let s = s\<lparr>line := b\<rparr>;
             if echo_mode s then print ''%c'' [AInt (of_char ch)] s else Some s
           });
      let s = s\<lparr>line_position := line_position s + 1, line_curpos := line_curpos s + 1\<rparr>;
      Some (if line_position s \<ge> 80 then s\<lparr>line_position := 0, line_curpos := 0\<rparr> else s)
    }"

definition handle_char :: "'w finsh_syscall list \<Rightarrow> char \<Rightarrow> finsh_shell \<Rightarrow> 'w \<Rightarrow> (finsh_shell \<times> 'w) option" where
  "handle_char table ch s w =
    (if ch = NUL \<or> ch = CHR 0xFF then Some (s, w)
     else if ch = CHR 0x09 then map_option (\<lambda>s. (s, w)) (key_tab table s)
     else if ch = CHR 0x7F \<or> ch = BS then map_option (\<lambda>s. (s, w)) (key_backspace s)
     else if ch = CHR 0x0D \<or> ch = CHR 0x0A then key_enter table s w
     else map_option (\<lambda>s. (s, w)) (key_normal ch s))"

text \<open>One round of the loop of \<open>finsh_thread_entry\<close>.\<close>

definition finsh_key :: "'w finsh_syscall list \<Rightarrow> char \<Rightarrow> finsh_shell \<Rightarrow> 'w \<Rightarrow> (finsh_shell \<times> 'w) option" where
  "finsh_key table ch s w =
    (if ch = ESC then Some (s\<lparr>stat := WAIT_SPEC_KEY\<rparr>, w)
     else case stat s of
       WAIT_NORMAL \<Rightarrow> handle_char table ch s w
     | WAIT_SPEC_KEY \<Rightarrow>
         if ch = CHR ''['' then Some (s\<lparr>stat := WAIT_FUNC_KEY\<rparr>, w) else handle_char table ch (s\<lparr>stat := WAIT_NORMAL\<rparr>) w
     | WAIT_FUNC_KEY \<Rightarrow>
         let s = s\<lparr>stat := WAIT_NORMAL\<rparr>
         in if ch = CHR ''A'' then map_option (\<lambda>s. (s, w)) (key_up s)
            else if ch = CHR ''B'' then map_option (\<lambda>s. (s, w)) (key_down s)
            else if ch = CHR ''D'' then map_option (\<lambda>s. (s, w)) (key_left s)
            else if ch = CHR ''C'' then map_option (\<lambda>s. (s, w)) (key_right s)
            else handle_char table ch s w)"

fun finsh_thread_entry :: "'w finsh_syscall list \<Rightarrow> string \<Rightarrow> finsh_shell \<Rightarrow> 'w \<Rightarrow> (finsh_shell \<times> 'w) option" where
  "finsh_thread_entry table [] s w = Some (s, w)"
| "finsh_thread_entry table (ch # chs) s w = do { (s, w) \<leftarrow> finsh_key table ch s w; finsh_thread_entry table chs s w }"

section \<open>The editor behind the buffer\<close>

text \<open>What the user edits: the text before and behind the cursor, and the commands so far with a position among them.\<close>

record editor =
  ed_left :: string
  ed_right :: string
  ed_hist :: "string list"
  ed_cur :: nat

abbreviation ed_line :: "editor \<Rightarrow> string" where "ed_line e \<equiv> ed_left e @ ed_right e"

definition good_line :: "string \<Rightarrow> bool" where
  "good_line l \<longleftrightarrow> length l \<le> 79 \<and> NUL \<notin> set l"

definition lined :: "string \<Rightarrow> string" where
  "lined l = l @ replicate (81 - length l) NUL"

definition entry :: "string \<Rightarrow> string" where
  "entry l = l @ replicate (80 - length l) NUL"

definition editing :: "finsh_shell \<Rightarrow> editor \<Rightarrow> bool" where
  "editing s e \<longleftrightarrow>
    stat s = WAIT_NORMAL \<and> good_line (ed_line e) \<and> line s = lined (ed_line e) \<and>
    unat (line_position s) = length (ed_line e) \<and> unat (line_curpos s) = length (ed_left e) \<and>
    length (cmd_history s) = 5 \<and> length (ed_hist e) \<le> 5 \<and> list_all good_line (ed_hist e) \<and>
    take (length (ed_hist e)) (cmd_history s) = map entry (ed_hist e) \<and>
    unat (history_count s) = length (ed_hist e) \<and> ed_cur e \<le> length (ed_hist e) \<and> unat (current_history s) = ed_cur e \<and>
    CHR ''%'' \<notin> set (finsh_get_prompt s) \<and> length (finsh_get_prompt s) \<le> 100"

lemmas unat16 = word_less_nat_alt word_le_nat_alt

lemma unat_inc [simp]: "unat (x :: u16) < 65535 \<Longrightarrow> unat (x + 1) = Suc (unat x)"
  by (simp add: unat_word_ariths take_bit_nat_eq_self)

lemma unat_dec [simp]: "x \<noteq> 0 \<Longrightarrow> unat ((x :: u16) - 1) = unat x - 1"
  by (metis unat_minus_one)

lemma unat_small [simp]: "n < 65536 \<Longrightarrow> unat (of_nat n :: u16) = n"
  by (simp add: unat_of_nat take_bit_nat_eq_self)

lemma unat_zero_iff: "x = 0 \<longleftrightarrow> unat (x :: u16) = 0"
  by (simp add: unat_eq_0)

lemma c_str_lined:
  assumes "good_line (l @ r)"
  shows "c_str (lined (l @ r)) (length l) = Some r"
proof -
  have "81 - length (l @ r) = Suc (80 - length (l @ r))"
    using assms unfolding good_line_def by arith
  then have "lined (l @ r) = l @ r @ NUL # replicate (80 - length (l @ r)) NUL"
    by (simp add: lined_def)
  then show ?thesis
    using assms c_str_at [of r l "length l"] by (simp add: good_line_def)
qed

lemma c_str_lined0: "good_line l \<Longrightarrow> c_str (lined l) 0 = Some l"
  using c_str_lined [of "[]" l] by simp

lemma length_lined [simp]: "good_line l \<Longrightarrow> length (lined l) = 81"
  by (simp add: lined_def good_line_def)

lemma entry_take: "good_line l \<Longrightarrow> take 80 (lined l) = entry l"
  by (simp add: lined_def entry_def good_line_def)

lemma entry_inject:
  assumes "NUL \<notin> set l" "NUL \<notin> set k"
  shows "entry l = entry k \<longleftrightarrow> l = k"
proof -
  have "takeWhile (\<lambda>c. c \<noteq> NUL) (entry m) = m" if "NUL \<notin> set m" for m
    using that by (auto simp: entry_def takeWhile_append)
  then show ?thesis
    using assms by metis
qed

lemma entry_lined: "good_line l \<Longrightarrow> entry l @ [NUL] = lined l"
proof -
  assume "good_line l"
  then have "81 - length l = 80 - length l + 1"
    unfolding good_line_def by arith
  then show ?thesis
    unfolding lined_def entry_def by (simp only: replicate_add append_assoc) simp
qed

lemma drop_lined: "good_line l \<Longrightarrow> drop 80 (lined l) = [NUL]"
  by (simp add: entry_lined [symmetric] entry_def good_line_def)

section \<open>Printing\<close>

lemma print_plain: "CHR ''%'' \<notin> set t \<Longrightarrow> length t \<le> 254 \<Longrightarrow> print t args s = Some (s\<lparr>printed_text := printed_text s @ t\<rparr>)"
  by (simp add: print_def)

lemma print_back_eq: "print_back n s = Some (s\<lparr>printed_text := printed_text s @ replicate n BS\<rparr>)"
proof (induction n arbitrary: s)
  case (Suc n)
  then show ?case by (simp add: print_plain)
qed simp

lemma print_s:
  assumes "CHR ''%'' \<notin> set t" "length l + length t \<le> 254"
  shows "print (CHR ''%'' # CHR ''s'' # t) [AStr (Some l)] s = Some (s\<lparr>printed_text := printed_text s @ l @ t\<rparr>)"
  using assms by (simp add: print_def del: append_assoc)

lemma format_text_c: "format_text ''%c'' [AInt a] = Some [char_of (unat a mod 256)]"
  by (simp add: directive_text_def parse_width_def parse_precision_def parse_qualifier_def is_digit_def char_text_def)

lemma print_c: "print ''%c'' [AInt (of_char c)] s = Some (s\<lparr>printed_text := printed_text s @ [c]\<rparr>)"
proof -
  have "of_char c < (2 ^ 32 :: nat)"
    using nat_of_char_less_256 [of c] by (rule less_trans) simp
  then have "unat (of_nat (of_char c) :: u32) = of_char c"
    by (intro of_nat_inverse [OF refl]) simp
  then have "unat (of_char c :: u32) = of_char c"
    by (simp only: of_nat_of_char)
  then show ?thesis
    by (simp add: print_def kprintf_def format_text_c del: format_text.simps)
qed

lemma print_prompt_line_some:
  assumes "c_str (line s) 0 = Some l"
  shows "\<exists>t. print_prompt_line s = Some (s\<lparr>printed_text := t\<rparr>)"
proof -
  have "kprintf ''%s%s'' [AStr (Some (finsh_get_prompt s)), AStr (Some l)] = Some (log_buf (finsh_get_prompt s @ l))"
    by (simp add: kprintf_def format_text_s del: format_text.simps(2))
  then show ?thesis
    using assms by (auto simp: print_prompt_line_def print_def)
qed

lemma print_prompt_line_eq:
  assumes "good_line l" "line s = lined l" "length (finsh_get_prompt s) + length l \<le> 254"
  shows "print_prompt_line s = Some (s\<lparr>printed_text := printed_text s @ finsh_get_prompt s @ l\<rparr>)"
proof -
  have "kprintf ''%s%s'' [AStr (Some (finsh_get_prompt s)), AStr (Some l)] = Some (log_buf (finsh_get_prompt s @ l))"
    by (simp add: kprintf_def format_text_s del: format_text.simps(2))
  then show ?thesis
    using assms by (simp add: print_prompt_line_def c_str_lined0 print_def)
qed

section \<open>The terminal\<close>

text \<open>The row of the terminal with the cursor, its position, and a control sequence that is not yet complete.\<close>

type_synonym terminal = "string \<times> nat \<times> string"

definition put_at :: "string \<Rightarrow> nat \<Rightarrow> char \<Rightarrow> string" where
  "put_at row k c = take k (row @ replicate (k - length row) CHR '' '') @ c # drop (Suc k) row"

fun term_char :: "terminal \<Rightarrow> char \<Rightarrow> terminal" where
  "term_char (row, k, []) c =
    (if c = ESC then (row, k, [ESC])
     else if c = BS then (row, k - 1, [])
     else if c = CHR 0x0D then (row, 0, [])
     else if c = CHR 0x0A then ([], 0, [])
     else if (of_char c :: nat) < 32 then (row, k, [])
     else (put_at row k c, Suc k, []))"
| "term_char (row, k, p) c =
    (if length p = 1 then (row, k, if c = CHR ''['' then p @ [c] else [])
     else if 0x40 \<le> (of_char c :: nat) then (if p @ [c] = ESC # ''[2K'' then [] else row, k, [])
     else (row, k, p @ [c]))"

definition show_text :: "string \<Rightarrow> terminal \<Rightarrow> terminal" where
  "show_text t s = foldl term_char s t"

definition printable :: "char \<Rightarrow> bool" where
  "printable c \<longleftrightarrow> 32 \<le> (of_char c :: nat)"

lemma term_printable: "printable c \<Longrightarrow> term_char (row, k, []) c = (put_at row k c, Suc k, [])"
  by (auto simp: printable_def)

lemma show_text_append [simp]: "show_text (t @ u) s = show_text u (show_text t s)"
  by (simp add: show_text_def)

lemma show_text_Nil [simp]: "show_text [] s = s"
  by (simp add: show_text_def)

lemma put_at_append: "length r = k \<Longrightarrow> put_at (r @ x) k c = r @ c # drop 1 x"
  by (simp add: put_at_def)

lemma show_printable:
  assumes "list_all printable t" "length r = k"
  shows "show_text t (r @ x, k, []) = (r @ t @ drop (length t) x, k + length t, [])"
  using assms
proof (induction t arbitrary: r x k)
  case (Cons c t)
  have "show_text (c # t) (r @ x, k, []) = show_text t ((r @ [c]) @ drop 1 x, Suc k, [])"
    using Cons.prems by (simp add: show_text_def term_printable put_at_append del: term_char.simps)
  then show ?case
    using Cons.IH [of "r @ [c]" "Suc k" "drop 1 x"] Cons.prems by simp
qed simp

lemma show_back: "show_text (replicate n BS) (r, k, []) = (r, k - n, [])"
  by (induction n arbitrary: k) (simp_all add: show_text_def)

lemma show_erase: "show_text (ESC # ''[2K'' @ [CHR 0x0D]) (r, k, []) = ([], 0, [])"
  by (simp add: show_text_def)

text \<open>The row ends with the line, up to blanks, and the cursor stands where the editor's is.\<close>

definition visible :: "finsh_shell \<Rightarrow> editor \<Rightarrow> bool" where
  "visible s e \<longleftrightarrow> echo_mode s \<and>
    list_all printable (ed_line e) \<and> list_all (list_all printable) (ed_hist e) \<and> list_all printable (finsh_get_prompt s) \<and>
    (\<exists>pre n. show_text (printed_text s) ([], 0, []) = (pre @ ed_line e @ replicate n CHR '' '', length (pre @ ed_left e), []))"

section \<open>Keys\<close>

lemma finsh_get_prompt_update [simp]:
  "finsh_get_prompt (s\<lparr>stat := a\<rparr>) = finsh_get_prompt s"
  "finsh_get_prompt (s\<lparr>current_history := n\<rparr>) = finsh_get_prompt s"
  "finsh_get_prompt (s\<lparr>history_count := n\<rparr>) = finsh_get_prompt s"
  "finsh_get_prompt (s\<lparr>cmd_history := h\<rparr>) = finsh_get_prompt s"
  "finsh_get_prompt (s\<lparr>line := b\<rparr>) = finsh_get_prompt s"
  "finsh_get_prompt (s\<lparr>line_position := n\<rparr>) = finsh_get_prompt s"
  "finsh_get_prompt (s\<lparr>line_curpos := n\<rparr>) = finsh_get_prompt s"
  "finsh_get_prompt (s\<lparr>printed_text := t\<rparr>) = finsh_get_prompt s"
  by (simp_all add: finsh_get_prompt_def)

lemma good_line_append: "good_line (l @ c # r) \<Longrightarrow> good_line (l @ r)"
  by (simp add: good_line_def)

definition ed_type :: "char \<Rightarrow> editor \<Rightarrow> editor" where
  "ed_type c e = e\<lparr>ed_left := ed_left e @ [c]\<rparr>"

definition ed_backspace :: "editor \<Rightarrow> editor" where
  "ed_backspace e = (if ed_left e = [] then e else e\<lparr>ed_left := butlast (ed_left e)\<rparr>)"

definition ed_go_left :: "editor \<Rightarrow> editor" where
  "ed_go_left e =
    (if ed_left e = [] then e else e\<lparr>ed_left := butlast (ed_left e), ed_right := last (ed_left e) # ed_right e\<rparr>)"

definition ed_go_right :: "editor \<Rightarrow> editor" where
  "ed_go_right e = (case ed_right e of [] \<Rightarrow> e | c # r \<Rightarrow> e\<lparr>ed_left := ed_left e @ [c], ed_right := r\<rparr>)"

definition ed_load :: "nat \<Rightarrow> editor \<Rightarrow> editor" where
  "ed_load i e = e\<lparr>ed_left := ed_hist e ! i, ed_right := [], ed_cur := i\<rparr>"

definition ed_up :: "editor \<Rightarrow> editor" where
  "ed_up e = (if ed_cur e > 0 then ed_load (ed_cur e - 1) e else e)"

definition ed_down :: "editor \<Rightarrow> editor" where
  "ed_down e =
    (if ed_cur e + 1 < length (ed_hist e) then ed_load (ed_cur e + 1) e
     else if ed_hist e \<noteq> [] then ed_load (length (ed_hist e) - 1) e else e)"

text \<open>What a key prints moves the cursor and changes the row as the key changes the editor.\<close>

definition redraws :: "string \<Rightarrow> editor \<Rightarrow> editor \<Rightarrow> bool" where
  "redraws t e e' \<longleftrightarrow>
    (\<forall>pre n. \<exists>pre' n'. show_text t (pre @ ed_line e @ replicate n CHR '' '', length (pre @ ed_left e), []) =
      (pre' @ ed_line e' @ replicate n' CHR '' '', length (pre' @ ed_left e'), []))"

lemma redrawsI:
  assumes "\<And>pre n. \<exists>n'. show_text t (pre @ ed_line e @ replicate n CHR '' '', length (pre @ ed_left e), []) =
      (pre @ ed_line e' @ replicate n' CHR '' '', length (pre @ ed_left e'), [])"
  shows "redraws t e e'"
  using assms unfolding redraws_def by blast

lemma visible_step:
  assumes "visible s e" "redraws t e e'" "printed_text s' = printed_text s @ t" "echo_mode s' = echo_mode s"
    "finsh_get_prompt s' = finsh_get_prompt s" "list_all printable (ed_line e')" "ed_hist e' = ed_hist e"
  shows "visible s' e'"
proof -
  obtain pre n where "show_text (printed_text s) ([], 0, []) = (pre @ ed_line e @ replicate n CHR '' '', length (pre @ ed_left e), [])"
    using assms(1) unfolding visible_def by blast
  then have "show_text (printed_text s') ([], 0, []) = show_text t (pre @ ed_line e @ replicate n CHR '' '', length (pre @ ed_left e), [])"
    using assms(3) by simp
  then show ?thesis
    using assms unfolding visible_def redraws_def by metis
qed

lemma visible_printable: "visible s e \<Longrightarrow> list_all printable (ed_line e)"
  by (simp add: visible_def)

lemma show_BS [simp]: "show_text [BS] (r, k, []) = (r, k - 1, [])"
  by (simp add: show_text_def)

lemma key_left_ok:
  assumes "editing s e"
  shows "\<exists>s'. key_left s = Some s' \<and> editing s' (ed_go_left e) \<and> (visible s e \<longrightarrow> visible s' (ed_go_left e))"
proof (cases "ed_left e" rule: rev_cases)
  case Nil
  then show ?thesis
    using assms by (simp add: key_left_def ed_go_left_def editing_def unat_zero_iff)
next
  case (snoc l c)
  define s' where "s' = s\<lparr>printed_text := printed_text s @ [BS], line_curpos := line_curpos s - 1\<rparr>"
  have "line_curpos s \<noteq> 0"
    using assms snoc by (auto simp: editing_def)
  then have "key_left s = Some s'" "editing s' (ed_go_left e)"
    using assms snoc by (auto simp: key_left_def print_plain ed_go_left_def editing_def s'_def)
  moreover have "redraws [BS] e (ed_go_left e)"
    by (rule redrawsI) (auto simp: ed_go_left_def snoc)
  then have "visible s' (ed_go_left e)" if "visible s e"
    by (rule visible_step [OF that]) (use snoc visible_printable [OF that] in \<open>simp_all add: s'_def ed_go_left_def\<close>)
  ultimately show ?thesis
    by blast
qed

lemma key_right_ok:
  assumes "editing s e"
  shows "\<exists>s'. key_right s = Some s' \<and> editing s' (ed_go_right e) \<and> (visible s e \<longrightarrow> visible s' (ed_go_right e))"
proof (cases "ed_right e")
  case Nil
  then show ?thesis
    using assms by (simp add: key_right_def ed_go_right_def editing_def unat16)
next
  case (Cons c r)
  define l where "l = ed_left e"
  define s' where "s' = s\<lparr>printed_text := printed_text s @ [c], line_curpos := line_curpos s + 1\<rparr>"
  have l: "line_curpos s < line_position s" "unat (line_curpos s) = length l" "length l < 80"
    using assms Cons by (auto simp: editing_def unat16 good_line_def l_def)
  have "buf_get (line s) (length l) = Some c"
    using assms Cons by (simp add: editing_def lined_def l_def)
  then have "key_right s = Some s'" "editing s' (ed_go_right e)"
    using assms Cons l by (auto simp: key_right_def print_c ed_go_right_def editing_def l_def [symmetric] s'_def)
  moreover have "redraws [c] e (ed_go_right e)" if "printable c"
    using that show_printable [of "[c]" "_ @ l" _ "c # r @ replicate _ CHR '' ''"]
    by (intro redrawsI) (auto simp: ed_go_right_def Cons l_def)
  then have "visible s' (ed_go_right e)" if "visible s e"
    by (rule visible_step [OF that]) (use Cons visible_printable [OF that] in \<open>simp_all add: s'_def ed_go_right_def\<close>)
  ultimately show ?thesis
    by blast
qed

lemma print_bs_s:
  assumes "CHR ''%'' \<notin> set t" "length l + length t \<le> 250"
  shows "print (BS # CHR ''%'' # CHR ''s'' # t) [AStr (Some l)] s = Some (s\<lparr>printed_text := printed_text s @ BS # l @ t\<rparr>)"
proof -
  have "format_text (BS # CHR ''%'' # CHR ''s'' # t) [AStr (Some l)] = Some (BS # l @ t)"
    using assms(1) by (subst format_text.simps) (simp add: format_text_s format_text_plain del: format_text.simps)
  then show ?thesis
    using assms(2) by (simp add: print_def kprintf_def del: format_text.simps)
qed

lemma lined_remove:
  assumes "good_line (l @ c # r)"
  shows "\<exists>b. line_move (length l) (Suc (length l)) (length r) (lined (l @ c # r)) = Some b \<and> buf_set b (length l + length r) NUL = Some (lined (l @ r))"
proof -
  have n: "81 - (length l + length r) = Suc (80 - (length l + length r))" "length l + length r < 79"
    using assms by (simp_all add: good_line_def) arith
  define z where "z = replicate (80 - (length l + length r)) NUL"
  have B: "lined (l @ c # r) = l @ c # r @ z"
    by (simp add: lined_def z_def)
  have "drop (length r) (c # r @ z) = last (c # r) # z"
    by (cases r rule: rev_cases) auto
  moreover have "length z = 80 - (length l + length r)"
    by (simp add: z_def)
  ultimately have "line_move (length l) (Suc (length l)) (length r) (lined (l @ c # r)) = Some (l @ r @ last (c # r) # z)"
    unfolding B line_move_def using n by simp
  moreover have "lined (l @ r) = l @ r @ NUL # z"
    by (simp add: lined_def n z_def)
  ultimately show ?thesis
    using buf_at(2) [of "l @ r" "length l + length r"] by simp
qed

lemma key_backspace_ok:
  assumes "editing s e"
  shows "\<exists>s'. key_backspace s = Some s' \<and> editing s' (ed_backspace e) \<and> (visible s e \<longrightarrow> visible s' (ed_backspace e))"
proof (cases "ed_left e" rule: rev_cases)
  case Nil
  then show ?thesis
    using assms by (simp add: key_backspace_def ed_backspace_def editing_def unat_zero_iff)
next
  case (snoc l c)
  define r where "r = ed_right e"
  define t where "t = (if r = [] then [BS, CHR '' '', BS] else BS # r @ ''  '' @ BS # replicate (Suc (length r)) BS)"
  define s' where "s' = s\<lparr>line_position := line_position s - 1, line_curpos := line_curpos s - 1, line := lined (l @ r), printed_text := printed_text s @ t\<rparr>"
  have good: "good_line (l @ c # r)" "good_line (l @ r)" "line s = lined (l @ c # r)"
    using assms snoc good_line_append by (auto simp: editing_def r_def)
  have "unat (line_curpos s) = Suc (length l)" "unat (line_position s) = Suc (length l + length r)"
    using assms snoc by (simp_all add: editing_def r_def)
  moreover from this have "line_curpos s \<noteq> 0" "line_position s \<noteq> 0"
    by auto
  ultimately have pos: "line_curpos s \<noteq> 0" "line_position s \<noteq> 0" "unat (line_curpos s - 1) = length l" "unat (line_position s - 1) = length l + length r"
    by simp_all
  obtain b where b: "line_move (length l) (Suc (length l)) (length r) (line s) = Some b" "buf_set b (length l + length r) NUL = Some (lined (l @ r))"
    using lined_remove [OF good(1)] good(3) by auto
  have "key_backspace s = Some s'"
  proof (cases "r = []")
    case True
    have "lined (l @ [c]) = l @ c # NUL # replicate (79 - length l) NUL" "lined l = l @ NUL # NUL # replicate (79 - length l) NUL"
      using good(1) by (auto simp: lined_def good_line_def replicate_append_same numeral_eq_Suc Suc_diff_le)
    then have "buf_set (line s) (length l) NUL = Some (lined l)"
      using good(3) True buf_at(2) [of l "length l" c] by simp
    then show ?thesis
      using pos True by (simp add: key_backspace_def Let_def unat16 print_plain s'_def t_def)
  next
    case False
    then have "c_str (lined (l @ r)) (length l) = Some r" "length r + 3 \<le> 250"
      using c_str_lined [OF good(2)] good(2) by (auto simp: good_line_def)
    then show ?thesis
      using pos False b by (simp add: key_backspace_def Let_def unat16 print_bs_s print_back_eq s'_def t_def)
  qed
  moreover have "editing s' (ed_backspace e)"
    using assms snoc pos good by (simp add: editing_def ed_backspace_def s'_def r_def [symmetric])
  moreover have "redraws t e (ed_backspace e)" if p: "list_all printable r"
  proof (rule redrawsI)
    fix pre n
    have row: "pre @ ed_line e @ replicate n CHR '' '' = (pre @ l) @ c # r @ replicate n CHR '' ''" "length (pre @ ed_left e) = Suc (length (pre @ l))"
      using snoc by (simp_all add: r_def)
    show "\<exists>n'. show_text t (pre @ ed_line e @ replicate n CHR '' '', length (pre @ ed_left e), []) =
        (pre @ ed_line (ed_backspace e) @ replicate n' CHR '' '', length (pre @ ed_left (ed_backspace e)), [])"
    proof (cases "r = []")
      case True
      have "show_text [BS, CHR '' '', BS] (pre @ ed_line e @ replicate n CHR '' '', length (pre @ ed_left e), []) =
        (pre @ l @ CHR '' '' # replicate n CHR '' '', length (pre @ l), [])"
        unfolding row using True by (simp add: show_text_def put_at_append [of "pre @ l", simplified])
      then show ?thesis
        using True snoc by (auto simp: t_def ed_backspace_def r_def intro: exI [of _ "Suc n"])
    next
      case False
      have t: "t = [BS] @ (r @ ''  '') @ replicate (length r + 2) BS"
        using False by (simp add: t_def)
      have "list_all printable (r @ ''  '')"
        using p by (simp add: printable_def)
      from show_printable [OF this, of "pre @ l" "length (pre @ l)" "c # r @ replicate n CHR '' ''"]
      have "show_text t (pre @ ed_line e @ replicate n CHR '' '', length (pre @ ed_left e), []) =
        (pre @ l @ r @ ''  '' @ drop (length r + 2) (c # r @ replicate n CHR '' ''), length (pre @ l), [])"
        unfolding row t show_text_append show_BS by (simp add: show_back del: replicate_Suc)
      moreover have "''  '' @ drop (length r + 2) (c # r @ replicate n CHR '' '') = replicate (2 + (n - 1)) CHR '' ''"
        by simp
      ultimately show ?thesis
        using snoc by (auto simp: ed_backspace_def r_def intro: exI [of _ "2 + (n - 1)"])
    qed
  qed
  then have "visible s' (ed_backspace e)" if "visible s e"
    by (rule visible_step [OF that]) (use snoc visible_printable [OF that] in \<open>simp_all add: s'_def ed_backspace_def r_def\<close>)
  ultimately show ?thesis
    by blast
qed

lemma lined_insert:
  assumes "good_line (l @ c # r)" "c \<noteq> NUL"
  shows "\<exists>b. line_move (Suc (length l)) (length l) (length r) (lined (l @ r)) = Some b \<and> buf_set b (length l) c = Some (lined (l @ c # r))"
    and "buf_set (lined l) (length l) c = Some (lined (l @ [c]))"
proof -
  define z where "z = replicate (80 - (length l + length r)) NUL"
  have n: "81 - (length l + length r) = Suc (80 - (length l + length r))" "length l + length r < 79" "length z = 80 - (length l + length r)"
    using assms by (simp_all add: good_line_def z_def) arith
  have B: "lined (l @ r) = l @ r @ NUL # z" "lined (l @ c # r) = l @ c # r @ z"
    by (simp_all add: lined_def n(1) z_def)
  have "take (Suc (length l)) (l @ r @ NUL # z) = l @ [hd (r @ [NUL])]"
    by (cases r) auto
  then have "line_move (Suc (length l)) (length l) (length r) (lined (l @ r)) = Some (l @ hd (r @ [NUL]) # r @ z)"
    unfolding B line_move_def using n by simp
  then show "\<exists>b. line_move (Suc (length l)) (length l) (length r) (lined (l @ r)) = Some b \<and> buf_set b (length l) c = Some (lined (l @ c # r))"
    using buf_at(2) [of l "length l"] B by simp
  have "81 - length l = Suc (80 - length l)"
    using n by arith
  then show "buf_set (lined l) (length l) c = Some (lined (l @ [c]))"
    using buf_at(2) [of l "length l"] by (simp add: lined_def)
qed

lemma key_normal_ok:
  assumes "editing s e" "length (ed_line e) < 79" "c \<noteq> NUL"
  shows "\<exists>s'. key_normal c s = Some s' \<and> editing s' (ed_type c e) \<and> (visible s e \<longrightarrow> printable c \<longrightarrow> visible s' (ed_type c e))"
proof -
  define l r where "l = ed_left e" and "r = ed_right e"
  define t where "t = (if echo_mode s then c # r else []) @ replicate (length r) BS"
  define s' where "s' = s\<lparr>line := lined (l @ c # r), printed_text := printed_text s @ t, line_position := line_position s + 1, line_curpos := line_curpos s + 1\<rparr>"
  have good: "good_line (l @ c # r)" "good_line (l @ r)" "line s = lined (l @ r)"
    using assms by (auto simp: editing_def good_line_def l_def r_def)
  have "unat (line_curpos s) = length l" "unat (line_position s) = length l + length r" "length l + length r < 79"
    using assms by (simp_all add: editing_def l_def r_def)
  then have pos: "unat (line_curpos s) = length l" "unat (line_position s) = length l + length r" "\<not> 80 \<le> line_position s"
    "\<not> 80 \<le> line_position s + 1" "unat (line_position s + 1) = Suc (length l + length r)" "unat (line_curpos s + 1) = Suc (length l)"
    by (simp_all add: unat16)
  have "key_normal c s = Some s'"
  proof (cases "r = []")
    case True
    then show ?thesis
      using pos lined_insert(2) [OF good(1) assms(3)] good(3) by (simp add: key_normal_def Let_def unat16 print_c s'_def t_def)
  next
    case False
    obtain b where b: "line_move (Suc (length l)) (length l) (length r) (line s) = Some b" "buf_set b (length l) c = Some (lined (l @ c # r))"
      using lined_insert(1) [OF good(1) assms(3)] good(3) by auto
    have "c_str (lined (l @ c # r)) (length l) = Some (c # r)" "length (c # r) \<le> 254"
      using c_str_lined [OF good(1)] good(1) by (auto simp: good_line_def)
    then show ?thesis
      using pos False b print_s [of "[]" "c # r"] by (simp add: key_normal_def Let_def unat16 print_back_eq s'_def t_def)
  qed
  moreover have "editing s' (ed_type c e)"
    using assms pos good by (simp add: editing_def ed_type_def s'_def l_def r_def)
  moreover have "visible s' (ed_type c e)" if "visible s e" "printable c"
  proof (rule visible_step [OF that(1)])
    have p: "list_all printable (c # r)" and echo: "echo_mode s"
      using that by (simp_all add: visible_def r_def)
    show "redraws t e (ed_type c e)"
    proof (rule redrawsI)
      fix pre n
      have "t = (c # r) @ replicate (length r) BS"
        using echo by (simp add: t_def)
      then have "show_text t (pre @ ed_line e @ replicate n CHR '' '', length (pre @ ed_left e), []) =
          show_text (replicate (length r) BS) (show_text (c # r) (pre @ ed_line e @ replicate n CHR '' '', length (pre @ ed_left e), []))"
        by (simp only: show_text_append)
      also have "\<dots> = (pre @ l @ c # r @ replicate (n - 1) CHR '' '', Suc (length pre + length l), [])"
        using show_printable [OF p, of "pre @ l" "length (pre @ l)" "r @ replicate n CHR '' ''"]
        by (simp add: show_back l_def [symmetric] r_def [symmetric])
      finally show "\<exists>n'. show_text t (pre @ ed_line e @ replicate n CHR '' '', length (pre @ ed_left e), []) =
          (pre @ ed_line (ed_type c e) @ replicate n' CHR '' '', length (pre @ ed_left (ed_type c e)), [])"
        by (auto simp: ed_type_def l_def r_def)
    qed
  qed (use that visible_printable [OF that(1)] in \<open>simp_all add: s'_def ed_type_def\<close>)
  ultimately show ?thesis
    by blast
qed

lemma load_history_ok:
  assumes "editing s e" "i < length (ed_hist e)" "unat n = i"
  shows "\<exists>s'. load_history (s\<lparr>current_history := n\<rparr>) = Some s' \<and> editing s' (ed_load i e) \<and> (visible s e \<longrightarrow> visible s' (ed_load i e))"
proof -
  define h where "h = ed_hist e ! i"
  define t where "t = (ESC # ''[2K'' @ [CHR 0x0D]) @ finsh_get_prompt s @ h"
  define s' where "s' = s\<lparr>current_history := n, line := lined h, line_position := of_nat (length h), line_curpos := of_nat (length h), printed_text := printed_text s @ t\<rparr>"
  have h: "good_line h" "cmd_history s ! i = entry h" "i < length (cmd_history s)"
    using assms nth_take [of i "length (ed_hist e)" "cmd_history s"] by (auto simp: editing_def list_all_length h_def)
  have "drop 80 (line s) = [NUL]"
    using assms(1) drop_lined by (simp add: editing_def)
  then have "cmd_history s ! i @ drop 80 (line s) = lined h"
    using h entry_lined by simp
  moreover have "length (finsh_get_prompt s) + length h \<le> 254"
    using assms(1) h(1) by (simp add: editing_def good_line_def)
  ultimately have "load_history (s\<lparr>current_history := n\<rparr>) = Some s'"
    using h assms(3)
    by (simp add: load_history_def Let_def c_str_lined0 shell_handle_history_def print_plain print_prompt_line_eq s'_def t_def)
  moreover have "editing s' (ed_load i e)"
    using assms h by (simp add: editing_def ed_load_def s'_def h_def [symmetric]) (simp add: good_line_def)
  moreover have "visible s' (ed_load i e)" if "visible s e"
  proof (rule visible_step [OF that])
    have p: "list_all printable (finsh_get_prompt s @ h)"
      using that nth_mem [OF assms(2)] by (auto simp: visible_def h_def list_all_iff)
    show "redraws t e (ed_load i e)"
      unfolding redraws_def
    proof (intro allI)
      fix pre n
      have "show_text t (pre @ ed_line e @ replicate n CHR '' '', length (pre @ ed_left e), []) = (finsh_get_prompt s @ h, length (finsh_get_prompt s @ h), [])"
        unfolding t_def show_text_append [of "ESC # _"] show_erase using show_printable [OF p, of "[]" 0 "[]"] by simp
      then show "\<exists>pre' n'. show_text t (pre @ ed_line e @ replicate n CHR '' '', length (pre @ ed_left e), []) =
          (pre' @ ed_line (ed_load i e) @ replicate n' CHR '' '', length (pre' @ ed_left (ed_load i e)), [])"
        by (auto simp: ed_load_def h_def intro: exI [of _ "finsh_get_prompt s"] exI [of _ 0])
    qed
    show "list_all printable (ed_line (ed_load i e))"
      using p by (simp add: ed_load_def h_def)
  qed (simp_all add: s'_def ed_load_def)
  ultimately show ?thesis
    by blast
qed

lemma key_up_ok:
  assumes "editing s e"
  shows "\<exists>s'. key_up s = Some s' \<and> editing s' (ed_up e) \<and> (visible s e \<longrightarrow> visible s' (ed_up e))"
proof (cases "ed_cur e = 0")
  case True
  then have "current_history s = 0" "s\<lparr>current_history := 0\<rparr> = s"
    using assms by (auto simp: editing_def unat_zero_iff)
  then show ?thesis
    using assms True by (simp add: key_up_def ed_up_def) (simp add: editing_def visible_def)
next
  case False
  then have "current_history s \<noteq> 0"
    using assms by (auto simp: editing_def)
  then show ?thesis
    using load_history_ok [OF assms, of "ed_cur e - 1" "current_history s - 1"] assms False
    by (auto simp: key_up_def ed_up_def editing_def word_neq_0_conv)
qed

lemma key_down_ok:
  assumes "editing s e"
  shows "\<exists>s'. key_down s = Some s' \<and> editing s' (ed_down e) \<and> (visible s e \<longrightarrow> visible s' (ed_down e))"
proof -
  have c: "unat (current_history s) = ed_cur e" "unat (history_count s) = length (ed_hist e)" "ed_cur e \<le> 5"
    using assms by (auto simp: editing_def)
  consider "ed_cur e + 1 < length (ed_hist e)" | "\<not> ed_cur e + 1 < length (ed_hist e)" "ed_hist e \<noteq> []" | "ed_hist e = []"
    by blast
  then show ?thesis
  proof cases
    case 1
    then show ?thesis
      using load_history_ok [OF assms 1, of "current_history s + 1"] c by (simp add: key_down_def ed_down_def)
  next
    case 2
    then have "history_count s \<noteq> 0"
      using c by (auto simp: unat_zero_iff)
    then show ?thesis
      using load_history_ok [OF assms, of "length (ed_hist e) - 1" "history_count s - 1"] c 2 by (simp add: key_down_def ed_down_def)
  next
    case 3
    then have "history_count s = 0"
      using c by (simp add: unat_zero_iff)
    then show ?thesis
      using assms c 3 by (simp add: key_down_def ed_down_def)
  qed
qed

section \<open>Lines and sessions\<close>

definition ed_push :: "string list \<Rightarrow> string \<Rightarrow> string list" where
  "ed_push h l =
    (if l = [] \<or> h \<noteq> [] \<and> last h = l then h else if length h < 5 then h @ [l] else tl h @ [l])"

definition ed_enter :: "editor \<Rightarrow> editor" where
  "ed_enter e =
    \<lparr>ed_left = [], ed_right = [], ed_hist = ed_push (ed_hist e) (ed_line e), ed_cur = length (ed_push (ed_hist e) (ed_line e))\<rparr>"

definition ed_tab :: "'w finsh_syscall list \<Rightarrow> editor \<Rightarrow> editor" where
  "ed_tab table e = e\<lparr>ed_left := complete table (ed_line e), ed_right := []\<rparr>"

lemma ed_push_good:
  assumes "list_all good_line h" "length h \<le> 5" "good_line l"
  shows "list_all good_line (ed_push h l) \<and> length (ed_push h l) \<le> 5"
  using assms by (auto simp: ed_push_def list_all_iff dest: list.set_sel(2) [rotated])

lemma shell_push_history_ok:
  assumes "editing s e"
  shows "\<exists>s'. shell_push_history s = Some s' \<and> editing s' (e\<lparr>ed_hist := ed_push (ed_hist e) (ed_line e), ed_cur := length (ed_push (ed_hist e) (ed_line e))\<rparr>)"
proof -
  define l h where "l = ed_line e" and "h = ed_hist e"
  have c: "unat (history_count s) = length h" "unat (line_position s) = length l" "length h \<le> 5" "line s = lined l" "good_line l"
    "length (cmd_history s) = 5" "take (length h) (cmd_history s) = map entry h" "list_all good_line h"
    using assms by (auto simp: editing_def l_def h_def)
  have pos: "line_position s \<noteq> 0 \<longleftrightarrow> l \<noteq> []" "history_count s = 0 \<longleftrightarrow> h = []"
    using c by (auto simp: unat_zero_iff)
  have same: "cmd_history s ! (length h - 1) = take 80 (line s) \<longleftrightarrow> last h = l" if "h \<noteq> []"
  proof -
    have "cmd_history s ! (length h - 1) = entry (last h)"
      using that c(7) nth_take [of "length h - 1" "length h" "cmd_history s"] by (simp add: last_conv_nth)
    moreover have "NUL \<notin> set (last h)" "NUL \<notin> set l"
      using that c(5,8) by (auto simp: list_all_iff good_line_def)
    ultimately show ?thesis
      using c(4,5) by (simp add: entry_take entry_inject)
  qed
  have e: "history_entry s = Some (entry l)"
    using c by (simp add: history_entry_def entry_def lined_def good_line_def)
  show ?thesis
  proof (cases "l = [] \<or> h \<noteq> [] \<and> last h = l")
    case True
    then have "shell_push_history s = Some (s\<lparr>current_history := history_count s\<rparr>)" "ed_push h l = h"
      using pos same c by (auto simp: shell_push_history_def ed_push_def unat16)
    then show ?thesis
      using assms c(1) by (simp add: editing_def h_def [symmetric] l_def [symmetric])
  next
    case False
    show ?thesis
    proof (cases "length h < 5")
      case True
      define s' where "s' = s\<lparr>cmd_history := (cmd_history s)[length h := entry l], history_count := history_count s + 1, current_history := history_count s + 1\<rparr>"
      have "shell_push_history s = Some s'" "ed_push h l = h @ [l]"
        using False True pos same c e by (auto simp: shell_push_history_def ed_push_def unat16 s'_def)
      moreover have "take (Suc (length h)) ((cmd_history s)[length h := entry l]) = map entry h @ [entry l]"
        using True c(6,7) by (simp add: take_Suc_conv_app_nth take_update_swap list_update_append)
      ultimately show ?thesis
        using assms True c by (simp add: editing_def h_def [symmetric] l_def [symmetric] s'_def)
    next
      case False' : False
      then have h5: "length h = 5"
        using c(3) by simp
      define s' where "s' = s\<lparr>cmd_history := tl (cmd_history s) @ [entry l], history_count := 5, current_history := 5\<rparr>"
      have "cmd_history s = map entry h"
        using c(6,7) h5 by simp
      moreover have "shell_push_history s = Some s'" "ed_push h l = tl h @ [l]"
        using False False' h5 pos same c e by (auto simp: shell_push_history_def ed_push_def unat16 s'_def)
      ultimately show ?thesis
        using assms h5 c by (auto simp: editing_def h_def [symmetric] l_def [symmetric] s'_def map_tl list_all_iff dest: list.set_sel(2) [rotated])
    qed
  qed
qed

text \<open>Names of commands have no terminator in them and fit into a line.\<close>

definition fitting_table :: "'w finsh_syscall list \<Rightarrow> bool" where
  "fitting_table table \<longleftrightarrow> proper_table table \<and> list_all (\<lambda>c. length (call_name c) \<le> 85) table"

lemma matches_fit: "fitting_table table \<Longrightarrow> m \<in> set (matches table l) \<Longrightarrow> length m \<le> 79 \<and> NUL \<notin> set m"
  by (auto simp: matches_def fitting_table_def proper_table_def list_all_iff dest: in_set_dropD)

lemma complete_good:
  assumes "fitting_table table" "good_line l"
  shows "good_line (complete table l)"
proof (cases "l = [] \<or> matches table l = []")
  case True
  then show ?thesis
    using assms(2) by (simp add: complete_def)
next
  case False
  then obtain m where "m \<in> set (matches table l)" "prefix (complete table l) m"
    using prefix_common [of "matches table l" "common (matches table l)"] by (cases "matches table l") (auto simp: complete_def)
  then show ?thesis
    using matches_fit [OF assms(1), of m l] prefix_length_le [of "complete table l" m] set_mono_prefix [of "complete table l" m]
    by (auto simp: good_line_def)
qed

lemma key_tab_ok:
  assumes "editing s e" "fitting_table table"
  shows "\<exists>s'. key_tab table s = Some s' \<and> editing s' (ed_tab table e)"
proof -
  define l q where "l = ed_line e" and "q = complete table l"
  have l: "good_line l" "line s = lined l" "good_line q" "prefix l q"
    using assms complete_good by (auto simp: editing_def l_def q_def prefix_complete)
  have n: "81 - length l = Suc (80 - length l)"
    using l(1) unfolding good_line_def by arith
  then have lined: "lined l = l @ NUL # replicate (80 - length l) NUL"
    by (simp add: lined_def)
  have "length m \<le> length l + length (replicate (80 - length l) NUL)" if "m \<in> set (matches table l)" for m
    using matches_fit [OF assms(2) that] l(1) by (simp add: good_line_def)
  then obtain t where t: "msh_auto_complete table (lined l) = Some (q @ drop (length q) (lined l), t)"
    using msh_auto_complete_total [of table l "replicate (80 - length l) NUL"] assms(2) l(1)
    unfolding lined q_def by (auto simp: fitting_table_def good_line_def)
  moreover have "q @ drop (length q) (lined l) = lined q"
    using prefix_length_le [OF l(4)] by (simp add: lined_def)
  ultimately have t: "msh_auto_complete table (line s) = Some (lined q, t)"
    using l(2) by simp
  define u where "u = replicate (unat (line_curpos s)) BS @ ''\<newline>'' @ t @ finsh_get_prompt s @ q"
  define s' where "s' = s\<lparr>line := lined q, line_position := of_nat (length q), line_curpos := of_nat (length q), printed_text := printed_text s @ u\<rparr>"
  have "length (finsh_get_prompt s) + length q \<le> 254"
    using assms(1) l(3) by (simp add: editing_def good_line_def)
  then have "key_tab table s = Some s'"
    using t l(3) by (simp add: key_tab_def shell_auto_complete_def print_back_eq print_plain print_prompt_line_eq c_str_lined0 s'_def u_def)
  moreover have "editing s' (ed_tab table e)"
    using assms(1) l(3) by (simp add: editing_def ed_tab_def s'_def l_def [symmetric] q_def [symmetric]) (simp add: good_line_def)
  ultimately show ?thesis
    by blast
qed

lemma key_enter_ok:
  assumes "editing s e" "fitting_table table"
  shows "\<exists>s'. key_enter table s w = Some (s', snd (snd (run_line table (ed_line e) w))) \<and> editing s' (ed_enter e)"
proof -
  define l where "l = ed_line e"
  obtain s1 where s1: "shell_push_history s = Some s1"
    "editing s1 (e\<lparr>ed_hist := ed_push (ed_hist e) l, ed_cur := length (ed_push (ed_hist e) l)\<rparr>)"
    using shell_push_history_ok [OF assms(1)] by (auto simp: l_def)
  define s2 where "s2 = (if echo_mode s1 then s1\<lparr>printed_text := printed_text s1 @ ''\<newline>''\<rparr> else s1)"
  have l: "good_line l" "line s1 = lined l" "unat (line_position s1) = length l" "CHR ''%'' \<notin> set (finsh_get_prompt s1)" "length (finsh_get_prompt s1) \<le> 100"
    using s1(2) by (simp_all add: editing_def l_def)
  have "81 - length l = Suc (80 - length l)"
    using l(1) unfolding good_line_def by arith
  then have "lined l = l @ NUL # replicate (80 - length l) NUL"
    by (simp add: lined_def)
  then obtain b t where exec: "msh_exec table (line s1) (length l) w = (case run_line table l w of (ret, u, w) \<Rightarrow> Some (ret, b, t @ u, w))"
    using msh_exec_eq [of table l "replicate (80 - length l) NUL" w] assms(2) l(1,2) by (auto simp: fitting_table_def good_line_def)
  obtain ret u w' where run: "run_line table l w = (ret, u, w')"
    by (metis prod_cases3)
  define s' where "s' = s2\<lparr>line := lined [], line_position := 0, line_curpos := 0, printed_text := (printed_text s2 @ t @ u) @ finsh_get_prompt s1\<rparr>"
  have "finsh_get_prompt s2 = finsh_get_prompt s1" "line s2 = line s1" "line_position s2 = line_position s1"
    by (simp_all add: s2_def)
  then have "key_enter table s w = Some (s', w')"
    using s1(1) l exec run
    by (simp add: key_enter_def print_plain s2_def [symmetric] print_prompt_def s'_def lined_def if_distrib cong: if_cong) (simp add: s2_def print_plain)
  moreover have "editing s' (ed_enter e)"
    using s1(2) by (auto simp: editing_def ed_enter_def s'_def s2_def l_def good_line_def)
  ultimately show ?thesis
    using run by (auto simp: l_def)
qed

datatype key = Char char | Left_key | Right_key | Up_key | Down_key | Backspace_key | Tab_key | Enter_key

fun key_code :: "key \<Rightarrow> string" where
  "key_code (Char c) = [c]"
| "key_code Left_key = ESC # ''[D''"
| "key_code Right_key = ESC # ''[C''"
| "key_code Up_key = ESC # ''[A''"
| "key_code Down_key = ESC # ''[B''"
| "key_code Backspace_key = [CHR 0x7F]"
| "key_code Tab_key = [CHR 0x09]"
| "key_code Enter_key = [CHR 0x0D]"

fun ed_key :: "'w finsh_syscall list \<Rightarrow> key \<Rightarrow> editor \<Rightarrow> editor" where
  "ed_key table (Char c) e = ed_type c e"
| "ed_key table Left_key e = ed_go_left e"
| "ed_key table Right_key e = ed_go_right e"
| "ed_key table Up_key e = ed_up e"
| "ed_key table Down_key e = ed_down e"
| "ed_key table Backspace_key e = ed_backspace e"
| "ed_key table Tab_key e = ed_tab table e"
| "ed_key table Enter_key e = ed_enter e"

text \<open>The editor and the state of the system after some keys: the lines are run one after the other.\<close>

fun session :: "'w finsh_syscall list \<Rightarrow> key list \<Rightarrow> editor \<Rightarrow> 'w \<Rightarrow> editor \<times> 'w" where
  "session table [] e w = (e, w)"
| "session table (k # ks) e w =
    session table ks (ed_key table k e) (if k = Enter_key then snd (snd (run_line table (ed_line e) w)) else w)"

text \<open>A character that stands for itself, and keys of which none fills the line.\<close>

definition ordinary :: "char \<Rightarrow> bool" where
  "ordinary c \<longleftrightarrow> 32 \<le> (of_char c :: nat) \<and> c \<noteq> CHR 0x7F \<and> c \<noteq> CHR 0xFF"

fun keys_fit :: "'w finsh_syscall list \<Rightarrow> key list \<Rightarrow> editor \<Rightarrow> bool" where
  "keys_fit table [] e \<longleftrightarrow> True"
| "keys_fit table (k # ks) e \<longleftrightarrow>
    (case k of Char c \<Rightarrow> ordinary c \<and> length (ed_line e) < 79 | _ \<Rightarrow> True) \<and> keys_fit table ks (ed_key table k e)"

lemma ordinary_char: "ordinary c \<Longrightarrow> c \<noteq> NUL \<and> c \<noteq> CHR 0xFF \<and> c \<noteq> CHR 0x09 \<and> c \<noteq> CHR 0x7F \<and> c \<noteq> BS \<and> c \<noteq> CHR 0x0D \<and> c \<noteq> CHR 0x0A \<and> c \<noteq> ESC"
  by (auto simp: ordinary_def)

lemma stat_same: "stat s = x \<Longrightarrow> s\<lparr>stat := x\<rparr> = s"
  by (cases s) auto

lemma editing_stat: "editing s e \<Longrightarrow> stat s = WAIT_NORMAL"
  by (simp add: editing_def)

lemma finsh_thread_entry_append:
  "finsh_thread_entry table (xs @ ys) s w = do { (s, w) \<leftarrow> finsh_thread_entry table xs s w; finsh_thread_entry table ys s w }"
  by (induction xs arbitrary: s w) (auto simp: Option.bind_assoc split_def)

lemma key_ok:
  assumes "editing s e" "fitting_table table" "keys_fit table [k] e"
  shows "\<exists>s'. finsh_thread_entry table (key_code k) s w = Some (s', snd (session table [k] e w)) \<and> editing s' (ed_key table k e) \<and>
    (visible s e \<longrightarrow> k \<noteq> Tab_key \<longrightarrow> k \<noteq> Enter_key \<longrightarrow> visible s' (ed_key table k e))"
proof (cases k)
  case (Char c)
  then have c: "ordinary c" "length (ed_line e) < 79"
    using assms(3) by simp_all
  then have "handle_char table c s w = map_option (\<lambda>s. (s, w)) (key_normal c s)" "c \<noteq> ESC" "c \<noteq> NUL" "printable c"
    using ordinary_char [OF c(1)] by (simp_all add: handle_char_def) (simp add: ordinary_def printable_def)
  then show ?thesis
    using key_normal_ok [OF assms(1) c(2), of c] Char by (auto simp: finsh_key_def editing_stat [OF assms(1)])
next
  case Left_key
  then show ?thesis
    using key_left_ok [OF assms(1)] by (auto simp: finsh_key_def editing_stat [OF assms(1)] stat_same)
next
  case Right_key
  then show ?thesis
    using key_right_ok [OF assms(1)] by (auto simp: finsh_key_def editing_stat [OF assms(1)] stat_same)
next
  case Up_key
  then show ?thesis
    using key_up_ok [OF assms(1)] by (auto simp: finsh_key_def editing_stat [OF assms(1)] stat_same)
next
  case Down_key
  then show ?thesis
    using key_down_ok [OF assms(1)] by (auto simp: finsh_key_def editing_stat [OF assms(1)] stat_same)
next
  case Backspace_key
  then show ?thesis
    using key_backspace_ok [OF assms(1)] by (auto simp: finsh_key_def editing_stat [OF assms(1)] handle_char_def)
next
  case Tab_key
  then show ?thesis
    using key_tab_ok [OF assms(1,2)] by (auto simp: finsh_key_def editing_stat [OF assms(1)] handle_char_def)
next
  case Enter_key
  then show ?thesis
    using key_enter_ok [OF assms(1,2), of w] by (auto simp: finsh_key_def editing_stat [OF assms(1)] handle_char_def)
qed

lemma session_ok:
  assumes "editing s e" "fitting_table table" "keys_fit table ks e"
  shows "\<exists>s'. finsh_thread_entry table (concat (map key_code ks)) s w = Some (s', snd (session table ks e w)) \<and>
    editing s' (fst (session table ks e w)) \<and>
    (visible s e \<and> Tab_key \<notin> set ks \<and> Enter_key \<notin> set ks \<longrightarrow> visible s' (fst (session table ks e w)))"
  using assms
proof (induction ks arbitrary: s e w)
  case (Cons k ks)
  define w1 where "w1 = snd (session table [k] e w)"
  obtain s1 where s1: "finsh_thread_entry table (key_code k) s w = Some (s1, w1)" "editing s1 (ed_key table k e)"
    "visible s e \<longrightarrow> k \<noteq> Tab_key \<longrightarrow> k \<noteq> Enter_key \<longrightarrow> visible s1 (ed_key table k e)"
    using key_ok [OF Cons.prems(1,2), of k w] Cons.prems(3) by (auto simp: w1_def)
  have "session table (k # ks) e w = session table ks (ed_key table k e) w1"
    by (simp add: w1_def)
  then show ?case
    using Cons.IH [OF s1(2) Cons.prems(2), of w1] Cons.prems(3) s1(1,3)
    by (auto simp: finsh_thread_entry_append simp del: session.simps)
qed simp

text \<open>
  C35: Whatever keys are pressed, as long as no line is filled, the shell stays within its buffers, holds exactly the text and the history of the editor, and runs the lines
  that were entered. Until the next line or completion, what the terminal shows at the cursor is the line that will run.
\<close>

theorem shell_session_correct:
  assumes "editing s e" "fitting_table table" "keys_fit table ks e"
  shows "\<exists>s'. finsh_thread_entry table (concat (map key_code ks)) s w = Some (s', snd (session table ks e w)) \<and>
    editing s' (fst (session table ks e w)) \<and>
    (visible s e \<and> Tab_key \<notin> set ks \<and> Enter_key \<notin> set ks \<longrightarrow> visible s' (fst (session table ks e w)))"
  using assms by (rule session_ok)

abbreviation no_text :: editor where
  "no_text \<equiv> \<lparr>ed_left = [], ed_right = [], ed_hist = [], ed_cur = 0\<rparr>"

lemma finsh_start_editing: "editing finsh_start no_text" "visible finsh_start no_text"
  by (simp_all add: editing_def visible_def finsh_start_def good_line_def lined_def finsh_get_prompt_def printable_def)

text \<open>A name completed, a character put in and one taken out in the middle, the line entered and called back.\<close>

theorem shell_session_correct_witness:
  "\<exists>s'. finsh_thread_entry say_table (concat (map key_code [Char CHR ''s'', Tab_key, Char CHR '' '', Char CHR ''i'', Left_key, Char CHR ''h'', Char CHR ''x'', Backspace_key, Enter_key, Up_key]))
      finsh_start 3 = Some (s', 4) \<and>
    editing s' \<lparr>ed_left = ''say hi'', ed_right = [], ed_hist = [''say hi''], ed_cur = 0\<rparr>"
proof -
  have "matches say_table ''s'' = [''say'']"
    by (simp add: matches_def say_table_def)
  then have "complete say_table ''s'' = ''say''"
    by (simp add: complete_def)
  then show ?thesis
    using shell_session_correct [OF finsh_start_editing(1), of say_table
        "[Char CHR ''s'', Tab_key, Char CHR '' '', Char CHR ''i'', Left_key, Char CHR ''h'', Char CHR ''x'', Backspace_key, Enter_key, Up_key]" 3]
    by (simp add: fitting_table_def proper_table_def say_table_def ed_type_def ed_tab_def ed_go_left_def ed_backspace_def ed_enter_def ed_push_def ed_up_def ed_load_def
        ordinary_def run_line_def find_command_def blank_def Let_def)
qed

section \<open>A full line\<close>

text \<open>With its 80th character a line is discarded, but its characters stay in the buffer.\<close>

definition discarded :: "finsh_shell \<Rightarrow> string \<Rightarrow> bool" where
  "discarded s l \<longleftrightarrow>
    stat s = WAIT_NORMAL \<and> line s = l @ [NUL] \<and> length l = 80 \<and> NUL \<notin> set l \<and> line_position s = 0 \<and> line_curpos s = 0 \<and>
    CHR ''%'' \<notin> set (finsh_get_prompt s) \<and> length (finsh_get_prompt s) \<le> 100"

lemma finsh_thread_entry_Cons: "finsh_key table c s w = Some (s', w') \<Longrightarrow> finsh_thread_entry table (c # cs) s w = finsh_thread_entry table cs s' w'"
  by simp

lemma type_line:
  assumes "editing s e" "fitting_table table" "ed_right e = []" "list_all ordinary l" "length (ed_left e @ l) \<le> 79"
  shows "\<exists>s' e'. finsh_thread_entry table l s w = Some (s', w) \<and> editing s' e' \<and> ed_left e' = ed_left e @ l \<and> ed_right e' = []"
  using assms
proof (induction l arbitrary: s e)
  case (Cons c l)
  then have "keys_fit table [Char c] e"
    by simp
  from key_ok [OF Cons.prems(1,2) this, of w] obtain s1 where s1: "finsh_key table c s w = Some (s1, w)" "editing s1 (ed_type c e)"
    by (auto split: bind_splits)
  have "\<exists>s' e'. finsh_thread_entry table l s1 w = Some (s', w) \<and> editing s' e' \<and> ed_left e' = ed_left (ed_type c e) @ l \<and> ed_right e' = []"
    using Cons.IH [OF s1(2) Cons.prems(2)] Cons.prems(3-5) by (simp add: ed_type_def)
  then show ?case
    using s1(1) by (simp add: ed_type_def)
qed auto

lemma fill_line:
  assumes "editing s e" "fitting_table table" "ed_line e = []" "list_all ordinary l" "length l = 80"
  shows "\<exists>s'. finsh_thread_entry table l s w = Some (s', w) \<and> discarded s' l"
proof -
  obtain k c where l: "l = k @ [c]" "length k = 79"
    using assms(5) by (cases l rule: rev_cases) auto
  obtain s1 e1 where s1: "finsh_thread_entry table k s w = Some (s1, w)" "editing s1 e1" "ed_left e1 = k" "ed_right e1 = []"
    using type_line [OF assms(1,2), of k w] assms(3,4) l by auto
  define s2 where "s2 = s1\<lparr>line := l @ [NUL], printed_text := printed_text s1 @ (if echo_mode s1 then [c] else [])\<rparr>"
  have c: "ordinary c" "NUL \<notin> set l"
    using assms(4) l ordinary_char by (auto simp: list_all_iff)
  have "line s1 = k @ NUL # [NUL]" "unat (line_position s1) = 79" "unat (line_curpos s1) = 79"
    using s1(2-4) l(2) by (simp_all add: editing_def lined_def numeral_eq_Suc)
  then have "buf_set (line s1) 79 c = Some (l @ [NUL])"
    using l buf_at(2) [of k 79 NUL "[NUL]" c] by simp
  then have "key_normal c s1 = Some (s2\<lparr>line_position := 0, line_curpos := 0\<rparr>)"
    using \<open>unat (line_position s1) = 79\<close> \<open>unat (line_curpos s1) = 79\<close> by (simp add: key_normal_def Let_def unat16 print_c s2_def)
  then have "finsh_key table c s1 w = Some (s2\<lparr>line_position := 0, line_curpos := 0\<rparr>, w)"
    using s1(2) ordinary_char [OF c(1)] by (simp add: finsh_key_def editing_stat handle_char_def)
  moreover have "discarded (s2\<lparr>line_position := 0, line_curpos := 0\<rparr>) l"
    using s1(2) c(2) assms(5) by (simp add: discarded_def s2_def editing_def)
  ultimately show ?thesis
    using s1(1) l(1) by (auto simp: finsh_thread_entry_append)
qed

lemma discarded_tab:
  assumes "discarded s l" "fitting_table table"
  shows "\<exists>t. finsh_key table (CHR 0x09) s w = Some (s\<lparr>line_position := 80, line_curpos := 80, printed_text := t\<rparr>, w)"
proof -
  have d: "line s = l @ [NUL]" "length l = 80" "NUL \<notin> set l" "stat s = WAIT_NORMAL" "line_curpos s = 0"
    using assms(1) by (simp_all add: discarded_def)
  have "matches table l = []"
  proof (rule ccontr)
    assume "matches table l \<noteq> []"
    then obtain m where m: "m \<in> set (matches table l)"
      by (cases "matches table l") auto
    then have "prefix l m"
      by (auto simp: matches_def)
    then show False
      using matches_fit [OF assms(2) m] prefix_length_le [of l m] d(2) by simp
  qed
  then obtain t where t: "msh_auto_complete table (line s) = Some (l @ [NUL], t)"
    using msh_auto_complete_total [of table l "[]"] assms(2) d(1,3) by (auto simp: fitting_table_def complete_def)
  have c: "c_str (l @ [NUL]) 0 = Some l"
    using c_str_at [OF d(3), of "[]" 0 "[]"] by simp
  obtain u where u: "print_prompt_line (s\<lparr>line := l @ [NUL], printed_text := (printed_text s @ ''\<newline>'') @ t\<rparr>) =
      Some (s\<lparr>line := l @ [NUL], printed_text := u\<rparr>)"
    using print_prompt_line_some [of "s\<lparr>line := l @ [NUL], printed_text := (printed_text s @ ''\<newline>'') @ t\<rparr>" l] c by auto
  have "s\<lparr>line := l @ [NUL]\<rparr> = s"
    using d(1) by (cases s) auto
  then have "key_tab table s = Some (s\<lparr>line_position := 80, line_curpos := 80, printed_text := u\<rparr>)"
    using t u c d(1,2,5) by (simp add: key_tab_def shell_auto_complete_def print_plain)
  then show ?thesis
    using d(4) by (auto simp: finsh_key_def handle_char_def)
qed

lemma overrun:
  assumes "line s = l @ [NUL]" "length l = 80" "stat s = WAIT_NORMAL" "line_position s = 80" "line_curpos s = 80" "ordinary c"
  shows "finsh_thread_entry table [c, CHR 0x7F, CHR 0x7F] s w = None"
proof -
  note o_c = ordinary_char [OF assms(6)]
  define b where "b = c # tl l @ [NUL]"
  have b: "buf_set (line s) 0 c = Some b" "buf_set b 0 NUL = Some (NUL # tl b)" "length (NUL # tl b) = 81"
    using assms(1,2) by (cases l; simp add: b_def buf_set_def)+
  define s1 where "s1 = s\<lparr>line := b, line_position := 1, line_curpos := 81, printed_text := printed_text s @ (if echo_mode s then [c] else [])\<rparr>"
  define s2 where "s2 = s1\<lparr>line_position := 0, line_curpos := 80, line := NUL # tl b, printed_text := printed_text s1 @ [BS, CHR '' '', BS]\<rparr>"
  have "finsh_key table c s w = Some (s1, w)"
    using assms(3-5) o_c b(1) by (simp add: finsh_key_def handle_char_def key_normal_def Let_def unat16 print_c s1_def)
  moreover have "finsh_key table (CHR 0x7F) s1 w = Some (s2, w)"
    using assms(3) b(2) by (simp add: finsh_key_def handle_char_def key_backspace_def Let_def print_plain s1_def s2_def)
  moreover have "finsh_key table (CHR 0x7F) s2 w = None"
    using assms(3) b(3) by (simp add: finsh_key_def handle_char_def key_backspace_def Let_def s1_def s2_def line_move_def unsigned_minus_1_eq_mask mask_eq_exp_minus_1)
  ultimately show ?thesis
    by simp
qed

text \<open>
  C37: The characters of a discarded line are counted again when the tab key measures the line. Then the next character starts at the beginning while the cursor stays behind
  the end, and deleting it and one more makes the length wrap around: the shell moves 65 kilobytes of memory.
\<close>

theorem shell_full_line_overrun:
  assumes "editing s e" "fitting_table table" "ed_line e = []" "list_all ordinary l" "length l = 80" "ordinary c"
  shows "finsh_thread_entry table (l @ [CHR 0x09, c, CHR 0x7F, CHR 0x7F]) s w = None"
proof -
  obtain s1 where s1: "finsh_thread_entry table l s w = Some (s1, w)" "discarded s1 l"
    using fill_line [OF assms(1-5)] by blast
  obtain t where "finsh_key table (CHR 0x09) s1 w = Some (s1\<lparr>line_position := 80, line_curpos := 80, printed_text := t\<rparr>, w)"
    using discarded_tab [OF s1(2) assms(2)] by blast
  then show ?thesis
    using s1 overrun [of "s1\<lparr>line_position := 80, line_curpos := 80, printed_text := t\<rparr>" l c table w] assms(5,6)
    by (simp add: finsh_thread_entry_append discarded_def del: finsh_thread_entry.simps(2)) simp
qed

theorem shell_full_line_overrun_witness:
  "finsh_thread_entry say_table (replicate 80 CHR ''a'' @ [CHR 0x09, CHR ''b'', CHR 0x7F, CHR 0x7F]) finsh_start 0 = None"
  using shell_full_line_overrun [OF finsh_start_editing(1), of say_table "replicate 80 CHR ''a''" "CHR ''b''" 0]
  by (simp add: fitting_table_def proper_table_def say_table_def ordinary_def list_all_iff)

text \<open>A discarded line of blanks makes \<open>msh_exec\<close> count its length down below 0 and look for a command behind the buffer.\<close>

lemma strim_discarded: "length xs + length bl = 80 \<Longrightarrow> list_all blank bl \<Longrightarrow>
    strim (xs @ bl @ [NUL]) (length xs) (if xs = [] then 0 else 2 ^ 32 - length xs) = Some (80, 2 ^ 32 - 80)"
proof (induction bl arbitrary: xs)
  case Nil
  then show ?case
    by (subst strim.simps) (auto simp: blank_def)
next
  case (Cons c bl)
  then show ?case
    using Cons.IH [of "xs @ [c]"] by (subst strim.simps) (auto simp: diff_diff_eq)
qed

lemma blank_line_overrun:
  assumes "editing s e" "fitting_table table" "ed_line e = []"
  shows "finsh_thread_entry table (replicate 80 CHR '' '' @ [CHR 0x0D]) s w = None"
proof -
  define l where "l = replicate 80 CHR '' ''"
  obtain s1 where s1: "finsh_thread_entry table l s w = Some (s1, w)" "discarded s1 l"
    using fill_line [OF assms, of l w] by (auto simp: l_def ordinary_def list_all_iff)
  have "strim (l @ [NUL]) 0 0 = Some (80, 2 ^ 32 - 80)"
    using strim_discarded [of "[]" l] by (simp add: l_def blank_def list_all_iff)
  moreover have "skip_word (l @ [NUL]) 80 (2 ^ 32 - 80) 0 = None"
    by (subst skip_word.simps, subst skip_word.simps) (simp add: l_def buf_get_def blank_def nth_append)
  ultimately have "msh_exec table (l @ [NUL]) 0 w = None"
    by (simp add: msh_exec_def msh_exec_cmd_def)
  then have "key_enter table s1 w = None"
    using s1(2) by (auto simp: discarded_def key_enter_def shell_push_history_def print_plain)
  then show ?thesis
    using s1 by (simp add: finsh_thread_entry_append finsh_key_def handle_char_def l_def [symmetric] discarded_def)
qed

end
