(* ===== verification/App_Syn6288.thy ===== *)
theory App_Syn6288
  imports RT_Sem
begin

unbundle bit_operations_syntax

text \<open>
  The driver of the speech chip, \<open>applications/syn6288.c\<close>. The serial device is not part of the model: what is
  handed to \<open>rt_device_write\<close> is the result, and what \<open>rt_device_read\<close> delivers is an argument. \<open>char\<close> and
  \<open>unsigned char\<close> are bytes. \<open>None\<close>: memory outside the frame array is written.
\<close>

section \<open>Frames\<close>

definition SYN_StopCom :: "u8 list" where "SYN_StopCom = [0xFD, 0x00, 0x02, 0x02, 0xFD]"
definition SYN_SuspendCom :: "u8 list" where "SYN_SuspendCom = [0xFD, 0x00, 0x02, 0x03, 0xFC]"
definition SYN_RecoverCom :: "u8 list" where "SYN_RecoverCom = [0xFD, 0x00, 0x02, 0x04, 0xFB]"
definition SYN_ChackCom :: "u8 list" where "SYN_ChackCom = [0xFD, 0x00, 0x02, 0x21, 0xDE]"
definition SYN_PowerDownCom :: "u8 list" where "SYN_PowerDownCom = [0xFD, 0x00, 0x02, 0x88, 0x77]"

text \<open>A bounds-checked store into an array, and a copy into it.\<close>

definition array_set :: "nat \<Rightarrow> u8 \<Rightarrow> u8 list \<Rightarrow> u8 list option" where
  "array_set i v xs = (if i < length xs then Some (xs[i := v]) else None)"

definition array_copy :: "nat \<Rightarrow> u8 list \<Rightarrow> u8 list \<Rightarrow> u8 list option" where
  "array_copy i ys xs =
    (if i + length ys \<le> length xs then Some (take i xs @ ys @ drop (i + length ys) xs) else None)"

text \<open>\<open>stack\<close> is what the uninitialised array \<open>Frame_Info[50]\<close> holds; \<open>HZdata\<close> is the text without its
  terminating zero.\<close>

definition SYN_FrameInfo :: "u8 list \<Rightarrow> u8 \<Rightarrow> u8 list \<Rightarrow> u8 list option" where
  "SYN_FrameInfo stack Music HZdata =
    do {
      let HZ_Length = (word_of_nat (length HZdata) :: u8);
      Frame_Info \<leftarrow> array_set 0 0xFD stack;
      Frame_Info \<leftarrow> array_set 1 0x00 Frame_Info;
      Frame_Info \<leftarrow> array_set 2 (HZ_Length + 3) Frame_Info;
      Frame_Info \<leftarrow> array_set 3 0x01 Frame_Info;
      Frame_Info \<leftarrow> array_set 4 (0x01 OR push_bit 4 Music) Frame_Info;
      let ecc = fold (\<lambda>i ecc. ecc XOR (Frame_Info ! i)) [0..<5] 0;
      let ecc = fold (\<lambda>i ecc. ecc XOR (HZdata ! i)) [0..<unat HZ_Length] ecc;
      Frame_Info \<leftarrow> array_copy 5 (take (unat HZ_Length) HZdata) Frame_Info;
      Frame_Info \<leftarrow> array_set (5 + unat HZ_Length) ecc Frame_Info;
      Some (take (5 + unat HZ_Length + 1) Frame_Info)
    }"

text \<open>\<open>YS_SYN_Set\<close> hands \<open>length\<close> bytes of a command to the device.\<close>

definition YS_SYN_Set :: "u8 list \<Rightarrow> nat \<Rightarrow> u8 list" where
  "YS_SYN_Set Info_data len = take len Info_data"

section \<open>Receiving\<close>

text \<open>The interrupt callback, and one turn of the loop of the receiving thread: \<open>rd\<close> is the byte that
  \<open>rt_device_read\<close> delivers, if any. \<open>Returned\<close> gives the byte that is printed, or \<open>None\<close> when the thread
  tries again at once.\<close>

definition syn6288_input :: "nat \<Rightarrow> kernel \<Rightarrow> (rt_err_t \<times> kernel) option" where
  "syn6288_input sem k = do { (_, k) \<leftarrow> rt_sem_release sem k; Some (RT_EOK, k) }"

definition SYN6288_thread_entry :: "nat \<Rightarrow> u8 option \<Rightarrow> kernel \<Rightarrow> ((u8 option, tid) call \<times> kernel) option" where
  "SYN6288_thread_entry sem rd k =
    (case rd of
       Some ch \<Rightarrow> Some (Returned (Some ch), k)
     | None \<Rightarrow>
         do {
           (r, k) \<leftarrow> rt_sem_take sem 0xFFFFFFFF k;
           Some (case r of Returned _ \<Rightarrow> Returned None | Suspended t \<Rightarrow> Suspended t, k)
         })"

section \<open>The frame format\<close>

text \<open>The format that the comments of the code give: start byte, two bytes of length, command, parameter,
  text, and a check byte such that all bytes together give zero under exclusive or. The length counts
  everything after the length bytes.\<close>

definition xor_all :: "u8 list \<Rightarrow> u8" where
  "xor_all xs = fold (\<lambda>x ecc. ecc XOR x) xs 0"

definition frame_valid :: "u8 list \<Rightarrow> bool" where
  "frame_valid f \<longleftrightarrow> 4 < length f \<and> f ! 0 = 0xFD \<and> 256 * unat (f ! 1) + unat (f ! 2) = length f - 3 \<and> xor_all f = 0"

text \<open>The music and the text of a synthesis command.\<close>

definition frame_parse :: "u8 list \<Rightarrow> (u8 \<times> u8 list) option" where
  "frame_parse f =
    (if frame_valid f \<and> 5 < length f \<and> f ! 3 = 0x01 \<and> f ! 4 AND 0x0F = 0x01
     then Some (drop_bit 4 (f ! 4), butlast (drop 5 f)) else None)"

lemma fold_xor: "fold (\<lambda>x ecc. ecc XOR x) xs a = a XOR xor_all xs" for a :: u8
proof (induction xs arbitrary: a)
  case (Cons x xs)
  show ?case using Cons [of "a XOR x"] Cons [of "0 XOR x"] by (simp add: xor_all_def xor.assoc)
qed (simp add: xor_all_def)

lemma xor_all_simps [simp]:
  "xor_all [] = 0" "xor_all (x # xs) = x XOR xor_all xs" "xor_all (xs @ ys) = xor_all xs XOR xor_all ys"
proof -
  show s: "xor_all [] = 0" "xor_all (x # xs) = x XOR xor_all xs" for x xs
    using fold_xor [of xs "0 XOR x"] by (simp_all add: xor_all_def)
  show "xor_all (xs @ ys) = xor_all xs XOR xor_all ys" by (induction xs) (simp_all add: s xor.assoc)
qed

lemma fold_xor_nth: "n \<le> length xs \<Longrightarrow> fold (\<lambda>i ecc. ecc XOR (xs ! i)) [0..<n] a = a XOR xor_all (take n xs)" for a :: u8
  by (induction n) (simp_all add: take_Suc_conv_app_nth xor.assoc)

text \<open>The five fixed commands are valid frames.\<close>

lemma commands_valid:
  "frame_valid SYN_StopCom" "frame_valid SYN_SuspendCom" "frame_valid SYN_RecoverCom" "frame_valid SYN_ChackCom"
  "frame_valid SYN_PowerDownCom"
  by (simp_all add: frame_valid_def SYN_StopCom_def SYN_SuspendCom_def SYN_RecoverCom_def SYN_ChackCom_def SYN_PowerDownCom_def)

text \<open>The frame that is built, when it fits into the array.\<close>

definition frame_head :: "u8 \<Rightarrow> u8 \<Rightarrow> u8 list" where
  "frame_head n Music = [0xFD, 0, n + 3, 1, 1 OR push_bit 4 Music]"

lemma list_ge5: "5 \<le> length xs \<Longrightarrow> \<exists>a b c d e ys. xs = a # b # c # d # e # ys"
  by (auto simp: Suc_le_length_iff numeral_eq_Suc)

lemma length_frame_head [simp]: "length (frame_head n m) = 5"
  by (simp add: frame_head_def)

lemma frame_info_ok:
  assumes st: "length stack = 50" and n: "n = length t mod 256"
  shows "SYN_FrameInfo stack Music t = (if n \<le> 44 then
      (let h = frame_head (word_of_nat n) Music; x = take n t in Some (h @ x @ [xor_all (h @ x)])) else None)"
proof -
  let ?l = "word_of_nat (length t) :: u8" and ?h = "frame_head (word_of_nat n) Music" and ?x = "take n t"
  have l: "unat ?l = n" "?l = word_of_nat n"
    using n by (simp_all add: unsigned_of_nat take_bit_eq_mod word_unat_eq_iff)
  have nt: "n \<le> length t" using n by simp
  then have lx: "length ?x = n" by simp
  obtain a b c d e s5 where s: "stack = a # b # c # d # e # s5" using list_ge5 [of stack] st by auto
  have l5: "length s5 = 45" using st s by simp
  have sets: "do {
      Frame_Info \<leftarrow> array_set 0 0xFD stack;
      Frame_Info \<leftarrow> array_set 1 0x00 Frame_Info;
      Frame_Info \<leftarrow> array_set 2 (word_of_nat n + 3) Frame_Info;
      Frame_Info \<leftarrow> array_set 3 0x01 Frame_Info;
      Frame_Info \<leftarrow> array_set 4 (0x01 OR push_bit 4 Music) Frame_Info;
      f Frame_Info } = f (?h @ s5)" for f :: "u8 list \<Rightarrow> u8 list option"
    by (simp add: array_set_def s frame_head_def)
  have e1: "fold (\<lambda>i ecc. ecc XOR ((?h @ s5) ! i)) [0..<5] 0 = xor_all ?h"
    using fold_xor_nth [of 5 "?h @ s5" 0] by simp
  have e2: "fold (\<lambda>i ecc. ecc XOR (t ! i)) [0..<n] (xor_all ?h) = xor_all (?h @ ?x)"
    using fold_xor_nth [OF nt] by simp
  have "SYN_FrameInfo stack Music t = do {
      Frame_Info \<leftarrow> array_copy 5 ?x (?h @ s5);
      Frame_Info \<leftarrow> array_set (5 + n) (xor_all (?h @ ?x)) Frame_Info;
      Some (take (5 + n + 1) Frame_Info) }"
    unfolding SYN_FrameInfo_def Let_def l(1) unfolding l(2) sets e1 e2 by (rule refl)
  also have "\<dots> = (if n \<le> 44 then Some (?h @ ?x @ [xor_all (?h @ ?x)]) else None)"
  proof (cases "n \<le> 44")
    case True
    then obtain y ys where "drop n s5 = y # ys" using l5 by (cases "drop n s5") auto
    then show ?thesis
      using True lx l5 by (simp add: array_copy_def array_set_def list_update_append)
  next
    case False
    then show ?thesis using lx l5 by (auto simp: array_copy_def array_set_def)
  qed
  finally show ?thesis by (simp add: Let_def)
qed

lemma music_bits:
  fixes m :: u8
  assumes "unat m < 16"
  shows "(1 OR push_bit 4 m) AND 15 = 1 \<and> drop_bit 4 (1 OR push_bit 4 m) = m"
proof -
  have m: "m = word_of_nat (unat m)" "unat m \<in> set [0..<16]" using assms by simp_all
  have all: "\<forall>n\<in>set [0..<16]. (1 OR push_bit 4 (word_of_nat n)) AND 15 = (1 :: u8) \<and>
      drop_bit 4 (1 OR push_bit 4 (word_of_nat n)) = (word_of_nat n :: u8)"
    by code_simp
  show ?thesis using bspec [OF all m(2)] m(1) by metis
qed

section \<open>Properties\<close>

text \<open>
  C38: Every text of up to 44 bytes is sent as a frame that the format's decoder reads back: start byte,
  length, command and check byte are right, and the decoder recovers the chosen background music
  (0 to 15) and the text, whatever the array held before.
\<close>

theorem SYN_FrameInfo_round_trip:
  assumes "length stack = 50" "length t \<le> 44" "unat Music < 16"
  shows "\<exists>f. SYN_FrameInfo stack Music t = Some f \<and> length f = length t + 6 \<and> frame_parse f = Some (Music, t)"
proof -
  let ?h = "frame_head (word_of_nat (length t)) Music"
  define f where "f = ?h @ t @ [xor_all (?h @ t)]"
  have n: "length t mod 256 = length t" using assms(2) by simp
  have f: "SYN_FrameInfo stack Music t = Some f"
    using frame_info_ok [OF assms(1) n [symmetric]] assms(2) by (simp add: f_def Let_def)
  have "xor_all f = xor_all (?h @ t) XOR xor_all [xor_all (?h @ t)]"
    using xor_all_simps(3) [of "?h @ t" "[xor_all (?h @ t)]"] by (simp only: f_def append_assoc)
  then have "xor_all f = 0" by (simp del: xor_all_simps(3))
  moreover have "unat (word_of_nat (length t) + 3 :: u8) = length t + 3"
    using assms(2) by (simp add: unat_word_ariths unsigned_of_nat take_bit_nat_eq_self)
  ultimately have "frame_valid f" by (simp add: frame_valid_def f_def frame_head_def)
  moreover have "(1 OR push_bit 4 Music) AND 15 = 1" "drop_bit 4 (1 OR push_bit 4 Music) = Music"
    using music_bits [OF assms(3)] by simp_all
  ultimately show ?thesis
    using f by (simp add: frame_parse_def f_def frame_head_def)
qed

theorem SYN_FrameInfo_round_trip_witness:
  "\<exists>f. SYN_FrameInfo (replicate 50 0xAA) 2 [0xC4, 0xE3, 0xBA, 0xC3] = Some f \<and> length f = 10 \<and>
    frame_parse f = Some (2, [0xC4, 0xE3, 0xBA, 0xC3])"
  using SYN_FrameInfo_round_trip [of "replicate 50 0xAA" "[0xC4, 0xE3, 0xBA, 0xC3]" 2] by simp

text \<open>
  C39: \<open>SYN_FrameInfo\<close> writes beyond its array of 50 bytes exactly for the texts whose length, taken modulo 256, is greater than 44;
  a text of 256 bytes or more whose length modulo 256 is at most 44 is cut to that many bytes.
\<close>

theorem SYN_FrameInfo_overflow:
  assumes "length stack = 50"
  shows "(SYN_FrameInfo stack Music t = None \<longleftrightarrow> 44 < length t mod 256) \<and>
    (length t mod 256 \<le> 44 \<longrightarrow> SYN_FrameInfo stack Music t = SYN_FrameInfo stack Music (take (length t mod 256) t))"
proof -
  let ?n = "length t mod 256"
  have m: "?n = length (take ?n t) mod 256" by simp
  show ?thesis
    using frame_info_ok [OF assms refl, of Music t] frame_info_ok [OF assms m, of Music] by (simp add: Let_def)
qed

theorem SYN_FrameInfo_overflow_witness:
  "SYN_FrameInfo (replicate 50 0) 0 (replicate 45 0x41) = None"
  using SYN_FrameInfo_overflow [of "replicate 50 0" 0 "replicate 45 0x41"] by simp

end
