(* ===== verification/App_Bluetooth.thy ===== *)
theory App_Bluetooth
  imports App_Syn6288 RT_Mailbox
begin

unbundle bit_operations_syntax

text \<open>
  The Bluetooth receiver, \<open>applications/bluetooth.c\<close>: bytes from the serial line are collected until the end byte, and
  the address of the buffer is posted to the mailboxes of the speech, display and clock threads. The serial device is
  not part of the model: the bytes it delivers are arguments. \<open>None\<close>: memory outside the buffer is accessed.
\<close>

section \<open>Operations\<close>

abbreviation (input) DATA_CMD_END :: u8 where "DATA_CMD_END \<equiv> 0x61"

text \<open>The local buffer \<open>_data_[30+1]\<close> and the static index of \<open>data_parsing\<close>, and the bytes it has written back to the
  serial device; the three mailboxes and the address of the buffer.\<close>

record ble_parser =
  p_data :: "u8 list"
  p_i :: u8
  p_echo :: "u8 list"

record ble_targets =
  ble_mb_6288 :: nat
  ble_mb_oled :: nat
  ble_mb_time :: nat
  data_addr :: u32

definition uart_rx_ind :: "nat \<Rightarrow> u32 \<Rightarrow> kernel \<Rightarrow> (rt_err_t \<times> kernel) option" where
  "uart_rx_ind sem sz k =
    do {
      k \<leftarrow> (if 0 < sz then do { (_, k) \<leftarrow> rt_sem_release sem k; Some k } else Some k);
      Some (RT_EOK, k)
    }"

text \<open>One turn of the loop of \<open>uart_sample_get_char\<close>: \<open>rd\<close> is the byte that \<open>rt_device_read\<close> delivers, if any;
  \<open>Returned None\<close> means that the loop goes round again.\<close>

definition uart_sample_get_char :: "nat \<Rightarrow> u8 option \<Rightarrow> kernel \<Rightarrow> ((u8 option, tid) call \<times> kernel) option" where
  "uart_sample_get_char sem rd k =
    (case rd of
       Some ch \<Rightarrow> Some (Returned (Some ch), k)
     | None \<Rightarrow>
         do {
           (_, k) \<leftarrow> rt_sem_control sem 1 0 k;
           (r, k) \<leftarrow> rt_sem_take sem 0xFFFFFFFF k;
           Some (case r of Returned _ \<Rightarrow> Returned None | Suspended t \<Rightarrow> Suspended t, k)
         })"

text \<open>\<open>strchr(s, c) != NULL\<close>; \<open>None\<close>: the search leaves the array.\<close>

fun strchr :: "u8 list \<Rightarrow> u8 \<Rightarrow> bool option" where
  "strchr [] c = None"
| "strchr (x # xs) c = (if x = c then Some True else if x = 0 then Some False else strchr xs c)"

text \<open>Posting a complete message; \<open>'T'\<close> is 0x54 and \<open>'['\<close> is 0x5B.\<close>

definition ble_dispatch :: "ble_targets \<Rightarrow> u8 list \<Rightarrow> kernel \<Rightarrow> kernel option" where
  "ble_dispatch tg d k =
    do {
      control \<leftarrow> (if d ! 0 \<noteq> 0x54 then strchr d 0x5B else Some True);
      if d ! 0 \<noteq> 0x54 \<and> \<not> control then
        do {
          (_, k) \<leftarrow> rt_mb_send (ble_mb_6288 tg) (data_addr tg) k;
          (_, k) \<leftarrow> rt_mb_send (ble_mb_oled tg) (data_addr tg) k;
          Some k
        }
      else if d ! 0 = 0x54 then do { (_, k) \<leftarrow> rt_mb_send (ble_mb_time tg) (data_addr tg) k; Some k }
      else do { (_, k) \<leftarrow> rt_mb_send (ble_mb_6288 tg) (data_addr tg) k; Some k }
    }"

text \<open>One turn of the loop of \<open>data_parsing\<close> with the byte \<open>ch\<close>, and the loop over the bytes that arrive.\<close>

definition data_char :: "ble_targets \<Rightarrow> u8 \<Rightarrow> ble_parser \<times> kernel \<Rightarrow> (ble_parser \<times> kernel) option" where
  "data_char tg ch s =
    (case s of (p, k) \<Rightarrow>
       if ch = DATA_CMD_END then
         do {
           d \<leftarrow> array_set (unat (p_i p)) 0 (p_data p);
           k \<leftarrow> ble_dispatch tg d k;
           Some (p\<lparr>p_data := d, p_i := 0, p_echo := p_echo p @ [ch]\<rparr>, k)
         }
       else
         do {
           let i = (if p_i p \<ge> 30 then 30 else p_i p);
           d \<leftarrow> array_set (unat i) ch (p_data p);
           Some (p\<lparr>p_data := d, p_i := i + 1, p_echo := p_echo p @ [ch]\<rparr>, k)
         })"

fun data_parsing :: "ble_targets \<Rightarrow> u8 list \<Rightarrow> ble_parser \<times> kernel \<Rightarrow> (ble_parser \<times> kernel) option" where
  "data_parsing tg [] s = Some s"
| "data_parsing tg (ch # chs) s = do { s \<leftarrow> data_char tg ch s; data_parsing tg chs s }"

section \<open>Collecting bytes\<close>

lemma data_parsing_append: "data_parsing tg (xs @ ys) s = data_parsing tg xs s \<bind> data_parsing tg ys"
proof (induction xs arbitrary: s)
  case (Cons x xs)
  show ?case using Cons by (cases "data_char tg x s") simp_all
qed simp

text \<open>The index never exceeds 31, the length of the buffer, and reaches it when the buffer is full.\<close>

lemma collect_index:
  "length (p_data p) = 31 \<Longrightarrow> unat (p_i p) \<le> 31 \<Longrightarrow> DATA_CMD_END \<notin> set msg \<Longrightarrow>
    \<exists>p'. data_parsing tg msg (p, k) = Some (p', k) \<and> length (p_data p') = 31 \<and>
      unat (p_i p') = min 31 (unat (p_i p) + length msg)"
proof (induction msg arbitrary: p)
  case (Cons c cs)
  define i where "i = (if p_i p \<ge> 30 then 30 else p_i p)"
  have i: "unat i = min 30 (unat (p_i p))" by (simp add: i_def word_le_nat_alt min_def)
  then have i1: "unat (i + 1) = min 31 (unat (p_i p) + 1)" by (simp add: unat_word_ariths min_def)
  let ?p = "p\<lparr>p_data := (p_data p)[unat i := c], p_i := i + 1, p_echo := p_echo p @ [c]\<rparr>"
  have "data_char tg c (p, k) = Some (?p, k)"
    using Cons.prems i by (simp add: data_char_def i_def [symmetric] array_set_def)
  moreover obtain p' where "data_parsing tg cs (?p, k) = Some (p', k)" "length (p_data p') = 31"
      "unat (p_i p') = min 31 (unat (p_i ?p) + length cs)"
    using Cons.IH [of ?p] Cons.prems i1 by auto
  ultimately show ?case using i1 by auto
qed simp

lemma collect_data:
  "length (p_data p) = 31 \<Longrightarrow> unat (p_i p) + length msg \<le> 30 \<Longrightarrow> DATA_CMD_END \<notin> set msg \<Longrightarrow>
    \<exists>p' rest. data_parsing tg msg (p, k) = Some (p', k) \<and> unat (p_i p') = unat (p_i p) + length msg \<and>
      p_data p' = take (unat (p_i p)) (p_data p) @ msg @ rest \<and> length (p_data p') = 31 \<and> p_echo p' = p_echo p @ msg"
proof (induction msg arbitrary: p)
  case Nil
  then show ?case by (intro exI [of _ p] exI [of _ "drop (unat (p_i p)) (p_data p)"]) simp
next
  case (Cons c cs)
  have i: "\<not> p_i p \<ge> 30" "unat (p_i p) < 30" "unat (p_i p + 1) = Suc (unat (p_i p))"
    using Cons.prems(2) by (simp_all add: word_le_nat_alt unat_word_ariths)
  let ?p = "p\<lparr>p_data := (p_data p)[unat (p_i p) := c], p_i := p_i p + 1, p_echo := p_echo p @ [c]\<rparr>"
  have "data_char tg c (p, k) = Some (?p, k)"
    using Cons.prems i by (simp add: data_char_def array_set_def Let_def)
  moreover obtain p' rest where "data_parsing tg cs (?p, k) = Some (p', k)" "unat (p_i p') = unat (p_i ?p) + length cs"
      "p_data p' = take (unat (p_i ?p)) (p_data ?p) @ cs @ rest" "length (p_data p') = 31" "p_echo p' = p_echo ?p @ cs"
    using Cons.IH [of ?p] Cons.prems i by force
  moreover have "take (unat (p_i ?p)) (p_data ?p) = take (unat (p_i p)) (p_data p) @ [c]"
    using i Cons.prems(1) by (simp add: take_Suc_conv_app_nth)
  ultimately show ?case using i(2,3) Cons.prems(1) by (intro exI [of _ p'] exI [of _ rest]) (simp add: min_def)
qed

lemma strchr_message: "0 \<notin> set msg \<Longrightarrow> c \<noteq> 0 \<Longrightarrow> strchr (msg @ 0 # rest) c = Some (c \<in> set msg)"
  by (induction msg) auto

section \<open>Routing\<close>

text \<open>Who gets a message: one that begins with \<open>T\<close> sets the clock, one that contains a bracket
  controls the speech chip, any other is spoken and displayed.\<close>

definition ble_route :: "ble_targets \<Rightarrow> u8 list \<Rightarrow> nat set" where
  "ble_route tg msg =
    (if msg \<noteq> [] \<and> hd msg = 0x54 then {ble_mb_time tg}
     else if 0x5B \<in> set msg then {ble_mb_6288 tg}
     else {ble_mb_6288 tg, ble_mb_oled tg})"

text \<open>A mailbox with room for a mail.\<close>

definition mb_ready :: "nat \<Rightarrow> kernel \<Rightarrow> bool" where
  "mb_ready i k \<longleftrightarrow> ipc_live Class_MailBox i k \<and> mb_inv (mailboxes k i) \<and>
    length (mb_list (mailboxes k i)) < unat (mb_size (mailboxes k i))"

lemma mb_send_ready:
  assumes inv: "kinv k" and c: "cur k \<noteq> None" and r: "mb_ready i k"
  shows "\<exists>k'. rt_mb_send i v k = Some (Returned RT_EOK, k') \<and> kinv k' \<and> cur k' \<noteq> None \<and>
    mb_list (mailboxes k' i) = mb_list (mailboxes k i) @ [v] \<and>
    (\<forall>j. j \<noteq> i \<longrightarrow> mailboxes k' j = mailboxes k j \<and> mb_ready j k' = mb_ready j k)"
proof -
  have room: "mb_entry (mailboxes k i) \<noteq> mb_size (mailboxes k i)" using r by (auto simp: mb_ready_def mb_list_length)
  have mb: "mb_inv (mailboxes k i)" using r by (simp add: mb_ready_def)
  obtain k' where k': "mb_send_loop i (rt_thread_self k) v 0 k = Some (Returned RT_EOK, k')" "kinv k'"
      "mb_list (mailboxes k' i) = mb_list (mailboxes k i) @ [v]" "cur k' \<noteq> None"
      "\<forall>j. j \<noteq> i \<longrightarrow> mailboxes k' j = mailboxes k j" "\<forall>c j. ipc_live c j k' = ipc_live c j k"
    using mb_send_room [OF inv c mb room, of "rt_thread_self k" v 0] by blast
  have "rt_mb_send i v k = Some (Returned RT_EOK, k')"
    using k'(1) room r by (simp add: rt_mb_send_def rt_mb_send_wait_def mb_ready_def ipc_live_def)
  then show ?thesis using k' by (intro exI [of _ k']) (simp add: mb_ready_def)
qed

lemma ble_dispatch_ok:
  assumes inv: "kinv k" and c: "cur k \<noteq> None"
    and r: "mb_ready (ble_mb_6288 tg) k" "mb_ready (ble_mb_oled tg) k" "mb_ready (ble_mb_time tg) k"
    and ne: "ble_mb_6288 tg \<noteq> ble_mb_oled tg" and z: "0 \<notin> set msg"
  shows "\<exists>k'. ble_dispatch tg (msg @ 0 # rest) k = Some k' \<and> kinv k' \<and>
    (\<forall>j. mb_list (mailboxes k' j) = mb_list (mailboxes k j) @ (if j \<in> ble_route tg msg then [data_addr tg] else []))"
proof -
  have h: "(msg @ 0 # rest) ! 0 = 0x54 \<longleftrightarrow> msg \<noteq> [] \<and> hd msg = 0x54" by (cases msg) auto
  have s: "strchr (msg @ 0 # rest) 0x5B = Some (0x5B \<in> set msg)" by (rule strchr_message [OF z]) simp
  consider "msg \<noteq> [] \<and> hd msg = 0x54" | "\<not> (msg \<noteq> [] \<and> hd msg = 0x54)" "0x5B \<in> set msg"
    | "\<not> (msg \<noteq> [] \<and> hd msg = 0x54)" "0x5B \<notin> set msg" by blast
  then show ?thesis
  proof cases
    case 1
    obtain k' where "rt_mb_send (ble_mb_time tg) (data_addr tg) k = Some (Returned RT_EOK, k')" "kinv k'"
        "mb_list (mailboxes k' (ble_mb_time tg)) = mb_list (mailboxes k (ble_mb_time tg)) @ [data_addr tg]"
        "\<forall>j. j \<noteq> ble_mb_time tg \<longrightarrow> mailboxes k' j = mailboxes k j"
      using mb_send_ready [OF inv c r(3)] by blast
    then show ?thesis using 1 h by (intro exI [of _ k']) (simp add: ble_dispatch_def ble_route_def)
  next
    case 2
    obtain k' where "rt_mb_send (ble_mb_6288 tg) (data_addr tg) k = Some (Returned RT_EOK, k')" "kinv k'"
        "mb_list (mailboxes k' (ble_mb_6288 tg)) = mb_list (mailboxes k (ble_mb_6288 tg)) @ [data_addr tg]"
        "\<forall>j. j \<noteq> ble_mb_6288 tg \<longrightarrow> mailboxes k' j = mailboxes k j"
      using mb_send_ready [OF inv c r(1)] by blast
    then show ?thesis using 2 h s by (intro exI [of _ k']) (auto simp: ble_dispatch_def ble_route_def)
  next
    case 3
    obtain k1 where k1: "rt_mb_send (ble_mb_6288 tg) (data_addr tg) k = Some (Returned RT_EOK, k1)" "kinv k1" "cur k1 \<noteq> None"
        "mb_list (mailboxes k1 (ble_mb_6288 tg)) = mb_list (mailboxes k (ble_mb_6288 tg)) @ [data_addr tg]"
        "\<forall>j. j \<noteq> ble_mb_6288 tg \<longrightarrow> mailboxes k1 j = mailboxes k j \<and> mb_ready j k1 = mb_ready j k"
      using mb_send_ready [OF inv c r(1)] by blast
    have r1: "mb_ready (ble_mb_oled tg) k1" using k1(5) r(2) ne by metis
    obtain k2 where "rt_mb_send (ble_mb_oled tg) (data_addr tg) k1 = Some (Returned RT_EOK, k2)" "kinv k2"
        "mb_list (mailboxes k2 (ble_mb_oled tg)) = mb_list (mailboxes k1 (ble_mb_oled tg)) @ [data_addr tg]"
        "\<forall>j. j \<noteq> ble_mb_oled tg \<longrightarrow> mailboxes k2 j = mailboxes k1 j"
      using mb_send_ready [OF k1(2,3) r1] by blast
    then show ?thesis
      using 3 h s k1 ne by (intro exI [of _ k2]) (auto simp: ble_dispatch_def ble_route_def)
  qed
qed

section \<open>Properties\<close>

text \<open>
  C40: A message of up to 30 bytes followed by the end byte is collected into the buffer as a zero-terminated string, the
  address of the buffer is posted exactly once to each mailbox that the message is meant for and to no other, every byte is
  written back to the serial device, and the parser is ready for the next message. The kernel invariant holds.
\<close>

theorem ble_message_routed:
  assumes inv: "kinv k" and c: "cur k \<noteq> None"
    and r: "mb_ready (ble_mb_6288 tg) k" "mb_ready (ble_mb_oled tg) k" "mb_ready (ble_mb_time tg) k"
    and ne: "ble_mb_6288 tg \<noteq> ble_mb_oled tg" and p: "length (p_data p) = 31" "p_i p = 0"
    and msg: "length msg \<le> 30" "DATA_CMD_END \<notin> set msg" "0 \<notin> set msg"
  shows "\<exists>p' k'. data_parsing tg (msg @ [DATA_CMD_END]) (p, k) = Some (p', k') \<and> kinv k' \<and> p_i p' = 0 \<and>
    length (p_data p') = 31 \<and> take (length msg + 1) (p_data p') = msg @ [0] \<and> p_echo p' = p_echo p @ msg @ [DATA_CMD_END] \<and>
    (\<forall>j. mb_list (mailboxes k' j) = mb_list (mailboxes k j) @ (if j \<in> ble_route tg msg then [data_addr tg] else []))"
proof -
  obtain p1 rest where p1: "data_parsing tg msg (p, k) = Some (p1, k)" "unat (p_i p1) = length msg"
      "p_data p1 = msg @ rest" "length (p_data p1) = 31" "p_echo p1 = p_echo p @ msg"
    using collect_data [of p msg tg k] p msg by auto
  obtain y ys where rest: "rest = y # ys" using p1(3,4) msg(1) by (cases rest) auto
  have "array_set (unat (p_i p1)) 0 (p_data p1) = Some (msg @ 0 # ys)"
    using p1(2-4) msg(1) rest by (simp add: array_set_def)
  moreover obtain k' where "ble_dispatch tg (msg @ 0 # ys) k = Some k'" "kinv k'"
      "\<forall>j. mb_list (mailboxes k' j) = mb_list (mailboxes k j) @ (if j \<in> ble_route tg msg then [data_addr tg] else [])"
    using ble_dispatch_ok [OF inv c r ne msg(3)] by blast
  ultimately show ?thesis
    using p1 rest
    by (intro exI [of _ "p1\<lparr>p_data := msg @ 0 # ys, p_i := 0, p_echo := p_echo p1 @ [DATA_CMD_END]\<rparr>"] exI [of _ k'])
      (simp add: data_parsing_append data_char_def)
qed

definition demo_targets :: ble_targets where
  "demo_targets = \<lparr>ble_mb_6288 = 0, ble_mb_oled = 2, ble_mb_time = 3, data_addr = 0x20001000\<rparr>"

theorem ble_message_routed_witness:
  "\<exists>p' k'. data_parsing demo_targets ([0x48, 0x69] @ [DATA_CMD_END]) (\<lparr>p_data = replicate 31 0, p_i = 0, p_echo = []\<rparr>, demo_mb) = Some (p', k') \<and>
    kinv k' \<and> take 3 (p_data p') = [0x48, 0x69, 0] \<and> mb_list (mailboxes k' 0) = [0x20001000] \<and>
    mb_list (mailboxes k' 2) = [0x20001000] \<and> mb_list (mailboxes k' 3) = []"
proof -
  note d = demo_mb_facts
  have l: "mb_list (mailboxes demo_mb 0) = []" "mb_list (mailboxes demo_mb 2) = []" "mb_list (mailboxes demo_mb 3) = []"
    by (simp_all add: demo_mb_def demo_mailbox_def mb_list_def)
  then have r: "mb_ready 0 demo_mb" "mb_ready 2 demo_mb" "mb_ready 3 demo_mb"
    using d(2,5,14) by (simp_all add: mb_ready_def)
  have c: "cur demo_mb \<noteq> None" using d(4) by simp
  let ?p = "\<lparr>p_data = replicate 31 0, p_i = 0, p_echo = []\<rparr> :: ble_parser" and ?m = "[0x48, 0x69] :: u8 list"
  have h: "mb_ready (ble_mb_6288 demo_targets) demo_mb" "mb_ready (ble_mb_oled demo_targets) demo_mb"
    "mb_ready (ble_mb_time demo_targets) demo_mb" "ble_mb_6288 demo_targets \<noteq> ble_mb_oled demo_targets"
    using r by (simp_all add: demo_targets_def)
  obtain p' k' where k': "data_parsing demo_targets (?m @ [DATA_CMD_END]) (?p, demo_mb) = Some (p', k')" "kinv k'"
      "take (length ?m + 1) (p_data p') = ?m @ [0]"
      "\<forall>j. mb_list (mailboxes k' j) = mb_list (mailboxes demo_mb j) @ (if j \<in> ble_route demo_targets ?m then [data_addr demo_targets] else [])"
    using ble_message_routed [OF d(1) c h, of ?p ?m] by auto
  have "take 3 (p_data p') = [0x48, 0x69, 0]" using k'(3) by (simp add: numeral_3_eq_3)
  moreover have "mb_list (mailboxes k' 0) = [0x20001000]" "mb_list (mailboxes k' 2) = [0x20001000]" "mb_list (mailboxes k' 3) = []"
    using k'(4) l by (simp_all add: demo_targets_def ble_route_def)
  ultimately show ?thesis using k'(1,2) by blast
qed

text \<open>
  After 31 or more bytes without an end byte the index stands at 31, one past the end of the buffer, and the end
  byte then writes its zero outside the buffer.
\<close>

theorem ble_message_overflow:
  assumes "length (p_data p) = 31" "p_i p = 0" "31 \<le> length msg" "DATA_CMD_END \<notin> set msg"
  shows "\<exists>p'. data_parsing tg msg (p, k) = Some (p', k) \<and> p_i p' = 31 \<and>
    data_parsing tg (msg @ [DATA_CMD_END]) (p, k) = None"
proof -
  obtain p' where p': "data_parsing tg msg (p, k) = Some (p', k)" "length (p_data p') = 31" "unat (p_i p') = 31"
    using collect_index [of p msg tg k] assms by auto
  then have "p_i p' = 31" by (simp add: word_unat_eq_iff)
  then show ?thesis using p' by (simp add: data_parsing_append data_char_def array_set_def)
qed

theorem ble_message_overflow_witness:
  "data_parsing demo_targets (replicate 31 0x42 @ [DATA_CMD_END]) (\<lparr>p_data = replicate 31 0, p_i = 0, p_echo = []\<rparr>, demo_mb) = None"
  using ble_message_overflow [of "\<lparr>p_data = replicate 31 0, p_i = 0, p_echo = []\<rparr>" "replicate 31 0x42" demo_targets demo_mb]
  by auto

end
